(* ===== verification/Prelude.thy ===== *)
theory Prelude
  imports Main "HOL-Library.Word"
begin

text \<open>
  Shared vocabulary of the development: the run-time failures of C code as values, the result
  monad the component models are written in, byte blocks with a bounded write, the C character
  constants and classification functions, fixed-width integer types, and the generic lemmas the
  component theories rely on.
\<close>

named_theorems res_simps \<open>case analysis of monadic C code\<close>
named_theorems block_simps \<open>reading and writing byte blocks\<close>

section \<open>Machine integers\<close>

type_synonym u8 = "8 word"
type_synonym u16 = "16 word"
type_synonym u32 = "32 word"
type_synonym u64 = "64 word"
type_synonym i32 = "32 word"

lemma sint_of_nat_small: "n < 2 ^ 31 \<Longrightarrow> sint (of_nat n :: i32) = int n"
  by (simp add: signed_of_nat signed_take_bit_int_eq_self)

section \<open>C failures and the result monad\<close>

text \<open>
  What a C function does when it does not return: a failed \<open>assert\<close> (the program aborts), an
  access outside the allocated block, a dereference of a null pointer, of freed memory or of a
  stale index, a read of memory that was never initialised, an overflow of a signed integer, a
  call of \<open>exit\<close> with an error, a recursion without an end, and waiting for a lock for ever.
\<close>

datatype c_error =
    AssertFail
  | OutOfBounds
  | NullDeref
  | UseAfterFree
  | UninitRead
  | SignedOverflow
  | ExitError
  | StackOverflow
  | Hang

type_synonym 'a cres = "c_error + 'a"

definition rbind :: "'e + 'a \<Rightarrow> ('a \<Rightarrow> 'e + 'b) \<Rightarrow> 'e + 'b" where
  "rbind m f = (case m of Inl e \<Rightarrow> Inl e | Inr x \<Rightarrow> f x)"

definition c_assert :: "bool \<Rightarrow> unit cres" where
  "c_assert b = (if b then Inr () else Inl AssertFail)"

lemma rbind_Inl [simp]: "rbind (Inl e) f = Inl e"
  by (simp add: rbind_def)

lemma rbind_Inr [simp]: "rbind (Inr x) f = f x"
  by (simp add: rbind_def)

lemma rbind_eq_Inr [res_simps]: "rbind m f = Inr y \<longleftrightarrow> (\<exists>x. m = Inr x \<and> f x = Inr y)"
  by (cases m) simp_all

lemma rbind_eq_Inl [res_simps]:
  "rbind m f = Inl e \<longleftrightarrow> m = Inl e \<or> (\<exists>x. m = Inr x \<and> f x = Inl e)"
  by (cases m) simp_all

lemma rbind_assoc: "rbind (rbind m f) g = rbind m (\<lambda>x. rbind (f x) g)"
  by (cases m) simp_all

lemma rbind_cong [fundef_cong]:
  "m = m' \<Longrightarrow> (\<And>x. m' = Inr x \<Longrightarrow> f x = f' x) \<Longrightarrow> rbind m f = rbind m' f'"
  by (cases m') simp_all

lemma c_assert_eq [simp]:
  "c_assert b = Inr u \<longleftrightarrow> b" "c_assert b = Inl e \<longleftrightarrow> \<not> b \<and> e = AssertFail"
  by (auto simp: c_assert_def)

lemma c_assert_True [simp]: "c_assert True = Inr ()"
  by (simp add: c_assert_def)

lemma c_assert_False [simp]: "c_assert False = Inl AssertFail"
  by (simp add: c_assert_def)

section \<open>Blocks of memory\<close>

text \<open>
  A block is the list of the cells written so far, from its start. \<open>mem_write m off xs\<close> is the
  block after a \<open>memcpy\<close> of \<open>xs\<close> to offset \<open>off\<close>; its callers check the bound against the
  allocated size, which the list does not carry.
\<close>

definition mem_write :: "'a list \<Rightarrow> nat \<Rightarrow> 'a list \<Rightarrow> 'a list" where
  "mem_write m off xs = take off m @ xs @ drop (off + length xs) m"

lemma mem_write_Nil [simp]: "mem_write m off [] = m"
  by (simp add: mem_write_def)

lemma length_mem_write [block_simps]:
  "off \<le> length m \<Longrightarrow> length (mem_write m off xs) = max (length m) (off + length xs)"
  by (auto simp: mem_write_def)

lemma take_mem_write_end [block_simps]:
  "off \<le> length m \<Longrightarrow> take (off + length xs) (mem_write m off xs) = take off m @ xs"
  by (simp add: mem_write_def)

lemma take_mem_write_before [block_simps]:
  "k \<le> off \<Longrightarrow> off \<le> length m \<Longrightarrow> take k (mem_write m off xs) = take k m"
  by (simp add: mem_write_def min_def)

lemma drop_mem_write_after [block_simps]:
  "off + length xs \<le> k \<Longrightarrow> off \<le> length m \<Longrightarrow> drop k (mem_write m off xs) = drop k m"
  by (simp add: mem_write_def)

lemma mem_write_append: "mem_write (as @ bs) (length as + k) xs = as @ mem_write bs k xs"
  by (simp add: mem_write_def add.assoc)

lemma mem_write_mem_write:
  "off \<le> length m \<Longrightarrow> mem_write (mem_write m off xs) (off + length xs) ys = mem_write m off (xs @ ys)"
  by (simp add: mem_write_def add.commute add.left_commute)

section \<open>Arrays\<close>

text \<open>An array is the list of all its cells; an access outside of it is an error.\<close>

definition arr_get :: "'a list \<Rightarrow> nat \<Rightarrow> 'a cres" where
  "arr_get xs i = (if i < length xs then Inr (xs ! i) else Inl OutOfBounds)"

definition arr_put :: "'a list \<Rightarrow> nat \<Rightarrow> 'a \<Rightarrow> 'a list cres" where
  "arr_put xs i x = (if i < length xs then Inr (xs[i := x]) else Inl OutOfBounds)"

text \<open>The cells from \<open>i\<close> up to and without \<open>j\<close>.\<close>

definition seg :: "'a list \<Rightarrow> nat \<Rightarrow> nat \<Rightarrow> 'a list" where
  "seg xs i j = drop i (take j xs)"

lemma arr_get_Inr [simp]: "i < length xs \<Longrightarrow> arr_get xs i = Inr (xs ! i)"
  by (simp add: arr_get_def)

lemma arr_put_Inr [simp]: "i < length xs \<Longrightarrow> arr_put xs i x = Inr (xs[i := x])"
  by (simp add: arr_put_def)

lemma length_seg [simp]: "j \<le> length xs \<Longrightarrow> length (seg xs i j) = j - i"
  by (simp add: seg_def)

lemma seg_empty [simp]: "j \<le> i \<Longrightarrow> seg xs i j = []"
  by (simp add: seg_def)

lemma seg_Cons: "i < j \<Longrightarrow> j \<le> length xs \<Longrightarrow> seg xs i j = xs ! i # seg xs (Suc i) j"
  by (simp add: seg_def Cons_nth_drop_Suc [symmetric])

lemma seg_append: "i \<le> k \<Longrightarrow> k \<le> j \<Longrightarrow> j \<le> length xs \<Longrightarrow> seg xs i k @ seg xs k j = seg xs i j"
  by (rule nth_equalityI) (auto simp: seg_def nth_append add.commute)

lemma seg_full: "seg xs 0 j = take j xs"
  by (simp add: seg_def)

lemma nth_seg: "i + k < j \<Longrightarrow> j \<le> length xs \<Longrightarrow> seg xs i j ! k = xs ! (i + k)"
  by (simp add: seg_def)

text \<open>The sum of two non-negative \<open>int\<close>s.\<close>

definition int_add :: "nat \<Rightarrow> nat \<Rightarrow> nat cres" where
  "int_add a b = (if a + b < 2 ^ 31 then Inr (a + b) else Inl SignedOverflow)"

lemma int_add_Inr [simp]: "a + b < 2 ^ 31 \<Longrightarrow> int_add a b = Inr (a + b)"
  by (simp add: int_add_def)

section \<open>Integers in memory\<close>

text \<open>The four bytes of an \<open>int\<close>, the lowest first, and the number that bytes stand for.\<close>

definition int_bytes :: "i32 \<Rightarrow> char list" where
  "int_bytes x = map (\<lambda>i. char_of (unat x div 256 ^ i mod 256)) [0, 1, 2, 3]"

fun bytes_nat :: "char list \<Rightarrow> nat" where
  "bytes_nat [] = 0"
| "bytes_nat (b # bs) = of_char b + 256 * bytes_nat bs"

lemma length_int_bytes [simp]: "length (int_bytes x) = 4"
  by (simp add: int_bytes_def)

lemma digits_256:
  assumes "n < 2 ^ 32"
  shows "n mod 256 + 256 * (n div 256 mod 256 + 256 * (n div 65536 mod 256 + 256 * (n div 16777216 mod 256))) = (n::nat)"
proof -
  have d: "n div 65536 = n div 256 div 256" "n div 16777216 = n div 65536 div 256"
    by (simp_all add: div_mult2_eq [symmetric])
  have "n div 16777216 mod 256 = n div 16777216" using assms by (simp add: div_less_iff_less_mult)
  then show ?thesis unfolding d by (simp add: mod_div_mult_eq add.commute mult.commute)
qed

lemma bytes_nat_int_bytes [simp]: "bytes_nat (int_bytes x) = unat x"
proof -
  have "unat x < 2 ^ 32" using unsigned_less [of x] by simp
  moreover from this have "unat x div 16777216 mod 256 = unat x div 16777216"
    by (simp add: div_less_iff_less_mult)
  ultimately show ?thesis using digits_256 [of "unat x"]
    by (simp add: int_bytes_def power_numeral_reduce)
qed

section \<open>Linked structures\<close>

text \<open>The pointer to the first of the cells at the addresses \<open>as\<close>.\<close>

definition ptr_hd :: "nat list \<Rightarrow> nat option" where
  "ptr_hd as = (if as = [] then None else Some (hd as))"

lemma ptr_hd_simps [simp]: "ptr_hd [] = None" "ptr_hd (a # as) = Some a"
  by (simp_all add: ptr_hd_def)

section \<open>Characters\<close>

abbreviation (input) ch_nul :: char where "ch_nul \<equiv> CHR 0x00"
abbreviation (input) ch_tab :: char where "ch_tab \<equiv> CHR 0x09"
abbreviation (input) ch_nl :: char where "ch_nl \<equiv> CHR 0x0A"
abbreviation (input) ch_vt :: char where "ch_vt \<equiv> CHR 0x0B"
abbreviation (input) ch_ff :: char where "ch_ff \<equiv> CHR 0x0C"
abbreviation (input) ch_cr :: char where "ch_cr \<equiv> CHR 0x0D"
abbreviation (input) ch_space :: char where "ch_space \<equiv> CHR 0x20"
abbreviation (input) ch_dquote :: char where "ch_dquote \<equiv> CHR 0x22"
abbreviation (input) ch_hash :: char where "ch_hash \<equiv> CHR 0x23"
abbreviation (input) ch_amp :: char where "ch_amp \<equiv> CHR 0x26"
abbreviation (input) ch_squote :: char where "ch_squote \<equiv> CHR 0x27"
abbreviation (input) ch_gt :: char where "ch_gt \<equiv> CHR 0x3E"
abbreviation (input) ch_bslash :: char where "ch_bslash \<equiv> CHR 0x5C"
abbreviation (input) ch_pipe :: char where "ch_pipe \<equiv> CHR 0x7C"

text \<open>\<open>isspace\<close> of the C locale.\<close>

definition isspace :: "char \<Rightarrow> bool" where
  "isspace c \<longleftrightarrow> c = ch_space \<or> c = ch_tab \<or> c = ch_nl \<or> c = ch_vt \<or> c = ch_ff \<or> c = ch_cr"

text \<open>A C string in a block ends at the first NUL.\<close>

definition c_str :: "char list \<Rightarrow> char list" where
  "c_str m = takeWhile (\<lambda>c. c \<noteq> ch_nul) m"

lemma c_str_append_nul [simp]: "ch_nul \<notin> set s \<Longrightarrow> c_str (s @ ch_nul # t) = s"
  by (induction s) (auto simp: c_str_def)

lemma c_str_no_nul [simp]: "ch_nul \<notin> set s \<Longrightarrow> c_str s = s"
  by (auto simp: c_str_def takeWhile_eq_all_conv)

lemma nul_notin_c_str [simp]: "ch_nul \<notin> set (c_str s)"
  by (auto simp: c_str_def dest: set_takeWhileD)

text \<open>\<open>atoi\<close>: spaces, a sign and digits; the value of \<open>strtol\<close> cut to 32 bits.\<close>

fun atoi_digits :: "int \<Rightarrow> string \<Rightarrow> int" where
  "atoi_digits n [] = n"
| "atoi_digits n (c # cs) =
     (if 48 \<le> (of_char c :: int) \<and> (of_char c :: int) \<le> 57
      then atoi_digits (10 * n + (of_char c - 48)) cs else n)"

definition atoi :: "string \<Rightarrow> int" where
  "atoi s =
     (let s = dropWhile isspace s;
          v = (case s of
                 [] \<Rightarrow> 0
               | c # cs \<Rightarrow> if c = CHR ''-'' then - atoi_digits 0 cs
                          else if c = CHR ''+'' then atoi_digits 0 cs
                          else atoi_digits 0 (c # cs))
      in sint (word_of_int (max (- (2 ^ 63)) (min (2 ^ 63 - 1) v)) :: i32))"

section \<open>Words\<close>

lemma unat_add_nowrap:
  fixes a b :: "'n::len word"
  shows "unat a + unat b < 2 ^ LENGTH('n) \<Longrightarrow> unat (a + b) = unat a + unat b"
  by (simp add: unat_word_ariths)

lemma unat_Suc_nowrap:
  fixes a :: "'n::len word"
  shows "unat a + 1 < 2 ^ LENGTH('n) \<Longrightarrow> unat (a + 1) = unat a + 1"
  by (cases "LENGTH('n) = 0") (simp_all add: unat_word_ariths)

lemma unat_sub_le:
  fixes a b :: "'n::len word"
  shows "b \<le> a \<Longrightarrow> unat (a - b) = unat a - unat b"
  by (rule unat_sub)

lemma word_less_imp_Suc:
  fixes a b :: "'n::len word"
  assumes "a < b"
  shows "unat (a + 1) = unat a + 1"
proof -
  have "unat a < unat b" using assms by (simp add: word_less_nat_alt)
  moreover have "unat b < 2 ^ LENGTH('n)" by simp
  ultimately have "unat a + 1 < 2 ^ LENGTH('n)" by linarith
  then show ?thesis by (rule unat_Suc_nowrap)
qed

section \<open>Sums over a list\<close>

definition tally :: "('a \<Rightarrow> nat) \<Rightarrow> 'a list \<Rightarrow> nat" where
  "tally f ts = sum_list (map f ts)"

lemma tally_simps [simp]: "tally f [] = 0" "tally f (t # ts) = f t + tally f ts" "tally f (ts @ us) = tally f ts + tally f us"
  by (simp_all add: tally_def)

lemma tally_update: "i < length ts \<Longrightarrow> tally f (ts[i := t]) + f (ts ! i) = tally f ts + f t"
  by (induction ts arbitrary: i) (auto split: nat.split)

lemma tally_nth: "i < length ts \<Longrightarrow> f (ts ! i) \<le> tally f ts"
  by (induction ts arbitrary: i) (auto simp: nth_Cons trans_le_add2 split: nat.splits)

lemma tally_two: "i < length ts \<Longrightarrow> j < length ts \<Longrightarrow> i \<noteq> j \<Longrightarrow> f (ts ! i) + f (ts ! j) \<le> tally f ts"
proof (induction ts arbitrary: i j)
  case (Cons t ts)
  then show ?case
    using tally_nth[of _ ts f] by (cases i; cases j) (fastforce simp: add.commute trans_le_add2)+
qed simp

lemma tally_le: "\<forall>t \<in> set ts. f t \<le> g t + c \<Longrightarrow> tally f ts \<le> tally g ts + c * length ts"
  by (induction ts) auto

lemma tally_pos: "tally f ts > 0 \<longleftrightarrow> (\<exists>t \<in> set ts. f t > 0)"
  by (induction ts) auto

lemma tally_const: "\<forall>t \<in> set ts. f t = c \<Longrightarrow> tally f ts = c * length ts"
  by (induction ts) auto

lemma sum_change:
  fixes f g :: "nat \<Rightarrow> 'b::comm_monoid_add"
  assumes "i < n" "\<And>j. j \<noteq> i \<Longrightarrow> g j = f j"
  shows "(\<Sum>j < n. g j) + f i = (\<Sum>j < n. f j) + g i"
  using assms sum.remove[of "{..<n}" i g] sum.remove[of "{..<n}" i f] sum.cong[of "{..<n} - {i}" _ g f]
  by (simp add: ac_simps)

section \<open>Systems that come to an end\<close>

text \<open>
  A step relation whose steps keep an invariant and use up some work, and that is stuck only where it
  has finished. The choice of the next step is free: this is the contract of every schedule.
\<close>

locale progress =
  fixes step :: "'s \<Rightarrow> 's \<Rightarrow> bool" and inv :: "'s \<Rightarrow> bool" and work :: "'s \<Rightarrow> nat" and finished :: "'s \<Rightarrow> bool"
  assumes step_inv: "inv s \<Longrightarrow> step s s' \<Longrightarrow> inv s'"
    and step_work: "inv s \<Longrightarrow> step s s' \<Longrightarrow> work s' < work s"
    and stuck_finished: "inv s \<Longrightarrow> \<nexists>s'. step s s' \<Longrightarrow> finished s"
begin

lemma run_inv: "(step ^^ k) s s' \<Longrightarrow> inv s \<Longrightarrow> inv s' \<and> k + work s' \<le> work s"
proof (induction k arbitrary: s')
  case (Suc k)
  then obtain t where "(step ^^ k) s t" "step t s'" by auto
  with Suc step_inv[of t s'] step_work[of t s'] show ?case by fastforce
qed simp

lemma reach_inv: "step\<^sup>*\<^sup>* s s' \<Longrightarrow> inv s \<Longrightarrow> inv s'"
  by (induction rule: rtranclp_induct) (auto dest: step_inv)

lemma can_finish: "inv s \<Longrightarrow> \<exists>s'. step\<^sup>*\<^sup>* s s' \<and> inv s' \<and> finished s'"
proof (induction "work s" arbitrary: s rule: less_induct)
  case less
  show ?case
  proof (cases "\<exists>s'. step s s'")
    case True
    then obtain s' where s': "step s s'" ..
    with less step_inv step_work obtain u where "step\<^sup>*\<^sup>* s' u" "inv u" "finished u" by blast
    with s' show ?thesis by (meson converse_rtranclp_into_rtranclp)
  qed (use less.prems stuck_finished in blast)
qed

lemma finishes:
  "(step ^^ k) s s' \<Longrightarrow> inv s \<Longrightarrow>
     k \<le> work s \<and> (\<exists>s''. step\<^sup>*\<^sup>* s' s'' \<and> finished s'') \<and> ((\<exists>s''. step s' s'') \<or> finished s')"
  using run_inv[of k s s'] can_finish[of s'] stuck_finished[of s'] by fastforce

end

end
