(* ===== verification/Parser.thy ===== *)
theory Parser
  imports Prelude
begin

text \<open>
  The shell's line parser, src/2/parser.c: the growing input buffer (\<open>parser_feed\<close>,
  \<open>parser_consume\<close>), the tokenizer (\<open>parse_token\<close>) and the line parser
  (\<open>parser_pop_next\<close>). Sizes and capacities are 32-bit words as in the code; positions inside
  the buffer are naturals, since they never exceed the 32-bit buffer size. A failed \<open>assert\<close> or
  an access outside a block is a value of \<open>c_error\<close>.
\<close>

section \<open>Data\<close>

record parser =
  p_buffer :: "char list"
  p_size :: u32
  p_capacity :: u32

datatype token_type =
    TOKEN_TYPE_NONE
  | TOKEN_TYPE_STR
  | TOKEN_TYPE_NEW_LINE
  | TOKEN_TYPE_PIPE
  | TOKEN_TYPE_AND
  | TOKEN_TYPE_OR
  | TOKEN_TYPE_OUT_NEW
  | TOKEN_TYPE_OUT_APPEND
  | TOKEN_TYPE_BACKGROUND

record token =
  t_type :: token_type
  t_data :: "char list"
  t_size :: u32
  t_capacity :: u32

datatype parser_error =
    PARSER_ERR_NONE
  | PARSER_ERR_PIPE_WITH_NO_LEFT_ARG
  | PARSER_ERR_PIPE_WITH_LEFT_ARG_NOT_A_COMMAND
  | PARSER_ERR_AND_WITH_NO_LEFT_ARG
  | PARSER_ERR_AND_WITH_LEFT_ARG_NOT_A_COMMAND
  | PARSER_ERR_OR_WITH_NO_LEFT_ARG
  | PARSER_ERR_OR_WITH_LEFT_ARG_NOT_A_COMMAND
  | PARSER_ERR_OUTOUT_REDIRECT_BAD_ARG
  | PARSER_ERR_TOO_LATE_ARGUMENTS
  | PARSER_ERR_ENDS_NOT_WITH_A_COMMAND

record command =
  exe :: string
  args :: "string list"
  arg_count :: u32
  arg_capacity :: u32

text \<open>The tag of \<open>struct expr\<close> and its command, which is valid for the tag COMMAND only.\<close>

datatype expr =
    EXPR_TYPE_COMMAND command
  | EXPR_TYPE_PIPE
  | EXPR_TYPE_AND
  | EXPR_TYPE_OR

datatype output_type =
    OUTPUT_TYPE_STDOUT
  | OUTPUT_TYPE_FILE_NEW
  | OUTPUT_TYPE_FILE_APPEND

text \<open>
  The singly linked list from \<open>head\<close> to \<open>tail\<close> is the list \<open>exprs\<close> in the order of the
  \<open>next\<close> links; \<open>tail\<close> is its last element and is NULL iff the list is empty.
\<close>

record command_line =
  exprs :: "expr list"
  out_type :: output_type
  out_file :: "string option"
  is_background :: bool

section \<open>Tokens\<close>

definition token_strdup :: "token \<Rightarrow> string cres" where
  "token_strdup t =
     rbind (c_assert (t_type t = TOKEN_TYPE_STR)) (\<lambda>_.
     rbind (c_assert (t_size t > 0)) (\<lambda>_.
     Inr (take (unat (t_size t)) (t_data t))))"

definition token_append :: "token \<Rightarrow> char \<Rightarrow> token cres" where
  "token_append t c =
     rbind (if t_size t = t_capacity t
            then Inr (t\<lparr>t_capacity := (t_capacity t + 1) * 2\<rparr>)
            else rbind (c_assert (t_size t < t_capacity t)) (\<lambda>_. Inr t)) (\<lambda>t.
     if t_size t < t_capacity t
     then Inr (t\<lparr>t_data := mem_write (t_data t) (unat (t_size t)) [c], t_size := t_size t + 1\<rparr>)
     else Inl OutOfBounds)"

definition token_reset :: "token \<Rightarrow> token" where
  "token_reset t = t\<lparr>t_size := 0, t_type := TOKEN_TYPE_NONE\<rparr>"

definition token_zero :: token where
  "token_zero = \<lparr>t_type = TOKEN_TYPE_NONE, t_data = [], t_size = 0, t_capacity = 0\<rparr>"

section \<open>Command lines\<close>

definition command_append_arg :: "command \<Rightarrow> string \<Rightarrow> command cres" where
  "command_append_arg cmd arg =
     rbind (if arg_count cmd = arg_capacity cmd
            then Inr (cmd\<lparr>arg_capacity := (arg_capacity cmd + 1) * 2\<rparr>)
            else rbind (c_assert (arg_count cmd < arg_capacity cmd)) (\<lambda>_. Inr cmd)) (\<lambda>cmd.
     if arg_count cmd < arg_capacity cmd
     then Inr (cmd\<lparr>args := mem_write (args cmd) (unat (arg_count cmd)) [arg],
                   arg_count := arg_count cmd + 1\<rparr>)
     else Inl OutOfBounds)"

definition command_line_zero :: command_line where
  "command_line_zero =
     \<lparr>exprs = [], out_type = OUTPUT_TYPE_STDOUT, out_file = None, is_background = False\<rparr>"

definition command_line_append :: "command_line \<Rightarrow> expr \<Rightarrow> command_line" where
  "command_line_append line e = line\<lparr>exprs := exprs line @ [e]\<rparr>"

text \<open>
  The heap objects of a line: the strings and the argument array of its \<open>i\<close>-th expression, the
  expression itself, the file name and the line. \<open>command_line_delete\<close> is the list of the objects
  it frees, in order; \<open>free(NULL)\<close> frees nothing.
\<close>

datatype line_alloc =
    Alloc_exe nat
  | Alloc_arg nat nat
  | Alloc_args nat
  | Alloc_expr nat
  | Alloc_out_file
  | Alloc_line

fun expr_frees :: "nat \<Rightarrow> expr \<Rightarrow> line_alloc list" where
  "expr_frees i (EXPR_TYPE_COMMAND cmd) =
     Alloc_exe i # map (Alloc_arg i) [0..<unat (arg_count cmd)] @
     (if arg_capacity cmd = 0 then [] else [Alloc_args i]) @ [Alloc_expr i]"
| "expr_frees i _ = [Alloc_expr i]"

fun exprs_frees :: "nat \<Rightarrow> expr list \<Rightarrow> line_alloc list" where
  "exprs_frees i [] = []"
| "exprs_frees i (e # es) = expr_frees i e @ exprs_frees (Suc i) es"

definition command_line_delete :: "command_line \<Rightarrow> line_alloc list" where
  "command_line_delete line =
     exprs_frees 0 (exprs line) @
     (if out_file line = None then [] else [Alloc_out_file]) @ [Alloc_line]"

text \<open>\<open>line->tail\<close>: the last expression, if there is one.\<close>

definition line_tail :: "command_line \<Rightarrow> expr option" where
  "line_tail line = (if exprs line = [] then None else Some (last (exprs line)))"

section \<open>The input buffer\<close>

definition parser_new :: parser where
  "parser_new = \<lparr>p_buffer = [], p_size = 0, p_capacity = 0\<rparr>"

definition parser_feed :: "parser \<Rightarrow> char list \<Rightarrow> u32 \<Rightarrow> parser cres" where
  "parser_feed p str len =
     (let cap = p_capacity p - p_size p;
          p = (if cap < len
               then let new_capacity = (p_capacity p + 1) * 2;
                        new_capacity = (if new_capacity - p_size p < len
                                        then p_size p + len else new_capacity)
                    in p\<lparr>p_buffer := take (unat new_capacity) (p_buffer p),
                         p_capacity := new_capacity\<rparr>
               else p)
      in if length str < unat len \<or> unat (p_size p) + unat len > unat (p_capacity p)
         then Inl OutOfBounds
         else let p = p\<lparr>p_buffer := mem_write (p_buffer p) (unat (p_size p)) (take (unat len) str),
                        p_size := p_size p + len\<rparr>
              in rbind (c_assert (p_size p \<le> p_capacity p)) (\<lambda>_. Inr p))"

definition parser_consume :: "parser \<Rightarrow> u32 \<Rightarrow> parser cres" where
  "parser_consume p sz =
     rbind (c_assert (p_size p \<ge> sz)) (\<lambda>_.
     if sz = p_size p then Inr (p\<lparr>p_size := 0\<rparr>)
     else Inr (p\<lparr>p_buffer := mem_write (p_buffer p) 0
                   (take (unat (p_size p - sz)) (drop (unat sz) (p_buffer p))),
                 p_size := p_size p - sz\<rparr>))"

section \<open>The tokenizer\<close>

text \<open>
  The first loop of \<open>parse_token\<close>: skip spaces up to a new line. \<open>n\<close> is \<open>pos - begin\<close> and the
  list is the text from \<open>pos\<close> to \<open>end\<close>; \<open>Inl used\<close> is the return on a new line.
\<close>

fun parse_token_spaces :: "nat \<Rightarrow> char list \<Rightarrow> nat + nat \<times> char list" where
  "parse_token_spaces n [] = Inr (n, [])"
| "parse_token_spaces n (c # cs) =
     (if \<not> isspace c then Inr (n, c # cs)
      else if c = ch_nl then Inl (n + 1)
      else parse_token_spaces (n + 1) cs)"

text \<open>
  The comment loop: skip to the new line that ends it; \<open>n\<close> is the offset of the text from the
  comment's start and \<open>None\<close> the return of 0 when the text ends first.
\<close>

fun parse_token_comment :: "nat \<Rightarrow> char list \<Rightarrow> nat option" where
  "parse_token_comment n [] = None"
| "parse_token_comment n (c # cs) =
     (if c = ch_nl then Some (n + 1) else parse_token_comment (n + 1) cs)"

text \<open>The operator that starts at \<open>c\<close> when the next character is \<open>d\<close>.\<close>

definition parse_token_operator :: "char \<Rightarrow> char \<Rightarrow> token_type \<times> nat" where
  "parse_token_operator c d =
     (if d = c
      then (if c = ch_amp then TOKEN_TYPE_AND
            else if c = ch_pipe then TOKEN_TYPE_OR else TOKEN_TYPE_OUT_APPEND, 2)
      else (if c = ch_amp then TOKEN_TYPE_BACKGROUND
            else if c = ch_pipe then TOKEN_TYPE_PIPE else TOKEN_TYPE_OUT_NEW, 1))"

text \<open>The labels of the \<open>switch\<close> over the current character.\<close>

datatype token_char =
    Ch_quote
  | Ch_backslash
  | Ch_operator
  | Ch_blank
  | Ch_new_line
  | Ch_hash
  | Ch_default

definition token_char :: "char \<Rightarrow> token_char" where
  "token_char c =
     (if c = ch_squote \<or> c = ch_dquote then Ch_quote
      else if c = ch_bslash then Ch_backslash
      else if c = ch_amp \<or> c = ch_pipe \<or> c = ch_gt then Ch_operator
      else if c = ch_space \<or> c = ch_tab \<or> c = ch_cr then Ch_blank
      else if c = ch_nl then Ch_new_line
      else if c = ch_hash then Ch_hash
      else Ch_default)"

text \<open>
  One iteration of the second loop, at the character \<open>c\<close> with \<open>cs\<close> after it. \<open>quote\<close> is the
  open quote or NUL. The iteration returns \<open>pos + k - begin\<close>, or returns 0 because the text ends
  too early, or goes on after \<open>k\<close> more characters than \<open>c\<close> itself.
\<close>

datatype token_step =
    Tok_return nat token
  | Tok_incomplete token
  | Tok_next nat char token

definition append_and_next :: "char \<Rightarrow> token \<Rightarrow> char \<Rightarrow> nat \<Rightarrow> token_step cres" where
  "append_and_next quote out c k = rbind (token_append out c) (\<lambda>out. Inr (Tok_next k quote out))"

definition parse_token_step :: "char \<Rightarrow> token \<Rightarrow> char \<Rightarrow> char list \<Rightarrow> token_step cres" where
  "parse_token_step quote out c cs =
     (case token_char c of
        Ch_quote \<Rightarrow>
          (if quote = ch_nul then
             (if cs = [] then Inr (Tok_incomplete out) else Inr (Tok_next 0 c out))
           else if quote \<noteq> c then append_and_next quote out c 0
           else Inr (Tok_return 1 (out\<lparr>t_type := TOKEN_TYPE_STR\<rparr>)))
      | Ch_backslash \<Rightarrow>
          (if quote = ch_squote then append_and_next quote out c 0
           else if quote = ch_dquote then
             (case cs of [] \<Rightarrow> Inr (Tok_incomplete out)
              | d # ds \<Rightarrow>
                  if d = ch_bslash then append_and_next quote out d 1
                  else if d = ch_nl then Inr (Tok_next 1 quote out)
                  else if d = ch_dquote then append_and_next quote out d 1
                  else rbind (token_append out ch_bslash) (\<lambda>out. append_and_next quote out d 1))
           else
             rbind (c_assert (quote = ch_nul)) (\<lambda>_.
             (case cs of [] \<Rightarrow> Inr (Tok_incomplete out)
              | d # ds \<Rightarrow>
                  if d = ch_nl then Inr (Tok_next 1 quote out)
                  else append_and_next quote out d 1)))
      | Ch_operator \<Rightarrow>
          (if quote = ch_dquote then append_and_next quote out c 0
           else if t_size out > 0 then Inr (Tok_return 0 (out\<lparr>t_type := TOKEN_TYPE_STR\<rparr>))
           else (case cs of [] \<Rightarrow> Inr (Tok_incomplete out)
                 | d # ds \<Rightarrow>
                     Inr (Tok_return (snd (parse_token_operator c d))
                       (out\<lparr>t_type := fst (parse_token_operator c d)\<rparr>))))
      | Ch_blank \<Rightarrow>
          (if quote \<noteq> ch_nul then append_and_next quote out c 0
           else rbind (c_assert (t_size out > 0)) (\<lambda>_.
                Inr (Tok_return 1 (out\<lparr>t_type := TOKEN_TYPE_STR\<rparr>))))
      | Ch_new_line \<Rightarrow>
          (if quote \<noteq> ch_nul then append_and_next quote out c 0
           else rbind (c_assert (t_size out > 0)) (\<lambda>_.
                Inr (Tok_return 0 (out\<lparr>t_type := TOKEN_TYPE_STR\<rparr>))))
      | Ch_hash \<Rightarrow>
          (if quote \<noteq> ch_nul then append_and_next quote out c 0
           else if t_size out > 0 then Inr (Tok_return 0 (out\<lparr>t_type := TOKEN_TYPE_STR\<rparr>))
           else (case parse_token_comment 1 cs of
                   None \<Rightarrow> Inr (Tok_incomplete out)
                 | Some k \<Rightarrow> Inr (Tok_return k (out\<lparr>t_type := TOKEN_TYPE_NEW_LINE\<rparr>))))
      | Ch_default \<Rightarrow> append_and_next quote out c 0)"

text \<open>
  The loop itself; \<open>n\<close> is \<open>pos - begin\<close>. The result is the number of characters used (0: more
  input is needed) with the token.
\<close>

function parse_token_loop :: "char \<Rightarrow> token \<Rightarrow> nat \<Rightarrow> char list \<Rightarrow> (nat \<times> token) cres" where
  "parse_token_loop quote out n [] = Inr (0, out)"
| "parse_token_loop quote out n (c # cs) =
     rbind (parse_token_step quote out c cs) (\<lambda>step.
     case step of
       Tok_return k out \<Rightarrow> Inr (n + k, out)
     | Tok_incomplete out \<Rightarrow> Inr (0, out)
     | Tok_next k quote out \<Rightarrow> parse_token_loop quote out (n + 1 + k) (drop k cs))"
  by pat_completeness auto
termination
  by (relation "measure (\<lambda>(quote, out, n, text). length text)") auto

definition parse_token :: "char list \<Rightarrow> token \<Rightarrow> (nat \<times> token) cres" where
  "parse_token text out =
     (let out = token_reset out
      in case parse_token_spaces 0 text of
           Inl used \<Rightarrow> Inr (used, out\<lparr>t_type := TOKEN_TYPE_NEW_LINE\<rparr>)
         | Inr (n, rest) \<Rightarrow> parse_token_loop ch_nul out n rest)"

section \<open>The line parser\<close>

text \<open>
  The step that precedes every use of a token: \<open>parse_token\<close> at \<open>pos\<close>, the jump to
  \<open>return_no_line\<close> when it used no character, and \<open>pos += used\<close>.
\<close>

definition with_token ::
  "char list \<Rightarrow> token \<Rightarrow> 'a \<Rightarrow> (nat \<Rightarrow> char list \<Rightarrow> token \<Rightarrow> 'a cres) \<Rightarrow> 'a cres" where
  "with_token rest token no_line k =
     rbind (parse_token rest token) (\<lambda>(used, token).
     if used = 0 then Inr no_line else k used (drop used rest) token)"

lemma with_token_cong [fundef_cong]:
  assumes "rest = rest'" "token = token'" "no_line = no_line'"
    and "\<And>u t. parse_token rest' token' = Inr (u, t) \<Longrightarrow> u \<noteq> 0 \<Longrightarrow>
           k u (drop u rest') t = k' u (drop u rest') t"
  shows "with_token rest token no_line k = with_token rest' token' no_line' k'"
  using assms by (cases "parse_token rest' token'") (auto simp: with_token_def)

text \<open>
  Where the loop over the tokens of a line leaves it: one of the labels of
  \<open>parser_pop_next\<close>, with \<open>pos\<close> (the text left and its offset), the last token and the line.
\<close>

datatype pop_flow =
    Return_no_line
  | Return_error parser_error nat "char list" token
  | Close_and_return nat "char list" token command_line

text \<open>What one token does: go on with a longer line, jump to an error, or close the line.\<close>

datatype line_step =
    Line_next command_line
  | Line_error parser_error
  | Line_close

text \<open>The checks the three operators \<open>|\<close>, \<open>&&\<close> and \<open>||\<close> share.\<close>

definition append_operator ::
  "command_line \<Rightarrow> expr \<Rightarrow> parser_error \<Rightarrow> parser_error \<Rightarrow> line_step" where
  "append_operator line e no_left bad_left =
     (case line_tail line of
        None \<Rightarrow> Line_error no_left
      | Some (EXPR_TYPE_COMMAND _) \<Rightarrow> Line_next (command_line_append line e)
      | Some _ \<Rightarrow> Line_error bad_left)"

definition append_word :: "command_line \<Rightarrow> token \<Rightarrow> command_line cres" where
  "append_word line token =
     (case line_tail line of
        Some (EXPR_TYPE_COMMAND cmd) \<Rightarrow>
          rbind (token_strdup token) (\<lambda>s.
          rbind (command_append_arg cmd s) (\<lambda>cmd.
          Inr (line\<lparr>exprs := butlast (exprs line) @ [EXPR_TYPE_COMMAND cmd]\<rparr>)))
      | _ \<Rightarrow>
          rbind (token_strdup token) (\<lambda>s.
          Inr (command_line_append line
            (EXPR_TYPE_COMMAND \<lparr>exe = s, args = [], arg_count = 0, arg_capacity = 0\<rparr>))))"

definition pop_dispatch :: "command_line \<Rightarrow> token \<Rightarrow> line_step cres" where
  "pop_dispatch line token =
     (case t_type token of
        TOKEN_TYPE_STR \<Rightarrow> rbind (append_word line token) (\<lambda>line. Inr (Line_next line))
      | TOKEN_TYPE_NEW_LINE \<Rightarrow>
          Inr (if line_tail line = None then Line_next line else Line_close)
      | TOKEN_TYPE_PIPE \<Rightarrow>
          Inr (append_operator line EXPR_TYPE_PIPE PARSER_ERR_PIPE_WITH_NO_LEFT_ARG
                 PARSER_ERR_PIPE_WITH_LEFT_ARG_NOT_A_COMMAND)
      | TOKEN_TYPE_AND \<Rightarrow>
          Inr (append_operator line EXPR_TYPE_AND PARSER_ERR_AND_WITH_NO_LEFT_ARG
                 PARSER_ERR_AND_WITH_LEFT_ARG_NOT_A_COMMAND)
      | TOKEN_TYPE_OR \<Rightarrow>
          Inr (append_operator line EXPR_TYPE_OR PARSER_ERR_OR_WITH_NO_LEFT_ARG
                 PARSER_ERR_OR_WITH_LEFT_ARG_NOT_A_COMMAND)
      | TOKEN_TYPE_OUT_NEW \<Rightarrow> Inr Line_close
      | TOKEN_TYPE_OUT_APPEND \<Rightarrow> Inr Line_close
      | TOKEN_TYPE_BACKGROUND \<Rightarrow> Inr Line_close
      | TOKEN_TYPE_NONE \<Rightarrow> Inl AssertFail)"

function pop_tokens :: "nat \<Rightarrow> char list \<Rightarrow> token \<Rightarrow> command_line \<Rightarrow> pop_flow cres" where
  "pop_tokens pos rest token line =
     (if rest = [] then Inr Return_no_line
      else with_token rest token Return_no_line (\<lambda>used rest' token.
        rbind (pop_dispatch line token) (\<lambda>step.
        case step of
          Line_next line \<Rightarrow> pop_tokens (pos + used) rest' token line
        | Line_error e \<Rightarrow> Inr (Return_error e (pos + used) rest' token)
        | Line_close \<Rightarrow> Inr (Close_and_return (pos + used) rest' token line))))"
  by pat_completeness auto
termination
  by (relation "measure (\<lambda>(pos, rest, token, line). length rest)") auto

declare pop_tokens.simps [simp del]

text \<open>
  What a pass over the buffer decides: the code to return, \<open>*out\<close>, and the size passed to
  \<open>parser_consume\<close> just before the return, if it is called at all.
\<close>

type_synonym pop_outcome = "parser_error \<times> command_line option \<times> nat option"

text \<open>
  The label \<open>return_error\<close>: skip to the end of the line and drop it; when its end is not in the
  buffer yet, leave the buffer and report nothing.
\<close>

function pop_skip_line :: "parser_error \<Rightarrow> nat \<Rightarrow> char list \<Rightarrow> token \<Rightarrow> pop_outcome cres" where
  "pop_skip_line res pos rest token =
     (if rest = [] then Inr (PARSER_ERR_NONE, None, None)
      else with_token rest token (PARSER_ERR_NONE, None, None) (\<lambda>used rest' token.
        if t_type token = TOKEN_TYPE_NEW_LINE then Inr (res, None, Some (pos + used))
        else pop_skip_line res (pos + used) rest' token))"
  by pat_completeness auto
termination
  by (relation "measure (\<lambda>(res, pos, rest, token). length rest)") auto

declare pop_skip_line.simps [simp del]

text \<open>The last part of \<open>close_and_return\<close>: the token after the line is a new line or too much.\<close>

definition pop_finish ::
  "nat \<Rightarrow> char list \<Rightarrow> token \<Rightarrow> command_line \<Rightarrow> pop_outcome cres" where
  "pop_finish pos rest token line =
     (if t_type token = TOKEN_TYPE_NEW_LINE then
        rbind (c_assert (line_tail line \<noteq> None)) (\<lambda>_.
        case line_tail line of
          Some (EXPR_TYPE_COMMAND _) \<Rightarrow> Inr (PARSER_ERR_NONE, Some line, Some pos)
        | _ \<Rightarrow> Inr (PARSER_ERR_ENDS_NOT_WITH_A_COMMAND, None, Some pos))
      else pop_skip_line PARSER_ERR_TOO_LATE_ARGUMENTS pos rest token)"

definition pop_background ::
  "nat \<Rightarrow> char list \<Rightarrow> token \<Rightarrow> command_line \<Rightarrow> pop_outcome cres" where
  "pop_background pos rest token line =
     (if t_type token = TOKEN_TYPE_BACKGROUND then
        with_token rest token (PARSER_ERR_NONE, None, None) (\<lambda>used rest token.
        pop_finish (pos + used) rest token (line\<lparr>is_background := True\<rparr>))
      else pop_finish pos rest token line)"

definition pop_redirect ::
  "nat \<Rightarrow> char list \<Rightarrow> token \<Rightarrow> command_line \<Rightarrow> pop_outcome cres" where
  "pop_redirect pos rest token line =
     (if t_type token \<noteq> TOKEN_TYPE_STR
      then pop_skip_line PARSER_ERR_OUTOUT_REDIRECT_BAD_ARG pos rest token
      else rbind (token_strdup token) (\<lambda>s.
        with_token rest token (PARSER_ERR_NONE, None, None) (\<lambda>used rest token.
        pop_background (pos + used) rest token (line\<lparr>out_file := Some s\<rparr>))))"

definition pop_close ::
  "nat \<Rightarrow> char list \<Rightarrow> token \<Rightarrow> command_line \<Rightarrow> pop_outcome cres" where
  "pop_close pos rest token line =
     (if t_type token = TOKEN_TYPE_OUT_NEW \<or> t_type token = TOKEN_TYPE_OUT_APPEND then
        let line = line\<lparr>out_type := (if t_type token = TOKEN_TYPE_OUT_NEW
                                    then OUTPUT_TYPE_FILE_NEW else OUTPUT_TYPE_FILE_APPEND)\<rparr> in
        with_token rest token (PARSER_ERR_NONE, None, None) (\<lambda>used rest token.
        pop_redirect (pos + used) rest token line)
      else pop_background pos rest token line)"

text \<open>The labels after the loop over the tokens.\<close>

definition pop_flow_outcome :: "pop_flow \<Rightarrow> pop_outcome cres" where
  "pop_flow_outcome flow =
     (case flow of
        Return_no_line \<Rightarrow> Inr (PARSER_ERR_NONE, None, None)
      | Return_error e pos rest token \<Rightarrow> pop_skip_line e pos rest token
      | Close_and_return pos rest token line \<Rightarrow> pop_close pos rest token line)"

definition pop_line :: "char list \<Rightarrow> pop_outcome cres" where
  "pop_line text =
     rbind (pop_tokens 0 text token_zero command_line_zero) pop_flow_outcome"

text \<open>The text between \<open>p->buffer\<close> and \<open>p->buffer + p->size\<close>.\<close>

definition parser_text :: "parser \<Rightarrow> char list" where
  "parser_text p = take (unat (p_size p)) (p_buffer p)"

definition parser_pop_next ::
  "parser \<Rightarrow> (parser_error \<times> command_line option \<times> parser) cres" where
  "parser_pop_next p =
     rbind (pop_line (parser_text p)) (\<lambda>(res, out, used).
     case used of
       None \<Rightarrow> Inr (res, out, p)
     | Some n \<Rightarrow> rbind (parser_consume p (of_nat n)) (\<lambda>p. Inr (res, out, p)))"

section \<open>Tokens do not depend on what follows them\<close>

lemma parse_token_comment_append:
  "parse_token_comment n cs = Some u \<Longrightarrow> parse_token_comment n (cs @ ds) = Some u"
  by (induction n cs rule: parse_token_comment.induct) (auto split: if_splits)

lemma parse_token_comment_bound:
  "parse_token_comment n cs = Some u \<Longrightarrow> n < u \<and> u \<le> n + length cs"
  by (induction n cs rule: parse_token_comment.induct) (auto split: if_splits)

lemma parse_token_spaces_append:
  "parse_token_spaces n cs = Inl u \<Longrightarrow> parse_token_spaces n (cs @ ds) = Inl u"
  "parse_token_spaces n cs = Inr (m, r) \<Longrightarrow> r \<noteq> [] \<Longrightarrow>
     parse_token_spaces n (cs @ ds) = Inr (m, r @ ds)"
  by (induction n cs rule: parse_token_spaces.induct) (auto split: if_splits)

lemma parse_token_spaces_bound:
  "parse_token_spaces n cs = Inl u \<Longrightarrow> n < u \<and> u \<le> n + length cs"
  "parse_token_spaces n cs = Inr (m, r) \<Longrightarrow> n \<le> m \<and> m + length r = n + length cs"
  by (induction n cs rule: parse_token_spaces.induct) (auto split: if_splits)

lemma append_and_next_eq [res_simps]:
  "append_and_next q out c k = Inr st \<longleftrightarrow>
     (\<exists>out'. token_append out c = Inr out' \<and> st = Tok_next k q out')"
  "append_and_next q out c k = Inl e \<longleftrightarrow> token_append out c = Inl e"
  by (auto simp: append_and_next_def res_simps)


fun incomplete :: "token_step cres \<Rightarrow> bool" where
  "incomplete (Inr (Tok_incomplete t)) = True"
| "incomplete _ = False"

lemma parse_token_step_append:
  "\<not> incomplete (parse_token_step q out c cs) \<Longrightarrow>
     parse_token_step q out c (cs @ ds) = parse_token_step q out c cs"
  by (cases "token_char c"; cases cs)
    (auto simp: parse_token_step_def c_assert_def parse_token_comment_append split: option.splits)

lemma parse_token_step_bound:
  "parse_token_step q out c cs = Inr (Tok_return k t) \<Longrightarrow> k \<le> Suc (length cs)"
  "parse_token_step q out c cs = Inr (Tok_next k q' t) \<Longrightarrow> k \<le> length cs"
  by (cases "token_char c"; cases cs;
      auto simp: parse_token_step_def res_simps parse_token_operator_def split: option.splits if_splits
        dest: parse_token_comment_bound)+

definition undecided :: "(nat \<times> token) cres \<Rightarrow> bool" where
  "undecided r \<longleftrightarrow> (\<exists>t. r = Inr (0, t))"

lemma undecided_simps [simp]:
  "undecided (Inr (n, t)) \<longleftrightarrow> n = 0" "\<not> undecided (Inl e)"
  by (auto simp: undecided_def)

lemma parse_token_loop_append:
  "\<not> undecided (parse_token_loop q out n cs) \<Longrightarrow>
     parse_token_loop q out n (cs @ ds) = parse_token_loop q out n cs"
proof (induction q out n cs rule: parse_token_loop.induct)
  case (1 q out n)
  then show ?case by simp
next
  case (2 q out n c cs)
  show ?case
  proof (cases "parse_token_step q out c cs")
    case (Inl e)
    then show ?thesis using parse_token_step_append [of q out c cs ds] by simp
  next
    case (Inr st)
    with "2.prems" have inc: "\<not> incomplete (parse_token_step q out c cs)"
      by (cases st) auto
    then have eq: "parse_token_step q out c (cs @ ds) = Inr st"
      using parse_token_step_append Inr by simp
    show ?thesis
    proof (cases st)
      case (Tok_next k q' t)
      then have "k \<le> length cs" using Inr parse_token_step_bound(2) by blast
      with Tok_next Inr eq "2.prems" "2.IH" show ?thesis by simp
    qed (use Inr eq "2.prems" in auto)
  qed
qed

lemma parse_token_loop_bound:
  "parse_token_loop q out n cs = Inr (u, t) \<Longrightarrow> u \<le> n + length cs \<and> (u = 0 \<or> n \<le> u)"
proof (induction q out n cs rule: parse_token_loop.induct)
  case (1 q out n)
  then show ?case by simp
next
  case (2 q out n c cs)
  then obtain st where st: "parse_token_step q out c cs = Inr st" by (auto simp: res_simps)
  show ?case
  proof (cases st)
    case (Tok_next k q' t')
    then have "k \<le> length cs" using st parse_token_step_bound(2) by blast
    with Tok_next st "2.prems" "2.IH" show ?thesis by fastforce
  qed (use st "2.prems" parse_token_step_bound(1) in auto)
qed

lemma parse_token_append:
  assumes "\<not> undecided (parse_token cs out)"
  shows "parse_token (cs @ ds) out = parse_token cs out"
proof (cases "parse_token_spaces 0 cs")
  case (Inl u)
  then show ?thesis by (simp add: parse_token_def parse_token_spaces_append)
next
  case (Inr nr)
  obtain n r where nr: "nr = (n, r)" by (cases nr)
  with Inr assms have u: "\<not> undecided (parse_token_loop ch_nul (token_reset out) n r)"
    by (simp add: parse_token_def Let_def)
  then have "r \<noteq> []" by auto
  with Inr nr u show ?thesis
    by (simp add: parse_token_def Let_def parse_token_spaces_append parse_token_loop_append)
qed

lemma parse_token_bound:
  assumes "parse_token cs out = Inr (u, t)"
  shows "u \<le> length cs"
  using assms parse_token_loop_bound parse_token_spaces_bound [of 0 cs]
  by (fastforce simp: parse_token_def Let_def split: sum.splits)


fun flow_extend :: "char list \<Rightarrow> pop_flow \<Rightarrow> pop_flow" where
  "flow_extend ds Return_no_line = Return_no_line"
| "flow_extend ds (Return_error e pos rest token) = Return_error e pos (rest @ ds) token"
| "flow_extend ds (Close_and_return pos rest token line) =
     Close_and_return pos (rest @ ds) token line"

lemma not_undecided: "r = Inr (u, t) \<Longrightarrow> u \<noteq> 0 \<Longrightarrow> \<not> undecided r" "r = Inl e \<Longrightarrow> \<not> undecided r"
  by auto

lemmas parse_token_extend =
  parse_token_append [OF not_undecided(1)] parse_token_append [OF not_undecided(2)]

lemma with_token_Inl: "parse_token rest token = Inl e \<Longrightarrow> with_token rest token n k = Inl e"
  by (simp add: with_token_def)

lemma with_token_none: "parse_token rest token = Inr (0, t) \<Longrightarrow> with_token rest token n k = Inr n"
  by (simp add: with_token_def)

lemma with_token_some:
  "parse_token rest token = Inr (u, t) \<Longrightarrow> u \<noteq> 0 \<Longrightarrow> with_token rest token n k = k u (drop u rest) t"
  by (simp add: with_token_def)

text \<open>A decided token does not depend on what follows the text.\<close>

lemma with_token_cases:
  obtains (err) e where "with_token rest token n k = Inl e" "\<And>ds k. with_token (rest @ ds) token n k = Inl e"
  | (none) "with_token rest token n k = Inr n"
  | (some) u t where "parse_token rest token = Inr (u, t)" "u \<noteq> 0" "u \<le> length rest"
      "with_token rest token n k = k u (drop u rest) t"
      "\<And>ds k. with_token (rest @ ds) token n k = k u (drop u rest @ ds) t"
proof (cases "parse_token rest token")
  case (Inl e)
  with err show ?thesis by (simp add: with_token_def parse_token_extend)
next
  case (Inr ut)
  obtain u t where ut: "ut = (u, t)" by (cases ut)
  show ?thesis
  proof (cases "u = 0")
    case True
    with Inr ut none show ?thesis by (simp add: with_token_def)
  next
    case False
    moreover have "parse_token (rest @ ds) token = Inr (u, t)" for ds
      using parse_token_extend(1) Inr False ut by simp
    moreover have "u \<le> length rest"
      using parse_token_bound Inr ut by auto
    ultimately show ?thesis using Inr ut some [of u t] by (simp add: with_token_def)
  qed
qed

definition outcome_open :: "pop_outcome cres \<Rightarrow> bool" where
  "outcome_open r \<longleftrightarrow> (\<exists>e l. r = Inr (e, l, None))"

lemma outcome_open_simps [simp]:
  "outcome_open (Inr (e, l, u)) \<longleftrightarrow> u = None" "\<not> outcome_open (Inl x)"
  by (auto simp: outcome_open_def)

lemma with_token_append:
  assumes "\<not> outcome_open (with_token rest token (e, l, None) k)"
    and "\<And>u t. parse_token rest token = Inr (u, t) \<Longrightarrow> u \<noteq> 0 \<Longrightarrow>
           \<not> outcome_open (k u (drop u rest) t) \<Longrightarrow> k u (drop u rest @ ds) t = k u (drop u rest) t"
  shows "with_token (rest @ ds) token (e, l, None) k = with_token rest token (e, l, None) k"
  using assms by (cases rule: with_token_cases [of rest token "(e, l, None)" k]) auto

lemma pop_skip_line_append:
  "\<not> outcome_open (pop_skip_line res pos rest token) \<Longrightarrow>
     pop_skip_line res pos (rest @ ds) token = pop_skip_line res pos rest token"
proof (induction res pos rest token rule: pop_skip_line.induct)
  case (1 res pos rest token)
  note unf = pop_skip_line.simps [of res pos rest] pop_skip_line.simps [of res pos "rest @ ds"]
  from "1.prems" have ne: "rest \<noteq> []"
    by (auto simp: pop_skip_line.simps)
  with "1.prems" "1.IH" show ?case
    by (auto simp: unf intro!: with_token_append split: if_splits)
qed

lemma pop_finish_append:
  "\<not> outcome_open (pop_finish pos rest token line) \<Longrightarrow>
     pop_finish pos (rest @ ds) token line = pop_finish pos rest token line"
  by (auto simp: pop_finish_def pop_skip_line_append split: if_splits)

lemma pop_background_append:
  "\<not> outcome_open (pop_background pos rest token line) \<Longrightarrow>
     pop_background pos (rest @ ds) token line = pop_background pos rest token line"
  by (auto simp: pop_background_def pop_finish_append intro!: with_token_append split: if_splits)

lemma pop_redirect_append:
  "\<not> outcome_open (pop_redirect pos rest token line) \<Longrightarrow>
     pop_redirect pos (rest @ ds) token line = pop_redirect pos rest token line"
  by (cases "token_strdup token")
    (auto simp: pop_redirect_def pop_skip_line_append pop_background_append
      intro!: with_token_append split: if_splits)

lemma pop_close_append:
  "\<not> outcome_open (pop_close pos rest token line) \<Longrightarrow>
     pop_close pos (rest @ ds) token line = pop_close pos rest token line"
  by (auto simp: pop_close_def Let_def pop_background_append pop_redirect_append
      intro!: with_token_append split: if_splits)

lemma pop_tokens_append:
  "pop_tokens pos rest token line \<noteq> Inr Return_no_line \<Longrightarrow>
     pop_tokens pos (rest @ ds) token line =
       map_sum id (flow_extend ds) (pop_tokens pos rest token line)"
proof (induction pos rest token line rule: pop_tokens.induct)
  case (1 pos rest token line)
  let ?k = "\<lambda>used rest' token.
        rbind (pop_dispatch line token) (\<lambda>step.
        case step of
          Line_next line \<Rightarrow> pop_tokens (pos + used) rest' token line
        | Line_error e \<Rightarrow> Inr (Return_error e (pos + used) rest' token)
        | Line_close \<Rightarrow> Inr (Close_and_return (pos + used) rest' token line))"
  note unf = pop_tokens.simps [of pos rest] pop_tokens.simps [of pos "rest @ ds"]
  from "1.prems" have ne: "rest \<noteq> []"
    by (auto simp: pop_tokens.simps)
  show ?case
  proof (cases rule: with_token_cases [of rest token Return_no_line ?k])
    case (some u t)
    show ?thesis
    proof (cases "pop_dispatch line t")
      case (Inr step)
      with some "1.prems" "1.IH" ne show ?thesis by (cases step) (auto simp: unf)
    qed (use some ne in \<open>simp add: unf\<close>)
  qed (use ne "1.prems" in \<open>simp_all add: unf\<close>)
qed

lemma pop_line_append:
  assumes "\<not> outcome_open (pop_line text)"
  shows "pop_line (text @ ds) = pop_line text"
proof -
  let ?r = "pop_tokens 0 text token_zero command_line_zero"
  from assms have "?r \<noteq> Inr Return_no_line" by (auto simp: pop_line_def pop_flow_outcome_def)
  then have eq: "pop_tokens 0 (text @ ds) token_zero command_line_zero = map_sum id (flow_extend ds) ?r"
    by (rule pop_tokens_append)
  show ?thesis
  proof (cases ?r)
    case (Inr flow)
    with eq assms show ?thesis
      by (cases flow) (simp_all add: pop_line_def pop_flow_outcome_def pop_skip_line_append pop_close_append)
  qed (use eq in \<open>simp add: pop_line_def\<close>)
qed

section \<open>Well-formed tokens\<close>

definition token_ok :: "token \<Rightarrow> bool" where
  "token_ok t \<longleftrightarrow> unat (t_size t) \<le> length (t_data t) \<and> t_size t \<le> t_capacity t"

definition token_str :: "token \<Rightarrow> string" where
  "token_str t = take (unat (t_size t)) (t_data t)"

lemma token_ok_zero [simp]: "token_ok token_zero"
  by (simp add: token_ok_def token_zero_def)

lemma token_ok_reset [simp]: "token_ok t \<Longrightarrow> token_ok (token_reset t)" "token_str (token_reset t) = []"
  by (simp_all add: token_ok_def token_reset_def token_str_def)

lemma token_ok_type [simp]: "token_ok (t\<lparr>t_type := ty\<rparr>) = token_ok t"
    "token_str (t\<lparr>t_type := ty\<rparr>) = token_str t"
  by (simp_all add: token_ok_def token_str_def)

lemma length_token_str: "token_ok t \<Longrightarrow> length (token_str t) = unat (t_size t)"
  by (simp add: token_ok_def token_str_def)

lemma token_str_empty: "token_ok t \<Longrightarrow> token_str t = [] \<longleftrightarrow> t_size t = 0"
  by (auto simp: token_ok_def token_str_def unat_eq_zero)

lemma token_append_Inr:
  assumes "token_append t c = Inr t'" and "token_ok t"
  shows "token_ok t'" "token_str t' = token_str t @ [c]" "t_type t' = t_type t" "t_size t' = t_size t + 1"
    "0 < t_size t'"
proof -
  from assms obtain cap where lt: "t_size t < cap"
    and t': "t' = t\<lparr>t_capacity := cap, t_data := mem_write (t_data t) (unat (t_size t)) [c],
                  t_size := t_size t + 1\<rparr>"
    by (cases t) (auto simp: token_append_def res_simps split: if_splits)
  from lt have sz: "unat (t_size t + 1) = unat (t_size t) + 1" by (rule word_less_imp_Suc)
  have le: "unat (t_size t) \<le> length (t_data t)" using assms(2) by (simp add: token_ok_def)
  have "t_size t + 1 \<le> cap" using lt by (rule inc_le)
  with t' sz le show "token_ok t'"
    by (simp add: token_ok_def length_mem_write)
  show "token_str t' = token_str t @ [c]"
    using t' sz le take_mem_write_end [OF le, of "[c]"] by (simp add: token_str_def)
  show "t_type t' = t_type t" "t_size t' = t_size t + 1" using t' by simp_all
  show "0 < t_size t'" using t' sz
    by (simp add: word_less_nat_alt)
qed

lemma token_append_ok:
  assumes "token_ok t" and "unat (t_size t) + 1 < 2 ^ 31"
  shows "\<exists>t'. token_append t c = Inr t'"
proof (cases "t_size t = t_capacity t")
  case True
  have "unat ((t_capacity t + 1) * 2) = (unat (t_capacity t) + 1) * 2"
    using True assms(2) by (simp add: unat_word_ariths)
  then have "t_size t < (t_capacity t + 1) * 2" using True by (simp add: word_less_nat_alt)
  with True show ?thesis by (simp add: token_append_def)
next
  case False
  with assms(1) have "t_size t < t_capacity t" by (simp add: token_ok_def order.strict_iff_order)
  with False show ?thesis by (simp add: token_append_def)
qed

lemma append_and_next_token_ok:
  "append_and_next q out c k = Inr (Tok_next k' q' t) \<Longrightarrow> token_ok out \<Longrightarrow> token_ok t"
  by (auto simp: res_simps dest: token_append_Inr)

lemma parse_token_step_ok:
  assumes "token_ok out"
  shows "parse_token_step q out c cs = Inr (Tok_return k t) \<Longrightarrow> token_ok t \<and> t_type t \<noteq> TOKEN_TYPE_NONE"
    and "parse_token_step q out c cs = Inr (Tok_incomplete t) \<Longrightarrow> token_ok t"
    and "parse_token_step q out c cs = Inr (Tok_next k q' t) \<Longrightarrow> token_ok t"
  using assms
  by (cases "token_char c"; cases cs;
      auto simp: parse_token_step_def parse_token_operator_def res_simps split: if_splits option.splits
        dest: token_append_Inr)+

lemma parse_token_loop_ok:
  "parse_token_loop q out n cs = Inr (u, t) \<Longrightarrow> token_ok out \<Longrightarrow>
     token_ok t \<and> (u \<noteq> 0 \<longrightarrow> t_type t \<noteq> TOKEN_TYPE_NONE)"
proof (induction q out n cs rule: parse_token_loop.induct)
  case (1 q out n)
  then show ?case by simp
next
  case (2 q out n c cs)
  then obtain st where st: "parse_token_step q out c cs = Inr st" by (auto simp: res_simps)
  note ok = parse_token_step_ok [OF "2.prems"(2), of q c cs]
  show ?case
    by (cases st) (use st ok "2.prems" "2.IH" in auto)
qed

lemma parse_token_ok:
  "parse_token cs out = Inr (u, t) \<Longrightarrow> token_ok out \<Longrightarrow>
     token_ok t \<and> (u \<noteq> 0 \<longrightarrow> t_type t \<noteq> TOKEN_TYPE_NONE)"
  by (auto simp: parse_token_def Let_def split: sum.splits dest: parse_token_loop_ok)

lemma with_token_eq_Inr [res_simps]:
  "with_token rest token n k = Inr x \<longleftrightarrow>
     (\<exists>u t. parse_token rest token = Inr (u, t) \<and> (if u = 0 then x = n else k u (drop u rest) t = Inr x))"
  by (auto simp: with_token_def res_simps)

section \<open>Well-formed lines\<close>

definition command_ok :: "command \<Rightarrow> bool" where
  "command_ok c \<longleftrightarrow> exe c \<noteq> [] \<and> (\<forall>a \<in> set (args c). a \<noteq> []) \<and>
     unat (arg_count c) = length (args c) \<and> arg_count c \<le> arg_capacity c"

text \<open>Commands and operators alternate; the flag says that a command comes next.\<close>

fun exprs_ok :: "bool \<Rightarrow> expr list \<Rightarrow> bool" where
  "exprs_ok b [] = True"
| "exprs_ok b (EXPR_TYPE_COMMAND c # es) = (b \<and> command_ok c \<and> exprs_ok False es)"
| "exprs_ok b (_ # es) = (\<not> b \<and> exprs_ok True es)"

definition line_ok :: "command_line \<Rightarrow> bool" where
  "line_ok line \<longleftrightarrow> exprs_ok True (exprs line) \<and> odd (length (exprs line)) \<and>
     (out_file line = None \<longleftrightarrow> out_type line = OUTPUT_TYPE_STDOUT) \<and> out_file line \<noteq> Some []"

lemma exprs_ok_append:
  "exprs_ok b (es @ fs) \<longleftrightarrow> exprs_ok b es \<and> exprs_ok (b = even (length es)) fs"
proof (induction es arbitrary: b)
  case (Cons e es)
  then show ?case by (cases e; cases b) auto
qed simp

lemma exprs_ok_last:
  "exprs_ok True es \<Longrightarrow> es \<noteq> [] \<Longrightarrow> (\<exists>c. last es = EXPR_TYPE_COMMAND c) \<longleftrightarrow> odd (length es)"
proof (cases es rule: rev_cases)
  case (snoc fs f)
  assume "exprs_ok True es"
  then show ?thesis using snoc by (cases f) (auto simp: exprs_ok_append)
qed simp

lemma command_append_arg_Inr:
  assumes "command_append_arg c a = Inr c'" and "command_ok c" and "a \<noteq> []"
  shows "command_ok c'" "exe c' = exe c" "args c' = args c @ [a]"
proof -
  from assms obtain cap where lt: "arg_count c < cap"
    and c': "c' = c\<lparr>arg_capacity := cap, args := mem_write (args c) (unat (arg_count c)) [a],
                  arg_count := arg_count c + 1\<rparr>"
    by (cases c) (auto simp: command_append_arg_def res_simps split: if_splits)
  from lt have sz: "unat (arg_count c + 1) = unat (arg_count c) + 1" by (rule word_less_imp_Suc)
  have "arg_count c + 1 \<le> cap" using lt by (rule inc_le)
  with c' sz assms(2,3) show "command_ok c'" "exe c' = exe c" "args c' = args c @ [a]"
    by (auto simp: command_ok_def mem_write_def)
qed

lemma token_strdup_Inr:
  "token_strdup t = Inr s \<Longrightarrow> token_ok t \<Longrightarrow> s = token_str t \<and> s \<noteq> [] \<and> t_type t = TOKEN_TYPE_STR"
  by (auto simp: token_strdup_def res_simps token_str_empty simp flip: token_str_def)

lemma line_tail_command:
  "line_tail line = Some (EXPR_TYPE_COMMAND c) \<longleftrightarrow>
     (\<exists>es. exprs line = es @ [EXPR_TYPE_COMMAND c])"
  by (cases "exprs line" rule: rev_cases) (auto simp: line_tail_def)

lemma append_word_ok:
  assumes "append_word line t = Inr line'" and "token_ok t" and "exprs_ok True (exprs line)"
  shows "exprs_ok True (exprs line') \<and> out_type line' = out_type line \<and>
    out_file line' = out_file line \<and> is_background line' = is_background line"
proof -
  obtain s where s: "token_strdup t = Inr s"
    using assms(1) by (auto simp: append_word_def res_simps split: option.splits expr.splits)
  with assms(2) have ne: "s \<noteq> []" by (auto dest: token_strdup_Inr)
  show ?thesis
  proof (cases "exprs line" rule: rev_cases)
    case Nil
    with assms(1) s ne show ?thesis
      by (auto simp: append_word_def line_tail_def command_line_append_def command_ok_def)
  next
    case (snoc es e)
    show ?thesis
    proof (cases e)
      case (EXPR_TYPE_COMMAND c)
      with assms(1) s snoc obtain c' where "command_append_arg c s = Inr c'"
        and "line' = line\<lparr>exprs := es @ [EXPR_TYPE_COMMAND c']\<rparr>"
        by (auto simp: append_word_def line_tail_def res_simps)
      with EXPR_TYPE_COMMAND snoc assms(3) ne show ?thesis
        by (auto simp: exprs_ok_append dest: command_append_arg_Inr)
    qed (use assms(1,3) s ne snoc in \<open>auto simp: append_word_def line_tail_def
          command_line_append_def exprs_ok_append command_ok_def\<close>)
  qed
qed

lemma append_operator_ok:
  assumes "append_operator line e x y = Line_next line'" and "exprs_ok True (exprs line)"
    and "e \<in> {EXPR_TYPE_PIPE, EXPR_TYPE_AND, EXPR_TYPE_OR}"
  shows "exprs_ok True (exprs line') \<and> out_type line' = out_type line \<and>
    out_file line' = out_file line \<and> is_background line' = is_background line"
proof -
  from assms(1) obtain c es where "exprs line = es @ [EXPR_TYPE_COMMAND c]"
    and "line' = line\<lparr>exprs := es @ [EXPR_TYPE_COMMAND c, e]\<rparr>"
    by (auto simp: append_operator_def command_line_append_def line_tail_command
        split: option.splits expr.splits)
  with assms(2,3) show ?thesis by (auto simp: exprs_ok_append)
qed

lemma append_operator_not_close: "append_operator line e x y \<noteq> Line_close"
  by (auto simp: append_operator_def split: option.splits expr.splits)

lemma append_operator_error: "append_operator line e x y = Line_error z \<Longrightarrow> z \<in> {x, y}"
  by (auto simp: append_operator_def split: option.splits expr.splits)

lemma pop_dispatch_next:
  assumes "pop_dispatch line t = Inr (Line_next line')" and "token_ok t"
    and "exprs_ok True (exprs line)"
  shows "exprs_ok True (exprs line') \<and> out_type line' = out_type line \<and>
    out_file line' = out_file line \<and> is_background line' = is_background line"
  using assms append_word_ok [OF _ assms(2,3)] append_operator_ok [OF _ assms(3)]
  by (auto simp: pop_dispatch_def res_simps split: token_type.splits if_splits)

lemma pop_dispatch_error: "pop_dispatch line t = Inr (Line_error e) \<Longrightarrow> e \<noteq> PARSER_ERR_NONE"
  by (auto simp: pop_dispatch_def res_simps split: token_type.splits if_splits
      dest!: append_operator_error)

text \<open>Where the token loop stops, and what it keeps of the line and the position.\<close>

fun flow_ok :: "nat \<Rightarrow> nat \<Rightarrow> pop_flow \<Rightarrow> bool" where
  "flow_ok pos sz Return_no_line = True"
| "flow_ok pos sz (Return_error e pos' rest token) =
     (pos < pos' \<and> pos' + length rest = sz \<and> token_ok token \<and> e \<noteq> PARSER_ERR_NONE)"
| "flow_ok pos sz (Close_and_return pos' rest token line) =
     (pos < pos' \<and> pos' + length rest = sz \<and> token_ok token \<and> exprs_ok True (exprs line) \<and>
      out_type line = OUTPUT_TYPE_STDOUT \<and> out_file line = None)"

lemma flow_ok_mono: "flow_ok pos' sz flow \<Longrightarrow> pos \<le> pos' \<Longrightarrow> flow_ok pos sz flow"
  by (cases flow) auto

lemma pop_tokens_ok:
  "pop_tokens pos rest token line = Inr flow \<Longrightarrow> token_ok token \<Longrightarrow> exprs_ok True (exprs line) \<Longrightarrow>
   out_type line = OUTPUT_TYPE_STDOUT \<Longrightarrow> out_file line = None \<Longrightarrow>
     flow_ok pos (pos + length rest) flow"
proof (induction pos rest token line rule: pop_tokens.induct)
  case (1 pos rest token line)
  show ?case
  proof (cases "rest = []")
    case False
    with "1.prems"(1) obtain u t where pt: "parse_token rest token = Inr (u, t)"
      and u: "u = 0 \<Longrightarrow> flow = Return_no_line"
      and step: "u \<noteq> 0 \<Longrightarrow> rbind (pop_dispatch line t) (\<lambda>step.
        case step of
          Line_next line \<Rightarrow> pop_tokens (pos + u) (drop u rest) t line
        | Line_error e \<Rightarrow> Inr (Return_error e (pos + u) (drop u rest) t)
        | Line_close \<Rightarrow> Inr (Close_and_return (pos + u) (drop u rest) t line)) = Inr flow"
      by (auto simp: pop_tokens.simps [of pos rest] with_token_eq_Inr split: if_splits)
    have t: "token_ok t" "u \<le> length rest"
      using parse_token_ok [OF pt "1.prems"(2)] parse_token_bound [OF pt] by auto
    show ?thesis
    proof (cases "u = 0")
      case False
      with step obtain st where st: "pop_dispatch line t = Inr st"
        by (auto simp: res_simps)
      show ?thesis
      proof (cases st)
        case (Line_next line')
        have "flow_ok (pos + u) (pos + u + length (drop u rest)) flow"
          by (rule "1.IH" [OF \<open>rest \<noteq> []\<close> pt False st Line_next])
            (use step False st Line_next t pop_dispatch_next [OF _ t(1) "1.prems"(3)] "1.prems" in auto)
        with t show ?thesis by (auto elim: flow_ok_mono)
      next
        case (Line_error e)
        with step False st t show ?thesis by (auto dest: pop_dispatch_error)
      next
        case Line_close
        with step False st t "1.prems" show ?thesis by auto
      qed
    qed (simp add: u)
  qed (use "1.prems" in \<open>simp add: pop_tokens.simps\<close>)
qed

fun outcome_ok :: "nat \<Rightarrow> nat \<Rightarrow> pop_outcome \<Rightarrow> bool" where
  "outcome_ok pos sz (e, l, None) = (e = PARSER_ERR_NONE \<and> l = None)"
| "outcome_ok pos sz (e, l, Some n) =
     (pos \<le> n \<and> n \<le> sz \<and>
      (case l of None \<Rightarrow> e \<noteq> PARSER_ERR_NONE | Some line \<Rightarrow> e = PARSER_ERR_NONE \<and> line_ok line))"

lemma outcome_ok_mono: "outcome_ok pos' sz r \<Longrightarrow> pos \<le> pos' \<Longrightarrow> outcome_ok pos sz r"
  by (cases "(pos', sz, r)" rule: outcome_ok.cases) auto

lemma with_token_outcome_ok:
  assumes "with_token rest token (PARSER_ERR_NONE, None, None) k = Inr r" and "token_ok token"
    and "\<And>u t. u \<le> length rest \<Longrightarrow> token_ok t \<Longrightarrow> t_type t \<noteq> TOKEN_TYPE_NONE \<Longrightarrow> u \<noteq> 0 \<Longrightarrow>
           parse_token rest token = Inr (u, t) \<Longrightarrow>
           k u (drop u rest) t = Inr r \<Longrightarrow> outcome_ok (pos + u) (pos + length rest) r"
  shows "outcome_ok pos (pos + length rest) r"
proof -
  from assms(1) obtain u t where pt: "parse_token rest token = Inr (u, t)"
    and k: "if u = 0 then r = (PARSER_ERR_NONE, None, None) else k u (drop u rest) t = Inr r"
    by (auto simp: with_token_eq_Inr)
  show ?thesis
  proof (cases "u = 0")
    case False
    have "outcome_ok (pos + u) (pos + length rest) r"
      by (rule assms(3)) (use pt k False parse_token_ok [OF pt assms(2)] parse_token_bound [OF pt] in auto)
    then show ?thesis by (rule outcome_ok_mono) simp
  qed (use k in simp)
qed

lemma pop_skip_line_ok:
  "pop_skip_line res pos rest token = Inr r \<Longrightarrow> token_ok token \<Longrightarrow> res \<noteq> PARSER_ERR_NONE \<Longrightarrow>
     outcome_ok pos (pos + length rest) r"
proof (induction res pos rest token rule: pop_skip_line.induct)
  case (1 res pos rest token)
  show ?case
  proof (cases "rest = []")
    case False
    with "1.prems"(1) have "with_token rest token (PARSER_ERR_NONE, None, None) (\<lambda>used rest' token.
        if t_type token = TOKEN_TYPE_NEW_LINE then Inr (res, None, Some (pos + used))
        else pop_skip_line res (pos + used) rest' token) = Inr r"
      by (simp add: pop_skip_line.simps [of res pos rest])
    then show ?thesis
    proof (rule with_token_outcome_ok [OF _ "1.prems"(2)])
      fix u t
      assume u: "u \<le> length rest" "token_ok t" "u \<noteq> 0" and pt: "parse_token rest token = Inr (u, t)"
        and k: "(if t_type t = TOKEN_TYPE_NEW_LINE then Inr (res, None, Some (pos + u))
          else pop_skip_line res (pos + u) (drop u rest) t) = Inr r"
      show "outcome_ok (pos + u) (pos + length rest) r"
      proof (cases "t_type t = TOKEN_TYPE_NEW_LINE")
        case True
        with k u "1.prems"(3) show ?thesis by auto
      next
        case ty: False
        with k have "pop_skip_line res (pos + u) (drop u rest) t = Inr r" by simp
        from "1.IH" [OF False pt u(3) ty this u(2) "1.prems"(3)] u show ?thesis by simp
      qed
    qed
  qed (use "1.prems" in \<open>auto simp: pop_skip_line.simps\<close>)
qed

definition line_open :: "command_line \<Rightarrow> bool" where
  "line_open line \<longleftrightarrow> exprs_ok True (exprs line) \<and>
     (out_file line = None \<longleftrightarrow> out_type line = OUTPUT_TYPE_STDOUT) \<and> out_file line \<noteq> Some []"

lemma line_ok_tail:
  "line_open line \<Longrightarrow> line_tail line = Some (EXPR_TYPE_COMMAND c) \<Longrightarrow> line_ok line"
  using exprs_ok_last [of "exprs line"]
  by (auto simp: line_ok_def line_open_def line_tail_command)

lemma pop_finish_ok:
  "pop_finish pos rest token line = Inr r \<Longrightarrow> token_ok token \<Longrightarrow> line_open line \<Longrightarrow>
     outcome_ok pos (pos + length rest) r"
  by (auto simp: pop_finish_def res_simps line_ok_tail split: if_splits option.splits expr.splits
      intro: pop_skip_line_ok)

lemma pop_background_ok:
  assumes "pop_background pos rest token line = Inr r" and "token_ok token" and "line_open line"
  shows "outcome_ok pos (pos + length rest) r"
proof (cases "t_type token = TOKEN_TYPE_BACKGROUND")
  case True
  with assms(1) have w: "with_token rest token (PARSER_ERR_NONE, None, None) (\<lambda>used rest token.
        pop_finish (pos + used) rest token (line\<lparr>is_background := True\<rparr>)) = Inr r"
    by (simp add: pop_background_def)
  show ?thesis
    by (rule with_token_outcome_ok [OF w assms(2)])
      (use assms(3) in \<open>auto simp: line_open_def dest!: pop_finish_ok\<close>)
next
  case False
  with assms show ?thesis by (simp add: pop_background_def pop_finish_ok)
qed

lemma pop_redirect_ok:
  assumes "pop_redirect pos rest token line = Inr r" and "token_ok token"
    and "exprs_ok True (exprs line)" and "out_type line \<noteq> OUTPUT_TYPE_STDOUT"
  shows "outcome_ok pos (pos + length rest) r"
proof (cases "t_type token = TOKEN_TYPE_STR")
  case True
  with assms(1) obtain s where s: "token_strdup token = Inr s"
    and w: "with_token rest token (PARSER_ERR_NONE, None, None) (\<lambda>used rest token.
        pop_background (pos + used) rest token (line\<lparr>out_file := Some s\<rparr>)) = Inr r"
    by (auto simp: pop_redirect_def res_simps)
  have "line_open (line\<lparr>out_file := Some s\<rparr>)"
    using assms(3,4) token_strdup_Inr [OF s assms(2)] by (auto simp: line_open_def)
  then show ?thesis
    by - (rule with_token_outcome_ok [OF w assms(2)], auto dest!: pop_background_ok)
next
  case False
  with assms(1,2) show ?thesis by (simp add: pop_redirect_def pop_skip_line_ok)
qed

lemma pop_close_ok:
  assumes "pop_close pos rest token line = Inr r" and "token_ok token"
    and "exprs_ok True (exprs line)" and "out_type line = OUTPUT_TYPE_STDOUT" and "out_file line = None"
  shows "outcome_ok pos (pos + length rest) r"
proof (cases "t_type token = TOKEN_TYPE_OUT_NEW \<or> t_type token = TOKEN_TYPE_OUT_APPEND")
  case True
  with assms(1) obtain ty where ty: "ty \<noteq> OUTPUT_TYPE_STDOUT"
    and w: "with_token rest token (PARSER_ERR_NONE, None, None) (\<lambda>used rest token.
        pop_redirect (pos + used) rest token (line\<lparr>out_type := ty\<rparr>)) = Inr r"
    by (auto simp: pop_close_def Let_def split: if_splits)
  show ?thesis
    by (rule with_token_outcome_ok [OF w assms(2)]) (use assms(3) ty in \<open>auto dest!: pop_redirect_ok\<close>)
next
  case False
  with assms show ?thesis by (auto simp: pop_close_def line_open_def intro!: pop_background_ok)
qed

lemma pop_line_ok:
  assumes "pop_line text = Inr r"
  shows "outcome_ok 1 (length text) r"
proof -
  from assms obtain flow where flow: "pop_tokens 0 text token_zero command_line_zero = Inr flow"
    by (auto simp: pop_line_def res_simps)
  have "flow_ok 0 (0 + length text) flow"
    by (rule pop_tokens_ok [OF flow]) (simp_all add: command_line_zero_def)
  with assms flow show ?thesis
    by (cases flow)
      (auto simp: pop_line_def pop_flow_outcome_def dest!: pop_skip_line_ok pop_close_ok elim!: outcome_ok_mono)
qed

section \<open>The buffer\<close>

definition parser_ok :: "parser \<Rightarrow> bool" where
  "parser_ok p \<longleftrightarrow> unat (p_size p) \<le> length (p_buffer p) \<and> length (p_buffer p) \<le> unat (p_capacity p)"

lemma length_parser_text: "parser_ok p \<Longrightarrow> length (parser_text p) = unat (p_size p)"
  by (simp add: parser_ok_def parser_text_def)

lemma parser_new_ok: "parser_ok parser_new" "parser_text parser_new = []"
  by (simp_all add: parser_ok_def parser_text_def parser_new_def)

lemma parser_consume_ok:
  assumes "parser_ok p" and "sz \<le> p_size p"
  obtains p' where "parser_consume p sz = Inr p'" "parser_ok p'"
    "parser_text p' = drop (unat sz) (parser_text p)" "p_size p' = p_size p - sz"
proof -
  have le: "unat sz \<le> unat (p_size p)" using assms(2) by (simp add: word_le_nat_alt)
  have sub: "unat (p_size p - sz) = unat (p_size p) - unat sz" using assms(2) by (rule unat_sub_le)
  show ?thesis
  proof (cases "sz = p_size p")
    case True
    with assms that [of "p\<lparr>p_size := 0\<rparr>"] show ?thesis
      by (simp add: parser_consume_def parser_ok_def parser_text_def)
  next
    case False
    with assms sub le that show ?thesis
      by (auto simp: parser_consume_def parser_ok_def parser_text_def mem_write_def drop_take)
  qed
qed

lemma parser_write_ok:
  assumes "unat (p_size p) \<le> length (p_buffer p)" "length (p_buffer p) \<le> unat cap"
    and "unat (p_size p) + unat len \<le> unat cap" "length str = unat len"
  shows "let p' = p\<lparr>p_capacity := cap, p_buffer := mem_write (p_buffer p) (unat (p_size p)) str,
                    p_size := p_size p + len\<rparr>
         in parser_ok p' \<and> parser_text p' = parser_text p @ str \<and> p_size p' \<le> cap"
proof -
  let ?m = "mem_write (p_buffer p) (unat (p_size p)) str"
  have "unat cap < 2 ^ 32" using unsigned_less [of cap] by simp
  then have sz: "unat (p_size p + len) = unat (p_size p) + unat len"
    using assms(3) by (intro unat_add_nowrap) simp
  have "length ?m = max (length (p_buffer p)) (unat (p_size p) + unat len)"
    using length_mem_write [OF assms(1), of str] assms(4) by simp
  moreover have "take (unat (p_size p) + unat len) ?m = take (unat (p_size p)) (p_buffer p) @ str"
    using take_mem_write_end [OF assms(1), of str] assms(4) by simp
  ultimately show ?thesis
    using sz assms(2,3) by (simp add: parser_ok_def parser_text_def word_le_nat_alt)
qed

definition parser_grow :: "parser \<Rightarrow> u32 \<Rightarrow> u32" where
  "parser_grow p len =
     (if p_capacity p - p_size p < len
      then let new_capacity = (p_capacity p + 1) * 2
           in if new_capacity - p_size p < len then p_size p + len else new_capacity
      else p_capacity p)"

lemma parser_feed_grow:
  "length (p_buffer p) \<le> unat (parser_grow p len) \<Longrightarrow> length str = unat len \<Longrightarrow>
   parser_feed p str len =
     (if unat (p_size p) + unat len > unat (parser_grow p len) then Inl OutOfBounds
      else let p' = p\<lparr>p_capacity := parser_grow p len,
                      p_buffer := mem_write (p_buffer p) (unat (p_size p)) str,
                      p_size := p_size p + len\<rparr>
           in rbind (c_assert (p_size p' \<le> p_capacity p')) (\<lambda>_. Inr p'))"
  by (cases p) (auto simp: parser_feed_def parser_grow_def Let_def)

lemma parser_grow_fits:
  assumes p: "parser_ok p" and cap: "unat (p_capacity p) < 2 ^ 31 - 1"
    and room: "unat (p_size p) + unat len < 2 ^ 32"
  shows "unat (p_capacity p) \<le> unat (parser_grow p len)"
    and "unat (p_size p) + unat len \<le> unat (parser_grow p len)"
proof -
  let ?nc = "(p_capacity p + 1) * 2"
  have sz: "unat (p_size p) \<le> unat (p_capacity p)" using p by (simp add: parser_ok_def)
  have nc: "unat ?nc = (unat (p_capacity p) + 1) * 2" using cap by (simp add: unat_word_ariths)
  have sub: "unat (p_capacity p - p_size p) = unat (p_capacity p) - unat (p_size p)"
    using sz by (intro unat_sub_le) (simp add: word_le_nat_alt)
  have subn: "unat (?nc - p_size p) = unat ?nc - unat (p_size p)"
    using sz nc by (intro unat_sub_le) (simp add: word_le_nat_alt)
  have add: "unat (p_size p + len) = unat (p_size p) + unat len"
    using room by (intro unat_add_nowrap) simp
  show "unat (p_capacity p) \<le> unat (parser_grow p len)"
       "unat (p_size p) + unat len \<le> unat (parser_grow p len)"
    using sz nc sub subn add
    by (auto simp: parser_grow_def Let_def word_less_nat_alt)
qed

lemma parser_feed_ok:
  assumes p: "parser_ok p" and len: "length str = unat len"
    and cap: "unat (p_capacity p) < 2 ^ 31 - 1" and room: "unat (p_size p) + unat len < 2 ^ 32"
  obtains p' where "parser_feed p str len = Inr p'" "parser_ok p'" "parser_text p' = parser_text p @ str"
proof -
  note grow = parser_grow_fits [OF p cap room]
  have buf: "unat (p_size p) \<le> length (p_buffer p)" "length (p_buffer p) \<le> unat (parser_grow p len)"
    using p grow by (auto simp: parser_ok_def)
  show ?thesis
    using parser_write_ok [OF buf grow(2) len] parser_feed_grow [OF buf(2) len] grow(2) that
    by (auto simp: Let_def)
qed

lemma parser_pop_next_consume:
  assumes "parser_ok p" and u: "pop_line (parser_text p) = Inr (e, out, Some n)"
  obtains p' where "parser_pop_next p = Inr (e, out, p')" "parser_ok p'"
    "parser_text p' = drop n (parser_text p)" "unat (p_size p') = unat (p_size p) - n"
proof -
  have "n \<le> unat (p_size p)"
    using pop_line_ok [OF u] length_parser_text [OF assms(1)] by simp
  moreover have "unat (p_size p) < 2 ^ 32" using unsigned_less [of "p_size p"] by simp
  ultimately have w: "unat (of_nat n :: u32) = n" and le: "(of_nat n :: u32) \<le> p_size p"
    by (simp_all add: unat_of_nat word_le_nat_alt)
  from parser_consume_ok [OF assms(1) le] obtain q where
    "parser_consume p (of_nat n) = Inr q" "parser_ok q"
    "parser_text q = drop n (parser_text p)" "p_size q = p_size p - of_nat n"
    using w by metis
  with u le w that show ?thesis by (simp add: parser_pop_next_def unat_sub_le)
qed

lemma parser_pop_next_cases:
  assumes "parser_ok p" and "parser_pop_next p = Inr (e, out, p')"
  obtains (nothing) "e = PARSER_ERR_NONE" "out = None" "p' = p"
      "pop_line (parser_text p) = Inr (PARSER_ERR_NONE, None, None)"
  | (consumed) n where "pop_line (parser_text p) = Inr (e, out, Some n)" "0 < n"
      "n \<le> length (parser_text p)" "parser_ok p'" "parser_text p' = drop n (parser_text p)"
      "unat (p_size p') = unat (p_size p) - n"
      "case out of None \<Rightarrow> e \<noteq> PARSER_ERR_NONE | Some line \<Rightarrow> e = PARSER_ERR_NONE \<and> line_ok line"
proof -
  from assms(2) obtain u where u: "pop_line (parser_text p) = Inr (e, out, u)"
    by (auto simp: parser_pop_next_def res_simps split: option.splits)
  show ?thesis
  proof (cases u)
    case None
    with pop_line_ok [OF u] assms(2) u show ?thesis
      by - (rule nothing, auto simp: parser_pop_next_def)
  next
    case (Some n)
    with parser_pop_next_consume [OF assms(1)] u assms(2) have
      "parser_ok p'" "parser_text p' = drop n (parser_text p)" "unat (p_size p') = unat (p_size p) - n"
      by fastforce+
    with pop_line_ok [OF u] u Some consumed show ?thesis by simp
  qed
qed

section \<open>Properties\<close>

text \<open>
  (C3) \<open>parser_feed\<close> appends exactly the bytes it is given and stays inside its buffer, as long
  as the buffer is below 2 GB and the sizes do not wrap around.
\<close>

theorem parser_feed_appends:
  assumes "parser_ok p" and "length str = unat len"
    and "unat (p_capacity p) < 2 ^ 31 - 1" and "unat (p_size p) + unat len < 2 ^ 32"
  shows "\<exists>p'. parser_feed p str len = Inr p' \<and> parser_ok p' \<and> parser_text p' = parser_text p @ str"
  using parser_feed_ok [OF assms] by blast

theorem parser_feed_appends_witness:
  "\<exists>p'. parser_feed parser_new ''ls'' 2 = Inr p' \<and> parser_ok p' \<and> parser_text p' = ''ls''"
  using parser_feed_appends [of parser_new "''ls''" 2] parser_new_ok
  by (simp add: parser_new_def parser_text_def)

text \<open>
  Above that bound the doubling of the capacity wraps around: feeding one byte to a full
  buffer of 2 GB shrinks it to two bytes and writes behind its end.
\<close>

theorem parser_feed_capacity_wraps:
  "parser_feed \<lparr>p_buffer = replicate (2 ^ 31) c, p_size = 2 ^ 31, p_capacity = 2 ^ 31\<rparr> [d] 1
     = Inl OutOfBounds"
  by (simp add: parser_feed_def Let_def)

text \<open>
  (C2) One call of \<open>parser_pop_next\<close> keeps the buffer well-formed and removes a prefix of it; it
  removes nothing exactly when it reports neither a line nor an error, so the caller's loop
  terminates. A line it returns is well-formed: commands and operators alternate, it ends with a
  command, no word is empty and a redirection has a file name.
\<close>

theorem parser_pop_next_spec:
  assumes "parser_ok p" and "parser_pop_next p = Inr (e, out, p')"
  shows "parser_ok p' \<and>
    (\<exists>n. parser_text p' = drop n (parser_text p) \<and> n \<le> length (parser_text p) \<and>
         unat (p_size p') = unat (p_size p) - n \<and> (n = 0 \<longleftrightarrow> e = PARSER_ERR_NONE \<and> out = None)) \<and>
    (\<forall>line. out = Some line \<longrightarrow> e = PARSER_ERR_NONE \<and> line_ok line)"
  using assms
proof (cases rule: parser_pop_next_cases)
  case nothing
  with assms(1) show ?thesis by (auto intro!: exI [of _ 0])
next
  case (consumed n)
  then show ?thesis by (auto intro!: exI [of _ n] split: option.splits)
qed

theorem parser_pop_next_spec_witness:
  "\<exists>line p'. parser_pop_next \<lparr>p_buffer = ''ls'' @ [ch_nl], p_size = 3, p_capacity = 3\<rparr> =
     Inr (PARSER_ERR_NONE, Some line, p') \<and> parser_ok p' \<and> line_ok line"
proof -
  let ?p = "\<lparr>p_buffer = ''ls'' @ [ch_nl], p_size = 3, p_capacity = 3\<rparr>"
  have p: "parser_ok ?p" by (simp add: parser_ok_def)
  have pop: "parser_pop_next ?p = Inr (PARSER_ERR_NONE,
      Some \<lparr>exprs = [EXPR_TYPE_COMMAND \<lparr>exe = ''ls'', args = [], arg_count = 0, arg_capacity = 0\<rparr>],
            out_type = OUTPUT_TYPE_STDOUT, out_file = None, is_background = False\<rparr>,
      \<lparr>p_buffer = ''ls'' @ [ch_nl], p_size = 0, p_capacity = 3\<rparr>)"
    by code_simp
  show ?thesis using pop parser_pop_next_spec [OF p pop] by auto
qed

text \<open>The objects a line owns: what the parser allocated for it.\<close>

definition expr_owns :: "expr \<Rightarrow> nat \<Rightarrow> line_alloc set" where
  "expr_owns e i =
     (case e of
        EXPR_TYPE_COMMAND c \<Rightarrow> {Alloc_exe i, Alloc_expr i} \<union> {Alloc_arg i j | j. j < length (args c)} \<union>
          (if arg_capacity c = 0 then {} else {Alloc_args i})
      | _ \<Rightarrow> {Alloc_expr i})"

definition line_owns :: "command_line \<Rightarrow> line_alloc set" where
  "line_owns line =
     (\<Union>i < length (exprs line). expr_owns (exprs line ! i) i) \<union>
     (if out_file line = None then {} else {Alloc_out_file}) \<union> {Alloc_line}"

lemma set_expr_frees: "exprs_ok b [e] \<Longrightarrow> set (expr_frees i e) = expr_owns e i \<and> distinct (expr_frees i e)"
  by (cases e) (auto simp: expr_owns_def command_ok_def distinct_map inj_on_def)

fun alloc_index :: "line_alloc \<Rightarrow> nat option" where
  "alloc_index (Alloc_exe i) = Some i"
| "alloc_index (Alloc_arg i j) = Some i"
| "alloc_index (Alloc_args i) = Some i"
| "alloc_index (Alloc_expr i) = Some i"
| "alloc_index _ = None"

lemma expr_owns_index: "a \<in> expr_owns e i \<Longrightarrow> alloc_index a = Some i"
  by (auto simp: expr_owns_def split: expr.splits if_splits)

lemma exprs_frees_owns:
  "exprs_ok b es \<Longrightarrow>
     set (exprs_frees k es) = (\<Union>i < length es. expr_owns (es ! i) (k + i)) \<and> distinct (exprs_frees k es)"
proof (induction es arbitrary: k b)
  case (Cons e es)
  from Cons.prems have e: "exprs_ok b [e]" by (cases e) auto
  from Cons.prems have es: "\<exists>b. exprs_ok b es" by (cases e) auto
  then have IH: "set (exprs_frees (Suc k) es) = (\<Union>i < length es. expr_owns (es ! i) (Suc k + i))"
    "distinct (exprs_frees (Suc k) es)"
    using Cons.IH by blast+
  have split: "(\<Union>i < length (e # es). expr_owns ((e # es) ! i) (k + i)) =
      expr_owns e k \<union> (\<Union>i < length es. expr_owns (es ! i) (Suc k + i))"
    by (auto simp: lessThan_Suc_eq_insert_0)
  have "expr_owns e k \<inter> (\<Union>i < length es. expr_owns (es ! i) (Suc k + i)) = {}"
    by (auto dest!: expr_owns_index)
  with split set_expr_frees [OF e, of k] IH show ?case by auto
qed simp

text \<open>
  \<open>command_line_delete\<close> frees every object of a line the parser returned, each exactly once.
\<close>

theorem command_line_delete_frees_all:
  assumes "line_ok line"
  shows "set (command_line_delete line) = line_owns line \<and> distinct (command_line_delete line)"
proof -
  have "exprs_ok True (exprs line)" using assms by (simp add: line_ok_def)
  from exprs_frees_owns [OF this, of 0] show ?thesis
    by (auto simp: command_line_delete_def line_owns_def dest!: expr_owns_index)
qed

theorem command_line_delete_frees_all_witness:
  "set (command_line_delete (command_line_zero\<lparr>exprs :=
       [EXPR_TYPE_COMMAND \<lparr>exe = ''ls'', args = [''a''], arg_count = 1, arg_capacity = 2\<rparr>]\<rparr>)) =
     line_owns (command_line_zero\<lparr>exprs :=
       [EXPR_TYPE_COMMAND \<lparr>exe = ''ls'', args = [''a''], arg_count = 1, arg_capacity = 2\<rparr>]\<rparr>)"
  using command_line_delete_frees_all [of "command_line_zero\<lparr>exprs :=
       [EXPR_TYPE_COMMAND \<lparr>exe = ''ls'', args = [''a''], arg_count = 1, arg_capacity = 2\<rparr>]\<rparr>"]
  by (simp add: line_ok_def command_ok_def command_line_zero_def)

end
