(* ===== verification/Parser_Print.thy ===== *)
theory Parser_Print
  imports Parser
begin

text \<open>
  A printer for shell lines and the round trip through the parser of src/2/parser.c: whatever
  line is meant, printing it with every word in double quotes and parsing the text gives it back.
  Also the inputs on which the parser does not do what a shell should: an empty word, operators
  inside single quotes and a redirection without a file name.
\<close>

section \<open>Printing\<close>

text \<open>
  A line as a user means it: words and operators, without the capacities of the C arrays; and a
  printer that quotes every word.
\<close>

datatype shell_expr =
    Words "string list"
  | Pipe
  | And
  | Or

definition escape :: "char \<Rightarrow> string" where
  "escape c = (if c = ch_dquote \<or> c = ch_bslash then [ch_bslash, c] else [c])"

definition print_word :: "string \<Rightarrow> string" where
  "print_word w = [ch_space, ch_dquote] @ concat (map escape w) @ [ch_dquote]"

fun print_expr :: "shell_expr \<Rightarrow> string" where
  "print_expr (Words ws) = concat (map print_word ws)"
| "print_expr Pipe = [ch_space, ch_pipe]"
| "print_expr And = [ch_space, ch_amp, ch_amp]"
| "print_expr Or = [ch_space, ch_pipe, ch_pipe]"

definition print_line ::
  "shell_expr list \<Rightarrow> output_type \<Rightarrow> string \<Rightarrow> bool \<Rightarrow> string" where
  "print_line es ty file bg =
     concat (map print_expr es) @
     (case ty of
        OUTPUT_TYPE_STDOUT \<Rightarrow> []
      | OUTPUT_TYPE_FILE_NEW \<Rightarrow> [ch_space, ch_gt] @ print_word file
      | OUTPUT_TYPE_FILE_APPEND \<Rightarrow> [ch_space, ch_gt, ch_gt] @ print_word file) @
     (if bg then [ch_space, ch_amp] else []) @ [ch_nl]"

fun shell_exprs_ok :: "bool \<Rightarrow> shell_expr list \<Rightarrow> bool" where
  "shell_exprs_ok b [] = (\<not> b)"
| "shell_exprs_ok b (Words ws # es) = (b \<and> ws \<noteq> [] \<and> [] \<notin> set ws \<and> shell_exprs_ok False es)"
| "shell_exprs_ok b (_ # es) = (\<not> b \<and> shell_exprs_ok True es)"

fun expr_abs :: "expr \<Rightarrow> shell_expr" where
  "expr_abs (EXPR_TYPE_COMMAND c) = Words (exe c # args c)"
| "expr_abs EXPR_TYPE_PIPE = Pipe"
| "expr_abs EXPR_TYPE_AND = And"
| "expr_abs EXPR_TYPE_OR = Or"

lemma token_char_dquote [simp]: "token_char ch_dquote = Ch_quote"
  by (simp add: token_char_def)

lemma step_in_dquote:
  assumes "c \<noteq> ch_dquote" "c \<noteq> ch_bslash"
  shows "parse_token_step ch_dquote t c cs = append_and_next ch_dquote t c 0"
  using assms by (auto simp: parse_token_step_def token_char_def)

lemma step_escaped:
  assumes "c = ch_dquote \<or> c = ch_bslash"
  shows "parse_token_step ch_dquote t ch_bslash (c # cs) = append_and_next ch_dquote t c 1"
  using assms by (auto simp: parse_token_step_def token_char_def)

lemma loop_in_dquote:
  assumes "token_ok t" "unat (t_size t) + length w + 1 < 2 ^ 31"
  shows "\<exists>t'. parse_token_loop ch_dquote t n (concat (map escape w) @ ch_dquote # rest) =
           Inr (n + length (concat (map escape w)) + 1, t') \<and>
         token_ok t' \<and> token_str t' = token_str t @ w \<and> t_type t' = TOKEN_TYPE_STR"
  using assms
proof (induction w arbitrary: t n)
  case Nil
  then show ?case by (simp add: parse_token_step_def)
next
  case (Cons c w)
  from Cons.prems obtain t1 where t1: "token_append t c = Inr t1"
    using token_append_ok [of t c] by auto
  note f = token_append_Inr [OF t1 Cons.prems(1)]
  have "unat (t_size t1) = unat (t_size t) + 1"
    using f Cons.prems by (simp add: unat_word_ariths)
  with Cons.IH [of t1 "n + length (escape c)"] f Cons.prems(2)
  obtain t' where t': "parse_token_loop ch_dquote t1 (n + length (escape c)) (concat (map escape w) @ ch_dquote # rest) =
           Inr (n + length (escape c) + length (concat (map escape w)) + 1, t')"
         "token_ok t'" "token_str t' = token_str t1 @ w" "t_type t' = TOKEN_TYPE_STR"
    by auto
  have "parse_token_loop ch_dquote t n (concat (map escape (c # w)) @ ch_dquote # rest) =
    parse_token_loop ch_dquote t1 (n + length (escape c)) (concat (map escape w) @ ch_dquote # rest)"
    using t1 by (cases "c = ch_dquote \<or> c = ch_bslash")
      (auto simp: escape_def step_in_dquote step_escaped append_and_next_def)
  with t' f(2) show ?case by (simp add: add.assoc)
qed

lemma parse_token_word:
  assumes "token_ok tok" "length w + 1 < 2 ^ 31"
  obtains t' where "parse_token (print_word w @ rest) tok = Inr (length (print_word w), t')"
         "token_ok t'" "token_str t' = w" "t_type t' = TOKEN_TYPE_STR"
proof -
  obtain t' where t': "parse_token_loop ch_dquote (token_reset tok) 2 (concat (map escape w) @ ch_dquote # rest) =
           Inr (2 + length (concat (map escape w)) + 1, t')"
         "token_ok t'" "token_str t' = w" "t_type t' = TOKEN_TYPE_STR"
    using loop_in_dquote [of "token_reset tok" w 2 rest] assms by (auto simp: token_reset_def token_ok_def token_str_def)
  then have "parse_token (print_word w @ rest) tok = Inr (length (print_word w), t')"
    by (simp add: parse_token_def print_word_def isspace_def parse_token_step_def numeral_2_eq_2)
  with t' that show ?thesis by blast
qed

lemma parse_token_operator:
  shows "d \<noteq> ch_pipe \<Longrightarrow> parse_token (ch_space # ch_pipe # d # rest) tok =
           Inr (2, (token_reset tok)\<lparr>t_type := TOKEN_TYPE_PIPE\<rparr>)"
    and "parse_token (ch_space # ch_pipe # ch_pipe # rest) tok =
           Inr (3, (token_reset tok)\<lparr>t_type := TOKEN_TYPE_OR\<rparr>)"
    and "parse_token (ch_space # ch_amp # ch_amp # rest) tok =
           Inr (3, (token_reset tok)\<lparr>t_type := TOKEN_TYPE_AND\<rparr>)"
    and "d \<noteq> ch_amp \<Longrightarrow> parse_token (ch_space # ch_amp # d # rest) tok =
           Inr (2, (token_reset tok)\<lparr>t_type := TOKEN_TYPE_BACKGROUND\<rparr>)"
    and "d \<noteq> ch_gt \<Longrightarrow> parse_token (ch_space # ch_gt # d # rest) tok =
           Inr (2, (token_reset tok)\<lparr>t_type := TOKEN_TYPE_OUT_NEW\<rparr>)"
    and "parse_token (ch_space # ch_gt # ch_gt # rest) tok =
           Inr (3, (token_reset tok)\<lparr>t_type := TOKEN_TYPE_OUT_APPEND\<rparr>)"
    and "parse_token (ch_nl # rest) tok =
           Inr (1, (token_reset tok)\<lparr>t_type := TOKEN_TYPE_NEW_LINE\<rparr>)"
  by (simp_all add: parse_token_def isspace_def parse_token_step_def token_char_def
      parse_token_operator_def token_reset_def)

lemma command_append_arg_ok:
  assumes "command_ok c" and "length (args c) + 1 < 2 ^ 31"
  shows "\<exists>c'. command_append_arg c a = Inr c'"
proof (cases "arg_count c = arg_capacity c")
  case True
  have "unat (arg_capacity c) + 1 < 2 ^ 31" using assms True by (simp add: command_ok_def)
  then have "unat ((arg_capacity c + 1) * 2) = (unat (arg_capacity c) + 1) * 2"
    by (simp add: unat_word_ariths)
  then have "arg_count c < (arg_capacity c + 1) * 2" using True by (simp add: word_less_nat_alt)
  with True show ?thesis by (simp add: command_append_arg_def)
next
  case False
  with assms(1) have "arg_count c < arg_capacity c" by (simp add: command_ok_def order.strict_iff_order)
  with False show ?thesis by (simp add: command_append_arg_def)
qed

text \<open>The line read so far means \<open>es\<close>, and its last command has at most \<open>pos\<close> arguments.\<close>

definition line_means :: "command_line \<Rightarrow> shell_expr list \<Rightarrow> nat \<Rightarrow> bool" where
  "line_means line es pos \<longleftrightarrow> exprs_ok True (exprs line) \<and> map expr_abs (exprs line) = es \<and>
     out_type line = OUTPUT_TYPE_STDOUT \<and> out_file line = None \<and> \<not> is_background line \<and>
     (\<forall>c. line_tail line = Some (EXPR_TYPE_COMMAND c) \<longrightarrow> length (args c) \<le> pos)"

lemma line_means_mono: "line_means line es pos \<Longrightarrow> pos \<le> pos' \<Longrightarrow> line_means line es pos'"
  by (auto simp: line_means_def)

lemma token_strdup_ok:
  "token_ok t \<Longrightarrow> t_type t = TOKEN_TYPE_STR \<Longrightarrow> token_str t \<noteq> [] \<Longrightarrow> token_strdup t = Inr (token_str t)"
  by (auto simp: token_strdup_def token_str_empty word_gt_0 simp flip: token_str_def)

lemma append_word_first:
  assumes "line_means line es pos" "es = [] \<or> (\<forall>ws. last es \<noteq> Words ws)"
    and "token_ok t" "t_type t = TOKEN_TYPE_STR" "token_str t \<noteq> []"
  shows "\<exists>line'. append_word line t = Inr line' \<and> line_means line' (es @ [Words [token_str t]]) pos"
proof -
  have tl: "line_tail line \<noteq> Some (EXPR_TYPE_COMMAND c)" for c
    using assms(1,2) by (auto simp: line_means_def line_tail_command)
  have "exprs line = [] \<or> even (length (exprs line))"
    using assms(1) tl exprs_ok_last [of "exprs line"]
    by (cases "exprs line = []") (auto simp: line_means_def line_tail_def)
  then have "exprs_ok True (exprs line @ [EXPR_TYPE_COMMAND \<lparr>exe = token_str t, args = [],
      arg_count = 0, arg_capacity = 0\<rparr>])"
    using assms(1,5) by (auto simp: line_means_def exprs_ok_append command_ok_def)
  moreover have "append_word line t = Inr (command_line_append line
      (EXPR_TYPE_COMMAND \<lparr>exe = token_str t, args = [], arg_count = 0, arg_capacity = 0\<rparr>))"
    using tl token_strdup_ok [OF assms(3-5)]
    by (auto simp: append_word_def split: option.splits expr.splits)
  ultimately show ?thesis
    using assms(1) by (auto simp: line_means_def command_line_append_def line_tail_def)
qed

lemma append_word_more:
  assumes "line_means line (es @ [Words ws]) pos" "pos + 1 < 2 ^ 31"
    and "token_ok t" "t_type t = TOKEN_TYPE_STR" "token_str t \<noteq> []"
  shows "\<exists>line'. append_word line t = Inr line' \<and>
    line_means line' (es @ [Words (ws @ [token_str t])]) (pos + 1)"
proof -
  obtain xs c where xs: "exprs line = xs @ [EXPR_TYPE_COMMAND c]" "map expr_abs xs = es" "ws = exe c # args c"
  proof (cases "exprs line" rule: rev_cases)
    case (snoc xs x)
    with assms(1) that show ?thesis by (cases x) (auto simp: line_means_def)
  qed (use assms(1) in \<open>simp add: line_means_def\<close>)
  have c: "command_ok c" "length (args c) \<le> pos" "exprs_ok True xs" "even (length xs)"
    using assms(1) xs by (auto simp: line_means_def exprs_ok_append line_tail_def)
  obtain c' where c': "command_append_arg c (token_str t) = Inr c'"
    using command_append_arg_ok [OF c(1)] c(2) assms(2) by fastforce
  note f = command_append_arg_Inr [OF c' c(1) assms(5)]
  have "append_word line t = Inr (line\<lparr>exprs := xs @ [EXPR_TYPE_COMMAND c']\<rparr>)"
    using xs c' token_strdup_ok [OF assms(3-5)] by (simp add: append_word_def line_tail_def)
  with f c xs assms(1) show ?thesis
    by (auto simp: line_means_def exprs_ok_append line_tail_def)
qed

lemma pop_tokens_token:
  assumes "parse_token rest token = Inr (u, t)" "u \<noteq> 0" "rest \<noteq> []"
    and "pop_dispatch line t = Inr (Line_next line')"
  shows "pop_tokens pos rest token line = pop_tokens (pos + u) (drop u rest) t line'"
  using assms by (simp add: pop_tokens.simps [of pos rest] with_token_def)

lemma pop_tokens_word:
  assumes "token_ok tok" "length w + 1 < 2 ^ 31" "w \<noteq> []"
    and "\<And>t. token_ok t \<Longrightarrow> t_type t = TOKEN_TYPE_STR \<Longrightarrow> token_str t = w \<Longrightarrow>
      \<exists>line'. append_word line t = Inr line' \<and> P line'"
  shows "\<exists>tok' line'. token_ok tok' \<and> P line' \<and>
    pop_tokens pos (print_word w @ rest) tok line =
      pop_tokens (pos + length (print_word w)) rest tok' line'"
proof -
  obtain t where t: "parse_token (print_word w @ rest) tok = Inr (length (print_word w), t)"
         "token_ok t" "token_str t = w" "t_type t = TOKEN_TYPE_STR"
    using parse_token_word [OF assms(1,2)] .
  with assms(4) obtain line' where l: "append_word line t = Inr line'" "P line'" by blast
  then have "pop_dispatch line t = Inr (Line_next line')" using t by (simp add: pop_dispatch_def)
  from pop_tokens_token [OF t(1) _ _ this, of pos] l t show ?thesis
    by (auto simp: print_word_def)
qed

lemma length_escape: "length w \<le> length (concat (map escape w))"
  by (induction w) (auto simp: escape_def)

lemma pop_tokens_more_words:
  assumes "line_means line (es @ [Words us]) pos" "token_ok tok" "[] \<notin> set ws"
    and "pos + length (concat (map print_word ws)) + 1 < 2 ^ 31"
  shows "\<exists>tok' line'. token_ok tok' \<and>
    line_means line' (es @ [Words (us @ ws)]) (pos + length (concat (map print_word ws))) \<and>
    pop_tokens pos (concat (map print_word ws) @ rest) tok line =
      pop_tokens (pos + length (concat (map print_word ws))) rest tok' line'"
  using assms
proof (induction ws arbitrary: line us pos tok)
  case (Cons w ws)
  have len: "length w + 1 < 2 ^ 31"
    using Cons.prems(4) length_escape [of w] by (simp add: print_word_def)
  have word: "\<exists>line'. append_word line t = Inr line' \<and> line_means line' (es @ [Words (us @ [w])]) (pos + 1)"
    if "token_ok t" "t_type t = TOKEN_TYPE_STR" "token_str t = w" for t
    using append_word_more [OF Cons.prems(1) _ that(1,2)] that(3) Cons.prems(3,4) by auto
  obtain tok1 line1 where 1: "token_ok tok1" "line_means line1 (es @ [Words (us @ [w])]) (pos + 1)"
    "pop_tokens pos (print_word w @ concat (map print_word ws) @ rest) tok line =
      pop_tokens (pos + length (print_word w)) (concat (map print_word ws) @ rest) tok1 line1"
    using pop_tokens_word [OF Cons.prems(2) len _ word] Cons.prems(3) by fastforce
  have "line_means line1 (es @ [Words (us @ [w])]) (pos + length (print_word w))"
    by (rule line_means_mono [OF 1(2)]) (simp add: print_word_def)
  from Cons.IH [OF this 1(1)] Cons.prems(3,4) 1(3) show ?case
    by (auto simp: add.assoc)
qed auto

lemma pop_tokens_words:
  assumes "line_means line es pos" "es = [] \<or> (\<forall>ws. last es \<noteq> Words ws)"
    and "token_ok tok" "ws \<noteq> []" "[] \<notin> set ws"
    and "pos + length (concat (map print_word ws)) + 1 < 2 ^ 31"
  shows "\<exists>tok' line'. token_ok tok' \<and>
    line_means line' (es @ [Words ws]) (pos + length (concat (map print_word ws))) \<and>
    pop_tokens pos (concat (map print_word ws) @ rest) tok line =
      pop_tokens (pos + length (concat (map print_word ws))) rest tok' line'"
proof -
  obtain w vs where ws: "ws = w # vs" using assms(4) by (cases ws) auto
  have len: "length w + 1 < 2 ^ 31"
    using assms(6) length_escape [of w] by (simp add: ws print_word_def)
  have word: "\<exists>line'. append_word line t = Inr line' \<and> line_means line' (es @ [Words [w]]) pos"
    if "token_ok t" "t_type t = TOKEN_TYPE_STR" "token_str t = w" for t
    using append_word_first [OF assms(1,2) that(1,2)] that(3) assms(5) ws by auto
  obtain tok1 line1 where 1: "token_ok tok1" "line_means line1 (es @ [Words [w]]) pos"
    "pop_tokens pos (print_word w @ concat (map print_word vs) @ rest) tok line =
      pop_tokens (pos + length (print_word w)) (concat (map print_word vs) @ rest) tok1 line1"
    using pop_tokens_word [OF assms(3) len _ word] assms(5) ws by fastforce
  have "line_means line1 (es @ [Words [w]]) (pos + length (print_word w))"
    by (rule line_means_mono [OF 1(2)]) simp
  from pop_tokens_more_words [OF this 1(1), of vs rest] assms(5,6) 1(3) show ?thesis
    by (auto simp: ws add.assoc)
qed

lemma line_means_operator:
  assumes "line_means line (ds @ [Words us]) pos"
    and "op \<in> {EXPR_TYPE_PIPE, EXPR_TYPE_AND, EXPR_TYPE_OR}"
  shows "append_operator line op x y = Line_next (command_line_append line op)"
    and "line_means (command_line_append line op) (ds @ [Words us, expr_abs op]) pos"
proof -
  obtain xs c where xs: "exprs line = xs @ [EXPR_TYPE_COMMAND c]"
  proof (cases "exprs line" rule: rev_cases)
    case (snoc xs x)
    with assms(1) that show ?thesis by (cases x) (auto simp: line_means_def)
  qed (use assms(1) in \<open>simp add: line_means_def\<close>)
  with assms show "append_operator line op x y = Line_next (command_line_append line op)"
    and "line_means (command_line_append line op) (ds @ [Words us, expr_abs op]) pos"
    by (auto simp: append_operator_def line_tail_def line_means_def command_line_append_def exprs_ok_append)
qed

lemma pop_tokens_operator:
  assumes "line_means line (ds @ [Words us]) pos" and "token_ok tok"
    and "(e, op) \<in> {(Pipe, EXPR_TYPE_PIPE), (And, EXPR_TYPE_AND), (Or, EXPR_TYPE_OR)}"
  shows "\<exists>tok'. token_ok tok' \<and>
    line_means (command_line_append line op) (ds @ [Words us, e]) (pos + length (print_expr e)) \<and>
    pop_tokens pos (print_expr e @ ch_space # rest) tok line =
      pop_tokens (pos + length (print_expr e)) (ch_space # rest) tok' (command_line_append line op)"
proof -
  have op: "op \<in> {EXPR_TYPE_PIPE, EXPR_TYPE_AND, EXPR_TYPE_OR}" "expr_abs op = e"
    using assms(3) by auto
  obtain ty where t: "parse_token (print_expr e @ ch_space # rest) tok =
      Inr (length (print_expr e), (token_reset tok)\<lparr>t_type := ty\<rparr>)"
    and d: "pop_dispatch line ((token_reset tok)\<lparr>t_type := ty\<rparr>) =
      Inr (Line_next (command_line_append line op))"
    using assms(3) line_means_operator(1) [OF assms(1) op(1)]
    by (auto simp: parse_token_operator pop_dispatch_def)
  have "line_means (command_line_append line op) (ds @ [Words us, e]) (pos + length (print_expr e))"
    using line_means_operator(2) [OF assms(1) op(1)] op(2) by (auto elim: line_means_mono)
  moreover have "length (print_expr e) \<noteq> 0" using assms(3) by auto
  ultimately show ?thesis
    using pop_tokens_token [OF t _ _ d, of pos] assms(2)
    by (intro exI [of _ "(token_reset tok)\<lparr>t_type := ty\<rparr>"]) auto
qed

lemma shell_exprs_ok_True:
  assumes "shell_exprs_ok True es"
  shows "\<exists>s. concat (map print_expr es) @ rest = ch_space # s"
proof (cases es)
  case (Cons e fs)
  with assms obtain w ws where "e = Words (w # ws)" by (cases e; cases "case e of Words ws \<Rightarrow> ws | _ \<Rightarrow> []") auto
  with Cons show ?thesis by (simp add: print_word_def)
qed (use assms in simp)

lemma pop_tokens_exprs:
  assumes "shell_exprs_ok b es" "line_means line ds pos" "token_ok tok"
    and "b \<Longrightarrow> ds = [] \<or> (\<forall>ws. last ds \<noteq> Words ws)"
    and "\<not> b \<Longrightarrow> \<exists>cs us. ds = cs @ [Words us]"
    and "pos + length (concat (map print_expr es)) + 1 < 2 ^ 31"
  shows "\<exists>tok' line'. token_ok tok' \<and>
    line_means line' (ds @ es) (pos + length (concat (map print_expr es))) \<and>
    pop_tokens pos (concat (map print_expr es) @ rest) tok line =
      pop_tokens (pos + length (concat (map print_expr es))) rest tok' line'"
  using assms
proof (induction es arbitrary: b line ds pos tok)
  case Nil
  then show ?case by auto
next
  case (Cons e es)
  show ?case
  proof (cases "\<exists>ws. e = Words ws")
    case True
    then obtain ws where e: "e = Words ws" by blast
    obtain tok1 line1 where 1: "token_ok tok1"
      "line_means line1 (ds @ [Words ws]) (pos + length (concat (map print_word ws)))"
      "pop_tokens pos (concat (map print_word ws) @ concat (map print_expr es) @ rest) tok line =
        pop_tokens (pos + length (concat (map print_word ws))) (concat (map print_expr es) @ rest) tok1 line1"
      using pop_tokens_words [OF Cons.prems(2) _ Cons.prems(3), of ws "concat (map print_expr es) @ rest"]
        Cons.prems e by fastforce
    from Cons.IH [OF _ 1(2,1), of False] Cons.prems 1(3) e show ?thesis by (auto simp: add.assoc)
  next
    case False
    then obtain op where op: "(e, op) \<in> {(Pipe, EXPR_TYPE_PIPE), (And, EXPR_TYPE_AND), (Or, EXPR_TYPE_OR)}"
      by (cases e) auto
    with Cons.prems(1) have b: "\<not> b" "shell_exprs_ok True es" by auto
    with Cons.prems(5) obtain cs us where ds: "ds = cs @ [Words us]" by auto
    obtain s where s: "concat (map print_expr es) @ rest = ch_space # s"
      using shell_exprs_ok_True [OF b(2)] by blast
    obtain tok1 where 1: "token_ok tok1"
      "line_means (command_line_append line op) (cs @ [Words us, e]) (pos + length (print_expr e))"
      "pop_tokens pos (print_expr e @ ch_space # s) tok line =
        pop_tokens (pos + length (print_expr e)) (ch_space # s) tok1 (command_line_append line op)"
      using pop_tokens_operator [OF _ Cons.prems(3) op] Cons.prems(2) ds by blast
    from Cons.IH [OF b(2) 1(2,1)] Cons.prems(6) False 1(3) s show ?thesis
      by (auto simp: ds add.assoc)
  qed
qed

text \<open>The tokens that end a printed line.\<close>

lemma pop_finish_new_line:
  assumes "line_tail line = Some (EXPR_TYPE_COMMAND c)" "t_type t = TOKEN_TYPE_NEW_LINE"
  shows "pop_finish pos rest t line = Inr (PARSER_ERR_NONE, Some line, Some pos)"
  using assms by (simp add: pop_finish_def)

lemma with_token_end:
  assumes "line_tail line = Some (EXPR_TYPE_COMMAND c)" "is_background line = False"
  shows "with_token ((if bg then [ch_space, ch_amp] else []) @ ch_nl # rest) tok no_line
      (\<lambda>used rest t. pop_background (pos + used) rest t line) =
    Inr (PARSER_ERR_NONE, Some (line\<lparr>is_background := bg\<rparr>),
      Some (pos + length ((if bg then [ch_space, ch_amp] else []) @ [ch_nl])))"
  using assms
  by (cases bg; cases line) (auto simp: with_token_def parse_token_operator pop_background_def
      pop_finish_def line_tail_def)

lemma pop_tokens_close:
  assumes "parse_token rest token = Inr (u, t)" "u \<noteq> 0" "rest \<noteq> []"
    and "t_type t \<in> {TOKEN_TYPE_NEW_LINE, TOKEN_TYPE_OUT_NEW, TOKEN_TYPE_OUT_APPEND, TOKEN_TYPE_BACKGROUND}"
    and "line_tail line \<noteq> None"
  shows "rbind (pop_tokens pos rest token line) pop_flow_outcome = pop_close (pos + u) (drop u rest) t line"
  using assms by (auto simp: pop_tokens.simps [of pos rest] with_token_def pop_dispatch_def pop_flow_outcome_def)

lemma pop_close_stdout:
  assumes "line_tail line = Some (EXPR_TYPE_COMMAND c)" "is_background line = False"
  shows "rbind (pop_tokens pos ((if bg then [ch_space, ch_amp] else []) @ ch_nl # rest) tok line) pop_flow_outcome =
    Inr (PARSER_ERR_NONE, Some (line\<lparr>is_background := bg\<rparr>),
      Some (pos + length ((if bg then [ch_space, ch_amp] else []) @ [ch_nl])))"
  using assms
  by (cases bg; cases line) (auto simp: pop_tokens_close parse_token_operator pop_close_def
      pop_background_def pop_finish_def line_tail_def with_token_def)

lemma pop_redirect_word:
  assumes "token_ok tok" "length f + 1 < 2 ^ 31" "f \<noteq> []"
    and "line_tail line = Some (EXPR_TYPE_COMMAND c)" "is_background line = False"
  shows "with_token (print_word f @ (if bg then [ch_space, ch_amp] else []) @ ch_nl # rest) tok
        (PARSER_ERR_NONE, None, None) (\<lambda>used rest token. pop_redirect (pos + used) rest token line) =
    Inr (PARSER_ERR_NONE, Some (line\<lparr>out_file := Some f, is_background := bg\<rparr>),
      Some (pos + length (print_word f @ (if bg then [ch_space, ch_amp] else []) @ [ch_nl])))"
proof -
  let ?fin = "(if bg then [ch_space, ch_amp] else []) @ ch_nl # rest"
  obtain t where t: "parse_token (print_word f @ ?fin) tok = Inr (length (print_word f), t)"
         "token_ok t" "token_str t = f" "t_type t = TOKEN_TYPE_STR"
    using parse_token_word [OF assms(1,2)] .
  have s: "token_strdup t = Inr f" using token_strdup_ok t assms(3) by simp
  have "with_token (print_word f @ ?fin) tok (PARSER_ERR_NONE, None, None)
      (\<lambda>used rest token. pop_redirect (pos + used) rest token line) =
    with_token ?fin t (PARSER_ERR_NONE, None, None)
      (\<lambda>used rest token. pop_background (pos + length (print_word f) + used) rest token (line\<lparr>out_file := Some f\<rparr>))"
    using t s by (subst with_token_def) (simp add: pop_redirect_def print_word_def)
  also have "\<dots> = Inr (PARSER_ERR_NONE, Some (line\<lparr>out_file := Some f, is_background := bg\<rparr>),
      Some (pos + length (print_word f @ (if bg then [ch_space, ch_amp] else []) @ [ch_nl])))"
    using assms(4,5) by (subst with_token_end) (auto simp: line_tail_def)
  finally show ?thesis .
qed

lemma pop_close_file:
  assumes "token_ok tok" "length f + 1 < 2 ^ 31" "f \<noteq> []"
    and "line_tail line = Some (EXPR_TYPE_COMMAND c)" "is_background line = False"
    and "(ty, op) \<in> {(OUTPUT_TYPE_FILE_NEW, [ch_space, ch_gt]), (OUTPUT_TYPE_FILE_APPEND, [ch_space, ch_gt, ch_gt])}"
  shows "rbind (pop_tokens pos (op @ print_word f @ (if bg then [ch_space, ch_amp] else []) @ ch_nl # rest) tok line)
        pop_flow_outcome =
    Inr (PARSER_ERR_NONE, Some (line\<lparr>out_type := ty, out_file := Some f, is_background := bg\<rparr>),
      Some (pos + length (op @ print_word f @ (if bg then [ch_space, ch_amp] else []) @ [ch_nl])))"
proof -
  let ?fin = "print_word f @ (if bg then [ch_space, ch_amp] else []) @ ch_nl # rest"
  obtain d s where "?fin = d # s" "d \<noteq> ch_gt" by (auto simp: print_word_def)
  then obtain t where pt: "parse_token (op @ ?fin) tok = Inr (length op, t)" and "token_ok t"
    and ty: "t_type t \<in> {TOKEN_TYPE_OUT_NEW, TOKEN_TYPE_OUT_APPEND}"
      "(t_type t = TOKEN_TYPE_OUT_NEW) = (ty = OUTPUT_TYPE_FILE_NEW)"
      "t_type t \<noteq> TOKEN_TYPE_OUT_NEW \<Longrightarrow> ty = OUTPUT_TYPE_FILE_APPEND"
    using assms(1,6) by (auto simp: parse_token_operator)
  have "rbind (pop_tokens pos (op @ ?fin) tok line) pop_flow_outcome = pop_close (pos + length op) ?fin t line"
    using pop_tokens_close [OF pt, of line pos] ty(1) assms(4,6) by auto
  also have "\<dots> = with_token ?fin t (PARSER_ERR_NONE, None, None)
      (\<lambda>used rest token. pop_redirect (pos + length op + used) rest token (line\<lparr>out_type := ty\<rparr>))"
    using ty by (auto simp: pop_close_def)
  also have "\<dots> = Inr (PARSER_ERR_NONE, Some (line\<lparr>out_type := ty, out_file := Some f, is_background := bg\<rparr>),
      Some (pos + length (op @ print_word f @ (if bg then [ch_space, ch_amp] else []) @ [ch_nl])))"
    using assms(4,5) by (subst pop_redirect_word [OF \<open>token_ok t\<close> assms(2,3)]) (auto simp: line_tail_def add.assoc)
  finally show ?thesis .
qed

lemma shell_exprs_ok_last: "shell_exprs_ok b es \<Longrightarrow> es \<noteq> [] \<Longrightarrow> \<exists>ws. last es = Words ws"
  by (induction b es rule: shell_exprs_ok.induct) (auto split: if_splits)

lemma pop_line_print:
  assumes "shell_exprs_ok True es" and "length (print_line es ty file bg) + 1 < 2 ^ 31"
    and "file = [] \<longleftrightarrow> ty = OUTPUT_TYPE_STDOUT"
  shows "\<exists>line. pop_line (print_line es ty file bg @ rest) =
           Inr (PARSER_ERR_NONE, Some line, Some (length (print_line es ty file bg))) \<and>
         map expr_abs (exprs line) = es \<and> out_type line = ty \<and>
         out_file line = (if ty = OUTPUT_TYPE_STDOUT then None else Some file) \<and> is_background line = bg"
proof -
  let ?es = "concat (map print_expr es)"
  let ?bg = "(if bg then [ch_space, ch_amp] else []) @ ch_nl # rest"
  have len: "0 + length ?es + 1 < 2 ^ 31" using assms(2) by (simp add: print_line_def)
  have zero: "line_means command_line_zero [] 0" by (simp add: line_means_def command_line_zero_def line_tail_def)
  obtain out where out: "print_line es ty file bg @ rest = ?es @ out @ ?bg"
    "length (print_line es ty file bg) = length ?es + length (out @ (if bg then [ch_space, ch_amp] else []) @ [ch_nl])"
    "out = (case ty of OUTPUT_TYPE_STDOUT \<Rightarrow> [] | OUTPUT_TYPE_FILE_NEW \<Rightarrow> [ch_space, ch_gt] @ print_word file
      | OUTPUT_TYPE_FILE_APPEND \<Rightarrow> [ch_space, ch_gt, ch_gt] @ print_word file)"
    by (auto simp: print_line_def)
  obtain tok line where line: "token_ok tok" "line_means line es (length ?es)"
    "pop_tokens 0 (?es @ out @ ?bg) token_zero command_line_zero = pop_tokens (length ?es) (out @ ?bg) tok line"
    using pop_tokens_exprs [OF assms(1) zero token_ok_zero _ _ len, of "out @ ?bg"] by auto
  have "es \<noteq> []" using assms(1) by auto
  then obtain c where tl: "line_tail line = Some (EXPR_TYPE_COMMAND c)"
    using shell_exprs_ok_last [OF assms(1)] line(2)
    by (cases "exprs line" rule: rev_cases; cases "last (exprs line)")
      (auto simp: line_means_def line_tail_def)
  have nbg: "is_background line = False" using line(2) by (simp add: line_means_def)
  have flen: "length file + 1 < 2 ^ 31" if "ty \<noteq> OUTPUT_TYPE_STDOUT"
    using assms(2) length_escape [of "file"] that
    by (cases ty) (auto simp: print_line_def print_word_def)
  have "pop_line (print_line es ty file bg @ rest) =
    rbind (pop_tokens (length ?es) (out @ ?bg) tok line) pop_flow_outcome"
    using line(3) out(1) by (simp add: pop_line_def)
  also have "\<dots> = Inr (PARSER_ERR_NONE, Some (line\<lparr>out_type := ty,
      out_file := (if ty = OUTPUT_TYPE_STDOUT then None else Some file), is_background := bg\<rparr>),
      Some (length (print_line es ty file bg)))"
  proof (cases "ty = OUTPUT_TYPE_STDOUT")
    case True
    have "line\<lparr>is_background := bg\<rparr> = line\<lparr>out_type := ty, out_file := None, is_background := bg\<rparr>"
      using line(2) True by (cases line) (simp add: line_means_def)
    with True pop_close_stdout [OF tl nbg] out(2,3) show ?thesis by simp
  next
    case False
    then obtain op where op: "(ty, op) \<in> {(OUTPUT_TYPE_FILE_NEW, [ch_space, ch_gt]),
        (OUTPUT_TYPE_FILE_APPEND, [ch_space, ch_gt, ch_gt])}" "out = op @ print_word file"
      using out(3) by (cases ty) auto
    from pop_close_file [OF line(1) flen [OF False] _ tl nbg op(1)] False assms(3) out(2) op(2)
    show ?thesis by (simp add: add.assoc)
  qed
  finally show ?thesis using line(2) by (simp add: line_means_def)
qed

lemma step_in_squote:
  assumes "c \<notin> {ch_squote, ch_amp, ch_pipe, ch_gt}"
  shows "parse_token_step ch_squote t c cs = append_and_next ch_squote t c 0"
  using assms by (auto simp: parse_token_step_def token_char_def)

lemma loop_in_squote:
  assumes "token_ok t" "unat (t_size t) + length w + 1 < 2 ^ 31" "t_size t > 0 \<or> w \<noteq> []"
    and "\<forall>c \<in> set w. c \<notin> {ch_squote, ch_amp, ch_pipe, ch_gt}" "c \<in> {ch_amp, ch_pipe, ch_gt}"
  shows "\<exists>t'. parse_token_loop ch_squote t n (w @ c # rest) = Inr (n + length w, t') \<and>
         t_type t' = TOKEN_TYPE_STR \<and> token_str t' = token_str t @ w"
  using assms(1-4)
proof (induction w arbitrary: t n)
  case Nil
  then show ?case using assms(5) by (auto simp: parse_token_step_def token_char_def)
next
  case (Cons d w)
  from Cons.prems obtain t1 where t1: "token_append t d = Inr t1"
    using token_append_ok [of t d] by auto
  note f = token_append_Inr [OF t1 Cons.prems(1)]
  have "unat (t_size t1) = unat (t_size t) + 1"
    using f Cons.prems by (simp add: unat_word_ariths)
  with Cons.IH [of t1 "n + 1"] f Cons.prems
  obtain t' where "parse_token_loop ch_squote t1 (n + 1) (w @ c # rest) = Inr (n + 1 + length w, t')"
      "t_type t' = TOKEN_TYPE_STR" "token_str t' = token_str t1 @ w"
    by auto
  with Cons.prems(4) t1 f(2) show ?case by (simp add: step_in_squote append_and_next_def)
qed

lemma pop_skip_words:
  assumes "token_ok tok" "length (concat (map print_word ws)) + 1 < 2 ^ 31"
  shows "pop_skip_line res pos (concat (map print_word ws) @ ch_nl # rest) tok =
    Inr (res, None, Some (pos + length (concat (map print_word ws)) + 1))"
  using assms
proof (induction ws arbitrary: pos tok)
  case Nil
  then show ?case by (simp add: pop_skip_line.simps with_token_def parse_token_operator)
next
  case (Cons w ws)
  let ?rest = "concat (map print_word ws) @ ch_nl # rest"
  have "length w + 1 < 2 ^ 31" using Cons.prems(2) length_escape [of w] by (simp add: print_word_def)
  from parse_token_word [OF Cons.prems(1) this, of ?rest] obtain t where
    t: "parse_token (print_word w @ ?rest) tok = Inr (length (print_word w), t)" "token_ok t"
       "t_type t = TOKEN_TYPE_STR"
    by blast
  have "pop_skip_line res pos (print_word w @ ?rest) tok =
      pop_skip_line res (pos + length (print_word w)) ?rest t"
    using t(1,3) by (simp add: pop_skip_line.simps [of res pos] with_token_def print_word_def)
  with Cons.IH [OF t(2), of "pos + length (print_word w)"] Cons.prems(2) show ?case
    by (simp add: add.assoc)
qed

section \<open>Properties\<close>

text \<open>
  (C1) Print and parse round trip: for every well-formed line below 2 GB, when the buffer starts
  with its printed text, \<open>parser_pop_next\<close> returns exactly this line (the words, the operators,
  the redirection and the background flag) and consumes exactly its text.
\<close>

theorem parser_roundtrip:
  assumes "shell_exprs_ok True es" and "length (print_line es ty fname bg) + 1 < 2 ^ 31"
    and "fname = [] \<longleftrightarrow> ty = OUTPUT_TYPE_STDOUT"
    and "parser_ok p" and "parser_text p = print_line es ty fname bg @ rest"
  shows "\<exists>line p'. parser_pop_next p = Inr (PARSER_ERR_NONE, Some line, p') \<and>
    map expr_abs (exprs line) = es \<and> out_type line = ty \<and>
    out_file line = (if ty = OUTPUT_TYPE_STDOUT then None else Some fname) \<and>
    is_background line = bg \<and> parser_ok p' \<and> parser_text p' = rest"
proof -
  obtain line where line: "pop_line (parser_text p) =
      Inr (PARSER_ERR_NONE, Some line, Some (length (print_line es ty fname bg)))"
    "map expr_abs (exprs line) = es" "out_type line = ty"
    "out_file line = (if ty = OUTPUT_TYPE_STDOUT then None else Some fname)" "is_background line = bg"
    using pop_line_print [OF assms(1-3), of rest] assms(5) by auto
  obtain p' where "parser_pop_next p = Inr (PARSER_ERR_NONE, Some line, p')" "parser_ok p'"
    "parser_text p' = rest"
    using parser_pop_next_consume [OF assms(4) line(1)] assms(5) by auto
  with line(2-5) show ?thesis by blast
qed

theorem parser_roundtrip_witness:
  "\<exists>p line p'. parser_feed parser_new
       (print_line [Words [''a'', ''b c''], And, Words [''d'']] OUTPUT_TYPE_FILE_NEW ''f'' True) 26 = Inr p \<and>
     parser_pop_next p = Inr (PARSER_ERR_NONE, Some line, p') \<and>
     map expr_abs (exprs line) = [Words [''a'', ''b c''], And, Words [''d'']] \<and> parser_text p' = []"
proof -
  let ?es = "[Words [''a'', ''b c''], And, Words [''d'']]"
  let ?s = "print_line ?es OUTPUT_TYPE_FILE_NEW ''f'' True"
  have len: "length ?s = 26" by (simp add: print_line_def print_word_def escape_def)
  obtain p where p: "parser_feed parser_new ?s 26 = Inr p" "parser_ok p" "parser_text p = ?s"
    using parser_feed_ok [of parser_new ?s 26] parser_new_ok len
    by (auto simp: parser_new_def parser_text_def)
  from parser_roundtrip [of ?es OUTPUT_TYPE_FILE_NEW "''f''" True p "[]"] p len show ?thesis by auto
qed

text \<open>
  An empty quoted word aborts the shell: after any well-formed prefix of a line, a word
  \<open>""\<close> fails the assertion \<open>t->size > 0\<close> of \<open>token_strdup\<close>.
\<close>

theorem parser_empty_word_aborts:
  assumes "es = [] \<or> shell_exprs_ok True es" and "length (concat (map print_expr es)) + 1 < 2 ^ 31"
    and "parser_text p = concat (map print_expr es) @ print_word [] @ rest"
  shows "parser_pop_next p = Inl AssertFail"
proof -
  let ?es = "concat (map print_expr es)"
  have zero: "line_means command_line_zero [] 0"
    by (simp add: line_means_def command_line_zero_def line_tail_def)
  have "\<exists>tok line. token_ok tok \<and>
    pop_tokens 0 (?es @ print_word [] @ rest) token_zero command_line_zero =
       pop_tokens (length ?es) (print_word [] @ rest) tok line"
  proof (cases "es = []")
    case False
    with assms(1,2) pop_tokens_exprs [OF _ zero token_ok_zero, of True es "print_word [] @ rest"]
    show ?thesis by auto
  qed (auto intro: exI [of _ token_zero])
  then obtain tok line where line: "token_ok tok"
    "pop_tokens 0 (?es @ print_word [] @ rest) token_zero command_line_zero =
       pop_tokens (length ?es) (print_word [] @ rest) tok line"
    by blast
  obtain t where t: "parse_token (print_word [] @ rest) tok = Inr (length (print_word []), t)"
    "token_ok t" "token_str t = []" "t_type t = TOKEN_TYPE_STR"
    using parse_token_word [OF line(1), of "[]" rest] by auto
  then have "token_strdup t = Inl AssertFail" by (auto simp: token_strdup_def token_str_empty)
  then have "pop_dispatch line t = Inl AssertFail"
    using t(4) by (auto simp: pop_dispatch_def append_word_def split: option.splits expr.splits)
  with t(1) have "pop_tokens (length ?es) (print_word [] @ rest) tok line = Inl AssertFail"
    by (simp add: pop_tokens.simps with_token_def print_word_def)
  with line(2) assms(3) show ?thesis by (simp add: parser_pop_next_def pop_line_def)
qed

theorem parser_empty_word_aborts_witness:
  "\<exists>p. parser_feed parser_new (print_word ''echo'' @ print_word [] @ [ch_nl]) 11 = Inr p \<and>
     parser_pop_next p = Inl AssertFail"
proof -
  let ?s = "print_word ''echo'' @ print_word [] @ [ch_nl]"
  obtain p where p: "parser_feed parser_new ?s 11 = Inr p" "parser_text p = ?s"
    using parser_feed_ok [of parser_new ?s 11] parser_new_ok
    by (auto simp: parser_new_def parser_text_def print_word_def escape_def)
  from parser_empty_word_aborts [of "[Words [''echo'']]" p "[ch_nl]"] p show ?thesis
    by (auto simp: print_word_def escape_def)
qed

text \<open>
  Single quotes do not protect the operators: a word that opens with a single quote ends at
  the first \<open>&\<close>, \<open>|\<close> or \<open>>\<close>, and the operator is left to be read as one.
\<close>

theorem single_quotes_keep_operators:
  assumes "w \<noteq> []" and "\<forall>c \<in> set w. c \<notin> {ch_squote, ch_amp, ch_pipe, ch_gt}"
    and "c \<in> {ch_amp, ch_pipe, ch_gt}" and "token_ok tok" and "length w + 1 < 2 ^ 31"
  shows "\<exists>t. parse_token (ch_squote # w @ c # rest) tok = Inr (Suc (length w), t) \<and>
    t_type t = TOKEN_TYPE_STR \<and> token_str t = w"
proof -
  have "parse_token_step ch_nul (token_reset tok) ch_squote (w @ c # rest) =
      Inr (Tok_next 0 ch_squote (token_reset tok))"
    by (simp add: parse_token_step_def token_char_def)
  then have "parse_token (ch_squote # w @ c # rest) tok =
      parse_token_loop ch_squote (token_reset tok) 1 (w @ c # rest)"
    by (simp add: parse_token_def isspace_def)
  also have "\<exists>t. \<dots> = Inr (1 + length w, t) \<and> t_type t = TOKEN_TYPE_STR \<and>
      token_str t = token_str (token_reset tok) @ w"
    by (rule loop_in_squote) (use assms in \<open>auto simp: token_reset_def token_ok_def\<close>)
  finally show ?thesis by simp
qed

theorem single_quotes_keep_operators_witness:
  "\<exists>t. parse_token (ch_squote # ''a'' @ ch_pipe # ''b'' @ [ch_squote]) token_zero = Inr (Suc (Suc 0), t) \<and>
    t_type t = TOKEN_TYPE_STR \<and> token_str t = ''a''"
  using single_quotes_keep_operators [of "''a''" ch_pipe token_zero "''b'' @ [ch_squote]"]
  by simp

text \<open>
  A redirection without a file name loses the next line: the error is raised at the new line
  itself, so the recovery skips to the end of the following line and drops both.
\<close>

theorem redirect_without_file_drops_next_line:
  assumes "shell_exprs_ok True es"
    and "length (concat (map print_expr es) @ concat (map print_word ws)) + 4 < 2 ^ 31"
    and "parser_ok p"
    and "parser_text p = concat (map print_expr es) @ [ch_space, ch_gt, ch_nl] @
      concat (map print_word ws) @ [ch_nl] @ rest"
  shows "\<exists>p'. parser_pop_next p = Inr (PARSER_ERR_OUTOUT_REDIRECT_BAD_ARG, None, p') \<and>
    parser_text p' = rest"
proof -
  let ?es = "concat (map print_expr es)" and ?ws = "concat (map print_word ws)"
  let ?rest = "[ch_space, ch_gt, ch_nl] @ ?ws @ [ch_nl] @ rest"
  have zero: "line_means command_line_zero [] 0"
    by (simp add: line_means_def command_line_zero_def line_tail_def)
  obtain tok line where line: "token_ok tok"
    "pop_tokens 0 (?es @ ?rest) token_zero command_line_zero = pop_tokens (length ?es) ?rest tok line"
    using pop_tokens_exprs [OF assms(1) zero token_ok_zero, of ?rest] assms(2) by auto
  define t where "t = (token_reset tok)\<lparr>t_type := TOKEN_TYPE_OUT_NEW\<rparr>"
  define t' where "t' = (token_reset t)\<lparr>t_type := TOKEN_TYPE_NEW_LINE\<rparr>"
  have ok: "token_ok t'" using line(1) by (simp add: t_def t'_def)
  have "parse_token ?rest tok = Inr (2, t)"
    by (simp add: parse_token_operator t_def)
  then have "pop_tokens (length ?es) ?rest tok line =
      Inr (Close_and_return (length ?es + 2) (ch_nl # ?ws @ [ch_nl] @ rest) t line)"
    by (simp add: pop_tokens.simps with_token_def pop_dispatch_def t_def)
  moreover have "pop_close (length ?es + 2) (ch_nl # ?ws @ [ch_nl] @ rest) t line =
      pop_skip_line PARSER_ERR_OUTOUT_REDIRECT_BAD_ARG (length ?es + 2 + 1) (?ws @ ch_nl # rest) t'"
    by (simp add: pop_close_def with_token_def parse_token_operator pop_redirect_def t_def t'_def)
  moreover have "\<dots> = Inr (PARSER_ERR_OUTOUT_REDIRECT_BAD_ARG, None, Some (length (?es @ [ch_space, ch_gt, ch_nl] @ ?ws @ [ch_nl])))"
    using pop_skip_words [OF ok] assms(2) by simp
  ultimately have "pop_line (parser_text p) =
      Inr (PARSER_ERR_OUTOUT_REDIRECT_BAD_ARG, None, Some (length (?es @ [ch_space, ch_gt, ch_nl] @ ?ws @ [ch_nl])))"
    using line(2) assms(4) by (simp add: pop_line_def pop_flow_outcome_def)
  then obtain p' where "parser_pop_next p = Inr (PARSER_ERR_OUTOUT_REDIRECT_BAD_ARG, None, p')"
    "parser_text p' = drop (length (?es @ [ch_space, ch_gt, ch_nl] @ ?ws @ [ch_nl])) (parser_text p)"
    by (rule parser_pop_next_consume [OF assms(3)])
  moreover have "parser_text p = (?es @ [ch_space, ch_gt, ch_nl] @ ?ws @ [ch_nl]) @ rest"
    using assms(4) by simp
  ultimately show ?thesis by (metis append_eq_conv_conj)
qed

theorem redirect_without_file_drops_next_line_witness:
  "\<exists>p p'. parser_feed parser_new (print_word ''a'' @ [ch_space, ch_gt, ch_nl] @ print_word ''b'' @ [ch_nl]) 12 = Inr p \<and>
     parser_pop_next p = Inr (PARSER_ERR_OUTOUT_REDIRECT_BAD_ARG, None, p') \<and> parser_text p' = []"
proof -
  let ?s = "print_word ''a'' @ [ch_space, ch_gt, ch_nl] @ print_word ''b'' @ [ch_nl]"
  have len: "length ?s = 12" by (simp add: print_word_def escape_def)
  obtain p where p: "parser_feed parser_new ?s 12 = Inr p" "parser_ok p" "parser_text p = ?s"
    using parser_feed_ok [of parser_new ?s 12] parser_new_ok len
    by (auto simp: parser_new_def parser_text_def)
  from redirect_without_file_drops_next_line [of "[Words [''a'']]" "[''b'']" p "[]"] p len show ?thesis
    by auto
qed

end
