(* ===== verification/Shell.thy ===== *)
theory Shell
  imports Parser_Print
begin

text \<open>
  The shell of src/2/solution.c: the syntax tree of a line (\<open>construct_tree\<close>), its execution
  (\<open>command_exec\<close>, \<open>execute_node\<close>, \<open>execute_out_type\<close>) and the read loop of \<open>main\<close>. The
  operating system is a parameter, the record \<open>os\<close> of the effects the code asks for, over an
  arbitrary world \<open>'w\<close>. The fields \<open>result\<close> and \<open>exit\<close> of a node are written by one execution
  and read right after it, so they are results of the model's functions.
\<close>

unbundle bit_operations_syntax

section \<open>The operating system\<close>

text \<open>
  \<open>os_exec argv\<close> is a child that calls \<open>execvp\<close> and the parent's \<open>waitpid\<close>: the raw wait status,
  or \<open>None\<close> when \<open>execvp\<close> returns because it failed. \<open>os_pipeline\<close> runs the children of a
  pipeline, given as computations that end with an exit code, connected by pipes, and returns the
  raw wait status of the last. \<open>os_fork\<close> starts one child that nobody waits for. \<open>os_redirect\<close>
  and \<open>os_restore\<close> are the \<open>open\<close>/\<open>dup2\<close> sequences around a line, \<open>os_error\<close> prints an error.
\<close>

record 'w os =
  os_exec :: "string list \<Rightarrow> 'w \<Rightarrow> i32 option \<times> 'w"
  os_pipeline :: "('w \<Rightarrow> int \<times> 'w) list \<Rightarrow> 'w \<Rightarrow> i32 \<times> 'w"
  os_chdir :: "string \<Rightarrow> 'w \<Rightarrow> 'w"
  os_fork :: "('w \<Rightarrow> bool \<times> 'w) \<Rightarrow> 'w \<Rightarrow> 'w"
  os_redirect :: "output_type \<Rightarrow> string \<Rightarrow> 'w \<Rightarrow> 'w"
  os_restore :: "output_type \<Rightarrow> 'w \<Rightarrow> 'w"
  os_error :: "parser_error \<Rightarrow> 'w \<Rightarrow> 'w"

text \<open>The macros of \<open>sys/wait.h\<close> on a raw status, and the status of a child that exits.\<close>

definition WIFEXITED :: "i32 \<Rightarrow> bool" where
  "WIFEXITED status \<longleftrightarrow> status AND 0x7f = 0"

definition WEXITSTATUS :: "i32 \<Rightarrow> int" where
  "WEXITSTATUS status = uint ((drop_bit 8 status) AND 0xff)"

definition exit_status :: "int \<Rightarrow> i32" where
  "exit_status code = push_bit 8 (word_of_int code AND 0xff)"

section \<open>The syntax tree\<close>

text \<open>
  \<open>struct tree_node\<close>: the children and the expressions of the node; \<open>cnt\<close> is the length of the
  latter.
\<close>

datatype tree_node =
  Tree_node (n_left: "tree_node option") (n_right: "tree_node option") (n_expr: "expr list")

definition node_init :: "expr list \<Rightarrow> tree_node" where
  "node_init es = Tree_node None None es"

text \<open>
  The loop that follows \<open>next->next\<close> while a pipe comes next: the commands of a pipeline and the
  list after the last of them.
\<close>

fun collect_pipe :: "expr list \<Rightarrow> (expr list \<times> expr list) cres" where
  "collect_pipe [] = Inl NullDeref"
| "collect_pipe (e # EXPR_TYPE_PIPE # es) =
     rbind (collect_pipe es) (\<lambda>(cmds, rest). Inr (e # cmds, rest))"
| "collect_pipe (e # es) = Inr ([e], es)"

lemma collect_pipe_shorter: "collect_pipe es = Inr (cmds, rest) \<Longrightarrow> length rest < length es"
  by (induction es arbitrary: cmds rest rule: collect_pipe.induct) (fastforce simp: res_simps)+

function construct_loop :: "tree_node option \<Rightarrow> expr list \<Rightarrow> tree_node option cres" where
  "construct_loop root [] = Inr root"
| "construct_loop root (e # es) =
     (case e of
        EXPR_TYPE_COMMAND _ \<Rightarrow>
          (case collect_pipe (e # es) of
             Inl x \<Rightarrow> Inl x
           | Inr (cmds, rest) \<Rightarrow>
               construct_loop
                 (case root of
                    None \<Rightarrow> Some (node_init cmds)
                  | Some r \<Rightarrow> Some (Tree_node (n_left r) (Some (node_init cmds)) (n_expr r)))
                 rest)
      | _ \<Rightarrow> construct_loop (Some (Tree_node root None [e])) es)"
  by pat_completeness auto
termination
  by (relation "measure (\<lambda>(root, es). length es)") (auto dest: collect_pipe_shorter)

definition construct_tree :: "expr list \<Rightarrow> tree_node option cres" where
  "construct_tree es = construct_loop None es"

section \<open>Execution\<close>

text \<open>
  \<open>command_exec\<close>. The forked child exits with code 0 when \<open>execvp\<close> fails; a child that did not
  exit normally counts as code 0 too.
\<close>

definition command_exec :: "'w os \<Rightarrow> command \<Rightarrow> 'w \<Rightarrow> int \<times> 'w" where
  "command_exec os cmd w =
     (if exe cmd = ''exit''
      then (if arg_count cmd > 0 then atoi (args cmd ! 0) else 0, w)
      else let (st, w) = os_exec os (exe cmd # args cmd) w;
               status = (case st of None \<Rightarrow> exit_status 0 | Some s \<Rightarrow> s)
           in (if WIFEXITED status then WEXITSTATUS status else 0, w))"

text \<open>
  The children of a pipeline: all but the last run their command and exit with code 0, the last
  exits with the code of its command. Only commands may stand in a pipeline.
\<close>

fun pipe_children :: "'w os \<Rightarrow> expr list \<Rightarrow> ('w \<Rightarrow> int \<times> 'w) list cres" where
  "pipe_children os [] = Inr []"
| "pipe_children os [EXPR_TYPE_COMMAND cmd] = Inr [command_exec os cmd]"
| "pipe_children os (EXPR_TYPE_COMMAND cmd # es) =
     rbind (pipe_children os es) (\<lambda>cs. Inr ((\<lambda>w. (0, snd (command_exec os cmd w))) # cs))"
| "pipe_children os (_ # es) = Inl NullDeref"

text \<open>The result of a node: its \<open>result\<close>, its \<open>exit\<close> flag and the world.\<close>

type_synonym 'w run = "int \<times> bool \<times> 'w"

definition execute_command :: "'w os \<Rightarrow> command \<Rightarrow> 'w \<Rightarrow> 'w run" where
  "execute_command os cmd w =
     (if exe cmd = ''cd'' then
        (0, False, if arg_count cmd \<noteq> 0 then os_chdir os (args cmd ! 0) w else w)
      else if exe cmd = ''exit'' then
        (if arg_count cmd > 0 then atoi (args cmd ! 0) else 0, True, w)
      else let (code, w) = command_exec os cmd w in (code, False, w))"

fun execute_node :: "'w os \<Rightarrow> tree_node \<Rightarrow> 'w \<Rightarrow> 'w run cres" where
  "execute_node os (Tree_node l r es) w =
     (case es of
        [] \<Rightarrow> Inl OutOfBounds
      | e # es' \<Rightarrow>
          if es' \<noteq> [] then
            rbind (pipe_children os es) (\<lambda>children.
            let (status, w) = os_pipeline os children w in Inr (WEXITSTATUS status, False, w))
          else
            (case e of
               EXPR_TYPE_AND \<Rightarrow>
                 (case l of None \<Rightarrow> Inl NullDeref
                  | Some ln \<Rightarrow>
                      rbind (execute_node os ln w) (\<lambda>(res, ex, w).
                      if ex \<or> res \<noteq> 0 then Inr (res, ex, w)
                      else (case r of None \<Rightarrow> Inl NullDeref
                            | Some rn \<Rightarrow> execute_node os rn w)))
             | EXPR_TYPE_OR \<Rightarrow>
                 (case l of None \<Rightarrow> Inl NullDeref
                  | Some ln \<Rightarrow>
                      rbind (execute_node os ln w) (\<lambda>(res, ex, w).
                      if ex \<or> res = 0 then Inr (res, ex, w)
                      else (case r of None \<Rightarrow> Inl NullDeref
                            | Some rn \<Rightarrow> execute_node os rn w)))
             | EXPR_TYPE_COMMAND cmd \<Rightarrow> Inr (execute_command os cmd w)
             | EXPR_TYPE_PIPE \<Rightarrow> Inl AssertFail))"

definition execute_out_type :: "'w os \<Rightarrow> command_line \<Rightarrow> 'w \<Rightarrow> 'w run cres" where
  "execute_out_type os line w =
     rbind (case out_type line of
              OUTPUT_TYPE_STDOUT \<Rightarrow> Inr w
            | ty \<Rightarrow> (case out_file line of None \<Rightarrow> Inl NullDeref
                    | Some f \<Rightarrow> Inr (os_redirect os ty f w))) (\<lambda>w.
     rbind (construct_tree (exprs line)) (\<lambda>tree.
     case tree of
       None \<Rightarrow> Inl NullDeref
     | Some t \<Rightarrow>
         rbind (execute_node os t w) (\<lambda>(res, ex, w).
         Inr (res, ex, if out_type line = OUTPUT_TYPE_STDOUT then w
                       else os_restore os (out_type line) w))))"

section \<open>The main loop\<close>

text \<open>
  The state of \<open>main\<close>: the parser, the variables \<open>exit\<close> and \<open>program_result\<close>, and the world.
\<close>

record 'w shell =
  s_parser :: parser
  s_exit :: bool
  s_result :: int
  s_world :: 'w

text \<open>
  One line: a background line is executed in a forked child whose main returns the exit flag; a
  failure there ends the child only.
\<close>

definition run_line :: "'w os \<Rightarrow> command_line \<Rightarrow> 'w shell \<Rightarrow> 'w shell cres" where
  "run_line os line s =
     (if is_background line
      then Inr (s\<lparr>s_world := os_fork os (\<lambda>w.
             case execute_out_type os line w of Inl _ \<Rightarrow> (False, w) | Inr (res, ex, w) \<Rightarrow> (ex, w))
             (s_world s)\<rparr>)
      else rbind (execute_out_type os line (s_world s)) (\<lambda>(res, ex, w).
           Inr (s\<lparr>s_exit := ex, s_result := res, s_world := w\<rparr>)))"

lemma parser_pop_next_shrinks:
  assumes "parser_pop_next p = Inr (e, out, p')" and "\<not> (e = PARSER_ERR_NONE \<and> out = None)"
  shows "unat (p_size p') < unat (p_size p)"
proof -
  from assms obtain n where u: "pop_line (parser_text p) = Inr (e, out, Some n)"
    and c: "parser_consume p (of_nat n) = Inr p'"
    using pop_line_ok [of "parser_text p"]
    by (fastforce simp: parser_pop_next_def res_simps split: option.splits)
  have n: "0 < n" "n \<le> unat (p_size p)"
    using pop_line_ok [OF u] by (auto simp: parser_text_def)
  moreover have "unat (p_size p) < 2 ^ 32" using unsigned_less [of "p_size p"] by simp
  ultimately have w: "unat (of_nat n :: u32) = n" by (simp add: unat_of_nat)
  from c have le: "(of_nat n :: u32) \<le> p_size p" and "p_size p' \<in> {0, p_size p - of_nat n}"
    by (auto simp: parser_consume_def res_simps split: if_splits)
  then show ?thesis using n w by (auto simp: unat_sub_le)
qed

lemma run_line_parser: "run_line os line s = Inr s' \<Longrightarrow> s_parser s' = s_parser s"
  by (auto simp: run_line_def res_simps split: if_splits)

text \<open>The inner loop: pop and run lines until nothing is left to pop.\<close>

function run_lines :: "'w os \<Rightarrow> 'w shell \<Rightarrow> 'w shell cres" where
  "run_lines os s =
     (case parser_pop_next (s_parser s) of
        Inl x \<Rightarrow> Inl x
      | Inr (err, out, p) \<Rightarrow>
          if err = PARSER_ERR_NONE \<and> out = None then Inr (s\<lparr>s_parser := p\<rparr>)
          else if err \<noteq> PARSER_ERR_NONE
          then run_lines os (s\<lparr>s_parser := p, s_world := os_error os err (s_world s)\<rparr>)
          else (case run_line os (the out) (s\<lparr>s_parser := p\<rparr>) of
                  Inl x \<Rightarrow> Inl x
                | Inr s' \<Rightarrow> run_lines os s'))"
  by pat_completeness auto
termination
  by (relation "measure (\<lambda>(os, s). unat (p_size (s_parser s)))") 
    (auto dest!: parser_pop_next_shrinks run_line_parser)

declare run_lines.simps [simp del]

text \<open>The outer loop over the blocks that \<open>read\<close> returns, until \<open>exit\<close> is set or the input ends.\<close>

fun shell_main :: "'w os \<Rightarrow> 'w shell \<Rightarrow> string list \<Rightarrow> 'w shell cres" where
  "shell_main os s [] = Inr s"
| "shell_main os s (buf # bufs) =
     (if s_exit s \<or> buf = [] then Inr s
      else rbind (parser_feed (s_parser s) buf (of_nat (length buf))) (\<lambda>p.
           rbind (run_lines os (s\<lparr>s_parser := p\<rparr>)) (\<lambda>s. shell_main os s bufs)))"

definition shell_init :: "'w \<Rightarrow> 'w shell" where
  "shell_init w = \<lparr>s_parser = parser_new, s_exit = False, s_result = 0, s_world = w\<rparr>"

section \<open>The meaning of a line\<close>

text \<open>
  A line as a chain: its first pipeline and the list of operators with the pipeline after each.
\<close>

fun line_chain :: "expr list \<Rightarrow> expr list \<times> (expr \<times> expr list) list" where
  "line_chain [] = ([], [])"
| "line_chain [e] = ([e], [])"
| "line_chain (e # EXPR_TYPE_PIPE # es) =
     (let (p, xs) = line_chain es in (e # p, xs))"
| "line_chain (e # op # es) =
     (let (p, xs) = line_chain es in ([e], (op, p) # xs))"

definition run_pipe :: "'w os \<Rightarrow> expr list \<Rightarrow> 'w \<Rightarrow> 'w run cres" where
  "run_pipe os p w = execute_node os (node_init p) w"

text \<open>
  What a shell does with such a chain, from left to right: a pipeline after \<open>&&\<close> runs iff the
  last result is 0, one after \<open>||\<close> iff it is not, and nothing runs after an \<open>exit\<close>.
\<close>

fun run_chain :: "'w os \<Rightarrow> 'w run \<Rightarrow> (expr \<times> expr list) list \<Rightarrow> 'w run cres" where
  "run_chain os (res, ex, w) [] = Inr (res, ex, w)"
| "run_chain os (res, ex, w) ((op, p) # xs) =
     (if ex then Inr (res, ex, w)
      else if (op = EXPR_TYPE_AND) = (res = 0)
      then rbind (run_pipe os p w) (\<lambda>r. run_chain os r xs)
      else run_chain os (res, ex, w) xs)"

definition chain_tree :: "tree_node \<Rightarrow> (expr \<times> expr list) list \<Rightarrow> tree_node" where
  "chain_tree = foldl (\<lambda>t (op, p). Tree_node (Some t) (Some (node_init p)) [op])"

definition and_or_chain :: "(expr \<times> expr list) list \<Rightarrow> bool" where
  "and_or_chain xs \<longleftrightarrow> (\<forall>(op, p) \<in> set xs. op = EXPR_TYPE_AND \<or> op = EXPR_TYPE_OR)"

lemma run_chain_exit: "run_chain os (res, True, w) xs = Inr (res, True, w)"
  by (cases xs) auto

lemma execute_chain_tree:
  "and_or_chain xs \<Longrightarrow> execute_node os (chain_tree t xs) w =
     rbind (execute_node os t w) (\<lambda>r. run_chain os r xs)"
proof (induction xs arbitrary: t)
  case Nil
  show ?case by (cases "execute_node os t w") (auto simp: chain_tree_def)
next
  case (Cons x xs)
  obtain op p where x: "x = (op, p)" by (cases x)
  let ?t = "Tree_node (Some t) (Some (node_init p)) [op]"
  have op: "op = EXPR_TYPE_AND \<or> op = EXPR_TYPE_OR" and xs: "and_or_chain xs"
    using Cons.prems x by (auto simp: and_or_chain_def)
  have "execute_node os (chain_tree t (x # xs)) w =
      rbind (execute_node os ?t w) (\<lambda>r. run_chain os r xs)"
    using Cons.IH [OF xs, of ?t] x by (simp add: chain_tree_def)
  also have "\<dots> = rbind (execute_node os t w) (\<lambda>r. run_chain os r (x # xs))"
    using op x run_chain_exit
    by (cases "execute_node os t w") (auto simp: run_pipe_def)
  finally show ?case .
qed

lemma exprs_ok_True_Cons [simp]:
  "exprs_ok True (e # es) \<longleftrightarrow> (\<exists>c. e = EXPR_TYPE_COMMAND c \<and> command_ok c \<and> exprs_ok False es)"
  by (cases e) auto

lemma exprs_ok_False_Cons [simp]:
  "exprs_ok False (e # es) \<longleftrightarrow>
     (e = EXPR_TYPE_PIPE \<or> e = EXPR_TYPE_AND \<or> e = EXPR_TYPE_OR) \<and> exprs_ok True es"
  by (cases e) auto

lemma line_chain_split:
  assumes "exprs_ok True es" "odd (length es)"
  shows "(collect_pipe es = Inr (fst (line_chain es), []) \<and> snd (line_chain es) = []) \<or>
    (\<exists>op fs. collect_pipe es = Inr (fst (line_chain es), op # fs) \<and>
       (op = EXPR_TYPE_AND \<or> op = EXPR_TYPE_OR) \<and> exprs_ok True fs \<and> odd (length fs) \<and>
       snd (line_chain es) = (op, fst (line_chain fs)) # snd (line_chain fs))"
  using assms
  by (induction es rule: line_chain.induct) (auto simp: split_beta)

definition attach :: "tree_node option \<Rightarrow> expr list \<Rightarrow> tree_node" where
  "attach root p = (case root of None \<Rightarrow> node_init p
     | Some r \<Rightarrow> Tree_node (n_left r) (Some (node_init p)) (n_expr r))"

lemma construct_loop_chain:
  assumes "exprs_ok True es" "odd (length es)"
  shows "construct_loop root es = Inr (Some (chain_tree (attach root (fst (line_chain es))) (snd (line_chain es)))) \<and>
    and_or_chain (snd (line_chain es))"
  using assms
proof (induction "length es" arbitrary: es root rule: less_induct)
  case less
  obtain c es' where es: "es = EXPR_TYPE_COMMAND c # es'"
    using less.prems by (cases "(True, es)" rule: exprs_ok.cases) auto
  note step = construct_loop.simps(2) [of root "EXPR_TYPE_COMMAND c" es', folded es]
  from line_chain_split [OF less.prems]
  consider (last) "collect_pipe es = Inr (fst (line_chain es), [])" "snd (line_chain es) = []"
    | (more) op fs where "collect_pipe es = Inr (fst (line_chain es), op # fs)"
        "op = EXPR_TYPE_AND \<or> op = EXPR_TYPE_OR" "exprs_ok True fs" "odd (length fs)"
        "snd (line_chain es) = (op, fst (line_chain fs)) # snd (line_chain fs)"
    by blast
  then show ?case
  proof cases
    case last
    then show ?thesis
      by (simp add: step attach_def chain_tree_def and_or_chain_def split: option.splits)
  next
    case (more op fs)
    let ?root = "Some (Tree_node (Some (attach root (fst (line_chain es)))) None [op])"
    have "length fs < length es" using collect_pipe_shorter [OF more(1)] by simp
    note IH = less.hyps [OF this more(3,4), of ?root]
    have "construct_loop root es = construct_loop ?root fs"
      using more(1,2) by (auto simp: step attach_def split: option.splits)
    with IH more(2,5) show ?thesis by (auto simp: attach_def chain_tree_def and_or_chain_def)
  qed
qed

lemma line_chain_commands:
  "exprs_ok True es \<Longrightarrow> odd (length es) \<Longrightarrow>
     \<forall>p \<in> insert (fst (line_chain es)) (snd ` set (snd (line_chain es))).
       p \<noteq> [] \<and> (\<forall>e \<in> set p. \<exists>c. e = EXPR_TYPE_COMMAND c)"
  by (induction es rule: line_chain.induct) (auto simp: split_beta)

lemma pipe_children_ok:
  "\<forall>e \<in> set p. \<exists>c. e = EXPR_TYPE_COMMAND c \<Longrightarrow>
     \<exists>cs. pipe_children os p = Inr cs \<and> length cs = length p"
  by (induction os p rule: pipe_children.induct) auto

lemma run_pipe_ok:
  assumes "p \<noteq> []" "\<forall>e \<in> set p. \<exists>c. e = EXPR_TYPE_COMMAND c"
  shows "\<exists>r. run_pipe os p w = Inr r"
proof -
  obtain c es where p: "p = EXPR_TYPE_COMMAND c # es" using assms by (cases p) auto
  show ?thesis
  proof (cases "es = []")
    case False
    from pipe_children_ok [OF assms(2), of os] obtain cs where "pipe_children os p = Inr cs" by blast
    moreover obtain st w' where "os_pipeline os cs w = (st, w')" by (cases "os_pipeline os cs w")
    ultimately have "run_pipe os p w = Inr (WEXITSTATUS st, False, w')"
      using False by (simp add: run_pipe_def node_init_def p)
    then show ?thesis by blast
  next
    case True
    then have "run_pipe os p w = Inr (execute_command os c w)"
      by (simp add: run_pipe_def node_init_def p)
    then show ?thesis by blast
  qed
qed

lemma run_chain_ok:
  "\<forall>p \<in> snd ` set xs. p \<noteq> [] \<and> (\<forall>e \<in> set p. \<exists>c. e = EXPR_TYPE_COMMAND c) \<Longrightarrow>
     \<exists>r'. run_chain os r xs = Inr r'"
proof (induction xs arbitrary: r)
  case Nil
  show ?case by (cases r) simp
next
  case (Cons x xs)
  obtain op p res ex w where x: "x = (op, p)" and r: "r = (res, ex, w)" by (cases x; cases r)
  have p: "p \<noteq> []" "\<forall>e \<in> set p. \<exists>c. e = EXPR_TYPE_COMMAND c"
    and xs: "\<forall>p \<in> snd ` set xs. p \<noteq> [] \<and> (\<forall>e \<in> set p. \<exists>c. e = EXPR_TYPE_COMMAND c)"
    using Cons.prems by (auto simp: x)
  obtain r' where "run_pipe os p w = Inr r'" using run_pipe_ok [OF p, of os w] by blast
  then have "run_chain os r (x # xs) \<in> {Inr r, run_chain os r' xs, run_chain os r xs}"
    by (simp add: x r)
  moreover obtain a b where "run_chain os r' xs = Inr a" "run_chain os r xs = Inr b"
    using Cons.IH [OF xs] by blast
  ultimately show ?case by (metis insert_iff empty_iff)
qed

section \<open>Blocks of input\<close>

text \<open>Two states of \<open>main\<close> that differ in spare buffer space only.\<close>

definition shell_sim :: "'w shell \<Rightarrow> 'w shell \<Rightarrow> bool" where
  "shell_sim s t \<longleftrightarrow> parser_ok (s_parser s) \<and> parser_ok (s_parser t) \<and>
     parser_text (s_parser s) = parser_text (s_parser t) \<and>
     s_exit s = s_exit t \<and> s_result s = s_result t \<and> s_world s = s_world t"

lemma run_line_frame:
  assumes "run_line os line s = Inr s'" "s_exit t = s_exit s" "s_result t = s_result s" "s_world t = s_world s"
  shows "\<exists>t'. run_line os line t = Inr t' \<and> s_exit t' = s_exit s' \<and> s_result t' = s_result s' \<and>
    s_world t' = s_world s' \<and> s_parser t' = s_parser t"
  using assms by (auto simp: run_line_def res_simps split: if_splits)

lemma run_lines_unfold:
  "run_lines os s = Inr s' \<Longrightarrow>
     (\<exists>p. parser_pop_next (s_parser s) = Inr (PARSER_ERR_NONE, None, p) \<and> s' = s\<lparr>s_parser := p\<rparr>) \<or>
     (\<exists>e out p. parser_pop_next (s_parser s) = Inr (e, out, p) \<and> e \<noteq> PARSER_ERR_NONE \<and>
        run_lines os (s\<lparr>s_parser := p, s_world := os_error os e (s_world s)\<rparr>) = Inr s') \<or>
     (\<exists>line p s1. parser_pop_next (s_parser s) = Inr (PARSER_ERR_NONE, Some line, p) \<and>
        run_line os line (s\<lparr>s_parser := p\<rparr>) = Inr s1 \<and> run_lines os s1 = Inr s')"
  by (subst (asm) run_lines.simps) (auto split: sum.splits if_splits option.splits)

lemma run_lines_none:
  "parser_pop_next (s_parser s) = Inr (PARSER_ERR_NONE, None, p) \<Longrightarrow>
     run_lines os s = Inr (s\<lparr>s_parser := p\<rparr>)"
  by (subst run_lines.simps) simp

lemma run_lines_line:
  "parser_pop_next (s_parser s) = Inr (PARSER_ERR_NONE, Some line, p) \<Longrightarrow>
     run_lines os s = rbind (run_line os line (s\<lparr>s_parser := p\<rparr>)) (run_lines os)"
  by (subst run_lines.simps) (simp add: rbind_def)

lemma pop_next_extend:
  assumes "parser_ok p" "parser_ok q" "parser_text q = parser_text p @ ys"
    and "parser_pop_next p = Inr (e, out, p')" "\<not> (e = PARSER_ERR_NONE \<and> out = None)"
  shows "\<exists>q'. parser_pop_next q = Inr (e, out, q') \<and> parser_ok p' \<and> parser_ok q' \<and>
    parser_text q' = parser_text p' @ ys"
  using assms(1,4)
proof (cases rule: parser_pop_next_cases)
  case (consumed n)
  then have "pop_line (parser_text q) = Inr (e, out, Some n)"
    using pop_line_append [of "parser_text p" ys] assms(3) by simp
  from parser_pop_next_consume [OF assms(2) this] consumed assms(3) show ?thesis by auto
qed (use assms(5) in simp)

lemma pop_next_nothing:
  assumes "parser_ok p" "parser_ok q" "parser_text q = parser_text p"
    and "parser_pop_next p = Inr (PARSER_ERR_NONE, None, p')"
  shows "p' = p" "parser_pop_next q = Inr (PARSER_ERR_NONE, None, q)"
  using assms(1,4)
  by (cases rule: parser_pop_next_cases; use assms(3) in \<open>simp add: parser_pop_next_def\<close>)+

text \<open>
  Running the lines of a buffer, then those that more input completes, is running the lines of
  both blocks at once.
\<close>

lemma run_lines_extend:
  "run_lines os s = Inr s' \<Longrightarrow> parser_ok (s_parser s) \<Longrightarrow> parser_ok (s_parser t) \<Longrightarrow>
   parser_text (s_parser t) = parser_text (s_parser s) @ ys \<Longrightarrow>
   s_exit t = s_exit s \<Longrightarrow> s_result t = s_result s \<Longrightarrow> s_world t = s_world s \<Longrightarrow>
     \<exists>t'. run_lines os t = run_lines os t' \<and> parser_ok (s_parser t') \<and> parser_ok (s_parser s') \<and>
       parser_text (s_parser t') = parser_text (s_parser s') @ ys \<and>
       s_exit t' = s_exit s' \<and> s_result t' = s_result s' \<and> s_world t' = s_world s' \<and>
       parser_pop_next (s_parser s') = Inr (PARSER_ERR_NONE, None, s_parser s')"
proof (induction os s arbitrary: t rule: run_lines.induct)
  case (1 os s)
  from run_lines_unfold [OF "1.prems"(1)]
  consider (none) p where "parser_pop_next (s_parser s) = Inr (PARSER_ERR_NONE, None, p)"
      "s' = s\<lparr>s_parser := p\<rparr>"
    | (err) e out p where "parser_pop_next (s_parser s) = Inr (e, out, p)" "e \<noteq> PARSER_ERR_NONE"
        "run_lines os (s\<lparr>s_parser := p, s_world := os_error os e (s_world s)\<rparr>) = Inr s'"
    | (line) line p s1 where "parser_pop_next (s_parser s) = Inr (PARSER_ERR_NONE, Some line, p)"
        "run_line os line (s\<lparr>s_parser := p\<rparr>) = Inr s1" "run_lines os s1 = Inr s'"
    by blast
  then show ?case
  proof cases
    case (none p)
    have "p = s_parser s" using pop_next_nothing(1) [OF "1.prems"(2,2) refl none(1)] .
    with "1.prems" none show ?thesis by (intro exI [of _ t]) simp
  next
    case (err e out p)
    from pop_next_extend [OF "1.prems"(2,3,4) err(1)] err(2) obtain q where
      q: "parser_pop_next (s_parser t) = Inr (e, out, q)" "parser_ok p" "parser_ok q"
         "parser_text q = parser_text p @ ys" by auto
    have "run_lines os t = run_lines os (t\<lparr>s_parser := q, s_world := os_error os e (s_world t)\<rparr>)"
      using q err(2) by (simp add: run_lines.simps [of os t])
    moreover note "1.IH"(1) [OF err(1) refl refl _ err(2) err(3),
        of "t\<lparr>s_parser := q, s_world := os_error os e (s_world t)\<rparr>"]
    ultimately show ?thesis using q err(2) "1.prems" by simp
  next
    case (line line p s1)
    from pop_next_extend [OF "1.prems"(2,3,4) line(1)] obtain q where
      q: "parser_pop_next (s_parser t) = Inr (PARSER_ERR_NONE, Some line, q)" "parser_ok p" "parser_ok q"
         "parser_text q = parser_text p @ ys" by auto
    from run_line_frame [OF line(2), of "t\<lparr>s_parser := q\<rparr>"] "1.prems" obtain t1 where
      t1: "run_line os line (t\<lparr>s_parser := q\<rparr>) = Inr t1" "s_exit t1 = s_exit s1"
          "s_result t1 = s_result s1" "s_world t1 = s_world s1" "s_parser t1 = q"
      by auto
    have "run_lines os t = run_lines os t1"
      using q t1 by (simp add: run_lines.simps [of os t])
    moreover have "s_parser s1 = p" using run_line_parser [OF line(2)] by simp
    moreover note "1.IH"(2) [OF line(1) refl refl _ _ _ line(3), of t1]
    ultimately show ?thesis using q t1 line(2) by simp
  qed
qed

lemma run_lines_same:
  assumes "run_lines os s = Inr s'" "parser_ok (s_parser s)" "parser_ok (s_parser t)"
    and "parser_text (s_parser t) = parser_text (s_parser s)"
    and "s_exit t = s_exit s" "s_result t = s_result s" "s_world t = s_world s"
  shows "\<exists>t'. run_lines os t = Inr t' \<and> shell_sim s' t'"
proof -
  from run_lines_extend [OF assms(1-3) _ assms(5-7), of "[]"] assms(4) obtain t' where
    t': "run_lines os t = run_lines os t'" "parser_ok (s_parser t')" "parser_ok (s_parser s')"
      "parser_text (s_parser t') = parser_text (s_parser s')"
      "s_exit t' = s_exit s'" "s_result t' = s_result s'" "s_world t' = s_world s'"
      "parser_pop_next (s_parser s') = Inr (PARSER_ERR_NONE, None, s_parser s')" by auto
  have "parser_pop_next (s_parser t') = Inr (PARSER_ERR_NONE, None, s_parser t')"
    by (rule pop_next_nothing(2) [OF t'(3,2,4,8)])
  then have "run_lines os t' = Inr t'" by (subst run_lines.simps) simp
  with t' show ?thesis by (auto simp: shell_sim_def)
qed

section \<open>Exit codes\<close>

text \<open>A child that exits normally passes the low eight bits of its code.\<close>

lemma exit_status_decode:
  "WIFEXITED (exit_status code)" "WEXITSTATUS (exit_status code) = code mod 256"
proof -
  have m: "x AND 0xff = take_bit 8 x" for x :: i32
    using mask_eq_exp_minus_1 [of 8, where 'a = i32] by (simp add: take_bit_eq_mask)
  have m7: "x AND 0x7f = take_bit 7 x" for x :: i32
    using mask_eq_exp_minus_1 [of 7, where 'a = i32] by (simp add: take_bit_eq_mask)
  have a: "take_bit 7 (push_bit 8 (take_bit 8 x)) = (0 :: i32)" for x :: i32
    by (rule bit_word_eqI) (auto simp: bit_simps)
  show "WIFEXITED (exit_status code)" by (simp only: WIFEXITED_def exit_status_def m m7 a)
  have b: "take_bit 8 (drop_bit 8 (push_bit 8 (take_bit 8 x))) = take_bit 8 x" for x :: i32
    by (rule bit_word_eqI) (auto simp: bit_simps)
  have "WEXITSTATUS (exit_status code) = take_bit 8 (take_bit 32 code)"
    by (simp only: WEXITSTATUS_def exit_status_def m b unsigned_take_bit_eq uint_word_of_int_eq)
      simp
  then show "WEXITSTATUS (exit_status code) = code mod 256"
    by (simp add: take_bit_take_bit) (simp add: take_bit_eq_mod)
qed

lemma pipe_children_last:
  "cmds \<noteq> [] \<Longrightarrow> \<exists>cs. pipe_children os (map EXPR_TYPE_COMMAND cmds) = Inr cs \<and>
     cs \<noteq> [] \<and> last cs = command_exec os (last cmds)"
proof (induction cmds)
  case (Cons c cmds)
  then show ?case by (cases cmds) auto
qed simp

lemma failed_exec_code:
  "exe cmd \<noteq> ''exit'' \<Longrightarrow> os_exec os (exe cmd # args cmd) w = (None, w') \<Longrightarrow>
     command_exec os cmd w = (0, w')"
  by (simp add: command_exec_def exit_status_decode)

section \<open>Properties\<close>

text \<open>
  (C4) What a line does. For every line the parser returns, the tree is built without following
  a null pointer and its execution is the left-to-right reading of the line: the pipelines
  combined by \<open>&&\<close> and \<open>||\<close> with short circuit, stopping at \<open>exit\<close>, inside the
  redirection. It always returns.
\<close>

theorem execute_line_meaning:
  assumes "line_ok line"
  shows "execute_out_type os line w =
      rbind (run_pipe os (fst (line_chain (exprs line)))
               (if out_type line = OUTPUT_TYPE_STDOUT then w
                else os_redirect os (out_type line) (the (out_file line)) w)) (\<lambda>r.
      rbind (run_chain os r (snd (line_chain (exprs line)))) (\<lambda>(res, ex, w).
      Inr (res, ex, if out_type line = OUTPUT_TYPE_STDOUT then w
                    else os_restore os (out_type line) w))) \<and>
    (\<exists>res ex w'. execute_out_type os line w = Inr (res, ex, w'))"
proof -
  let ?p = "fst (line_chain (exprs line))" and ?xs = "snd (line_chain (exprs line))"
  let ?w = "if out_type line = OUTPUT_TYPE_STDOUT then w
            else os_redirect os (out_type line) (the (out_file line)) w"
  have es: "exprs_ok True (exprs line)" "odd (length (exprs line))" using assms by (auto simp: line_ok_def)
  have tree: "construct_tree (exprs line) = Inr (Some (chain_tree (node_init ?p) ?xs))"
    and chain: "and_or_chain ?xs"
    using construct_loop_chain [OF es, of None] by (auto simp: construct_tree_def attach_def)
  have f: "out_type line \<noteq> OUTPUT_TYPE_STDOUT \<Longrightarrow> out_file line \<noteq> None"
    using assms by (auto simp: line_ok_def)
  have "execute_out_type os line w =
      rbind (execute_node os (chain_tree (node_init ?p) ?xs) ?w) (\<lambda>(res, ex, w).
      Inr (res, ex, if out_type line = OUTPUT_TYPE_STDOUT then w else os_restore os (out_type line) w))"
    unfolding execute_out_type_def tree using f
    by (cases "out_type line"; cases "out_file line") simp_all
  then have eq: "execute_out_type os line w = rbind (run_pipe os ?p ?w) (\<lambda>r.
      rbind (run_chain os r ?xs) (\<lambda>(res, ex, w).
      Inr (res, ex, if out_type line = OUTPUT_TYPE_STDOUT then w else os_restore os (out_type line) w)))"
    by (simp add: execute_chain_tree [OF chain] run_pipe_def rbind_assoc)
  obtain r where r: "run_pipe os ?p ?w = Inr r"
    using run_pipe_ok [of ?p os ?w] line_chain_commands [OF es] by blast
  obtain r' where "run_chain os r ?xs = Inr r'"
    using run_chain_ok [of ?xs os r] line_chain_commands [OF es] by blast
  moreover obtain res ex w' where "r' = (res, ex, w')" by (cases r')
  ultimately have "\<exists>res ex w'. execute_out_type os line w = Inr (res, ex, w')" by (simp add: eq r)
  with eq show ?thesis by (rule conjI)
qed

text \<open>
  A world for the witnesses: the list of the programs started, a pipeline run one child after the
  other.
\<close>

fun run_seq :: "('w \<Rightarrow> int \<times> 'w) list \<Rightarrow> 'w \<Rightarrow> i32 \<times> 'w" where
  "run_seq [] w = (exit_status 0, w)"
| "run_seq [c] w = (exit_status (fst (c w)), snd (c w))"
| "run_seq (c # cs) w = run_seq cs (snd (c w))"

definition log_os :: "string list os" where
  "log_os = \<lparr>os_exec = (\<lambda>argv w. (if hd argv = ''missing'' then None else Some (exit_status 1), w @ [hd argv])),
     os_pipeline = run_seq, os_chdir = (\<lambda>d w. w @ [d]),
     os_fork = (\<lambda>c w. w), os_redirect = (\<lambda>ty f w. w), os_restore = (\<lambda>ty w. w),
     os_error = (\<lambda>e w. w)\<rparr>"

definition plain_command :: "string \<Rightarrow> command" where
  "plain_command s = \<lparr>exe = s, args = [], arg_count = 0, arg_capacity = 0\<rparr>"

abbreviation (input) word_command :: "string \<Rightarrow> expr" where
  "word_command s \<equiv> EXPR_TYPE_COMMAND (plain_command s)"

theorem execute_line_meaning_witness:
  "\<exists>res ex w'. execute_out_type log_os (command_line_zero\<lparr>exprs :=
     [word_command ''a'', EXPR_TYPE_AND, word_command ''b'']\<rparr>) [] = Inr (res, ex, w')"
  using execute_line_meaning [of "command_line_zero\<lparr>exprs :=
     [word_command ''a'', EXPR_TYPE_AND, word_command ''b'']\<rparr>" log_os "[]", THEN conjunct2]
  by (simp add: line_ok_def command_line_zero_def plain_command_def command_ok_def)

text \<open>
  (C5) The shell does not depend on how its input is cut into blocks: running the lines of one
  block, then feeding and running the next, ends with the same exit flag, result, world and
  pending text as feeding both blocks at once.
\<close>

theorem run_lines_block_independent:
  assumes "parser_ok p1" "parser_ok p2" "parser_ok q"
    and "run_lines os (s\<lparr>s_parser := p1\<rparr>) = Inr s1"
    and "parser_text p2 = parser_text (s_parser s1) @ ys"
    and "run_lines os (s1\<lparr>s_parser := p2\<rparr>) = Inr s2"
    and "parser_text q = parser_text p1 @ ys"
  shows "\<exists>t. run_lines os (s\<lparr>s_parser := q\<rparr>) = Inr t \<and> shell_sim s2 t"
proof -
  from run_lines_extend [OF assms(4), of "s\<lparr>s_parser := q\<rparr>" ys] assms(1,3,7)
  obtain t where t: "run_lines os (s\<lparr>s_parser := q\<rparr>) = run_lines os t" "parser_ok (s_parser t)"
      "parser_text (s_parser t) = parser_text (s_parser s1) @ ys"
      "s_exit t = s_exit s1" "s_result t = s_result s1" "s_world t = s_world s1"
    by auto
  from run_lines_same [OF assms(6), of t] assms(2,5) t show ?thesis by simp
qed

theorem run_lines_block_independent_witness:
  "\<exists>t. run_lines log_os ((shell_init [])\<lparr>s_parser :=
       \<lparr>p_buffer = ''a'' @ [ch_nl] @ ''b'' @ [ch_nl], p_size = 4, p_capacity = 4\<rparr>\<rparr>) = Inr t \<and>
     shell_sim \<lparr>s_parser = \<lparr>p_buffer = ''b'' @ [ch_nl], p_size = 0, p_capacity = 4\<rparr>,
       s_exit = False, s_result = 1, s_world = [''a'', ''b'']\<rparr> t"
proof -
  let ?p1 = "\<lparr>p_buffer = ''a'' @ [ch_nl] @ ''b'', p_size = 3, p_capacity = 4\<rparr>"
  let ?p2 = "\<lparr>p_buffer = ''b'' @ [ch_nl], p_size = 2, p_capacity = 4\<rparr>"
  let ?s1 = "\<lparr>s_parser = \<lparr>p_buffer = ''b'' @ [ch_nl] @ ''b'', p_size = 1, p_capacity = 4\<rparr>,
      s_exit = False, s_result = 1, s_world = [''a'']\<rparr>"
  have ok: "parser_ok ?p1" "parser_ok ?p2"
    "parser_ok \<lparr>p_buffer = ''a'' @ [ch_nl] @ ''b'' @ [ch_nl], p_size = 4, p_capacity = 4\<rparr>"
    by (simp_all add: parser_ok_def)
  have run1: "run_lines log_os ((shell_init [])\<lparr>s_parser := ?p1\<rparr>) = Inr ?s1" by code_simp
  have run2: "run_lines log_os (?s1\<lparr>s_parser := ?p2\<rparr>) =
      Inr \<lparr>s_parser = \<lparr>p_buffer = ''b'' @ [ch_nl], p_size = 0, p_capacity = 4\<rparr>,
        s_exit = False, s_result = 1, s_world = [''a'', ''b'']\<rparr>" by code_simp
  show ?thesis
    by (rule run_lines_block_independent [OF ok run1 _ run2, of "[ch_nl]"]) (simp_all add: parser_text_def)
qed

text \<open>
  The exit code of a pipeline. When the operating system reports the exit code of the last
  child, a pipeline ends with the code of its last command modulo 256, and it never ends the
  shell, whatever its commands are, \<open>exit\<close> included.
\<close>

theorem pipeline_result:
  assumes "\<And>cs w. cs \<noteq> [] \<Longrightarrow> \<exists>w'. fst (os_pipeline os cs w) = exit_status (fst (last cs w'))"
    and "2 \<le> length cmds"
  shows "\<exists>w0 w'. execute_node os (node_init (map EXPR_TYPE_COMMAND cmds)) w =
    Inr (fst (command_exec os (last cmds) w0) mod 256, False, w')"
proof -
  obtain a b cs' where c: "cmds = a # b # cs'" using assms(2) by (cases cmds; cases "tl cmds") auto
  then obtain cs where cs: "pipe_children os (map EXPR_TYPE_COMMAND cmds) = Inr cs" "cs \<noteq> []"
    "last cs = command_exec os (last cmds)" using pipe_children_last [of cmds os] by auto
  obtain w0 where w0: "fst (os_pipeline os cs w) = exit_status (fst (command_exec os (last cmds) w0))"
    using assms(1) [OF cs(2), of w] cs(3) by auto
  obtain st w' where st: "os_pipeline os cs w = (st, w')" by (cases "os_pipeline os cs w")
  have "execute_node os (node_init (map EXPR_TYPE_COMMAND cmds)) w = Inr (WEXITSTATUS st, False, w')"
    using cs(1) st by (simp add: node_init_def c)
  then show ?thesis using w0 st by (auto simp: exit_status_decode)
qed

lemma run_seq_last: "cs \<noteq> [] \<Longrightarrow> \<exists>w'. fst (run_seq cs w) = exit_status (fst (last cs w'))"
  by (induction cs w rule: run_seq.induct) auto

lemma log_os_pipeline:
  "cs \<noteq> [] \<Longrightarrow> \<exists>w'. fst (os_pipeline log_os cs w) = exit_status (fst (last cs w'))"
  by (simp add: log_os_def run_seq_last)

theorem pipeline_result_witness:
  "\<exists>w0 w'. execute_node log_os (node_init [word_command ''ls'', word_command ''exit'']) [] =
     Inr (fst (command_exec log_os (plain_command ''exit'') w0) mod 256, False, w')"
  using pipeline_result [of log_os "[plain_command ''ls'', plain_command ''exit'']" "[]",
      OF log_os_pipeline] by simp

text \<open>
  A program that does not exist counts as a success: its child falls through the failed
  \<open>execvp\<close> and exits with 0, so the command after \<open>&&\<close> runs and decides the result.
\<close>

theorem missing_program_is_success:
  assumes "os_exec os (exe a # args a) w = (None, w')" and "exe a \<noteq> ''exit''" "exe a \<noteq> ''cd''"
  shows "execute_out_type os (command_line_zero\<lparr>exprs :=
      [EXPR_TYPE_COMMAND a, EXPR_TYPE_AND, EXPR_TYPE_COMMAND b]\<rparr>) w = Inr (execute_command os b w')"
  using failed_exec_code [OF assms(2,1)] assms(2,3)
  by (simp add: execute_out_type_def construct_tree_def node_init_def execute_command_def
      command_line_zero_def)

theorem missing_program_is_success_witness:
  "execute_out_type log_os (command_line_zero\<lparr>exprs :=
     [word_command ''missing'', EXPR_TYPE_AND, word_command ''b'']\<rparr>) [] = Inr (1, False, [''missing'', ''b''])"
  using missing_program_is_success [of log_os "plain_command ''missing''" "[]" "[''missing'']" "plain_command ''b''"]
  by (simp add: log_os_def plain_command_def execute_command_def command_exec_def exit_status_decode)

text \<open>
  The exit flag is tested between two blocks of input only. When one block holds the line
  \<open>exit 3\<close> and a line after it, the later line is executed and overwrites the flag and the
  result, and the shell goes on reading.
\<close>

theorem exit_inside_block_is_lost:
  "\<exists>t. shell_main os (shell_init w) [''exit 3'' @ [ch_nl] @ ''ls'' @ [ch_nl]] = Inr t \<and>
     \<not> s_exit t \<and> s_world t = snd (os_exec os [''ls''] w)"
proof -
  let ?p = "\<lambda>n. \<lparr>p_buffer = ''ls'' @ [ch_nl] @ ''t 3'' @ [ch_nl] @ ''ls'' @ [ch_nl], p_size = n, p_capacity = 10\<rparr>"
  let ?c = "\<lambda>c. command_line_zero\<lparr>exprs := [EXPR_TYPE_COMMAND c]\<rparr>"
  have feed: "parser_feed parser_new (''exit 3'' @ [ch_nl] @ ''ls'' @ [ch_nl]) 10 =
      Inr \<lparr>p_buffer = ''exit 3'' @ [ch_nl] @ ''ls'' @ [ch_nl], p_size = 10, p_capacity = 10\<rparr>"
    by code_simp
  have pop1: "parser_pop_next \<lparr>p_buffer = ''exit 3'' @ [ch_nl] @ ''ls'' @ [ch_nl], p_size = 10, p_capacity = 10\<rparr> =
      Inr (PARSER_ERR_NONE, Some (?c \<lparr>exe = ''exit'', args = [''3''], arg_count = 1, arg_capacity = 2\<rparr>), ?p 3)"
    by code_simp
  have pop2: "parser_pop_next (?p 3) =
      Inr (PARSER_ERR_NONE, Some (?c \<lparr>exe = ''ls'', args = [], arg_count = 0, arg_capacity = 0\<rparr>), ?p 0)"
    by code_simp
  have pop3: "parser_pop_next (?p 0) = Inr (PARSER_ERR_NONE, None, ?p 0)" by code_simp
  have line: "run_line os (?c c) s = (let (res, ex, w) = execute_command os c (s_world s)
      in Inr (s\<lparr>s_exit := ex, s_result := res, s_world := w\<rparr>))" for c s
    by (simp add: run_line_def execute_out_type_def construct_tree_def node_init_def
        command_line_zero_def split_beta)
  have exit: "execute_command os \<lparr>exe = ''exit'', args = [''3''], arg_count = 1, arg_capacity = 2\<rparr> w =
      (atoi ''3'', True, w)" for w by (simp add: execute_command_def)
  have ls: "execute_command os \<lparr>exe = ''ls'', args = [], arg_count = 0, arg_capacity = 0\<rparr> w =
      (fst (command_exec os (plain_command ''ls'') w), False, snd (os_exec os [''ls''] w))" for w
    by (simp add: execute_command_def command_exec_def plain_command_def split_beta Let_def)
  from feed pop1 pop2 pop3 obtain p0 p1 p2 where
    "parser_feed parser_new (''exit 3'' @ [ch_nl] @ ''ls'' @ [ch_nl]) 10 = Inr p0"
    "parser_pop_next p0 = Inr (PARSER_ERR_NONE, Some (?c \<lparr>exe = ''exit'', args = [''3''], arg_count = 1, arg_capacity = 2\<rparr>), p1)"
    "parser_pop_next p1 = Inr (PARSER_ERR_NONE, Some (?c \<lparr>exe = ''ls'', args = [], arg_count = 0, arg_capacity = 0\<rparr>), p2)"
    "parser_pop_next p2 = Inr (PARSER_ERR_NONE, None, p2)" by blast
  then show ?thesis by (simp add: shell_init_def run_lines_line run_lines_none line exit ls)
qed

end
