(* ===== verification/Shell_Memory.thy ===== *)
theory Shell_Memory
  imports Shell
begin

text \<open>
  The memory of the shell of src/2/solution.c: \<open>construct_tree\<close> on a heap of nodes and arrays,
  \<open>node_free\<close>, which releases the tree after a line, and \<open>all_free\<close>, with which a child releases
  everything it has inherited. The tree on the heap is the one of \<open>Shell\<close>, and no block is lost
  or freed twice.
\<close>

section \<open>The tree on the heap\<close>

text \<open>A block is a node, with the addresses of its children and of its array, or such an array.\<close>

datatype tree_block =
    Node (b_left: "nat option") (b_right: "nat option") (b_expr: nat)
  | Exprs "expr list"

record tree_heap =
  blocks :: "nat \<Rightarrow> tree_block option"
  fresh_block_at :: nat

definition empty_heap :: tree_heap where
  "empty_heap = \<lparr>blocks = \<lambda>_. None, fresh_block_at = 0\<rparr>"

text \<open>\<open>node_init\<close>, the \<open>malloc\<close> of the array and its content.\<close>

definition new_node :: "nat option \<Rightarrow> expr list \<Rightarrow> tree_heap \<Rightarrow> nat \<times> tree_heap" where
  "new_node l es h =
     (let a = fresh_block_at h
      in (a, \<lparr>blocks = (blocks h)(a \<mapsto> Node l None (a + 1), a + 1 \<mapsto> Exprs es), fresh_block_at = a + 2\<rparr>))"

definition set_right :: "nat \<Rightarrow> nat \<Rightarrow> tree_heap \<Rightarrow> tree_heap cres" where
  "set_right root a h =
     (case blocks h root of
        Some (Node l r x) \<Rightarrow> Inr (h\<lparr>blocks := (blocks h)(root \<mapsto> Node l (Some a) x)\<rparr>)
      | _ \<Rightarrow> Inl UseAfterFree)"

function construct_loop_heap :: "nat option \<Rightarrow> expr list \<Rightarrow> tree_heap \<Rightarrow> (nat option \<times> tree_heap) cres" where
  "construct_loop_heap root [] h = Inr (root, h)"
| "construct_loop_heap root (e # es) h =
     (case e of
        EXPR_TYPE_COMMAND _ \<Rightarrow>
          (case collect_pipe (e # es) of
             Inl x \<Rightarrow> Inl x
           | Inr (cmds, rest) \<Rightarrow>
               let (a, h) = new_node None cmds h
               in (case root of
                     None \<Rightarrow> construct_loop_heap (Some a) rest h
                   | Some r \<Rightarrow>
                       (case set_right r a h of
                          Inl x \<Rightarrow> Inl x
                        | Inr h \<Rightarrow> construct_loop_heap root rest h)))
      | _ \<Rightarrow> let (a, h) = new_node root [e] h in construct_loop_heap (Some a) es h)"
  by pat_completeness auto
termination
  by (relation "measure (\<lambda>(root, es, h). length es)") (auto dest: collect_pipe_shorter)

definition construct_tree_heap :: "expr list \<Rightarrow> tree_heap \<Rightarrow> (nat option \<times> tree_heap) cres" where
  "construct_tree_heap es h = construct_loop_heap None es h"

text \<open>\<open>free\<close>: a block that is not allocated is freed twice.\<close>

definition free_block :: "nat \<Rightarrow> tree_heap \<Rightarrow> tree_heap cres" where
  "free_block a h =
     (if blocks h a = None then Inl UseAfterFree else Inr (h\<lparr>blocks := (blocks h)(a := None)\<rparr>))"

text \<open>The recursion of \<open>node_free\<close>; the fuel is the depth of the stack that is left.\<close>

fun node_free :: "nat \<Rightarrow> nat option \<Rightarrow> tree_heap \<Rightarrow> tree_heap cres" where
  "node_free depth None h = Inr h"
| "node_free 0 (Some a) h = Inl StackOverflow"
| "node_free (Suc depth) (Some a) h =
     (case blocks h a of
        Some (Node l r x) \<Rightarrow>
          rbind (free_block x h) (\<lambda>h.
          rbind (node_free depth l h) (\<lambda>h.
          rbind (node_free depth r h) (\<lambda>h.
          free_block a h)))
      | _ \<Rightarrow> Inl UseAfterFree)"

text \<open>
  \<open>struct all_pointer\<close> and what a child frees: the buffer and the parser, the objects of the line,
  and the tree.
\<close>

record all_pointer =
  ap_p :: parser
  ap_l :: command_line
  ap_t :: "nat option"

datatype shell_alloc = Alloc_buffer | Alloc_parser | Line_alloc line_alloc

definition all_free :: "nat \<Rightarrow> all_pointer \<Rightarrow> tree_heap \<Rightarrow> (shell_alloc list \<times> tree_heap) cres" where
  "all_free depth a h =
     rbind (node_free depth (ap_t a) h) (\<lambda>h.
     Inr ([Alloc_buffer, Alloc_parser] @ map Line_alloc (command_line_delete (ap_l a)), h))"

section \<open>The tree that the heap holds\<close>

text \<open>
  \<open>tree_at m p t S\<close>: the tree \<open>t\<close> is stored at the pointer \<open>p\<close>, in the blocks \<open>S\<close>, which its parts do
  not share.
\<close>

inductive tree_at :: "(nat \<Rightarrow> tree_block option) \<Rightarrow> nat option \<Rightarrow> tree_node option \<Rightarrow> nat set \<Rightarrow> bool" for m where
  null: "tree_at m None None {}"
| node: "m a = Some (Node pl pr x) \<Longrightarrow> m x = Some (Exprs es) \<Longrightarrow> tree_at m pl l Sl \<Longrightarrow> tree_at m pr r Sr \<Longrightarrow>
     a \<noteq> x \<Longrightarrow> a \<notin> Sl \<union> Sr \<Longrightarrow> x \<notin> Sl \<union> Sr \<Longrightarrow> Sl \<inter> Sr = {} \<Longrightarrow>
     tree_at m (Some a) (Some (Tree_node l r es)) (insert a (insert x (Sl \<union> Sr)))"

inductive_cases tree_at_SomeE: "tree_at m p (Some t) S"
inductive_cases tree_at_NoneE: "tree_at m p None S"
inductive_simps tree_at_None_iff: "tree_at m p None S"

fun tree_depth :: "tree_node option \<Rightarrow> nat" where
  "tree_depth None = 0"
| "tree_depth (Some (Tree_node l r es)) = Suc (max (tree_depth l) (tree_depth r))"

lemma tree_at_frame: "tree_at m p t S \<Longrightarrow> (\<And>s. s \<in> S \<Longrightarrow> m' s = m s) \<Longrightarrow> tree_at m' p t S"
  by (induction rule: tree_at.induct) (auto intro: tree_at.intros)

lemma tree_at_dom: "tree_at m p t S \<Longrightarrow> S \<subseteq> dom m"
  by (induction rule: tree_at.induct) auto

lemma node_free_ok:
  "tree_at m p t S \<Longrightarrow> \<forall>s\<in>S. blocks h s = m s \<Longrightarrow> tree_depth t \<le> depth \<Longrightarrow>
     node_free depth p h = Inr (h\<lparr>blocks := \<lambda>b. if b \<in> S then None else blocks h b\<rparr>)"
proof (induction arbitrary: h depth rule: tree_at.induct)
  case null
  then show ?case by (cases h) simp
next
  case (node a pl pr x es l Sl r Sr)
  obtain d where d: "depth = Suc d" "tree_depth l \<le> d" "tree_depth r \<le> d" using node.prems(2) by (cases depth) auto
  define h0 where "h0 = h\<lparr>blocks := (blocks h)(x := None)\<rparr>"
  define h1 where "h1 = h0\<lparr>blocks := \<lambda>b. if b \<in> Sl then None else blocks h0 b\<rparr>"
  define h2 where "h2 = h1\<lparr>blocks := \<lambda>b. if b \<in> Sr then None else blocks h1 b\<rparr>"
  have a: "blocks h a = Some (Node pl pr x)" "free_block x h = Inr h0"
    using node.hyps(1,2) node.prems(1) by (auto simp: free_block_def h0_def)
  have "\<forall>s\<in>Sl. blocks h0 s = m s" using node.prems(1) node.hyps by (auto simp: h0_def)
  note l = node.IH(1) [OF this d(2), folded h1_def]
  have "\<forall>s\<in>Sr. blocks h1 s = m s" using node.prems(1) node.hyps by (auto simp: h0_def h1_def)
  note r = node.IH(2) [OF this d(3), folded h2_def]
  have "blocks h2 a \<noteq> None" using node.hyps a(1) by (auto simp: h0_def h1_def h2_def)
  then have "free_block a h2 = Inr (h2\<lparr>blocks := (blocks h2)(a := None)\<rparr>)" by (simp add: free_block_def)
  moreover have "h2\<lparr>blocks := (blocks h2)(a := None)\<rparr> =
      h\<lparr>blocks := \<lambda>b. if b \<in> insert a (insert x (Sl \<union> Sr)) then None else blocks h b\<rparr>"
    by (auto simp: h0_def h1_def h2_def fun_eq_iff)
  ultimately show ?case using a l r by (simp add: d(1))
qed

section \<open>Building the tree\<close>

text \<open>
  The invariant of the loop: the heap holds the tree \<open>t\<close> that the loop of \<open>Shell\<close> has built, and
  nothing else.
\<close>

definition holds_tree :: "tree_heap \<Rightarrow> nat option \<Rightarrow> tree_node option \<Rightarrow> bool" where
  "holds_tree h p t \<longleftrightarrow> tree_at (blocks h) p t (dom (blocks h)) \<and> (\<forall>a\<in>dom (blocks h). a < fresh_block_at h)"

lemma holds_empty: "holds_tree empty_heap None None"
  by (simp add: holds_tree_def empty_heap_def tree_at_None_iff)

lemma new_node_ok:
  assumes "holds_tree h p t" "new_node p es h = (a, h')"
  shows "holds_tree h' (Some a) (Some (Tree_node t None es))"
proof -
  let ?a = "fresh_block_at h" and ?m = "(blocks h)(fresh_block_at h \<mapsto> Node p None (fresh_block_at h + 1), fresh_block_at h + 1 \<mapsto> Exprs es)"
  have n: "\<forall>s\<in>dom (blocks h). s < ?a" and t: "tree_at (blocks h) p t (dom (blocks h))"
    using assms(1) by (auto simp: holds_tree_def)
  have "tree_at ?m p t (dom (blocks h))"
  proof (rule tree_at_frame [OF t])
    fix s
    assume "s \<in> dom (blocks h)"
    with n have "s < ?a" by blast
    then show "?m s = blocks h s" by simp
  qed
  note sub = this
  have "?a \<notin> dom (blocks h)" "?a + 1 \<notin> dom (blocks h)" using bspec [OF n] by force+
  then have "tree_at ?m (Some ?a) (Some (Tree_node t None es)) (insert ?a (insert (?a + 1) (dom (blocks h) \<union> {})))"
    by (intro tree_at.node [OF _ _ sub tree_at.null]) auto
  moreover have d: "dom ?m = insert ?a (insert (?a + 1) (dom (blocks h) \<union> {}))" by auto
  moreover have "b < ?a + 2" if "b \<in> dom ?m" for b using that bspec [OF n, of b] unfolding d by (elim insertE UnE) simp_all
  moreover have "a = ?a" "h' = \<lparr>blocks = ?m, fresh_block_at = ?a + 2\<rparr>" using assms(2) by (auto simp: new_node_def Let_def)
  ultimately show ?thesis by (simp only: holds_tree_def tree_heap.simps) simp
qed

lemma add_right_ok:
  assumes "holds_tree h (Some b) (Some (Tree_node l None fs))" "new_node None es h = (a, h')"
  shows "\<exists>h2. set_right b a h' = Inr h2 \<and> holds_tree h2 (Some b) (Some (Tree_node l (Some (node_init es)) fs))"
proof -
  let ?a = "fresh_block_at h"
  have n: "\<forall>s\<in>dom (blocks h). s < ?a" using assms(1) by (simp add: holds_tree_def)
  from assms(1) obtain pl x Sl where t: "blocks h b = Some (Node pl None x)" "blocks h x = Some (Exprs fs)"
    "tree_at (blocks h) pl l Sl" "b \<noteq> x" "b \<notin> Sl" "x \<notin> Sl" "dom (blocks h) = insert b (insert x Sl)"
    by (auto simp: holds_tree_def tree_at_None_iff elim!: tree_at_SomeE)
  let ?m = "(blocks h)(?a \<mapsto> Node None None (?a + 1), ?a + 1 \<mapsto> Exprs es, b \<mapsto> Node pl (Some ?a) x)"
  have b: "b < ?a" "x < ?a" "\<forall>s\<in>Sl. s < ?a" using n t(7) by auto
  have l: "tree_at ?m pl l Sl" by (rule tree_at_frame [OF t(3)]) (use b t(5) in auto)
  have r: "tree_at ?m (Some ?a) (Some (node_init es)) {?a, ?a + 1}"
    using tree_at.node [of ?m ?a None None "?a + 1" es None "{}" None "{}"] b by (auto simp: node_init_def intro: tree_at.null)
  have "tree_at ?m (Some b) (Some (Tree_node l (Some (node_init es)) fs)) (insert b (insert x (Sl \<union> {?a, ?a + 1})))"
    by (rule tree_at.node [OF _ _ l r]) (use b t in auto)
  moreover have "dom ?m = insert b (insert x (Sl \<union> {?a, ?a + 1}))" using t(7) by auto
  moreover have "h' = \<lparr>blocks = (blocks h)(?a \<mapsto> Node None None (?a + 1), ?a + 1 \<mapsto> Exprs es), fresh_block_at = ?a + 2\<rparr>" "a = ?a"
    using assms(2) by (auto simp: new_node_def Let_def)
  ultimately show ?thesis using b t(1) by (auto simp: set_right_def holds_tree_def)
qed

text \<open>Both loops in step, from any state in which an operand is expected next.\<close>

definition wants_operand :: "tree_node option \<Rightarrow> bool" where
  "wants_operand t \<longleftrightarrow> (case t of None \<Rightarrow> True | Some t \<Rightarrow> n_right t = None)"

lemma operand_ok:
  assumes "holds_tree h p t" "wants_operand t" "new_node None es h = (a, h1)"
  obtains b h2 where
    "(case p of None \<Rightarrow> construct_loop_heap (Some a) rest h1
      | Some r \<Rightarrow> (case set_right r a h1 of Inl x \<Rightarrow> Inl x | Inr h \<Rightarrow> construct_loop_heap p rest h)) =
     construct_loop_heap (Some b) rest h2"
    "holds_tree h2 (Some b) (Some (attach t es))" "tree_depth (Some (attach t es)) \<le> Suc (tree_depth t)"
proof (cases t)
  case None
  then have p: "p = None" using assms(1) by (simp add: holds_tree_def tree_at_None_iff)
  from new_node_ok [OF assms(1)[unfolded p] assms(3)] have "holds_tree h1 (Some a) (Some (attach t es))"
    by (simp add: None attach_def node_init_def)
  with p show ?thesis using that [of a h1] by (simp add: None attach_def node_init_def)
next
  case (Some r)
  then obtain l fs where r: "r = Tree_node l None fs" using assms(2) by (cases r) (auto simp: wants_operand_def)
  obtain b where p: "p = Some b" using assms(1) Some by (auto simp: holds_tree_def elim: tree_at_SomeE)
  from add_right_ok [OF assms(1)[unfolded p Some r] assms(3)] obtain h2 where
    "set_right b a h1 = Inr h2" "holds_tree h2 (Some b) (Some (Tree_node l (Some (node_init es)) fs))" by blast
  with p show ?thesis using that [of b h2] by (simp add: Some r attach_def node_init_def)
qed

lemma construct_loops:
  assumes "exprs_ok True es" "odd (length es)" "holds_tree h p t" "wants_operand t"
  shows "\<exists>t' a h'. construct_loop t es = Inr (Some t') \<and> construct_loop_heap p es h = Inr (Some a, h') \<and>
    holds_tree h' (Some a) (Some t') \<and> tree_depth (Some t') \<le> tree_depth t + length es"
  using assms
proof (induction "length es" arbitrary: es h p t rule: less_induct)
  case less
  obtain c es' where es: "es = EXPR_TYPE_COMMAND c # es'"
    using less.prems(1,2) by (cases "(True, es)" rule: exprs_ok.cases) auto
  define cmds where "cmds = fst (line_chain es)"
  obtain a h1 where new: "new_node None cmds h = (a, h1)" by fastforce
  have step: "construct_loop t es = construct_loop (Some (attach t cmds)) rest \<and>
      construct_loop_heap p es h =
        (case p of None \<Rightarrow> construct_loop_heap (Some a) rest h1
         | Some r \<Rightarrow> (case set_right r a h1 of Inl x \<Rightarrow> Inl x | Inr h \<Rightarrow> construct_loop_heap p rest h))"
    if "collect_pipe es = Inr (cmds, rest)" for rest
    using that new by (auto simp: es attach_def split: option.splits)
  from line_chain_split [OF less.prems(1,2)]
  consider (last) "collect_pipe es = Inr (cmds, [])"
    | (more) op fs where "collect_pipe es = Inr (cmds, op # fs)"
        "op = EXPR_TYPE_AND \<or> op = EXPR_TYPE_OR" "exprs_ok True fs" "odd (length fs)"
    by (auto simp: cmds_def)
  then show ?case
  proof cases
    case last
    from operand_ok [OF less.prems(3,4) new, of "[]"] obtain b h2 where
      "construct_loop_heap p es h = construct_loop_heap (Some b) [] h2"
      "holds_tree h2 (Some b) (Some (attach t cmds))" "tree_depth (Some (attach t cmds)) \<le> Suc (tree_depth t)"
      using step [OF last] by metis
    with step [OF last] show ?thesis by (simp add: es)
  next
    case (more op fs)
    from operand_ok [OF less.prems(3,4) new, of "op # fs"] obtain b h2 where
      b: "construct_loop_heap p es h = construct_loop_heap (Some b) (op # fs) h2"
      "holds_tree h2 (Some b) (Some (attach t cmds))" "tree_depth (Some (attach t cmds)) \<le> Suc (tree_depth t)"
      using step [OF more(1)] by metis
    obtain a' h3 where op: "new_node (Some b) [op] h2 = (a', h3)" by fastforce
    let ?t = "Tree_node (Some (attach t cmds)) None [op]"
    have "length (op # fs) < length es" using collect_pipe_shorter [OF more(1)] .
    then have len: "length fs < length es" "Suc (Suc (length fs)) \<le> length es" by simp_all
    from less.hyps [OF len(1) more(3,4) new_node_ok [OF b(2) op]] obtain t' a'' h' where
      r: "construct_loop (Some ?t) fs = Inr (Some t')" "construct_loop_heap (Some a') fs h3 = Inr (Some a'', h')"
      "holds_tree h' (Some a'') (Some t')" "tree_depth (Some t') \<le> tree_depth (Some ?t) + length fs"
      by (auto simp: wants_operand_def)
    have "construct_loop t es = construct_loop (Some ?t) fs" "construct_loop_heap p es h = construct_loop_heap (Some a') fs h3"
      using step [OF more(1)] b(1) op more(2) by auto
    moreover have "tree_depth (Some t') \<le> tree_depth t + length es" using r(4) b(3) len(2) by simp
    ultimately show ?thesis using r by auto
  qed
qed

section \<open>Properties\<close>

lemma free_tree:
  assumes "holds_tree h p t" "tree_depth t \<le> depth"
  shows "node_free depth p h = Inr (h\<lparr>blocks := \<lambda>_. None\<rparr>)"
proof -
  have "node_free depth p h = Inr (h\<lparr>blocks := \<lambda>b. if b \<in> dom (blocks h) then None else blocks h b\<rparr>)"
    by (rule node_free_ok [OF _ _ assms(2)]) (use assms(1) in \<open>auto simp: holds_tree_def\<close>)
  also have "(\<lambda>b. if b \<in> dom (blocks h) then None else blocks h b) = (\<lambda>_. None)" by (auto simp: fun_eq_iff dom_def)
  finally show ?thesis .
qed

text \<open>
  (C6) The shell does not lose memory. For every line the parser returns, \<open>construct_tree\<close> leaves on the
  heap exactly the tree that is executed; \<open>node_free\<close> then frees every block of it, none twice,
  with a recursion no deeper than the line is long. A child that calls \<open>all_free\<close> in between frees
  the same blocks, and the buffer, the parser and the objects of the line.
\<close>

theorem construct_tree_freed:
  assumes "line_ok line"
  shows "\<exists>t a h. construct_tree (exprs line) = Inr (Some t) \<and> construct_tree_heap (exprs line) empty_heap = Inr (Some a, h) \<and>
    holds_tree h (Some a) (Some t) \<and>
    node_free (length (exprs line)) (Some a) h = Inr (h\<lparr>blocks := \<lambda>_. None\<rparr>) \<and>
    all_free (length (exprs line)) \<lparr>ap_p = p, ap_l = line, ap_t = Some a\<rparr> h =
      Inr ([Alloc_buffer, Alloc_parser] @ map Line_alloc (command_line_delete line), h\<lparr>blocks := \<lambda>_. None\<rparr>)"
proof -
  from assms have "exprs_ok True (exprs line)" "odd (length (exprs line))" by (simp_all add: line_ok_def)
  from construct_loops [OF this holds_empty] obtain t a h where
    t: "construct_loop None (exprs line) = Inr (Some t)" "construct_loop_heap None (exprs line) empty_heap = Inr (Some a, h)"
      "holds_tree h (Some a) (Some t)" "tree_depth (Some t) \<le> length (exprs line)"
    by (auto simp: wants_operand_def)
  from free_tree [OF t(3,4)] t show ?thesis
    by (auto simp: construct_tree_def construct_tree_heap_def all_free_def)
qed

theorem construct_tree_freed_witness:
  "\<exists>a h. construct_tree_heap [word_command ''a'', EXPR_TYPE_AND, word_command ''b''] empty_heap = Inr (Some a, h) \<and>
     node_free 3 (Some a) h = Inr (h\<lparr>blocks := \<lambda>_. None\<rparr>)"
proof -
  let ?line = "command_line_zero\<lparr>exprs := [word_command ''a'', EXPR_TYPE_AND, word_command ''b'']\<rparr>"
  have "line_ok ?line" by (simp add: line_ok_def command_line_zero_def plain_command_def command_ok_def)
  moreover have "exprs ?line = [word_command ''a'', EXPR_TYPE_AND, word_command ''b'']" by simp
  moreover have "length (exprs ?line) = 3" by simp
  ultimately show ?thesis using construct_tree_freed [of ?line] by metis
qed

end
