(* ===== verification/UserFS.thy ===== *)
theory UserFS
  imports Prelude
begin

text \<open>
  The in-memory file system of src/3/userfs.c. A file object lives in a heap under an address that
  is never reused, so an access to a freed file is visible; \<open>file_list\<close> is the list of the
  addresses in the order of the \<open>next\<close> links; the doubly linked list of blocks of a file is a HOL
  list, and a pointer into it is the list from that block on. Sizes and positions are natural
  numbers, with the reduction modulo \<open>2 ^ 64\<close> of \<open>size_t\<close> written out where it can matter.
\<close>

unbundle bit_operations_syntax

section \<open>Data\<close>

abbreviation (input) BLOCK_SIZE :: nat where "BLOCK_SIZE \<equiv> 512"
abbreviation (input) MAX_FILE_SIZE :: nat where "MAX_FILE_SIZE \<equiv> 104857600"

datatype ufs_error_code =
    UFS_ERR_NO_ERR
  | UFS_ERR_NO_FILE
  | UFS_ERR_NO_MEM
  | UFS_ERR_NOT_IMPLEMENTED
  | UFS_ERR_NO_PERMISSION

abbreviation (input) UFS_CREATE :: i32 where "UFS_CREATE \<equiv> 1"
abbreviation (input) UFS_READ_ONLY :: i32 where "UFS_READ_ONLY \<equiv> 2"
abbreviation (input) UFS_WRITE_ONLY :: i32 where "UFS_WRITE_ONLY \<equiv> 4"
abbreviation (input) UFS_READ_WRITE :: i32 where "UFS_READ_WRITE \<equiv> 8"

record block =
  memory :: "char list"
  occupied :: nat

record ufile =
  block_list :: "block list"
  refs :: int
  f_name :: string
  f_delete :: bool

record filedesc =
  d_file :: "nat option"
  d_pos :: nat
  is_free :: bool
  d_flag :: i32

text \<open>
  The static variables of the file. A slot of \<open>file_descriptors\<close> is \<open>None\<close> while \<open>realloc\<close> left it
  uninitialised; \<open>file_descriptor_capacity\<close> is the length of the list.
\<close>

record ufs =
  heap :: "nat \<Rightarrow> ufile option"
  next_addr :: nat
  file_list :: "nat list"
  file_descriptors :: "filedesc option list"
  file_descriptor_count :: int
  ufs_errno :: ufs_error_code

definition ufs_init :: ufs where
  "ufs_init = \<lparr>heap = Map.empty, next_addr = 0, file_list = [], file_descriptors = [],
     file_descriptor_count = 0, ufs_errno = UFS_ERR_NO_ERR\<rparr>"

definition deref :: "ufs \<Rightarrow> nat \<Rightarrow> ufile cres" where
  "deref s a = (case heap s a of None \<Rightarrow> Inl UseAfterFree | Some f \<Rightarrow> Inr f)"

definition get_fd :: "ufs \<Rightarrow> nat \<Rightarrow> filedesc cres" where
  "get_fd s i =
     (if i < length (file_descriptors s)
      then case file_descriptors s ! i of None \<Rightarrow> Inl UninitRead | Some d \<Rightarrow> Inr d
      else Inl OutOfBounds)"

definition set_fd :: "nat \<Rightarrow> filedesc \<Rightarrow> ufs \<Rightarrow> ufs" where
  "set_fd i d s = s\<lparr>file_descriptors := (file_descriptors s)[i := Some d]\<rparr>"

definition set_file :: "nat \<Rightarrow> ufile \<Rightarrow> ufs \<Rightarrow> ufs" where
  "set_file a f s = s\<lparr>heap := (heap s)(a \<mapsto> f)\<rparr>"

section \<open>Files\<close>

fun find_in :: "ufs \<Rightarrow> string \<Rightarrow> nat list \<Rightarrow> nat option cres" where
  "find_in s filename [] = Inr None"
| "find_in s filename (a # as) =
     rbind (deref s a) (\<lambda>f.
     if \<not> f_delete f \<and> f_name f = filename then Inr (Some a) else find_in s filename as)"

text \<open>\<open>find_file\<close> takes a reference to the file it returns.\<close>

definition find_file :: "string \<Rightarrow> ufs \<Rightarrow> (nat option \<times> ufs) cres" where
  "find_file filename s =
     rbind (find_in s filename (file_list s)) (\<lambda>r.
     case r of
       None \<Rightarrow> Inr (None, s)
     | Some a \<Rightarrow> rbind (deref s a) (\<lambda>f. Inr (Some a, set_file a (f\<lparr>refs := refs f + 1\<rparr>) s)))"

definition create_file :: "string \<Rightarrow> ufs \<Rightarrow> nat \<times> ufs" where
  "create_file filename s =
     (let a = next_addr s
      in (a, set_file a \<lparr>block_list = [], refs = 1, f_name = filename, f_delete = False\<rparr>
               (s\<lparr>next_addr := a + 1, file_list := a # file_list s\<rparr>)))"

definition close_file :: "nat \<Rightarrow> ufs \<Rightarrow> ufs cres" where
  "close_file a s =
     rbind (deref s a) (\<lambda>f.
     let f = f\<lparr>refs := refs f - 1\<rparr>
     in if refs f = 0 \<and> f_delete f
        then Inr (s\<lparr>heap := (heap s)(a := None), file_list := removeAll a (file_list s)\<rparr>)
        else Inr (set_file a f s))"

section \<open>Descriptors\<close>

text \<open>\<open>is_valid_file\<close> returns 1 for an \<^emph>\<open>invalid\<close> descriptor.\<close>

definition is_valid_file :: "int \<Rightarrow> ufs \<Rightarrow> bool cres" where
  "is_valid_file fd s =
     (if 0 \<le> fd \<and> fd < int (length (file_descriptors s))
      then rbind (get_fd s (nat fd)) (\<lambda>d. Inr (d_file d = None \<or> is_free d))
      else Inr True)"

fun find_free_slot :: "filedesc option list \<Rightarrow> nat \<Rightarrow> (nat \<times> filedesc) option cres" where
  "find_free_slot [] i = Inr None"
| "find_free_slot (None # ds) i = Inl UninitRead"
| "find_free_slot (Some d # ds) i =
     (if is_free d then Inr (Some (i, d)) else find_free_slot ds (i + 1))"

text \<open>The position of a new descriptor is set by \<open>ufs_open\<close> before it is read.\<close>

definition new_filedesc :: filedesc where
  "new_filedesc = \<lparr>d_file = None, d_pos = 0, is_free = False, d_flag = 0\<rparr>"

definition find_free_fd :: "ufs \<Rightarrow> (nat \<times> ufs) cres" where
  "find_free_fd s =
     rbind (if file_descriptor_count s < int (length (file_descriptors s))
            then find_free_slot (file_descriptors s) 0 else Inr None) (\<lambda>r.
     case r of
       Some (i, d) \<Rightarrow>
         Inr (i, set_fd i (d\<lparr>is_free := False\<rparr>)
                   (s\<lparr>file_descriptor_count := file_descriptor_count s + 1\<rparr>))
     | None \<Rightarrow>
         let s = s\<lparr>file_descriptors := file_descriptors s @ [None]\<rparr>; i = file_descriptor_count s
         in if 0 \<le> i \<and> i < int (length (file_descriptors s))
            then Inr (nat i, set_fd (nat i) new_filedesc (s\<lparr>file_descriptor_count := i + 1\<rparr>))
            else Inl OutOfBounds)"

definition filedesc_make_free :: "nat \<Rightarrow> ufs \<Rightarrow> ufs cres" where
  "filedesc_make_free fd s =
     rbind (get_fd s fd) (\<lambda>d.
     rbind (case d_file d of None \<Rightarrow> Inr s | Some a \<Rightarrow> close_file a s) (\<lambda>s.
     Inr (set_fd fd (d\<lparr>d_file := None, is_free := True, d_flag := 0\<rparr>)
            (s\<lparr>file_descriptor_count := file_descriptor_count s - 1\<rparr>))))"

section \<open>The system calls\<close>

definition ufs_delete :: "string \<Rightarrow> ufs \<Rightarrow> (int \<times> ufs) cres" where
  "ufs_delete filename s =
     rbind (find_file filename s) (\<lambda>(r, s).
     case r of
       None \<Rightarrow> Inr (-1, s\<lparr>ufs_errno := UFS_ERR_NO_FILE\<rparr>)
     | Some a \<Rightarrow>
         rbind (deref s a) (\<lambda>f.
         rbind (close_file a (set_file a (f\<lparr>f_delete := True\<rparr>) s)) (\<lambda>s. Inr (0, s))))"

text \<open>The end of \<open>ufs_open\<close>, from the test of \<open>f->file\<close> on.\<close>

definition open_tail :: "nat \<Rightarrow> nat option \<times> ufs \<Rightarrow> (int \<times> ufs) cres" where
  "open_tail fd = (\<lambda>(a, s).
     rbind (get_fd s fd) (\<lambda>f.
     case a of
       None \<Rightarrow> Inr (-1, (set_fd fd (f\<lparr>d_file := None\<rparr>) s)\<lparr>ufs_errno := UFS_ERR_NO_FILE\<rparr>)
     | Some a \<Rightarrow> Inr (int fd, set_fd fd (f\<lparr>d_file := Some a, d_pos := 0\<rparr>) s)))"

definition open_file :: "string \<Rightarrow> i32 \<Rightarrow> ufs \<Rightarrow> (nat option \<times> ufs) cres" where
  "open_file filename flags s =
     (if flags AND UFS_CREATE \<noteq> 0
      then rbind (ufs_delete filename s) (\<lambda>(_, s).
           let (a, s) = create_file filename s in Inr (Some a, s))
      else find_file filename s)"

definition ufs_open :: "string \<Rightarrow> i32 \<Rightarrow> ufs \<Rightarrow> (int \<times> ufs) cres" where
  "ufs_open filename flags s =
     rbind (find_free_fd s) (\<lambda>(fd, s).
     rbind (get_fd s fd) (\<lambda>f.
     rbind (open_file filename flags (set_fd fd (f\<lparr>d_flag := flags\<rparr>) s)) (open_tail fd)))"

definition new_block :: block where
  "new_block = \<lparr>memory = replicate BLOCK_SIZE ch_nul, occupied = 0\<rparr>"

text \<open>The loop that follows \<open>next\<close> \<open>pos / BLOCK_SIZE\<close> times.\<close>

fun walk :: "nat \<Rightarrow> block list \<Rightarrow> block list cres" where
  "walk 0 bs = Inr bs"
| "walk (Suc n) [] = Inl NullDeref"
| "walk (Suc n) (b # bs) = walk n bs"

text \<open>
  The copy loop of \<open>ufs_write\<close> on the blocks from \<open>ptr\<close> on: the blocks after it and the new
  position. A null \<open>ptr\<close> is the end of the list, where \<open>new_block\<close> appends.
\<close>

function write_loop :: "nat \<Rightarrow> char list \<Rightarrow> block list \<Rightarrow> block list \<times> nat" where
  "write_loop pos buf rest =
     (if buf = [] then (rest, pos)
      else let ptr = (case rest of [] \<Rightarrow> new_block | b # _ \<Rightarrow> b);
               temp = min (BLOCK_SIZE - pos mod BLOCK_SIZE) (length buf);
               ptr = ptr\<lparr>memory := mem_write (memory ptr) (pos mod BLOCK_SIZE) (take temp buf),
                         occupied := max (occupied ptr) (temp + pos mod BLOCK_SIZE)\<rparr>;
               (rest', pos') = write_loop (pos + temp) (drop temp buf) (tl rest)
           in (ptr # rest', pos'))"
  by pat_completeness auto
termination
  by (relation "measure (\<lambda>(pos, buf, rest). length buf)") auto

declare write_loop.simps [simp del]

definition ufs_write :: "int \<Rightarrow> char list \<Rightarrow> ufs \<Rightarrow> (int \<times> ufs) cres" where
  "ufs_write fd buf s =
     rbind (is_valid_file fd s) (\<lambda>invalid.
     if invalid then Inr (-1, s\<lparr>ufs_errno := UFS_ERR_NO_FILE\<rparr>)
     else
       rbind (get_fd s (nat fd)) (\<lambda>d.
       rbind (case d_file d of None \<Rightarrow> Inl NullDeref | Some a \<Rightarrow> Inr a) (\<lambda>a.
       rbind (deref s a) (\<lambda>f.
       if d_flag d AND UFS_READ_ONLY \<noteq> 0 then Inr (-1, s\<lparr>ufs_errno := UFS_ERR_NO_PERMISSION\<rparr>)
       else if (d_pos d + length buf) mod 2 ^ 64 > MAX_FILE_SIZE
       then Inr (-1, s\<lparr>ufs_errno := UFS_ERR_NO_MEM\<rparr>)
       else
         rbind (walk (d_pos d div BLOCK_SIZE) (block_list f)) (\<lambda>ptr.
         let (rest, pos) = write_loop (d_pos d) buf ptr;
             bs = take (d_pos d div BLOCK_SIZE) (block_list f) @ rest
         in Inr (int (length buf),
              set_fd (nat fd) (d\<lparr>d_pos := pos\<rparr>) (set_file a (f\<lparr>block_list := bs\<rparr>) s)))))))"

text \<open>
  The copy loop of \<open>ufs_read\<close>: \<open>sz\<close> counts what is still wanted. The subtraction
  \<open>occupied - pos % BLOCK_SIZE\<close> wraps around as \<open>size_t\<close>, and copying more than the block holds
  leaves its memory.
\<close>

fun read_loop :: "nat \<Rightarrow> nat \<Rightarrow> block list \<Rightarrow> (char list \<times> nat) cres" where
  "read_loop pos sz [] = Inr ([], pos)"
| "read_loop pos sz (ptr # rest) =
     (if sz = 0 then Inr ([], pos)
      else let temp = min ((occupied ptr + 2 ^ 64 - pos mod BLOCK_SIZE) mod 2 ^ 64) sz
           in if temp = 0 then Inr ([], pos)
              else if pos mod BLOCK_SIZE + temp > BLOCK_SIZE then Inl OutOfBounds
              else rbind (read_loop (pos + temp) (sz - temp) rest) (\<lambda>(out, pos').
                   Inr (take temp (drop (pos mod BLOCK_SIZE) (memory ptr)) @ out, pos')))"

definition ufs_read :: "int \<Rightarrow> nat \<Rightarrow> ufs \<Rightarrow> (int \<times> char list \<times> ufs) cres" where
  "ufs_read fd sz s =
     rbind (is_valid_file fd s) (\<lambda>invalid.
     if invalid then Inr (-1, [], s\<lparr>ufs_errno := UFS_ERR_NO_FILE\<rparr>)
     else
       rbind (get_fd s (nat fd)) (\<lambda>d.
       rbind (case d_file d of None \<Rightarrow> Inl NullDeref | Some a \<Rightarrow> Inr a) (\<lambda>a.
       rbind (deref s a) (\<lambda>f.
       if d_flag d AND UFS_WRITE_ONLY \<noteq> 0
       then Inr (-1, [], s\<lparr>ufs_errno := UFS_ERR_NO_PERMISSION\<rparr>)
       else
         rbind (walk (d_pos d div BLOCK_SIZE) (block_list f)) (\<lambda>ptr.
         rbind (read_loop (d_pos d) sz ptr) (\<lambda>(out, pos).
         Inr (int (length out), out, set_fd (nat fd) (d\<lparr>d_pos := pos\<rparr>) s)))))))"

definition ufs_close :: "int \<Rightarrow> ufs \<Rightarrow> (int \<times> ufs) cres" where
  "ufs_close fd s =
     rbind (is_valid_file fd s) (\<lambda>invalid.
     if invalid then Inr (-1, s\<lparr>ufs_errno := UFS_ERR_NO_FILE\<rparr>)
     else rbind (filedesc_make_free (nat fd) s) (\<lambda>s. Inr (0, s)))"

text \<open>\<open>ufs_destroy\<close> frees the descriptors only.\<close>

definition ufs_destroy :: "ufs \<Rightarrow> ufs" where
  "ufs_destroy s = s\<lparr>file_descriptors := []\<rparr>"

text \<open>
  The first loop of \<open>ufs_resize\<close> from \<open>ptr\<close> on: the blocks that are kept. The blocks after the
  last of them are freed; when none is kept, \<open>tmp\<close> is null.
\<close>

function resize_loop :: "nat \<Rightarrow> nat \<Rightarrow> block list \<Rightarrow> block list" where
  "resize_loop sz new_size rest =
     (if sz < new_size
      then let ptr = (case rest of [] \<Rightarrow> new_block | b # _ \<Rightarrow> b)
           in if BLOCK_SIZE > new_size - sz then [ptr\<lparr>occupied := new_size - sz\<rparr>]
              else ptr\<lparr>occupied := BLOCK_SIZE\<rparr> # resize_loop (sz + BLOCK_SIZE) new_size (tl rest)
      else [])"
  by pat_completeness auto
termination
  by (relation "measure (\<lambda>(sz, new_size, rest). new_size - sz)") auto

declare resize_loop.simps [simp del]

text \<open>The last loop: the descriptors 0, ..., count - 1 of a file with this name.\<close>

fun clamp_loop :: "ufs \<Rightarrow> string \<Rightarrow> nat \<Rightarrow> nat \<Rightarrow> filedesc option list \<Rightarrow> filedesc option list cres" where
  "clamp_loop s name new_size 0 ds = Inr ds"
| "clamp_loop s name new_size (Suc n) [] = Inl OutOfBounds"
| "clamp_loop s name new_size (Suc n) (None # ds) = Inl UninitRead"
| "clamp_loop s name new_size (Suc n) (Some d # ds) =
     rbind (case d_file d of
              None \<Rightarrow> Inr d
            | Some a \<Rightarrow> rbind (deref s a) (\<lambda>f.
                Inr (if f_name f = name \<and> d_pos d > new_size then d\<lparr>d_pos := new_size\<rparr> else d))) (\<lambda>d.
     rbind (clamp_loop s name new_size n ds) (\<lambda>ds. Inr (Some d # ds)))"

definition ufs_resize :: "int \<Rightarrow> nat \<Rightarrow> ufs \<Rightarrow> (int \<times> ufs) cres" where
  "ufs_resize fd new_size s =
     rbind (is_valid_file fd s) (\<lambda>invalid.
     if invalid then Inr (-1, s\<lparr>ufs_errno := UFS_ERR_NO_FILE\<rparr>)
     else
       rbind (get_fd s (nat fd)) (\<lambda>d.
       if d_flag d AND UFS_READ_ONLY \<noteq> 0 then Inr (-1, s\<lparr>ufs_errno := UFS_ERR_NO_PERMISSION\<rparr>)
       else if new_size > MAX_FILE_SIZE then Inr (-1, s\<lparr>ufs_errno := UFS_ERR_NO_MEM\<rparr>)
       else
         rbind (case d_file d of None \<Rightarrow> Inl NullDeref | Some a \<Rightarrow> Inr a) (\<lambda>a.
         rbind (deref s a) (\<lambda>f.
         let bs = resize_loop 0 new_size (block_list f)
         in if bs = [] then Inl NullDeref
            else let s = set_file a (f\<lparr>block_list := bs\<rparr>) s
                 in rbind (clamp_loop s (f_name f) new_size (nat (file_descriptor_count s))
                             (file_descriptors s)) (\<lambda>ds.
                    Inr (0, s\<lparr>file_descriptors := ds\<rparr>))))))"

section \<open>The bytes of a file\<close>

definition block_content :: "block \<Rightarrow> char list" where
  "block_content b = take (occupied b) (memory b)"

definition content :: "block list \<Rightarrow> char list" where
  "content bs = concat (map block_content bs)"

definition block_ok :: "block \<Rightarrow> bool" where
  "block_ok b \<longleftrightarrow> length (memory b) = BLOCK_SIZE \<and> 0 < occupied b \<and> occupied b \<le> BLOCK_SIZE"

text \<open>Every block but the last is full.\<close>

fun blocks_ok :: "block list \<Rightarrow> bool" where
  "blocks_ok [] \<longleftrightarrow> True"
| "blocks_ok (b # bs) \<longleftrightarrow> block_ok b \<and> (bs \<noteq> [] \<longrightarrow> occupied b = BLOCK_SIZE) \<and> blocks_ok bs"

definition zero_tail :: "block \<Rightarrow> bool" where
  "zero_tail b \<longleftrightarrow> drop (occupied b) (memory b) = replicate (BLOCK_SIZE - occupied b) ch_nul"

lemma content_simps [simp]:
  "content [] = []" "content (b # bs) = block_content b @ content bs"
  "content (as @ bs) = content as @ content bs"
  by (simp_all add: content_def)

lemma length_block_content [simp]: "block_ok b \<Longrightarrow> length (block_content b) = occupied b"
  by (simp add: block_ok_def block_content_def)

lemma new_block_simps [simp]:
  "memory new_block = replicate BLOCK_SIZE ch_nul" "occupied new_block = 0"
  by (simp_all add: new_block_def)

lemma walk_ok:
  "n * BLOCK_SIZE \<le> length (content bs) \<Longrightarrow> blocks_ok bs \<Longrightarrow>
     walk n bs = Inr (drop n bs) \<and> length (content (take n bs)) = n * BLOCK_SIZE \<and>
     content bs = content (take n bs) @ content (drop n bs) \<and> blocks_ok (drop n bs)"
proof (induction n bs rule: walk.induct)
  case (3 n b bs)
  show ?case
  proof (cases "bs = []")
    case True
    with 3 show ?thesis by (cases n) (auto simp: block_ok_def)
  next
    case False
    with 3 have "occupied b = BLOCK_SIZE" "block_ok b" by auto
    with 3 show ?thesis by simp
  qed
qed simp_all

text \<open>Putting blocks behind full ones.\<close>

lemma blocks_ok_append:
  "blocks_ok (as @ bs) \<longleftrightarrow> blocks_ok as \<and> blocks_ok bs \<and> (bs \<noteq> [] \<longrightarrow> (\<forall>a \<in> set as. occupied a = BLOCK_SIZE))"
  by (induction as) auto

lemma take_full:
  "n * BLOCK_SIZE \<le> length (content bs) \<Longrightarrow> blocks_ok bs \<Longrightarrow>
     blocks_ok (take n bs) \<and> (\<forall>b \<in> set (take n bs). occupied b = BLOCK_SIZE)"
proof (induction n bs rule: walk.induct)
  case (3 n b bs)
  then show ?case
    by (cases "bs = []"; cases n) (auto simp: block_ok_def)
qed simp_all

text \<open>One block of the write loop.\<close>

lemma write_block:
  assumes "length (memory b) = BLOCK_SIZE" "off \<le> occupied b" "occupied b \<le> BLOCK_SIZE"
    "off + length xs \<le> BLOCK_SIZE" "0 < length xs"
  defines "b' \<equiv> b\<lparr>memory := mem_write (memory b) off xs, occupied := max (occupied b) (length xs + off)\<rparr>"
  shows "block_ok b'" "block_content b' = mem_write (block_content b) off xs"
    "zero_tail b \<Longrightarrow> zero_tail b'"
proof -
  have "off < BLOCK_SIZE" using assms(4,5) by linarith
  then show "block_ok b'" using assms by (auto simp: block_ok_def b'_def length_mem_write less_max_iff_disj)
  show "block_content b' = mem_write (block_content b) off xs"
    using assms(1-4) \<open>off < BLOCK_SIZE\<close>
    by (auto simp: block_content_def b'_def mem_write_def max_def min_def take_drop add.commute)
  show "zero_tail b'" if "zero_tail b"
  proof -
    have "drop (max (occupied b) (length xs + off)) (mem_write (memory b) off xs) =
        drop (max (occupied b) (length xs + off) - occupied b) (drop (occupied b) (memory b))"
      using assms(1-5) \<open>off < BLOCK_SIZE\<close> by (simp add: drop_mem_write_after)
    with that show ?thesis using assms(1-5) by (simp add: zero_tail_def b'_def)
  qed
qed


lemma mem_write_split:
  assumes "off \<le> length m" "length m \<le> off + length xs" "n = []  \<or> length m = off + length xs"
  shows "mem_write m off xs @ mem_write n 0 ys = mem_write (m @ n) off (xs @ ys)"
  using assms by (auto simp: mem_write_def)

lemma mem_write_inside:
  assumes "off \<le> length m" "n = [] \<or> off + length xs \<le> length m"
  shows "mem_write m off xs @ n = mem_write (m @ n) off xs"
  using assms by (auto simp: mem_write_def)

lemma write_loop_Nil [simp]: "write_loop pos [] rest = (rest, pos)"
  by (simp add: write_loop.simps)

lemma write_head:
  assumes "blocks_ok rest" "off < BLOCK_SIZE" "off \<le> length (content rest)"
    and b: "b = (case rest of [] \<Rightarrow> new_block | b # _ \<Rightarrow> b)"
  shows "length (memory b) = BLOCK_SIZE" "off \<le> occupied b" "occupied b \<le> BLOCK_SIZE"
    "content rest = block_content b @ content (tl rest)" "length (block_content b) = occupied b"
    "tl rest = [] \<or> occupied b = BLOCK_SIZE" "blocks_ok (tl rest)"
proof -
  have "off \<le> occupied b \<and> (tl rest = [] \<or> occupied b = BLOCK_SIZE) \<and> blocks_ok (tl rest) \<and>
      content rest = block_content b @ content (tl rest) \<and> length (memory b) = BLOCK_SIZE \<and>
      occupied b \<le> BLOCK_SIZE"
  proof (cases rest)
    case Nil
    with assms show ?thesis by (simp add: block_content_def)
  next
    case (Cons c cs)
    with assms show ?thesis by (cases "cs = []") (auto simp: block_ok_def block_content_def)
  qed
  then show "length (memory b) = BLOCK_SIZE" "off \<le> occupied b" "occupied b \<le> BLOCK_SIZE"
    "content rest = block_content b @ content (tl rest)" "length (block_content b) = occupied b"
    "tl rest = [] \<or> occupied b = BLOCK_SIZE" "blocks_ok (tl rest)"
    by (simp_all add: block_content_def)
qed

lemma write_loop_ok:
  "blocks_ok rest \<Longrightarrow> pos mod BLOCK_SIZE \<le> length (content rest) \<Longrightarrow>
   write_loop pos buf rest = (rest', pos') \<Longrightarrow>
     pos' = pos + length buf \<and> blocks_ok rest' \<and>
     content rest' = mem_write (content rest) (pos mod BLOCK_SIZE) buf \<and>
     ((\<forall>b \<in> set rest. zero_tail b) \<longrightarrow> (\<forall>b \<in> set rest'. zero_tail b))"
proof (induction "length buf" arbitrary: pos buf rest rest' pos' rule: less_induct)
  case less
  show ?case
  proof (cases "buf = []")
    case True
    with less.prems show ?thesis by auto
  next
    case False
    define b where "b = (case rest of [] \<Rightarrow> new_block | b # _ \<Rightarrow> b)"
    define off where "off = pos mod BLOCK_SIZE"
    define temp where "temp = min (BLOCK_SIZE - off) (length buf)"
    let ?b = "b\<lparr>memory := mem_write (memory b) off (take temp buf), occupied := max (occupied b) (temp + off)\<rparr>"
    obtain r p where rec: "write_loop (pos + temp) (drop temp buf) (tl rest) = (r, p)"
      by (cases "write_loop (pos + temp) (drop temp buf) (tl rest)")
    have res: "rest' = ?b # r" "pos' = p"
      using less.prems(3) False rec by (auto simp: write_loop.simps [of pos] b_def off_def temp_def Let_def)
    have off: "off < BLOCK_SIZE" "off \<le> length (content rest)" using less.prems(2) by (simp_all add: off_def)
    note b = write_head [OF less.prems(1) off b_def]
    have temp: "0 < temp" "temp \<le> length buf" "off + temp \<le> BLOCK_SIZE"
      "temp < length buf \<Longrightarrow> off + temp = BLOCK_SIZE"
      using False off by (auto simp: temp_def)
    have lt: "length (take temp buf) = temp" using temp(2) by simp
    note blk = write_block [of b off "take temp buf", OF b(1,2,3), unfolded lt, OF temp(3,1)]
    have zb: "(\<forall>b \<in> set rest. zero_tail b) \<Longrightarrow> zero_tail b"
      by (cases rest) (auto simp: b_def zero_tail_def)
    have zt: "set (tl rest) \<subseteq> set rest" by (cases rest) auto
    show ?thesis
    proof (cases "temp = length buf")
      case True
      have "r = tl rest" "p = pos + length buf" using rec True by simp_all
      moreover have "tl rest \<noteq> [] \<Longrightarrow> max (occupied b) (temp + off) = BLOCK_SIZE"
        using b(6) temp(3) by (simp add: max_def)
      moreover have "mem_write (block_content b) off buf @ content (tl rest) = mem_write (content rest) off buf"
        unfolding b(4) using b(2,5,6) temp(3) True by (intro mem_write_inside) auto
      ultimately show ?thesis
        using res blk zb zt b(7) True by (simp add: off_def [symmetric] subset_iff)
    next
      case False
      then have t: "off + temp = BLOCK_SIZE" using temp by simp
      then have m: "(pos + temp) mod BLOCK_SIZE = 0" using off_def by (metis mod_add_left_eq mod_self)
      have "length (drop temp buf) < length buf" using temp by simp
      from less.hyps [OF this b(7) _ rec] m
      have r: "p = pos + length buf" "blocks_ok r" "content r = mem_write (content (tl rest)) 0 (drop temp buf)"
        "(\<forall>b \<in> set (tl rest). zero_tail b) \<Longrightarrow> (\<forall>b \<in> set r. zero_tail b)"
        using temp by simp_all
      have "block_content ?b @ content r = mem_write (content rest) off (take temp buf @ drop temp buf)"
        unfolding blk(2) r(3) b(4) using b(2,3,5,6) temp(2) t by (intro mem_write_split) auto
      moreover have "max (occupied b) (temp + off) = BLOCK_SIZE" using t b(3) by simp
      ultimately show ?thesis
        using res blk(1,3) zb zt r by (simp add: off_def [symmetric] subset_iff)
    qed
  qed
qed

lemma read_loop_0 [simp]: "read_loop pos 0 bs = Inr ([], pos)"
  by (cases bs) simp_all

lemma read_loop_ok:
  "blocks_ok bs \<Longrightarrow> pos mod BLOCK_SIZE \<le> length (content bs) \<Longrightarrow>
     read_loop pos sz bs = (let out = take sz (drop (pos mod BLOCK_SIZE) (content bs))
       in Inr (out, pos + length out))"
proof (induction bs arbitrary: pos sz)
  case (Cons b bs)
  define off where "off = pos mod BLOCK_SIZE"
  have off: "off < BLOCK_SIZE" by (simp add: off_def)
  have b: "block_ok b" "bs = [] \<or> occupied b = BLOCK_SIZE" "blocks_ok bs" using Cons.prems by auto
  have le: "off \<le> occupied b" using Cons.prems b off by (auto simp: off_def [symmetric])
  have len: "occupied b \<le> BLOCK_SIZE" "length (memory b) = BLOCK_SIZE" using b by (auto simp: block_ok_def)
  define temp where "temp = min (occupied b - off) sz"
  have sub: "(occupied b + 2 ^ 64 - off) mod 2 ^ 64 = occupied b - off"
    using le len by (simp add: mod_if)
  have piece: "take temp (drop off (memory b)) = take sz (drop off (block_content b))"
    using le len by (auto simp: temp_def block_content_def drop_take min_def)
  consider "sz = 0" | "0 < sz" "temp = 0" | "0 < temp" "temp = sz" | "0 < temp" "temp < sz" "temp = occupied b - off"
    unfolding temp_def by linarith
  then show ?case
  proof cases
    case 2
    then have "off = occupied b" using le by (auto simp: temp_def)
    then show ?thesis using 2 b off sub by (auto simp: off_def [symmetric])
  next
    case 3
    then have "off + sz \<le> BLOCK_SIZE" "sz \<le> occupied b - off" using le len by (auto simp: temp_def)
    with 3 sub piece b le show ?thesis by (simp add: off_def [symmetric] temp_def [symmetric])
  next
    case 4
    have mod: "(pos + temp) mod BLOCK_SIZE = 0" if "occupied b = BLOCK_SIZE"
      using 4(3) that off le off_def by (metis le_add_diff_inverse mod_add_left_eq mod_self)
    have rec: "read_loop (pos + temp) (sz - temp) bs =
        Inr (take (sz - temp) (content bs), pos + temp + length (take (sz - temp) (content bs)))"
      using b(2,3) mod Cons.IH [of "pos + temp" "sz - temp"] by (cases "bs = []") (auto simp: Let_def)
    have "take sz (drop off (block_content b)) = drop off (block_content b)"
      "length (drop off (block_content b)) = temp" using 4 b(1) by simp_all
    with 4 sub piece rec le len b show ?thesis
      by (simp add: off_def [symmetric] temp_def [symmetric] Let_def add.assoc)
  qed simp
qed simp

definition raw :: "block list \<Rightarrow> char list" where
  "raw bs = concat (map memory bs)"

lemma raw_simps [simp]: "raw [] = []" "raw (b # bs) = memory b @ raw bs"
  by (simp_all add: raw_def)

lemma resize_loop_content:
  "\<forall>b \<in> set rest. length (memory b) = BLOCK_SIZE \<Longrightarrow>
     content (resize_loop sz new_size rest) = take (new_size - sz) (raw rest @ replicate (new_size - sz) ch_nul) \<and>
     blocks_ok (resize_loop sz new_size rest)"
proof (induction sz new_size rest rule: resize_loop.induct)
  case (1 sz new_size rest)
  show ?case
  proof (cases "sz < new_size")
    case False
    then show ?thesis by (simp add: resize_loop.simps)
  next
    case True
    define b where "b = (case rest of [] \<Rightarrow> new_block | b # _ \<Rightarrow> b)"
    have b: "length (memory b) = BLOCK_SIZE" using 1(2) by (cases rest) (simp_all add: b_def)
    have raw: "take k (raw rest @ replicate n ch_nul) = take k (memory b @ raw (tl rest) @ replicate (n - BLOCK_SIZE) ch_nul)"
      if "k \<le> n" for k n
      using that b by (cases rest) (auto simp: b_def min_def replicate_add [symmetric])
    show ?thesis
    proof (cases "BLOCK_SIZE > new_size - sz")
      case small: True
      then show ?thesis using True b raw [of "new_size - sz" "new_size - sz"]
        by (simp add: resize_loop.simps [of sz] b_def [symmetric] Let_def block_content_def block_ok_def)
    next
      case False
      have "\<forall>b \<in> set (tl rest). length (memory b) = BLOCK_SIZE" using 1(2) by (cases rest) auto
      from "1.IH" [OF True refl False this]
      show ?thesis using True False b raw [of "new_size - sz" "new_size - sz"]
        by (simp add: resize_loop.simps [of sz] b_def [symmetric] Let_def block_content_def block_ok_def)
    qed
  qed
qed

lemma raw_content:
  "blocks_ok bs \<Longrightarrow> raw bs = content bs @ (if bs = [] then [] else drop (occupied (last bs)) (memory (last bs)))"
  by (induction bs) (auto simp: block_content_def block_ok_def)

end
