(* ===== verification/UserFS_Refine.thy ===== *)
theory UserFS_Refine
  imports UserFS "HOL-Library.Multiset"
begin

text \<open>
  The invariant of the file system state (reference counts, the number of open descriptors, full
  blocks, positions inside the files, unique names), the abstract file system and the lemmas that
  every call keeps the invariant and implements the abstract call.
\<close>

unbundle bit_operations_syntax

section \<open>The invariant\<close>

definition slot_file :: "filedesc option \<Rightarrow> nat option" where
  "slot_file d = (case d of None \<Rightarrow> None | Some d \<Rightarrow> d_file d)"

definition slot_free :: "filedesc option \<Rightarrow> bool" where
  "slot_free d = (case d of None \<Rightarrow> False | Some d \<Rightarrow> is_free d)"

lemma slot_simps [simp]: "slot_file (Some d) = d_file d" "slot_free (Some d) = is_free d"
  by (simp_all add: slot_file_def slot_free_def)

text \<open>
  The references to a file: the descriptors that point to it and those in \<open>X\<close>, which the running
  function holds in its local variables.
\<close>

definition open_refs :: "nat multiset \<Rightarrow> filedesc option list \<Rightarrow> nat \<Rightarrow> int" where
  "open_refs X ds a = int (count (mset (map slot_file ds)) (Some a) + count X a)"

definition file_ok :: "ufile \<Rightarrow> bool" where
  "file_ok f \<longleftrightarrow> blocks_ok (block_list f) \<and> length (content (block_list f)) \<le> MAX_FILE_SIZE"

definition desc_ok :: "(nat \<Rightarrow> ufile option) \<Rightarrow> filedesc \<Rightarrow> bool" where
  "desc_ok h d \<longleftrightarrow> (is_free d \<longrightarrow> d_file d = None) \<and>
     (\<forall>a. d_file d = Some a \<longrightarrow> (\<exists>f. h a = Some f \<and> d_pos d \<le> length (content (block_list f))))"

definition live :: "(nat \<Rightarrow> ufile option) \<Rightarrow> string \<Rightarrow> nat \<Rightarrow> bool" where
  "live h name a \<longleftrightarrow> (case h a of None \<Rightarrow> False | Some f \<Rightarrow> \<not> f_delete f \<and> f_name f = name)"

definition ufs_inv :: "nat multiset \<Rightarrow> ufs \<Rightarrow> bool" where
  "ufs_inv X s \<longleftrightarrow>
     distinct (file_list s) \<and> set (file_list s) = dom (heap s) \<and>
     (\<forall>a \<in> dom (heap s). a < next_addr s) \<and>
     (\<forall>a f. heap s a = Some f \<longrightarrow>
        file_ok f \<and> refs f = open_refs X (file_descriptors s) a \<and>
        (f_delete f \<longrightarrow> 0 < open_refs X (file_descriptors s) a)) \<and>
     set_mset X \<subseteq> dom (heap s) \<and>
     (\<forall>d \<in> set (file_descriptors s). \<exists>d'. d = Some d' \<and> desc_ok (heap s) d') \<and>
     file_descriptor_count s = int (count (mset (map slot_free (file_descriptors s))) False) \<and>
     (\<forall>a b name. live (heap s) name a \<longrightarrow> live (heap s) name b \<longrightarrow> a = b)"

abbreviation ufs_ok :: "ufs \<Rightarrow> bool" where
  "ufs_ok s \<equiv> ufs_inv {#} s"

lemma ufs_invD:
  assumes "ufs_inv X s"
  shows "distinct (file_list s)" "set (file_list s) = dom (heap s)"
    "heap s a = Some f \<Longrightarrow> a < next_addr s"
    "heap s a = Some f \<Longrightarrow> file_ok f"
    "heap s a = Some f \<Longrightarrow> refs f = open_refs X (file_descriptors s) a"
    "heap s a = Some f \<Longrightarrow> f_delete f \<Longrightarrow> 0 < open_refs X (file_descriptors s) a"
    "a \<in># X \<Longrightarrow> a \<in> dom (heap s)"
    "i < length (file_descriptors s) \<Longrightarrow> \<exists>d. file_descriptors s ! i = Some d \<and> desc_ok (heap s) d"
    "file_descriptor_count s = int (count (mset (map slot_free (file_descriptors s))) False)"
    "live (heap s) name a \<Longrightarrow> live (heap s) name b \<Longrightarrow> a = b"
  using assms nth_mem [of i "file_descriptors s"]
  by (auto simp: ufs_inv_def dom_def)

lemma deref_ok: "heap s a = Some f \<Longrightarrow> deref s a = Inr f"
  by (simp add: deref_def)

lemma find_in_ok:
  "set as \<subseteq> dom (heap s) \<Longrightarrow> find_in s name as = Inr (find (live (heap s) name) as)"
  by (induction as) (auto simp: deref_ok live_def)

lemma set_fd_simps [simp]:
  "heap (set_fd i d s) = heap s" "next_addr (set_fd i d s) = next_addr s"
  "file_list (set_fd i d s) = file_list s" "file_descriptor_count (set_fd i d s) = file_descriptor_count s"
  "ufs_errno (set_fd i d s) = ufs_errno s"
  "file_descriptors (set_fd i d s) = (file_descriptors s)[i := Some d]"
  by (simp_all add: set_fd_def)

lemma set_file_simps [simp]:
  "heap (set_file a f s) = (heap s)(a \<mapsto> f)" "next_addr (set_file a f s) = next_addr s"
  "file_list (set_file a f s) = file_list s" "file_descriptor_count (set_file a f s) = file_descriptor_count s"
  "ufs_errno (set_file a f s) = ufs_errno s"
  "file_descriptors (set_file a f s) = file_descriptors s"
  by (simp_all add: set_file_def)

text \<open>Storing a file under its address: what the invariant asks of the new file.\<close>

lemma set_file_inv:
  assumes inv: "ufs_inv X s" and a: "heap s a = Some f"
    and f': "file_ok f'" "refs f' = open_refs X' (file_descriptors s) a" "f_delete f' \<longrightarrow> 0 < open_refs X' (file_descriptors s) a"
      "f_delete f' \<or> (\<not> f_delete f \<and> f_name f' = f_name f)"
    and X: "\<forall>b. b \<noteq> a \<longrightarrow> count X' b = count X b"
    and pos: "\<forall>d. Some d \<in> set (file_descriptors s) \<longrightarrow> d_file d = Some a \<longrightarrow>
      d_pos d \<le> length (content (block_list f'))"
  shows "ufs_inv X' (set_file a f' s)"
proof -
  note D = ufs_invD [OF inv]
  have r: "open_refs X' (file_descriptors s) b = open_refs X (file_descriptors s) b" if "b \<noteq> a" for b
    using X that by (simp add: open_refs_def)
  have l: "live ((heap s)(a \<mapsto> f')) name b \<Longrightarrow> live (heap s) name b" for name b
    using f'(4) a by (auto simp: live_def split: if_splits)
  show ?thesis
    unfolding ufs_inv_def set_file_simps
  proof (intro conjI)
    show "distinct (file_list s)" by (rule D(1))
    show "set (file_list s) = dom ((heap s)(a \<mapsto> f'))" using D(2) a by auto
    show "\<forall>b \<in> dom ((heap s)(a \<mapsto> f')). b < next_addr s" using D(3) a by (auto split: if_splits)
    show "\<forall>b g. ((heap s)(a \<mapsto> f')) b = Some g \<longrightarrow>
        file_ok g \<and> refs g = open_refs X' (file_descriptors s) b \<and>
        (f_delete g \<longrightarrow> 0 < open_refs X' (file_descriptors s) b)"
      using f'(1-3) D(4-6) r by simp
    show "set_mset X' \<subseteq> dom ((heap s)(a \<mapsto> f'))"
    proof
      fix b assume "b \<in># X'"
      then have "b \<noteq> a \<Longrightarrow> b \<in># X" using X by (metis count_greater_zero_iff)
      then show "b \<in> dom ((heap s)(a \<mapsto> f'))" using D(7) [of b] by (cases "b = a") auto
    qed
    show "\<forall>d \<in> set (file_descriptors s). \<exists>d'. d = Some d' \<and> desc_ok ((heap s)(a \<mapsto> f')) d'"
      using inv pos by (fastforce simp: ufs_inv_def desc_ok_def)
    show "file_descriptor_count s = int (count (mset (map slot_free (file_descriptors s))) False)"
      by (rule D(9))
    show "\<forall>b c name. live ((heap s)(a \<mapsto> f')) name b \<longrightarrow> live ((heap s)(a \<mapsto> f')) name c \<longrightarrow> b = c"
      using l D(10) by blast
  qed
qed

text \<open>Storing a descriptor: the references of the old one and of \<open>X\<close> are those of the new ones.\<close>

definition opt_mset :: "nat option \<Rightarrow> nat multiset" where
  "opt_mset x = (case x of None \<Rightarrow> {#} | Some a \<Rightarrow> {#a#})"

lemma count_update:
  "i < length ds \<Longrightarrow> int (count (mset ((map g ds)[i := v])) x) =
     int (count (mset (map g ds)) x) - of_bool (g (ds ! i) = x) + of_bool (v = x)"
proof -
  assume i: "i < length ds"
  then have "g (ds ! i) \<in># mset (map g ds)" by auto
  then have "0 < count (mset (map g ds)) (g (ds ! i))" by simp
  then show ?thesis using i by (auto simp: mset_update)
qed

lemma open_refs_update:
  assumes "i < length ds" "ds ! i = Some d" "opt_mset (d_file d) + X = opt_mset (d_file d') + X'"
  shows "open_refs X' (ds[i := Some d']) a = open_refs X ds a"
proof -
  have "count (opt_mset (d_file d) + X) a = count (opt_mset (d_file d') + X') a" using assms(3) by simp
  then show ?thesis
    using assms(1,2) count_update [of i ds slot_file "d_file d'" "Some a"]
    by (auto simp: open_refs_def map_update opt_mset_def split: option.splits if_splits)
qed

lemma set_fd_inv:
  assumes inv: "ufs_inv X s" and i: "i < length (file_descriptors s)" "file_descriptors s ! i = Some d"
    and d': "desc_ok (heap s) d'" and X: "opt_mset (d_file d) + X = opt_mset (d_file d') + X'"
    and c: "c = file_descriptor_count s + of_bool (is_free d) - of_bool (is_free d')"
  shows "ufs_inv X' (set_fd i d' (s\<lparr>file_descriptor_count := c\<rparr>))"
proof -
  have "set_mset X' \<subseteq> dom (heap s)"
  proof
    fix b assume "b \<in># X'"
    then have "b \<in># opt_mset (d_file d) + X" using X by simp
    then show "b \<in> dom (heap s)"
      using ufs_invD(7) [OF inv, of b] ufs_invD(8) [OF inv i(1)] i(2)
      by (auto simp: opt_mset_def desc_ok_def split: option.splits)
  qed
  moreover have "c = int (count (mset (map slot_free ((file_descriptors s)[i := Some d']))) False)"
    using c ufs_invD(9) [OF inv] i count_update [of i "file_descriptors s" slot_free "is_free d'" False]
    by (simp add: map_update)
  moreover have "\<forall>e \<in> set ((file_descriptors s)[i := Some d']). \<exists>e'. e = Some e' \<and> desc_ok (heap s) e'"
    using inv d' set_update_subset_insert [of "file_descriptors s" i "Some d'"] 
    by (auto simp: ufs_inv_def)
  ultimately show ?thesis
    using inv open_refs_update [OF i X] by (simp add: ufs_inv_def)
qed

section \<open>The abstract file system\<close>

text \<open>
  What the calls promise: bytes under addresses, a directory of names, and open descriptors with
  an address, a position and flags. A file lives as long as a name or a descriptor leads to it.
\<close>

record afs =
  a_files :: "nat \<Rightarrow> char list option"
  a_names :: "string \<Rightarrow> nat option"
  a_fds :: "nat \<Rightarrow> (nat \<times> nat \<times> i32) option"

definition gc :: "afs \<Rightarrow> afs" where
  "gc A = A\<lparr>a_files := a_files A |` (ran (a_names A) \<union> fst ` ran (a_fds A))\<rparr>"

definition slot_view :: "filedesc option \<Rightarrow> (nat \<times> nat \<times> i32) option" where
  "slot_view d = (case d of None \<Rightarrow> None | Some d \<Rightarrow> map_option (\<lambda>a. (a, d_pos d, d_flag d)) (d_file d))"

definition view_fds :: "filedesc option list \<Rightarrow> nat \<Rightarrow> (nat \<times> nat \<times> i32) option" where
  "view_fds ds = (\<lambda>i. if i < length ds then slot_view (ds ! i) else None)"

definition abs_ufs :: "ufs \<Rightarrow> afs" where
  "abs_ufs s = \<lparr>a_files = (\<lambda>a. map_option (\<lambda>f. content (block_list f)) (heap s a)),
     a_names = (\<lambda>name. find (live (heap s) name) (file_list s)),
     a_fds = view_fds (file_descriptors s)\<rparr>"

lemma slot_view_Some [simp]: "slot_view (Some d) = map_option (\<lambda>a. (a, d_pos d, d_flag d)) (d_file d)"
  by (simp add: slot_view_def)

lemma view_fds_update:
  "i < length ds \<Longrightarrow> view_fds (ds[i := d]) = (view_fds ds)(i := slot_view d)"
  by (auto simp: view_fds_def fun_eq_iff)

lemma live_heap: "live h name a \<Longrightarrow> \<exists>f. h a = Some f"
  by (auto simp: live_def split: option.splits)

lemma names_iff:
  assumes "ufs_inv X s"
  shows "find (live (heap s) name) (file_list s) = Some a \<longleftrightarrow> live (heap s) name a"
proof
  assume "find (live (heap s) name) (file_list s) = Some a"
  then show "live (heap s) name a" by (auto simp: find_Some_iff)
next
  assume l: "live (heap s) name a"
  then have "a \<in> set (file_list s)" using live_heap ufs_invD(2) [OF assms] by blast
  then obtain b where b: "find (live (heap s) name) (file_list s) = Some b"
    using l by (metis find_None_iff option.exhaust)
  then have "live (heap s) name b" by (auto simp: find_Some_iff)
  with b l show "find (live (heap s) name) (file_list s) = Some a" using ufs_invD(10) [OF assms] by metis
qed

text \<open>Every file that is not freed has a name or an open descriptor.\<close>

lemma heap_reachable:
  assumes inv: "ufs_ok s"
  shows "dom (heap s) = ran (a_names (abs_ufs s)) \<union> fst ` ran (a_fds (abs_ufs s))"
proof (intro set_eqI iffI)
  fix a assume "a \<in> dom (heap s)"
  then obtain f where f: "heap s a = Some f" by auto
  show "a \<in> ran (a_names (abs_ufs s)) \<union> fst ` ran (a_fds (abs_ufs s))"
  proof (cases "f_delete f")
    case False
    then have "a_names (abs_ufs s) (f_name f) = Some a"
      using f names_iff [OF inv] by (simp add: abs_ufs_def live_def)
    then show ?thesis by (auto simp: ran_def)
  next
    case True
    then have "Some a \<in># mset (map slot_file (file_descriptors s))"
      using ufs_invD(6) [OF inv f] by (simp add: open_refs_def count_greater_zero_iff del: mset_map)
    then obtain i where i: "i < length (file_descriptors s)" "slot_file (file_descriptors s ! i) = Some a"
      by (auto simp: in_set_conv_nth)
    obtain d where d: "file_descriptors s ! i = Some d" using ufs_invD(8) [OF inv i(1)] by blast
    then have "a_fds (abs_ufs s) i = Some (a, d_pos d, d_flag d)" using i by (simp add: abs_ufs_def view_fds_def)
    then show ?thesis by (force simp: ran_def)
  qed
next
  fix a assume "a \<in> ran (a_names (abs_ufs s)) \<union> fst ` ran (a_fds (abs_ufs s))"
  then show "a \<in> dom (heap s)"
  proof
    assume "a \<in> ran (a_names (abs_ufs s))"
    then show ?thesis using names_iff [OF inv] live_heap by (auto simp: abs_ufs_def ran_def)
  next
    assume "a \<in> fst ` ran (a_fds (abs_ufs s))"
    then obtain i p fl where "a_fds (abs_ufs s) i = Some (a, p, fl)" by (force simp: ran_def)
    then show ?thesis using ufs_invD(8) [OF inv, of i]
      by (auto simp: abs_ufs_def view_fds_def desc_ok_def split: if_splits)
  qed
qed

lemma abs_gc:
  assumes "ufs_ok s" "a_names A = a_names (abs_ufs s)" "a_fds A = a_fds (abs_ufs s)"
    and "\<forall>a f. heap s a = Some f \<longrightarrow> a_files A a = Some (content (block_list f))"
  shows "abs_ufs s = gc A"
proof -
  have "a_files (abs_ufs s) a = (a_files A |` dom (heap s)) a" for a
    using assms(4) by (cases "heap s a") (auto simp: abs_ufs_def restrict_map_def)
  then have "a_files (abs_ufs s) = a_files (gc A)"
    unfolding heap_reachable [OF assms(1)] gc_def by (simp add: assms(2,3) fun_eq_iff)
  then show ?thesis using assms(2,3) by (simp add: gc_def)
qed

section \<open>The helper functions\<close>

text \<open>What a function keeps when it changes reference counts and frees files only.\<close>

definition keeps :: "ufs \<Rightarrow> ufs \<Rightarrow> bool" where
  "keeps s s' \<longleftrightarrow> file_descriptors s' = file_descriptors s \<and>
     (\<forall>a g. heap s' a = Some g \<longrightarrow> (\<exists>f. heap s a = Some f \<and> block_list g = block_list f)) \<and>
     next_addr s' = next_addr s"

lemma find_file_none:
  assumes "ufs_inv X s" "find (live (heap s) name) (file_list s) = None"
  shows "find_file name s = Inr (None, s)"
  using assms ufs_invD(2) [OF assms(1)] by (simp add: find_file_def find_in_ok)

lemma find_file_some:
  assumes inv: "ufs_inv X s" and a: "find (live (heap s) name) (file_list s) = Some a"
  obtains f where "heap s a = Some f" "\<not> f_delete f" "f_name f = name"
    "find_file name s = Inr (Some a, set_file a (f\<lparr>refs := refs f + 1\<rparr>) s)"
    "ufs_inv (add_mset a X) (set_file a (f\<lparr>refs := refs f + 1\<rparr>) s)"
proof -
  from a names_iff [OF inv] obtain f where f: "heap s a = Some f" "\<not> f_delete f" "f_name f = name"
    by (auto simp: live_def split: option.splits)
  note D = ufs_invD [OF inv]
  have pos: "\<forall>d. Some d \<in> set (file_descriptors s) \<longrightarrow> d_file d = Some a \<longrightarrow>
      d_pos d \<le> length (content (block_list f))"
    using inv f(1) by (fastforce simp: ufs_inv_def desc_ok_def)
  have "ufs_inv (add_mset a X) (set_file a (f\<lparr>refs := refs f + 1\<rparr>) s)"
    using f D(4) [OF f(1)] D(5) [OF f(1)] pos
    by (intro set_file_inv [OF inv f(1)]) (auto simp: file_ok_def open_refs_def)
  then show ?thesis using that f a D(2) by (simp add: find_file_def find_in_ok deref_ok)
qed

lemma open_refs_add_other: "b \<noteq> a \<Longrightarrow> open_refs (add_mset a X) ds b = open_refs X ds b"
  by (simp add: open_refs_def)

lemma close_file_ok:
  assumes inv: "ufs_inv (add_mset a X) s"
  obtains s' where "close_file a s = Inr s'" "ufs_inv X s'" "keeps s s'"
    "live (heap s') = live (heap s)" "file_descriptor_count s' = file_descriptor_count s"
    "ufs_errno s' = ufs_errno s"
proof -
  note D = ufs_invD [OF inv]
  obtain f where f: "heap s a = Some f" using D(7) [of a] by auto
  have pos: "\<forall>d. Some d \<in> set (file_descriptors s) \<longrightarrow> d_file d = Some a \<longrightarrow>
      d_pos d \<le> length (content (block_list f))"
    using inv f(1) by (fastforce simp: ufs_inv_def desc_ok_def)
  have r: "refs f - 1 = open_refs X (file_descriptors s) a"
    using D(5) [OF f] by (simp add: open_refs_def)
  show ?thesis
  proof (cases "refs f - 1 = 0 \<and> f_delete f")
    case False
    have "0 \<le> open_refs X (file_descriptors s) a" by (simp add: open_refs_def)
    with False r have "f_delete f \<Longrightarrow> 0 < open_refs X (file_descriptors s) a" by linarith
    then have "ufs_inv X (set_file a (f\<lparr>refs := refs f - 1\<rparr>) s)"
      using D(4) [OF f] r pos by (intro set_file_inv [OF inv f]) (auto simp: file_ok_def)
    moreover have "close_file a s = Inr (set_file a (f\<lparr>refs := refs f - 1\<rparr>) s)"
      using False f by (auto simp: close_file_def deref_ok)
    moreover have "live (heap (set_file a (f\<lparr>refs := refs f - 1\<rparr>) s)) = live (heap s)"
      using f by (auto simp: live_def fun_eq_iff)
    ultimately show ?thesis using that f by (auto simp: keeps_def)
  next
    case True
    define s' where "s' = s\<lparr>heap := (heap s)(a := None), file_list := removeAll a (file_list s)\<rparr>"
    have l: "live (heap s') = live (heap s)" using f True by (auto simp: live_def fun_eq_iff s'_def)
    have c0: "count (mset (map slot_file (file_descriptors s))) (Some a) = 0" "count X a = 0"
      using r True unfolding open_refs_def by linarith+
    have no: "a \<notin># X" "Some a \<notin> slot_file ` set (file_descriptors s)"
      using c0 unfolding count_eq_zero_iff by simp_all
    have "ufs_inv X s'"
      unfolding ufs_inv_def
    proof (intro conjI)
      show "distinct (file_list s')" "set (file_list s') = dom (heap s')" "\<forall>b \<in> dom (heap s'). b < next_addr s'"
        using D(1-3) by (auto simp: s'_def distinct_removeAll)
      show "\<forall>b g. heap s' b = Some g \<longrightarrow> file_ok g \<and> refs g = open_refs X (file_descriptors s') b \<and>
          (f_delete g \<longrightarrow> 0 < open_refs X (file_descriptors s') b)"
        using D(4-6) by (auto simp: s'_def open_refs_add_other dest: D(6) split: if_splits)
      show "set_mset X \<subseteq> dom (heap s')" using D(7) no(1) by (fastforce simp: s'_def)
      show "\<forall>d \<in> set (file_descriptors s'). \<exists>d'. d = Some d' \<and> desc_ok (heap s') d'"
      proof
        fix d assume d: "d \<in> set (file_descriptors s')"
        then obtain d' where d': "d = Some d'" "desc_ok (heap s) d'"
          using inv by (auto simp: ufs_inv_def s'_def)
        then have "d_file d' \<noteq> Some a" using no(2) d by (force simp: s'_def)
        with d' show "\<exists>d'. d = Some d' \<and> desc_ok (heap s') d'" by (auto simp: desc_ok_def s'_def)
      qed
      show "file_descriptor_count s' = int (count (mset (map slot_free (file_descriptors s'))) False)"
        using D(9) by (simp add: s'_def)
      show "\<forall>b c name. live (heap s') name b \<longrightarrow> live (heap s') name c \<longrightarrow> b = c"
        unfolding l using D(10) by blast
    qed
    moreover have "close_file a s = Inr s'" using True f by (simp add: close_file_def deref_ok s'_def)
    ultimately show ?thesis using that l by (auto simp: keeps_def s'_def split: if_splits)
  qed
qed

lemma create_file_ok:
  assumes inv: "ufs_inv X s" and n: "\<forall>a. \<not> live (heap s) name a"
    and c: "create_file name s = (a, s')"
  shows "a = next_addr s" "ufs_inv (add_mset a X) s'"
    "heap s' = (heap s)(a \<mapsto> \<lparr>block_list = [], refs = 1, f_name = name, f_delete = False\<rparr>)"
    "file_descriptors s' = file_descriptors s"
    "file_descriptor_count s' = file_descriptor_count s"
proof -
  let ?f = "\<lparr>block_list = [], refs = 1, f_name = name, f_delete = False\<rparr>"
  note D = ufs_invD [OF inv]
  show a: "a = next_addr s" and h: "heap s' = (heap s)(a \<mapsto> ?f)"
    and fd: "file_descriptors s' = file_descriptors s" "file_descriptor_count s' = file_descriptor_count s"
    using c by (auto simp: create_file_def Let_def)
  have fresh: "heap s a = None" using D(3) [of a] a by (cases "heap s a") auto
  have x0: "count X a = 0" using D(7) [of a] fresh unfolding count_eq_zero_iff by auto
  have no: "slot_file d \<noteq> Some a" if "d \<in> set (file_descriptors s)" for d
    using that inv fresh by (fastforce simp: ufs_inv_def desc_ok_def)
  have c0: "count (mset (map slot_file (file_descriptors s))) (Some a) = 0"
    unfolding count_eq_zero_iff using no by force
  have r: "open_refs (add_mset a X) (file_descriptors s) a = 1"
    unfolding open_refs_def by (simp only: c0 x0 count_add_mset) simp
  have l: "live (heap s') m b \<longleftrightarrow> (if b = a then m = name else live (heap s) m b)" for m b
    by (auto simp: h live_def)
  show "ufs_inv (add_mset a X) s'"
    unfolding ufs_inv_def fd
  proof (intro conjI)
    show "distinct (file_list s')" "set (file_list s') = dom (heap s')" "\<forall>b \<in> dom (heap s'). b < next_addr s'"
      using D(1-3) c fresh by (auto simp: create_file_def Let_def a domIff less_Suc_eq)
    show "\<forall>b g. heap s' b = Some g \<longrightarrow> file_ok g \<and> refs g = open_refs (add_mset a X) (file_descriptors s) b \<and>
        (f_delete g \<longrightarrow> 0 < open_refs (add_mset a X) (file_descriptors s) b)"
      using D(4-6) r by (auto simp: h open_refs_def file_ok_def)
    show "set_mset (add_mset a X) \<subseteq> dom (heap s')" using D(7) by (auto simp: h)
    show "\<forall>d \<in> set (file_descriptors s). \<exists>d'. d = Some d' \<and> desc_ok (heap s') d'"
      using inv fresh by (fastforce simp: ufs_inv_def desc_ok_def h)
    show "file_descriptor_count s = int (count (mset (map slot_free (file_descriptors s))) False)"
      by (rule D(9))
    show "\<forall>b c m. live (heap s') m b \<longrightarrow> live (heap s') m c \<longrightarrow> b = c"
      using l n D(10) by (metis)
  qed
qed

lemma find_free_slot_ok:
  "None \<notin> set ds \<Longrightarrow>
     (find_free_slot ds k = Inr None \<and> (\<forall>d. Some d \<in> set ds \<longrightarrow> \<not> is_free d)) \<or>
     (\<exists>i d. find_free_slot ds k = Inr (Some (k + i, d)) \<and> i < length ds \<and> ds ! i = Some d \<and> is_free d)"
proof (induction ds k rule: find_free_slot.induct)
  case (3 d ds i)
  show ?case
  proof (cases "is_free d")
    case True
    then show ?thesis by (auto intro!: exI [of _ 0])
  next
    case False
    from 3(1) [OF False] 3(2) False show ?thesis
      by (auto simp: less_Suc_eq_0_disj)
  qed
qed simp_all

lemma count_bool_length: "count (mset bs) True + count (mset bs) False = length bs"
  by (induction bs) auto

lemma append_fd_inv:
  assumes inv: "ufs_inv X s"
  shows "ufs_inv X (s\<lparr>file_descriptors := file_descriptors s @ [Some new_filedesc],
    file_descriptor_count := file_descriptor_count s + 1\<rparr>)"
proof -
  have "open_refs X (file_descriptors s @ [Some new_filedesc]) a = open_refs X (file_descriptors s) a" for a
    by (simp add: open_refs_def new_filedesc_def)
  moreover have "desc_ok (heap s) new_filedesc" by (simp add: desc_ok_def new_filedesc_def)
  ultimately show ?thesis
    using inv by (simp add: ufs_inv_def) (simp add: new_filedesc_def)
qed

lemma find_free_fd_ok:
  assumes inv: "ufs_inv X s"
  obtains fd d s' where "find_free_fd s = Inr (fd, s')" "ufs_inv X s'"
    "fd < length (file_descriptors s')" "file_descriptors s' ! fd = Some d" "d_file d = None" "\<not> is_free d"
    "heap s' = heap s" "file_list s' = file_list s" "next_addr s' = next_addr s"
    "view_fds (file_descriptors s') = view_fds (file_descriptors s)" "view_fds (file_descriptors s) fd = None"
proof -
  let ?ds = "file_descriptors s"
  note D = ufs_invD [OF inv]
  have nn: "None \<notin> set ?ds" using inv by (auto simp: ufs_inv_def)
  consider (slot) i d where "find_free_slot ?ds 0 = Inr (Some (i, d))" "i < length ?ds"
      "?ds ! i = Some d" "is_free d" "file_descriptor_count s < int (length ?ds)"
    | (full) "file_descriptor_count s < int (length ?ds) \<longrightarrow> find_free_slot ?ds 0 = Inr None"
       "file_descriptor_count s = int (length ?ds)"
  proof (cases "\<exists>d. Some d \<in> set ?ds \<and> is_free d")
    case True
    then have "0 < count (mset (map slot_free ?ds)) True" unfolding count_greater_zero_iff by force
    moreover have "count (mset (map slot_free ?ds)) True + count (mset (map slot_free ?ds)) False = length ?ds"
      using count_bool_length [of "map slot_free ?ds"] unfolding length_map .
    ultimately have "file_descriptor_count s < int (length ?ds)" 
      unfolding D(9) by linarith
    with that find_free_slot_ok [OF nn, of 0] True show thesis by auto
  next
    case False
    have "\<forall>b \<in> set (map slot_free ?ds). b = False"
      using False nn by (auto simp: slot_free_def split: option.splits)
    then have "map slot_free ?ds = replicate (length ?ds) False"
      by (metis length_map replicate_length_same)
    then have "file_descriptor_count s = int (length ?ds)" unfolding D(9) by simp
    with that show thesis by auto
  qed
  then show thesis
  proof cases
    case slot
    have df: "d_file d = None" using D(8) [OF slot(2)] slot by (auto simp: desc_ok_def)
    show thesis
    proof (rule that [of i _ "d\<lparr>is_free := False\<rparr>"])
      show "find_free_fd s = Inr (i, set_fd i (d\<lparr>is_free := False\<rparr>)
          (s\<lparr>file_descriptor_count := file_descriptor_count s + 1\<rparr>))"
        using slot by (simp add: find_free_fd_def)
      show "ufs_inv X (set_fd i (d\<lparr>is_free := False\<rparr>) (s\<lparr>file_descriptor_count := file_descriptor_count s + 1\<rparr>))"
        using slot df by (intro set_fd_inv [OF inv slot(2,3)]) (auto simp: desc_ok_def)
    qed (use slot df in \<open>auto simp: view_fds_update view_fds_def fun_eq_iff nth_list_update\<close>)
  next
    case full
    let ?s = "s\<lparr>file_descriptors := ?ds @ [Some new_filedesc],
      file_descriptor_count := file_descriptor_count s + 1\<rparr>"
    show thesis
    proof (rule that)
      show "find_free_fd s = Inr (length ?ds, ?s)"
        using full by (simp add: find_free_fd_def set_fd_def Let_def)
      show "ufs_inv X ?s" by (rule append_fd_inv [OF inv])
    qed (auto simp: new_filedesc_def view_fds_def fun_eq_iff nth_append)
  qed
qed


section \<open>The calls on names\<close>

lemma get_fd_ok: "i < length (file_descriptors s) \<Longrightarrow> file_descriptors s ! i = Some d \<Longrightarrow> get_fd s i = Inr d"
  by (simp add: get_fd_def)

lemma keeps_trans: "keeps s t \<Longrightarrow> keeps t u \<Longrightarrow> keeps s u"
  by (fastforce simp: keeps_def)

lemma keeps_set_file:
  "heap s a = Some f \<Longrightarrow> block_list g = block_list f \<Longrightarrow> keeps s (set_file a g s)"
  by (auto simp: keeps_def)

lemma ufs_delete_ok:
  assumes inv: "ufs_inv X s"
  obtains r s' where "ufs_delete name s = Inr (r, s')" "ufs_inv X s'" "keeps s s'"
    "\<And>m b. live (heap s') m b \<longleftrightarrow> m \<noteq> name \<and> live (heap s) m b"
    "r = (if find (live (heap s) name) (file_list s) = None then -1 else 0)"
    "ufs_errno s' = (if find (live (heap s) name) (file_list s) = None then UFS_ERR_NO_FILE else ufs_errno s)"
proof (cases "find (live (heap s) name) (file_list s)")
  case None
  have "\<not> live (heap s) name b" for b using None names_iff [OF inv, of name b] by simp
  with None that inv show thesis
    by (auto simp: ufs_delete_def find_file_none [OF inv None] keeps_def ufs_inv_def)
next
  case (Some a)
  from find_file_some [OF inv Some] obtain f where f: "heap s a = Some f" "\<not> f_delete f" "f_name f = name"
    and find: "find_file name s = Inr (Some a, set_file a (f\<lparr>refs := refs f + 1\<rparr>) s)"
    and inv1: "ufs_inv (add_mset a X) (set_file a (f\<lparr>refs := refs f + 1\<rparr>) s)" .
  let ?f = "f\<lparr>refs := refs f + 1\<rparr>" and ?s1 = "set_file a (f\<lparr>refs := refs f + 1\<rparr>) s"
  have h1: "heap ?s1 a = Some ?f" by simp
  note D = ufs_invD [OF inv1]
  have pos: "\<forall>d. Some d \<in> set (file_descriptors ?s1) \<longrightarrow> d_file d = Some a \<longrightarrow>
      d_pos d \<le> length (content (block_list f))"
    using inv f(1) by (fastforce simp: ufs_inv_def desc_ok_def)
  have "ufs_inv (add_mset a X) (set_file a (?f\<lparr>f_delete := True\<rparr>) ?s1)"
    using D(4) [OF h1] D(5) [OF h1] pos
    by (intro set_file_inv [OF inv1 h1]) (auto simp: file_ok_def open_refs_def)
  from close_file_ok [OF this] obtain s' where s': "close_file a (set_file a (?f\<lparr>f_delete := True\<rparr>) ?s1) = Inr s'"
    "ufs_inv X s'" "keeps (set_file a (?f\<lparr>f_delete := True\<rparr>) ?s1) s'"
    "live (heap s') = live (heap (set_file a (?f\<lparr>f_delete := True\<rparr>) ?s1))"
    "ufs_errno s' = ufs_errno (set_file a (?f\<lparr>f_delete := True\<rparr>) ?s1)" .
  have "keeps s (set_file a (?f\<lparr>f_delete := True\<rparr>) ?s1)" using f(1) by (auto simp: keeps_def)
  then have k: "keeps s s'" using s'(3) keeps_trans by blast
  have l: "live (heap s') m b \<longleftrightarrow> m \<noteq> name \<and> live (heap s) m b" for m b
  proof (cases "b = a")
    case True
    then show ?thesis using f by (auto simp: s'(4) live_def)
  next
    case False
    have "live (heap s) name a" using f by (simp add: live_def)
    then have "\<not> live (heap s) name b" using False ufs_invD(10) [OF inv] by blast
    moreover have "live (heap s') m b \<longleftrightarrow> live (heap s) m b" using False by (simp add: s'(4) live_def)
    ultimately show ?thesis by blast
  qed
  have "ufs_delete name s = Inr (0, s')"
    using find s'(1) deref_ok [OF h1] by (simp add: ufs_delete_def)
  then show thesis using that s'(2,5) k l Some by simp
qed

text \<open>The abstract calls.\<close>

definition a_delete :: "string \<Rightarrow> afs \<Rightarrow> afs" where
  "a_delete name A = gc (A\<lparr>a_names := (a_names A)(name := None)\<rparr>)"

definition a_close :: "nat \<Rightarrow> afs \<Rightarrow> afs" where
  "a_close fd A = gc (A\<lparr>a_fds := (a_fds A)(fd := None)\<rparr>)"

definition a_open :: "nat \<Rightarrow> nat \<Rightarrow> i32 \<Rightarrow> afs \<Rightarrow> afs" where
  "a_open fd a flags A = A\<lparr>a_fds := (a_fds A)(fd \<mapsto> (a, 0, flags))\<rparr>"

definition a_create :: "string \<Rightarrow> nat \<Rightarrow> nat \<Rightarrow> i32 \<Rightarrow> afs \<Rightarrow> afs" where
  "a_create name a fd flags A = gc (A\<lparr>a_files := (a_files A)(a \<mapsto> []),
     a_names := (a_names A)(name \<mapsto> a), a_fds := (a_fds A)(fd \<mapsto> (a, 0, flags))\<rparr>)"

lemma names_eqI:
  assumes "ufs_inv X s" "\<And>n a. live (heap s) n a \<longleftrightarrow> names n = Some a"
  shows "a_names (abs_ufs s) = names"
proof
  fix n
  show "a_names (abs_ufs s) n = names n"
    using names_iff [OF assms(1), of n] assms(2) [of n] by (simp add: abs_ufs_def) (metis option.exhaust)
qed

lemma live_names: "ufs_inv X s \<Longrightarrow> live (heap s) n a \<longleftrightarrow> a_names (abs_ufs s) n = Some a"
  using names_iff by (simp add: abs_ufs_def)

lemma files_abs: "a_files (abs_ufs s) a = Some c \<longleftrightarrow> (\<exists>f. heap s a = Some f \<and> c = content (block_list f))"
  by (auto simp: abs_ufs_def)

lemma fds_abs: "a_fds (abs_ufs s) = view_fds (file_descriptors s)"
  by (simp add: abs_ufs_def)

lemma keeps_files:
  "keeps s t \<Longrightarrow> heap t a = Some f \<Longrightarrow> a_files (abs_ufs s) a = Some (content (block_list f))"
  by (fastforce simp: keeps_def files_abs)

lemma set_fd_inv_same:
  assumes "ufs_inv X s" "i < length (file_descriptors s)" "file_descriptors s ! i = Some d"
    "desc_ok (heap s) d'" "opt_mset (d_file d) + X = opt_mset (d_file d') + X'" "is_free d' = is_free d"
  shows "ufs_inv X' (set_fd i d' s)"
  using set_fd_inv [OF assms(1-5), of "file_descriptor_count s"] assms(6) by simp

text \<open>The start of \<open>ufs_open\<close>: the new slot, with the flags and no file yet.\<close>

definition opened_slot :: "ufs \<Rightarrow> i32 \<Rightarrow> nat \<Rightarrow> filedesc \<Rightarrow> ufs \<Rightarrow> bool" where
  "opened_slot s flags fd d s' \<longleftrightarrow> ufs_ok s' \<and>
     fd < length (file_descriptors s') \<and> file_descriptors s' ! fd = Some d \<and>
     d_file d = None \<and> \<not> is_free d \<and> d_flag d = flags \<and>
     heap s' = heap s \<and> file_list s' = file_list s \<and> next_addr s' = next_addr s \<and>
     view_fds (file_descriptors s') = view_fds (file_descriptors s) \<and>
     view_fds (file_descriptors s) fd = None"

lemma ufs_open_slot:
  assumes inv: "ufs_ok s"
  shows "\<exists>fd d s'. opened_slot s flags fd d s' \<and>
    ufs_open name flags s = rbind (open_file name flags s') (open_tail fd)"
proof (rule find_free_fd_ok [OF inv])
  fix fd d s1
  assume s1: "find_free_fd s = Inr (fd, s1)" "ufs_ok s1"
    "fd < length (file_descriptors s1)" "file_descriptors s1 ! fd = Some d" "d_file d = None" "\<not> is_free d"
    "heap s1 = heap s" "file_list s1 = file_list s" "next_addr s1 = next_addr s"
    "view_fds (file_descriptors s1) = view_fds (file_descriptors s)" "view_fds (file_descriptors s) fd = None"
  let ?s = "set_fd fd (d\<lparr>d_flag := flags\<rparr>) s1"
  have "ufs_ok ?s"
    using s1(5,6) by (intro set_fd_inv_same [OF s1(2,3,4)]) (simp_all add: desc_ok_def)
  moreover have "view_fds (file_descriptors ?s) = view_fds (file_descriptors s)"
    using s1(3,5,10,11) by (auto simp: view_fds_update fun_eq_iff)
  ultimately have "opened_slot s flags fd (d\<lparr>d_flag := flags\<rparr>) ?s"
    using s1 by (simp add: opened_slot_def)
  moreover have "ufs_open name flags s = rbind (open_file name flags ?s) (open_tail fd)"
    using s1(1) get_fd_ok [OF s1(3,4)] by (simp add: ufs_open_def)
  ultimately show ?thesis by blast
qed

text \<open>The end of \<open>ufs_open\<close>: the file takes its place in the slot.\<close>

lemma open_tail_some:
  assumes inv: "ufs_inv {#a#} s" and i: "fd < length (file_descriptors s)" "file_descriptors s ! fd = Some d"
    and d: "d_file d = None" "\<not> is_free d"
  obtains s' where "open_tail fd (Some a, s) = Inr (int fd, s')" "ufs_ok s'" "heap s' = heap s"
    "view_fds (file_descriptors s') = (view_fds (file_descriptors s))(fd \<mapsto> (a, 0, d_flag d))"
proof -
  obtain f where "heap s a = Some f" using ufs_invD(7) [OF inv, of a] by auto
  then have "ufs_ok (set_fd fd (d\<lparr>d_file := Some a, d_pos := 0\<rparr>) s)"
    using d by (intro set_fd_inv_same [OF inv i]) (auto simp: desc_ok_def opt_mset_def)
  with that show thesis using get_fd_ok [OF i] i(1) by (simp add: open_tail_def view_fds_update)
qed

lemma ufs_open_existing:
  assumes inv: "ufs_ok s" and fl: "flags AND UFS_CREATE = 0" and a: "a_names (abs_ufs s) name = Some a"
  shows "\<exists>fd s'. ufs_open name flags s = Inr (int fd, s') \<and> ufs_ok s' \<and>
    a_fds (abs_ufs s) fd = None \<and> abs_ufs s' = a_open fd a flags (abs_ufs s)"
proof -
  from ufs_open_slot [OF inv, of flags name] obtain fd d s2 where
    slot: "opened_slot s flags fd d s2" and
    open1: "ufs_open name flags s = rbind (open_file name flags s2) (open_tail fd)" by blast
  from slot have inv2: "ufs_ok s2" and i: "fd < length (file_descriptors s2)" "file_descriptors s2 ! fd = Some d"
    and d: "d_file d = None" "\<not> is_free d" "d_flag d = flags"
    and s2: "heap s2 = heap s" "file_list s2 = file_list s" "next_addr s2 = next_addr s"
      "view_fds (file_descriptors s2) = view_fds (file_descriptors s)" "view_fds (file_descriptors s) fd = None"
    by (simp_all add: opened_slot_def)
  have "find (live (heap s2) name) (file_list s2) = Some a" using a s2 by (simp add: abs_ufs_def)
  from find_file_some [OF inv2 this] obtain f where f: "heap s2 a = Some f" "\<not> f_delete f" "f_name f = name"
    "find_file name s2 = Inr (Some a, set_file a (f\<lparr>refs := refs f + 1\<rparr>) s2)"
    "ufs_inv {#a#} (set_file a (f\<lparr>refs := refs f + 1\<rparr>) s2)" .
  from open_tail_some [OF f(5), of fd d] i d obtain s' where
    s': "open_tail fd (Some a, set_file a (f\<lparr>refs := refs f + 1\<rparr>) s2) = Inr (int fd, s')" "ufs_ok s'"
      "heap s' = (heap s2)(a \<mapsto> f\<lparr>refs := refs f + 1\<rparr>)"
      "view_fds (file_descriptors s') = (view_fds (file_descriptors s2))(fd \<mapsto> (a, 0, flags))"
    by auto
  have "a_names (abs_ufs s') = a_names (abs_ufs s)"
  proof (rule names_eqI [OF s'(2)])
    fix n b
    have "live (heap s') n b \<longleftrightarrow> live (heap s) n b" using f(1-3) s2(1) by (auto simp: s'(3) live_def)
    then show "live (heap s') n b \<longleftrightarrow> a_names (abs_ufs s) n = Some b" using live_names [OF inv] by simp
  qed
  moreover have "a_files (abs_ufs s') = a_files (abs_ufs s)"
    using f(1) s2(1) s'(3) by (auto simp: abs_ufs_def fun_eq_iff)
  moreover have "a_fds (abs_ufs s') = (a_fds (abs_ufs s))(fd \<mapsto> (a, 0, flags))"
    using s'(4) s2(4) by (simp add: fds_abs)
  ultimately have "abs_ufs s' = a_open fd a flags (abs_ufs s)" by (simp add: a_open_def)
  moreover have "ufs_open name flags s = Inr (int fd, s')" using open1 fl f(4) s'(1) by (simp add: open_file_def)
  ultimately show ?thesis using s'(2) s2(5) by (auto simp: fds_abs)
qed

lemma ufs_open_missing:
  assumes inv: "ufs_ok s" and fl: "flags AND UFS_CREATE = 0" and a: "a_names (abs_ufs s) name = None"
  shows "\<exists>s'. ufs_open name flags s = Inr (-1, s') \<and> ufs_ok s' \<and> abs_ufs s' = abs_ufs s \<and>
    ufs_errno s' = UFS_ERR_NO_FILE"
proof -
  from ufs_open_slot [OF inv, of flags name] obtain fd d s2 where
    slot: "opened_slot s flags fd d s2" and
    open1: "ufs_open name flags s = rbind (open_file name flags s2) (open_tail fd)" by blast
  from slot have inv2: "ufs_ok s2" and i: "fd < length (file_descriptors s2)" "file_descriptors s2 ! fd = Some d"
    and d: "d_file d = None" "\<not> is_free d" "d_flag d = flags"
    and s2: "heap s2 = heap s" "file_list s2 = file_list s" "next_addr s2 = next_addr s"
      "view_fds (file_descriptors s2) = view_fds (file_descriptors s)" "view_fds (file_descriptors s) fd = None"
    by (simp_all add: opened_slot_def)
  have "find (live (heap s2) name) (file_list s2) = None" using a s2 by (simp add: abs_ufs_def)
  note find = find_file_none [OF inv2 this]
  have "d\<lparr>d_file := None\<rparr> = d" using d(1) by (cases d) simp
  then have "set_fd fd (d\<lparr>d_file := None\<rparr>) s2 = s2"
    using i by (simp add: set_fd_def list_update_same_conv)
  then have "ufs_open name flags s = Inr (-1, s2\<lparr>ufs_errno := UFS_ERR_NO_FILE\<rparr>)"
    using open1 fl find get_fd_ok [OF i] by (simp add: open_tail_def open_file_def)
  moreover have "abs_ufs (s2\<lparr>ufs_errno := UFS_ERR_NO_FILE\<rparr>) = abs_ufs s" using s2 by (simp add: abs_ufs_def)
  moreover have "ufs_ok (s2\<lparr>ufs_errno := UFS_ERR_NO_FILE\<rparr>)" using inv2 by (simp add: ufs_inv_def)
  ultimately show ?thesis by auto
qed

lemma ufs_open_create:
  assumes inv: "ufs_ok s" and fl: "flags AND UFS_CREATE \<noteq> 0"
  shows "\<exists>fd a s'. ufs_open name flags s = Inr (int fd, s') \<and> ufs_ok s' \<and>
    a_fds (abs_ufs s) fd = None \<and> a_files (abs_ufs s) a = None \<and> abs_ufs s' = a_create name a fd flags (abs_ufs s)"
proof -
  from ufs_open_slot [OF inv, of flags name] obtain fd d s2 where
    slot: "opened_slot s flags fd d s2" and
    open1: "ufs_open name flags s = rbind (open_file name flags s2) (open_tail fd)" by blast
  from slot have inv2: "ufs_ok s2" and i: "fd < length (file_descriptors s2)" "file_descriptors s2 ! fd = Some d"
    and d: "d_file d = None" "\<not> is_free d" "d_flag d = flags"
    and s2: "heap s2 = heap s" "file_list s2 = file_list s" "next_addr s2 = next_addr s"
      "view_fds (file_descriptors s2) = view_fds (file_descriptors s)" "view_fds (file_descriptors s) fd = None"
    by (simp_all add: opened_slot_def)
  obtain r s3 where
    s3: "ufs_delete name s2 = Inr (r, s3)" "ufs_ok s3" "keeps s2 s3"
      "\<And>m b. live (heap s3) m b \<longleftrightarrow> m \<noteq> name \<and> live (heap s2) m b"
    by (rule ufs_delete_ok [OF inv2, of name]) (rule that)
  obtain a s4 where s4: "create_file name s3 = (a, s4)" by (cases "create_file name s3")
  have "\<forall>b. \<not> live (heap s3) name b" using s3(4) by simp
  note cr = create_file_ok [OF s3(2) this s4]
  have fd: "file_descriptors s4 = file_descriptors s2" using cr(4) s3(3) by (simp add: keeps_def)
  from open_tail_some [OF cr(2), of fd d] i d fd obtain s' where
    s': "open_tail fd (Some a, s4) = Inr (int fd, s')" "ufs_ok s'" "heap s' = heap s4"
      "view_fds (file_descriptors s') = (view_fds (file_descriptors s2))(fd \<mapsto> (a, 0, flags))"
    by auto
  have "next_addr s3 = next_addr s" using s3(3) s2(3) by (simp add: keeps_def)
  then have fresh: "heap s a = None" using cr(1) ufs_invD(3) [OF inv, of a] by (cases "heap s a") auto
  have "a_names (abs_ufs s') = (a_names (abs_ufs s))(name \<mapsto> a)"
  proof (rule names_eqI [OF s'(2)])
    fix n b
    have "live (heap s') n b \<longleftrightarrow> (if b = a then n = name else n \<noteq> name \<and> live (heap s) n b)"
      using s3(4) [of n b] by (auto simp: s'(3) cr(3) live_def s2(1))
    moreover have "\<not> live (heap s) n a" using fresh by (simp add: live_def)
    ultimately show "live (heap s') n b \<longleftrightarrow> ((a_names (abs_ufs s))(name \<mapsto> a)) n = Some b"
      using live_names [OF inv] by auto
  qed
  moreover have "\<forall>b f. heap s' b = Some f \<longrightarrow>
      ((a_files (abs_ufs s))(a \<mapsto> [])) b = Some (content (block_list f))"
  proof (intro allI impI)
    fix b f assume "heap s' b = Some f"
    then show "((a_files (abs_ufs s))(a \<mapsto> [])) b = Some (content (block_list f))"
      using keeps_files [OF s3(3), of b f] s2(1) by (auto simp: s'(3) cr(3) abs_ufs_def split: if_splits)
  qed
  ultimately have "abs_ufs s' = a_create name a fd flags (abs_ufs s)"
    unfolding a_create_def using s'(2,4) s2(4) by (intro abs_gc) (simp_all add: fds_abs)
  moreover have "ufs_open name flags s = Inr (int fd, s')" using open1 fl s3(1) s4 s'(1) by (simp add: open_file_def)
  moreover have "a_files (abs_ufs s) a = None" using fresh by (simp add: abs_ufs_def)
  moreover have "a_fds (abs_ufs s) fd = None" using s2(5) by (simp add: fds_abs)
  ultimately show ?thesis using s'(2) by blast
qed


section \<open>The calls on descriptors\<close>

text \<open>A descriptor is valid exactly when the abstract state knows it.\<close>

lemma is_valid_file_ok:
  assumes "ufs_inv X s"
  shows "is_valid_file fd s = Inr (fd < 0 \<or> a_fds (abs_ufs s) (nat fd) = None)"
proof (cases "0 \<le> fd \<and> fd < int (length (file_descriptors s))")
  case True
  then have i: "nat fd < length (file_descriptors s)" by linarith
  obtain d where "file_descriptors s ! nat fd = Some d" "desc_ok (heap s) d"
    using ufs_invD(8) [OF assms i] by blast
  then show ?thesis using True i
    by (auto simp: is_valid_file_def get_fd_ok fds_abs view_fds_def desc_ok_def)
next
  case False
  then show ?thesis by (auto simp: is_valid_file_def fds_abs view_fds_def)
qed

lemma fd_open:
  assumes inv: "ufs_inv X s" and "a_fds (abs_ufs s) fd = Some (a, pos, flag)"
  obtains d f where "fd < length (file_descriptors s)" "file_descriptors s ! fd = Some d" "get_fd s fd = Inr d"
    "d_file d = Some a" "d_pos d = pos" "d_flag d = flag" "\<not> is_free d"
    "heap s a = Some f" "deref s a = Inr f" "file_ok f" "pos \<le> length (content (block_list f))"
    "a_files (abs_ufs s) a = Some (content (block_list f))"
proof -
  have i: "fd < length (file_descriptors s)" using assms(2) by (auto simp: fds_abs view_fds_def split: if_splits)
  obtain d where d: "file_descriptors s ! fd = Some d" "desc_ok (heap s) d"
    using ufs_invD(8) [OF inv i] by blast
  have d': "d_file d = Some a" "d_pos d = pos" "d_flag d = flag"
    using assms(2) i d by (auto simp: fds_abs view_fds_def)
  obtain f where f: "heap s a = Some f" "pos \<le> length (content (block_list f))" "\<not> is_free d"
    using d(2) d' by (auto simp: desc_ok_def)
  show thesis
    using that i d(1) d' f ufs_invD(4) [OF inv f(1)] get_fd_ok [OF i d(1)] deref_ok [OF f(1)]
    by (auto simp: abs_ufs_def)
qed

lemma invalid_fd_simps:
  assumes "ufs_inv X s" "fd < 0 \<or> a_fds (abs_ufs s) (nat fd) = None"
  shows "ufs_write fd buf s = Inr (-1, s\<lparr>ufs_errno := UFS_ERR_NO_FILE\<rparr>)"
    "ufs_read fd n s = Inr (-1, [], s\<lparr>ufs_errno := UFS_ERR_NO_FILE\<rparr>)"
    "ufs_close fd s = Inr (-1, s\<lparr>ufs_errno := UFS_ERR_NO_FILE\<rparr>)"
    "ufs_resize fd n s = Inr (-1, s\<lparr>ufs_errno := UFS_ERR_NO_FILE\<rparr>)"
  using assms(2)
  by (simp_all add: ufs_write_def ufs_read_def ufs_close_def ufs_resize_def is_valid_file_ok [OF assms(1)])

lemma close_file_set_fd:
  "close_file a (set_fd i d (s\<lparr>file_descriptor_count := c\<rparr>)) =
     rbind (close_file a s) (\<lambda>s. Inr (set_fd i d (s\<lparr>file_descriptor_count := c\<rparr>)))"
  by (auto simp: close_file_def deref_def set_fd_def set_file_def Let_def split: option.splits)

lemma close_file_count: "close_file a s = Inr s' \<Longrightarrow> file_descriptor_count s' = file_descriptor_count s"
  by (auto simp: close_file_def deref_def Let_def set_file_def res_simps split: option.splits if_splits)

lemma ufs_close_ok:
  assumes inv: "ufs_ok s" and fd: "a_fds (abs_ufs s) fd = Some (a, pos, flag)"
  shows "\<exists>s'. ufs_close (int fd) s = Inr (0, s') \<and> ufs_ok s' \<and> abs_ufs s' = a_close fd (abs_ufs s)"
proof (rule fd_open [OF inv fd])
  fix d f
  assume i: "fd < length (file_descriptors s)" "file_descriptors s ! fd = Some d" "get_fd s fd = Inr d"
    and d: "d_file d = Some a" "\<not> is_free d"
  let ?d = "d\<lparr>d_file := None, is_free := True, d_flag := 0\<rparr>" and ?c = "file_descriptor_count s - 1"
  define s1 where "s1 = set_fd fd ?d (s\<lparr>file_descriptor_count := ?c\<rparr>)"
  have "ufs_inv {#a#} s1"
    unfolding s1_def using d by (intro set_fd_inv [OF inv i(1,2)]) (auto simp: desc_ok_def opt_mset_def)
  then obtain s' where s': "close_file a s1 = Inr s'" "ufs_ok s'" "keeps s1 s'" "live (heap s') = live (heap s1)"
    by (rule close_file_ok) (rule that)
  have "filedesc_make_free fd s = close_file a s1"
    unfolding s1_def close_file_set_fd using d(1) i(3)
    by (auto simp: filedesc_make_free_def rbind_def close_file_count split: sum.splits)
  then have "ufs_close (int fd) s = Inr (0, s')"
    using s'(1) fd by (simp add: ufs_close_def is_valid_file_ok [OF inv])
  moreover have "abs_ufs s' = a_close fd (abs_ufs s)"
    unfolding a_close_def
  proof (rule abs_gc [OF s'(2)])
    show "a_names (abs_ufs s\<lparr>a_fds := (a_fds (abs_ufs s))(fd := None)\<rparr>) = a_names (abs_ufs s')"
      using s'(4) live_names [OF inv] by (simp add: names_eqI [OF s'(2)] s1_def)
    show "a_fds (abs_ufs s\<lparr>a_fds := (a_fds (abs_ufs s))(fd := None)\<rparr>) = a_fds (abs_ufs s')"
      using s'(3) i(1) by (simp add: keeps_def fds_abs s1_def view_fds_update)
    show "\<forall>b g. heap s' b = Some g \<longrightarrow>
        a_files (abs_ufs s\<lparr>a_fds := (a_fds (abs_ufs s))(fd := None)\<rparr>) b = Some (content (block_list g))"
      using keeps_files [OF s'(3)] by (auto simp: s1_def abs_ufs_def)
  qed
  ultimately show ?thesis using s'(2) by blast
qed

lemma ufs_delete_refines:
  assumes inv: "ufs_ok s"
  shows "\<exists>r s'. ufs_delete name s = Inr (r, s') \<and> ufs_ok s' \<and> abs_ufs s' = a_delete name (abs_ufs s) \<and>
    (if a_names (abs_ufs s) name = None then r = -1 \<and> ufs_errno s' = UFS_ERR_NO_FILE
     else r = 0 \<and> ufs_errno s' = ufs_errno s)"
proof -
  obtain r s' where s': "ufs_delete name s = Inr (r, s')" "ufs_ok s'" "keeps s s'"
      "\<And>m b. live (heap s') m b \<longleftrightarrow> m \<noteq> name \<and> live (heap s) m b"
      "r = (if find (live (heap s) name) (file_list s) = None then -1 else 0)"
      "ufs_errno s' = (if find (live (heap s) name) (file_list s) = None then UFS_ERR_NO_FILE else ufs_errno s)"
    by (rule ufs_delete_ok [OF inv, of name]) (rule that)
  have "abs_ufs s' = a_delete name (abs_ufs s)"
    unfolding a_delete_def
  proof (rule abs_gc [OF s'(2)])
    show "a_names (abs_ufs s\<lparr>a_names := (a_names (abs_ufs s))(name := None)\<rparr>) = a_names (abs_ufs s')"
      using names_eqI [OF s'(2), of "(a_names (abs_ufs s))(name := None)"] s'(4) live_names [OF inv] by auto
    show "a_fds (abs_ufs s\<lparr>a_names := (a_names (abs_ufs s))(name := None)\<rparr>) = a_fds (abs_ufs s')"
      using s'(3) by (simp add: keeps_def fds_abs)
    show "\<forall>b g. heap s' b = Some g \<longrightarrow>
        a_files (abs_ufs s\<lparr>a_names := (a_names (abs_ufs s))(name := None)\<rparr>) b = Some (content (block_list g))"
      using keeps_files [OF s'(3)] by simp
  qed
  with s' show ?thesis by (auto simp: abs_ufs_def)
qed

text \<open>
  Reading, writing and resizing in the abstract state: the bytes of the file and the position of
  the descriptor change, nothing else.
\<close>

definition a_read :: "nat \<Rightarrow> nat \<Rightarrow> afs \<Rightarrow> char list \<times> afs" where
  "a_read fd n A = (case a_fds A fd of None \<Rightarrow> ([], A) | Some (a, pos, flag) \<Rightarrow>
     let out = take n (drop pos (the (a_files A a)))
     in (out, A\<lparr>a_fds := (a_fds A)(fd \<mapsto> (a, pos + length out, flag))\<rparr>))"

definition a_write :: "nat \<Rightarrow> char list \<Rightarrow> afs \<Rightarrow> afs" where
  "a_write fd buf A = (case a_fds A fd of None \<Rightarrow> A | Some (a, pos, flag) \<Rightarrow>
     A\<lparr>a_files := (a_files A)(a \<mapsto> mem_write (the (a_files A a)) pos buf),
       a_fds := (a_fds A)(fd \<mapsto> (a, pos + length buf, flag))\<rparr>)"

lemma set_file_data_inv:
  assumes inv: "ufs_inv X s" and f: "heap s a = Some f"
    and bs: "blocks_ok bs" "length (content bs) \<le> MAX_FILE_SIZE"
    and pos: "\<forall>d. Some d \<in> set (file_descriptors s) \<longrightarrow> d_file d = Some a \<longrightarrow> d_pos d \<le> length (content bs)"
  shows "ufs_inv X (set_file a (f\<lparr>block_list := bs\<rparr>) s)"
proof (cases "f_delete f")
  case False
  then show ?thesis
    using bs pos ufs_invD(5) [OF inv f]
    by (intro set_file_inv [OF inv f]) (simp_all add: file_ok_def)
next
  case True
  then show ?thesis
    using bs pos ufs_invD(5,6) [OF inv f]
    by (intro set_file_inv [OF inv f]) (simp_all add: file_ok_def)
qed

lemma live_same: "f_delete g = f_delete f \<Longrightarrow> f_name g = f_name f \<Longrightarrow> h a = Some f \<Longrightarrow> live (h(a \<mapsto> g)) = live h"
  by (auto simp: live_def fun_eq_iff)

text \<open>Changing the blocks of a file and one of its descriptors.\<close>

lemma set_data_abs:
  assumes "heap s a = Some f" "fd < length (file_descriptors s)" "d_file d = Some a"
  shows "abs_ufs (set_fd fd d (set_file a (f\<lparr>block_list := bs\<rparr>) s)) =
    abs_ufs s\<lparr>a_files := (a_files (abs_ufs s))(a \<mapsto> content bs),
      a_fds := (a_fds (abs_ufs s))(fd \<mapsto> (a, d_pos d, d_flag d))\<rparr>"
  using assms live_same [of "f\<lparr>block_list := bs\<rparr>" f "heap s" a]
  by (simp add: abs_ufs_def view_fds_update) (auto simp: fun_eq_iff)

lemma ufs_write_ok:
  assumes inv: "ufs_ok s" and fd: "a_fds (abs_ufs s) fd = Some (a, pos, flag)"
    and ro: "flag AND UFS_READ_ONLY = 0" and len: "pos + length buf \<le> MAX_FILE_SIZE"
  shows "\<exists>s'. ufs_write (int fd) buf s = Inr (int (length buf), s') \<and> ufs_ok s' \<and>
    abs_ufs s' = a_write fd buf (abs_ufs s)"
proof (rule fd_open [OF inv fd])
  fix d f
  assume i: "fd < length (file_descriptors s)" "file_descriptors s ! fd = Some d" "get_fd s fd = Inr d"
    and d: "d_file d = Some a" "d_pos d = pos" "d_flag d = flag" "\<not> is_free d"
    and f: "heap s a = Some f" "deref s a = Inr f" "file_ok f" "pos \<le> length (content (block_list f))"
      "a_files (abs_ufs s) a = Some (content (block_list f))"
  let ?n = "pos div BLOCK_SIZE" and ?c = "content (block_list f)"
  have ok: "blocks_ok (block_list f)" and max: "length ?c \<le> MAX_FILE_SIZE" using f(3) by (auto simp: file_ok_def)
  have n: "?n * BLOCK_SIZE \<le> length ?c" using f(4) by (meson div_times_less_eq_dividend le_trans)
  note w = walk_ok [OF n ok] take_full [OF n ok]
  obtain rest p where wl: "write_loop pos buf (drop ?n (block_list f)) = (rest, p)"
    by (cases "write_loop pos buf (drop ?n (block_list f))")
  have off: "pos = ?n * BLOCK_SIZE + pos mod BLOCK_SIZE" by presburger
  have lc: "length ?c = ?n * BLOCK_SIZE + length (content (drop ?n (block_list f)))"
    using w by (metis length_append)
  have "pos mod BLOCK_SIZE \<le> length (content (drop ?n (block_list f)))"
    using f(4) lc off by linarith
  with write_loop_ok [of "drop ?n (block_list f)" pos buf rest p] w wl
  have r: "p = pos + length buf" "blocks_ok rest"
      "content rest = mem_write (content (drop ?n (block_list f))) (pos mod BLOCK_SIZE) buf" by auto
  define bs where "bs = take ?n (block_list f) @ rest"
  have cb: "content bs = mem_write ?c pos buf"
  proof -
    have "?c = content (take ?n (block_list f)) @ content (drop ?n (block_list f))" using w by simp
    moreover have "pos = length (content (take ?n (block_list f))) + pos mod BLOCK_SIZE" using w off by simp
    ultimately show ?thesis unfolding bs_def using r(3) mem_write_append by (metis content_simps(3))
  qed
  have lb: "length (content bs) = max (length ?c) (pos + length buf)"
    using f(4) by (simp add: cb length_mem_write)
  have "blocks_ok bs" using w r(2) by (simp add: bs_def blocks_ok_append)
  have pos: "\<forall>e. Some e \<in> set (file_descriptors s) \<longrightarrow> d_file e = Some a \<longrightarrow> d_pos e \<le> length (content bs)"
    using inv f(1) lb by (fastforce simp: ufs_inv_def desc_ok_def)
  define s1 where "s1 = set_file a (f\<lparr>block_list := bs\<rparr>) s"
  have inv1: "ufs_ok s1"
    unfolding s1_def using \<open>blocks_ok bs\<close> pos lb max len by (intro set_file_data_inv [OF inv f(1)]) simp_all
  have "ufs_ok (set_fd fd (d\<lparr>d_pos := p\<rparr>) s1)"
    using i d lb r(1) by (intro set_fd_inv_same [OF inv1, of fd d]) (auto simp: s1_def desc_ok_def)
  moreover have "ufs_write (int fd) buf s = Inr (int (length buf), set_fd fd (d\<lparr>d_pos := p\<rparr>) s1)"
    using i(3) d f(2) fd ro len w wl
    by (simp add: ufs_write_def is_valid_file_ok [OF inv] s1_def bs_def Let_def)
  moreover have "abs_ufs (set_fd fd (d\<lparr>d_pos := p\<rparr>) s1) = a_write fd buf (abs_ufs s)"
    using f(1,5) i(1) d r(1) fd cb by (simp add: s1_def set_data_abs a_write_def)
  ultimately show ?thesis by blast
qed

lemma ufs_read_ok:
  assumes inv: "ufs_ok s" and fd: "a_fds (abs_ufs s) fd = Some (a, pos, flag)"
    and wo: "flag AND UFS_WRITE_ONLY = 0"
  shows "\<exists>s'. ufs_read (int fd) n s = Inr (int (length (fst (a_read fd n (abs_ufs s)))), fst (a_read fd n (abs_ufs s)), s') \<and>
    ufs_ok s' \<and> abs_ufs s' = snd (a_read fd n (abs_ufs s))"
proof (rule fd_open [OF inv fd])
  fix d f
  assume i: "fd < length (file_descriptors s)" "file_descriptors s ! fd = Some d" "get_fd s fd = Inr d"
    and d: "d_file d = Some a" "d_pos d = pos" "d_flag d = flag" "\<not> is_free d"
    and f: "heap s a = Some f" "deref s a = Inr f" "file_ok f" "pos \<le> length (content (block_list f))"
      "a_files (abs_ufs s) a = Some (content (block_list f))"
  let ?n = "pos div BLOCK_SIZE" and ?c = "content (block_list f)"
  have ok: "blocks_ok (block_list f)" using f(3) by (auto simp: file_ok_def)
  have k: "?n * BLOCK_SIZE \<le> length ?c" using f(4) by (meson div_times_less_eq_dividend le_trans)
  note w = walk_ok [OF k ok]
  have off: "pos = ?n * BLOCK_SIZE + pos mod BLOCK_SIZE" by presburger
  have lc: "length ?c = ?n * BLOCK_SIZE + length (content (drop ?n (block_list f)))"
    using w by (metis length_append)
  have o: "pos mod BLOCK_SIZE \<le> length (content (drop ?n (block_list f)))"
    using f(4) lc off by linarith
  have dp: "drop pos ?c = drop (pos mod BLOCK_SIZE) (content (drop ?n (block_list f)))"
  proof -
    have "?c = content (take ?n (block_list f)) @ content (drop ?n (block_list f))" using w by simp
    moreover have "pos - length (content (take ?n (block_list f))) = pos mod BLOCK_SIZE"
      "length (content (take ?n (block_list f))) \<le> pos" using w off by linarith+
    ultimately show ?thesis by (metis drop_append drop_all append_Nil)
  qed
  define out where "out = take n (drop pos ?c)"
  have rl: "read_loop pos n (drop ?n (block_list f)) = Inr (out, pos + length out)"
    using read_loop_ok [OF _ o, of n] conjunct2 [OF conjunct2 [OF conjunct2 [OF w]]]
    by (simp add: Let_def out_def dp)
  have ar: "a_read fd n (abs_ufs s) = (out, abs_ufs s\<lparr>a_fds := (a_fds (abs_ufs s))(fd \<mapsto> (a, pos + length out, flag))\<rparr>)"
    using fd f(5) by (simp add: a_read_def out_def Let_def)
  let ?s = "set_fd fd (d\<lparr>d_pos := pos + length out\<rparr>) s"
  have "pos + length out \<le> length ?c" using f(4) by (simp add: out_def)
  then have "ufs_ok ?s"
    using d f(1) by (intro set_fd_inv_same [OF inv i(1,2)]) (simp_all add: desc_ok_def)
  moreover have "ufs_read (int fd) n s = Inr (int (length out), out, ?s)"
    using i(3) d f(2) fd wo w rl by (simp add: ufs_read_def is_valid_file_ok [OF inv])
  moreover have "abs_ufs ?s = abs_ufs s\<lparr>a_fds := (a_fds (abs_ufs s))(fd \<mapsto> (a, pos + length out, flag))\<rparr>"
    using i(1) d by (simp add: abs_ufs_def view_fds_update)
  ultimately show ?thesis unfolding ar by auto
qed


text \<open>\<open>data\<close> becomes the content of the file and its descriptors do not stand behind its end.\<close>

definition a_resize :: "nat \<Rightarrow> char list \<Rightarrow> afs \<Rightarrow> afs" where
  "a_resize a data A = A\<lparr>
     a_files := (a_files A)(a \<mapsto> data),
     a_fds := (\<lambda>i. map_option (\<lambda>(b, pos, flag). (b, if b = a then min pos (length data) else pos, flag)) (a_fds A i))\<rparr>"

definition clamp :: "ufs \<Rightarrow> string \<Rightarrow> nat \<Rightarrow> filedesc \<Rightarrow> filedesc" where
  "clamp s name n d = (case d_file d of None \<Rightarrow> d
     | Some a \<Rightarrow> if f_name (the (heap s a)) = name \<and> d_pos d > n then d\<lparr>d_pos := n\<rparr> else d)"

lemma clamp_loop_ok:
  "\<forall>d \<in> set ds. \<exists>d'. d = Some d' \<and> (\<forall>a. d_file d' = Some a \<longrightarrow> heap s a \<noteq> None) \<Longrightarrow> k \<le> length ds \<Longrightarrow>
     clamp_loop s name n k ds = Inr (map (map_option (clamp s name n)) (take k ds) @ drop k ds)"
  by (induction s name n k ds rule: clamp_loop.induct)
    (auto simp: clamp_def deref_def split: option.splits)

lemma clamp_simps [simp]:
  "d_file (clamp s name n d) = d_file d" "is_free (clamp s name n d) = is_free d"
  "d_flag (clamp s name n d) = d_flag d" "d_pos (clamp s name n d) \<le> d_pos d"
  by (auto simp: clamp_def split: option.splits)

lemma replace_fds_inv:
  assumes inv: "ufs_inv X s" and "map slot_file ds = map slot_file (file_descriptors s)"
    "map slot_free ds = map slot_free (file_descriptors s)"
    "\<forall>d \<in> set ds. \<exists>d'. d = Some d' \<and> desc_ok (heap s) d'"
  shows "ufs_inv X (s\<lparr>file_descriptors := ds\<rparr>)"
proof -
  have "open_refs X ds a = open_refs X (file_descriptors s) a" for a
    unfolding open_refs_def assms(2) ..
  then show ?thesis using inv assms(3,4) by (simp add: ufs_inv_def del: mset_map)
qed

text \<open>
  What the last loop of \<open>ufs_resize\<close> misses or hits by mistake: descriptors at or above the
  number of open ones, and descriptors of another, deleted file of the same name.
\<close>

definition resize_safe :: "ufs \<Rightarrow> nat \<Rightarrow> nat \<Rightarrow> bool" where
  "resize_safe s a n \<longleftrightarrow>
     (\<forall>i d. i < length (file_descriptors s) \<longrightarrow> file_descriptors s ! i = Some d \<longrightarrow> n < d_pos d \<longrightarrow>
        (case d_file d of None \<Rightarrow> True
         | Some b \<Rightarrow> if b = a then int i < file_descriptor_count s
                    else f_name (the (heap s b)) \<noteq> f_name (the (heap s a))))"

lemma ufs_count_le: "ufs_inv X s \<Longrightarrow> nat (file_descriptor_count s) \<le> length (file_descriptors s)"
proof -
  assume inv: "ufs_inv X s"
  have "count (mset (map slot_free (file_descriptors s))) False \<le> length (map slot_free (file_descriptors s))"
    using count_bool_length [of "map slot_free (file_descriptors s)"] by linarith
  then show ?thesis unfolding ufs_invD(9) [OF inv] by simp
qed

lemma blocks_ok_block_ok: "blocks_ok bs \<Longrightarrow> b \<in> set bs \<Longrightarrow> block_ok b"
  by (induction bs) auto

text \<open>The bytes of a file after a resize, whatever its blocks hold behind the end.\<close>

definition resized :: "ufile \<Rightarrow> nat \<Rightarrow> char list" where
  "resized f n = take n (raw (block_list f) @ replicate n ch_nul)"

lemma resized_blocks:
  assumes ok: "blocks_ok (block_list f)"
  shows "content (resize_loop 0 n (block_list f)) = resized f n" "blocks_ok (resize_loop 0 n (block_list f))"
proof -
  have "\<forall>b \<in> set (block_list f). length (memory b) = BLOCK_SIZE"
    using blocks_ok_block_ok [OF ok] by (auto simp: block_ok_def)
  from resize_loop_content [OF this, of 0 n]
  show "content (resize_loop 0 n (block_list f)) = resized f n" "blocks_ok (resize_loop 0 n (block_list f))"
    by (simp_all add: resized_def)
qed

text \<open>A file that is cut, or whose blocks are zero behind its end, is cut or padded with zeros.\<close>

lemma resized_content:
  assumes ok: "blocks_ok (block_list f)"
    and tail: "length (content (block_list f)) < n \<longrightarrow> (\<forall>b \<in> set (block_list f). zero_tail b)"
  shows "resized f n = take n (content (block_list f) @ replicate n ch_nul)"
proof (cases "length (content (block_list f)) < n")
  case False
  then show ?thesis by (simp add: resized_def raw_content [OF ok])
next
  case True
  let ?bs = "block_list f"
  have "?bs = [] \<or> zero_tail (last ?bs)" using tail True by (cases "?bs = []") auto
  then obtain m where "raw ?bs = content ?bs @ replicate m ch_nul"
    using that [of 0] that by (cases "?bs = []") (auto simp: raw_content [OF ok] zero_tail_def)
  moreover have "replicate m ch_nul @ replicate n ch_nul = replicate (m + n) ch_nul" for m
    by (simp add: replicate_add)
  ultimately show ?thesis by (simp add: resized_def)
qed

definition clamped :: "ufs \<Rightarrow> string \<Rightarrow> nat \<Rightarrow> filedesc option list" where
  "clamped s name n =
     (let k = nat (file_descriptor_count s)
      in map (map_option (clamp s name n)) (take k (file_descriptors s)) @ drop k (file_descriptors s))"

text \<open>What a resize to a positive size computes in any state.\<close>

lemma ufs_resize_result:
  assumes inv: "ufs_ok s" and fd: "a_fds (abs_ufs s) fd = Some (a, pos, flag)"
    and ro: "flag AND UFS_READ_ONLY = 0" and n: "0 < n" "n \<le> MAX_FILE_SIZE" and f: "heap s a = Some f"
  shows "ufs_resize (int fd) n s =
    (let s1 = set_file a (f\<lparr>block_list := resize_loop 0 n (block_list f)\<rparr>) s
     in Inr (0, s1\<lparr>file_descriptors := clamped s1 (f_name f) n\<rparr>))"
proof (rule fd_open [OF inv fd])
  fix d g
  assume i: "get_fd s fd = Inr d" and d: "d_file d = Some a" "d_flag d = flag"
    and g: "heap s a = Some g" "deref s a = Inr g"
  have [simp]: "g = f" using f g by simp
  define s1 where "s1 = set_file a (f\<lparr>block_list := resize_loop 0 n (block_list f)\<rparr>) s"
  have "blocks_ok (block_list f)" using ufs_invD(4) [OF inv f] by (simp add: file_ok_def)
  from resized_blocks(1) [OF this, of n] n have ne: "resize_loop 0 n (block_list f) \<noteq> []"
    by (auto simp: resized_def)
  have some: "\<forall>e \<in> set (file_descriptors s). \<exists>e'. e = Some e' \<and> desc_ok (heap s) e'"
    using inv by (simp add: ufs_inv_def)
  have cl: "clamp_loop s1 (f_name f) n (nat (file_descriptor_count s1)) (file_descriptors s1) =
      Inr (clamped s1 (f_name f) n)"
    unfolding clamped_def Let_def using some ufs_count_le [OF inv]
    by (intro clamp_loop_ok) (force simp: desc_ok_def s1_def)+
  show ?thesis
    using i d g fd ro n ne cl
    by (simp add: ufs_resize_def is_valid_file_ok [OF inv] Let_def s1_def [symmetric])
qed

lemma ufs_resize_ok:
  assumes inv: "ufs_ok s" and fd: "a_fds (abs_ufs s) fd = Some (a, pos, flag)"
    and ro: "flag AND UFS_READ_ONLY = 0" and n: "0 < n" "n \<le> MAX_FILE_SIZE" and safe: "resize_safe s a n"
  shows "\<exists>s'. ufs_resize (int fd) n s = Inr (0, s') \<and> ufs_ok s' \<and>
    abs_ufs s' = a_resize a (resized (the (heap s a)) n) (abs_ufs s)"
proof (rule fd_open [OF inv fd])
  fix d f
  assume i: "fd < length (file_descriptors s)" "file_descriptors s ! fd = Some d" "get_fd s fd = Inr d"
    and d: "d_file d = Some a" "d_pos d = pos" "d_flag d = flag" "\<not> is_free d"
    and f: "heap s a = Some f" "deref s a = Inr f" "file_ok f" "pos \<le> length (content (block_list f))"
      "a_files (abs_ufs s) a = Some (content (block_list f))"
  let ?c = "content (block_list f)" and ?ds = "file_descriptors s"
  define bs where "bs = resize_loop 0 n (block_list f)"
  have ok: "blocks_ok (block_list f)" using f(3) by (simp add: file_ok_def)
  have cb: "content bs = resized f n" and "blocks_ok bs"
    using resized_blocks [OF ok, of n] by (auto simp: bs_def)
  have lb: "length (content bs) = n" "length (resized f n) = n" by (simp_all add: cb resized_def)
  define s1 where "s1 = set_file a (f\<lparr>block_list := bs\<rparr>) s"
  define k where "k = nat (file_descriptor_count s)"
  define ds where "ds = map (map_option (clamp s1 (f_name f) n)) (take k ?ds) @ drop k ?ds"
  have kl: "k \<le> length ?ds" using ufs_count_le [OF inv] by (simp add: k_def)
  have nth: "ds ! j = Some (if j < k then clamp s1 (f_name f) n e else e)" "desc_ok (heap s) e"
    if "j < length ?ds" "?ds ! j = Some e" for j e
    using that kl ufs_invD(8) [OF inv that(1)] by (auto simp: ds_def nth_append)
  have len: "length ds = length ?ds" using kl by (simp add: ds_def)
  have slots: "map slot_file ds = map slot_file ?ds" "map slot_free ds = map slot_free ?ds"
  proof -
    have "slot_file (ds ! j) = slot_file (?ds ! j) \<and> slot_free (ds ! j) = slot_free (?ds ! j)"
      if "j < length ?ds" for j
      using ufs_invD(8) [OF inv that] nth(1) [OF that] by (cases "j < k") auto
    then show "map slot_file ds = map slot_file ?ds" "map slot_free ds = map slot_free ?ds"
      by (auto intro!: nth_equalityI simp: len)
  qed
  have dok: "\<exists>e'. ds ! j = Some e' \<and> desc_ok (heap s) e' \<and> (d_file e' = Some a \<longrightarrow> d_pos e' \<le> n)"
    if j: "j < length ds" for j
  proof -
    obtain e where e: "j < length ?ds" "?ds ! j = Some e" using j len ufs_invD(8) [OF inv, of j] by auto
    let ?e = "if j < k then clamp s1 (f_name f) n e else e"
    have "desc_ok (heap s) (clamp s1 (f_name f) n e)"
      using nth(2) [OF e] by (auto simp: desc_ok_def intro: le_trans [OF clamp_simps(4)])
    then have "desc_ok (heap s) ?e" using nth(2) [OF e] by simp
    moreover have "d_pos ?e \<le> n" if "d_file e = Some a"
      using that safe e f(1) by (auto simp: resize_safe_def clamp_def s1_def k_def not_less)
    ultimately show ?thesis using nth(1) [OF e] by auto
  qed
  have inv2: "ufs_ok (s\<lparr>file_descriptors := ds\<rparr>)"
    using dok by (intro replace_fds_inv [OF inv slots]) (fastforce simp: in_set_conv_nth)
  have s': "s1\<lparr>file_descriptors := ds\<rparr> = set_file a (f\<lparr>block_list := bs\<rparr>) (s\<lparr>file_descriptors := ds\<rparr>)"
    by (simp add: s1_def set_file_def)
  have "ufs_ok (s1\<lparr>file_descriptors := ds\<rparr>)"
    unfolding s'
  proof (rule set_file_data_inv [OF inv2])
    show "\<forall>e. Some e \<in> set (file_descriptors (s\<lparr>file_descriptors := ds\<rparr>)) \<longrightarrow> d_file e = Some a \<longrightarrow>
        d_pos e \<le> length (content bs)"
      using dok lb by (fastforce simp: in_set_conv_nth)
  qed (use f(1) \<open>blocks_ok bs\<close> lb n in simp_all)
  moreover have "ufs_resize (int fd) n s = Inr (0, s1\<lparr>file_descriptors := ds\<rparr>)"
    using ufs_resize_result [OF inv fd ro n f(1)]
    by (simp add: Let_def clamped_def ds_def k_def s1_def bs_def)
  moreover have "abs_ufs (s1\<lparr>file_descriptors := ds\<rparr>) = a_resize a (resized (the (heap s a)) n) (abs_ufs s)"
  proof -
    have "view_fds ds j = map_option (\<lambda>(b, p, fl). (b, if b = a then min p n else p, fl)) (view_fds ?ds j)" for j
    proof (cases "j < length ?ds")
      case True
      then obtain e where e: "?ds ! j = Some e" using ufs_invD(8) [OF inv True] by blast
      have "n < d_pos e \<Longrightarrow> (case d_file e of None \<Rightarrow> True
         | Some b \<Rightarrow> if b = a then int j < file_descriptor_count s else f_name (the (heap s b)) \<noteq> f_name f)"
        using spec [OF spec [OF safe [unfolded resize_safe_def], of j], of e] True e f(1)
        by (simp split: option.splits if_splits)
      then show ?thesis
        using True e nth(1) [OF True e]
        by (cases "d_file e"; cases "n < d_pos e")
          (auto simp: view_fds_def len clamp_def s1_def k_def min_def not_less split: if_splits)
    qed (simp add: view_fds_def len)
    moreover have "a_files (abs_ufs (s1\<lparr>file_descriptors := ds\<rparr>)) = (a_files (abs_ufs s))(a \<mapsto> content bs)"
      by (auto simp: abs_ufs_def s1_def fun_eq_iff)
    moreover have "a_names (abs_ufs (s1\<lparr>file_descriptors := ds\<rparr>)) = a_names (abs_ufs s)"
      using live_same [of "f\<lparr>block_list := bs\<rparr>" f "heap s" a] f(1) by (simp add: abs_ufs_def s1_def)
    moreover have "length (resized (the (heap s a)) n) = n" using f(1) lb by simp
    ultimately show ?thesis
      unfolding a_resize_def using f(1) cb by (simp only:) (simp add: abs_ufs_def fun_eq_iff)
  qed
  ultimately show ?thesis by blast
qed

end
