(* ===== verification/UserFS_Spec.thy ===== *)
theory UserFS_Spec
  imports UserFS_Refine
begin

text \<open>
  The properties of src/3/userfs.c: every call implements its abstract counterpart on every
  branch, no sequence of calls fails, what is written can be read back, and the cases in which
  \<open>ufs_resize\<close> leaves the file system broken.
\<close>

unbundle bit_operations_syntax

section \<open>Sequences of calls\<close>

datatype ufs_request =
    Open string i32
  | Write int "char list"
  | Read int nat
  | Close int
  | Delete string
  | Resize int nat

definition ufs_call :: "ufs_request \<Rightarrow> ufs \<Rightarrow> (int \<times> char list \<times> ufs) cres" where
  "ufs_call c s =
     (let plain = (\<lambda>m. rbind m (\<lambda>(r, s). Inr (r, [], s)))
      in case c of
           Open filename flags \<Rightarrow> plain (ufs_open filename flags s)
         | Write fd buf \<Rightarrow> plain (ufs_write fd buf s)
         | Read fd n \<Rightarrow> ufs_read fd n s
         | Close fd \<Rightarrow> plain (ufs_close fd s)
         | Delete filename \<Rightarrow> plain (ufs_delete filename s)
         | Resize fd n \<Rightarrow> plain (ufs_resize fd n s))"

fun ufs_calls :: "ufs_request list \<Rightarrow> ufs \<Rightarrow> ((int \<times> char list) list \<times> ufs) cres" where
  "ufs_calls [] s = Inr ([], s)"
| "ufs_calls (c # cs) s =
     rbind (ufs_call c s) (\<lambda>(r, out, s). rbind (ufs_calls cs s) (\<lambda>(rs, s). Inr ((r, out) # rs, s)))"

text \<open>
  The requests a caller may make: buffers that exist in memory, and resizes that keep the file
  and that the last loop of \<open>ufs_resize\<close> handles.
\<close>

definition request_ok :: "ufs_request \<Rightarrow> ufs \<Rightarrow> bool" where
  "request_ok c s =
     (case c of
        Write fd buf \<Rightarrow> length buf < 2 ^ 63
      | Resize fd n \<Rightarrow> 0 < n \<and> (case a_fds (abs_ufs s) (nat fd) of None \<Rightarrow> True | Some (a, _) \<Rightarrow> resize_safe s a n)
      | _ \<Rightarrow> True)"

inductive ufs_reachable :: "ufs \<Rightarrow> bool" where
  init: "ufs_reachable ufs_init"
| call: "ufs_reachable s \<Longrightarrow> request_ok c s \<Longrightarrow> ufs_call c s = Inr (r, out, s') \<Longrightarrow> ufs_reachable s'"

section \<open>All branches of the calls\<close>

lemma errno_ok [simp]: "ufs_inv X (s\<lparr>ufs_errno := e\<rparr>) \<longleftrightarrow> ufs_inv X s"
  by (simp add: ufs_inv_def)

lemma errno_abs [simp]: "abs_ufs (s\<lparr>ufs_errno := e\<rparr>) = abs_ufs s"
  by (simp add: abs_ufs_def)

definition refused :: "ufs \<Rightarrow> ufs_error_code \<Rightarrow> int \<times> ufs \<Rightarrow> bool" where
  "refused s e res \<longleftrightarrow> res = (-1, s\<lparr>ufs_errno := e\<rparr>)"

text \<open>What a write must do: the branches in the order of the code.\<close>

definition write_spec :: "int \<Rightarrow> char list \<Rightarrow> ufs \<Rightarrow> int \<times> ufs \<Rightarrow> bool" where
  "write_spec fd buf s res \<longleftrightarrow>
     (case if fd < 0 then None else a_fds (abs_ufs s) (nat fd) of
        None \<Rightarrow> refused s UFS_ERR_NO_FILE res
      | Some (a, pos, flag) \<Rightarrow>
          if flag AND UFS_READ_ONLY \<noteq> 0 then refused s UFS_ERR_NO_PERMISSION res
          else if pos + length buf > MAX_FILE_SIZE then refused s UFS_ERR_NO_MEM res
          else fst res = int (length buf) \<and> abs_ufs (snd res) = a_write (nat fd) buf (abs_ufs s))"

lemma ufs_write_all:
  assumes inv: "ufs_ok s" and len: "length buf < 2 ^ 63"
  shows "\<exists>res. ufs_write fd buf s = Inr res \<and> ufs_ok (snd res) \<and> write_spec fd buf s res"
proof (cases "fd < 0 \<or> a_fds (abs_ufs s) (nat fd) = None")
  case True
  then show ?thesis
    using inv by (auto simp: invalid_fd_simps [OF inv True] write_spec_def refused_def)
next
  case False
  then obtain a pos flag where fd: "a_fds (abs_ufs s) (nat fd) = Some (a, pos, flag)" "0 \<le> fd" by auto
  show ?thesis
  proof (rule fd_open [OF inv fd(1)])
    fix d f
    assume d: "get_fd s (nat fd) = Inr d" "d_file d = Some a" "d_pos d = pos" "d_flag d = flag"
      and f: "deref s a = Inr f" "file_ok f" "pos \<le> length (content (block_list f))"
    have "pos \<le> MAX_FILE_SIZE" using f by (simp add: file_ok_def)
    with len have wrap: "(pos + length buf) mod 2 ^ 64 = pos + length buf" by simp
    consider "flag AND UFS_READ_ONLY \<noteq> 0" | "flag AND UFS_READ_ONLY = 0" "pos + length buf > MAX_FILE_SIZE"
      | "flag AND UFS_READ_ONLY = 0" "pos + length buf \<le> MAX_FILE_SIZE" by linarith
    then show ?thesis
    proof cases
      case 3
      from ufs_write_ok [OF inv fd(1) 3] fd 3 show ?thesis by (auto simp: write_spec_def)
    qed (use inv fd d f wrap in \<open>simp_all add: ufs_write_def is_valid_file_ok [OF inv] write_spec_def refused_def\<close>)
  qed
qed

definition read_spec :: "int \<Rightarrow> nat \<Rightarrow> ufs \<Rightarrow> int \<times> char list \<times> ufs \<Rightarrow> bool" where
  "read_spec fd n s = (\<lambda>(r, out, s').
     case if fd < 0 then None else a_fds (abs_ufs s) (nat fd) of
       None \<Rightarrow> refused s UFS_ERR_NO_FILE (r, s') \<and> out = []
     | Some (a, pos, flag) \<Rightarrow>
         if flag AND UFS_WRITE_ONLY \<noteq> 0 then refused s UFS_ERR_NO_PERMISSION (r, s') \<and> out = []
         else r = int (length out) \<and> (out, abs_ufs s') = a_read (nat fd) n (abs_ufs s))"

lemma ufs_read_all:
  assumes inv: "ufs_ok s"
  shows "\<exists>r out s'. ufs_read fd n s = Inr (r, out, s') \<and> ufs_ok s' \<and> read_spec fd n s (r, out, s')"
proof (cases "fd < 0 \<or> a_fds (abs_ufs s) (nat fd) = None")
  case True
  then show ?thesis
    using inv by (auto simp: invalid_fd_simps [OF inv True] read_spec_def refused_def)
next
  case False
  then obtain a pos flag where fd: "a_fds (abs_ufs s) (nat fd) = Some (a, pos, flag)" "0 \<le> fd" by auto
  show ?thesis
  proof (cases "flag AND UFS_WRITE_ONLY = 0")
    case True
    from ufs_read_ok [OF inv fd(1) True, of n] fd True show ?thesis by (auto simp: read_spec_def)
  next
    case wo: False
    show ?thesis
      by (rule fd_open [OF inv fd(1)])
        (use inv fd wo in \<open>simp add: ufs_read_def is_valid_file_ok [OF inv] read_spec_def refused_def\<close>)
  qed
qed

definition open_spec :: "string \<Rightarrow> i32 \<Rightarrow> ufs \<Rightarrow> int \<times> ufs \<Rightarrow> bool" where
  "open_spec name flags s = (\<lambda>(r, s').
     if flags AND UFS_CREATE \<noteq> 0
     then \<exists>a. 0 \<le> r \<and> a_fds (abs_ufs s) (nat r) = None \<and> a_files (abs_ufs s) a = None \<and>
       abs_ufs s' = a_create name a (nat r) flags (abs_ufs s)
     else case a_names (abs_ufs s) name of
            None \<Rightarrow> r = -1 \<and> ufs_errno s' = UFS_ERR_NO_FILE \<and> abs_ufs s' = abs_ufs s
          | Some a \<Rightarrow> 0 \<le> r \<and> a_fds (abs_ufs s) (nat r) = None \<and>
              abs_ufs s' = a_open (nat r) a flags (abs_ufs s))"

lemma ufs_open_all:
  assumes inv: "ufs_ok s"
  shows "\<exists>r s'. ufs_open name flags s = Inr (r, s') \<and> ufs_ok s' \<and> open_spec name flags s (r, s')"
proof (cases "flags AND UFS_CREATE = 0")
  case False
  from ufs_open_create [OF inv False, of name] False show ?thesis by (auto simp: open_spec_def)
next
  case True
  then show ?thesis
    using ufs_open_existing [OF inv True, of name] ufs_open_missing [OF inv True, of name]
    by (cases "a_names (abs_ufs s) name") (auto simp: open_spec_def)
qed

definition close_spec :: "int \<Rightarrow> ufs \<Rightarrow> int \<times> ufs \<Rightarrow> bool" where
  "close_spec fd s res \<longleftrightarrow>
     (if fd < 0 \<or> a_fds (abs_ufs s) (nat fd) = None then refused s UFS_ERR_NO_FILE res
      else fst res = 0 \<and> abs_ufs (snd res) = a_close (nat fd) (abs_ufs s))"

lemma ufs_close_all:
  assumes inv: "ufs_ok s"
  shows "\<exists>res. ufs_close fd s = Inr res \<and> ufs_ok (snd res) \<and> close_spec fd s res"
proof (cases "fd < 0 \<or> a_fds (abs_ufs s) (nat fd) = None")
  case True
  then show ?thesis
    using inv by (auto simp: invalid_fd_simps [OF inv True] close_spec_def refused_def)
next
  case False
  then obtain a pos flag where fd: "a_fds (abs_ufs s) (nat fd) = Some (a, pos, flag)" "0 \<le> fd" by auto
  from ufs_close_ok [OF inv fd(1)] fd show ?thesis by (auto simp: close_spec_def)
qed

definition resize_spec :: "int \<Rightarrow> nat \<Rightarrow> ufs \<Rightarrow> int \<times> ufs \<Rightarrow> bool" where
  "resize_spec fd n s res \<longleftrightarrow>
     (case if fd < 0 then None else a_fds (abs_ufs s) (nat fd) of
        None \<Rightarrow> refused s UFS_ERR_NO_FILE res
      | Some (a, pos, flag) \<Rightarrow>
          if flag AND UFS_READ_ONLY \<noteq> 0 then refused s UFS_ERR_NO_PERMISSION res
          else if n > MAX_FILE_SIZE then refused s UFS_ERR_NO_MEM res
          else fst res = 0 \<and> abs_ufs (snd res) = a_resize a (resized (the (heap s a)) n) (abs_ufs s))"

lemma ufs_resize_all:
  assumes inv: "ufs_ok s" and n: "0 < n"
    and safe: "\<And>a pos flag. a_fds (abs_ufs s) (nat fd) = Some (a, pos, flag) \<Longrightarrow> resize_safe s a n"
  shows "\<exists>res. ufs_resize fd n s = Inr res \<and> ufs_ok (snd res) \<and> resize_spec fd n s res"
proof (cases "fd < 0 \<or> a_fds (abs_ufs s) (nat fd) = None")
  case True
  then show ?thesis
    using inv by (auto simp: invalid_fd_simps [OF inv True] resize_spec_def refused_def)
next
  case False
  then obtain a pos flag where fd: "a_fds (abs_ufs s) (nat fd) = Some (a, pos, flag)" "0 \<le> fd" by auto
  consider "flag AND UFS_READ_ONLY \<noteq> 0" | "flag AND UFS_READ_ONLY = 0" "n > MAX_FILE_SIZE"
    | "flag AND UFS_READ_ONLY = 0" "n \<le> MAX_FILE_SIZE" by linarith
  then show ?thesis
  proof cases
    case 1
    show ?thesis
      by (rule fd_open [OF inv fd(1)])
        (use inv fd 1 in \<open>simp add: ufs_resize_def is_valid_file_ok [OF inv] resize_spec_def refused_def\<close>)
  next
    case 2
    show ?thesis
      by (rule fd_open [OF inv fd(1)])
        (use inv fd 2 in \<open>simp add: ufs_resize_def is_valid_file_ok [OF inv] resize_spec_def refused_def\<close>)
  next
    case 3
    from ufs_resize_ok [OF inv fd(1) 3(1) n 3(2) safe [OF fd(1)]] fd 3
    show ?thesis by (auto simp: resize_spec_def)
  qed
qed

section \<open>Descriptors as a byte interface\<close>

text \<open>
  What a client of the file system relies on: a state with an invariant and an abstract view, in
  which writing and reading through a descriptor act on the bytes behind its position.
\<close>

locale byte_files =
  fixes ok :: "'s \<Rightarrow> bool"
    and view :: "'s \<Rightarrow> afs"
    and wr :: "int \<Rightarrow> char list \<Rightarrow> 's \<Rightarrow> (int \<times> 's) cres"
    and rd :: "int \<Rightarrow> nat \<Rightarrow> 's \<Rightarrow> (int \<times> char list \<times> 's) cres"
  assumes position_inside: "ok s \<Longrightarrow> a_fds (view s) fd = Some (a, pos, flag) \<Longrightarrow>
      \<exists>c. a_files (view s) a = Some c \<and> pos \<le> length c"
    and write_law: "ok s \<Longrightarrow> a_fds (view s) fd = Some (a, pos, flag) \<Longrightarrow> flag AND UFS_READ_ONLY = 0 \<Longrightarrow>
      pos + length buf \<le> MAX_FILE_SIZE \<Longrightarrow>
      \<exists>s'. wr (int fd) buf s = Inr (int (length buf), s') \<and> ok s' \<and> view s' = a_write fd buf (view s)"
    and read_law: "ok s \<Longrightarrow> a_fds (view s) fd = Some (a, pos, flag) \<Longrightarrow> flag AND UFS_WRITE_ONLY = 0 \<Longrightarrow>
      \<exists>s'. rd (int fd) n s = Inr (int (length (fst (a_read fd n (view s)))), fst (a_read fd n (view s)), s') \<and>
        ok s' \<and> view s' = snd (a_read fd n (view s))"
begin

lemma write_then_read:
  assumes "ok s" "a_fds (view s) w = Some (a, pos, wflag)" "wflag AND UFS_READ_ONLY = 0"
    and "a_fds (view s) r = Some (a, pos, rflag)" "rflag AND UFS_WRITE_ONLY = 0" "r \<noteq> w"
    and "pos + length buf \<le> MAX_FILE_SIZE"
  shows "\<exists>s' s''. wr (int w) buf s = Inr (int (length buf), s') \<and>
    rd (int r) (length buf) s' = Inr (int (length buf), buf, s'') \<and> ok s''"
proof -
  obtain c where c: "a_files (view s) a = Some c" "pos \<le> length c"
    using position_inside [OF assms(1,2)] by blast
  obtain s' where s': "wr (int w) buf s = Inr (int (length buf), s')" "ok s'" "view s' = a_write w buf (view s)"
    using write_law [OF assms(1-3,7)] by blast
  have r: "a_fds (view s') r = Some (a, pos, rflag)" "a_files (view s') a = Some (mem_write c pos buf)"
    using assms(2,4,6) c by (simp_all add: s'(3) a_write_def)
  have "a_read r (length buf) (view s') =
      (buf, view s'\<lparr>a_fds := (a_fds (view s'))(r \<mapsto> (a, pos + length buf, rflag))\<rparr>)"
    using r c(2) by (simp add: a_read_def mem_write_def)
  with read_law [OF s'(2) r(1) assms(5), of "length buf"] s'(1) show ?thesis by auto
qed

text \<open>Two writes in a row are one write of both buffers.\<close>

lemma write_write:
  assumes "ok s" "a_fds (view s) w = Some (a, pos, flag)" "flag AND UFS_READ_ONLY = 0"
    and "pos + length xs + length ys \<le> MAX_FILE_SIZE"
  shows "\<exists>s1 s2 t. wr (int w) xs s = Inr (int (length xs), s1) \<and>
    wr (int w) ys s1 = Inr (int (length ys), s2) \<and>
    wr (int w) (xs @ ys) s = Inr (int (length (xs @ ys)), t) \<and> view t = view s2"
proof -
  obtain c where c: "a_files (view s) a = Some c" "pos \<le> length c"
    using position_inside [OF assms(1,2)] by blast
  obtain s1 where s1: "wr (int w) xs s = Inr (int (length xs), s1)" "ok s1" "view s1 = a_write w xs (view s)"
    using write_law [OF assms(1-3), of xs] assms(4) by auto
  have w1: "a_fds (view s1) w = Some (a, pos + length xs, flag)" using assms(2) by (simp add: s1(3) a_write_def)
  obtain s2 where s2: "wr (int w) ys s1 = Inr (int (length ys), s2)" "view s2 = a_write w ys (view s1)"
    using write_law [OF s1(2) w1 assms(3), of ys] assms(4) by auto
  obtain t where t: "wr (int w) (xs @ ys) s = Inr (int (length (xs @ ys)), t)"
      "view t = a_write w (xs @ ys) (view s)"
    using write_law [OF assms(1-3), of "xs @ ys"] assms(4) by auto
  have "view t = view s2"
    using assms(2) c by (simp add: t(2) s2(2) s1(3) a_write_def mem_write_mem_write add.assoc)
  with s1 s2 t show ?thesis by blast
qed

end

interpretation ufs_io: byte_files ufs_ok abs_ufs ufs_write ufs_read
proof
  fix s fd a pos flag
  assume "ufs_ok s" "a_fds (abs_ufs s) fd = Some (a, pos, flag)"
  then show "\<exists>c. a_files (abs_ufs s) a = Some c \<and> pos \<le> length c" by (rule fd_open) blast
qed (auto dest: ufs_write_ok ufs_read_ok)

section \<open>Reachable states\<close>

lemma ufs_init_ok: "ufs_ok ufs_init"
  by (simp add: ufs_inv_def ufs_init_def live_def)

lemma ufs_call_ok:
  assumes inv: "ufs_ok s" and ok: "request_ok c s"
  shows "\<exists>r out s'. ufs_call c s = Inr (r, out, s') \<and> ufs_ok s'"
proof (cases c)
  case (Open name flags)
  from ufs_open_all [OF inv, of name flags] Open show ?thesis by (auto simp: ufs_call_def)
next
  case (Write fd buf)
  from ufs_write_all [OF inv, of buf fd] Write ok show ?thesis by (auto simp: ufs_call_def request_ok_def)
next
  case (Read fd n)
  from ufs_read_all [OF inv, of fd n] Read show ?thesis by (auto simp: ufs_call_def)
next
  case (Close fd)
  from ufs_close_all [OF inv, of fd] Close show ?thesis by (auto simp: ufs_call_def)
next
  case (Delete name)
  from ufs_delete_refines [OF inv, of name] Delete show ?thesis by (auto simp: ufs_call_def)
next
  case (Resize fd n)
  from ok Resize have "0 < n" "\<And>a pos flag. a_fds (abs_ufs s) (nat fd) = Some (a, pos, flag) \<Longrightarrow> resize_safe s a n"
    by (auto simp: request_ok_def)
  from ufs_resize_all [OF inv this(1), of fd] this(2) Resize show ?thesis by (auto simp: ufs_call_def)
qed

lemma ufs_reachable_ok: "ufs_reachable s \<Longrightarrow> ufs_ok s"
proof (induction rule: ufs_reachable.induct)
  case init
  show ?case by (rule ufs_init_ok)
next
  case (call s c r out s')
  with ufs_call_ok [of s c] show ?case by simp
qed

lemma ufs_calls_reachable:
  "ufs_reachable s \<Longrightarrow> (\<And>c s. c \<in> set cs \<Longrightarrow> request_ok c s) \<Longrightarrow>
     \<exists>rs s'. ufs_calls cs s = Inr (rs, s') \<and> ufs_reachable s'"
proof (induction cs arbitrary: s)
  case (Cons c cs)
  have "request_ok c s" using Cons.prems(2) by simp
  with ufs_call_ok [OF ufs_reachable_ok [OF Cons.prems(1)]] obtain r out s1 where
    s1: "ufs_call c s = Inr (r, out, s1)" by blast
  from Cons.IH [of s1] ufs_reachable.call [OF Cons.prems(1) \<open>request_ok c s\<close> s1] Cons.prems(2)
  obtain rs s' where "ufs_calls cs s1 = Inr (rs, s')" "ufs_reachable s'" by auto
  with s1 show ?case by simp
qed simp

text \<open>A state for the witnesses: an empty file, opened three times.\<close>

definition demo_calls :: "ufs_request list" where
  "demo_calls = [Open ''a'' 1, Open ''a'' 0, Open ''a'' 0]"

definition demo_fs :: ufs where
  "demo_fs = (case ufs_calls demo_calls ufs_init of Inr (_, s) \<Rightarrow> s | Inl _ \<Rightarrow> ufs_init)"

lemma demo_reachable: "ufs_reachable demo_fs"
proof -
  have "\<And>c s. c \<in> set demo_calls \<Longrightarrow> request_ok c s" by (auto simp: demo_calls_def request_ok_def)
  from ufs_calls_reachable [OF ufs_reachable.init this, of demo_calls]
  show ?thesis by (auto simp: demo_fs_def)
qed

lemmas demo_ok = ufs_reachable_ok [OF demo_reachable]

lemma demo_fds:
  "a_fds (abs_ufs demo_fs) 0 = Some (0, 0, 1)" "a_fds (abs_ufs demo_fs) 1 = Some (0, 0, 0)"
  "a_fds (abs_ufs demo_fs) 2 = Some (0, 0, 0)"
  by code_simp+

section \<open>Properties\<close>



text \<open>
  (C8) Writing. On an open descriptor with the permission, a write replaces the bytes from the
  position on, extends the file if needed, advances this descriptor only and returns the number
  of bytes; a bad descriptor, a missing permission and a file of more than 100 MB are refused
  with their error codes and change nothing else.
\<close>

theorem ufs_write_refines:
  assumes "ufs_ok s" and "length buf < 2 ^ 63"
  shows "\<exists>res. ufs_write fd buf s = Inr res \<and> ufs_ok (snd res) \<and> write_spec fd buf s res"
  by (rule ufs_write_all [OF assms])

theorem ufs_write_refines_witness:
  "\<exists>res. ufs_write 1 ''x'' demo_fs = Inr res \<and> ufs_ok (snd res) \<and> write_spec 1 ''x'' demo_fs res"
  using ufs_write_refines [OF demo_ok, of "''x''" 1] by simp

text \<open>
  (C9) Reading. On an open descriptor with the permission, a read returns the bytes from the
  position on, at most as many as asked for and fewer only at the end of the file, advances this
  descriptor and changes nothing else.
\<close>

theorem ufs_read_refines:
  assumes "ufs_ok s"
  shows "\<exists>r out s'. ufs_read fd n s = Inr (r, out, s') \<and> ufs_ok s' \<and> read_spec fd n s (r, out, s')"
  by (rule ufs_read_all [OF assms])

theorem ufs_read_refines_witness:
  "\<exists>r out s'. ufs_read 1 5 demo_fs = Inr (r, out, s') \<and> ufs_ok s' \<and> read_spec 1 5 demo_fs (r, out, s')"
  by (rule ufs_read_refines [OF demo_ok])



text \<open>
  (C11) Closing and deleting. Closing releases the descriptor, deleting removes the name; the bytes
  of a file live on exactly as long as a name or an open descriptor leads to it.
\<close>

theorem ufs_close_delete_refine:
  assumes "ufs_ok s"
  shows "(\<exists>res. ufs_close fd s = Inr res \<and> ufs_ok (snd res) \<and> close_spec fd s res) \<and>
    (\<exists>r s'. ufs_delete name s = Inr (r, s') \<and> ufs_ok s' \<and> abs_ufs s' = a_delete name (abs_ufs s) \<and>
      (if a_names (abs_ufs s) name = None then r = -1 \<and> ufs_errno s' = UFS_ERR_NO_FILE
       else r = 0 \<and> ufs_errno s' = ufs_errno s))"
  using ufs_close_all [OF assms] ufs_delete_refines [OF assms] by blast

theorem ufs_close_delete_refine_witness:
  "\<exists>res. ufs_close 1 demo_fs = Inr res \<and> ufs_ok (snd res) \<and> close_spec 1 demo_fs res"
  using ufs_close_delete_refine [OF demo_ok, of 1] by blast

text \<open>
  (C12) What is written can be read. After a write through one descriptor, a read of as many bytes
  through another descriptor of the same file at the same position returns exactly these bytes.
\<close>

theorem ufs_write_read_roundtrip:
  assumes "ufs_ok s" "a_fds (abs_ufs s) w = Some (a, pos, wflag)" "wflag AND UFS_READ_ONLY = 0"
    and "a_fds (abs_ufs s) r = Some (a, pos, rflag)" "rflag AND UFS_WRITE_ONLY = 0" "r \<noteq> w"
    and "pos + length buf \<le> MAX_FILE_SIZE"
  shows "\<exists>s' s''. ufs_write (int w) buf s = Inr (int (length buf), s') \<and>
    ufs_read (int r) (length buf) s' = Inr (int (length buf), buf, s'') \<and> ufs_ok s''"
  by (rule ufs_io.write_then_read [OF assms])

theorem ufs_write_read_roundtrip_witness:
  "\<exists>s' s''. ufs_write 1 ''xy'' demo_fs = Inr (2, s') \<and> ufs_read 2 2 s' = Inr (2, ''xy'', s'') \<and> ufs_ok s''"
  using ufs_write_read_roundtrip [OF demo_ok demo_fds(2) _ demo_fds(3), of "''xy''"]
  by (simp add: numeral_2_eq_2)



text \<open>
  Resizing to zero always fails: the loop keeps no block and the code writes through the null
  pointer \<open>tmp\<close>.
\<close>

theorem ufs_resize_zero_crashes:
  assumes "ufs_ok s" "a_fds (abs_ufs s) fd = Some (a, pos, flag)" "flag AND UFS_READ_ONLY = 0"
  shows "ufs_resize (int fd) 0 s = Inl NullDeref"
  by (rule fd_open [OF assms(1,2)])
    (use assms in \<open>simp add: ufs_resize_def is_valid_file_ok [OF assms(1)] resize_loop.simps Let_def\<close>)

theorem ufs_resize_zero_crashes_witness: "ufs_resize 0 0 demo_fs = Inl NullDeref"
  using ufs_resize_zero_crashes [OF demo_ok demo_fds(1)] by simp

text \<open>
  A descriptor whose number is not below the count of open descriptors is missed by the last
  loop of \<open>ufs_resize\<close>: it stays behind the new end of the file, and a read through it copies
  from behind the memory of the block.
\<close>

theorem ufs_resize_misses_descriptor:
  assumes inv: "ufs_ok s" and fd: "a_fds (abs_ufs s) fd = Some (a, pos, flag)"
    and flag: "flag AND UFS_READ_ONLY = 0" "flag AND UFS_WRITE_ONLY = 0"
    and n: "0 < n" "n < pos" "pos < BLOCK_SIZE" and miss: "file_descriptor_count s \<le> int fd"
  shows "\<exists>s'. ufs_resize (int fd) n s = Inr (0, s') \<and> a_fds (abs_ufs s') fd = Some (a, pos, flag) \<and>
    map_option length (a_files (abs_ufs s') a) = Some n \<and> ufs_read (int fd) BLOCK_SIZE s' = Inl OutOfBounds"
proof (rule fd_open [OF inv fd])
  fix d f
  assume i: "fd < length (file_descriptors s)" "file_descriptors s ! fd = Some d"
    and d: "d_file d = Some a" "d_pos d = pos" "d_flag d = flag" "\<not> is_free d"
    and f: "heap s a = Some f" "file_ok f"
  let ?f = "f\<lparr>block_list := resize_loop 0 n (block_list f)\<rparr>"
  define s1 where "s1 = set_file a ?f s"
  define s' where "s' = s1\<lparr>file_descriptors := clamped s1 (f_name f) n\<rparr>"
  have "n \<le> MAX_FILE_SIZE" using n by linarith
  then have res: "ufs_resize (int fd) n s = Inr (0, s')"
    using ufs_resize_result [OF inv fd flag(1) n(1) _ f(1)] by (simp add: Let_def s1_def s'_def)
  have ds: "fd < length (file_descriptors s')" "file_descriptors s' ! fd = Some d"
    using i miss ufs_count_le [OF inv] by (auto simp: s'_def clamped_def Let_def nth_append s1_def)
  have h: "heap s' a = Some ?f" by (simp add: s'_def s1_def)
  obtain b where b: "resize_loop 0 n (block_list f) = [b]" "occupied b = n"
    using n by (simp add: resize_loop.simps Let_def)
  have "length (content (block_list ?f)) = n"
    using resized_blocks(1) [of f n] f(2) by (simp add: file_ok_def resized_def)
  then have "map_option length (a_files (abs_ufs s') a) = Some n" using h by (simp add: abs_ufs_def)
  moreover have v: "a_fds (abs_ufs s') fd = Some (a, pos, flag)"
    using ds d by (simp add: fds_abs view_fds_def)
  moreover have "ufs_read (int fd) BLOCK_SIZE s' = Inl OutOfBounds"
    using ds d flag h b n
    by (simp add: ufs_read_def is_valid_file_def get_fd_ok deref_ok)
  ultimately show ?thesis using res by blast
qed

text \<open>Such a state: descriptors 0 and 2 of three are closed and 1 has written five bytes.\<close>

definition gap_calls :: "ufs_request list" where
  "gap_calls = demo_calls @ [Close 0, Close 2]"

definition gap_fs :: ufs where
  "gap_fs = (case ufs_calls gap_calls ufs_init of Inr (_, s) \<Rightarrow> s | Inl _ \<Rightarrow> ufs_init)"

lemma gap_ok: "ufs_ok gap_fs"
proof -
  have "\<And>c s. c \<in> set gap_calls \<Longrightarrow> request_ok c s"
    by (auto simp: gap_calls_def demo_calls_def request_ok_def)
  from ufs_calls_reachable [OF ufs_reachable.init this, of gap_calls] ufs_reachable_ok
  show ?thesis by (auto simp: gap_fs_def)
qed

lemma ufs_write_count:
  "ufs_write fd buf s = Inr (r, s') \<Longrightarrow> file_descriptor_count s' = file_descriptor_count s"
  by (auto simp: ufs_write_def res_simps Let_def split_beta split: if_splits)

theorem ufs_resize_misses_descriptor_witness:
  "\<exists>s s'. ufs_ok s \<and> ufs_resize 1 2 s = Inr (0, s') \<and> ufs_read 1 BLOCK_SIZE s' = Inl OutOfBounds"
proof -
  have fd: "a_fds (abs_ufs gap_fs) 1 = Some (0, 0, 0)" and c: "file_descriptor_count gap_fs = 1"
    by code_simp+
  from ufs_write_ok [OF gap_ok fd, of "''hello''"] obtain s where
    s: "ufs_write 1 ''hello'' gap_fs = Inr (5, s)" "ufs_ok s" "abs_ufs s = a_write 1 ''hello'' (abs_ufs gap_fs)"
    by auto
  have "a_fds (abs_ufs s) 1 = Some (0, 5, 0)" using fd by (simp add: s(3) a_write_def)
  from ufs_resize_misses_descriptor [OF s(2) this, of 2] ufs_write_count [OF s(1)] c s(2)
  show ?thesis by auto
qed

end
