(* ===== verification/Queue.thy ===== *)
theory Queue
  imports Prelude
begin

text \<open>
  Singly linked queues as src/5/chat.c and src/4/thread_pool.c build them: cells on the heap, a
  pointer to the first and to the last cell and a counter. The locale states what both programs
  rely on; the two implementations are interpreted where they are modelled.
\<close>

section \<open>The contract\<close>

datatype 'a qop = Add 'a | Pop

fun run_ops :: "('q \<Rightarrow> 'a \<Rightarrow> 'q cres) \<Rightarrow> ('q \<Rightarrow> ('a option \<times> 'q) cres) \<Rightarrow> 'a qop list \<Rightarrow> 'q \<Rightarrow>
    ('a option list \<times> 'q) cres" where
  "run_ops add pop [] q = Inr ([], q)"
| "run_ops add pop (Add x # ops) q = rbind (add q x) (run_ops add pop ops)"
| "run_ops add pop (Pop # ops) q =
     rbind (pop q) (\<lambda>(r, q). rbind (run_ops add pop ops q) (\<lambda>(rs, q). Inr (r # rs, q)))"

text \<open>The same operations on a list.\<close>

fun list_ops :: "'a qop list \<Rightarrow> 'a list \<Rightarrow> 'a option list \<times> 'a list" where
  "list_ops [] xs = ([], xs)"
| "list_ops (Add x # ops) xs = list_ops ops (xs @ [x])"
| "list_ops (Pop # ops) [] = (let (rs, ys) = list_ops ops [] in (None # rs, ys))"
| "list_ops (Pop # ops) (x # xs) = (let (rs, ys) = list_ops ops xs in (Some x # rs, ys))"

locale fifo_queue =
  fixes ok :: "'q \<Rightarrow> bool"
    and items :: "'q \<Rightarrow> 'a list"
    and empty :: 'q
    and add :: "'q \<Rightarrow> 'a \<Rightarrow> 'q cres"
    and pop :: "'q \<Rightarrow> ('a option \<times> 'q) cres"
  assumes empty_ok: "ok empty" "items empty = []"
    and add_ok: "ok q \<Longrightarrow> \<exists>q'. add q x = Inr q' \<and> ok q' \<and> items q' = items q @ [x]"
    and pop_none: "ok q \<Longrightarrow> items q = [] \<Longrightarrow> pop q = Inr (None, q)"
    and pop_some: "ok q \<Longrightarrow> items q = x # xs \<Longrightarrow> \<exists>q'. pop q = Inr (Some x, q') \<and> ok q' \<and> items q' = xs"
begin

lemma run_ops_ok:
  "ok q \<Longrightarrow> \<exists>rs q'. run_ops add pop ops q = Inr (rs, q') \<and> ok q' \<and> list_ops ops (items q) = (rs, items q')"
proof (induction ops arbitrary: q)
  case (Cons c ops)
  note IH = Cons.IH and q = Cons.prems
  show ?case
  proof (cases c)
    case (Add x)
    from add_ok [OF q, of x] obtain q1 where "add q x = Inr q1" "ok q1" "items q1 = items q @ [x]" by blast
    with IH [of q1] Add show ?thesis by auto
  next
    case Pop
    show ?thesis
    proof (cases "items q")
      case Nil
      with IH [OF q] pop_none [OF q Nil] Pop show ?thesis by auto
    next
      case (Cons x xs)
      from pop_some [OF q Cons] obtain q1 where "pop q = Inr (Some x, q1)" "ok q1" "items q1 = xs" by blast
      with IH [of q1] Pop Cons show ?thesis by auto
    qed
  qed
qed simp

end

section \<open>Linked cells\<close>

record 'a lqueue =
  cells :: "nat \<Rightarrow> ('a \<times> nat option) option"
  fresh_cell :: nat
  first :: "nat option"
  last_elm :: "nat option"
  cnt :: int

definition lqueue_empty :: "'a lqueue" where
  "lqueue_empty = \<lparr>cells = Map.empty, fresh_cell = 0, first = None, last_elm = None, cnt = 0\<rparr>"

text \<open>The cells at the addresses \<open>as\<close> hold \<open>xs\<close> and are linked in this order.\<close>

fun linked :: "(nat \<Rightarrow> ('a \<times> nat option) option) \<Rightarrow> nat list \<Rightarrow> 'a list \<Rightarrow> bool" where
  "linked h [] [] \<longleftrightarrow> True"
| "linked h [a] [x] \<longleftrightarrow> h a = Some (x, None)"
| "linked h (a # b # as) (x # xs) \<longleftrightarrow> h a = Some (x, Some b) \<and> linked h (b # as) xs"
| "linked h as xs \<longleftrightarrow> False"

definition lqueue_rep :: "'a lqueue \<Rightarrow> nat list \<Rightarrow> 'a list \<Rightarrow> bool" where
  "lqueue_rep q as xs \<longleftrightarrow> linked (cells q) as xs \<and> distinct as \<and> dom (cells q) = set as \<and>
     (\<forall>a \<in> set as. a < fresh_cell q) \<and> first q = ptr_hd as \<and> last_elm q = ptr_hd (rev as) \<and>
     cnt q = int (length xs)"

definition lqueue_ok :: "'a lqueue \<Rightarrow> bool" where
  "lqueue_ok q \<longleftrightarrow> (\<exists>as xs. lqueue_rep q as xs)"

text \<open>The contents, read along the links.\<close>

fun follow :: "(nat \<Rightarrow> ('a \<times> nat option) option) \<Rightarrow> nat option \<Rightarrow> nat \<Rightarrow> 'a list" where
  "follow h p 0 = []"
| "follow h None (Suc n) = []"
| "follow h (Some a) (Suc n) = (case h a of None \<Rightarrow> [] | Some (x, nx) \<Rightarrow> x # follow h nx n)"

definition lqueue_items :: "'a lqueue \<Rightarrow> 'a list" where
  "lqueue_items q = follow (cells q) (first q) (nat (cnt q))"

lemma linked_length: "linked h as xs \<Longrightarrow> length as = length xs"
  by (induction h as xs rule: linked.induct) auto

lemma linked_follow: "linked h as xs \<Longrightarrow> follow h (ptr_hd as) (length xs) = xs"
  by (induction h as xs rule: linked.induct) (auto simp: ptr_hd_def)

lemma linked_cong: "(\<And>a. a \<in> set as \<Longrightarrow> h a = h' a) \<Longrightarrow> linked h as xs = linked h' as xs"
  by (induction h as xs rule: linked.induct) auto

lemma linked_snoc:
  "linked h as xs \<Longrightarrow> as \<noteq> [] \<Longrightarrow> distinct (as @ [b]) \<Longrightarrow>
     linked (h(b \<mapsto> (y, None), last as \<mapsto> (last xs, Some b))) (as @ [b]) (xs @ [y])"
proof (induction h as xs rule: linked.induct)
  case (3 h a c as x xs)
  have ne: "xs \<noteq> []" using 3(2) linked_length by fastforce
  have "last (c # as) \<noteq> a" using 3(4) by (metis distinct.simps(2) last_in_set list.distinct(1) append_Cons Un_iff set_append)
  with 3 ne show ?case by auto
qed auto

lemma rep_items: "lqueue_rep q as xs \<Longrightarrow> lqueue_items q = xs"
  using linked_follow by (fastforce simp: lqueue_rep_def lqueue_items_def)

lemma lqueue_ok_rep: "lqueue_ok q \<Longrightarrow> \<exists>as. lqueue_rep q as (lqueue_items q)"
  by (auto simp: lqueue_ok_def rep_items)

lemma empty_rep: "lqueue_rep lqueue_empty [] []"
  by (simp add: lqueue_rep_def lqueue_empty_def ptr_hd_def)

lemma ptr_hd_snoc [simp]: "ptr_hd (as @ [b]) = Some (hd (as @ [b]))"
  by (simp add: ptr_hd_def)

lemma rep_add_first:
  assumes "lqueue_rep q [] []"
  shows "lqueue_rep (q\<lparr>cells := (cells q)(fresh_cell q \<mapsto> (x, None)), fresh_cell := fresh_cell q + 1,
    first := Some (fresh_cell q), last_elm := Some (fresh_cell q), cnt := cnt q + 1\<rparr>) [fresh_cell q] [x]"
  using assms by (auto simp: lqueue_rep_def)

lemma linked_nth_last: "linked h as xs \<Longrightarrow> as \<noteq> [] \<Longrightarrow> h (last as) = Some (last xs, None)"
proof (induction h as xs rule: linked.induct)
  case (3 h a b as x xs)
  then show ?case using linked_length [of h "b # as" xs] by auto
qed auto

lemma rep_add_last:
  assumes rep: "lqueue_rep q as xs" and ne: "as \<noteq> []"
  shows "last_elm q = Some (last as)" "last as \<noteq> fresh_cell q" "cells q (last as) = Some (last xs, None)"
    "cnt q \<noteq> 0"
    "lqueue_rep (q\<lparr>cells := (cells q)(fresh_cell q \<mapsto> (x, None), last as \<mapsto> (last xs, Some (fresh_cell q))),
      fresh_cell := fresh_cell q + 1, last_elm := Some (fresh_cell q), cnt := cnt q + 1\<rparr>)
      (as @ [fresh_cell q]) (xs @ [x])"
proof -
  have l: "linked (cells q) as xs" "distinct as" "\<forall>a \<in> set as. a < fresh_cell q" "dom (cells q) = set as"
    using rep by (auto simp: lqueue_rep_def)
  have d: "distinct (as @ [fresh_cell q])" using l by auto
  show "last_elm q = Some (last as)" using rep ne by (simp add: lqueue_rep_def ptr_hd_def hd_rev)
  show "last as \<noteq> fresh_cell q" using bspec [OF l(3) last_in_set [OF ne]] by simp
  show "cells q (last as) = Some (last xs, None)" by (rule linked_nth_last [OF l(1) ne])
  show "cnt q \<noteq> 0" using rep ne linked_length [OF l(1)] by (auto simp: lqueue_rep_def)
  have mem: "last as \<in> set as" using ne by simp
  let ?h = "(cells q)(fresh_cell q \<mapsto> (x, None), last as \<mapsto> (last xs, Some (fresh_cell q)))"
  have "linked ?h (as @ [fresh_cell q]) (xs @ [x])" by (rule linked_snoc [OF l(1) ne d])
  moreover have "dom ?h = set (as @ [fresh_cell q])" using l(4) mem by auto
  moreover have "\<forall>a \<in> set (as @ [fresh_cell q]). a < fresh_cell q + 1" using l(3) by (auto simp: less_Suc_eq)
  moreover have "first q = ptr_hd (as @ [fresh_cell q])" using rep ne by (simp add: lqueue_rep_def ptr_hd_def)
  moreover have "cnt q = int (length xs)" using rep by (simp add: lqueue_rep_def)
  ultimately show "lqueue_rep (q\<lparr>cells := ?h, fresh_cell := fresh_cell q + 1,
      last_elm := Some (fresh_cell q), cnt := cnt q + 1\<rparr>) (as @ [fresh_cell q]) (xs @ [x])"
    using d unfolding lqueue_rep_def by simp
qed

lemma rep_pop:
  assumes rep: "lqueue_rep q (a # as) (x # xs)"
  shows "first q = Some a" "cells q a = Some (x, ptr_hd as)" "cnt q \<noteq> 0" "cnt q - 1 = 0 \<longleftrightarrow> as = []"
    "lqueue_rep (q\<lparr>cells := (cells q)(a := None), first := ptr_hd as,
      last_elm := (if as = [] then None else last_elm q), cnt := cnt q - 1\<rparr>) as xs"
proof -
  have l: "linked (cells q) (a # as) (x # xs)" and d: "distinct (a # as)" using rep by (auto simp: lqueue_rep_def)
  have c: "cells q a = Some (x, ptr_hd as) \<and> linked (cells q) as xs"
    using l by (cases as; cases xs) auto
  moreover have "linked ((cells q)(a := None)) as xs"
    using c d by (subst linked_cong [of as "(cells q)(a := None)" "cells q" xs]) auto
  moreover have "length as = length xs" using linked_length [OF l] by simp
  ultimately show "first q = Some a" "cells q a = Some (x, ptr_hd as)" "cnt q \<noteq> 0" "cnt q - 1 = 0 \<longleftrightarrow> as = []"
    "lqueue_rep (q\<lparr>cells := (cells q)(a := None), first := ptr_hd as,
      last_elm := (if as = [] then None else last_elm q), cnt := cnt q - 1\<rparr>) as xs"
    using rep by (auto simp: lqueue_rep_def ptr_hd_def)
qed

lemma rep_cong:
  "lqueue_rep q as xs \<Longrightarrow> cells q' = cells q \<Longrightarrow> fresh_cell q' = fresh_cell q \<Longrightarrow> first q' = first q \<Longrightarrow>
   last_elm q' = last_elm q \<Longrightarrow> cnt q' = cnt q \<Longrightarrow> lqueue_rep q' as xs"
  by (simp add: lqueue_rep_def)

lemma rep_empty_iff: "lqueue_rep q as xs \<Longrightarrow> cnt q = 0 \<longleftrightarrow> xs = []" "lqueue_rep q as xs \<Longrightarrow> as = [] \<longleftrightarrow> xs = []"
  using linked_length by (fastforce simp: lqueue_rep_def)+

end
