(* ===== verification/Chat.thy ===== *)
theory Chat
  imports Queue
begin

text \<open>
  The shared part of the chat, src/5/chat.c: messages, the trimming of a message, the wire format
  (four bytes of length and the text) with its partial sends and receives, and the message queue.
  The network is a parameter, the record \<open>net\<close>, over an arbitrary world.
\<close>

unbundle bit_operations_syntax

section \<open>Messages\<close>

datatype chat_errcode =
    CHAT_ERR_INVALID_ARGUMENT
  | CHAT_ERR_TIMEOUT
  | CHAT_ERR_PORT_BUSY
  | CHAT_ERR_NO_ADDR
  | CHAT_ERR_ALREADY_STARTED
  | CHAT_ERR_NOT_IMPLEMENTED
  | CHAT_ERR_NOT_STARTED
  | CHAT_ERR_SYS

text \<open>
  \<open>author\<close> is the text of a zero-terminated string, \<open>data\<close> the bytes of a block that contains
  its terminating zero.
\<close>

record chat_message =
  author :: "string option"
  data :: "char list option"

definition no_message :: chat_message where
  "no_message = \<lparr>author = None, data = None\<rparr>"

abbreviation (input) CHAT_EVENT_INPUT :: i32 where "CHAT_EVENT_INPUT \<equiv> 1"
abbreviation (input) CHAT_EVENT_OUTPUT :: i32 where "CHAT_EVENT_OUTPUT \<equiv> 2"
abbreviation (input) POLLIN :: i32 where "POLLIN \<equiv> 1"
abbreviation (input) POLLOUT :: i32 where "POLLOUT \<equiv> 4"

definition chat_events_to_poll_events :: "i32 \<Rightarrow> i32" where
  "chat_events_to_poll_events events_mask =
     (let res = 0;
          res = (if events_mask AND CHAT_EVENT_INPUT \<noteq> 0 then res OR POLLIN else res)
      in if events_mask AND CHAT_EVENT_OUTPUT \<noteq> 0 then res OR POLLOUT else res)"

section \<open>Trimming\<close>

function skip_start :: "char list \<Rightarrow> nat \<Rightarrow> nat \<Rightarrow> nat" where
  "skip_start m s_pos e_pos =
     (if s_pos < e_pos then if isspace (m ! s_pos) then skip_start m (s_pos + 1) e_pos else s_pos
      else s_pos)"
  by pat_completeness auto
termination
  by (relation "measure (\<lambda>(m, s_pos, e_pos). e_pos - s_pos)") auto

function skip_end :: "char list \<Rightarrow> nat \<Rightarrow> nat \<Rightarrow> nat" where
  "skip_end m s_pos e_pos =
     (if e_pos > s_pos then if isspace (m ! (e_pos - 1)) then skip_end m s_pos (e_pos - 1) else e_pos
      else e_pos)"
  by pat_completeness auto
termination
  by (relation "measure (\<lambda>(m, s_pos, e_pos). e_pos)") auto

declare skip_start.simps [simp del] skip_end.simps [simp del]

definition chat_message_remove_spacing :: "chat_message \<Rightarrow> nat \<times> chat_message" where
  "chat_message_remove_spacing msg =
     (case data msg of
        None \<Rightarrow> (0, msg)
      | Some m \<Rightarrow>
          let e_pos = length (c_str m);
              s_pos = skip_start m 0 e_pos;
              e_pos = skip_end m s_pos e_pos - s_pos
          in if e_pos = 0 then (0, msg)
             else (e_pos, msg\<lparr>data := Some (take e_pos (drop s_pos m) @ [ch_nul])\<rparr>))"

section \<open>The wire format\<close>

record 'w net =
  n_send :: "int \<Rightarrow> char list \<Rightarrow> 'w \<Rightarrow> int \<times> 'w"
  n_recv :: "int \<Rightarrow> nat \<Rightarrow> 'w \<Rightarrow> int \<times> char list \<times> 'w"
  n_wait :: "int \<Rightarrow> 'w \<Rightarrow> int \<times> int \<times> 'w"
  n_accept :: "int \<Rightarrow> 'w \<Rightarrow> int \<times> 'w"
  n_epoll_add :: "int \<Rightarrow> int \<Rightarrow> 'w \<Rightarrow> int \<times> 'w"
  n_epoll_del :: "int \<Rightarrow> int \<Rightarrow> 'w \<Rightarrow> 'w"
  n_epoll_create :: "'w \<Rightarrow> int \<times> 'w"
  n_close :: "int \<Rightarrow> 'w \<Rightarrow> 'w"
  n_socket :: "'w \<Rightarrow> int \<times> 'w"
  n_bind_listen :: "int \<Rightarrow> u16 \<Rightarrow> 'w \<Rightarrow> bool \<times> 'w"
  n_connect :: "int \<Rightarrow> string \<Rightarrow> u16 \<Rightarrow> 'w \<Rightarrow> bool \<times> 'w"

text \<open>The digits of a length to the base 256, the lowest first.\<close>

fun size_digits :: "nat \<Rightarrow> char list" where
  "size_digits sz = (if sz = 0 then [] else char_of (sz mod 256) # size_digits (sz div 256))"

declare size_digits.simps [simp del]

text \<open>
  A loop of \<open>send\<close> calls until the buffer is out or a call fails; \<open>Inl\<close> carries the result of the
  failed call. A call sends at least one and at most all of the bytes.
\<close>

function send_loop :: "'w net \<Rightarrow> int \<Rightarrow> char list \<Rightarrow> 'w \<Rightarrow> (int + unit) \<times> 'w" where
  "send_loop net sock buf w =
     (if buf = [] then (Inr (), w)
      else case n_send net sock buf w of (result, w) \<Rightarrow>
        if result \<le> 0 then (Inl result, w)
        else send_loop net sock (drop (nat result) buf) w)"
  by pat_completeness auto
termination
  by (relation "measure (\<lambda>(net, sock, buf, w). length buf)") auto

declare send_loop.simps [simp del]

definition send_sizes :: "'w net \<Rightarrow> nat \<Rightarrow> int \<Rightarrow> 'w \<Rightarrow> (int \<times> 'w) cres" where
  "send_sizes net sz sock w =
     (if length (size_digits sz) > 4 then Inl OutOfBounds
      else let size_buf = size_digits sz @ replicate (4 - length (size_digits sz)) ch_nul
           in case send_loop net sock size_buf w of
                (Inl result, w) \<Rightarrow> Inr (result, w)
              | (Inr _, w) \<Rightarrow> Inr (4, w))"

definition send_data :: "'w net \<Rightarrow> char list \<Rightarrow> int \<Rightarrow> 'w \<Rightarrow> (int \<times> 'w) cres" where
  "send_data net msg sock w =
     (case send_loop net sock (c_str msg) w of
        (Inl result, w) \<Rightarrow> Inr (result, w)
      | (Inr _, w) \<Rightarrow> Inr (int (length (c_str msg)), w))"

text \<open>Going on after a call with a positive result.\<close>

definition if_sent :: "(int \<times> 'w) cres \<Rightarrow> ('w \<Rightarrow> (int \<times> 'w) cres) \<Rightarrow> (int \<times> 'w) cres" where
  "if_sent r k = rbind r (\<lambda>(result, w). if result \<le> 0 then Inr (result, w) else k w)"

definition chat_message_send :: "'w net \<Rightarrow> chat_message \<Rightarrow> int \<Rightarrow> 'w \<Rightarrow> (int \<times> 'w) cres" where
  "chat_message_send net msg sock w =
     (case data msg of
        None \<Rightarrow> Inl NullDeref
      | Some m \<Rightarrow>
          let text = (\<lambda>w. if_sent (send_sizes net (length (c_str m)) sock w) (send_data net m sock))
          in case author msg of
               None \<Rightarrow> text w
             | Some a \<Rightarrow>
                 if_sent (send_sizes net (length (c_str a)) sock w) (\<lambda>w.
                 if_sent (send_data net a sock w) text))"

text \<open>
  A loop of \<open>recv\<close> calls until \<open>n\<close> bytes are there. A call returns at least one byte and at most
  the bytes asked for.
\<close>

function recv_loop :: "'w net \<Rightarrow> int \<Rightarrow> nat \<Rightarrow> 'w \<Rightarrow> (int + char list) \<times> 'w" where
  "recv_loop net sock n w =
     (if n = 0 then (Inr [], w)
      else case n_recv net sock n w of (result, bytes, w) \<Rightarrow>
        if result \<le> 0 then (Inl result, w)
        else case recv_loop net sock (n - nat result) w of
               (Inl r, w) \<Rightarrow> (Inl r, w)
             | (Inr rest, w) \<Rightarrow> (Inr (take (nat result) bytes @ rest), w))"
  by pat_completeness auto
termination
  by (relation "measure (\<lambda>(net, sock, n, w). n)") auto

declare recv_loop.simps [simp del]

text \<open>
  The length as the receiver computes it: a \<open>char\<close> is signed, so a byte above 127 is extended
  with ones to 32 bits.
\<close>

definition char_to_uint :: "char \<Rightarrow> u32" where
  "char_to_uint c = signed (of_char c :: u8)"

definition recv_size :: "char list \<Rightarrow> i32" where
  "recv_size size_buf = foldr (\<lambda>c msg_size. msg_size * 256 + char_to_uint c) size_buf 0"

definition chat_message_recv ::
  "'w net \<Rightarrow> chat_message \<Rightarrow> int \<Rightarrow> 'w \<Rightarrow> (int \<times> chat_message \<times> 'w) cres" where
  "chat_message_recv net msg sock w =
     (case recv_loop net sock 4 w of
        (Inl result, w) \<Rightarrow> Inr (result, msg, w)
      | (Inr size_buf, w) \<Rightarrow>
          let msg_size = sint (recv_size size_buf)
          in if msg_size < -1 then Inl NullDeref
             else if msg_size = -1 then Inl OutOfBounds
             else case recv_loop net sock (nat msg_size) w of
                    (Inl result, w) \<Rightarrow> Inr (result, msg\<lparr>data := Some (replicate (nat msg_size) ch_nul @ [ch_nul])\<rparr>, w)
                  | (Inr text, w) \<Rightarrow> Inr (msg_size, msg\<lparr>data := Some (text @ [ch_nul])\<rparr>, w))"

section \<open>The queue\<close>

type_synonym msg_queue = "chat_message lqueue"

definition queue_add :: "'a lqueue \<Rightarrow> 'a \<Rightarrow> 'a lqueue cres" where
  "queue_add queue msg =
     (let new_elm = fresh_cell queue;
          queue = queue\<lparr>cells := (cells queue)(new_elm \<mapsto> (msg, None)), fresh_cell := new_elm + 1\<rparr>
      in if cnt queue = 0
         then Inr (queue\<lparr>first := Some new_elm, last_elm := Some new_elm, cnt := cnt queue + 1\<rparr>)
         else case last_elm queue of
                None \<Rightarrow> Inl NullDeref
              | Some l \<Rightarrow>
                  (case cells queue l of
                     None \<Rightarrow> Inl UseAfterFree
                   | Some (m, _) \<Rightarrow>
                       Inr (queue\<lparr>cells := (cells queue)(l \<mapsto> (m, Some new_elm)),
                              last_elm := Some new_elm, cnt := cnt queue + 1\<rparr>)))"

definition queue_pop :: "'a lqueue \<Rightarrow> ('a option \<times> 'a lqueue) cres" where
  "queue_pop queue =
     (if cnt queue = 0 then Inr (None, queue)
      else case first queue of
             None \<Rightarrow> Inl NullDeref
           | Some elm \<Rightarrow>
               (case cells queue elm of
                  None \<Rightarrow> Inl UseAfterFree
                | Some (res, nx) \<Rightarrow>
                    let queue = queue\<lparr>cnt := cnt queue - 1\<rparr>;
                        queue = (if cnt queue = 0 then queue\<lparr>first := None, last_elm := None\<rparr>
                                 else queue\<lparr>first := nx\<rparr>)
                    in Inr (Some res, queue\<lparr>cells := (cells queue)(elm := None)\<rparr>)))"

lemma queue_add_rep:
  assumes "lqueue_rep q as xs"
  shows "\<exists>q'. queue_add q x = Inr q' \<and> lqueue_rep q' (as @ [fresh_cell q]) (xs @ [x])"
proof (cases "as = []")
  case True
  then have "xs = []" using rep_empty_iff(2) [OF assms] by simp
  with True assms rep_add_first [of q x] rep_empty_iff(1) [OF assms] show ?thesis
    by (simp add: queue_add_def Let_def)
next
  case False
  note r = rep_add_last(1-4) [OF assms False]
  from rep_add_last(5) [OF assms False, of x] show ?thesis
    using r by (simp add: queue_add_def Let_def lqueue_rep_def)
qed

lemma queue_pop_rep:
  assumes "lqueue_rep q (a # as) (x # xs)"
  shows "\<exists>q'. queue_pop q = Inr (Some x, q') \<and> lqueue_rep q' as xs"
proof -
  note r = rep_pop [OF assms]
  from r(1-4) obtain q' where "queue_pop q = Inr (Some x, q')" "cells q' = (cells q)(a := None)"
    "fresh_cell q' = fresh_cell q" "first q' = ptr_hd as" "cnt q' = cnt q - 1"
    "last_elm q' = (if as = [] then None else last_elm q)"
    by (cases "as = []") (simp_all add: queue_pop_def Let_def)
  with rep_cong [OF r(5), of q'] show ?thesis by simp
qed

interpretation chat_queue: fifo_queue lqueue_ok lqueue_items lqueue_empty queue_add queue_pop
proof
  show "lqueue_ok lqueue_empty" "lqueue_items lqueue_empty = []"
    using empty_rep rep_items by (auto simp: lqueue_ok_def)
  fix q :: "'a lqueue" and x
  assume "lqueue_ok q"
  then obtain as where r: "lqueue_rep q as (lqueue_items q)" using lqueue_ok_rep by blast
  from queue_add_rep [OF r, of x]
  show "\<exists>q'. queue_add q x = Inr q' \<and> lqueue_ok q' \<and> lqueue_items q' = lqueue_items q @ [x]"
    by (auto simp: lqueue_ok_def dest: rep_items)
  show "queue_pop q = Inr (None, q)" if "lqueue_items q = []"
    using rep_empty_iff(1) [OF r] that by (simp add: queue_pop_def)
  show "\<exists>q'. queue_pop q = Inr (Some x, q') \<and> lqueue_ok q' \<and> lqueue_items q' = xs"
    if "lqueue_items q = x # xs" for xs
  proof -
    from r that rep_empty_iff(2) [OF r] obtain a as' where "as = a # as'" by (cases as) auto
    with queue_pop_rep [of q a as' x xs] r that rep_items show ?thesis by (auto simp: lqueue_ok_def)
  qed
qed

end
