(* ===== verification/Chat_Wire.thy ===== *)
theory Chat_Wire
  imports Chat
begin

text \<open>
  Properties of the shared part of the chat: trimming equals its specification, what is sent over
  a byte stream that cuts the data anywhere is received again, lengths with a byte above 127 break
  the receiver, and the queue is a queue.
\<close>

section \<open>Trimming is what it says\<close>

definition trim :: "string \<Rightarrow> string" where
  "trim s = rev (dropWhile isspace (rev (dropWhile isspace s)))"

lemma skip_start_takeWhile:
  "e_pos \<le> length m \<Longrightarrow> s_pos \<le> e_pos \<Longrightarrow>
     skip_start m s_pos e_pos = s_pos + length (takeWhile isspace (take (e_pos - s_pos) (drop s_pos m)))"
proof (induction m s_pos e_pos rule: skip_start.induct)
  case (1 m s_pos e_pos)
  show ?case
  proof (cases "s_pos < e_pos")
    case True
    then have "take (e_pos - s_pos) (drop s_pos m) = m ! s_pos # take (e_pos - Suc s_pos) (drop (Suc s_pos) m)"
      using 1(2) by (simp add: Cons_nth_drop_Suc [symmetric] take_Cons' Suc_diff_Suc [symmetric])
    with 1 True show ?thesis by (simp add: skip_start.simps [of m s_pos])
  qed (use 1 in \<open>simp add: skip_start.simps\<close>)
qed

lemma skip_end_dropWhile:
  "e_pos \<le> length m \<Longrightarrow> s_pos \<le> e_pos \<Longrightarrow>
     skip_end m s_pos e_pos = s_pos + length (dropWhile isspace (rev (take (e_pos - s_pos) (drop s_pos m))))"
proof (induction m s_pos e_pos rule: skip_end.induct)
  case (1 m s_pos e_pos)
  show ?case
  proof (cases "s_pos < e_pos")
    case True
    then have "take (e_pos - s_pos) (drop s_pos m) = take (e_pos - 1 - s_pos) (drop s_pos m) @ [m ! (e_pos - 1)]"
      using 1(2) take_Suc_conv_app_nth [of "e_pos - 1 - s_pos" "drop s_pos m"] by (simp add: Suc_diff_Suc)
    with 1 True show ?thesis by (simp add: skip_end.simps [of m s_pos])
  qed (use 1 in \<open>simp add: skip_end.simps\<close>)
qed

lemma c_str_take: "take (length (c_str m)) m = c_str m"
  by (metis c_str_def takeWhile_eq_take)

lemma remove_spacing_trim:
  assumes "data msg = Some m"
  shows "chat_message_remove_spacing msg =
    (let t = trim (c_str m) in (length t, if t = [] then msg else msg\<lparr>data := Some (t @ [ch_nul])\<rparr>))"
proof -
  let ?s = "c_str m" and ?e = "length (c_str m)"
  have e: "?e \<le> length m" by (simp add: c_str_def length_takeWhile_le)
  define k where "k = length (takeWhile isspace ?s)"
  have k: "k \<le> ?e" "skip_start m 0 ?e = k"
    using skip_start_takeWhile [OF e, of 0] by (simp_all add: k_def c_str_take length_takeWhile_le)
  have d: "take (?e - k) (drop k m) = dropWhile isspace ?s"
  proof -
    have "take (?e - k) (drop k m) = drop k ?s" by (metis c_str_take drop_take)
    then show ?thesis by (simp add: k_def dropWhile_eq_drop)
  qed
  have "skip_end m k ?e = k + length (trim ?s)"
    using skip_end_dropWhile [OF e k(1)] by (simp add: d trim_def)
  moreover have "take (length (trim ?s)) (drop k m) = trim ?s"
  proof -
    have "\<exists>sp. dropWhile isspace ?s = trim ?s @ sp"
      unfolding trim_def by (metis rev_append rev_rev_ident takeWhile_dropWhile_id)
    then obtain sp where "dropWhile isspace ?s = trim ?s @ sp" by blast
    then have "take (?e - k) (drop k m) = trim ?s @ sp" by (simp add: d)
    then show ?thesis by (metis append_eq_conv_conj length_append take_take min.absorb1 le_add1 length_take min.cobounded2 append_take_drop_id append.assoc)
  qed
  ultimately show ?thesis using assms k(2) by (simp add: chat_message_remove_spacing_def Let_def)
qed

section \<open>The length on the wire\<close>

definition enc_size :: "nat \<Rightarrow> char list" where
  "enc_size n = size_digits n @ replicate (4 - length (size_digits n)) ch_nul"

definition digits_value :: "char list \<Rightarrow> nat" where
  "digits_value ds = foldr (\<lambda>c v. v * 256 + of_char c) ds 0"

lemma digits_value_simps [simp]: "digits_value [] = 0" "digits_value (c # ds) = digits_value ds * 256 + of_char c"
  by (simp_all add: digits_value_def)

lemma size_digits_value: "digits_value (size_digits n @ replicate k ch_nul) = n"
proof (induction n rule: size_digits.induct)
  case (1 sz)
  have "digits_value (replicate k ch_nul) = 0" by (induction k) simp_all
  with 1 show ?case by (subst size_digits.simps) simp
qed

lemma size_digits_length: "n < 256 ^ k \<Longrightarrow> length (size_digits n) \<le> k"
proof (induction k arbitrary: n)
  case 0
  then show ?case by (simp add: size_digits.simps)
next
  case (Suc k)
  then have "n div 256 < 256 ^ k" by (simp add: less_mult_imp_div_less mult.commute)
  with Suc.IH show ?case by (subst size_digits.simps) simp
qed

text \<open>Every byte of the length is below 128.\<close>

definition plain_size :: "nat \<Rightarrow> bool" where
  "plain_size n \<longleftrightarrow> n < 2 ^ 31 \<and> (\<forall>c \<in> set (size_digits n). of_char c < (128 :: nat))"

lemma char_to_uint_eq: "char_to_uint c = of_int (signed_take_bit 7 (of_char c))"
proof -
  have "char_to_uint c = signed (of_nat (of_char c) :: u8)"
    unfolding char_to_uint_def by (simp only: of_nat_of_char)
  also have "\<dots> = of_int (signed_take_bit 7 (int (of_char c)))"
    unfolding signed_of_nat by simp
  also have "int (of_char c) = of_char c" by (rule of_nat_of_char)
  finally show ?thesis .
qed

lemma char_to_uint_plain: "of_char c < (128 :: nat) \<Longrightarrow> char_to_uint c = of_nat (of_char c)"
proof -
  assume c: "of_char c < (128 :: nat)"
  have i: "(of_char c :: int) = int (of_char c)" by (simp only: of_nat_of_char)
  have "signed_take_bit 7 (of_char c :: int) = of_char c"
    using c unfolding i by (intro signed_take_bit_int_eq_self) simp_all
  then show ?thesis by (simp add: char_to_uint_eq of_int_of_char of_nat_of_char)
qed

lemma recv_size_plain:
  "\<forall>c \<in> set ds. of_char c < (128 :: nat) \<Longrightarrow> recv_size ds = of_nat (digits_value ds)"
  by (induction ds) (simp_all add: recv_size_def char_to_uint_plain)

lemma recv_enc_size: "plain_size n \<Longrightarrow> sint (recv_size (enc_size n)) = int n"
proof -
  assume n: "plain_size n"
  have "recv_size (enc_size n) = of_nat (digits_value (enc_size n))"
    using n by (intro recv_size_plain) (auto simp: enc_size_def plain_size_def)
  then show ?thesis
    using n by (simp add: enc_size_def size_digits_value sint_of_nat_small plain_size_def)
qed

lemma length_enc_size: "n < 2 ^ 32 \<Longrightarrow> length (enc_size n) = 4" "n < 2 ^ 32 \<Longrightarrow> length (size_digits n) \<le> 4"
  using size_digits_length [of n 4] by (simp_all add: enc_size_def)

lemma recv_size_high:
  assumes "128 \<le> n" "n < 256"
  shows "sint (recv_size (enc_size n)) = int n - 256"
proof -
  have d: "size_digits n = [char_of n]"
    using assms by (subst size_digits.simps) (simp add: size_digits.simps [of 0])
  have z: "char_to_uint ch_nul = 0" by (simp add: char_to_uint_plain)
  have "n div 128 = 1" using assms by (intro div_nat_eqI) simp_all
  then have "int n div 128 = 1" by (metis of_nat_1 of_nat_numeral zdiv_int)
  then have b: "bit (int n) 7" by (simp add: bit_iff_odd)
  have "signed_take_bit 7 (int n) = int n - 256"
    using assms b by (simp add: signed_take_bit_eq_take_bit_minus take_bit_int_eq_self_iff)
  moreover have "(of_char (char_of n :: char) :: int) = int n"
    using assms by (simp only: of_nat_of_char [symmetric, where 'a = int] of_char_of) simp
  ultimately have "char_to_uint (char_of n) = of_int (int n - 256)" by (simp only: char_to_uint_eq)
  moreover have "replicate (4 - length [char_of n]) ch_nul = [ch_nul, ch_nul, ch_nul]"
    by (simp add: numeral_eq_Suc)
  ultimately have "recv_size (enc_size n) = of_int (int n - 256)"
    by (simp only: enc_size_def d recv_size_def) (simp add: z)
  moreover have k: "sint (of_int k :: i32) = k" if "- (2 ^ 31) \<le> k" "k < 2 ^ 31" for k
    using that by (simp add: signed_of_int signed_take_bit_int_eq_self)
  have "sint (of_int (int n - 256) :: i32) = int n - 256" by (rule k) (use assms in simp_all)
  ultimately show ?thesis by (simp only:)
qed

section \<open>Sending and receiving over a byte stream\<close>

text \<open>
  What the code relies on of \<open>send\<close> and \<open>recv\<close> on a connected stream socket: a call on a nonempty
  buffer sends a nonempty prefix of it; a call for bytes when some are there returns a nonempty
  prefix of them. \<open>sent\<close> is what was sent on a socket so far and \<open>avail\<close> what can be received.
\<close>

definition net_sends :: "'w net \<Rightarrow> ('w \<Rightarrow> int \<Rightarrow> char list) \<Rightarrow> bool" where
  "net_sends net sent \<longleftrightarrow> (\<forall>sock buf w. buf \<noteq> [] \<longrightarrow>
     (case n_send net sock buf w of (r, w') \<Rightarrow>
        0 < r \<and> r \<le> int (length buf) \<and> sent w' sock = sent w sock @ take (nat r) buf))"

definition net_recvs :: "'w net \<Rightarrow> ('w \<Rightarrow> int \<Rightarrow> char list) \<Rightarrow> bool" where
  "net_recvs net avail \<longleftrightarrow> (\<forall>sock n w. 0 < n \<longrightarrow> avail w sock \<noteq> [] \<longrightarrow>
     (case n_recv net sock n w of (r, bytes, w') \<Rightarrow>
        0 < r \<and> r \<le> int n \<and> nat r \<le> length (avail w sock) \<and>
        bytes = take (nat r) (avail w sock) \<and> avail w' sock = drop (nat r) (avail w sock)))"

lemma net_sendsD:
  assumes "net_sends net sent" "buf \<noteq> []" "n_send net sock buf w = (r, w')"
  shows "0 < r" "r \<le> int (length buf)" "sent w' sock = sent w sock @ take (nat r) buf"
  using assms(1) [unfolded net_sends_def, rule_format, OF assms(2), of sock w] assms(3) by simp_all

lemma net_recvsD:
  assumes "net_recvs net avail" "0 < n" "avail w sock \<noteq> []" "n_recv net sock n w = (r, bytes, w')"
  shows "0 < r" "r \<le> int n" "nat r \<le> length (avail w sock)"
    "bytes = take (nat r) (avail w sock)" "avail w' sock = drop (nat r) (avail w sock)"
  using assms(1) [unfolded net_recvs_def, rule_format, OF assms(2,3)] assms(4) by simp_all

definition wire :: "char list \<Rightarrow> char list" where
  "wire t = enc_size (length t) @ t"

lemma send_loop_ok:
  assumes "net_sends net sent"
  shows "\<exists>w'. send_loop net sock buf w = (Inr (), w') \<and> sent w' sock = sent w sock @ buf"
proof (induction "length buf" arbitrary: buf w rule: less_induct)
  case less
  show ?case
  proof (cases "buf = []")
    case True
    then show ?thesis by (simp add: send_loop.simps)
  next
    case False
    obtain r w1 where r: "n_send net sock buf w = (r, w1)" by (cases "n_send net sock buf w")
    note p = net_sendsD [OF assms False r]
    then have "length (drop (nat r) buf) < length buf" using False by simp
    from less.hyps [OF this, of w1] obtain w' where
      "send_loop net sock (drop (nat r) buf) w1 = (Inr (), w')" "sent w' sock = sent w1 sock @ drop (nat r) buf"
      by blast
    with r p False show ?thesis by (simp add: send_loop.simps [of net sock buf])
  qed
qed

lemma recv_loop_ok:
  assumes "net_recvs net avail" and "n \<le> length (avail w sock)"
  shows "\<exists>w'. recv_loop net sock n w = (Inr (take n (avail w sock)), w') \<and> avail w' sock = drop n (avail w sock)"
  using assms(2)
proof (induction n arbitrary: w rule: less_induct)
  case (less n)
  show ?case
  proof (cases "n = 0")
    case True
    then show ?thesis by (simp add: recv_loop.simps)
  next
    case False
    obtain r bs w1 where r: "n_recv net sock n w = (r, bs, w1)" by (cases "n_recv net sock n w")
    have "avail w sock \<noteq> []" using less.prems False by auto
    note p = net_recvsD [OF assms(1) _ this r]
    from False p have p: "0 < r" "r \<le> int n" "nat r \<le> length (avail w sock)"
      "bs = take (nat r) (avail w sock)" "avail w1 sock = drop (nat r) (avail w sock)" by simp_all
    have "n - nat r < n" "n - nat r \<le> length (avail w1 sock)" using p less.prems False by auto
    from less.IH [OF this] obtain w' where w': "recv_loop net sock (n - nat r) w1 =
        (Inr (take (n - nat r) (avail w1 sock)), w')" "avail w' sock = drop (n - nat r) (avail w1 sock)" by blast
    have "nat r \<le> n" using p by simp
    then have "take n (avail w sock) = take (nat r) (avail w sock) @ take (n - nat r) (drop (nat r) (avail w sock))"
      by (metis le_add_diff_inverse take_add)
    with r p w' False \<open>nat r \<le> n\<close> show ?thesis by (simp add: recv_loop.simps [of net sock n])
  qed
qed

lemma send_sizes_ok:
  assumes "net_sends net sent" "n < 2 ^ 32"
  shows "\<exists>w'. send_sizes net n sock w = Inr (4, w') \<and> sent w' sock = sent w sock @ enc_size n"
  using send_loop_ok [OF assms(1), of sock "enc_size n" w] length_enc_size [OF assms(2)]
  by (auto simp: send_sizes_def enc_size_def Let_def)

lemma send_data_ok:
  assumes "net_sends net sent"
  shows "\<exists>w'. send_data net m sock w = Inr (int (length (c_str m)), w') \<and> sent w' sock = sent w sock @ c_str m"
  using send_loop_ok [OF assms(1), of sock "c_str m" w] by (auto simp: send_data_def)

text \<open>A length and a text on the wire.\<close>

lemma send_text_ok:
  assumes net: "net_sends net sent" and m: "length (c_str m) < 2 ^ 31"
  shows "\<exists>w'. if_sent (send_sizes net (length (c_str m)) sock w) (send_data net m sock) =
    Inr (int (length (c_str m)), w') \<and> sent w' sock = sent w sock @ wire (c_str m)"
proof -
  have "length (c_str m) < 2 ^ 32" using m by simp
  from send_sizes_ok [OF net this, of sock w] obtain w1 where
    "send_sizes net (length (c_str m)) sock w = Inr (4, w1)" "sent w1 sock = sent w sock @ enc_size (length (c_str m))"
    by blast
  with send_data_ok [OF net, of m sock w1] show ?thesis by (auto simp: if_sent_def wire_def)
qed

lemma send_message_ok:
  assumes net: "net_sends net sent" and msg: "data msg = Some m" "author msg = Some a"
    and len: "length (c_str m) < 2 ^ 31" "length (c_str a) < 2 ^ 31" "c_str a \<noteq> []"
  shows "\<exists>w'. chat_message_send net msg sock w = Inr (int (length (c_str m)), w') \<and>
    sent w' sock = sent w sock @ wire (c_str a) @ wire (c_str m)"
proof -
  have "length (c_str a) < 2 ^ 32" using len(2) by simp
  from send_sizes_ok [OF net this, of sock w] obtain w1 where
    w1: "send_sizes net (length (c_str a)) sock w = Inr (4, w1)" "sent w1 sock = sent w sock @ enc_size (length (c_str a))"
    by blast
  from send_data_ok [OF net, of a sock w1] obtain w2 where
    w2: "send_data net a sock w1 = Inr (int (length (c_str a)), w2)" "sent w2 sock = sent w1 sock @ c_str a" by blast
  have "int (length (c_str a)) > 0" using len(3) by simp
  with w1 w2 send_text_ok [OF net len(1), of sock w2] msg show ?thesis
    by (auto simp: chat_message_send_def Let_def if_sent_def wire_def)
qed

lemma recv_message_ok:
  assumes net: "net_recvs net avail" and t: "plain_size (length t)" and w: "avail w sock = wire t @ rest"
  shows "\<exists>w'. chat_message_recv net msg sock w = Inr (int (length t), msg\<lparr>data := Some (t @ [ch_nul])\<rparr>, w') \<and>
    avail w' sock = rest"
proof -
  have "length t < 2 ^ 32" using t by (simp add: plain_size_def)
  note l = length_enc_size(1) [OF this]
  have "4 \<le> length (avail w sock)" using w l by (simp add: wire_def)
  from recv_loop_ok [OF net this] w l obtain w1 where
    w1: "recv_loop net sock 4 w = (Inr (enc_size (length t)), w1)" "avail w1 sock = t @ rest"
    by (auto simp: wire_def)
  have "length t \<le> length (avail w1 sock)" using w1 by simp
  from recv_loop_ok [OF net this] w1 obtain w' where
    w': "recv_loop net sock (length t) w1 = (Inr t, w')" "avail w' sock = rest" by auto
  show ?thesis using w1 w' recv_enc_size [OF t] by (simp add: chat_message_recv_def Let_def)
qed

lemma recv_message_high:
  assumes net: "net_recvs net avail" and t: "128 \<le> length t" "length t < 255" and w: "avail w sock = wire t @ rest"
  shows "chat_message_recv net msg sock w = Inl NullDeref"
proof -
  have "length t < 2 ^ 32" using t by simp
  note l = length_enc_size(1) [OF this]
  have "4 \<le> length (avail w sock)" using w l by (simp add: wire_def)
  from recv_loop_ok [OF net this] w l obtain w1 where
    w1: "recv_loop net sock 4 w = (Inr (enc_size (length t)), w1)" by (auto simp: wire_def)
  have "sint (recv_size (enc_size (length t))) < -1" using recv_size_high [of "length t"] t by simp
  then show ?thesis using w1 by (simp add: chat_message_recv_def Let_def)
qed

section \<open>Properties\<close>

text \<open>
  \<open>chat_message_remove_spacing\<close> removes exactly the white space at both ends of the text,
  returns the length of what is left, and leaves a blank message as it is.
\<close>

theorem remove_spacing_is_trim:
  assumes "data msg = Some m"
  shows "chat_message_remove_spacing msg =
    (let t = trim (c_str m) in (length t, if t = [] then msg else msg\<lparr>data := Some (t @ [ch_nul])\<rparr>))"
  by (rule remove_spacing_trim [OF assms])

theorem remove_spacing_is_trim_witness:
  "chat_message_remove_spacing \<lparr>author = None, data = Some ('' a b '' @ [ch_nul])\<rparr> =
     (3, \<lparr>author = None, data = Some (''a b'' @ [ch_nul])\<rparr>)"
  using remove_spacing_is_trim [of "\<lparr>author = None, data = Some ('' a b '' @ [ch_nul])\<rparr>" "'' a b '' @ [ch_nul]"]
  by (simp add: trim_def isspace_def c_str_def)

text \<open>A network for the witnesses: the bytes sent and to be received per socket, one byte per call.\<close>

type_synonym streams = "(int \<Rightarrow> char list) \<times> (int \<Rightarrow> char list)"

definition byte_net :: "streams net" where
  "byte_net = \<lparr>n_send = (\<lambda>sock buf (out, inp). (1, out(sock := out sock @ take 1 buf), inp)),
     n_recv = (\<lambda>sock n (out, inp). if inp sock = [] then (0, [], out, inp)
       else (1, take 1 (inp sock), out, inp(sock := drop 1 (inp sock)))),
     n_wait = (\<lambda>p w. (1, 5, w)), n_accept = (\<lambda>s w. (-1, w)), n_epoll_add = (\<lambda>p s w. (0, w)),
     n_epoll_del = (\<lambda>p s w. w), n_epoll_create = (\<lambda>w. (3, w)), n_close = (\<lambda>s w. w),
     n_socket = (\<lambda>w. (4, w)), n_bind_listen = (\<lambda>s p w. (True, w)), n_connect = (\<lambda>s a p w. (True, w))\<rparr>"

lemma byte_net_ok: "net_sends byte_net fst" "net_recvs byte_net snd"
  by (auto simp: net_sends_def net_recvs_def byte_net_def Suc_le_eq)

text \<open>
  (C17) A message with its author crosses the network unchanged. Over a stream that may cut the
  data at any place, \<open>chat_message_send\<close> sends all of it, and two calls of \<open>chat_message_recv\<close> on
  a stream that starts with these bytes return the author and the text and leave the rest, if no
  byte of the two lengths is above 127.
\<close>

theorem chat_message_roundtrip:
  assumes "net_sends net sent" and "net_recvs net' avail"
    and "data msg = Some m" "author msg = Some a" "c_str a \<noteq> []"
    and "plain_size (length (c_str m))" "plain_size (length (c_str a))"
  shows "\<exists>w' bs. chat_message_send net msg sock w = Inr (int (length (c_str m)), w') \<and>
    sent w' sock = sent w sock @ bs \<and>
    (\<forall>v rest. avail v s = bs @ rest \<longrightarrow>
       (\<exists>v1 v2. chat_message_recv net' no_message s v =
           Inr (int (length (c_str a)), no_message\<lparr>data := Some (c_str a @ [ch_nul])\<rparr>, v1) \<and>
         chat_message_recv net' no_message s v1 =
           Inr (int (length (c_str m)), no_message\<lparr>data := Some (c_str m @ [ch_nul])\<rparr>, v2) \<and>
         avail v2 s = rest))"
proof -
  have "length (c_str m) < 2 ^ 31" "length (c_str a) < 2 ^ 31" using assms(6,7) by (simp_all add: plain_size_def)
  from send_message_ok [OF assms(1,3,4) this assms(5), of sock w] obtain w' where
    w': "chat_message_send net msg sock w = Inr (int (length (c_str m)), w')"
      "sent w' sock = sent w sock @ wire (c_str a) @ wire (c_str m)" by blast
  moreover have "\<exists>v1 v2. chat_message_recv net' no_message s v =
           Inr (int (length (c_str a)), no_message\<lparr>data := Some (c_str a @ [ch_nul])\<rparr>, v1) \<and>
         chat_message_recv net' no_message s v1 =
           Inr (int (length (c_str m)), no_message\<lparr>data := Some (c_str m @ [ch_nul])\<rparr>, v2) \<and>
         avail v2 s = rest" if v: "avail v s = (wire (c_str a) @ wire (c_str m)) @ rest" for v rest
  proof -
    have "avail v s = wire (c_str a) @ wire (c_str m) @ rest" using v by simp
    from recv_message_ok [OF assms(2,7) this, of no_message] obtain v1 where
      v1: "chat_message_recv net' no_message s v =
           Inr (int (length (c_str a)), no_message\<lparr>data := Some (c_str a @ [ch_nul])\<rparr>, v1)"
        "avail v1 s = wire (c_str m) @ rest" by blast
    from recv_message_ok [OF assms(2,6) v1(2), of no_message] v1(1) show ?thesis by blast
  qed
  ultimately show ?thesis by blast
qed

theorem chat_message_roundtrip_witness:
  "\<exists>w' bs. chat_message_send byte_net \<lparr>author = Some ''me'', data = Some (''hi'' @ [ch_nul])\<rparr> 5
       (\<lambda>_. [], \<lambda>_. []) = Inr (2, w') \<and> fst w' 5 = bs \<and>
     (\<forall>v rest. snd v 7 = bs @ rest \<longrightarrow> (\<exists>v1 v2.
        chat_message_recv byte_net no_message 7 v = Inr (2, no_message\<lparr>data := Some (''me'' @ [ch_nul])\<rparr>, v1) \<and>
        chat_message_recv byte_net no_message 7 v1 = Inr (2, no_message\<lparr>data := Some (''hi'' @ [ch_nul])\<rparr>, v2) \<and>
        snd v2 7 = rest))"
proof -
  have c: "c_str (''hi'' @ [ch_nul]) = ''hi''" "c_str ''me'' = ''me''" by (simp_all add: c_str_def)
  have p: "plain_size (length (c_str (''hi'' @ [ch_nul])))" "plain_size (length (c_str ''me''))"
    unfolding c plain_size_def by (simp_all add: size_digits.simps)
  show ?thesis
    using chat_message_roundtrip [OF byte_net_ok, of "\<lparr>author = Some ''me'', data = Some (''hi'' @ [ch_nul])\<rparr>"
        "''hi'' @ [ch_nul]" "''me''" 5 "(\<lambda>_. [], \<lambda>_. [])" 7] p c by simp
qed

text \<open>
  A text of 128 to 254 bytes breaks its receiver: the low byte of the length is read as a
  negative \<open>char\<close>, the size comes out negative, the allocation fails and the code writes through
  the null pointer.
\<close>

theorem long_message_crashes_receiver:
  assumes "net_recvs net avail" and "128 \<le> length t" "length t < 255" and "avail w sock = wire t @ rest"
  shows "chat_message_recv net msg sock w = Inl NullDeref"
  by (rule recv_message_high [OF assms])

theorem long_message_crashes_receiver_witness:
  "chat_message_recv byte_net no_message 7 (\<lambda>_. [], \<lambda>_. wire (replicate 200 CHR ''a'')) = Inl NullDeref"
  using long_message_crashes_receiver [OF byte_net_ok(2), of "replicate 200 CHR ''a''" "(\<lambda>_. [], \<lambda>_. wire (replicate 200 CHR ''a''))" 7 "[]"]
  by simp

text \<open>
  (C18) The message queue of the chat, with its cells on the heap: any sequence of \<open>queue_add\<close> and
  \<open>queue_pop\<close> runs without touching a null or freed cell and returns what a list would, in order,
  and keeps no cell of a popped message.
\<close>

theorem chat_queue_fifo:
  assumes "lqueue_ok (q :: chat_message lqueue)"
  shows "\<exists>rs q'. run_ops queue_add queue_pop ops q = Inr (rs, q') \<and> lqueue_ok q' \<and>
    list_ops ops (lqueue_items q) = (rs, lqueue_items q')"
  by (rule chat_queue.run_ops_ok [OF assms])

theorem chat_queue_fifo_witness:
  "\<exists>rs q'. run_ops queue_add queue_pop [Add no_message, Pop, Pop] lqueue_empty = Inr (rs, q') \<and> lqueue_ok q' \<and>
     list_ops [Add no_message, Pop, Pop] (lqueue_items lqueue_empty) = (rs, lqueue_items q')"
  by (rule chat_queue_fifo [OF chat_queue.empty_ok(1)])

end
