(* ===== verification/ChatServer.thy ===== *)
theory ChatServer
  imports Chat_Wire
begin

text \<open>
  The chat server of src/5/chat_server.c: the table of peers, the input buffer that \<open>feed\<close> cuts
  into messages, and the update step that accepts clients, receives one message and relays it.
  The buffer and its loop are shared with the client of src/5/chat_client.c, whose code is the same.
\<close>

unbundle bit_operations_syntax

section \<open>The input buffer\<close>

text \<open>
  \<open>struct msg_buff\<close>, with the number of bytes allocated at \<open>buff\<close>, which the C code does not keep:
  it never writes the field \<open>size\<close>.
\<close>

record msg_buff =
  mb_buff :: "char list"
  mb_alloc :: nat
  mb_pos :: nat
  mb_size :: nat

definition msg_buff_new :: msg_buff where
  "msg_buff_new = \<lparr>mb_buff = [], mb_alloc = 0, mb_pos = 0, mb_size = 0\<rparr>"

definition buff_reserve :: "msg_buff \<Rightarrow> nat \<Rightarrow> msg_buff" where
  "buff_reserve mb msg_size =
     (if (mb_size mb + 2 ^ 64 - mb_pos mb) mod 2 ^ 64 < msg_size
      then mb\<lparr>mb_buff := take (mb_pos mb) (mb_buff mb), mb_alloc := mb_pos mb + msg_size\<rparr>
      else mb)"

definition buff_put :: "char \<Rightarrow> msg_buff \<Rightarrow> msg_buff cres" where
  "buff_put c mb =
     (if mb_pos mb < mb_alloc mb
      then Inr (mb\<lparr>mb_buff := mem_write (mb_buff mb) (mb_pos mb) [c], mb_pos := mb_pos mb + 1\<rparr>)
      else Inl OutOfBounds)"

text \<open>The end of a line: the message it makes, unless it is blank.\<close>

definition feed_line :: "msg_buff \<Rightarrow> (chat_message option \<times> msg_buff) cres" where
  "feed_line mb =
     rbind (buff_put ch_nul mb) (\<lambda>mb.
     let msg = no_message\<lparr>data := Some (take (mb_pos mb) (mb_buff mb))\<rparr>;
         mb = mb\<lparr>mb_pos := 0\<rparr>;
         (n, msg) = chat_message_remove_spacing msg
     in Inr (if n = 0 then None else Some msg, mb))"

text \<open>The loop over the fed bytes; \<open>emit\<close> gives a message its author and queues it.\<close>

fun feed_loop :: "(chat_message \<Rightarrow> 's \<Rightarrow> 's cres) \<Rightarrow> char list \<Rightarrow> msg_buff \<Rightarrow> 's \<Rightarrow> (msg_buff \<times> 's) cres" where
  "feed_loop emit [] mb s = Inr (mb, s)"
| "feed_loop emit (ch # msg) mb s =
     (if ch = ch_nl
      then rbind (feed_line mb) (\<lambda>(m, mb).
           case m of
             None \<Rightarrow> feed_loop emit msg mb s
           | Some m \<Rightarrow> rbind (emit m s) (feed_loop emit msg mb))
      else rbind (buff_put ch mb) (\<lambda>mb. feed_loop emit msg mb s))"

section \<open>The server\<close>

record chat_peer =
  p_socket :: int
  p_author :: "string option"

text \<open>\<open>sv_peers\<close> is \<open>None\<close> for the null pointer; \<open>count\<close> is the length of the array.\<close>

record chat_server =
  sv_socket :: int
  sv_poll :: int
  sv_peers :: "chat_peer list option"
  sv_recved :: msg_queue
  sv_send :: msg_queue
  sv_buff :: msg_buff

definition peers_of :: "chat_server \<Rightarrow> chat_peer list" where
  "peers_of sv = (case sv_peers sv of None \<Rightarrow> [] | Some ps \<Rightarrow> ps)"

definition peers_data_add :: "chat_peer list option \<Rightarrow> int \<Rightarrow> chat_peer list option" where
  "peers_data_add peers fd =
     (case peers of
        None \<Rightarrow> Some [\<lparr>p_socket = fd, p_author = None\<rparr>]
      | Some ps \<Rightarrow> Some (ps @ [\<lparr>p_socket = fd, p_author = None\<rparr>]))"

fun find_peer :: "chat_peer list \<Rightarrow> int \<Rightarrow> nat \<Rightarrow> nat option" where
  "find_peer [] fd i = None"
| "find_peer (p # ps) fd i = (if fd = p_socket p then Some i else find_peer ps fd (i + 1))"

definition peers_data_find :: "chat_peer list \<Rightarrow> int \<Rightarrow> nat option" where
  "peers_data_find ps fd = find_peer ps fd 0"

text \<open>\<open>memcpy\<close> of \<open>n\<close> elements between two arrays, within the bounds of both.\<close>

definition copy_elems :: "'a list \<Rightarrow> nat \<Rightarrow> 'a list \<Rightarrow> nat \<Rightarrow> nat \<Rightarrow> 'a list cres" where
  "copy_elems dst doff src soff n =
     (if soff + n \<le> length src \<and> doff + n \<le> length dst
      then Inr (take doff dst @ take n (drop soff src) @ drop (doff + n) dst)
      else Inl OutOfBounds)"

definition chat_server_remove_client :: "chat_peer list \<Rightarrow> int \<Rightarrow> chat_peer list cres" where
  "chat_server_remove_client ps fd =
     (case find_peer ps fd 0 of
        None \<Rightarrow> Inl OutOfBounds
      | Some pr_id \<Rightarrow>
          let new_peers = replicate (length ps - 1) \<lparr>p_socket = 0, p_author = None\<rparr>
          in rbind (copy_elems new_peers 0 ps 0 pr_id) (\<lambda>new_peers.
             copy_elems new_peers pr_id ps (pr_id + 1) (length ps - pr_id)))"

definition chat_server_new :: chat_server where
  "chat_server_new = \<lparr>sv_socket = -1, sv_poll = -1, sv_peers = None, sv_recved = lqueue_empty,
     sv_send = lqueue_empty, sv_buff = msg_buff_new\<rparr>"

text \<open>
  The messages that a loop of \<open>queue_pop\<close> deletes. It ends with the call that finds the queue empty,
  so \<open>cnt + 1\<close> rounds are enough; running out of them is \<open>Hang\<close>.
\<close>

fun queue_drain :: "nat \<Rightarrow> 'a lqueue \<Rightarrow> 'a list cres" where
  "queue_drain 0 q = Inl Hang"
| "queue_drain (Suc n) q =
     rbind (queue_pop q) (\<lambda>(m, q).
     case m of None \<Rightarrow> Inr [] | Some m \<Rightarrow> rbind (queue_drain n q) (\<lambda>ms. Inr (m # ms)))"

lemma queue_drain_items:
  "lqueue_ok q \<Longrightarrow> length (lqueue_items q) < n \<Longrightarrow> queue_drain n q = Inr (lqueue_items q)"
proof (induction n arbitrary: q)
  case (Suc n)
  show ?case
  proof (cases "lqueue_items q")
    case Nil
    with chat_queue.pop_none [OF Suc.prems(1)] show ?thesis by simp
  next
    case (Cons x xs)
    from chat_queue.pop_some [OF Suc.prems(1) Cons] obtain q'
      where "queue_pop q = Inr (Some x, q')" "lqueue_ok q'" "lqueue_items q' = xs" by blast
    with Suc.IH [of q'] Suc.prems Cons show ?thesis by simp
  qed
qed simp

lemma queue_drain_all:
  assumes "lqueue_ok q"
  shows "queue_drain (nat (cnt q) + 1) q = Inr (lqueue_items q)"
proof (rule queue_drain_items [OF assms])
  obtain as where "lqueue_rep q as (lqueue_items q)" using lqueue_ok_rep [OF assms] by blast
  then show "length (lqueue_items q) < nat (cnt q) + 1" by (auto simp: lqueue_rep_def)
qed

definition close_if_open :: "'w net \<Rightarrow> int \<Rightarrow> 'w \<Rightarrow> 'w" where
  "close_if_open net fd w = (if fd \<ge> 0 then n_close net fd w else w)"

text \<open>\<open>chat_server_delete\<close>: the messages deleted and the world after closing the descriptors.\<close>

definition chat_server_delete :: "'w net \<Rightarrow> chat_server \<Rightarrow> 'w \<Rightarrow> (chat_message list \<times> 'w) cres" where
  "chat_server_delete net sv w =
     (let w = close_if_open net (sv_poll sv) (close_if_open net (sv_socket sv) w)
      in rbind (queue_drain (nat (cnt (sv_recved sv)) + 1) (sv_recved sv)) (\<lambda>ms.
         rbind (queue_drain (nat (cnt (sv_send sv)) + 1) (sv_send sv)) (\<lambda>ns. Inr (ms @ ns, w))))"

lemma chat_server_delete_ok:
  assumes "lqueue_ok (sv_recved sv)" "lqueue_ok (sv_send sv)"
  shows "\<exists>w'. chat_server_delete net sv w = Inr (lqueue_items (sv_recved sv) @ lqueue_items (sv_send sv), w')"
  using queue_drain_all [OF assms(1)] queue_drain_all [OF assms(2)]
  by (simp add: chat_server_delete_def Let_def)

text \<open>The result 0 of a call is \<open>None\<close>.\<close>

definition chat_server_listen ::
  "'w net \<Rightarrow> chat_server \<Rightarrow> u16 \<Rightarrow> 'w \<Rightarrow> chat_errcode option \<times> chat_server \<times> 'w" where
  "chat_server_listen net sv port w =
     (if sv_socket sv \<noteq> -1 then (Some CHAT_ERR_ALREADY_STARTED, sv, w)
      else let (s, w) = n_socket net w; sv = sv\<lparr>sv_socket := s\<rparr>
           in if s = -1 then (Some CHAT_ERR_SYS, sv, w)
              else let (ok, w) = n_bind_listen net s port w
                   in if \<not> ok then (Some CHAT_ERR_PORT_BUSY, sv\<lparr>sv_socket := -1\<rparr>, n_close net s w)
                      else let (p, w) = n_epoll_create net w; sv = sv\<lparr>sv_poll := p\<rparr>;
                               (r, w) = n_epoll_add net p s w
                           in if r = -1 then (Some CHAT_ERR_SYS, sv\<lparr>sv_socket := -1\<rparr>, n_close net s w)
                              else (None, sv, w))"

definition chat_server_pop_next :: "chat_server \<Rightarrow> (chat_message option \<times> chat_server) cres" where
  "chat_server_pop_next sv =
     rbind (queue_pop (sv_recved sv)) (\<lambda>(m, q). Inr (m, sv\<lparr>sv_recved := q\<rparr>))"

fun send_all :: "'w net \<Rightarrow> chat_message \<Rightarrow> int list \<Rightarrow> 'w \<Rightarrow> 'w cres" where
  "send_all net msg [] w = Inr w"
| "send_all net msg (s # ss) w = rbind (chat_message_send net msg s w) (\<lambda>(_, w). send_all net msg ss w)"

type_synonym 'w update = "chat_errcode option \<times> chat_server \<times> 'w"

text \<open>A client has closed its end: it leaves the table and its descriptor is closed.\<close>

definition drop_client :: "'w net \<Rightarrow> chat_server \<Rightarrow> int \<Rightarrow> 'w \<Rightarrow> 'w update cres" where
  "drop_client net sv fd w =
     rbind (chat_server_remove_client (peers_of sv) fd) (\<lambda>ps.
     Inr (None, sv\<lparr>sv_peers := Some ps\<rparr>, n_close net fd (n_epoll_del net (sv_poll sv) fd w)))"

text \<open>One \<open>chat_message_recv\<close> of the update step and what follows its failure.\<close>

definition recv_or_drop ::
  "'w net \<Rightarrow> chat_server \<Rightarrow> int \<Rightarrow> 'w \<Rightarrow> (char list \<Rightarrow> 'w \<Rightarrow> 'w update cres) \<Rightarrow> 'w update cres" where
  "recv_or_drop net sv fd w k =
     rbind (chat_message_recv net no_message fd w) (\<lambda>(res, msg, w).
     if res \<le> 0 then if res = 0 then drop_client net sv fd w else Inr (Some CHAT_ERR_SYS, sv, w)
     else case data msg of None \<Rightarrow> Inl NullDeref | Some m \<Rightarrow> k m w)"

text \<open>The message itself: it is queued with its author and sent to every other peer.\<close>

definition relay_message :: "'w net \<Rightarrow> chat_server \<Rightarrow> nat \<Rightarrow> 'w \<Rightarrow> 'w update cres" where
  "relay_message net sv i w =
     (let peer = peers_of sv ! i
      in recv_or_drop net sv (p_socket peer) w (\<lambda>m w.
         let msg = \<lparr>author = p_author peer, data = Some m\<rparr>
         in rbind (queue_add (sv_recved sv) msg) (\<lambda>q.
            rbind (send_all net msg (filter (\<lambda>s. p_socket peer \<noteq> s) (map p_socket (peers_of sv))) w) (\<lambda>w.
            Inr (None, sv\<lparr>sv_recved := q\<rparr>, w)))))"

definition handle_peer :: "'w net \<Rightarrow> chat_server \<Rightarrow> int \<Rightarrow> 'w \<Rightarrow> 'w update cres" where
  "handle_peer net sv fd w =
     (case peers_data_find (peers_of sv) fd of
        None \<Rightarrow> Inl NullDeref
      | Some i \<Rightarrow>
          if p_author (peers_of sv ! i) = None
          then recv_or_drop net sv fd w (\<lambda>m w.
               relay_message net
                 (sv\<lparr>sv_peers := Some ((peers_of sv)[i := (peers_of sv ! i)\<lparr>p_author := Some (c_str m)\<rparr>])\<rparr>) i w)
          else relay_message net sv i w)"

definition accept_client :: "'w net \<Rightarrow> chat_server \<Rightarrow> 'w \<Rightarrow> 'w update" where
  "accept_client net sv w =
     (let (fd, w) = n_accept net (sv_socket sv) w
      in if fd = -1 then (Some CHAT_ERR_SYS, sv, w)
         else let (r, w) = n_epoll_add net (sv_poll sv) fd w
              in if r = -1 then (Some CHAT_ERR_SYS, sv, w)
                 else (None, sv\<lparr>sv_peers := peers_data_add (sv_peers sv) fd\<rparr>, w))"

definition chat_server_update :: "'w net \<Rightarrow> chat_server \<Rightarrow> 'w \<Rightarrow> 'w update cres" where
  "chat_server_update net sv w =
     (if sv_socket sv = -1 then Inr (Some CHAT_ERR_NOT_STARTED, sv, w)
      else let (nfds, fd, w) = n_wait net (sv_poll sv) w;
               event = (\<lambda>(sv, w).
                 if nfds \<le> 0 then Inr (None, sv, w)
                 else if fd = sv_socket sv then Inr (accept_client net sv w)
                 else handle_peer net sv fd w)
           in if cnt (sv_send sv) = 0
              then if nfds = 0 then Inr (Some CHAT_ERR_TIMEOUT, sv, w)
                   else if nfds < 0 then Inr (Some CHAT_ERR_SYS, sv, w)
                   else event (sv, w)
              else rbind (queue_pop (sv_send sv)) (\<lambda>(m, q).
                   case m of
                     None \<Rightarrow> Inl NullDeref
                   | Some m \<Rightarrow>
                       rbind (send_all net m (map p_socket (peers_of sv)) w) (\<lambda>w.
                       event (sv\<lparr>sv_send := q\<rparr>, w))))"

definition chat_server_get_descriptor :: "chat_server \<Rightarrow> int" where
  "chat_server_get_descriptor sv = sv_poll sv"

definition chat_server_get_socket :: "chat_server \<Rightarrow> int" where
  "chat_server_get_socket sv = sv_socket sv"

definition chat_server_get_events :: "chat_server \<Rightarrow> i32" where
  "chat_server_get_events sv =
     (if cnt (sv_send sv) \<noteq> 0 then CHAT_EVENT_OUTPUT else 0) OR
     (if sv_socket sv \<noteq> -1 then CHAT_EVENT_INPUT else 0)"

definition server_emit :: "chat_message \<Rightarrow> msg_queue \<Rightarrow> msg_queue cres" where
  "server_emit msg q = queue_add q (msg\<lparr>author := Some ''server''\<rparr>)"

definition chat_server_feed :: "chat_server \<Rightarrow> char list \<Rightarrow> (chat_errcode option \<times> chat_server) cres" where
  "chat_server_feed sv msg =
     (if sv_socket sv = -1 then Inr (Some CHAT_ERR_NOT_STARTED, sv)
      else rbind (feed_loop server_emit msg (buff_reserve (sv_buff sv) (length msg)) (sv_send sv)) (\<lambda>(mb, q).
           Inr (None, sv\<lparr>sv_buff := mb, sv_send := q\<rparr>)))"

end
