(* ===== verification/ChatClient.thy ===== *)
theory ChatClient
  imports ChatServer
begin

text \<open>
  The chat client of src/5/chat_client.c: connecting, the names of the authors it has seen, the
  update step that sends one message and receives one, and \<open>feed\<close>, whose first message carries
  the client's name.
\<close>

unbundle bit_operations_syntax

record chat_client =
  cl_socket :: int
  cl_poll :: int
  cl_name :: string
  cl_name_sended :: bool
  cl_recved :: msg_queue
  cl_send :: msg_queue
  cl_buff :: msg_buff
  cl_authors :: "string list option"

text \<open>The array of names; a null pointer has count 0.\<close>

definition names_of :: "string list option \<Rightarrow> string list" where
  "names_of names = (case names of None \<Rightarrow> [] | Some ns \<Rightarrow> ns)"

fun find_name :: "string list \<Rightarrow> string \<Rightarrow> string option" where
  "find_name [] s = None"
| "find_name (n # ns) s = (if n = s then Some n else find_name ns s)"

definition find_or_add_authors :: "string list option \<Rightarrow> char list \<Rightarrow> string \<times> string list option" where
  "find_or_add_authors names m =
     (case find_name (names_of names) (c_str m) of
        Some ptr_str \<Rightarrow> (ptr_str, names)
      | None \<Rightarrow> (c_str m, Some (names_of names @ [c_str m])))"

definition chat_client_new :: "string \<Rightarrow> chat_client" where
  "chat_client_new name = \<lparr>cl_socket = -1, cl_poll = -1, cl_name = c_str name, cl_name_sended = False,
     cl_recved = lqueue_empty, cl_send = lqueue_empty, cl_buff = msg_buff_new, cl_authors = None\<rparr>"

definition chat_client_delete :: "'w net \<Rightarrow> chat_client \<Rightarrow> 'w \<Rightarrow> (chat_message list \<times> 'w) cres" where
  "chat_client_delete net cl w =
     (let w = close_if_open net (cl_poll cl) (close_if_open net (cl_socket cl) w)
      in rbind (queue_drain (nat (cnt (cl_recved cl)) + 1) (cl_recved cl)) (\<lambda>ms.
         rbind (queue_drain (nat (cnt (cl_send cl)) + 1) (cl_send cl)) (\<lambda>ns. Inr (ms @ ns, w))))"

lemma chat_client_delete_ok:
  assumes "lqueue_ok (cl_recved cl)" "lqueue_ok (cl_send cl)"
  shows "\<exists>w'. chat_client_delete net cl w = Inr (lqueue_items (cl_recved cl) @ lqueue_items (cl_send cl), w')"
  using queue_drain_all [OF assms(1)] queue_drain_all [OF assms(2)]
  by (simp add: chat_client_delete_def Let_def)

text \<open>
  The address is given to \<open>inet_aton\<close> and \<open>inet_pton\<close> with its port, which both reject, so the
  address stays \<open>INADDR_ANY\<close>; the loop looks for the colon without an end.
\<close>

definition INADDR_ANY :: string where
  "INADDR_ANY = ''0.0.0.0''"

definition addr_port :: "string \<Rightarrow> int cres" where
  "addr_port addr =
     (if CHR '':'' \<in> set addr then Inr (atoi (tl (dropWhile (\<lambda>c. c \<noteq> CHR '':'') addr))) else Inl OutOfBounds)"

definition chat_client_connect ::
  "'w net \<Rightarrow> chat_client \<Rightarrow> string \<Rightarrow> 'w \<Rightarrow> (chat_errcode option \<times> chat_client \<times> 'w) cres" where
  "chat_client_connect net cl addr w =
     (if cl_socket cl \<noteq> -1 then Inr (Some CHAT_ERR_ALREADY_STARTED, cl, w)
      else let (s, w) = n_socket net w; cl = cl\<lparr>cl_socket := s\<rparr>
           in if s = -1 then Inr (Some CHAT_ERR_SYS, cl, w)
              else rbind (addr_port addr) (\<lambda>port.
                   let (ok, w) = n_connect net s INADDR_ANY (word_of_int port) w
                   in if \<not> ok then Inr (Some CHAT_ERR_NO_ADDR, cl, w)
                      else let (p, w) = n_epoll_create net w; cl = cl\<lparr>cl_poll := p\<rparr>;
                               (r, w) = n_epoll_add net p s w
                           in if r = -1 then Inr (Some CHAT_ERR_SYS, cl\<lparr>cl_socket := -1\<rparr>, n_close net s w)
                              else Inr (None, cl, w)))"

definition chat_client_pop_next :: "chat_client \<Rightarrow> (chat_message option \<times> chat_client) cres" where
  "chat_client_pop_next cl =
     rbind (queue_pop (cl_recved cl)) (\<lambda>(m, q). Inr (m, cl\<lparr>cl_recved := q\<rparr>))"

text \<open>One \<open>chat_message_recv\<close> of the update step; any failure is \<open>CHAT_ERR_SYS\<close>.\<close>

definition recv_or_fail :: "'w net \<Rightarrow> chat_client \<Rightarrow> 'w \<Rightarrow>
    (char list \<Rightarrow> 'w \<Rightarrow> (chat_errcode option \<times> chat_client \<times> 'w) cres) \<Rightarrow>
    (chat_errcode option \<times> chat_client \<times> 'w) cres" where
  "recv_or_fail net cl w k =
     rbind (chat_message_recv net no_message (cl_socket cl) w) (\<lambda>(res, msg, w).
     if res \<le> 0 then Inr (Some CHAT_ERR_SYS, cl, w)
     else case data msg of None \<Rightarrow> Inl NullDeref | Some m \<Rightarrow> k m w)"

definition receive_message ::
  "'w net \<Rightarrow> chat_client \<Rightarrow> 'w \<Rightarrow> (chat_errcode option \<times> chat_client \<times> 'w) cres" where
  "receive_message net cl w =
     recv_or_fail net cl w (\<lambda>m w.
     let (auth_name, names) = find_or_add_authors (cl_authors cl) m; cl = cl\<lparr>cl_authors := names\<rparr>
     in recv_or_fail net cl w (\<lambda>m w.
        rbind (queue_add (cl_recved cl) \<lparr>author = Some auth_name, data = Some m\<rparr>) (\<lambda>q.
        Inr (None, cl\<lparr>cl_recved := q\<rparr>, w))))"

definition chat_client_update ::
  "'w net \<Rightarrow> chat_client \<Rightarrow> 'w \<Rightarrow> (chat_errcode option \<times> chat_client \<times> 'w) cres" where
  "chat_client_update net cl w =
     (if cl_socket cl = -1 then Inr (Some CHAT_ERR_NOT_STARTED, cl, w)
      else let (nfds, _, w) = n_wait net (cl_poll cl) w;
               event = (\<lambda>cl w. if nfds > 0 then receive_message net cl w else Inr (None, cl, w))
           in if cnt (cl_send cl) = 0
              then if nfds = 0 then Inr (Some CHAT_ERR_TIMEOUT, cl, w)
                   else if nfds < 0 then Inr (Some CHAT_ERR_SYS, cl, w)
                   else event cl w
              else rbind (queue_pop (cl_send cl)) (\<lambda>(m, q).
                   case m of
                     None \<Rightarrow> Inl NullDeref
                   | Some m \<Rightarrow>
                       rbind (chat_message_send net m (cl_socket cl) w) (\<lambda>(res, w).
                       if res \<le> 0 then Inr (Some CHAT_ERR_SYS, cl\<lparr>cl_send := q\<rparr>, w)
                       else event (cl\<lparr>cl_send := q\<rparr>) w)))"

definition chat_client_get_descriptor :: "chat_client \<Rightarrow> int" where
  "chat_client_get_descriptor cl = cl_socket cl"

definition chat_client_get_events :: "chat_client \<Rightarrow> i32" where
  "chat_client_get_events cl =
     (if cnt (cl_send cl) \<noteq> 0 then CHAT_EVENT_OUTPUT else 0) OR
     (if cl_socket cl \<noteq> -1 then CHAT_EVENT_INPUT else 0)"

text \<open>The first message that is queued carries the name of the client.\<close>

definition client_emit :: "string \<Rightarrow> chat_message \<Rightarrow> bool \<times> msg_queue \<Rightarrow> (bool \<times> msg_queue) cres" where
  "client_emit name msg = (\<lambda>(name_sended, q).
     rbind (queue_add q (if name_sended then msg else msg\<lparr>author := Some name\<rparr>)) (\<lambda>q. Inr (True, q)))"

definition chat_client_feed :: "chat_client \<Rightarrow> char list \<Rightarrow> (chat_errcode option \<times> chat_client) cres" where
  "chat_client_feed cl msg =
     (if cl_socket cl = -1 then Inr (Some CHAT_ERR_NOT_STARTED, cl)
      else rbind (feed_loop (client_emit (cl_name cl)) msg (buff_reserve (cl_buff cl) (length msg))
                   (cl_name_sended cl, cl_send cl)) (\<lambda>(mb, ns, q).
           Inr (None, cl\<lparr>cl_buff := mb, cl_name_sended := ns, cl_send := q\<rparr>)))"

end
