(* ===== verification/Chat_Spec.thy ===== *)
theory Chat_Spec
  imports ChatClient
begin

text \<open>
  Properties of the chat server and the chat client: what \<open>feed\<close> makes of the bytes, what the
  update step of the server does with a message, and where both leave their memory.
\<close>

section \<open>Feeding\<close>

text \<open>The texts of the complete lines and the bytes behind the last one.\<close>

fun feed_texts :: "char list \<Rightarrow> char list \<Rightarrow> string list \<times> char list" where
  "feed_texts acc [] = ([], acc)"
| "feed_texts acc (c # cs) =
     (if c = ch_nl
      then let (ts, rest) = feed_texts [] cs; t = trim (c_str acc)
           in (if t = [] then ts else t # ts, rest)
      else feed_texts (acc @ [c]) cs)"

definition text_message :: "string \<Rightarrow> chat_message" where
  "text_message t = no_message\<lparr>data := Some (t @ [ch_nul])\<rparr>"

definition pending :: "msg_buff \<Rightarrow> char list" where
  "pending mb = take (mb_pos mb) (mb_buff mb)"

definition buff_ok :: "msg_buff \<Rightarrow> bool" where
  "buff_ok mb \<longleftrightarrow> mb_pos mb \<le> length (mb_buff mb) \<and> mb_size mb = 0"

lemma buff_put_ok:
  assumes "buff_ok mb" "mb_pos mb < mb_alloc mb"
  shows "\<exists>mb'. buff_put c mb = Inr mb' \<and> buff_ok mb' \<and> pending mb' = pending mb @ [c] \<and>
    mb_pos mb' = mb_pos mb + 1 \<and> mb_alloc mb' = mb_alloc mb"
proof -
  have "take (mb_pos mb + length [c]) (mem_write (mb_buff mb) (mb_pos mb) [c]) = take (mb_pos mb) (mb_buff mb) @ [c]"
    using assms by (intro take_mem_write_end) (simp add: buff_ok_def)
  then show ?thesis
    using assms by (simp add: buff_put_def buff_ok_def pending_def length_mem_write)
qed

lemma c_str_snoc_nul [simp]: "c_str (s @ [ch_nul]) = c_str s"
  by (induction s) (auto simp: c_str_def)

lemma feed_line_ok:
  assumes "buff_ok mb" "mb_pos mb < mb_alloc mb"
  shows "\<exists>mb'. feed_line mb = Inr (let t = trim (c_str (pending mb)) in if t = [] then None else Some (text_message t), mb') \<and>
    buff_ok mb' \<and> pending mb' = [] \<and> mb_pos mb' = 0 \<and> mb_alloc mb' = mb_alloc mb"
proof -
  from buff_put_ok [OF assms, of ch_nul] obtain mb1 where mb1: "buff_put ch_nul mb = Inr mb1" "buff_ok mb1"
    "pending mb1 = pending mb @ [ch_nul]" "mb_alloc mb1 = mb_alloc mb" by blast
  have "feed_line mb = Inr (let t = trim (c_str (pending mb)) in if t = [] then None else Some (text_message t),
      mb1\<lparr>mb_pos := 0\<rparr>)"
    using mb1(1,3) remove_spacing_trim [of "no_message\<lparr>data := Some (pending mb1)\<rparr>" "pending mb1"]
    by (simp add: feed_line_def pending_def [symmetric] Let_def text_message_def)
  then show ?thesis using mb1(2,4) by (auto simp: buff_ok_def pending_def)
qed

text \<open>
  What the loop needs of the code that takes a message: it accepts every message in a good state
  and does \<open>put\<close> to the abstract state.
\<close>

locale message_sink =
  fixes ok :: "'s \<Rightarrow> bool"
    and view :: "'s \<Rightarrow> 'v"
    and emit :: "chat_message \<Rightarrow> 's \<Rightarrow> 's cres"
    and put :: "chat_message \<Rightarrow> 'v \<Rightarrow> 'v"
  assumes emit_ok: "ok s \<Longrightarrow> \<exists>s'. emit m s = Inr s' \<and> ok s' \<and> view s' = put m (view s)"
begin

lemma feed_loop_ok:
  "buff_ok mb \<Longrightarrow> mb_pos mb + length bs \<le> mb_alloc mb \<Longrightarrow> ok s \<Longrightarrow>
     \<exists>mb' s'. feed_loop emit bs mb s = Inr (mb', s') \<and> buff_ok mb' \<and> ok s' \<and>
       mb_alloc mb' = mb_alloc mb \<and>
       view s' = fold (\<lambda>t. put (text_message t)) (fst (feed_texts (pending mb) bs)) (view s) \<and>
       pending mb' = snd (feed_texts (pending mb) bs)"
proof (induction bs arbitrary: mb s)
  case (Cons c bs)
  have lt: "mb_pos mb < mb_alloc mb" using Cons.prems(2) by simp
  show ?case
  proof (cases "c = ch_nl")
    case True
    let ?t = "trim (c_str (pending mb))"
    from feed_line_ok [OF Cons.prems(1) lt] obtain mb1 where
      mb1: "feed_line mb = Inr (let t = ?t in if t = [] then None else Some (text_message t), mb1)"
        "buff_ok mb1" "pending mb1 = []" "mb_pos mb1 = 0" "mb_alloc mb1 = mb_alloc mb" by blast
    have le: "mb_pos mb1 + length bs \<le> mb_alloc mb1" using mb1 Cons.prems(2) by simp
    show ?thesis
    proof (cases "?t = []")
      case blank: True
      from Cons.IH [OF mb1(2) le Cons.prems(3)] True blank mb1 show ?thesis by (auto simp: split_beta)
    next
      case False
      from emit_ok [OF Cons.prems(3), of "text_message ?t"] obtain s1 where
        s1: "emit (text_message ?t) s = Inr s1" "ok s1" "view s1 = put (text_message ?t) (view s)" by blast
      from Cons.IH [OF mb1(2) le s1(2)] True False mb1 s1 show ?thesis by (auto simp: split_beta)
    qed
  next
    case False
    from buff_put_ok [OF Cons.prems(1) lt, of c] obtain mb1 where
      mb1: "buff_put c mb = Inr mb1" "buff_ok mb1" "pending mb1 = pending mb @ [c]"
        "mb_pos mb1 = mb_pos mb + 1" "mb_alloc mb1 = mb_alloc mb" by blast
    then have "mb_pos mb1 + length bs \<le> mb_alloc mb1" using Cons.prems(2) by simp
    from Cons.IH [OF mb1(2) this Cons.prems(3)] False mb1 show ?thesis by simp
  qed
qed simp

text \<open>A feed into an empty buffer.\<close>

lemma feed_empty:
  assumes "buff_ok mb" "mb_pos mb = 0" "ok s"
  shows "\<exists>mb' s'. feed_loop emit bs (buff_reserve mb (length bs)) s = Inr (mb', s') \<and> buff_ok mb' \<and> ok s' \<and>
    view s' = fold (\<lambda>t. put (text_message t)) (fst (feed_texts [] bs)) (view s) \<and>
    pending mb' = snd (feed_texts [] bs)"
proof -
  let ?mb = "buff_reserve mb (length bs)"
  have "buff_ok ?mb" "mb_pos ?mb + length bs \<le> mb_alloc ?mb" "pending ?mb = []"
    using assms by (auto simp: buff_reserve_def buff_ok_def pending_def)
  from feed_loop_ok [OF this(1,2) assms(3)] this(3) show ?thesis by auto
qed

end

interpretation server_sink: message_sink lqueue_ok lqueue_items server_emit
  "\<lambda>m xs. xs @ [m\<lparr>author := Some ''server''\<rparr>]"
  using chat_queue.add_ok by unfold_locales (auto simp: server_emit_def)

definition client_view :: "bool \<times> msg_queue \<Rightarrow> bool \<times> chat_message list" where
  "client_view s = (fst s, lqueue_items (snd s))"

definition client_put :: "string \<Rightarrow> chat_message \<Rightarrow> bool \<times> chat_message list \<Rightarrow> bool \<times> chat_message list" where
  "client_put name m = (\<lambda>(sended, xs). (True, xs @ [if sended then m else m\<lparr>author := Some name\<rparr>]))"

interpretation client_sink: message_sink "\<lambda>s. lqueue_ok (snd s)" client_view "client_emit name" "client_put name"
  for name
proof
  fix s :: "bool \<times> msg_queue" and m
  assume "lqueue_ok (snd s)"
  from chat_queue.add_ok [OF this, of "if fst s then m else m\<lparr>author := Some name\<rparr>"]
  show "\<exists>s'. client_emit name m s = Inr s' \<and> lqueue_ok (snd s') \<and> client_view s' = client_put name m (client_view s)"
    by (auto simp: client_emit_def client_view_def client_put_def split_beta)
qed

lemma fold_server_put:
  "fold (\<lambda>t xs. xs @ [(f t :: 'b)]) ts xs = xs @ map f ts"
  by (induction ts arbitrary: xs) simp_all

lemma fold_client_put:
  "fold (\<lambda>t. client_put name (text_message t)) ts (sended, xs) =
     (sended \<or> ts \<noteq> [], xs @ (if sended then map text_message ts
        else case ts of [] \<Rightarrow> [] | t # ts \<Rightarrow> (text_message t)\<lparr>author := Some name\<rparr> # map text_message ts))"
proof -
  have "fold (\<lambda>t. client_put name (text_message t)) ts (True, xs) = (True, xs @ map text_message ts)" for ts xs
    by (induction ts arbitrary: xs) (simp_all add: client_put_def)
  then show ?thesis by (cases ts; cases sended) (simp_all add: client_put_def)
qed

section \<open>Relaying\<close>

text \<open>
  Streams that do not disturb each other: a \<open>send\<close> changes what was sent on its socket only, a
  \<open>recv\<close> what can be received on its socket only.
\<close>

definition net_frame :: "'w net \<Rightarrow> ('w \<Rightarrow> int \<Rightarrow> char list) \<Rightarrow> ('w \<Rightarrow> int \<Rightarrow> char list) \<Rightarrow> bool" where
  "net_frame net sent avail \<longleftrightarrow>
     (\<forall>sock buf w. let w' = snd (n_send net sock buf w)
        in avail w' = avail w \<and> (\<forall>s. s \<noteq> sock \<longrightarrow> sent w' s = sent w s)) \<and>
     (\<forall>sock n w. let w' = snd (snd (n_recv net sock n w))
        in sent w' = sent w \<and> (\<forall>s. s \<noteq> sock \<longrightarrow> avail w' s = avail w s))"

lemma net_frameD:
  assumes "net_frame net sent avail"
  shows "n_send net sock buf w = (r, w') \<Longrightarrow> avail w' = avail w"
    "n_send net sock buf w = (r, w') \<Longrightarrow> s \<noteq> sock \<Longrightarrow> sent w' s = sent w s"
    "n_recv net sock n w = (r, bs, w') \<Longrightarrow> sent w' = sent w"
    "n_recv net sock n w = (r, bs, w') \<Longrightarrow> s \<noteq> sock \<Longrightarrow> avail w' s = avail w s"
  using assms unfolding net_frame_def Let_def by (metis snd_conv)+

lemma send_loop_frame:
  assumes f: "net_frame net sent avail"
  shows "send_loop net sock buf w = (r, w') \<Longrightarrow> avail w' = avail w \<and> (s \<noteq> sock \<longrightarrow> sent w' s = sent w s)"
proof (induction "length buf" arbitrary: buf w rule: less_induct)
  case less
  obtain k w1 where k: "n_send net sock buf w = (k, w1)" by (cases "n_send net sock buf w")
  show ?case
  proof (cases "buf = [] \<or> k \<le> 0")
    case True
    then show ?thesis
      using less.prems k net_frameD(1,2) [OF f k]
      by (auto simp: send_loop.simps [of net sock buf] split: if_splits)
  next
    case False
    then have "send_loop net sock (drop (nat k) buf) w1 = (r, w')" "length (drop (nat k) buf) < length buf"
      using less.prems k by (auto simp: send_loop.simps [of net sock buf])
    from less.hyps [OF this(2,1)] net_frameD(1,2) [OF f k] show ?thesis by simp
  qed
qed

lemma recv_loop_frame:
  assumes f: "net_frame net sent avail"
  shows "recv_loop net sock n w = (r, w') \<Longrightarrow> sent w' = sent w \<and> (s \<noteq> sock \<longrightarrow> avail w' s = avail w s)"
proof (induction n arbitrary: w r w' rule: less_induct)
  case (less n)
  obtain k bs w1 where k: "n_recv net sock n w = (k, bs, w1)" by (cases "n_recv net sock n w")
  show ?case
  proof (cases "n = 0 \<or> k \<le> 0")
    case True
    then show ?thesis
      using less.prems k net_frameD(3,4) [OF f k]
      by (auto simp: recv_loop.simps [of net sock n] split: if_splits)
  next
    case False
    obtain r1 w2 where w2: "recv_loop net sock (n - nat k) w1 = (r1, w2)"
      by (cases "recv_loop net sock (n - nat k) w1")
    with False less.prems k have "w' = w2"
      by (auto simp: recv_loop.simps [of net sock n] split: sum.splits)
    moreover have "n - nat k < n" using False by simp
    ultimately show ?thesis using less.IH [OF _ w2] net_frameD(3,4) [OF f k] by simp
  qed
qed

lemma if_sent_Inr:
  "if_sent r k = Inr (res, w') \<Longrightarrow> (\<And>n w. r = Inr (n, w) \<Longrightarrow> P w) \<Longrightarrow>
   (\<And>n w. r = Inr (n, w) \<Longrightarrow> k w = Inr (res, w') \<Longrightarrow> P w') \<Longrightarrow> P w'"
  by (auto simp: if_sent_def res_simps split: if_splits)

definition same_else :: "('w \<Rightarrow> int \<Rightarrow> char list) \<Rightarrow> ('w \<Rightarrow> int \<Rightarrow> char list) \<Rightarrow> int \<Rightarrow> 'w \<Rightarrow> 'w \<Rightarrow> bool" where
  "same_else sent avail sock w w' \<longleftrightarrow> avail w' = avail w \<and> (\<forall>s. s \<noteq> sock \<longrightarrow> sent w' s = sent w s)"

lemma same_else_trans:
  "same_else sent avail sock w w1 \<Longrightarrow> same_else sent avail sock w1 w2 \<Longrightarrow> same_else sent avail sock w w2"
  by (simp add: same_else_def)

lemma send_parts_frame:
  assumes f: "net_frame net sent avail"
  shows "send_sizes net n sock w = Inr (r, w') \<Longrightarrow> same_else sent avail sock w w'"
    "send_data net m sock w = Inr (r, w') \<Longrightarrow> same_else sent avail sock w w'"
  using send_loop_frame [OF f]
  by (force simp: send_sizes_def send_data_def same_else_def Let_def split: if_splits prod.splits sum.splits)+

lemma if_sent_frame:
  assumes "\<And>n w1. r = Inr (n, w1) \<Longrightarrow> same_else sent avail sock w w1"
    and "\<And>w1 res w2. k w1 = Inr (res, w2) \<Longrightarrow> same_else sent avail sock w1 w2"
    and "if_sent r k = Inr (res, w')"
  shows "same_else sent avail sock w w'"
  using assms(3)
  by (auto simp: if_sent_def res_simps split: if_splits dest!: assms(1,2) intro: same_else_trans)

lemma chat_message_send_frame:
  assumes f: "net_frame net sent avail" and s: "chat_message_send net msg sock w = Inr (r, w')"
  shows "same_else sent avail sock w w'"
proof -
  note p = send_parts_frame [OF f, where sock = sock]
  obtain m where m: "data msg = Some m" using s by (cases "data msg") (auto simp: chat_message_send_def)
  have t: "same_else sent avail sock v v'"
    if "if_sent (send_sizes net (length (c_str m)) sock v) (send_data net m sock) = Inr (n, v')" for v n v'
    using if_sent_frame [OF _ _ that] p by blast
  show ?thesis
  proof (cases "author msg")
    case None
    with s m t show ?thesis by (simp add: chat_message_send_def)
  next
    case (Some a)
    have all: "if_sent (send_sizes net (length (c_str a)) sock w) (\<lambda>w. if_sent (send_data net a sock w)
        (\<lambda>w. if_sent (send_sizes net (length (c_str m)) sock w) (send_data net m sock))) = Inr (r, w')"
      using s m Some by (simp add: chat_message_send_def Let_def)
    have inner: "same_else sent avail sock v v'"
      if "if_sent (send_data net a sock v)
        (\<lambda>w. if_sent (send_sizes net (length (c_str m)) sock w) (send_data net m sock)) = Inr (n, v')" for v n v'
      by (rule if_sent_frame [OF p(2) t that])
    show ?thesis by (rule if_sent_frame [OF p(1) inner all])
  qed
qed


lemma send_all_ok:
  assumes net: "net_sends net sent" "net_frame net sent avail"
    and msg: "data msg = Some m" "author msg = Some a"
    and len: "length (c_str m) < 2 ^ 31" "length (c_str a) < 2 ^ 31" "c_str a \<noteq> []"
  shows "distinct ss \<Longrightarrow> \<exists>w'. send_all net msg ss w = Inr w' \<and> avail w' = avail w \<and>
    (\<forall>s. sent w' s = sent w s @ (if s \<in> set ss then wire (c_str a) @ wire (c_str m) else []))"
proof (induction ss arbitrary: w)
  case (Cons s ss)
  from send_message_ok [OF net(1) msg len, of s w] obtain w1 where
    w1: "chat_message_send net msg s w = Inr (int (length (c_str m)), w1)"
      "sent w1 s = sent w s @ wire (c_str a) @ wire (c_str m)" by blast
  note fr = chat_message_send_frame [OF net(2) w1(1), unfolded same_else_def]
  from Cons.IH [of w1] Cons.prems obtain w' where
    w': "send_all net msg ss w1 = Inr w'" "avail w' = avail w1"
      "\<forall>t. sent w' t = sent w1 t @ (if t \<in> set ss then wire (c_str a) @ wire (c_str m) else [])" by auto
  have "sent w' t = sent w t @ (if t \<in> set (s # ss) then wire (c_str a) @ wire (c_str m) else [])" for t
    using w'(3) w1(2) fr Cons.prems by (cases "t = s") auto
  with w1(1) w'(1,2) fr show ?case by simp
qed simp

lemma recv_message_frame:
  assumes net: "net_recvs net avail" "net_frame net sent avail" and t: "plain_size (length t)"
    and w: "avail w sock = wire t @ rest"
  shows "\<exists>w'. chat_message_recv net msg sock w = Inr (int (length t), msg\<lparr>data := Some (t @ [ch_nul])\<rparr>, w') \<and>
    avail w' sock = rest \<and> sent w' = sent w"
proof -
  from recv_message_ok [OF net(1) t w, of msg] obtain w' where
    w': "chat_message_recv net msg sock w = Inr (int (length t), msg\<lparr>data := Some (t @ [ch_nul])\<rparr>, w')"
      "avail w' sock = rest" by blast
  have "sent w' = sent w"
    using w'(1) recv_loop_frame [OF net(2)]
    by (auto simp: chat_message_recv_def Let_def split: prod.splits sum.splits if_splits)
  with w' show ?thesis by blast
qed

lemma find_peer_ok: "find_peer ps fd k = Some i \<Longrightarrow> k \<le> i \<and> i - k < length ps \<and> p_socket (ps ! (i - k)) = fd"
proof (induction ps arbitrary: k)
  case (Cons p ps)
  then show ?case by (cases "fd = p_socket p") (force simp: nth_Cons' Suc_le_eq)+
qed simp

text \<open>The whole step for one message of a peer whose author is known.\<close>

lemma relay_message_ok:
  assumes net: "net_sends net sent" "net_recvs net avail" "net_frame net sent avail"
    and i: "i < length (peers_of sv)" "p_author (peers_of sv ! i) = Some a"
      "distinct (map p_socket (peers_of sv))" "lqueue_ok (sv_recved sv)"
    and t: "plain_size (length t)" "t \<noteq> []" "ch_nul \<notin> set t" "a \<noteq> []" "ch_nul \<notin> set a" "length a < 2 ^ 31"
    and w: "avail w (p_socket (peers_of sv ! i)) = wire t @ rest"
  shows "\<exists>q w'. relay_message net sv i w = Inr (None, sv\<lparr>sv_recved := q\<rparr>, w') \<and> lqueue_ok q \<and>
    lqueue_items q = lqueue_items (sv_recved sv) @ [\<lparr>author = Some a, data = Some (t @ [ch_nul])\<rparr>] \<and>
    avail w' (p_socket (peers_of sv ! i)) = rest \<and>
    (\<forall>s. sent w' s = sent w s @ (if s \<in> p_socket ` set (peers_of sv) \<and> s \<noteq> p_socket (peers_of sv ! i)
       then wire a @ wire t else []))"
proof -
  let ?s = "p_socket (peers_of sv ! i)" and ?msg = "\<lparr>author = Some a, data = Some (t @ [ch_nul])\<rparr>"
  let ?ss = "filter (\<lambda>s. ?s \<noteq> s) (map p_socket (peers_of sv))"
  from recv_message_frame [OF net(2,3) t(1) w, of no_message] obtain w1 where
    w1: "chat_message_recv net no_message ?s w = Inr (int (length t), no_message\<lparr>data := Some (t @ [ch_nul])\<rparr>, w1)"
      "avail w1 ?s = rest" "sent w1 = sent w" by blast
  from chat_queue.add_ok [OF i(4), of ?msg] obtain q where
    q: "queue_add (sv_recved sv) ?msg = Inr q" "lqueue_ok q" "lqueue_items q = lqueue_items (sv_recved sv) @ [?msg]"
    by blast
  have c: "c_str (t @ [ch_nul]) = t" "c_str a = a" using t by simp_all
  have len: "length t < 2 ^ 31" using t(1) by (simp add: plain_size_def)
  have "distinct ?ss" using i(3) by simp
  from send_all_ok [OF net(1,3), of ?msg "t @ [ch_nul]" a ?ss w1, OF _ _ _ _ _ this] c len t(4,6) obtain w' where
    w': "send_all net ?msg ?ss w1 = Inr w'" "avail w' = avail w1"
      "\<forall>s. sent w' s = sent w1 s @ (if s \<in> set ?ss then wire a @ wire t else [])" by auto
  have "relay_message net sv i w = Inr (None, sv\<lparr>sv_recved := q\<rparr>, w')"
    using w1(1) q(1) w'(1) i(2) t(2)
    by (simp add: relay_message_def recv_or_drop_def Let_def)
  with q w' w1(2,3) show ?thesis by (fastforce simp: image_iff)
qed

text \<open>What a peer sends before its text: its name, the first time.\<close>

definition name_prefix :: "chat_peer \<Rightarrow> string \<Rightarrow> char list" where
  "name_prefix p a = (if p_author p = None then wire a else [])"

lemma handle_peer_ok:
  assumes net: "net_sends net sent" "net_recvs net avail" "net_frame net sent avail"
    and i: "peers_data_find (peers_of sv) fd = Some i" "p_author (peers_of sv ! i) \<in> {None, Some a}"
      "distinct (map p_socket (peers_of sv))" "lqueue_ok (sv_recved sv)"
    and t: "plain_size (length t)" "t \<noteq> []" "ch_nul \<notin> set t"
    and a: "plain_size (length a)" "a \<noteq> []" "ch_nul \<notin> set a"
    and w: "avail w fd = name_prefix (peers_of sv ! i) a @ wire t @ rest"
  shows "\<exists>sv' w'. handle_peer net sv fd w = Inr (None, sv', w') \<and>
    peers_of sv' = (peers_of sv)[i := (peers_of sv ! i)\<lparr>p_author := Some a\<rparr>] \<and>
    lqueue_ok (sv_recved sv') \<and>
    lqueue_items (sv_recved sv') = lqueue_items (sv_recved sv) @ [\<lparr>author = Some a, data = Some (t @ [ch_nul])\<rparr>] \<and>
    avail w' fd = rest \<and>
    (\<forall>s. sent w' s = sent w s @ (if s \<in> p_socket ` set (peers_of sv) \<and> s \<noteq> fd then wire a @ wire t else []))"
proof -
  have il: "i < length (peers_of sv)" and ifd: "p_socket (peers_of sv ! i) = fd"
    using find_peer_ok [of "peers_of sv" fd 0 i] i(1) by (auto simp: peers_data_find_def)
  have len: "length a < 2 ^ 31" using a(1) by (simp add: plain_size_def)
  show ?thesis
  proof (cases "p_author (peers_of sv ! i) = None")
    case False
    then have au: "p_author (peers_of sv ! i) = Some a" using i(2) by auto
    have same: "(peers_of sv)[i := (peers_of sv ! i)\<lparr>p_author := Some a\<rparr>] = peers_of sv"
      using au il by (simp add: list_update_same_conv)
    have "avail w (p_socket (peers_of sv ! i)) = wire t @ rest" using w au ifd by (simp add: name_prefix_def)
    from relay_message_ok [OF net il au i(3,4) t a(2,3) len this]
    obtain q w' where q: "relay_message net sv i w = Inr (None, sv\<lparr>sv_recved := q\<rparr>, w')" "lqueue_ok q"
      "lqueue_items q = lqueue_items (sv_recved sv) @ [\<lparr>author = Some a, data = Some (t @ [ch_nul])\<rparr>]"
      "avail w' fd = rest"
      "\<forall>s. sent w' s = sent w s @ (if s \<in> p_socket ` set (peers_of sv) \<and> s \<noteq> fd then wire a @ wire t else [])"
      unfolding ifd by blast
    show ?thesis
      by (rule exI [of _ "sv\<lparr>sv_recved := q\<rparr>"], rule exI [of _ w'])
        (use q i(1) au same in \<open>simp add: handle_peer_def peers_of_def\<close>)
  next
    case True
    have "avail w fd = wire a @ wire t @ rest" using w True by (simp add: name_prefix_def)
    from recv_message_frame [OF net(2,3) a(1) this, of no_message] obtain w1 where
      w1: "chat_message_recv net no_message fd w = Inr (int (length a), no_message\<lparr>data := Some (a @ [ch_nul])\<rparr>, w1)"
        "avail w1 fd = wire t @ rest" "sent w1 = sent w" by blast
    let ?sv = "sv\<lparr>sv_peers := Some ((peers_of sv)[i := (peers_of sv ! i)\<lparr>p_author := Some a\<rparr>])\<rparr>"
    have ps: "peers_of ?sv = (peers_of sv)[i := (peers_of sv ! i)\<lparr>p_author := Some a\<rparr>]"
      by (simp add: peers_of_def)
    have socks: "map p_socket (peers_of ?sv) = map p_socket (peers_of sv)"
      using il by (simp add: ps map_update list_update_same_conv)
    then have set: "p_socket ` set (peers_of ?sv) = p_socket ` set (peers_of sv)" by (metis list.set_map)
    have "i < length (peers_of ?sv)" "p_author (peers_of ?sv ! i) = Some a" "p_socket (peers_of ?sv ! i) = fd"
      using il ifd by (simp_all add: ps)
    note r = relay_message_ok [OF net this(1,2), unfolded socks this(3) set, OF i(3) _ t a(2,3) len w1(2)]
    from r i(4) obtain q w' where q: "relay_message net ?sv i w1 = Inr (None, ?sv\<lparr>sv_recved := q\<rparr>, w')" "lqueue_ok q"
      "lqueue_items q = lqueue_items (sv_recved sv) @ [\<lparr>author = Some a, data = Some (t @ [ch_nul])\<rparr>]"
      "avail w' fd = rest"
      "\<forall>s. sent w' s = sent w1 s @ (if s \<in> p_socket ` set (peers_of sv) \<and> s \<noteq> fd then wire a @ wire t else [])"
      by auto
    have c: "c_str (a @ [ch_nul]) = a" using a(3) by simp
    have "handle_peer net sv fd w = Inr (None, ?sv\<lparr>sv_recved := q\<rparr>, w')"
      using i(1) True w1(1) a(2) q(1) c by (simp add: handle_peer_def recv_or_drop_def)
    with q w1(3) ps show ?thesis
      by (intro exI [of _ "?sv\<lparr>sv_recved := q\<rparr>"] exI [of _ w']) (simp add: peers_of_def)
  qed
qed

section \<open>Properties\<close>

lemma new_buff_ok: "buff_ok msg_buff_new" "mb_pos msg_buff_new = 0"
  by (simp_all add: msg_buff_new_def buff_ok_def)

text \<open>
  What is fed to the server between two new lines is queued for sending, trimmed, as a
  message of the author \<open>server\<close>, in order and without the blank lines; the bytes after the last new
  line wait in the buffer. This holds for every block of bytes that meets an empty buffer.
\<close>

theorem server_feed_queues_lines:
  assumes "sv_socket sv \<noteq> -1" and "buff_ok (sv_buff sv)" "mb_pos (sv_buff sv) = 0" "lqueue_ok (sv_send sv)"
  shows "\<exists>sv'. chat_server_feed sv bs = Inr (None, sv') \<and> lqueue_ok (sv_send sv') \<and> buff_ok (sv_buff sv') \<and>
    lqueue_items (sv_send sv') = lqueue_items (sv_send sv) @
      map (\<lambda>t. (text_message t)\<lparr>author := Some ''server''\<rparr>) (fst (feed_texts [] bs)) \<and>
    pending (sv_buff sv') = snd (feed_texts [] bs) \<and>
    sv_peers sv' = sv_peers sv \<and> sv_recved sv' = sv_recved sv \<and> sv_socket sv' = sv_socket sv"
proof -
  from server_sink.feed_empty [OF assms(2-4), of bs] obtain mb q where
    "feed_loop server_emit bs (buff_reserve (sv_buff sv) (length bs)) (sv_send sv) = Inr (mb, q)"
    "buff_ok mb" "lqueue_ok q" "pending mb = snd (feed_texts [] bs)"
    "lqueue_items q = fold (\<lambda>t xs. xs @ [(text_message t)\<lparr>author := Some ''server''\<rparr>]) (fst (feed_texts [] bs))
       (lqueue_items (sv_send sv))" by blast
  then show ?thesis using assms(1) by (simp add: chat_server_feed_def fold_server_put)
qed

theorem server_feed_queues_lines_witness:
  "\<exists>sv'. chat_server_feed (chat_server_new\<lparr>sv_socket := 3\<rparr>) ('' hi '' @ [ch_nl, ch_nl] @ ''yo'') = Inr (None, sv') \<and>
     lqueue_items (sv_send sv') = [\<lparr>author = Some ''server'', data = Some (''hi'' @ [ch_nul])\<rparr>] \<and>
     pending (sv_buff sv') = ''yo''"
proof -
  let ?bs = "'' hi '' @ [ch_nl, ch_nl] @ ''yo''"
  let ?sv = "chat_server_new\<lparr>sv_socket := 3\<rparr>"
  have e: "feed_texts [] ?bs = ([''hi''], ''yo'')" by (simp add: trim_def isspace_def c_str_def)
  have s: "sv_socket ?sv \<noteq> -1" "buff_ok (sv_buff ?sv)" "mb_pos (sv_buff ?sv) = 0" "lqueue_ok (sv_send ?sv)"
    "lqueue_items (sv_send ?sv) = []"
    using new_buff_ok chat_queue.empty_ok by (simp_all add: chat_server_new_def)
  show ?thesis
    using server_feed_queues_lines [OF s(1-4), of ?bs, unfolded e s(5)]
    by (auto simp: text_message_def no_message_def)
qed

lemma client_feed_ok:
  assumes "cl_socket cl \<noteq> -1" and "buff_ok (cl_buff cl)" "mb_pos (cl_buff cl) = 0" "lqueue_ok (cl_send cl)"
  shows "\<exists>cl'. chat_client_feed cl bs = Inr (None, cl') \<and> lqueue_ok (cl_send cl') \<and> buff_ok (cl_buff cl') \<and>
    lqueue_items (cl_send cl') = lqueue_items (cl_send cl) @
      (case fst (feed_texts [] bs) of
         [] \<Rightarrow> []
       | t # ts \<Rightarrow> (if cl_name_sended cl then text_message t else (text_message t)\<lparr>author := Some (cl_name cl)\<rparr>) #
                   map text_message ts) \<and>
    (cl_name_sended cl' \<longleftrightarrow> cl_name_sended cl \<or> fst (feed_texts [] bs) \<noteq> []) \<and>
    pending (cl_buff cl') = snd (feed_texts [] bs) \<and>
    cl' = cl\<lparr>cl_buff := cl_buff cl', cl_name_sended := cl_name_sended cl', cl_send := cl_send cl'\<rparr>"
proof -
  from client_sink.feed_empty [OF assms(2,3), of "(cl_name_sended cl, cl_send cl)" "cl_name cl" bs] assms(4)
  obtain mb ns q where f:
    "feed_loop (client_emit (cl_name cl)) bs (buff_reserve (cl_buff cl) (length bs)) (cl_name_sended cl, cl_send cl) =
       Inr (mb, ns, q)"
    "buff_ok mb" "lqueue_ok q" "pending mb = snd (feed_texts [] bs)"
    "client_view (ns, q) = fold (\<lambda>t. client_put (cl_name cl) (text_message t)) (fst (feed_texts [] bs))
       (client_view (cl_name_sended cl, cl_send cl))" by auto
  show ?thesis
    using f(1-4) assms(1) f(5)[unfolded client_view_def fst_conv snd_conv fold_client_put]
    by (cases "fst (feed_texts [] bs)") (simp_all add: chat_client_feed_def)
qed

text \<open>
  The same for the client, and the first message that is queued carries the name of the
  client while all others carry none.
\<close>

theorem client_feed_queues_lines:
  assumes "cl_socket cl \<noteq> -1" and "buff_ok (cl_buff cl)" "mb_pos (cl_buff cl) = 0" "lqueue_ok (cl_send cl)"
  shows "\<exists>cl'. chat_client_feed cl bs = Inr (None, cl') \<and> lqueue_ok (cl_send cl') \<and> buff_ok (cl_buff cl') \<and>
    lqueue_items (cl_send cl') = lqueue_items (cl_send cl) @
      (case fst (feed_texts [] bs) of
         [] \<Rightarrow> []
       | t # ts \<Rightarrow> (if cl_name_sended cl then text_message t else (text_message t)\<lparr>author := Some (cl_name cl)\<rparr>) #
                   map text_message ts) \<and>
    (cl_name_sended cl' \<longleftrightarrow> cl_name_sended cl \<or> fst (feed_texts [] bs) \<noteq> []) \<and>
    pending (cl_buff cl') = snd (feed_texts [] bs)"
  using client_feed_ok [OF assms, of bs] by blast

theorem client_feed_queues_lines_witness:
  "\<exists>cl'. chat_client_feed ((chat_client_new ''me'')\<lparr>cl_socket := 3\<rparr>) (''a'' @ [ch_nl] @ ''b'' @ [ch_nl]) = Inr (None, cl') \<and>
     lqueue_items (cl_send cl') = [\<lparr>author = Some ''me'', data = Some (''a'' @ [ch_nul])\<rparr>,
       \<lparr>author = None, data = Some (''b'' @ [ch_nul])\<rparr>]"
proof -
  let ?bs = "''a'' @ [ch_nl] @ ''b'' @ [ch_nl]"
  have e: "feed_texts [] ?bs = ([''a'', ''b''], [])" by (simp add: trim_def isspace_def c_str_def)
  let ?cl = "(chat_client_new ''me'')\<lparr>cl_socket := 3\<rparr>"
  have s: "cl_socket ?cl \<noteq> -1" "buff_ok (cl_buff ?cl)" "mb_pos (cl_buff ?cl) = 0" "lqueue_ok (cl_send ?cl)"
    "lqueue_items (cl_send ?cl) = []" "cl_name ?cl = ''me''" "\<not> cl_name_sended ?cl"
    using new_buff_ok chat_queue.empty_ok by (simp_all add: chat_client_new_def c_str_def)
  show ?thesis
    using client_feed_queues_lines [OF s(1-4), of ?bs, unfolded e s(5,6)] s(7)
    by (auto simp: text_message_def no_message_def)
qed

lemma feed_loop_plain:
  "ch_nl \<notin> set bs \<Longrightarrow> buff_ok mb \<Longrightarrow> mb_pos mb + length bs \<le> mb_alloc mb \<Longrightarrow>
     \<exists>mb'. feed_loop emit bs mb s = Inr (mb', s) \<and> mb_pos mb' = mb_pos mb + length bs \<and>
       mb_alloc mb' = mb_alloc mb \<and> mb_size mb' = 0"
proof (induction bs arbitrary: mb)
  case Nil
  then show ?case by (simp add: buff_ok_def)
next
  case (Cons c bs)
  then have "mb_pos mb < mb_alloc mb" by simp
  from buff_put_ok [OF Cons.prems(2) this, of c] obtain mb1 where
    mb1: "buff_put c mb = Inr mb1" "buff_ok mb1" "mb_pos mb1 = mb_pos mb + 1" "mb_alloc mb1 = mb_alloc mb" by blast
  from Cons.IH [OF _ mb1(2)] Cons.prems mb1 show ?case by auto
qed

text \<open>
  A message that comes in two blocks overflows the buffer: the field \<open>size\<close> stays 0, so with a
  pending byte the difference \<open>size - pos\<close> wraps around, the buffer is not enlarged, and the next
  byte is written behind it.
\<close>

theorem server_feed_split_overflows:
  assumes "sv_socket sv \<noteq> -1" and "buff_ok (sv_buff sv)" "mb_pos (sv_buff sv) = 0" "mb_alloc (sv_buff sv) = 0"
    and "xs \<noteq> []" "ch_nl \<notin> set xs" "length xs < 2 ^ 32" "ys \<noteq> []" "length ys < 2 ^ 32"
  shows "\<exists>sv'. chat_server_feed sv xs = Inr (None, sv') \<and> chat_server_feed sv' ys = Inl OutOfBounds"
proof -
  let ?mb = "buff_reserve (sv_buff sv) (length xs)"
  have r: "buff_ok ?mb" "mb_pos ?mb = 0" "mb_alloc ?mb = length xs"
    using assms(2,3,5) by (auto simp: buff_reserve_def buff_ok_def)
  from feed_loop_plain [OF assms(6) r(1), of server_emit "sv_send sv"] r(2,3) obtain mb where
    mb: "feed_loop server_emit xs ?mb (sv_send sv) = Inr (mb, sv_send sv)" "mb_pos mb = length xs"
      "mb_alloc mb = length xs" "mb_size mb = 0" by auto
  define sv' where "sv' = sv\<lparr>sv_buff := mb, sv_send := sv_send sv\<rparr>"
  have fed: "chat_server_feed sv xs = Inr (None, sv')" using assms(1) mb(1) by (simp add: chat_server_feed_def sv'_def)
  have "2 ^ 64 - length xs \<ge> length ys" "length xs < 2 ^ 64" "0 < length xs" using assms(5,7,9) by auto
  then have "buff_reserve mb (length ys) = mb" using mb(2,4) by (simp add: buff_reserve_def)
  moreover obtain y ys' where y: "ys = y # ys'" using assms(8) by (cases ys) auto
  ultimately have "chat_server_feed sv' ys = Inl OutOfBounds"
    using assms(1) mb(2,3) by (simp add: chat_server_feed_def sv'_def feed_line_def buff_put_def)
  with fed show ?thesis by blast
qed

theorem server_feed_split_overflows_witness:
  "\<exists>sv'. chat_server_feed (chat_server_new\<lparr>sv_socket := 3\<rparr>) ''ab'' = Inr (None, sv') \<and>
     chat_server_feed sv' ''c'' = Inl OutOfBounds"
  using server_feed_split_overflows [of "chat_server_new\<lparr>sv_socket := 3\<rparr>" "''ab''" "''c''"]
  by (simp add: chat_server_new_def msg_buff_new_def buff_ok_def)

text \<open>
  Removing a client always leaves the memory: the second \<open>memcpy\<close> copies one element more than
  there are behind the removed one, past the end of both arrays.
\<close>

theorem remove_client_overflows:
  shows "chat_server_remove_client ps fd = Inl OutOfBounds"
proof (cases "find_peer ps fd 0")
  case (Some i)
  from find_peer_ok [OF this] show ?thesis
    using Some by (auto simp: chat_server_remove_client_def copy_elems_def Let_def)
qed (simp add: chat_server_remove_client_def)

text \<open>
  (C16) One message through the server. When a known peer has sent its name (the first time) and a
  text, one update step queues the text under this name, remembers the name, sends name and text
  to every other peer and nothing to the sender, and leaves the rest of the input. (Lengths with
  bytes above 127 are excluded.)
\<close>

theorem server_update_relays:
  assumes "net_sends net sent" "net_recvs net avail" "net_frame net sent avail"
    and "n_wait net (sv_poll sv) w = (1, fd, w1)" "sv_socket sv \<noteq> -1" "fd \<noteq> sv_socket sv" "cnt (sv_send sv) = 0"
    and "peers_data_find (peers_of sv) fd = Some i" "p_author (peers_of sv ! i) \<in> {None, Some a}"
    and "distinct (map p_socket (peers_of sv))" "lqueue_ok (sv_recved sv)"
    and "plain_size (length t)" "t \<noteq> []" "ch_nul \<notin> set t" "plain_size (length a)" "a \<noteq> []" "ch_nul \<notin> set a"
    and "avail w1 fd = name_prefix (peers_of sv ! i) a @ wire t @ rest"
  shows "\<exists>sv' w'. chat_server_update net sv w = Inr (None, sv', w') \<and>
    peers_of sv' = (peers_of sv)[i := (peers_of sv ! i)\<lparr>p_author := Some a\<rparr>] \<and>
    lqueue_items (sv_recved sv') = lqueue_items (sv_recved sv) @ [\<lparr>author = Some a, data = Some (t @ [ch_nul])\<rparr>] \<and>
    avail w' fd = rest \<and>
    (\<forall>s. sent w' s = sent w1 s @ (if s \<in> p_socket ` set (peers_of sv) \<and> s \<noteq> fd then wire a @ wire t else []))"
proof -
  from handle_peer_ok [OF assms(1-3,8-18)]
  show ?thesis using assms(4-7) by (auto simp: chat_server_update_def)
qed

lemma byte_net_frame: "net_frame byte_net fst snd"
  by (auto simp: net_frame_def byte_net_def Let_def)

definition demo_server :: chat_server where
  "demo_server = chat_server_new\<lparr>sv_socket := 3, sv_poll := 4,
     sv_peers := Some [\<lparr>p_socket = 5, p_author = None\<rparr>, \<lparr>p_socket = 6, p_author = Some ''b''\<rparr>]\<rparr>"

theorem server_update_relays_witness:
  "\<exists>sv' w'. chat_server_update byte_net demo_server (\<lambda>_. [], \<lambda>s. if s = 5 then wire ''a'' @ wire ''hi'' else []) =
     Inr (None, sv', w') \<and>
     lqueue_items (sv_recved sv') = [\<lparr>author = Some ''a'', data = Some (''hi'' @ [ch_nul])\<rparr>] \<and>
     fst w' 6 = wire ''a'' @ wire ''hi'' \<and> fst w' 5 = []"
proof -
  let ?w = "(\<lambda>_. [], \<lambda>s. if s = 5 then wire ''a'' @ wire ''hi'' else []) :: streams"
  have p: "plain_size (length ''hi'')" "plain_size (length ''a'')"
    by (simp_all add: plain_size_def size_digits.simps)
  have f: "peers_data_find (peers_of demo_server) 5 = Some 0"
    by (simp add: demo_server_def peers_of_def peers_data_find_def)
  have ps: "peers_of demo_server = [\<lparr>p_socket = 5, p_author = None\<rparr>, \<lparr>p_socket = 6, p_author = Some ''b''\<rparr>]"
    by (simp add: demo_server_def peers_of_def)
  have q: "lqueue_ok (sv_recved demo_server)" "lqueue_items (sv_recved demo_server) = []" "cnt (sv_send demo_server) = 0"
    using chat_queue.empty_ok by (simp_all add: demo_server_def chat_server_new_def) (simp add: lqueue_empty_def)
  have w: "n_wait byte_net (sv_poll demo_server) ?w = (1, 5, ?w)" by (simp add: byte_net_def)
  have s: "sv_socket demo_server \<noteq> -1" "5 \<noteq> sv_socket demo_server" by (simp_all add: demo_server_def)
  have a: "snd ?w 5 = name_prefix (peers_of demo_server ! 0) ''a'' @ wire ''hi'' @ []"
    by (simp add: ps name_prefix_def)
  have b: "p_author (peers_of demo_server ! 0) \<in> {None, Some ''a''}" "distinct (map p_socket (peers_of demo_server))"
    by (simp_all add: ps)
  have c: "''hi'' \<noteq> []" "ch_nul \<notin> set ''hi''" "''a'' \<noteq> []" "ch_nul \<notin> set ''a''" by simp_all
  obtain sv' w' where r: "chat_server_update byte_net demo_server ?w = Inr (None, sv', w')"
    "lqueue_items (sv_recved sv') = lqueue_items (sv_recved demo_server) @ [\<lparr>author = Some ''a'', data = Some (''hi'' @ [ch_nul])\<rparr>]"
    "\<forall>s. fst w' s = fst ?w s @ (if s \<in> p_socket ` set (peers_of demo_server) \<and> s \<noteq> 5 then wire ''a'' @ wire ''hi'' else [])"
    using server_update_relays [where net = byte_net and sent = fst and avail = snd and w = ?w and sv = demo_server and i = 0
        and a = "''a''" and t = "''hi''" and rest = "[]",
        OF byte_net_ok byte_net_frame w s q(3) f b q(1) p(1) c(1,2) p(2) c(3,4) a]
    by (elim exE conjE) (rule that)
  have o: "fst w' 6 = wire ''a'' @ wire ''hi''" "fst w' 5 = []"
    using r(3)[THEN spec, of 6] r(3)[THEN spec, of 5] by (simp_all only: ps) (simp_all del: append.simps)
  have i: "lqueue_items (sv_recved sv') = [\<lparr>author = Some ''a'', data = Some (''hi'' @ [ch_nul])\<rparr>]"
    using r(2) by (simp only: q(2) append_Nil)
  show ?thesis by (intro exI conjI) (rule r(1) i o)+
qed

end
