(* ===== verification/Scan.thy ===== *)
theory Scan
  imports Prelude
begin

text \<open>
  The conversions of the C library that read numbers: \<open>strtol\<close> and the directives of \<open>sscanf\<close>, and the decimal
  text of a number, which they read back.
\<close>

section \<open>Numbers in a text\<close>

definition isdigit :: "char \<Rightarrow> bool" where
  "isdigit c \<longleftrightarrow> 48 \<le> (of_char c :: int) \<and> (of_char c :: int) \<le> 57"

text \<open>
  \<open>strtol\<close> to the base 10: the value, cut to the range of \<open>long\<close>, the text behind it and whether
  \<open>errno\<close> was set. Without a digit the value is 0 and the end is the start of the text.
\<close>

definition strtol :: "string \<Rightarrow> int \<times> string \<times> bool" where
  "strtol str =
     (let s = dropWhile isspace str;
          neg = (s \<noteq> [] \<and> hd s = CHR ''-'');
          ds = (if s \<noteq> [] \<and> (hd s = CHR ''-'' \<or> hd s = CHR ''+'') then tl s else s);
          v = (if neg then - atoi_digits 0 ds else atoi_digits 0 ds)
      in if takeWhile isdigit ds = [] then (0, str, False)
         else (max (- (2 ^ 63)) (min (2 ^ 63 - 1) v), dropWhile isdigit ds, v < - (2 ^ 63) \<or> 2 ^ 63 - 1 < v))"

text \<open>The value of a text of digits.\<close>

definition decimal :: "string \<Rightarrow> int" where
  "decimal ds = foldl (\<lambda>n c. 10 * n + (of_char c - 48)) 0 ds"

definition signed_decimal :: "string \<Rightarrow> string \<Rightarrow> int" where
  "signed_decimal sg ds = (if sg = ''-'' then - decimal ds else decimal ds)"

lemma atoi_digits_takeWhile: "atoi_digits n s = foldl (\<lambda>n c. 10 * n + (of_char c - 48)) n (takeWhile isdigit s)"
  by (induction n s rule: atoi_digits.induct) (simp_all add: isdigit_def)

lemma isdigit_not_space: "isdigit c \<Longrightarrow> \<not> isspace c \<and> c \<noteq> CHR ''-'' \<and> c \<noteq> CHR ''+''"
proof (intro conjI notI)
  assume c: "isdigit c"
  show False if "isspace c"
    using that unfolding isspace_def by (elim disjE) (use c in \<open>simp only: isdigit_def, simp\<close>)+
  show False if "c = CHR ''-''" using c that by (simp add: isdigit_def)
  show False if "c = CHR ''+''" using c that by (simp add: isdigit_def)
qed

lemma dropWhile_spaces: "list_all isspace ws \<Longrightarrow> s = [] \<or> \<not> isspace (hd s) \<Longrightarrow> dropWhile isspace (ws @ s) = s"
  by (induction ws) (cases s, auto)

lemma not_isspace_sign: "\<not> isspace CHR ''-''" "\<not> isspace CHR ''+''"
  by (simp_all add: isspace_def)

lemma takeWhile_digits: "list_all isdigit ds \<Longrightarrow> takeWhile isdigit ds = ds" "list_all isdigit ds \<Longrightarrow> dropWhile isdigit ds = []"
  by (simp_all add: takeWhile_eq_all_conv dropWhile_eq_Nil_conv list_all_iff)

lemma takeWhile_digits_rest:
  assumes "list_all isdigit ds" "rest = [] \<or> \<not> isdigit (hd rest)"
  shows "takeWhile isdigit (ds @ rest) = ds" "dropWhile isdigit (ds @ rest) = rest"
  using assms by (induction ds) (cases rest; simp)+

text \<open>A number with a sign, spaces in front of it and anything but a digit behind it.\<close>

lemma strtol_number:
  assumes "list_all isspace ws" "sg \<in> {'''', ''+'', ''-''}" "ds \<noteq> []" "list_all isdigit ds"
    and "rest = [] \<or> \<not> isdigit (hd rest)"
  shows "strtol (ws @ sg @ ds @ rest) =
    (max (- (2 ^ 63)) (min (2 ^ 63 - 1) (signed_decimal sg ds)), rest,
     signed_decimal sg ds < - (2 ^ 63) \<or> 2 ^ 63 - 1 < signed_decimal sg ds)"
proof -
  have "isdigit (hd ds)" using assms(3,4) by (cases ds) auto
  note h = isdigit_not_space [OF this]
  note t = takeWhile_digits_rest [OF assms(4,5)]
  have d: "decimal ds = atoi_digits 0 (ds @ rest)" by (simp only: atoi_digits_takeWhile decimal_def t)
  from assms(2) consider "sg = ''''" | "sg = ''+''" | "sg = ''-''" by blast
  then show ?thesis
  proof cases
    case 1
    have "dropWhile isspace (ws @ ds @ rest) = ds @ rest" by (rule dropWhile_spaces [OF assms(1)]) (use h assms(3) in simp)
    with 1 h assms(3) show ?thesis by (simp add: t strtol_def signed_decimal_def d Let_def)
  next
    case 2
    have "dropWhile isspace (ws @ CHR ''+'' # ds @ rest) = CHR ''+'' # ds @ rest"
      by (rule dropWhile_spaces [OF assms(1)]) (simp add: not_isspace_sign)
    with 2 assms(3) show ?thesis by (simp add: t strtol_def signed_decimal_def d Let_def)
  next
    case 3
    have "dropWhile isspace (ws @ CHR ''-'' # ds @ rest) = CHR ''-'' # ds @ rest"
      by (rule dropWhile_spaces [OF assms(1)]) (simp add: not_isspace_sign)
    with 3 assms(3) show ?thesis by (simp add: t strtol_def signed_decimal_def d Let_def)
  qed
qed

lemmas strtol_whole = strtol_number [where rest = "[]", simplified append_Nil2, OF _ _ _ _ disjI1 [OF refl]]

section \<open>Directives of sscanf\<close>

text \<open>
  \<open>%d\<close> skips spaces and stores the number cut to 32 bits; \<open>%c\<close> takes any character, and a space in the format skips
  spaces. \<open>None\<close> ends the whole call: the variables of this and the later directives keep their values.
\<close>

definition scan_d :: "string \<Rightarrow> (int \<times> string) option" where
  "scan_d s =
     (let (v, rest, _) = strtol s
      in if length rest = length s then None else Some (sint (word_of_int v :: i32), rest))"

fun scan_c :: "string \<Rightarrow> (char \<times> string) option" where
  "scan_c [] = None"
| "scan_c (c # s) = Some (c, s)"

definition skip_spaces :: "string \<Rightarrow> string" where
  "skip_spaces s = dropWhile isspace s"

section \<open>The decimal text of a number\<close>

fun show_nat :: "nat \<Rightarrow> string" where
  "show_nat n = (if n < 10 then [char_of (48 + n)] else show_nat (n div 10) @ [char_of (48 + n mod 10)])"

declare show_nat.simps [simp del]

definition show_int :: "int \<Rightarrow> string" where
  "show_int n = (if n < 0 then CHR ''-'' # show_nat (nat (- n)) else show_nat (nat n))"

lemma digit_char:
  assumes "n < 10"
  shows "isdigit (char_of (48 + n))" "of_char (char_of (48 + n) :: char) = (48 + int n)"
proof -
  show v: "of_char (char_of (48 + n) :: char) = (48 + int n)"
    using assms of_nat_of_char[of "char_of (48 + n)", where ?'a = int] by simp
  show "isdigit (char_of (48 + n))"
    using assms unfolding isdigit_def v by simp
qed

lemma show_nat_digits: "show_nat n \<noteq> []" "list_all isdigit (show_nat n)" "decimal (show_nat n) = int n"
proof (induction n rule: show_nat.induct)
  case (1 n)
  {
    case 1
    show ?case by (subst show_nat.simps) simp
  next
    case 2
    show ?case using 1(2) digit_char(1)[of n] digit_char(1)[of "n mod 10"] by (subst show_nat.simps) simp
  next
    case 3
    have "10 * int (n div 10) + int (n mod 10) = int n"
      using mult_div_mod_eq[of 10 n] by linarith
    then show ?case using 1(3) digit_char(2)[of n] digit_char(2)[of "n mod 10"]
      by (subst show_nat.simps) (auto simp: decimal_def)
  }
qed

lemma scan_show_int:
  assumes "- (2 ^ 31) \<le> n" "n < 2 ^ 31" "rest = [] \<or> \<not> isdigit (hd rest)" "list_all isspace ws"
  shows "scan_d (ws @ show_int n @ rest) = Some (n, rest)"
proof -
  obtain sg ds where sg: "show_int n = sg @ ds" "sg \<in> {'''', ''+'', ''-''}" "ds \<noteq> []" "list_all isdigit ds" "signed_decimal sg ds = n"
  proof (cases "n < 0")
    case True
    then show ?thesis
      using show_nat_digits[of "nat (- n)"] that[of "''-''" "show_nat (nat (- n))"] by (simp add: show_int_def signed_decimal_def)
  next
    case False
    then show ?thesis
      using show_nat_digits[of "nat n"] that[of "''''" "show_nat (nat n)"] by (simp add: show_int_def signed_decimal_def)
  qed
  have "strtol (ws @ show_int n @ rest) = (n, rest, False)"
    using strtol_number[OF assms(4) sg(2-4) assms(3)] assms(1,2) by (simp add: sg)
  moreover have "sint (word_of_int n :: i32) = n"
    using assms(1,2) by (simp add: signed_of_int signed_take_bit_int_eq_self)
  moreover have "show_int n \<noteq> []"
    using sg by simp
  ultimately show ?thesis
    by (simp add: scan_d_def)
qed

end
