(* ===== verification/ChatExe.thy ===== *)
theory ChatExe
  imports Chat_Spec Scan
begin

text \<open>
  The executables of the chat, src/5/chat_server_exe.c and src/5/chat_client_exe.c: the port
  argument, the main function of the server and the loop of the client, which moves what is typed
  to the client and what the client has received to the screen.
\<close>

section \<open>The port argument\<close>

definition port_from_str :: "string \<Rightarrow> u16 option" where
  "port_from_str str =
     (let (res, end_str, err) = strtol str
      in if res = 0 \<and> err then None
         else if end_str \<noteq> [] then None
         else if res > 65535 \<or> res < 0 then None
         else Some (word_of_int res))"

lemma strtol_all:
  assumes "strtol str = (res, [], err)" "str \<noteq> []"
  obtains ws sg ds where "str = ws @ sg @ ds" "list_all isspace ws" "sg \<in> {'''', ''+'', ''-''}"
    "ds \<noteq> []" "list_all isdigit ds"
proof -
  define s where "s = dropWhile isspace str"
  define sg where "sg = (if s \<noteq> [] \<and> (hd s = CHR ''-'' \<or> hd s = CHR ''+'') then [hd s] else [])"
  define ds where "ds = (if s \<noteq> [] \<and> (hd s = CHR ''-'' \<or> hd s = CHR ''+'') then tl s else s)"
  have s: "s = sg @ ds" "sg \<in> {'''', ''+'', ''-''}" by (cases s; auto simp: sg_def ds_def)+
  have "takeWhile isdigit ds \<noteq> []" "dropWhile isdigit ds = []"
    using assms by (auto simp: strtol_def Let_def s_def [symmetric] ds_def [symmetric] split: if_splits)
  then have "ds \<noteq> []" "list_all isdigit ds" by (auto simp: list_all_iff dropWhile_eq_Nil_conv)
  moreover have "str = takeWhile isspace str @ sg @ ds" by (simp add: s(1) [symmetric] s_def)
  moreover have "list_all isspace (takeWhile isspace str)" by (auto simp: list_all_iff dest: set_takeWhileD)
  ultimately show ?thesis using that s(2) by blast
qed

text \<open>
  The texts that the server accepts as a port, and the port it takes: spaces, a sign and
  digits whose value is a 16-bit number; and the empty text, as port 0.
\<close>

theorem port_from_str_exact:
  "port_from_str str = Some port \<longleftrightarrow>
     str = [] \<and> port = 0 \<or>
     (\<exists>ws sg ds. str = ws @ sg @ ds \<and> list_all isspace ws \<and> sg \<in> {'''', ''+'', ''-''} \<and> ds \<noteq> [] \<and> list_all isdigit ds \<and>
        0 \<le> signed_decimal sg ds \<and> signed_decimal sg ds < 2 ^ 16 \<and> port = word_of_int (signed_decimal sg ds))"
  (is "?l \<longleftrightarrow> ?r")
proof (cases "str = []")
  case True
  then show ?thesis by (auto simp: port_from_str_def strtol_def)
next
  case False
  show ?thesis
  proof
    assume l: ?l
    then obtain res err where st: "strtol str = (res, [], err)"
      by (cases "strtol str") (auto simp: port_from_str_def split: if_splits)
    from strtol_all [OF st False] obtain ws sg ds where
      p: "str = ws @ sg @ ds" "list_all isspace ws" "sg \<in> {'''', ''+'', ''-''}" "ds \<noteq> []" "list_all isdigit ds" .
    from l strtol_whole [OF p(2-5)] have "0 \<le> signed_decimal sg ds" "signed_decimal sg ds < 2 ^ 16"
      "port = word_of_int (signed_decimal sg ds)"
      by (auto simp: port_from_str_def p(1) max_def min_def split: if_splits)
    with p show ?r by blast
  next
    assume ?r
    with False obtain ws sg ds where p: "str = ws @ sg @ ds" "list_all isspace ws" "sg \<in> {'''', ''+'', ''-''}" "ds \<noteq> []" "list_all isdigit ds"
      "0 \<le> signed_decimal sg ds" "signed_decimal sg ds < 2 ^ 16" "port = word_of_int (signed_decimal sg ds)" by blast
    then show ?l using strtol_whole [OF p(2-5)] by (simp add: port_from_str_def)
  qed
qed

section \<open>The executable of the server\<close>

text \<open>
  \<open>main\<close> as it is compiled with \<open>NEED_SERVER_FEED\<close>, which src/5/chat.h defines: the branch that would
  serve the clients holds a comment only. \<open>argv\<close> has the name of the program first.
\<close>

definition server_main :: "'w net \<Rightarrow> string list \<Rightarrow> 'w \<Rightarrow> (int \<times> 'w) cres" where
  "server_main net argv w =
     (if length argv < 2 then Inr (-1, w)
      else case port_from_str (argv ! 1) of
             None \<Rightarrow> Inr (-1, w)
           | Some port \<Rightarrow>
               let (rc, serv, w) = chat_server_listen net chat_server_new port w
               in rbind (chat_server_delete net serv w) (\<lambda>(_, w).
                  Inr (if rc \<noteq> None then -1 else 0, w)))"

section \<open>The executable of the client\<close>

text \<open>
  \<open>t_poll fd events\<close> waits for the input and the descriptor of the client: its result and whether
  \<open>revents\<close> of either is not 0. \<open>t_read\<close> reads from the standard input.
\<close>

record 'w tty =
  t_poll :: "int \<Rightarrow> i32 \<Rightarrow> 'w \<Rightarrow> int \<times> bool \<times> bool \<times> 'w"
  t_read :: "'w \<Rightarrow> int \<times> char list \<times> 'w"

text \<open>The line that is printed for a message; \<open>%s\<close> of a null pointer is not defined.\<close>

definition message_line :: "chat_message \<Rightarrow> string cres" where
  "message_line msg =
     (case (author msg, data msg) of
        (Some a, Some m) \<Rightarrow> Inr (c_str a @ '': '' @ c_str m)
      | _ \<Rightarrow> Inl NullDeref)"

text \<open>The loop that prints the received messages; it has at most one round more than there are.\<close>

fun flush_messages :: "nat \<Rightarrow> chat_client \<Rightarrow> string list \<Rightarrow> (chat_client \<times> string list) cres" where
  "flush_messages 0 cli out = Inl Hang"
| "flush_messages (Suc n) cli out =
     rbind (chat_client_pop_next cli) (\<lambda>(msg, cli).
     case msg of
       None \<Rightarrow> Inr (cli, out)
     | Some m \<Rightarrow> rbind (message_line m) (\<lambda>l. flush_messages n cli (out @ [l])))"

text \<open>
  The two halves of a round; the flag is whether the loop goes on. A failed read passes -1 as the
  number of bytes, which is \<open>2 ^ 32 - 1\<close> for \<open>chat_client_feed\<close>.
\<close>

definition client_input :: "'w tty \<Rightarrow> chat_client \<Rightarrow> 'w \<Rightarrow> (bool \<times> chat_client \<times> 'w) cres" where
  "client_input tty cli w =
     (let (rc, buf, w) = t_read tty w
      in if rc = 0 then Inr (False, cli, w)
         else if rc < 0 \<and> cl_socket cli \<noteq> -1 then Inl OutOfBounds
         else rbind (chat_client_feed cli buf) (\<lambda>(rc, cli). Inr (rc = None, cli, w)))"

definition client_events :: "'w net \<Rightarrow> chat_client \<Rightarrow> 'w \<Rightarrow> (bool \<times> chat_client \<times> 'w) cres" where
  "client_events net cli w =
     rbind (chat_client_update net cli w) (\<lambda>(rc, cli, w).
     Inr (rc = None \<or> rc = Some CHAT_ERR_TIMEOUT, cli, w))"

definition client_round :: "'w tty \<Rightarrow> 'w net \<Rightarrow> int \<Rightarrow> chat_client \<Rightarrow> string list \<Rightarrow> 'w \<Rightarrow>
    (bool \<times> chat_client \<times> string list \<times> 'w) cres" where
  "client_round tty net fd cli out w =
     (let (rc, input, client, w) = t_poll tty fd (chat_events_to_poll_events (chat_client_get_events cli)) w
      in if rc < 0 then Inr (False, cli, out, w)
         else rbind (if input then client_input tty cli w else Inr (True, cli, w)) (\<lambda>(go, cli, w).
              if \<not> go then Inr (False, cli, out, w)
              else rbind (if client then client_events net cli w else Inr (True, cli, w)) (\<lambda>(go, cli, w).
                   if \<not> go then Inr (False, cli, out, w)
                   else rbind (flush_messages (nat (cnt (cl_recved cli)) + 1) cli out) (\<lambda>(cli, out).
                        Inr (True, cli, out, w)))))"

text \<open>The loop may run for ever.\<close>

partial_function (option) client_loop ::
  "'w tty \<Rightarrow> 'w net \<Rightarrow> int \<Rightarrow> chat_client \<Rightarrow> string list \<Rightarrow> 'w \<Rightarrow> (chat_client \<times> string list \<times> 'w) cres option" where
  "client_loop tty net fd cli out w =
     (case client_round tty net fd cli out w of
        Inl e \<Rightarrow> Some (Inl e)
      | Inr (go, cli, out, w) \<Rightarrow> if go then client_loop tty net fd cli out w else Some (Inr (cli, out, w)))"

declare client_loop.simps [code]

text \<open>The result, the lines printed for messages and the world.\<close>

definition client_main :: "'w tty \<Rightarrow> 'w net \<Rightarrow> string list \<Rightarrow> 'w \<Rightarrow> (int \<times> string list \<times> 'w) cres option" where
  "client_main tty net argv w =
     (if length argv < 2 then Some (Inr (-1, [], w))
      else let name = (if length argv \<ge> 3 then argv ! 2 else ''anon'');
               leave = (\<lambda>code cli out w. rbind (chat_client_delete net cli w) (\<lambda>(_, w). Inr (code, out, w)))
           in case chat_client_connect net (chat_client_new name) (argv ! 1) w of
                Inl e \<Rightarrow> Some (Inl e)
              | Inr (Some rc, cli, w) \<Rightarrow> Some (leave (-1) cli [] w)
              | Inr (None, cli, w) \<Rightarrow>
                  let fd = chat_client_get_descriptor cli
                  in if \<not> fd \<ge> 0 then Some (Inl AssertFail)
                     else map_option (\<lambda>r. rbind r (\<lambda>(cli, out, w). leave 0 cli out w)) (client_loop tty net fd cli [] w))"

section \<open>What the executables do\<close>

text \<open>
  The executable of the server serves nobody. It opens its port and, since the part of main
  that would handle clients is empty, at once closes its descriptors and returns 0.
\<close>

theorem server_main_serves_nobody:
  assumes "port_from_str (argv ! 1) = Some port" "2 \<le> length argv"
    and "chat_server_listen net chat_server_new port w = (None, serv, w1)"
  shows "server_main net argv w = Inr (0, close_if_open net (sv_poll serv) (close_if_open net (sv_socket serv) w1))"
proof -
  have l: "lqueue_ok (sv_recved serv)" "lqueue_ok (sv_send serv)"
    using assms(3) chat_queue.empty_ok
    by (auto simp: chat_server_listen_def chat_server_new_def Let_def split: prod.splits if_splits)
  have "chat_server_delete net serv w1 = Inr (lqueue_items (sv_recved serv) @ lqueue_items (sv_send serv),
      close_if_open net (sv_poll serv) (close_if_open net (sv_socket serv) w1))"
    unfolding chat_server_delete_def Let_def queue_drain_all [OF l(1)] queue_drain_all [OF l(2)] by simp
  with assms show ?thesis by (simp add: server_main_def)
qed

lemma cnt_items: "lqueue_ok q \<Longrightarrow> cnt q = int (length (lqueue_items q))"
  using lqueue_ok_rep [of q] by (auto simp: lqueue_rep_def)

lemma flush_messages_ok:
  assumes "lqueue_ok (cl_recved cli)" "length (lqueue_items (cl_recved cli)) < n"
    and "map message_line (lqueue_items (cl_recved cli)) = map Inr ls"
  shows "\<exists>q. flush_messages n cli out = Inr (cli\<lparr>cl_recved := q\<rparr>, out @ ls) \<and> lqueue_ok q \<and> lqueue_items q = []"
  using assms
proof (induction n arbitrary: cli out ls)
  case (Suc n)
  show ?case
  proof (cases "lqueue_items (cl_recved cli)")
    case Nil
    with Suc.prems chat_queue.pop_none [OF Suc.prems(1)] show ?thesis
      by (auto simp: chat_client_pop_next_def intro!: exI [of _ "cl_recved cli"])
  next
    case (Cons x xs)
    from chat_queue.pop_some [OF Suc.prems(1) Cons] obtain q where
      q: "queue_pop (cl_recved cli) = Inr (Some x, q)" "lqueue_ok q" "lqueue_items q = xs" by blast
    from Suc.prems(3) Cons obtain l ls' where l: "ls = l # ls'" "message_line x = Inr l" "map message_line xs = map Inr ls'"
      by (cases ls) auto
    from Suc.IH [of "cli\<lparr>cl_recved := q\<rparr>" ls' "out @ [l]"] q l Suc.prems(2) Cons
    show ?thesis by (auto simp: chat_client_pop_next_def)
  qed
qed simp

text \<open>A client with nothing to send, to print or half typed.\<close>

definition client_idle :: "chat_client \<Rightarrow> bool" where
  "client_idle cli \<longleftrightarrow> cl_socket cli \<noteq> -1 \<and> buff_ok (cl_buff cli) \<and> mb_pos (cl_buff cli) = 0 \<and>
     lqueue_ok (cl_send cli) \<and> lqueue_items (cl_send cli) = [] \<and>
     lqueue_ok (cl_recved cli) \<and> lqueue_items (cl_recved cli) = []"

lemma idle_events:
  assumes "client_idle cli"
  shows "chat_events_to_poll_events (chat_client_get_events cli) = POLLIN"
  using assms cnt_items [of "cl_send cli"]
  by (simp add: client_idle_def chat_client_get_events_def chat_events_to_poll_events_def Let_def)

lemma sending_events:
  assumes "cl_socket cli \<noteq> -1" "cnt (cl_send cli) \<noteq> 0"
  shows "chat_events_to_poll_events (chat_client_get_events cli) = POLLIN OR POLLOUT"
  using assms by (simp add: chat_client_get_events_def chat_events_to_poll_events_def Let_def)

lemma flush_nothing:
  assumes "lqueue_ok (cl_recved cli)" "lqueue_items (cl_recved cli) = []"
  shows "flush_messages (nat (cnt (cl_recved cli)) + 1) cli out = Inr (cli, out)"
  using chat_queue.pop_none [OF assms] by (simp add: chat_client_pop_next_def)

text \<open>The message that a line becomes: the first one carries the name.\<close>

definition line_message :: "chat_client \<Rightarrow> string \<Rightarrow> chat_message" where
  "line_message cli t =
     (if cl_name_sended cli then text_message t else (text_message t)\<lparr>author := Some (cl_name cli)\<rparr>)"

lemma find_name_ok: "find_name ns s = Some n \<Longrightarrow> n = s"
  by (induction ns) (auto split: if_splits)

lemma feed_texts_line:
  "ch_nl \<notin> set t \<Longrightarrow> feed_texts acc (t @ [ch_nl]) = (let s = trim (c_str (acc @ t)) in (if s = [] then [] else [s], []))"
  by (induction t arbitrary: acc) (auto simp: Let_def)

lemma feed_one_line:
  assumes "client_idle cli" "ch_nl \<notin> set t" "ch_nul \<notin> set t" "trim t \<noteq> []"
  obtains b q where "chat_client_feed cli (t @ [ch_nl]) = Inr (None, cli\<lparr>cl_buff := b, cl_name_sended := True, cl_send := q\<rparr>)"
    "lqueue_ok q" "lqueue_items q = [line_message cli (trim t)]" "buff_ok b" "mb_pos b = 0"
proof -
  have i: "cl_socket cli \<noteq> -1" "buff_ok (cl_buff cli)" "mb_pos (cl_buff cli) = 0" "lqueue_ok (cl_send cli)"
    "lqueue_items (cl_send cli) = []" using assms(1) by (auto simp: client_idle_def)
  have texts: "feed_texts [] (t @ [ch_nl]) = ([trim t], [])"
    using assms(2-4) by (simp add: feed_texts_line Let_def)
  from client_feed_ok [OF i(1-4), of "t @ [ch_nl]", unfolded texts] obtain cli' where
    c: "chat_client_feed cli (t @ [ch_nl]) = Inr (None, cli')" "lqueue_ok (cl_send cli')" "buff_ok (cl_buff cli')"
      "lqueue_items (cl_send cli') = [line_message cli (trim t)]" "cl_name_sended cli'" "pending (cl_buff cli') = []"
      "cli' = cli\<lparr>cl_buff := cl_buff cli', cl_name_sended := cl_name_sended cli', cl_send := cl_send cli'\<rparr>"
    using i(5) by (auto simp: line_message_def)
  have "mb_pos (cl_buff cli') = 0" using c(3,6) by (auto simp: pending_def buff_ok_def)
  with c show ?thesis by (intro that [where b = "cl_buff cli'" and q = "cl_send cli'"]) auto
qed

text \<open>A message without an author is sent as its text only.\<close>

lemma send_text_message_ok:
  assumes "net_sends net sent" "ch_nul \<notin> set t" "length t < 2 ^ 31"
  shows "\<exists>w'. chat_message_send net (text_message t) sock w = Inr (int (length t), w') \<and> sent w' sock = sent w sock @ wire t"
  using send_text_ok [OF assms(1), of "t @ [ch_nul]" sock w] assms(2,3)
  by (simp add: chat_message_send_def text_message_def no_message_def)

lemma line_message_send_ok:
  assumes "net_sends net sent" "ch_nul \<notin> set t" "length t < 2 ^ 31"
    and "ch_nul \<notin> set (cl_name cli)" "length (cl_name cli) < 2 ^ 31" "cl_name cli \<noteq> []"
  shows "\<exists>w'. chat_message_send net (line_message cli t) sock w = Inr (int (length t), w') \<and>
    sent w' sock = sent w sock @ (if cl_name_sended cli then [] else wire (cl_name cli)) @ wire t"
proof (cases "cl_name_sended cli")
  case True
  with send_text_message_ok [OF assms(1-3), of sock w] show ?thesis by (simp add: line_message_def)
next
  case False
  with send_message_ok [OF assms(1), of "line_message cli t" "t @ [ch_nul]" "cl_name cli" sock w] assms show ?thesis
    by (simp add: line_message_def text_message_def)
qed

lemma client_round_input:
  assumes idle: "client_idle cli" and t: "ch_nl \<notin> set t" "ch_nul \<notin> set t" "trim t \<noteq> []"
    and poll: "t_poll tty fd POLLIN w = (1, True, False, w1)"
    and rd: "t_read tty w1 = (int (length (t @ [ch_nl])), t @ [ch_nl], w2)"
  obtains b q where
    "client_round tty net fd cli out w = Inr (True, cli\<lparr>cl_buff := b, cl_name_sended := True, cl_send := q\<rparr>, out, w2)"
    "lqueue_ok q" "lqueue_items q = [line_message cli (trim t)]" "buff_ok b" "mb_pos b = 0"
proof -
  from feed_one_line [OF idle t] obtain b q where
    f: "chat_client_feed cli (t @ [ch_nl]) = Inr (None, cli\<lparr>cl_buff := b, cl_name_sended := True, cl_send := q\<rparr>)"
      "lqueue_ok q" "lqueue_items q = [line_message cli (trim t)]" "buff_ok b" "mb_pos b = 0" .
  let ?c = "cli\<lparr>cl_buff := b, cl_name_sended := True, cl_send := q\<rparr>"
  have "flush_messages (nat (cnt (cl_recved ?c)) + 1) ?c out = Inr (?c, out)"
    using flush_nothing [of ?c] idle by (simp add: client_idle_def)
  then have "client_round tty net fd cli out w = Inr (True, ?c, out, w2)"
    unfolding client_round_def idle_events [OF idle] poll using rd f(1)
    by (simp add: client_input_def Let_def del: flush_messages.simps)
  with f show ?thesis using that by blast
qed

lemma client_round_send:
  assumes cli: "cl_socket cli \<noteq> -1" "lqueue_ok (cl_send cli)" "lqueue_items (cl_send cli) = [m]"
      "lqueue_ok (cl_recved cli)" "lqueue_items (cl_recved cli) = []"
    and poll: "t_poll tty fd (POLLIN OR POLLOUT) w = (1, False, True, w1)"
    and wait: "n_wait net (cl_poll cli) w1 = (0, x, w2)"
    and send: "chat_message_send net m (cl_socket cli) w2 = Inr (r, w3)" "0 < r"
  obtains q where "client_round tty net fd cli out w = Inr (True, cli\<lparr>cl_send := q\<rparr>, out, w3)"
    "lqueue_ok q" "lqueue_items q = []"
proof -
  have n: "cnt (cl_send cli) \<noteq> 0" using cnt_items [OF cli(2)] cli(3) by simp
  from chat_queue.pop_some [OF cli(2,3)] obtain q where
    q: "queue_pop (cl_send cli) = Inr (Some m, q)" "lqueue_ok q" "lqueue_items q = []" by blast
  have "chat_client_update net cli w1 = Inr (None, cli\<lparr>cl_send := q\<rparr>, w3)"
    using cli(1) n wait q(1) send by (simp add: chat_client_update_def)
  moreover have "flush_messages (nat (cnt (cl_recved cli)) + 1) (cli\<lparr>cl_send := q\<rparr>) out = Inr (cli\<lparr>cl_send := q\<rparr>, out)"
    using flush_nothing [of "cli\<lparr>cl_send := q\<rparr>"] cli(4,5) by simp
  ultimately have "client_round tty net fd cli out w = Inr (True, cli\<lparr>cl_send := q\<rparr>, out, w3)"
    unfolding client_round_def sending_events [OF cli(1) n] poll
    by (simp add: client_events_def Let_def del: flush_messages.simps)
  with q show ?thesis using that by blast
qed

text \<open>
  A line that is typed is sent. In the first round the loop of an idle client queues it, in
  the second, when the descriptor of the client is ready, the bytes go out: the name of the client
  if it is its first message, and the line without the white space around it. Then the client
  is idle again.
\<close>

theorem client_sends_typed_line:
  assumes "net_sends net sent" "client_idle cli"
    and "ch_nl \<notin> set t" "ch_nul \<notin> set t" "trim t \<noteq> []" "length (trim t) < 2 ^ 31"
    and "ch_nul \<notin> set (cl_name cli)" "length (cl_name cli) < 2 ^ 31" "cl_name cli \<noteq> []"
    and "t_poll tty fd POLLIN w = (1, True, False, w1)" "t_read tty w1 = (int (length (t @ [ch_nl])), t @ [ch_nl], w2)"
    and "t_poll tty fd (POLLIN OR POLLOUT) w2 = (1, False, True, w3)" "n_wait net (cl_poll cli) w3 = (0, x, w4)"
  shows "\<exists>cli1 cli2 w'. client_round tty net fd cli out w = Inr (True, cli1, out, w2) \<and>
    client_round tty net fd cli1 out w2 = Inr (True, cli2, out, w') \<and> client_idle cli2 \<and> cl_name_sended cli2 \<and>
    sent w' (cl_socket cli) = sent w4 (cl_socket cli) @ (if cl_name_sended cli then [] else wire (cl_name cli)) @ wire (trim t)"
proof -
  from client_round_input [OF assms(2-5,10,11), of net out] obtain b q where
    r1: "client_round tty net fd cli out w = Inr (True, cli\<lparr>cl_buff := b, cl_name_sended := True, cl_send := q\<rparr>, out, w2)"
      "lqueue_ok q" "lqueue_items q = [line_message cli (trim t)]" "buff_ok b" "mb_pos b = 0" .
  let ?c = "cli\<lparr>cl_buff := b, cl_name_sended := True, cl_send := q\<rparr>"
  have "ch_nul \<notin> set (trim t)" using assms(4) by (auto simp: trim_def dest!: set_dropWhileD)
  from line_message_send_ok [OF assms(1) this assms(6-9), of "cl_socket cli" w4] obtain w' where
    s: "chat_message_send net (line_message cli (trim t)) (cl_socket cli) w4 = Inr (int (length (trim t)), w')"
      "sent w' (cl_socket cli) = sent w4 (cl_socket cli) @ (if cl_name_sended cli then [] else wire (cl_name cli)) @ wire (trim t)"
    by blast
  have c: "cl_socket ?c \<noteq> -1" "lqueue_ok (cl_send ?c)" "lqueue_items (cl_send ?c) = [line_message cli (trim t)]"
    "lqueue_ok (cl_recved ?c)" "lqueue_items (cl_recved ?c) = []" "n_wait net (cl_poll ?c) w3 = (0, x, w4)"
    "chat_message_send net (line_message cli (trim t)) (cl_socket ?c) w4 = Inr (int (length (trim t)), w')"
    using assms(2,13) r1 s(1) by (simp_all add: client_idle_def)
  have "0 < int (length (trim t))" using assms(5) by simp
  from client_round_send [OF c(1-5) assms(12) c(6,7) this, of out] obtain q' where
    r2: "client_round tty net fd ?c out w2 = Inr (True, ?c\<lparr>cl_send := q'\<rparr>, out, w')" "lqueue_ok q'" "lqueue_items q' = []" .
  have "client_idle (?c\<lparr>cl_send := q'\<rparr>)" using assms(2) r1 r2 by (simp add: client_idle_def)
  with r1(1) r2(1) s(2) show ?thesis by fastforce
qed

text \<open>
  A message that arrives is printed. When the name and the text that the server relays are on
  the socket of an idle client, one round of its loop takes exactly them and prints the name, a
  colon and the text. (Lengths with bytes above 127 are excluded.)
\<close>

theorem client_prints_message:
  assumes "net_recvs net avail" "client_idle cli"
    and "plain_size (length a)" "a \<noteq> []" "ch_nul \<notin> set a" "plain_size (length t)" "t \<noteq> []" "ch_nul \<notin> set t"
    and "t_poll tty fd POLLIN w = (1, False, True, w1)" "n_wait net (cl_poll cli) w1 = (1, x, w2)"
    and "avail w2 (cl_socket cli) = wire a @ wire t @ rest"
  shows "\<exists>cli' w'. client_round tty net fd cli out w = Inr (True, cli', out @ [a @ '': '' @ t], w') \<and>
    client_idle cli' \<and> avail w' (cl_socket cli) = rest"
proof -
  let ?s = "cl_socket cli"
  from recv_message_ok [OF assms(1,3,11), of no_message] obtain w3 where
    w3: "chat_message_recv net no_message ?s w2 = Inr (int (length a), no_message\<lparr>data := Some (a @ [ch_nul])\<rparr>, w3)"
      "avail w3 ?s = wire t @ rest" by blast
  from recv_message_ok [OF assms(1,6) w3(2), of no_message] obtain w4 where
    w4: "chat_message_recv net no_message ?s w3 = Inr (int (length t), no_message\<lparr>data := Some (t @ [ch_nul])\<rparr>, w4)"
      "avail w4 ?s = rest" by blast
  obtain name names where n: "find_or_add_authors (cl_authors cli) (a @ [ch_nul]) = (name, names)" by fastforce
  have name: "name = a"
    using n assms(5) find_name_ok [of "names_of (cl_authors cli)" a] by (auto simp: find_or_add_authors_def split: option.splits)
  have cli: "lqueue_ok (cl_recved cli)" "lqueue_items (cl_recved cli) = []" "cnt (cl_send cli) = 0" "?s \<noteq> -1"
    using assms(2) cnt_items [of "cl_send cli"] by (simp_all add: client_idle_def)
  let ?m = "\<lparr>author = Some a, data = Some (t @ [ch_nul])\<rparr>"
  from chat_queue.add_ok [OF cli(1), of ?m] cli(2) obtain q where
    q: "queue_add (cl_recved cli) ?m = Inr q" "lqueue_ok q" "lqueue_items q = [?m]" by auto
  let ?c = "cli\<lparr>cl_authors := names, cl_recved := q\<rparr>"
  have u: "chat_client_update net cli w1 = Inr (None, ?c, w4)"
    using cli(3,4) assms(4,7,10) w3(1) w4(1) n name q(1)
    by (simp add: chat_client_update_def receive_message_def recv_or_fail_def)
  have "\<exists>p. flush_messages (nat (cnt (cl_recved ?c)) + 1) ?c out = Inr (?c\<lparr>cl_recved := p\<rparr>, out @ [a @ '': '' @ t]) \<and>
      lqueue_ok p \<and> lqueue_items p = []"
    by (rule flush_messages_ok) (use q cnt_items [OF q(2)] assms(5,8) in \<open>simp_all add: message_line_def\<close>)
  then obtain p where p: "flush_messages (nat (cnt (cl_recved ?c)) + 1) ?c out = Inr (?c\<lparr>cl_recved := p\<rparr>, out @ [a @ '': '' @ t])"
    "lqueue_ok p" "lqueue_items p = []" by blast
  have "client_round tty net fd cli out w = Inr (True, ?c\<lparr>cl_recved := p\<rparr>, out @ [a @ '': '' @ t], w4)"
    unfolding client_round_def idle_events [OF assms(2)] assms(9) using u p(1)
    by (simp add: client_events_def Let_def del: flush_messages.simps)
  moreover have "client_idle (?c\<lparr>cl_recved := p\<rparr>)" using assms(2) p by (simp add: client_idle_def)
  ultimately show ?thesis using w4(2) by blast
qed

definition demo_client :: chat_client where
  "demo_client = (chat_client_new ''me'')\<lparr>cl_socket := 5\<rparr>"

definition demo_tty :: "streams tty" where
  "demo_tty = \<lparr>t_poll = (\<lambda>fd events w. (1, events = POLLIN, events \<noteq> POLLIN, w)),
     t_read = (\<lambda>w. (4, '' hi'' @ [ch_nl], w))\<rparr>"

lemma demo_client_idle: "client_idle demo_client" "cl_name demo_client = ''me''" "\<not> cl_name_sended demo_client"
  "cl_socket demo_client = 5"
  using new_buff_ok chat_queue.empty_ok by (simp_all add: client_idle_def demo_client_def chat_client_new_def c_str_def)

lemma demo_trim: "trim '' hi'' = ''hi''"
  by (simp add: trim_def isspace_def)

lemma net_sends_wait: "net_sends net sent \<Longrightarrow> net_sends (net\<lparr>n_wait := f\<rparr>) sent"
  by (simp add: net_sends_def)

theorem client_sends_typed_line_witness:
  "\<exists>cli1 w1 cli2 w2. client_round demo_tty (byte_net\<lparr>n_wait := \<lambda>fd w. (0, 0, w)\<rparr>) 5 demo_client [] (\<lambda>_. [], \<lambda>_. []) = Inr (True, cli1, [], w1) \<and>
     client_round demo_tty (byte_net\<lparr>n_wait := \<lambda>fd w. (0, 0, w)\<rparr>) 5 cli1 [] w1 = Inr (True, cli2, [], w2) \<and>
     fst w2 5 = wire ''me'' @ wire ''hi''"
proof -
  have p: "t_poll demo_tty 5 POLLIN (\<lambda>_. [], \<lambda>_. []) = (1, True, False, (\<lambda>_. [], \<lambda>_. []))"
    "t_read demo_tty (\<lambda>_. [], \<lambda>_. []) = (int (length ('' hi'' @ [ch_nl])), '' hi'' @ [ch_nl], (\<lambda>_. [], \<lambda>_. []))"
    "t_poll demo_tty 5 (POLLIN OR POLLOUT) (\<lambda>_. [], \<lambda>_. []) = (1, False, True, (\<lambda>_. [], \<lambda>_. []))"
    "n_wait (byte_net\<lparr>n_wait := \<lambda>fd w. (0, 0, w)\<rparr>) (cl_poll demo_client) (\<lambda>_. [], \<lambda>_. []) = (0, 0, (\<lambda>_. [], \<lambda>_. []))"
    by (simp_all add: demo_tty_def)
  have t: "ch_nl \<notin> set '' hi''" "ch_nul \<notin> set '' hi''" "trim '' hi'' \<noteq> []" "length (trim '' hi'') < 2 ^ 31"
    unfolding demo_trim by simp_all
  have n: "ch_nul \<notin> set (cl_name demo_client)" "length (cl_name demo_client) < 2 ^ 31" "cl_name demo_client \<noteq> []"
    by (simp_all add: demo_client_idle)
  show ?thesis
    using client_sends_typed_line [OF net_sends_wait [OF byte_net_ok(1)] demo_client_idle(1) t n p(1-4), of "[]"]
    by (auto simp: demo_client_idle demo_trim)
qed

theorem client_prints_message_witness:
  "\<exists>cli w. client_round (demo_tty\<lparr>t_poll := \<lambda>fd events w. (1, False, True, w)\<rparr>) byte_net 5 demo_client []
       (\<lambda>_. [], \<lambda>_. wire ''a'' @ wire ''hi'' @ []) = Inr (True, cli, [''a: hi''], w) \<and> snd w 5 = []"
proof -
  have p: "plain_size (length ''a'')" "plain_size (length ''hi'')"
    by (simp_all add: plain_size_def size_digits.simps)
  have c: "''a'' \<noteq> []" "ch_nul \<notin> set ''a''" "''hi'' \<noteq> []" "ch_nul \<notin> set ''hi''" by simp_all
  let ?tty = "demo_tty\<lparr>t_poll := \<lambda>fd events w. (1, False, True, w)\<rparr>" and ?w = "(\<lambda>_. [], \<lambda>_. wire ''a'' @ wire ''hi'' @ []) :: streams"
  have w: "t_poll ?tty 5 POLLIN ?w = (1, False, True, ?w)" "n_wait byte_net (cl_poll demo_client) ?w = (1, 5, ?w)"
    "snd ?w (cl_socket demo_client) = wire ''a'' @ wire ''hi'' @ []"
    by (simp_all add: byte_net_def)
  have e: "''a'' @ '': '' @ ''hi'' = ''a: hi''" by simp
  from client_prints_message [where net = byte_net and avail = snd and cli = demo_client and a = "''a''" and t = "''hi''"
      and tty = ?tty and fd = 5 and w = ?w and ?w1.0 = ?w and x = 5 and ?w2.0 = ?w and rest = "[]" and out = "[]",
      OF byte_net_ok(2) demo_client_idle(1) p(1) c(1,2) p(2) c(3,4) w]
  obtain cli w' where r: "client_round ?tty byte_net 5 demo_client [] ?w = Inr (True, cli, [] @ [''a'' @ '': '' @ ''hi''], w')"
    "snd w' (cl_socket demo_client) = []" by (elim exE conjE) (rule that)
  show ?thesis
    by (intro exI conjI) (rule r(1) [unfolded e append_Nil], rule r(2) [unfolded demo_client_idle(4)])
qed

definition open_net :: "streams net" where
  "open_net = byte_net\<lparr>n_socket := \<lambda>w. (3, w), n_bind_listen := \<lambda>s p w. (True, w), n_epoll_create := \<lambda>w. (4, w),
     n_epoll_add := \<lambda>p s w. (0, w), n_close := \<lambda>s w. w\<rparr>"

theorem server_main_serves_nobody_witness:
  "server_main open_net [''server'', ''8080''] (\<lambda>_. [], \<lambda>_. []) = Inr (0, (\<lambda>_. [], \<lambda>_. []))"
proof -
  have p: "port_from_str ([''server'', ''8080''] ! 1) = Some 8080"
    by (simp add: port_from_str_def strtol_def isspace_def isdigit_def)
  have l: "chat_server_listen open_net chat_server_new 8080 (\<lambda>_. [], \<lambda>_. []) =
      (None, chat_server_new\<lparr>sv_socket := 3, sv_poll := 4\<rparr>, (\<lambda>_. [], \<lambda>_. []))"
    by (simp add: chat_server_listen_def chat_server_new_def open_net_def)
  show ?thesis
    using server_main_serves_nobody [OF p _ l]
    by (simp add: close_if_open_def open_net_def)
qed

end
