(* ===== verification/Coro.thy ===== *)
theory Coro
  imports Prelude
begin

text \<open>
  The coroutine library of src/1/libcoro.c. A computation that may give up the processor is a
  resumption: it returns, fails, or pauses with what is left to do when it is resumed, which is
  what the saved jump buffer and stack of a coroutine stand for. The coroutines are cells of a
  heap, linked in both directions, and the scheduler works on the links as the code does.
\<close>

section \<open>Computations that yield\<close>

datatype ('s, 'a) co =
    Ret 'a 's
  | Pause 's "'s \<Rightarrow> ('s, 'a) co"
  | Fail c_error

primrec co_bind :: "('s, 'a) co \<Rightarrow> ('a \<Rightarrow> 's \<Rightarrow> ('s, 'b) co) \<Rightarrow> ('s, 'b) co" where
  "co_bind (Ret x s) f = f x s"
| "co_bind (Pause s k) f = Pause s (\<lambda>s'. co_bind (k s') f)"
| "co_bind (Fail e) f = Fail e"

text \<open>Code that cannot yield, inside a computation that can.\<close>

definition co_lift :: "('a \<times> 's) cres \<Rightarrow> ('s, 'a) co" where
  "co_lift r = (case r of Inl e \<Rightarrow> Fail e | Inr (x, s) \<Rightarrow> Ret x s)"

lemma co_lift_simps [simp]: "co_lift (Inl e) = Fail e" "co_lift (Inr (x, s)) = Ret x s"
  by (simp_all add: co_lift_def)

text \<open>What the caller of \<open>coro_yield\<close> sees: the state may have changed when it returns.\<close>

definition yield_here :: "'s \<Rightarrow> ('s, unit) co" where
  "yield_here s = Pause s (Ret ())"

section \<open>Coroutines and the scheduler\<close>

text \<open>
  \<open>func\<close> and \<open>func_arg\<close> are the first content of \<open>c_ctx\<close>; the stack is part of \<open>c_ctx\<close>.
\<close>

record 's coro =
  ret :: int
  c_ctx :: "'s \<Rightarrow> ('s, int) co"
  is_finished :: bool
  switch_count :: nat
  c_next :: "nat option"
  c_prev :: "nat option"

text \<open>
  The static variables of the file and the state the coroutines share. \<open>coro_this_ptr\<close> is
  \<open>None\<close> when it points to \<open>coro_sched\<close>.
\<close>

record 's sched =
  coros :: "nat \<Rightarrow> 's coro option"
  fresh_coro :: nat
  coro_list :: "nat option"
  coro_this_ptr :: "nat option"
  is_sched_waiting :: bool
  sched_switches :: nat
  world :: 's

definition coro_sched_init :: "'s \<Rightarrow> 's sched" where
  "coro_sched_init s = \<lparr>coros = Map.empty, fresh_coro = 0, coro_list = None, coro_this_ptr = None,
     is_sched_waiting = False, sched_switches = 0, world = s\<rparr>"

definition get_coro :: "nat \<Rightarrow> 's sched \<Rightarrow> 's coro cres" where
  "get_coro a st = (case coros st a of None \<Rightarrow> Inl UseAfterFree | Some c \<Rightarrow> Inr c)"

definition upd_coro :: "nat \<Rightarrow> ('s coro \<Rightarrow> 's coro) \<Rightarrow> 's sched \<Rightarrow> 's sched cres" where
  "upd_coro a f st = rbind (get_coro a st) (\<lambda>c. Inr (st\<lparr>coros := (coros st)(a \<mapsto> f c)\<rparr>))"

definition coro_list_add :: "nat \<Rightarrow> 's sched \<Rightarrow> 's sched cres" where
  "coro_list_add c st =
     rbind (upd_coro c (\<lambda>x. x\<lparr>c_next := coro_list st, c_prev := None\<rparr>) st) (\<lambda>st.
     rbind (case coro_list st of
              None \<Rightarrow> Inr st
            | Some h \<Rightarrow> upd_coro h (\<lambda>x. x\<lparr>c_prev := Some c\<rparr>) st) (\<lambda>st.
     Inr (st\<lparr>coro_list := Some c\<rparr>)))"

definition coro_list_delete :: "nat \<Rightarrow> 's sched \<Rightarrow> 's sched cres" where
  "coro_list_delete c st =
     rbind (get_coro c st) (\<lambda>x.
     rbind (case c_prev x of None \<Rightarrow> Inr st | Some p \<Rightarrow> upd_coro p (\<lambda>y. y\<lparr>c_next := c_next x\<rparr>) st) (\<lambda>st.
     rbind (case c_next x of None \<Rightarrow> Inr st | Some n \<Rightarrow> upd_coro n (\<lambda>y. y\<lparr>c_prev := c_prev x\<rparr>) st) (\<lambda>st.
     Inr (if c_prev x = None then st\<lparr>coro_list := c_next x\<rparr> else st))))"

definition coro_status :: "nat \<Rightarrow> 's sched \<Rightarrow> int cres" where
  "coro_status c st = rbind (get_coro c st) (\<lambda>x. Inr (ret x))"

definition coro_switch_count :: "nat \<Rightarrow> 's sched \<Rightarrow> nat cres" where
  "coro_switch_count c st = rbind (get_coro c st) (\<lambda>x. Inr (switch_count x))"

definition coro_is_finished :: "nat \<Rightarrow> 's sched \<Rightarrow> bool cres" where
  "coro_is_finished c st = rbind (get_coro c st) (\<lambda>x. Inr (is_finished x))"

definition coro_delete :: "nat \<Rightarrow> 's sched \<Rightarrow> 's sched cres" where
  "coro_delete c st = rbind (get_coro c st) (\<lambda>_. Inr (st\<lparr>coros := (coros st)(c := None)\<rparr>))"

definition coro_this :: "'s sched \<Rightarrow> nat option" where
  "coro_this st = coro_this_ptr st"

text \<open>
  \<open>coro_yield_to\<close>, called by the coroutine \<open>a\<close>: the switch is counted and what \<open>a\<close> has left to do
  is saved. \<open>to\<close> is the coroutine that goes on, or \<open>None\<close> for the scheduler.
\<close>

definition coro_yield_to ::
  "nat \<Rightarrow> 's coro \<Rightarrow> ('s \<Rightarrow> ('s, int) co) \<Rightarrow> 's \<Rightarrow> nat option \<Rightarrow> 's sched \<Rightarrow> 's sched" where
  "coro_yield_to a c k s to st =
     st\<lparr>coros := (coros st)(a \<mapsto> c\<lparr>c_ctx := k, switch_count := switch_count c + 1\<rparr>),
        coro_this_ptr := to, world := s\<rparr>"

text \<open>The end of \<open>coro_body\<close>, after \<open>func\<close> has returned \<open>v\<close>.\<close>

definition coro_body :: "nat \<Rightarrow> 's coro \<Rightarrow> int \<Rightarrow> 's \<Rightarrow> 's sched \<Rightarrow> 's sched cres" where
  "coro_body a c v s st =
     (if is_sched_waiting st
      then Inr (st\<lparr>coros := (coros st)(a \<mapsto> c\<lparr>ret := v, is_finished := True\<rparr>), coro_this_ptr := None, world := s\<rparr>)
      else Inl ExitError)"

declare coro_yield_to_def [simp] coro_body_def [simp]

text \<open>
  The coroutine \<open>a\<close> is resumed and control comes back to the scheduler. A pause is \<open>coro_yield\<close>:
  it goes on with the next coroutine of the list, or with the scheduler behind the last one. A
  finished coroutine has no stack to come back to.
\<close>

partial_function (option) coro_run :: "nat \<Rightarrow> 's sched \<Rightarrow> 's sched cres option" where
  "coro_run a st =
     (case coros st a of
        None \<Rightarrow> Some (Inl UseAfterFree)
      | Some c \<Rightarrow>
          if is_finished c then Some (Inl UseAfterFree)
          else (case c_ctx c (world st) of
             Fail e \<Rightarrow> Some (Inl e)
           | Ret v s \<Rightarrow> Some (coro_body a c v s st)
           | Pause s k \<Rightarrow>
               (case c_next c of
                  None \<Rightarrow> Some (Inr (coro_yield_to a c k s None st))
                | Some b \<Rightarrow> coro_run b (coro_yield_to a c k s (Some b) st))))"

text \<open>The inner loop of \<open>coro_sched_wait\<close>.\<close>

partial_function (option) find_finished :: "nat option \<Rightarrow> 's sched \<Rightarrow> nat option cres option" where
  "find_finished p st =
     (case p of
        None \<Rightarrow> Some (Inr None)
      | Some a \<Rightarrow>
          (case coros st a of
             None \<Rightarrow> Some (Inl UseAfterFree)
           | Some c \<Rightarrow> if is_finished c then Some (Inr (Some a)) else find_finished (c_next c) st))"

partial_function (option) coro_sched_wait :: "'s sched \<Rightarrow> (nat option \<times> 's sched) cres option" where
  "coro_sched_wait st =
     (case coro_list st of
        None \<Rightarrow> Some (Inr (None, st))
      | Some h \<Rightarrow>
          Option.bind (find_finished (Some h) st) (\<lambda>r.
          case r of
            Inl e \<Rightarrow> Some (Inl e)
          | Inr (Some c) \<Rightarrow> Some (rbind (coro_list_delete c st) (\<lambda>st. Inr (Some c, st)))
          | Inr None \<Rightarrow>
              Option.bind (coro_run h (st\<lparr>is_sched_waiting := True, coro_this_ptr := Some h,
                                         sched_switches := sched_switches st + 1\<rparr>)) (\<lambda>r.
              case r of
                Inl e \<Rightarrow> Some (Inl e)
              | Inr st \<Rightarrow> coro_sched_wait (st\<lparr>is_sched_waiting := False\<rparr>))))"

text \<open>
  The signal handler, the alternative stack and the two jumps of \<open>coro_new\<close> leave a context
  whose resumption calls \<open>func\<close>; failures of the system calls end the process and are left out.
\<close>

definition coro_new :: "('s \<Rightarrow> ('s, int) co) \<Rightarrow> 's sched \<Rightarrow> (nat \<times> 's sched) cres" where
  "coro_new func st =
     (let a = fresh_coro st;
          c = \<lparr>ret = 0, c_ctx = func, is_finished = False, switch_count = 0, c_next = None, c_prev = None\<rparr>
      in rbind (coro_list_add a (st\<lparr>coros := (coros st)(a \<mapsto> c), fresh_coro := a + 1\<rparr>)) (\<lambda>st. Inr (a, st)))"

text \<open>The loop of a client that waits for all coroutines, with the results in order.\<close>

partial_function (option) coro_wait_all :: "'s sched \<Rightarrow> ((nat \<times> int) list \<times> 's sched) cres option" where
  "coro_wait_all st =
     Option.bind (coro_sched_wait st) (\<lambda>r.
     case r of
       Inl e \<Rightarrow> Some (Inl e)
     | Inr (None, st) \<Rightarrow> Some (Inr ([], st))
     | Inr (Some c, st) \<Rightarrow>
         (case rbind (coro_status c st) (\<lambda>v. rbind (coro_delete c st) (\<lambda>st. Inr (v, st))) of
            Inl e \<Rightarrow> Some (Inl e)
          | Inr (v, st) \<Rightarrow>
              Option.bind (coro_wait_all st) (\<lambda>r.
              Some (rbind r (\<lambda>(vs, st). Inr ((c, v) # vs, st))))))"

declare coro_run.simps [code] find_finished.simps [code] coro_sched_wait.simps [code] coro_wait_all.simps [code]

end
