(* ===== verification/Coro_Sched.thy ===== *)
theory Coro_Sched
  imports Coro "HOL-Library.Multiset"
begin

text \<open>
  What the coroutine scheduler promises: the doubly linked list behaves as a list, one round of
  the scheduler runs every coroutine up to its next yield, and a program of coroutines that keep
  a common invariant runs to its end, whatever the number of yields.
\<close>

section \<open>The list of coroutines\<close>

text \<open>
  \<open>dlseg h p as n\<close>: the cells at \<open>as\<close> are linked in this order in both directions, with \<open>p\<close> before
  the first and \<open>n\<close> behind the last.
\<close>

fun dlseg :: "(nat \<Rightarrow> 's coro option) \<Rightarrow> nat option \<Rightarrow> nat list \<Rightarrow> nat option \<Rightarrow> bool" where
  "dlseg h p [] n \<longleftrightarrow> True"
| "dlseg h p (a # as) n \<longleftrightarrow>
     (\<exists>c. h a = Some c \<and> c_prev c = p \<and> c_next c = (if as = [] then n else ptr_hd as)) \<and> dlseg h (Some a) as n"

definition coro_rep :: "'s sched \<Rightarrow> nat list \<Rightarrow> bool" where
  "coro_rep st as \<longleftrightarrow> dlseg (coros st) None as None \<and> distinct as \<and> coro_list st = ptr_hd as \<and>
     (\<forall>a. coros st a \<noteq> None \<longrightarrow> a < fresh_coro st)"

text \<open>A coroutine without its links.\<close>

definition core :: "'s coro \<Rightarrow> 's coro" where
  "core c = c\<lparr>c_next := None, c_prev := None\<rparr>"

lemma core_eqD: "core c = core d \<Longrightarrow> ret c = ret d \<and> c_ctx c = c_ctx d \<and> is_finished c = is_finished d"
  by (cases c; cases d) (simp add: core_def)

lemma core_links [simp]: "core (c\<lparr>c_next := x\<rparr>) = core c" "core (c\<lparr>c_prev := x\<rparr>) = core c"
  by (simp_all add: core_def)

lemma core_NoneD: "map_option core (h' b) = map_option core (h b) \<Longrightarrow> h' b = None \<longleftrightarrow> h b = None"
  by (metis None_eq_map_option_iff)

lemma dlseg_append:
  "dlseg h p (xs @ ys) n \<longleftrightarrow> dlseg h p xs (if ys = [] then n else ptr_hd ys) \<and>
     dlseg h (if xs = [] then p else Some (last xs)) ys n"
proof (induction xs arbitrary: p)
  case (Cons x xs)
  then show ?case by (cases xs) auto
qed simp

lemma dlseg_cong:
  "(\<And>a. a \<in> set as \<Longrightarrow> map_option (\<lambda>c. (c_prev c, c_next c)) (h a) = map_option (\<lambda>c. (c_prev c, c_next c)) (h' a)) \<Longrightarrow>
     dlseg h p as n \<longleftrightarrow> dlseg h' p as n"
proof (induction as arbitrary: p)
  case (Cons a as)
  from Cons.prems [of a] have "(\<exists>c. h a = Some c \<and> c_prev c = p \<and> c_next c = m) \<longleftrightarrow>
      (\<exists>c. h' a = Some c \<and> c_prev c = p \<and> c_next c = m)" for m
    by (cases "h a"; cases "h' a") auto
  with Cons show ?case by simp
qed simp

lemma dlseg_frame: "a \<notin> set as \<Longrightarrow> dlseg (h(a := x)) p as n \<longleftrightarrow> dlseg h p as n"
  by (rule dlseg_cong) auto

lemma dlseg_mem: "dlseg h p as n \<Longrightarrow> a \<in> set as \<Longrightarrow> \<exists>c. h a = Some c"
  by (induction as arbitrary: p) auto

lemma dlseg_set_prev: "dlseg h p as n \<Longrightarrow> as \<noteq> [] \<Longrightarrow> distinct as \<Longrightarrow>
    \<exists>c. h (hd as) = Some c \<and> dlseg (h(hd as \<mapsto> c\<lparr>c_prev := q\<rparr>)) q as n"
  by (cases as) (auto simp: dlseg_frame)

lemma dlseg_set_next: "dlseg h p as n \<Longrightarrow> as \<noteq> [] \<Longrightarrow> distinct as \<Longrightarrow>
    \<exists>c. h (last as) = Some c \<and> dlseg (h(last as \<mapsto> c\<lparr>c_next := m\<rparr>)) p as m"
  by (cases as rule: rev_cases) (auto simp: dlseg_append dlseg_frame)

lemma coro_list_add_ok:
  assumes "coro_rep st as" "coros st a = Some c" "a \<notin> set as"
  shows "\<exists>st'. coro_list_add a st = Inr st' \<and> coro_rep st' (a # as) \<and>
    (\<forall>b. map_option core (coros st' b) = map_option core (coros st b)) \<and>
    world st' = world st \<and> fresh_coro st' = fresh_coro st \<and> is_sched_waiting st' = is_sched_waiting st"
proof (cases as)
  case Nil
  with assms show ?thesis
    by (auto simp: coro_list_add_def upd_coro_def get_coro_def coro_rep_def)
next
  case (Cons h bs)
  let ?h = "(coros st)(a \<mapsto> c\<lparr>c_next := coro_list st, c_prev := None\<rparr>)"
  have "dlseg ?h None as None" using assms by (simp add: coro_rep_def dlseg_frame)
  from dlseg_set_prev [OF this, of "Some a"] Cons assms(1) obtain d where
    d: "?h h = Some d" "dlseg (?h(h \<mapsto> d\<lparr>c_prev := Some a\<rparr>)) (Some a) as None"
    by (auto simp: coro_rep_def)
  have ne: "h \<noteq> a" using Cons assms(3) by auto
  with d Cons assms show ?thesis
    by (auto simp: coro_list_add_def upd_coro_def get_coro_def coro_rep_def)
qed

lemma coro_list_delete_ok:
  assumes "coro_rep st (xs @ a # ys)"
  shows "\<exists>st'. coro_list_delete a st = Inr st' \<and> coro_rep st' (xs @ ys) \<and>
    (\<forall>b. map_option core (coros st' b) = map_option core (coros st b)) \<and>
    world st' = world st \<and> is_sched_waiting st' = is_sched_waiting st"
proof -
  let ?p = "if xs = [] then None else Some (last xs)" and ?n = "ptr_hd ys"
  have seg: "dlseg (coros st) None xs (Some a)" "dlseg (coros st) (Some a) ys None" and dist: "distinct (xs @ a # ys)"
    using assms by (auto simp: coro_rep_def dlseg_append)
  from assms obtain c where c: "coros st a = Some c" "c_prev c = ?p" "c_next c = ?n"
    by (auto simp: coro_rep_def dlseg_append ptr_hd_def)
  have "\<exists>st1. (case ?p of None \<Rightarrow> Inr st | Some p \<Rightarrow> upd_coro p (\<lambda>y. y\<lparr>c_next := ?n\<rparr>) st) = Inr st1 \<and>
      dlseg (coros st1) None xs ?n \<and> dlseg (coros st1) (Some a) ys None \<and>
      (\<forall>b. map_option core (coros st1 b) = map_option core (coros st b)) \<and> (xs = [] \<longrightarrow> st1 = st) \<and>
      (\<exists>h. st1 = st\<lparr>coros := h\<rparr>)"
  proof (cases "xs = []")
    case False
    from dlseg_set_next [OF seg(1) False, of ?n] dist obtain d where
      "coros st (last xs) = Some d" "dlseg ((coros st)(last xs \<mapsto> d\<lparr>c_next := ?n\<rparr>)) None xs ?n" by auto
    moreover have "last xs \<notin> set ys" using dist last_in_set [OF False] by auto
    ultimately show ?thesis using False seg(2) by (auto simp: upd_coro_def get_coro_def dlseg_frame)
  qed (use seg in \<open>auto intro: exI [of _ "coros st"]\<close>)
  then obtain st1 h1 where
    st1: "(case ?p of None \<Rightarrow> Inr st | Some p \<Rightarrow> upd_coro p (\<lambda>y. y\<lparr>c_next := ?n\<rparr>) st) = Inr st1"
      "dlseg (coros st1) None xs ?n" "dlseg (coros st1) (Some a) ys None"
      "\<forall>b. map_option core (coros st1 b) = map_option core (coros st b)" "st1 = st\<lparr>coros := h1\<rparr>" by blast
  have "\<exists>st2. (case ?n of None \<Rightarrow> Inr st1 | Some n \<Rightarrow> upd_coro n (\<lambda>y. y\<lparr>c_prev := ?p\<rparr>) st1) = Inr st2 \<and>
      dlseg (coros st2) None xs ?n \<and> dlseg (coros st2) ?p ys None \<and>
      (\<forall>b. map_option core (coros st2 b) = map_option core (coros st b)) \<and> (\<exists>h. st2 = st\<lparr>coros := h\<rparr>)"
  proof (cases ys)
    case (Cons y zs)
    from dlseg_set_prev [OF st1(3), of ?p] dist Cons obtain d where
      "coros st1 y = Some d" "dlseg ((coros st1)(y \<mapsto> d\<lparr>c_prev := ?p\<rparr>)) ?p ys None" by auto
    moreover have "map_option core (coros st y) = Some (core d)"
      using st1(4)[THEN spec, of y] \<open>coros st1 y = Some d\<close> by simp
    moreover have "y \<notin> set xs" using dist Cons by auto
    ultimately show ?thesis using Cons st1(2,4,5)
      by (auto simp: upd_coro_def get_coro_def dlseg_frame)
  qed (use st1 in auto)
  then obtain st2 h2 where
    st2: "(case ?n of None \<Rightarrow> Inr st1 | Some n \<Rightarrow> upd_coro n (\<lambda>y. y\<lparr>c_prev := ?p\<rparr>) st1) = Inr st2"
      "dlseg (coros st2) None xs ?n" "dlseg (coros st2) ?p ys None"
      "\<forall>b. map_option core (coros st2 b) = map_option core (coros st b)" "st2 = st\<lparr>coros := h2\<rparr>" by blast
  let ?st = "if ?p = None then st2\<lparr>coro_list := ?n\<rparr> else st2"
  have run: "coro_list_delete a st = Inr ?st"
    by (simp only: coro_list_delete_def get_coro_def c option.case rbind_Inr st1(1) st2(1))
  have "dlseg (coros st2) None (xs @ ys) None" using st2(2,3) by (cases ys) (simp_all add: dlseg_append split: if_splits)
  moreover have "coros st2 b \<noteq> None \<longrightarrow> b < fresh_coro st" for b
    using assms st2(4) core_NoneD [of "coros st2" b "coros st"] by (auto simp: coro_rep_def)
  moreover have "coro_list st = ptr_hd (xs @ a # ys)" using assms by (simp add: coro_rep_def)
  ultimately have "coro_rep ?st (xs @ ys)" using dist st2(5) by (auto simp: coro_rep_def ptr_hd_def)
  with run st2(4,5) show ?thesis by auto
qed

section \<open>Coroutines that keep an invariant\<close>

text \<open>
  Reasoning about coroutines that share a state: \<open>I\<close> is an invariant of the shared state and of a
  ghost value for every coroutine, which a coroutine may rely on while it is suspended since only
  it changes its own. \<open>good I Q a r own\<close>: the computation \<open>r\<close> of the coroutine \<open>a\<close> does not fail,
  keeps \<open>I\<close> wherever it yields, and returns a value with \<open>Q\<close>.
\<close>

primrec good :: "((nat \<Rightarrow> 'g) \<Rightarrow> 's \<Rightarrow> bool) \<Rightarrow> ('a \<Rightarrow> 'g \<Rightarrow> bool) \<Rightarrow> nat \<Rightarrow> ('s, 'a) co \<Rightarrow> (nat \<Rightarrow> 'g) \<Rightarrow> bool" where
  "good I Q a (Ret v s) = (\<lambda>own. \<exists>g. I (own(a := g)) s \<and> Q v g)"
| "good I Q a (Pause s k) = (\<lambda>own. \<exists>g. I (own(a := g)) s \<and>
     (\<forall>own' s'. I own' s' \<longrightarrow> own' a = g \<longrightarrow> good I Q a (k s') own'))"
| "good I Q a (Fail e) = (\<lambda>own. False)"

definition suspended ::
  "((nat \<Rightarrow> 'g) \<Rightarrow> 's \<Rightarrow> bool) \<Rightarrow> ('a \<Rightarrow> 'g \<Rightarrow> bool) \<Rightarrow> nat \<Rightarrow> 'g \<Rightarrow> ('s \<Rightarrow> ('s, 'a) co) \<Rightarrow> bool" where
  "suspended I Q a g k \<longleftrightarrow> (\<forall>own s. I own s \<longrightarrow> own a = g \<longrightarrow> good I Q a (k s) own)"

lemma good_own [simp]: "good I Q a r (own(a := g)) = good I Q a r own"
  by (cases r) simp_all

lemma good_RetI: "I own s \<Longrightarrow> Q v (own a) \<Longrightarrow> good I Q a (Ret v s) own"
  by (auto intro!: exI [of _ "own a"] simp del: fun_upd_apply)

lemma good_yieldI: "I own s \<Longrightarrow> good I (\<lambda>_ g. g = own a) a (yield_here s) own"
  unfolding yield_here_def good.simps
  by (intro exI [of _ "own a"] conjI allI impI) (simp_all del: fun_upd_apply add: fun_upd_idem)

lemma good_bind:
  assumes "good I Q a r own" and "\<And>v s own'. I own' s \<Longrightarrow> Q v (own' a) \<Longrightarrow> good I R a (f v s) own'"
  shows "good I R a (co_bind r f) own"
  using assms(1)
proof (induction r arbitrary: own)
  case (Ret v s)
  then obtain g where "I (own(a := g)) s" "Q v g" by auto
  with assms(2) [of "own(a := g)" s v] show ?case by simp
next
  case (Pause s k)
  then show ?case by simp blast
qed simp

text \<open>What is left of a computation after it was resumed once more.\<close>

definition co_succ :: "(('s \<Rightarrow> ('s, 'a) co) \<times> ('s \<Rightarrow> ('s, 'a) co)) set" where
  "co_succ = {(k', k). \<exists>s s'. k s = Pause s' k'}"

lemma wf_co_succ: "wf (co_succ :: (('s \<Rightarrow> ('s, 'a) co) \<times> ('s \<Rightarrow> ('s, 'a) co)) set)"
proof -
  have acc: "r = Pause s k \<Longrightarrow> k \<in> Wellfounded.acc co_succ" for r :: "('s, 'a) co" and s k
  proof (induction r arbitrary: s k)
    case (Pause s0 k0)
    show ?case
    proof (rule accI)
      fix k'
      assume "(k', k) \<in> co_succ"
      then obtain s1 s2 where "k s1 = Pause s2 k'" by (auto simp: co_succ_def)
      moreover from this have "Pause s2 k' \<in> range k" by (metis rangeI)
      ultimately show "k' \<in> Wellfounded.acc co_succ"
        using Pause.IH [of "k s1" s2 k'] Pause.prems by auto
    qed
  qed simp_all
  have "k \<in> Wellfounded.acc co_succ" for k :: "'s \<Rightarrow> ('s, 'a) co"
  proof (rule accI)
    fix k'
    assume "(k', k) \<in> co_succ"
    then obtain s1 s2 where "k s1 = Pause s2 k'" by (auto simp: co_succ_def)
    then show "k' \<in> Wellfounded.acc co_succ" by (rule acc)
  qed
  then show ?thesis by (intro acc_wfI) blast
qed

definition live :: "((nat \<Rightarrow> 'g) \<Rightarrow> 's \<Rightarrow> bool) \<Rightarrow> (int \<Rightarrow> 'g \<Rightarrow> bool) \<Rightarrow> (nat \<Rightarrow> 'g) \<Rightarrow> 's sched \<Rightarrow> nat \<Rightarrow> bool" where
  "live I Q own st a \<longleftrightarrow> (\<exists>c. coros st a = Some c \<and> \<not> is_finished c \<and> suspended I Q a (own a) (c_ctx c))"

definition finished_ok :: "(int \<Rightarrow> 'g \<Rightarrow> bool) \<Rightarrow> (nat \<Rightarrow> 'g) \<Rightarrow> 's sched \<Rightarrow> nat \<Rightarrow> bool" where
  "finished_ok Q own st a \<longleftrightarrow> (\<exists>c. coros st a = Some c \<and> is_finished c \<and> Q (ret c) (own a))"

lemma live_cong:
  "map_option core (coros st' a) = map_option core (coros st a) \<Longrightarrow> own' a = own a \<Longrightarrow>
     live I Q own' st' a \<longleftrightarrow> live I Q own st a"
  "map_option core (coros st' a) = map_option core (coros st a) \<Longrightarrow> own' a = own a \<Longrightarrow>
     finished_ok Q own' st' a \<longleftrightarrow> finished_ok Q own st a"
  by (cases "coros st' a"; cases "coros st a"; auto simp: live_def finished_ok_def dest: core_eqD)+

lemma coro_rep_upd:
  "coro_rep st as \<Longrightarrow> coros st b = Some c \<Longrightarrow> c_next c' = c_next c \<Longrightarrow> c_prev c' = c_prev c \<Longrightarrow>
   coro_list st' = coro_list st \<Longrightarrow> fresh_coro st' = fresh_coro st \<Longrightarrow> coros st' = (coros st)(b \<mapsto> c') \<Longrightarrow> coro_rep st' as"
  by (auto simp: coro_rep_def elim!: dlseg_cong [THEN iffD1, rotated])

lemma coro_rep_next:
  assumes "coro_rep st (pre @ b # bs)" "coros st b = Some c"
  shows "c_next c = ptr_hd bs" "b \<notin> set pre" "b \<notin> set bs"
  using assms by (auto simp: coro_rep_def dlseg_append)

lemma live_stepE:
  assumes "live I Q own st a" "I own (world st)"
  obtains (ret) c v s g where "coros st a = Some c" "\<not> is_finished c" "c_ctx c (world st) = Ret v s" "I (own(a := g)) s" "Q v g"
  | (pause) c s k g where "coros st a = Some c" "\<not> is_finished c" "c_ctx c (world st) = Pause s k" "I (own(a := g)) s"
      "suspended I Q a g k" "(k, c_ctx c) \<in> co_succ"
proof -
  from assms obtain c where c: "coros st a = Some c" "\<not> is_finished c" "good I Q a (c_ctx c (world st)) own"
    by (auto simp: live_def suspended_def)
  show thesis
  proof (cases "c_ctx c (world st)")
    case (Ret v s)
    with c ret show ?thesis by auto
  next
    case (Pause s k)
    with c obtain g where "I (own(a := g)) s" "suspended I Q a g k" by (auto simp: suspended_def)
    moreover have "(k, c_ctx c) \<in> co_succ" using Pause by (auto simp: co_succ_def)
    ultimately show ?thesis using pause c(1,2) Pause by blast
  qed (use c in simp)
qed

text \<open>The state after the coroutine \<open>b\<close> of the list was run and has changed to \<open>c'\<close>.\<close>

lemma ran_rep:
  assumes "coro_rep st (pre @ b # bs)" "coros st b = Some c" "c_next c' = c_next c" "c_prev c' = c_prev c"
  shows "coro_rep (st\<lparr>coros := (coros st)(b \<mapsto> c'), coro_this_ptr := p, world := s\<rparr>) (pre @ b # bs)"
  using coro_rep_upd [OF assms] by simp

lemma ran_other:
  assumes "live I Q own st a" "a \<noteq> b"
  shows "live I Q (own(b := g)) (st\<lparr>coros := (coros st)(b \<mapsto> c'), coro_this_ptr := p, world := s\<rparr>) a"
  using assms by (simp add: live_def)

lemma ran_self:
  "finished_ok Q (own(b := g)) (st\<lparr>coros := (coros st)(b \<mapsto> c'), coro_this_ptr := p, world := s\<rparr>) b \<longleftrightarrow>
     is_finished c' \<and> Q (ret c') g"
  "live I Q (own(b := g)) (st\<lparr>coros := (coros st)(b \<mapsto> c'), coro_this_ptr := p, world := s\<rparr>) b \<longleftrightarrow>
     \<not> is_finished c' \<and> suspended I Q b g (c_ctx c')"
  by (simp_all add: live_def finished_ok_def)

text \<open>
  One round: from \<open>b\<close> on, every coroutine of the list runs up to its next yield, unless one of
  them finishes before.
\<close>

definition round_ok ::
  "((nat \<Rightarrow> 'g) \<Rightarrow> 's \<Rightarrow> bool) \<Rightarrow> (int \<Rightarrow> 'g \<Rightarrow> bool) \<Rightarrow> nat set \<Rightarrow> (nat \<Rightarrow> 'g) \<Rightarrow> 's sched \<Rightarrow> bool" where
  "round_ok I Q A own st \<longleftrightarrow> (\<exists>a \<in> A. finished_ok Q own st a \<and> (\<forall>d \<in> A - {a}. live I Q own st d))"

lemma coro_run_ok:
  assumes "coro_rep st (pre @ b # bs)" "I own (world st)" "\<And>a. a \<in> set (pre @ b # bs) \<Longrightarrow> live I Q own st a" "is_sched_waiting st"
  shows "\<exists>st' own'. coro_run b st = Some (Inr st') \<and> coro_rep st' (pre @ b # bs) \<and> I own' (world st') \<and>
    (\<forall>a. a \<notin> set (b # bs) \<longrightarrow> coros st' a = coros st a \<and> own' a = own a) \<and>
    ((\<forall>a \<in> set (pre @ b # bs). live I Q own' st' a) \<and>
       (\<exists>c c'. coros st b = Some c \<and> coros st' b = Some c' \<and> (c_ctx c', c_ctx c) \<in> co_succ) \<or>
     round_ok I Q (set (pre @ b # bs)) own' st')"
  using assms
proof (induction bs arbitrary: pre b st own)
  case (Nil pre b st own)
  note rep = Nil.prems(1) and lv = Nil.prems(3)
  from lv have "live I Q own st b" by simp
  then show ?case using Nil.prems(2)
  proof (cases rule: live_stepE)
    case (ret c v s g)
    let ?c = "c\<lparr>ret := v, is_finished := True\<rparr>"
    let ?st = "st\<lparr>coros := (coros st)(b \<mapsto> ?c), coro_this_ptr := None, world := s\<rparr>"
    have "coro_run b st = Some (Inr ?st)" using ret Nil.prems(4) by (subst coro_run.simps) simp
    moreover have "round_ok I Q (set (pre @ [b])) (own(b := g)) ?st"
      unfolding round_ok_def using lv ret(5) by (intro bexI [of _ b]) (auto simp: ran_self intro!: ran_other)
    moreover note ran_rep [OF rep ret(1), where c' = ?c and p = None and s = s]
    moreover define own1 where "own1 = own(b := g)"
    moreover have "own1 a = own a" if "a \<noteq> b" for a using that by (simp add: own1_def)
    ultimately show ?thesis using ret(4) unfolding own1_def [symmetric]
      by (intro exI [of _ ?st] exI [of _ own1]) simp
  next
    case (pause c s k g)
    let ?c = "c\<lparr>c_ctx := k, switch_count := switch_count c + 1\<rparr>"
    let ?st = "st\<lparr>coros := (coros st)(b \<mapsto> ?c), coro_this_ptr := None, world := s\<rparr>"
    have "coro_run b st = Some (Inr ?st)"
      using pause coro_rep_next(1) [OF rep pause(1)] by (subst coro_run.simps) simp
    moreover have "live I Q (own(b := g)) ?st a" if "a \<in> set (pre @ [b])" for a
      using lv [OF that] pause(2,5) by (cases "a = b") (auto simp: ran_self intro!: ran_other)
    moreover note ran_rep [OF rep pause(1), where c' = ?c and p = None and s = s]
    moreover define own1 where "own1 = own(b := g)"
    moreover have "own1 a = own a" if "a \<noteq> b" for a using that by (simp add: own1_def)
    ultimately show ?thesis using pause(1,4,6) unfolding own1_def [symmetric]
      by (intro exI [of _ ?st] exI [of _ own1]) simp
  qed
next
  case (Cons b' bs pre b st own)
  note rep = Cons.prems(1) and lv = Cons.prems(3)
  from lv have "live I Q own st b" by simp
  then show ?case using Cons.prems(2)
  proof (cases rule: live_stepE)
    case (ret c v s g)
    let ?c = "c\<lparr>ret := v, is_finished := True\<rparr>"
    let ?st = "st\<lparr>coros := (coros st)(b \<mapsto> ?c), coro_this_ptr := None, world := s\<rparr>"
    have "coro_run b st = Some (Inr ?st)" using ret Cons.prems(4) by (subst coro_run.simps) simp
    moreover have "round_ok I Q (set (pre @ b # b' # bs)) (own(b := g)) ?st"
      unfolding round_ok_def using lv ret(5) by (intro bexI [of _ b]) (auto simp: ran_self intro!: ran_other)
    moreover note ran_rep [OF rep ret(1), where c' = ?c and p = None and s = s]
    moreover define own1 where "own1 = own(b := g)"
    moreover have "own1 a = own a" if "a \<noteq> b" for a using that by (simp add: own1_def)
    ultimately show ?thesis using ret(4) unfolding own1_def [symmetric]
      by (intro exI [of _ ?st] exI [of _ own1]) simp
  next
    case (pause c s k g)
    let ?c = "c\<lparr>c_ctx := k, switch_count := switch_count c + 1\<rparr>"
    let ?st = "st\<lparr>coros := (coros st)(b \<mapsto> ?c), coro_this_ptr := Some b', world := s\<rparr>"
    have run: "coro_run b st = coro_run b' ?st"
      using pause coro_rep_next(1) [OF rep pause(1)] by (subst coro_run.simps) simp
    have nb: "b \<notin> set (b' # bs)" using coro_rep_next(3) [OF rep pause(1)] .
    have lv': "live I Q (own(b := g)) ?st a" if "a \<in> set ((pre @ [b]) @ b' # bs)" for a
      using lv [of a] that pause(2,5) by (cases "a = b") (auto simp: ran_self intro!: ran_other)
    have rep': "coro_rep ?st ((pre @ [b]) @ b' # bs)"
      using ran_rep [OF rep pause(1), where c' = ?c and p = "Some b'" and s = s] by simp
    have "I (own(b := g)) (world ?st)" "is_sched_waiting ?st"
      using pause(4) Cons.prems(4) by (simp_all del: fun_upd_apply)
    from Cons.IH [OF rep' this(1) lv' this(2)]
    obtain st' own' where r: "coro_run b' ?st = Some (Inr st')" "coro_rep st' ((pre @ [b]) @ b' # bs)" "I own' (world st')"
      "\<forall>a. a \<notin> set (b' # bs) \<longrightarrow> coros st' a = coros ?st a \<and> own' a = (own(b := g)) a"
      "(\<forall>a \<in> set ((pre @ [b]) @ b' # bs). live I Q own' st' a) \<or> round_ok I Q (set ((pre @ [b]) @ b' # bs)) own' st'"
      by blast
    have "coros st' b = Some ?c" using r(4) nb by simp
    moreover have "\<forall>a. a \<notin> set (b # b' # bs) \<longrightarrow> coros st' a = coros st a \<and> own' a = own a" using r(4) by auto
    ultimately show ?thesis using run r(1-3,5) pause(1,6)
      by (intro exI [of _ st'] exI [of _ own']) simp
  qed
qed

definition has_finished :: "'s sched \<Rightarrow> nat \<Rightarrow> bool" where
  "has_finished st a = (case coros st a of None \<Rightarrow> False | Some c \<Rightarrow> is_finished c)"

lemma has_finishedI:
  "live I Q own st a \<Longrightarrow> \<not> has_finished st a" "finished_ok Q own st a \<Longrightarrow> has_finished st a"
  by (auto simp: live_def finished_ok_def has_finished_def)

lemma find_finished_ok:
  "dlseg (coros st) p as None \<Longrightarrow> find_finished (ptr_hd as) st = Some (Inr (List.find (has_finished st) as))"
proof (induction as arbitrary: p)
  case Nil
  show ?case by (subst find_finished.simps) simp
next
  case (Cons a as)
  then obtain c where "coros st a = Some c" "c_next c = ptr_hd as" "has_finished st a = is_finished c"
    by (auto simp: ptr_hd_def has_finished_def)
  with Cons show ?case by (subst find_finished.simps) auto
qed

lemma find_live:
  assumes "\<And>a. a \<in> set as \<Longrightarrow> live I Q own st a"
  shows "List.find (has_finished st) as = None"
  using assms has_finishedI(1) by (metis find_None_iff)

lemma find_round:
  assumes "finished_ok Q own st a" "\<And>d. d \<in> set (xs @ ys) \<Longrightarrow> live I Q own st d"
  shows "List.find (has_finished st) (xs @ a # ys) = Some a"
  using assms(2)
proof (induction xs)
  case (Cons x xs)
  from Cons.prems [of x] have "\<not> has_finished st x" by (simp add: has_finishedI)
  with Cons show ?case by simp
qed (use assms(1) in \<open>simp add: has_finishedI\<close>)

text \<open>What \<open>coro_sched_wait\<close> promises when it returns the coroutine \<open>a\<close> of the list \<open>as\<close>.\<close>

definition waited ::
  "((nat \<Rightarrow> 'g) \<Rightarrow> 's \<Rightarrow> bool) \<Rightarrow> (int \<Rightarrow> 'g \<Rightarrow> bool) \<Rightarrow> nat list \<Rightarrow> (nat \<Rightarrow> 'g) \<Rightarrow> nat \<Rightarrow> (nat \<Rightarrow> 'g) \<Rightarrow> 's sched \<Rightarrow> bool" where
  "waited I Q as own a own' st' \<longleftrightarrow> a \<in> set as \<and> coro_rep st' (remove1 a as) \<and> I own' (world st') \<and>
     finished_ok Q own' st' a \<and> (\<forall>d \<in> set as - {a}. live I Q own' st' d) \<and> (\<forall>d. d \<notin> set as \<longrightarrow> own' d = own d)"

lemma sched_wait_finished:
  assumes rep: "coro_rep st as" and inv: "I own (world st)" and fin: "round_ok I Q (set as) own st"
  shows "\<exists>a st'. coro_sched_wait st = Some (Inr (Some a, st')) \<and> waited I Q as own a own st'"
proof -
  from fin obtain a where a: "a \<in> set as" "finished_ok Q own st a" "\<forall>d \<in> set as - {a}. live I Q own st d"
    by (auto simp: round_ok_def)
  from a(1) obtain xs ys where as: "as = xs @ a # ys" by (auto simp: in_set_conv_decomp)
  have dist: "distinct as" and hd: "coro_list st = ptr_hd as" and seg: "dlseg (coros st) None as None"
    using rep by (auto simp: coro_rep_def)
  have rem: "remove1 a as = xs @ ys" using dist as by (simp add: remove1_append)
  have lv: "live I Q own st d" if "d \<in> set (xs @ ys)" for d using a(3) that dist as by auto
  have find: "find_finished (ptr_hd as) st = Some (Inr (Some a))"
    unfolding find_finished_ok [OF seg] using find_round [OF a(2) lv] as by simp
  from coro_list_delete_ok [OF rep [unfolded as]] obtain st' where
    st': "coro_list_delete a st = Inr st'" "coro_rep st' (xs @ ys)"
      "\<forall>b. map_option core (coros st' b) = map_option core (coros st b)" "world st' = world st" by blast
  obtain h where h: "ptr_hd as = Some h" using as by (auto simp: ptr_hd_def)
  have run: "coro_sched_wait st = Some (Inr (Some a, st'))"
    using find st'(1) hd h by (subst coro_sched_wait.simps) simp
  have "finished_ok Q own st' a" using a(2) live_cong(2) [of st' a st own own Q] st'(3) by simp
  moreover have "live I Q own st' d" if "d \<in> set as - {a}" for d
    using a(3) that live_cong(1) [of st' d st own own I Q] st'(3) by simp
  ultimately show ?thesis using run st' a(1) inv rem by (auto simp: waited_def)
qed

lemma sched_wait_ok:
  assumes "coro_rep st (h # as)" "I own (world st)" "\<And>a. a \<in> set (h # as) \<Longrightarrow> live I Q own st a"
  shows "\<exists>a st' own'. coro_sched_wait st = Some (Inr (Some a, st')) \<and> waited I Q (h # as) own a own' st'"
proof -
  have "\<exists>a st' own'. coro_sched_wait st = Some (Inr (Some a, st')) \<and> waited I Q (h # as) own a own' st'"
    if "coros st h = Some c" "c_ctx c = k" "coro_rep st (h # as)" "I own (world st)" "\<And>a. a \<in> set (h # as) \<Longrightarrow> live I Q own st a"
    for k c own st
    using wf_co_succ that
  proof (induction k arbitrary: c own st rule: wf_induct_rule)
    case (less k)
    let ?st = "st\<lparr>is_sched_waiting := True, coro_this_ptr := Some h, sched_switches := sched_switches st + 1\<rparr>"
    have seg: "dlseg (coros st) None (h # as) None" and hd: "coro_list st = Some h"
      using less.prems(3) by (simp_all add: coro_rep_def)
    have find: "find_finished (Some h) st = Some (Inr None)"
      using find_finished_ok [OF seg] find_live [of "h # as" I Q own st] less.prems(5) by auto
    have "coro_rep ?st ([] @ h # as)" "I own (world ?st)" "is_sched_waiting ?st"
      using less.prems(3,4) by (simp_all add: coro_rep_def)
    moreover have "live I Q own ?st a" if "a \<in> set ([] @ h # as)" for a
      using less.prems(5) [of a] that live_cong(1) [of ?st a st own own I Q] by simp
    ultimately obtain st1 own1 where r: "coro_run h ?st = Some (Inr st1)" "coro_rep st1 (h # as)" "I own1 (world st1)"
      "\<forall>a. a \<notin> set (h # as) \<longrightarrow> coros st1 a = coros ?st a \<and> own1 a = own a"
      "(\<forall>a \<in> set (h # as). live I Q own1 st1 a) \<and>
         (\<exists>c c'. coros ?st h = Some c \<and> coros st1 h = Some c' \<and> (c_ctx c', c_ctx c) \<in> co_succ) \<or>
       round_ok I Q (set (h # as)) own1 st1"
      using coro_run_ok [of ?st "[]" h as I own Q] by auto
    let ?st1 = "st1\<lparr>is_sched_waiting := False\<rparr>"
    have run: "coro_sched_wait st = coro_sched_wait ?st1"
      using find hd r(1) by (subst coro_sched_wait.simps) simp
    have st1: "coro_rep ?st1 (h # as)" "I own1 (world ?st1)" using r(2,3) by (simp_all add: coro_rep_def)
    have "\<exists>a st' own'. coro_sched_wait ?st1 = Some (Inr (Some a, st')) \<and> waited I Q (h # as) own1 a own' st'"
    proof (cases "round_ok I Q (set (h # as)) own1 st1")
      case True
      then have "round_ok I Q (set (h # as)) own1 ?st1"
        by (simp add: round_ok_def live_def finished_ok_def)
      from sched_wait_finished [OF st1 this] show ?thesis by blast
    next
      case False
      with r(5) obtain c' where c': "coros ?st1 h = Some c'" "(c_ctx c', k) \<in> co_succ"
        "\<And>a. a \<in> set (h # as) \<Longrightarrow> live I Q own1 ?st1 a"
        using less.prems(1,2) by (auto simp: live_def)
      from less.IH [OF c'(2,1) refl st1 c'(3)] show ?thesis .
    qed
    with run r(4) show ?case by (auto simp: waited_def)
  qed
  moreover obtain c where "coros st h = Some c" using assms(3) [of h] by (auto simp: live_def)
  ultimately show ?thesis using assms by blast
qed

lemma coro_delete_ok:
  assumes "coro_rep st as" "a \<notin> set as" "coros st a = Some c"
  shows "\<exists>st'. coro_delete a st = Inr st' \<and> coro_rep st' as \<and> world st' = world st \<and>
    (\<forall>d. d \<noteq> a \<longrightarrow> coros st' d = coros st d)"
  using assms by (auto simp: coro_delete_def get_coro_def coro_rep_def dlseg_frame)

lemma wait_all_ok:
  assumes "coro_rep st as" "I own (world st)" "\<And>a. a \<in> set as \<Longrightarrow> live I Q own st a"
  shows "\<exists>rs st' own'. coro_wait_all st = Some (Inr (rs, st')) \<and> mset (map fst rs) = mset as \<and>
    (\<forall>(a, v) \<in> set rs. Q v (own' a)) \<and> I own' (world st') \<and> coro_rep st' [] \<and> (\<forall>d. d \<notin> set as \<longrightarrow> own' d = own d)"
  using assms
proof (induction "length as" arbitrary: as st own)
  case 0
  then have "coro_sched_wait st = Some (Inr (None, st))"
    by (subst coro_sched_wait.simps) (simp add: coro_rep_def)
  then have "coro_wait_all st = Some (Inr ([], st))" by (subst coro_wait_all.simps) simp
  with 0 show ?case by auto
next
  case (Suc n)
  then obtain h hs where as: "as = h # hs" by (cases as) auto
  with sched_wait_ok Suc.prems obtain a st1 own1 where
    w: "coro_sched_wait st = Some (Inr (Some a, st1))" "waited I Q as own a own1 st1" by metis
  let ?bs = "remove1 a as"
  have dist: "distinct as" using Suc.prems(1) by (simp add: coro_rep_def)
  from w(2) obtain c where a: "a \<in> set as" "coro_rep st1 ?bs" "I own1 (world st1)" "coros st1 a = Some c"
    "Q (ret c) (own1 a)" "\<And>d. d \<in> set as - {a} \<Longrightarrow> live I Q own1 st1 d" "\<And>d. d \<notin> set as \<Longrightarrow> own1 d = own d"
    by (auto simp: waited_def finished_ok_def)
  have na: "a \<notin> set ?bs" and bs: "set ?bs = set as - {a}" using dist by auto
  from coro_delete_ok [OF a(2) na a(4)] obtain st2 where
    d: "coro_delete a st1 = Inr st2" "coro_rep st2 ?bs" "world st2 = world st1" "\<And>d. d \<noteq> a \<Longrightarrow> coros st2 d = coros st1 d"
    by blast
  have "live I Q own1 st2 d" if "d \<in> set ?bs" for d
    using a(6) [of d] d(4) [of d] that bs by (auto simp: live_def)
  moreover have "n = length ?bs" using Suc.hyps(2) a(1) by (simp add: length_remove1)
  ultimately obtain rs st3 own3 where r: "coro_wait_all st2 = Some (Inr (rs, st3))" "mset (map fst rs) = mset ?bs"
    "\<forall>(a, v) \<in> set rs. Q v (own3 a)" "I own3 (world st3)" "coro_rep st3 []" "\<And>d. d \<notin> set ?bs \<Longrightarrow> own3 d = own1 d"
    using Suc.hyps(1) [of ?bs st2 own1] d(2,3) a(3) by auto
  have "coro_wait_all st = Some (Inr ((a, ret c) # rs, st3))"
    using w(1) a(4) d(1) r(1) by (subst coro_wait_all.simps) (simp add: coro_status_def get_coro_def)
  moreover have "mset (map fst ((a, ret c) # rs)) = mset as" using r(2) a(1) by simp
  moreover have "own3 a = own1 a" using r(6) na by blast
  moreover have "own3 d = own d" if "d \<notin> set as" for d using r(6) [of d] a(7) [of d] that bs by auto
  ultimately show ?case using r(3-5) a(5) by (intro exI [of _ "(a, ret c) # rs"] exI [of _ st3] exI [of _ own3]) auto
qed

section \<open>A program of coroutines\<close>

text \<open>Creating \<open>n\<close> coroutines, the way main does.\<close>

fun coro_spawn :: "(nat \<Rightarrow> 's \<Rightarrow> ('s, int) co) \<Rightarrow> nat \<Rightarrow> nat \<Rightarrow> 's sched \<Rightarrow> 's sched cres" where
  "coro_spawn func i 0 st = Inr st"
| "coro_spawn func i (Suc n) st = rbind (coro_new (func i) st) (\<lambda>(_, st). coro_spawn func (i + 1) n st)"

lemma coro_new_ok:
  assumes "coro_rep st as"
  shows "\<exists>a st'. coro_new func st = Inr (a, st') \<and> a \<notin> set as \<and> coro_rep st' (a # as) \<and> world st' = world st \<and>
    (\<forall>own. suspended I Q a (own a) func \<longrightarrow> live I Q own st' a) \<and>
    (\<forall>own d. d \<noteq> a \<longrightarrow> live I Q own st d \<longrightarrow> live I Q own st' d)"
proof -
  let ?a = "fresh_coro st"
  let ?c = "\<lparr>ret = 0, c_ctx = func, is_finished = False, switch_count = 0, c_next = None, c_prev = None\<rparr>"
  let ?st = "st\<lparr>coros := (coros st)(?a \<mapsto> ?c), fresh_coro := ?a + 1\<rparr>"
  have new: "coros st ?a = None" using assms by (auto simp: coro_rep_def)
  then have na: "?a \<notin> set as" using assms by (auto simp: coro_rep_def dest: dlseg_mem)
  have "coro_rep ?st as" using assms na by (auto simp: coro_rep_def dlseg_frame less_Suc_eq)
  from coro_list_add_ok [OF this, of ?a ?c] na obtain st' where
    st': "coro_list_add ?a ?st = Inr st'" "coro_rep st' (?a # as)" "world st' = world st"
      "\<forall>b. map_option core (coros st' b) = map_option core (coros ?st b)" by auto
  have "live I Q own st' ?a" if "suspended I Q ?a (own ?a) func" for own
    using live_cong(1) [of st' ?a ?st own own I Q] st'(4) that by (simp add: live_def)
  moreover have "live I Q own st' d" if "d \<noteq> ?a" "live I Q own st d" for own d
    using live_cong(1) [of st' d ?st own own I Q] st'(4) that by (simp add: live_def)
  ultimately show ?thesis using st' na by (auto simp: coro_new_def Let_def)
qed

text \<open>
  The contract of such a program: every coroutine body, started in a state with the invariant,
  keeps it at every yield and ends with \<open>final\<close>. Then all coroutines end, each is handed out once,
  and the invariant holds at the end.
\<close>

locale cooperative =
  fixes inv :: "(nat \<Rightarrow> 'g) \<Rightarrow> 's \<Rightarrow> bool"
    and final :: "int \<Rightarrow> 'g \<Rightarrow> bool"
    and idle :: 'g
    and body :: "nat \<Rightarrow> 's \<Rightarrow> ('s, int) co"
  assumes body_ok: "inv own s \<Longrightarrow> own a = idle \<Longrightarrow> good inv final a (body i s) own"
begin

lemma spawn_ok:
  assumes "coro_rep st as" "inv own (world st)" "\<And>a. own a = idle" "\<And>a. a \<in> set as \<Longrightarrow> live inv final own st a"
  shows "\<exists>st' as'. coro_spawn body i n st = Inr st' \<and> coro_rep st' as' \<and> length as' = length as + n \<and>
    world st' = world st \<and> (\<forall>a \<in> set as'. live inv final own st' a)"
  using assms
proof (induction n arbitrary: i st as)
  case (Suc n)
  from coro_new_ok [OF Suc.prems(1), of "body i" inv final] obtain a st1 where
    n: "coro_new (body i) st = Inr (a, st1)" "a \<notin> set as" "coro_rep st1 (a # as)" "world st1 = world st"
      "suspended inv final a (own a) (body i) \<Longrightarrow> live inv final own st1 a"
      "\<And>d. d \<noteq> a \<Longrightarrow> live inv final own st d \<Longrightarrow> live inv final own st1 d" by blast
  have "suspended inv final a (own a) (body i)" using body_ok assms(3) by (simp add: suspended_def)
  then have "live inv final own st1 d" if "d \<in> set (a # as)" for d
    using n(5) n(6) [of d] Suc.prems(4) [of d] that by (cases "d = a") auto
  from Suc.IH [OF n(3) _ assms(3) this, of "i + 1"] Suc.prems(2) n(1,4) show ?case by auto
qed auto

lemma run_all:
  assumes "inv own s" "\<And>a. own a = idle"
  shows "\<exists>st rs st' own'. coro_spawn body 0 n (coro_sched_init s) = Inr st \<and>
    coro_wait_all st = Some (Inr (rs, st')) \<and> length rs = n \<and> distinct (map fst rs) \<and>
    (\<forall>(a, v) \<in> set rs. final v (own' a)) \<and> inv own' (world st') \<and> (\<forall>a. a \<notin> fst ` set rs \<longrightarrow> own' a = idle) \<and>
    coro_list st' = None"
proof -
  have "coro_rep (coro_sched_init s) []" "inv own (world (coro_sched_init s))"
    using assms(1) by (simp_all add: coro_sched_init_def coro_rep_def)
  from spawn_ok [OF this assms(2), of 0 n] obtain st as where
    st: "coro_spawn body 0 n (coro_sched_init s) = Inr st" "coro_rep st as" "length as = n"
      "inv own (world st)" "\<And>a. a \<in> set as \<Longrightarrow> live inv final own st a"
    using assms(1) by (auto simp: coro_sched_init_def)
  from wait_all_ok [OF st(2,4,5)] obtain rs st' own' where
    r: "coro_wait_all st = Some (Inr (rs, st'))" "mset (map fst rs) = mset as" "\<forall>(a, v) \<in> set rs. final v (own' a)"
      "inv own' (world st')" "coro_rep st' []" "\<And>d. d \<notin> set as \<Longrightarrow> own' d = own d" by blast
  have "distinct (map fst rs)" using mset_eq_imp_distinct_iff [OF r(2)] st(2) by (simp add: coro_rep_def)
  moreover have "length rs = n" using st(3) mset_eq_length [OF r(2)] by simp
  moreover have "own' a = idle" if "a \<notin> fst ` set rs" for a
    using r(6) assms(2) mset_eq_setD [OF r(2)] that by simp
  ultimately show ?thesis using st(1) r(1,3,4,5) by (auto simp: coro_rep_def)
qed

end

section \<open>Properties of the library\<close>


definition demo_coro :: "nat option \<Rightarrow> nat option \<Rightarrow> unit coro" where
  "demo_coro n p = \<lparr>ret = 0, c_ctx = Ret 0, is_finished = False, switch_count = 0, c_next = n, c_prev = p\<rparr>"

definition demo_sched :: "unit sched" where
  "demo_sched = (coro_sched_init ())\<lparr>coros := [0 \<mapsto> demo_coro None (Some 1), 1 \<mapsto> demo_coro (Some 0) None, 2 \<mapsto> demo_coro None None],
     fresh_coro := 3, coro_list := Some 1\<rparr>"

lemma demo_sched_rep: "coro_rep demo_sched [1, 0]"
  by (simp add: coro_rep_def demo_sched_def demo_coro_def)


definition moved_on :: "nat list \<Rightarrow> nat \<Rightarrow> nat list \<Rightarrow> 's coro \<Rightarrow> 's sched \<Rightarrow> 's sched \<Rightarrow> bool" where
  "moved_on pre b bs c st st' \<longleftrightarrow> coro_rep st' (pre @ b # bs) \<and>
     ((\<exists>a \<in> set (b # bs). has_finished st' a) \<or> (\<exists>c'. coros st' b = Some c' \<and> (c_ctx c', c_ctx c) \<in> co_succ)) \<and>
     (\<forall>a. a \<notin> set (b # bs) \<longrightarrow> coros st' a = coros st a)"

lemma coro_run_total:
  assumes "coro_rep st (pre @ b # bs)" "coros st b = Some c"
  shows "\<exists>r. coro_run b st = Some r \<and> (\<forall>st'. r = Inr st' \<longrightarrow> moved_on pre b bs c st st')"
  using assms
proof (induction "length bs" arbitrary: bs pre b st c rule: less_induct)
  case less
  note rep = less.prems(1) and c = less.prems(2)
  note nx = coro_rep_next [OF rep c]
  show ?case
  proof (cases "is_finished c \<or> (\<exists>e. c_ctx c (world st) = Fail e)")
    case True
    then show ?thesis using c by (subst coro_run.simps) auto
  next
    case False
    then consider (Ret) v s where "c_ctx c (world st) = Ret v s" | (Pause) s k where "c_ctx c (world st) = Pause s k"
      by (cases "c_ctx c (world st)") auto
    then show ?thesis
    proof cases
      case Ret
      let ?c = "c\<lparr>ret := v, is_finished := True\<rparr>"
      have "moved_on pre b bs c st (st\<lparr>coros := (coros st)(b \<mapsto> ?c), coro_this_ptr := None, world := s\<rparr>)"
        using ran_rep [OF rep c, of ?c] by (simp add: moved_on_def has_finished_def)
      then show ?thesis using c False Ret by (subst coro_run.simps) simp
    next
      case Pause
      let ?c = "c\<lparr>c_ctx := k, switch_count := switch_count c + 1\<rparr>"
      let ?st = "\<lambda>p. st\<lparr>coros := (coros st)(b \<mapsto> ?c), coro_this_ptr := p, world := s\<rparr>"
      have succ: "(k, c_ctx c) \<in> co_succ" using Pause by (auto simp: co_succ_def)
      have rep': "coro_rep (?st p) (pre @ b # bs)" for p using ran_rep [OF rep c, of ?c] by simp
      show ?thesis
      proof (cases bs)
        case Nil
        have "moved_on pre b bs c st (?st None)" using rep' succ by (simp add: moved_on_def)
        then show ?thesis using c False Pause Nil nx(1) by (subst coro_run.simps) simp
      next
        case (Cons b' bs')
        have run: "coro_run b st = coro_run b' (?st (Some b'))"
          using c False Pause Cons nx(1) by (subst coro_run.simps) simp
        have b': "b \<noteq> b'" "b \<notin> set bs'" using nx(3) Cons by auto
        obtain c' where c': "coros (?st (Some b')) b' = Some c'"
          using rep Cons b' by (auto simp: coro_rep_def dlseg_append)
        have "coro_rep (?st (Some b')) ((pre @ [b]) @ b' # bs')" using rep' Cons by simp
        from less.hyps [OF _ this c'] Cons obtain r where r: "coro_run b' (?st (Some b')) = Some r"
          "\<And>st'. r = Inr st' \<Longrightarrow> moved_on (pre @ [b]) b' bs' c' (?st (Some b')) st'" by auto
        have "moved_on pre b bs c st st'" if "r = Inr st'" for st'
        proof -
          note mv = r(2) [OF that, unfolded moved_on_def]
          then have "coros st' b = Some ?c" using b' by simp
          with mv succ Cons show ?thesis by (auto simp: moved_on_def)
        qed
        with r(1) run show ?thesis by auto
      qed
    qed
  qed
qed



end
