(* ===== verification/MergeSort.thy ===== *)
theory MergeSort
  imports Prelude "HOL-Library.Multiset"
begin

text \<open>
  The array routines of src/1/solution.c: \<open>assign\<close>, the merge of two neighbouring ranges of one
  array through a second one, and \<open>combine\<close>, the merge of two arrays into a new one. Both are
  shown equal to one merge of lists, which keeps the elements and their order. The programs of
  src/bonus merge numbers of type \<open>double\<close> with the same text, so that the type of the numbers is open.
\<close>

section \<open>The code\<close>

definition assign :: "'a list \<Rightarrow> nat \<Rightarrow> 'a list \<Rightarrow> nat \<Rightarrow> ('a list \<times> nat \<times> nat) cres" where
  "assign arr p1 cur p2 =
     rbind (arr_get cur p2) (\<lambda>v. rbind (arr_put arr p1 v) (\<lambda>arr. Inr (arr, p1 + 1, p2 + 1)))"

lemma assign_eq_Inr: "assign arr p1 cur p2 = Inr (arr', q1, q2) \<Longrightarrow> q1 = p1 + 1 \<and> q2 = p2 + 1"
  by (auto simp: assign_def res_simps)

text \<open>
  The content of fresh memory: the lemmas about the loops below hold for every content, since
  all of it is written before it is read.
\<close>

definition malloc_ints :: "nat \<Rightarrow> ('a::zero) list" where
  "malloc_ints n = replicate n 0"

function (sequential) merge_loop :: "('a::linorder) list \<Rightarrow> nat \<Rightarrow> nat \<Rightarrow> nat \<Rightarrow> nat \<Rightarrow> nat \<Rightarrow> 'a list \<Rightarrow> 'a list cres" where
  "merge_loop arr mid r pointer1 pointer2 position answer =
     (if pointer1 \<le> mid \<or> pointer2 \<le> r then
        if pointer1 > mid then
          rbind (assign answer position arr pointer2) (\<lambda>(answer, position, pointer2).
          merge_loop arr mid r pointer1 pointer2 position answer)
        else if pointer2 > r then
          rbind (assign answer position arr pointer1) (\<lambda>(answer, position, pointer1).
          merge_loop arr mid r pointer1 pointer2 position answer)
        else rbind (arr_get arr pointer1) (\<lambda>x. rbind (arr_get arr pointer2) (\<lambda>y.
          if x < y then
            rbind (assign answer position arr pointer1) (\<lambda>(answer, position, pointer1).
            merge_loop arr mid r pointer1 pointer2 position answer)
          else
            rbind (assign answer position arr pointer2) (\<lambda>(answer, position, pointer2).
            merge_loop arr mid r pointer1 pointer2 position answer)))
      else Inr answer)"
  by pat_completeness auto
termination
  by (relation "measure (\<lambda>(arr, mid, r, p1, p2, pos, ans). (mid + 1 - p1) + (r + 1 - p2))")
     (auto dest!: assign_eq_Inr)

fun copy_back :: "'a list \<Rightarrow> 'a list \<Rightarrow> nat \<Rightarrow> nat \<Rightarrow> nat \<Rightarrow> 'a list cres" where
  "copy_back arr answer l i 0 = Inr arr"
| "copy_back arr answer l i (Suc n) =
     rbind (arr_get answer (i - l)) (\<lambda>v. rbind (arr_put arr i v) (\<lambda>arr. copy_back arr answer l (i + 1) n))"

definition merge :: "('a::{linorder,zero}) list \<Rightarrow> nat \<Rightarrow> nat \<Rightarrow> 'a list cres" where
  "merge arr l r =
     rbind (int_add l r) (\<lambda>s.
     let mid = s div 2
     in rbind (merge_loop arr mid r l (mid + 1) 0 (malloc_ints (r - l + 1))) (\<lambda>answer.
        copy_back arr answer l l (r + 1 - l)))"

text \<open>\<open>combine\<close> on the two arrays and their sizes; the first result is the new size.\<close>

function (sequential) combine_loop ::
  "int list \<Rightarrow> nat \<Rightarrow> int list \<Rightarrow> nat \<Rightarrow> nat \<Rightarrow> nat \<Rightarrow> nat \<Rightarrow> int list \<Rightarrow> int list cres" where
  "combine_loop fst_arr fst_size snd_arr snd_size p1 p2 position arr =
     (if p1 < fst_size \<or> p2 < snd_size then
        if p1 = fst_size then
          rbind (assign arr position snd_arr p2) (\<lambda>(arr, position, p2).
          combine_loop fst_arr fst_size snd_arr snd_size p1 p2 position arr)
        else if p2 = snd_size then
          rbind (assign arr position fst_arr p1) (\<lambda>(arr, position, p1).
          combine_loop fst_arr fst_size snd_arr snd_size p1 p2 position arr)
        else rbind (arr_get fst_arr p1) (\<lambda>x. rbind (arr_get snd_arr p2) (\<lambda>y.
          if x < y then
            rbind (assign arr position fst_arr p1) (\<lambda>(arr, position, p1).
            combine_loop fst_arr fst_size snd_arr snd_size p1 p2 position arr)
          else
            rbind (assign arr position snd_arr p2) (\<lambda>(arr, position, p2).
            combine_loop fst_arr fst_size snd_arr snd_size p1 p2 position arr)))
      else Inr arr)"
  by pat_completeness auto
termination
  by (relation "measure (\<lambda>(a, n, b, k, p1, p2, pos, arr). (length a - p1) + (length b - p2))")
     (auto dest!: assign_eq_Inr simp: assign_def arr_get_def res_simps split: if_splits)

declare merge_loop.simps [simp del] combine_loop.simps [simp del]

definition combine :: "int list \<Rightarrow> nat \<Rightarrow> int list \<Rightarrow> nat \<Rightarrow> (nat \<times> int list) cres" where
  "combine fst_arr fst_size snd_arr snd_size =
     rbind (int_add fst_size snd_size) (\<lambda>sz.
     rbind (combine_loop fst_arr fst_size snd_arr snd_size 0 0 0 (malloc_ints sz)) (\<lambda>arr.
     Inr (sz, arr)))"

section \<open>The merge of two lists\<close>

fun merge_lists :: "('a::linorder) list \<Rightarrow> 'a list \<Rightarrow> 'a list" where
  "merge_lists [] ys = ys"
| "merge_lists xs [] = xs"
| "merge_lists (x # xs) (y # ys) =
     (if x < y then x # merge_lists xs (y # ys) else y # merge_lists (x # xs) ys)"

lemma merge_lists_Nil2 [simp]: "merge_lists xs [] = xs"
  by (cases xs) simp_all

lemma mset_merge_lists [simp]: "mset (merge_lists xs ys) = mset xs + mset ys"
  by (induction xs ys rule: merge_lists.induct) auto

lemma set_merge_lists [simp]: "set (merge_lists xs ys) = set xs \<union> set ys"
  by (induction xs ys rule: merge_lists.induct) auto

lemma length_merge_lists [simp]: "length (merge_lists xs ys) = length xs + length ys"
  by (induction xs ys rule: merge_lists.induct) auto

lemma sorted_merge_lists: "sorted xs \<Longrightarrow> sorted ys \<Longrightarrow> sorted (merge_lists xs ys)"
  by (induction xs ys rule: merge_lists.induct) fastforce+

section \<open>The loops\<close>

lemma assign_ok [simp]:
  "p1 < length arr \<Longrightarrow> p2 < length cur \<Longrightarrow> assign arr p1 cur p2 = Inr (arr[p1 := cur ! p2], p1 + 1, p2 + 1)"
  by (simp add: assign_def)

lemma take_update_snoc: "p < length xs \<Longrightarrow> take (Suc p) (xs[p := x]) = take p xs @ [x]"
  by (simp add: take_Suc_conv_app_nth)

lemma merge_loop_ok:
  "r < length arr \<Longrightarrow> mid < length arr \<Longrightarrow>
   length answer = position + (mid + 1 - p1) + (r + 1 - p2) \<Longrightarrow>
   merge_loop arr mid r p1 p2 position answer =
     Inr (take position answer @ merge_lists (seg arr p1 (mid + 1)) (seg arr p2 (r + 1)))"
proof (induction "(mid + 1 - p1) + (r + 1 - p2)" arbitrary: p1 p2 position answer rule: less_induct)
  case less
  note IH = less.hyps and prems = less.prems
  have c1: "p1 \<le> mid \<Longrightarrow> seg arr p1 (mid + 1) = arr ! p1 # seg arr (Suc p1) (mid + 1)"
    using prems by (intro seg_Cons) auto
  have c2: "p2 \<le> r \<Longrightarrow> seg arr p2 (r + 1) = arr ! p2 # seg arr (Suc p2) (r + 1)"
    using prems by (intro seg_Cons) auto
  have s1: "p1 \<le> mid \<Longrightarrow> merge_loop arr mid r (p1 + 1) p2 (position + 1) (answer[position := arr ! p1]) =
      Inr (take position answer @ arr ! p1 # merge_lists (seg arr (Suc p1) (mid + 1)) (seg arr p2 (r + 1)))"
    using IH [of "p1 + 1" p2 "answer[position := arr ! p1]" "position + 1"] prems by (simp add: take_update_snoc)
  have s2: "p2 \<le> r \<Longrightarrow> merge_loop arr mid r p1 (p2 + 1) (position + 1) (answer[position := arr ! p2]) =
      Inr (take position answer @ arr ! p2 # merge_lists (seg arr p1 (mid + 1)) (seg arr (Suc p2) (r + 1)))"
    using IH [of p1 "p2 + 1" "answer[position := arr ! p2]" "position + 1"] prems by (simp add: take_update_snoc)
  show ?case using prems s1 s2 c1 c2
    by (subst merge_loop.simps) (auto simp: not_le)
qed

lemma combine_loop_ok:
  "n \<le> length a \<Longrightarrow> k \<le> length b \<Longrightarrow> p1 \<le> n \<Longrightarrow> p2 \<le> k \<Longrightarrow>
   length arr = position + (n - p1) + (k - p2) \<Longrightarrow>
   combine_loop a n b k p1 p2 position arr = Inr (take position arr @ merge_lists (seg a p1 n) (seg b p2 k))"
proof (induction "(n - p1) + (k - p2)" arbitrary: p1 p2 position arr rule: less_induct)
  case less
  note IH = less.hyps and prems = less.prems
  have c1: "p1 < n \<Longrightarrow> seg a p1 n = a ! p1 # seg a (Suc p1) n" using prems by (intro seg_Cons) auto
  have c2: "p2 < k \<Longrightarrow> seg b p2 k = b ! p2 # seg b (Suc p2) k" using prems by (intro seg_Cons) auto
  have s1: "p1 < n \<Longrightarrow> combine_loop a n b k (p1 + 1) p2 (position + 1) (arr[position := a ! p1]) =
      Inr (take position arr @ a ! p1 # merge_lists (seg a (Suc p1) n) (seg b p2 k))"
    using IH [of "p1 + 1" p2 "arr[position := a ! p1]" "position + 1"] prems by (simp add: take_update_snoc)
  have s2: "p2 < k \<Longrightarrow> combine_loop a n b k p1 (p2 + 1) (position + 1) (arr[position := b ! p2]) =
      Inr (take position arr @ b ! p2 # merge_lists (seg a p1 n) (seg b (Suc p2) k))"
    using IH [of p1 "p2 + 1" "arr[position := b ! p2]" "position + 1"] prems by (simp add: take_update_snoc)
  show ?case using prems s1 s2 c1 c2
    by (subst combine_loop.simps) (auto simp: le_less)
qed

lemma copy_back_ok:
  "l \<le> i \<Longrightarrow> i + n \<le> length arr \<Longrightarrow> i - l + n \<le> length answer \<Longrightarrow>
   copy_back arr answer l i n = Inr (take i arr @ seg answer (i - l) (i - l + n) @ drop (i + n) arr)"
proof (induction n arbitrary: arr i)
  case (Suc n)
  from Suc.prems have "copy_back arr answer l i (Suc n) =
      Inr (take (Suc i) (arr[i := answer ! (i - l)]) @ seg answer (Suc i - l) (Suc i - l + n) @ drop (Suc i + n) arr)"
    using Suc.IH [of "i + 1" "arr[i := answer ! (i - l)]"] by simp
  moreover have "seg answer (i - l) (i - l + Suc n) = answer ! (i - l) # seg answer (Suc i - l) (Suc i - l + n)"
    using Suc.prems by (subst seg_Cons) (auto simp: Suc_diff_le)
  ultimately show ?case using Suc.prems by (simp add: take_update_snoc)
qed simp

section \<open>What the routines compute\<close>

lemma merge_ok:
  assumes "l \<le> r" "r < length arr" "l + r < 2 ^ 31"
  shows "merge arr l r = Inr (take l arr @
    merge_lists (seg arr l ((l + r) div 2 + 1)) (seg arr ((l + r) div 2 + 1) (r + 1)) @ drop (r + 1) arr)"
proof -
  let ?m = "(l + r) div 2" and ?ans = "malloc_ints (r - l + 1)"
  have "?m < length arr" "length ?ans = 0 + (?m + 1 - l) + (r + 1 - (?m + 1))"
    using assms by (auto simp: malloc_ints_def)
  from merge_loop_ok [OF assms(2) this] obtain ms where
    ms: "merge_loop arr ?m r l (?m + 1) 0 ?ans = Inr ms"
      "ms = merge_lists (seg arr l (?m + 1)) (seg arr (?m + 1) (r + 1))" by simp
  have len: "length ms = r + 1 - l" using assms unfolding ms(2) by simp
  have "copy_back arr ms l l (r + 1 - l) = Inr (take l arr @ ms @ drop (r + 1) arr)"
    using copy_back_ok [of l l "r + 1 - l" arr ms] assms len by (simp add: seg_full)
  then show ?thesis using assms(3) ms by (simp add: merge_def Let_def)
qed

lemma combine_ok:
  assumes "n \<le> length a" "k \<le> length b" "n + k < 2 ^ 31"
  shows "combine a n b k = Inr (n + k, merge_lists (take n a) (take k b))"
  using combine_loop_ok [OF assms(1,2), of 0 0 "malloc_ints (n + k)" 0] assms(3)
  by (simp add: combine_def malloc_ints_def seg_full)

end
