(* ===== verification/CoroSort.thy ===== *)
theory CoroSort
  imports Coro_Sched MergeSort
begin

text \<open>
  The program of src/1/solution.c: coroutines share a table of files, take those nobody has taken,
  sort each of them with a merge sort that yields when its quantum is over, and main merges the
  sorted files. The clock is a parameter, the sequence of its readings.
\<close>

section \<open>Data\<close>

record timespec =
  tv_sec :: u64
  tv_nsec :: u64

text \<open>
  \<open>f_arr\<close> is the memory behind the pointer, which may be larger than the \<open>f_size\<close> numbers that
  were asked for.
\<close>

record my_context =
  filename :: string
  f_arr :: "int list"
  f_size :: nat
  f_sorted :: bool

text \<open>
  The state the coroutines share: \<open>struct works\<close>, with \<open>sz\<close> as the length of \<open>files\<close>, and the
  number of clock readings so far.
\<close>

record works =
  files :: "my_context option list"
  lat :: u64
  readings :: nat

record coro_data =
  coro_id :: nat
  start :: timespec
  total_time :: u64

type_synonym clock = "nat \<Rightarrow> timespec"

text \<open>
  \<open>my_context_new\<close>: \<open>content\<close> gives the numbers in a file, or \<open>None\<close> when it cannot be opened,
  and \<open>behind\<close> the memory that follows the array of the file.
\<close>

definition my_context_new :: "(string \<Rightarrow> int list option) \<Rightarrow> (string \<Rightarrow> int list) \<Rightarrow> string \<Rightarrow> my_context cres" where
  "my_context_new content behind name =
     (case content name of
        None \<Rightarrow> Inl NullDeref
      | Some nums \<Rightarrow>
          Inr \<lparr>filename = name, f_arr = nums @ behind name, f_size = length nums, f_sorted = False\<rparr>)"

section \<open>Yielding and sorting\<close>

definition to_ms :: "timespec \<Rightarrow> u64" where
  "to_ms tm = tv_sec tm * 1000000 + tv_nsec tm div 1000"

definition clock_gettime :: "clock \<Rightarrow> works \<Rightarrow> timespec \<times> works" where
  "clock_gettime clk w = (clk (readings w), w\<lparr>readings := readings w + 1\<rparr>)"

definition to_yield :: "clock \<Rightarrow> coro_data \<Rightarrow> works \<Rightarrow> (works, coro_data) co" where
  "to_yield clk ctx w =
     (let (current, w) = clock_gettime clk w
      in if to_ms current - to_ms (start ctx) > lat w
         then let ctx = ctx\<lparr>total_time := total_time ctx + (to_ms current - to_ms (start ctx))\<rparr>
              in co_bind (yield_here w) (\<lambda>_ w.
                 let (t, w) = clock_gettime clk w in Ret (ctx\<lparr>start := t\<rparr>) w)
         else Ret ctx w)"

definition get_file :: "works \<Rightarrow> nat \<Rightarrow> my_context cres" where
  "get_file w i = rbind (arr_get (files w) i) (\<lambda>p. case p of None \<Rightarrow> Inl NullDeref | Some f \<Rightarrow> Inr f)"

definition put_file :: "works \<Rightarrow> nat \<Rightarrow> my_context \<Rightarrow> works" where
  "put_file w i f = w\<lparr>files := (files w)[i := Some f]\<rparr>"

text \<open>\<open>merge\<close> on the array of the file \<open>i\<close>.\<close>

definition merge_file :: "nat \<Rightarrow> nat \<Rightarrow> nat \<Rightarrow> works \<Rightarrow> (unit \<times> works) cres" where
  "merge_file i l r w =
     rbind (get_file w i) (\<lambda>f. rbind (merge (f_arr f) l r) (\<lambda>arr. Inr ((), put_file w i (f\<lparr>f_arr := arr\<rparr>))))"

text \<open>
  \<open>sorting\<close> on the array of the file \<open>i\<close>. With \<open>r < l\<close> the code calls itself without an end.
\<close>

function sorting :: "clock \<Rightarrow> coro_data \<Rightarrow> nat \<Rightarrow> nat \<Rightarrow> nat \<Rightarrow> works \<Rightarrow> (works, coro_data) co" where
  "sorting clk ctx i l r w =
     (if r = l then Ret ctx w
      else if r < l then Fail StackOverflow
      else if l + r \<ge> 2 ^ 31 then Fail SignedOverflow
      else let mid = (l + r) div 2
           in co_bind (sorting clk ctx i l mid w) (\<lambda>ctx w.
              co_bind (to_yield clk ctx w) (\<lambda>ctx w.
              co_bind (sorting clk ctx i (mid + 1) r w) (\<lambda>ctx w.
              co_bind (to_yield clk ctx w) (\<lambda>ctx w.
              co_bind (co_lift (merge_file i l r w)) (\<lambda>_ w. Ret ctx w))))))"
  by pat_completeness auto
termination
  by (relation "measure (\<lambda>(clk, ctx, i, l, r, w). r - l)") auto

declare sorting.simps [simp del]

section \<open>The body of a coroutine\<close>

fun files_loop :: "clock \<Rightarrow> coro_data \<Rightarrow> nat \<Rightarrow> nat \<Rightarrow> works \<Rightarrow> (works, coro_data) co" where
  "files_loop clk ctx i 0 w = Ret ctx w"
| "files_loop clk ctx i (Suc n) w =
     (case arr_get (files w) i of
        Inl e \<Rightarrow> Fail e
      | Inr None \<Rightarrow> files_loop clk ctx (i + 1) n w
      | Inr (Some f) \<Rightarrow>
          if f_sorted f then files_loop clk ctx (i + 1) n w
          else co_bind (yield_here (put_file w i (f\<lparr>f_sorted := True\<rparr>))) (\<lambda>_ w.
               let (t, w) = clock_gettime clk w; ctx = ctx\<lparr>start := t\<rparr>
               in case get_file w i of
                    Inl e \<Rightarrow> Fail e
                  | Inr f \<Rightarrow>
                      co_bind (sorting clk ctx i 0 (f_size f) w) (\<lambda>ctx w.
                      co_bind (to_yield clk ctx w) (\<lambda>ctx w.
                      files_loop clk ctx (i + 1) n w))))"

definition coroutine_func_f :: "clock \<Rightarrow> nat \<Rightarrow> works \<Rightarrow> (works, int) co" where
  "coroutine_func_f clk i w =
     (let (t, w) = clock_gettime clk w
      in co_bind (files_loop clk \<lparr>coro_id = i, start = t, total_time = 0\<rparr> 0 (length (files w)) w) (\<lambda>ctx w.
         let (t, w) = clock_gettime clk w in Ret 0 w))"

section \<open>main\<close>

fun load_files :: "(string \<Rightarrow> int list option) \<Rightarrow> (string \<Rightarrow> int list) \<Rightarrow> string list \<Rightarrow> my_context list cres" where
  "load_files content behind [] = Inr []"
| "load_files content behind (n # ns) =
     rbind (my_context_new content behind n) (\<lambda>f. rbind (load_files content behind ns) (\<lambda>fs. Inr (f # fs)))"

definition combine_files :: "works \<Rightarrow> nat \<Rightarrow> works cres" where
  "combine_files w i =
     rbind (get_file w i) (\<lambda>f1. rbind (get_file w (i - 1)) (\<lambda>f2.
     rbind (combine (f_arr f1) (f_size f1) (f_arr f2) (f_size f2)) (\<lambda>(sz, arr).
     Inr (put_file w i (f1\<lparr>f_arr := arr, f_size := sz\<rparr>)))))"

fun combine_all :: "nat \<Rightarrow> nat \<Rightarrow> works \<Rightarrow> works cres" where
  "combine_all i 0 w = Inr w"
| "combine_all i (Suc n) w = rbind (combine_files w i) (combine_all (i + 1) n)"

definition print_result :: "my_context \<Rightarrow> int list cres" where
  "print_result f = (if f_size f \<le> length (f_arr f) then Inr (take (f_size f) (f_arr f)) else Inl OutOfBounds)"

text \<open>
  main after its arguments are read: the latency, the number of coroutines and the names of the
  files give the numbers that are written to result.txt.
\<close>

definition sort_files ::
  "clock \<Rightarrow> (string \<Rightarrow> int list option) \<Rightarrow> (string \<Rightarrow> int list) \<Rightarrow> u64 \<Rightarrow> nat \<Rightarrow> string list \<Rightarrow> int list cres option" where
  "sort_files clk content behind latency num_cor names =
     (case load_files content behind names of
        Inl e \<Rightarrow> Some (Inl e)
      | Inr fs \<Rightarrow>
          (case coro_spawn (coroutine_func_f clk) 0 num_cor
                  (coro_sched_init \<lparr>files = map Some fs, lat = latency, readings = 1\<rparr>) of
             Inl e \<Rightarrow> Some (Inl e)
           | Inr st \<Rightarrow>
               Option.bind (coro_wait_all st) (\<lambda>r.
               Some (rbind r (\<lambda>(rs, st).
                 rbind (combine_all 1 (length names - 1) (world st)) (\<lambda>w.
                 rbind (get_file w (length names - 1)) print_result))))))"

text \<open>\<open>sscanf\<close> with the format \<open>%d\<close>: the end of the string, no number, or a number.\<close>

datatype scan = ScanEOF | ScanFail | ScanInt int

definition sscanf_int :: "string \<Rightarrow> scan" where
  "sscanf_int s =
     (case dropWhile isspace s of
        [] \<Rightarrow> ScanEOF
      | c # cs \<Rightarrow>
          let ds = (if c = CHR ''-'' \<or> c = CHR ''+'' then cs else c # cs)
          in case ds of
               [] \<Rightarrow> ScanFail
             | d # _ \<Rightarrow> if 48 \<le> (of_char d :: int) \<and> (of_char d :: int) \<le> 57 then ScanInt (atoi s) else ScanFail)"

text \<open>An argument that must be at least \<open>least\<close>; \<open>None\<close> is the exit with an error.\<close>

definition nat_arg :: "int \<Rightarrow> string \<Rightarrow> int option cres" where
  "nat_arg least s =
     (case sscanf_int s of
        ScanEOF \<Rightarrow> Inl UninitRead
      | ScanFail \<Rightarrow> Inr None
      | ScanInt v \<Rightarrow> Inr (if v < least then None else Some v))"

text \<open>The exit code and the numbers written, if the run gets so far.\<close>

definition sort_main ::
  "clock \<Rightarrow> (string \<Rightarrow> int list option) \<Rightarrow> (string \<Rightarrow> int list) \<Rightarrow> string list \<Rightarrow> (int \<times> int list option) cres option" where
  "sort_main clk content behind argv =
     (if length argv = 1 then Some (Inr (0, None))
      else if length argv < 4 then Some (Inr (1, None))
      else case nat_arg 0 (argv ! 1) of
             Inl e \<Rightarrow> Some (Inl e)
           | Inr None \<Rightarrow> Some (Inr (1, None))
           | Inr (Some latency) \<Rightarrow>
               (case nat_arg 1 (argv ! 2) of
                  Inl e \<Rightarrow> Some (Inl e)
                | Inr None \<Rightarrow> Some (Inr (1, None))
                | Inr (Some num_cor) \<Rightarrow>
                    Option.bind (sort_files clk content behind (word_of_int latency) (nat num_cor) (drop 3 argv)) (\<lambda>r.
                    Some (rbind r (\<lambda>out. Inr (0, Some out))))))"

end
