(* ===== verification/CoroSort_Spec.thy ===== *)
theory CoroSort_Spec
  imports CoroSort
begin

text \<open>
  What the sorting program of src/1/solution.c does: the invariant its coroutines keep (a file is
  sorted by the one coroutine that took it), that all of them end, what is written to the result,
  and the access behind the end of every array.
\<close>

section \<open>The invariant of the sorting program\<close>

lemma merge_lists_sort: "merge_lists (sort xs) (sort ys) = sort (xs @ ys)"
  by (rule properties_for_sort [symmetric]) (simp_all add: sorted_merge_lists)

text \<open>The array of a file after its first \<open>f_size + 1\<close> cells were sorted.\<close>

definition sorted_range :: "int list \<Rightarrow> nat \<Rightarrow> nat \<Rightarrow> int list" where
  "sorted_range xs l r = take l xs @ sort (seg xs l (r + 1)) @ drop (r + 1) xs"

definition file_done :: "my_context \<Rightarrow> int list" where
  "file_done f0 = sorted_range (f_arr f0) 0 (f_size f0)"

text \<open>
  The ghost value of a coroutine: how many files it has passed, and the file it works on with the
  present content of its array.
\<close>

type_synonym ghost = "nat \<times> (nat \<times> int list) option"

definition held :: "(nat \<Rightarrow> ghost) \<Rightarrow> nat \<Rightarrow> int list \<Rightarrow> bool" where
  "held own j x \<longleftrightarrow> (\<exists>a. snd (own a) = Some (j, x))"

definition file_ok :: "my_context \<Rightarrow> (int list \<Rightarrow> bool) \<Rightarrow> my_context \<Rightarrow> bool" where
  "file_ok f0 h f \<longleftrightarrow> f_size f = f_size f0 \<and> filename f = filename f0 \<and>
     (\<not> f_sorted f \<longrightarrow> f_arr f = f_arr f0 \<and> (\<forall>x. \<not> h x)) \<and>
     (\<forall>x. h x \<longrightarrow> f_arr f = x) \<and>
     (f_sorted f \<longrightarrow> (\<forall>x. \<not> h x) \<longrightarrow> f_arr f = file_done f0)"

definition file_fits :: "my_context \<Rightarrow> bool" where
  "file_fits f \<longleftrightarrow> \<not> f_sorted f \<and> f_size f < length (f_arr f) \<and> 2 * f_size f < 2 ^ 31"

definition sort_inv :: "my_context list \<Rightarrow> (nat \<Rightarrow> ghost) \<Rightarrow> works \<Rightarrow> bool" where
  "sort_inv fs0 own w \<longleftrightarrow> list_all file_fits fs0 \<and> length (files w) = length fs0 \<and>
     (\<forall>j < length fs0. \<exists>f. files w ! j = Some f \<and> file_ok (fs0 ! j) (held own j) f \<and> (\<forall>a. j < fst (own a) \<longrightarrow> f_sorted f)) \<and>
     (\<forall>a b j x y. snd (own a) = Some (j, x) \<longrightarrow> snd (own b) = Some (j, y) \<longrightarrow> a = b)"

lemma sort_inv_readings [simp]: "sort_inv fs0 own (w\<lparr>readings := n\<rparr>) = sort_inv fs0 own w"
  by (simp add: sort_inv_def)

lemma sort_inv_fileE:
  assumes "sort_inv fs0 own w" "j < length fs0"
  obtains f where "get_file w j = Inr f" "files w ! j = Some f" "file_ok (fs0 ! j) (held own j) f" "j < length (files w)"
    "file_fits (fs0 ! j)"
proof -
  from assms have "list_all file_fits fs0" "length (files w) = length fs0"
    "\<exists>f. files w ! j = Some f \<and> file_ok (fs0 ! j) (held own j) f" by (auto simp: sort_inv_def)
  with assms(2) that show thesis by (auto simp: get_file_def list_all_length)
qed

text \<open>A coroutine that holds no file or the file \<open>i\<close> changes this file and its ghost value.\<close>

lemma held_fun_upd: "held (own(a := g)) j x \<longleftrightarrow> snd g = Some (j, x) \<or> (\<exists>b. b \<noteq> a \<and> snd (own b) = Some (j, x))"
  by (auto simp: held_def)

lemma held_split: "held own j x \<longleftrightarrow> snd (own a) = Some (j, x) \<or> (\<exists>b. b \<noteq> a \<and> snd (own b) = Some (j, x))"
  by (auto simp: held_def)

lemma held_upd:
  assumes "snd (own a) = None \<or> (\<exists>x. snd (own a) = Some (i, x))" "snd g = None \<or> (\<exists>x. snd g = Some (i, x))" "j \<noteq> i"
  shows "held (own(a := g)) j = held own j"
  unfolding fun_eq_iff held_fun_upd held_split [of own _ _ a] using assms by auto

lemma sort_inv_alone:
  assumes "sort_inv fs0 own w" "snd (own a) = Some (i, xs)" "b \<noteq> a"
  shows "\<nexists>x. snd (own b) = Some (i, x)"
  using assms unfolding sort_inv_def by blast

lemma sort_inv_upd:
  assumes inv: "sort_inv fs0 own w" and i: "i < length fs0"
    and own: "snd (own a) = None \<or> (\<exists>x. snd (own a) = Some (i, x))"
    and g: "snd g = None \<or> (\<exists>x. snd g = Some (i, x))"
    and alone: "\<And>b. b \<noteq> a \<Longrightarrow> snd g \<noteq> None \<Longrightarrow> \<nexists>x. snd (own b) = Some (i, x)"
    and f: "file_ok (fs0 ! i) (held (own(a := g)) i) f" "f_sorted f"
    and passed: "\<And>j f. j < fst g \<Longrightarrow> j < length fs0 \<Longrightarrow> files w ! j = Some f \<Longrightarrow> j = i \<or> f_sorted f"
  shows "sort_inv fs0 (own(a := g)) (put_file w i f)"
proof -
  have len: "length (files w) = length fs0" and fits: "list_all file_fits fs0" using inv by (simp_all add: sort_inv_def)
  have "\<exists>f'. files (put_file w i f) ! j = Some f' \<and> file_ok (fs0 ! j) (held (own(a := g)) j) f' \<and>
      (\<forall>b. j < fst ((own(a := g)) b) \<longrightarrow> f_sorted f')" if j: "j < length fs0" for j
  proof (cases "j = i")
    case True
    with f i len show ?thesis by (simp add: put_file_def)
  next
    case False
    from inv j obtain f' where f': "files w ! j = Some f'" "file_ok (fs0 ! j) (held own j) f'"
      "\<And>b. j < fst (own b) \<Longrightarrow> f_sorted f'" by (auto simp: sort_inv_def)
    have "f_sorted f'" if "j < fst ((own(a := g)) b)" for b
      using f'(1) f'(3) [of b] passed [of j f'] j False that by (cases "b = a") auto
    with False f'(1,2) held_upd [of own a i g j, OF own g False] show ?thesis
      by (intro exI [of _ f'] conjI allI impI) (simp_all add: put_file_def)
  qed
  moreover have "b = c" if "snd ((own(a := g)) b) = Some (j, x)" "snd ((own(a := g)) c) = Some (j, y)" for b c j x y
  proof (cases "b = a \<or> c = a")
    case True
    with that g alone show ?thesis by (cases "b = c") (auto split: if_splits)
  next
    case False
    with that have "snd (own b) = Some (j, x)" "snd (own c) = Some (j, y)" by simp_all
    with sort_inv_alone [OF inv this(1), of c] show ?thesis by blast
  qed
  moreover have "length (files (put_file w i f)) = length fs0" using len by (simp add: put_file_def)
  ultimately show ?thesis using fits unfolding sort_inv_def by (intro conjI allI impI) blast+
qed

lemma sort_inv_passed:
  assumes "sort_inv fs0 own w" "j < fst (own a)" "j < length fs0" "files w ! j = Some f"
  shows "f_sorted f"
  using assms unfolding sort_inv_def by (metis option.inject)

lemma put_same: "files w ! i = Some f \<Longrightarrow> put_file w i f = w"
proof -
  assume "files w ! i = Some f"
  then have "(files w)[i := Some f] = files w" by (metis list_update_id)
  then show ?thesis by (simp add: put_file_def)
qed

lemma sort_inv_write:
  assumes "sort_inv fs0 own w" "own a = (n, Some (i, xs))" "i < length fs0" "files w ! i = Some f"
  shows "sort_inv fs0 (own(a := (n, Some (i, ys)))) (put_file w i (f\<lparr>f_arr := ys\<rparr>))"
proof (rule sort_inv_upd [OF assms(1,3)])
  have "held own i xs" using assms(2) by (auto simp: held_def intro: exI [of _ a])
  moreover have "file_ok (fs0 ! i) (held own i) f"
    using sort_inv_fileE [OF assms(1,3)] assms(4) by (metis option.inject)
  ultimately have f: "f_sorted f" "f_size f = f_size (fs0 ! i)" "filename f = filename (fs0 ! i)" by (auto simp: file_ok_def)
  have alone: "\<nexists>x. snd (own b) = Some (i, x)" if "b \<noteq> a" for b
    using sort_inv_alone [OF assms(1), of a i xs b] assms(2) that by simp
  then have "held (own(a := (n, Some (i, ys)))) i x \<longleftrightarrow> x = ys" for x by (auto simp: held_fun_upd)
  with f show "file_ok (fs0 ! i) (held (own(a := (n, Some (i, ys)))) i) (f\<lparr>f_arr := ys\<rparr>)"
    by (auto simp: file_ok_def)
  show "f_sorted (f\<lparr>f_arr := ys\<rparr>)" using f by simp
  show "\<nexists>x. snd (own b) = Some (i, x)" if "b \<noteq> a" for b using alone that .
  show "j = i \<or> f_sorted f'" if "j < fst (n, Some (i, ys))" "j < length fs0" "files w ! j = Some f'" for j f'
    using sort_inv_passed [OF assms(1), of j a f'] assms(2) that by simp
qed (simp_all add: assms(2))

text \<open>A coroutine takes a file, leaves it, or passes a file that was taken by another one.\<close>

lemma sort_inv_take:
  assumes "sort_inv fs0 own w" "own a = (i, None)" "i < length fs0" "files w ! i = Some f" "\<not> f_sorted f"
  shows "sort_inv fs0 (own(a := (i, Some (i, f_arr f)))) (put_file w i (f\<lparr>f_sorted := True\<rparr>))"
proof (rule sort_inv_upd [OF assms(1,3)])
  have ok: "file_ok (fs0 ! i) (held own i) f"
    using sort_inv_fileE [OF assms(1,3)] assms(4) by (metis option.inject)
  then have "\<not> held own i x" for x using assms(5) by (simp add: file_ok_def)
  then show free: "\<nexists>x. snd (own b) = Some (i, x)" for b by (auto simp: held_def)
  then have "held (own(a := (i, Some (i, f_arr f)))) i x \<longleftrightarrow> x = f_arr f" for x by (auto simp: held_fun_upd)
  with ok show "file_ok (fs0 ! i) (held (own(a := (i, Some (i, f_arr f)))) i) (f\<lparr>f_sorted := True\<rparr>)"
    by (auto simp: file_ok_def)
  show "j = i \<or> f_sorted f'" if "j < fst (i, Some (i, f_arr f))" "j < length fs0" "files w ! j = Some f'" for j f'
    using sort_inv_passed [OF assms(1), of j a f'] assms(2) that by simp
qed (simp_all add: assms(2))

lemma sort_inv_leave:
  assumes "sort_inv fs0 own w" "own a = (i, Some (i, file_done (fs0 ! i)))" "i < length fs0"
  shows "sort_inv fs0 (own(a := (i + 1, None))) w"
proof -
  from sort_inv_fileE [OF assms(1,3)] obtain f where f: "files w ! i = Some f" "file_ok (fs0 ! i) (held own i) f" by metis
  have "held own i (file_done (fs0 ! i))" using assms(2) by (auto simp: held_def intro: exI [of _ a])
  then have arr: "f_arr f = file_done (fs0 ! i)" and srt: "f_sorted f" using f(2) by (auto simp: file_ok_def)
  have alone: "\<nexists>x. snd (own b) = Some (i, x)" if "b \<noteq> a" for b
    using sort_inv_alone [OF assms(1) _ that] assms(2) by simp
  have "sort_inv fs0 (own(a := (i + 1, None))) (put_file w i f)"
  proof (rule sort_inv_upd [OF assms(1,3)])
    have "\<not> held (own(a := (i + 1, None))) i x" for x using alone by (auto simp: held_fun_upd)
    then show "file_ok (fs0 ! i) (held (own(a := (i + 1, None))) i) f"
      using f(2) arr srt by (auto simp: file_ok_def)
    show "j = i \<or> f_sorted f'" if "j < fst (i + 1, None)" "j < length fs0" "files w ! j = Some f'" for j f'
      using sort_inv_passed [OF assms(1), of j a f'] assms(2) that by (cases "j = i") simp_all
  qed (use srt in \<open>simp_all add: assms(2)\<close>)
  then show ?thesis using put_same [OF f(1)] by simp
qed

lemma sort_inv_pass:
  assumes "sort_inv fs0 own w" "own a = (i, None)" "i < length fs0" "files w ! i = Some f" "f_sorted f"
  shows "sort_inv fs0 (own(a := (i + 1, None))) w"
proof -
  have "sort_inv fs0 (own(a := (i + 1, None))) (put_file w i f)"
  proof (rule sort_inv_upd [OF assms(1,3)])
    have "held (own(a := (i + 1, None))) i = held own i"
      unfolding fun_eq_iff held_fun_upd held_split [of own _ _ a] using assms(2) by simp
    then show "file_ok (fs0 ! i) (held (own(a := (i + 1, None))) i) f"
      using sort_inv_fileE [OF assms(1,3)] assms(4) by (metis option.inject)
    show "j = i \<or> f_sorted f'" if "j < fst (i + 1, None)" "j < length fs0" "files w ! j = Some f'" for j f'
      using sort_inv_passed [OF assms(1), of j a f'] assms(2) that by (cases "j = i") simp_all
  qed (simp_all add: assms(2,5))
  then show ?thesis using put_same [OF assms(4)] by simp
qed

section \<open>The computations keep the invariant\<close>

lemma sorted_range_append:
  assumes "length A = l" "l + length B = r + 1"
  shows "sorted_range (A @ B @ C) l r = A @ sort B @ C"
  using assms by (simp add: sorted_range_def seg_def)

lemma length_sorted_range [simp]: "l \<le> r \<Longrightarrow> r < length xs \<Longrightarrow> length (sorted_range xs l r) = length xs"
  by (simp add: sorted_range_def)

lemma list_splitE:
  assumes "l \<le> k" "k \<le> m" "m \<le> length xs"
  obtains A B C D where "xs = A @ B @ C @ D" "length A = l" "l + length B = k" "k + length C = m"
proof (rule that)
  have "drop l xs = take (k - l) (drop l xs) @ drop k xs" "drop k xs = take (m - k) (drop k xs) @ drop m xs"
    using append_take_drop_id [of "k - l" "drop l xs"] append_take_drop_id [of "m - k" "drop k xs"] assms by simp_all
  then show "xs = take l xs @ take (k - l) (drop l xs) @ take (m - k) (drop k xs) @ drop m xs"
    by (metis append_take_drop_id)
qed (use assms in simp_all)

lemma merge_sorted_halves:
  assumes "l < r" "r < length xs" "l + r < 2 ^ 31"
  shows "merge (sorted_range (sorted_range xs l ((l + r) div 2)) ((l + r) div 2 + 1) r) l r = Inr (sorted_range xs l r)"
proof -
  let ?m = "(l + r) div 2"
  have "l \<le> ?m + 1" "?m + 1 \<le> r + 1" "r + 1 \<le> length xs" using assms by auto
  then obtain A B C D where xs: "xs = A @ B @ C @ D" "length A = l" "l + length B = ?m + 1" "?m + 1 + length C = r + 1"
    by (rule list_splitE)
  have "sorted_range xs l ?m = (A @ sort B) @ C @ D"
    unfolding xs(1) using sorted_range_append [OF xs(2), of B ?m "C @ D"] xs(3) by simp
  then have two: "sorted_range (sorted_range xs l ?m) (?m + 1) r = A @ sort B @ sort C @ D"
    using sorted_range_append [of "A @ sort B" "?m + 1" C r D] xs(2-4) by simp
  have one: "sorted_range xs l r = A @ sort (B @ C) @ D"
    unfolding xs(1) using sorted_range_append [OF xs(2), of "B @ C" r D] xs(3,4) by simp
  have "merge (A @ sort B @ sort C @ D) l r = Inr (A @ merge_lists (sort B) (sort C) @ D)"
    using merge_ok [of l r "A @ sort B @ sort C @ D"] assms xs by (simp add: seg_def)
  then show ?thesis unfolding two one merge_lists_sort .
qed

lemma to_yield_good:
  assumes "sort_inv fs0 own w"
  shows "good (sort_inv fs0) (\<lambda>_ g. g = own a) a (to_yield clk cd w) own"
proof (cases "to_ms (clk (readings w)) - to_ms (start cd) > lat w")
  case True
  let ?w = "w\<lparr>readings := readings w + 1\<rparr>"
  have "good (sort_inv fs0) (\<lambda>_ g. g = own a) a (co_bind (yield_here ?w) (\<lambda>_ w. Ret (h w) (w\<lparr>readings := k w\<rparr>))) own" for h k
    by (rule good_bind [OF good_yieldI]) (use assms in \<open>simp_all add: good_RetI del: good.simps\<close>)
  then show ?thesis using True by (simp add: to_yield_def clock_gettime_def Let_def)
next
  case False
  then show ?thesis using assms by (simp add: to_yield_def clock_gettime_def good_RetI del: good.simps)
qed

lemma merge_file_good:
  assumes "sort_inv fs0 own w" "own a = (n, Some (i, xs))" "i < length fs0" "merge xs l r = Inr ys"
  shows "good (sort_inv fs0) (\<lambda>_ g. g = (n, Some (i, ys))) a (co_lift (merge_file i l r w)) own"
proof -
  from sort_inv_fileE [OF assms(1,3)] obtain f where f: "get_file w i = Inr f" "files w ! i = Some f" "file_ok (fs0 ! i) (held own i) f"
    by metis
  have "held own i xs" using assms(2) by (auto simp: held_def intro: exI [of _ a])
  then have "f_arr f = xs" using f(3) by (auto simp: file_ok_def)
  then show ?thesis using sort_inv_write [OF assms(1-3) f(2), of ys] f(1) assms(4)
    by (simp add: merge_file_def del: fun_upd_apply)
qed

lemma sorting_good:
  assumes "sort_inv fs0 own w" "own a = (n, Some (i, xs))" "i < length fs0" "l \<le> r" "r < length xs" "2 * r < 2 ^ 31"
  shows "good (sort_inv fs0) (\<lambda>_ g. g = (n, Some (i, sorted_range xs l r))) a (sorting clk cd i l r w) own"
  using assms
proof (induction "r - l" arbitrary: cd l r w own xs rule: less_induct)
  case less
  note inv = less.prems(1) and own = less.prems(2) and i = less.prems(3)
  show ?case
  proof (cases "l = r")
    case True
    have "sorted_range xs r r = xs" using less.prems(5) id_take_nth_drop [of r xs]
      by (simp add: sorted_range_def seg_Cons)
    with True own inv show ?thesis by (simp add: sorting.simps [of _ _ _ r r] good_RetI del: good.simps)
  next
    case False
    let ?m = "(l + r) div 2"
    let ?xs1 = "sorted_range xs l ?m" and ?xs2 = "sorted_range (sorted_range xs l ?m) (?m + 1) r"
    have lr: "l < r" "l + r < 2 ^ 31" using False less.prems(4,6) by simp_all
    have m: "?m - l < r - l" "r - (?m + 1) < r - l" "l \<le> ?m" "?m + 1 \<le> r" "?m < r" using lr by auto
    have len: "?m < length xs" "r < length ?xs1" "2 * ?m < 2 ^ 31" using m less.prems(4-6) by auto
    have left: "good (sort_inv fs0) (\<lambda>_ g. g = (n, Some (i, ?xs1))) a (sorting clk cd i l ?m w) own"
      using less.hyps [OF m(1) inv own i m(3) len(1,3)] .
    have right: "good (sort_inv fs0) (\<lambda>_ g. g = (n, Some (i, ?xs2))) a (sorting clk cd i (?m + 1) r w) own"
      if "sort_inv fs0 own w" "own a = (n, Some (i, ?xs1))" for cd w own
      using less.hyps [OF m(2) that i m(4) len(2) less.prems(6)] .
    have both: "good (sort_inv fs0) (\<lambda>_ g. g = (n, Some (i, sorted_range xs l r))) a (co_lift (merge_file i l r w)) own"
      if "sort_inv fs0 own w" "own a = (n, Some (i, ?xs2))" for w own
      using merge_file_good [OF that i merge_sorted_halves [OF lr(1) less.prems(5) lr(2)]] .
    have "good (sort_inv fs0) (\<lambda>_ g. g = (n, Some (i, sorted_range xs l r))) a
       (co_bind (sorting clk cd i l ?m w) (\<lambda>cd w. co_bind (to_yield clk cd w) (\<lambda>cd w.
        co_bind (sorting clk cd i (?m + 1) r w) (\<lambda>cd w. co_bind (to_yield clk cd w) (\<lambda>cd w.
        co_bind (co_lift (merge_file i l r w)) (\<lambda>_ w. Ret cd w)))))) own"
      apply (rule good_bind [OF left])
      apply (rule good_bind [OF to_yield_good], assumption)
      apply (rule good_bind [OF right], assumption, simp)
      apply (rule good_bind [OF to_yield_good], assumption)
      apply (rule good_bind [OF both], assumption, simp)
      apply (rule good_RetI, assumption, assumption)
      done
    then show ?thesis using lr by (subst sorting.simps) (simp add: Let_def)
  qed
qed

lemma files_loop_good:
  assumes "sort_inv fs0 own w" "own a = (i, None)" "i + n = length fs0"
  shows "good (sort_inv fs0) (\<lambda>_ g. g = (length fs0, None)) a (files_loop clk cd i n w) own"
  using assms
proof (induction n arbitrary: cd i w own)
  case 0
  then show ?case by (simp add: good_RetI del: good.simps)
next
  case (Suc n)
  note inv = Suc.prems(1) and own = Suc.prems(2)
  let ?I = "sort_inv fs0" and ?Q = "\<lambda>_ g. g = (length fs0, None)"
  have i: "i < length fs0" "i + 1 + n = length fs0" using Suc.prems(3) by simp_all
  have next_file: "good ?I ?Q a (files_loop clk cd (i + 1) n w) own" if "?I (own(a := (i + 1, None))) w" for cd w own
    using Suc.IH [OF that _ i(2), of cd] by (simp del: fun_upd_apply add: fun_upd_same)
  from sort_inv_fileE [OF inv i(1)] obtain f where f: "files w ! i = Some f" "i < length (files w)"
    "file_ok (fs0 ! i) (held own i) f" "file_fits (fs0 ! i)" by metis
  show ?case
  proof (cases "f_sorted f")
    case True
    with next_file [OF sort_inv_pass [OF inv own i(1) f(1) True]] f(1,2) show ?thesis by simp
  next
    case False
    let ?w = "put_file w i (f\<lparr>f_sorted := True\<rparr>)" and ?own = "own(a := (i, Some (i, f_arr (fs0 ! i))))"
    have arr: "f_arr f = f_arr (fs0 ! i)" using f(3) False by (simp add: file_ok_def)
    have taken: "?I ?own ?w" using sort_inv_take [OF inv own i(1) f(1) False] arr by simp
    have after: "good ?I ?Q a (case get_file w i of Inl e \<Rightarrow> Fail e | Inr f \<Rightarrow>
          co_bind (sorting clk cd i 0 (f_size f) w) (\<lambda>cd w. co_bind (to_yield clk cd w) (\<lambda>cd w.
          files_loop clk cd (i + 1) n w))) own"
      if "?I own w" "own a = (i, Some (i, f_arr (fs0 ! i)))" for cd w own
    proof -
      from sort_inv_fileE [OF that(1) i(1)] obtain f' where f': "get_file w i = Inr f'" "f_size f' = f_size (fs0 ! i)"
        by (metis file_ok_def)
      have "good ?I (\<lambda>_ g. g = (i, Some (i, file_done (fs0 ! i)))) a (sorting clk cd i 0 (f_size (fs0 ! i)) w) own"
        using sorting_good [OF that i(1), of 0 "f_size (fs0 ! i)"] f(4) by (simp add: file_fits_def file_done_def)
      then have "good ?I ?Q a (co_bind (sorting clk cd i 0 (f_size (fs0 ! i)) w) (\<lambda>cd w. co_bind (to_yield clk cd w) (\<lambda>cd w.
          files_loop clk cd (i + 1) n w))) own"
        apply (rule good_bind)
        apply (rule good_bind [OF to_yield_good], assumption)
        apply (rule next_file, rule sort_inv_leave [OF _ _ i(1)], assumption, simp)
        done
      then show ?thesis using f' by simp
    qed
    have "good ?I ?Q a (co_bind (yield_here ?w) (\<lambda>_ w. case get_file (w\<lparr>readings := Suc (readings w)\<rparr>) i of Inl e \<Rightarrow> Fail e | Inr f \<Rightarrow>
          co_bind (sorting clk (cd\<lparr>start := clk (readings w)\<rparr>) i 0 (f_size f) (w\<lparr>readings := Suc (readings w)\<rparr>)) (\<lambda>cd w.
          co_bind (to_yield clk cd w) (\<lambda>cd w. files_loop clk cd (i + 1) n w)))) ?own"
      by (rule good_bind [OF good_yieldI [where I = ?I and own = ?own and a = a, OF taken]], rule after) simp_all
    then show ?thesis using f(1,2) False by (simp add: clock_gettime_def Let_def del: fun_upd_apply)
  qed
qed

lemma coroutine_good:
  assumes "sort_inv fs0 own w" "own a = (0, None)"
  shows "good (sort_inv fs0) (\<lambda>v g. v = 0 \<and> g = (length fs0, None)) a (coroutine_func_f clk i w) own"
proof -
  have len: "length (files w) = length fs0" using assms(1) by (simp add: sort_inv_def)
  have "good (sort_inv fs0) (\<lambda>v g. v = 0 \<and> g = (length fs0, None)) a
     (co_bind (files_loop clk cd 0 (length fs0) (w\<lparr>readings := readings w + 1\<rparr>)) (\<lambda>cd w. Ret 0 (w\<lparr>readings := readings w + 1\<rparr>))) own" for cd
    by (rule good_bind [OF files_loop_good]) (use assms in \<open>simp_all add: good_RetI del: good.simps\<close>)
  then show ?thesis using len by (simp add: coroutine_func_f_def clock_gettime_def)
qed

interpretation sort_coros: cooperative "sort_inv fs0" "\<lambda>v g. v = 0 \<and> g = (length fs0, None)" "(0, None)" "coroutine_func_f clk"
  for fs0 clk
  by unfold_locales (rule coroutine_good)

section \<open>What the program computes\<close>

definition sorted_file :: "my_context \<Rightarrow> my_context" where
  "sorted_file f = f\<lparr>f_arr := file_done f, f_sorted := True\<rparr>"

lemma sort_inv_start:
  assumes "list_all file_fits fs"
  shows "sort_inv fs (\<lambda>_. (0, None)) \<lparr>files = map Some fs, lat = l, readings = k\<rparr>"
  using assms by (auto simp: sort_inv_def file_ok_def held_def list_all_length file_fits_def)

lemma sort_inv_end:
  assumes "sort_inv fs own w" "own a = (length fs, None)" "\<And>b. snd (own b) = None"
  shows "files w = map (Some \<circ> sorted_file) fs"
proof (rule nth_equalityI)
  show len: "length (files w) = length (map (Some \<circ> sorted_file) fs)" using assms(1) by (simp add: sort_inv_def)
  fix j
  assume "j < length (files w)"
  then have j: "j < length fs" using len by simp
  from sort_inv_fileE [OF assms(1) j] obtain f where f: "files w ! j = Some f" "file_ok (fs ! j) (held own j) f" by metis
  have "f_sorted f" using sort_inv_passed [OF assms(1) _ j f(1), of a] assms(2) j by simp
  with f(2) assms(3) have "f = sorted_file (fs ! j)"
    by (cases f) (auto simp: file_ok_def held_def sorted_file_def)
  with f(1) j show "files w ! j = map (Some \<circ> sorted_file) fs ! j" by simp
qed

lemma sort_coroutines_finish_lemma:
  assumes "list_all file_fits fs" and "0 < n"
  shows "\<exists>st rs st'. coro_spawn (coroutine_func_f clk) 0 n (coro_sched_init \<lparr>files = map Some fs, lat = l, readings = k\<rparr>) = Inr st \<and>
    coro_wait_all st = Some (Inr (rs, st')) \<and> length rs = n \<and> distinct (map fst rs) \<and> (\<forall>r \<in> set rs. snd r = 0) \<and>
    coro_list st' = None \<and> files (world st') = map (Some \<circ> sorted_file) fs"
proof -
  from sort_coros.run_all [OF sort_inv_start [OF assms(1), of l k] refl, where n = n and clk = clk] obtain st rs st' own where
    r: "coro_spawn (coroutine_func_f clk) 0 n (coro_sched_init \<lparr>files = map Some fs, lat = l, readings = k\<rparr>) = Inr st"
      "coro_wait_all st = Some (Inr (rs, st'))" "length rs = n" "distinct (map fst rs)"
      "\<forall>(a, v) \<in> set rs. v = 0 \<and> own a = (length fs, None)" "sort_inv fs own (world st')"
      "\<forall>a. a \<notin> fst ` set rs \<longrightarrow> own a = (0, None)" "coro_list st' = None" by auto
  obtain a v where "(a, v) \<in> set rs" using r(3) assms(2) by (cases rs) auto
  with r(5) have "own a = (length fs, None)" by blast
  moreover have "snd (own b) = None" for b using r(5,7) by (cases "b \<in> fst ` set rs") fastforce+
  ultimately have "files (world st') = map (Some \<circ> sorted_file) fs" using sort_inv_end [OF r(6)] by blast
  with r show ?thesis by fastforce
qed


definition demo_clock :: clock where
  "demo_clock n = \<lparr>tv_sec = of_nat n, tv_nsec = 0\<rparr>"


text \<open>The numbers that end up in the first \<open>f_size\<close> cells of a file whose array is followed by \<open>g\<close>.\<close>

definition kept :: "int list \<Rightarrow> int \<Rightarrow> int list" where
  "kept nums g = take (length nums) (sort (nums @ [g]))"

lemma sorted_kept: "sorted (kept nums g)" "length (kept nums g) = length nums"
  by (simp_all add: kept_def sorted_wrt_take)

lemma kept_bigger:
  assumes "\<forall>x \<in> set nums. x \<le> g"
  shows "kept nums g = sort nums"
proof -
  have "sort (nums @ [g]) = sort nums @ [g]"
    by (rule properties_for_sort) (use assms in \<open>auto simp: sorted_append\<close>)
  then show ?thesis by (simp add: kept_def)
qed

lemma combine_files_ok:
  assumes "files w ! i = Some f1" "files w ! (i - 1) = Some f2" "i < length (files w)"
    and "f_size f1 \<le> length (f_arr f1)" "f_size f2 \<le> length (f_arr f2)" "f_size f1 + f_size f2 < 2 ^ 31"
  shows "combine_files w i = Inr (put_file w i (f1\<lparr>f_arr := merge_lists (take (f_size f1) (f_arr f1)) (take (f_size f2) (f_arr f2)),
    f_size := f_size f1 + f_size f2\<rparr>))"
  using assms combine_ok [OF assms(4-6)] by (simp add: combine_files_def get_file_def)

definition file_nums :: "my_context \<Rightarrow> int list" where
  "file_nums f = take (f_size f) (f_arr f)"

lemma file_nums_upd [simp]: "file_nums (g\<lparr>f_arr := xs, f_size := n\<rparr>) = take n xs"
  by (simp add: file_nums_def)

lemma combine_all_ok:
  assumes "i < length (files w)" "files w ! i = Some f" "length (file_nums f) = f_size f" "sorted (file_nums f)"
    and "drop (Suc i) (files w) = map Some gs" "\<And>g. g \<in> set gs \<Longrightarrow> length (file_nums g) = f_size g \<and> sorted (file_nums g)"
    and "f_size f + sum_list (map f_size gs) < 2 ^ 31"
  shows "\<exists>w' f'. combine_all (i + 1) (length gs) w = Inr w' \<and> get_file w' (i + length gs) = Inr f' \<and>
    print_result f' = Inr (sort (concat (map file_nums (f # gs))))"
  using assms
proof (induction gs arbitrary: i w f)
  case Nil
  then show ?case by (auto simp: get_file_def print_result_def file_nums_def sort_key_id_if_sorted)
next
  case (Cons g gs)
  have len: "i + 1 < length (files w)"
    using Cons.prems(5) by (metis Suc_eq_plus1 drop_eq_Nil list.simps(3,9) not_le)
  have g: "files w ! (i + 1) = Some g" "drop (Suc (i + 1)) (files w) = map Some gs"
    using Cons.prems(5) len by (auto simp: Cons_nth_drop_Suc [symmetric])
  let ?g = "g\<lparr>f_arr := merge_lists (file_nums g) (file_nums f), f_size := f_size g + f_size f\<rparr>"
  have sz: "length (file_nums g) = f_size g" "sorted (file_nums g)" using Cons.prems(6) [of g] by simp_all
  have le: "f_size g \<le> length (f_arr g)" "f_size f \<le> length (f_arr f)"
    using sz(1) Cons.prems(3) by (simp_all add: file_nums_def min_def split: if_splits)
  have step: "combine_files w (i + 1) = Inr (put_file w (i + 1) ?g)"
    using combine_files_ok [OF g(1) _ len le(1) le(2)] Cons.prems(2,7) by (simp add: file_nums_def)
  have nums: "file_nums ?g = sort (file_nums g @ file_nums f)"
    using sz Cons.prems(3,4) merge_lists_sort [of "file_nums g" "file_nums f"]
    by (simp add: sort_key_id_if_sorted)
  let ?w = "put_file w (i + 1) ?g"
  have "\<exists>w' f'. combine_all (i + 1 + 1) (length gs) ?w = Inr w' \<and> get_file w' (i + 1 + length gs) = Inr f' \<and>
    print_result f' = Inr (sort (concat (map file_nums (?g # gs))))"
  proof (rule Cons.IH)
    show "i + 1 < length (files ?w)" "files ?w ! (i + 1) = Some ?g" using len by (simp_all add: put_file_def)
    show "length (file_nums ?g) = f_size ?g" "sorted (file_nums ?g)"
      unfolding nums using sz Cons.prems(3) by simp_all
    show "drop (Suc (i + 1)) (files ?w) = map Some gs" using g(2) by (simp add: put_file_def)
  qed (use Cons.prems(6,7) in auto)
  moreover have "sort (concat (map file_nums (?g # gs))) = sort (concat (map file_nums (f # g # gs)))"
    using sz(1) Cons.prems(3) by (intro properties_for_sort) simp_all
  ultimately show ?case using step by simp
qed

lemma load_files_ok:
  assumes "\<And>n. n \<in> set names \<Longrightarrow> content n = Some (nums n)"
  shows "load_files content behind names =
    Inr (map (\<lambda>n. \<lparr>filename = n, f_arr = nums n @ behind n, f_size = length (nums n), f_sorted = False\<rparr>) names)"
  using assms by (induction names) (simp_all add: my_context_new_def)

lemma file_nums_sorted:
  assumes "b \<noteq> []"
  shows "file_nums (sorted_file \<lparr>filename = n, f_arr = xs @ b, f_size = length xs, f_sorted = s\<rparr>) = kept xs (hd b)"
  using assms by (cases b) (simp_all add: file_nums_def sorted_file_def file_done_def sorted_range_def seg_def kept_def)



section \<open>The cell behind the array\<close>

text \<open>A computation that cannot return as long as \<open>P\<close> holds whenever it is resumed, but fails.\<close>

primrec overruns :: "('s \<Rightarrow> bool) \<Rightarrow> ('s, 'a) co \<Rightarrow> bool" where
  "overruns P (Ret v s) = False"
| "overruns P (Pause s k) = (\<forall>s'. P s' \<longrightarrow> overruns P (k s'))"
| "overruns P (Fail e) = (e = OutOfBounds)"

text \<open>A computation that keeps \<open>P\<close> or fails in the same way.\<close>

primrec keeps :: "('s \<Rightarrow> bool) \<Rightarrow> ('s, 'a) co \<Rightarrow> bool" where
  "keeps P (Ret v s) = P s"
| "keeps P (Pause s k) = (\<forall>s'. P s' \<longrightarrow> keeps P (k s'))"
| "keeps P (Fail e) = (e = OutOfBounds)"

lemma keeps_bind: "keeps P r \<Longrightarrow> (\<And>v s. P s \<Longrightarrow> keeps P (f v s)) \<Longrightarrow> keeps P (co_bind r f)"
  by (induction r) auto

lemma overruns_bind: "keeps P r \<Longrightarrow> (\<And>v s. P s \<Longrightarrow> overruns P (f v s)) \<Longrightarrow> overruns P (co_bind r f)"
  by (induction r) auto

lemma overruns_bind_left: "overruns P r \<Longrightarrow> overruns P (co_bind r f)"
  by (induction r) auto

definition file_len :: "nat \<Rightarrow> nat \<Rightarrow> works \<Rightarrow> bool" where
  "file_len i n w \<longleftrightarrow> (\<exists>f. i < length (files w) \<and> files w ! i = Some f \<and> length (f_arr f) = n)"

lemma file_len_readings [simp]: "file_len i n (w\<lparr>readings := k\<rparr>) = file_len i n w"
  by (simp add: file_len_def)

lemma to_yield_keeps: "file_len i n w \<Longrightarrow> keeps (file_len i n) (to_yield clk cd w)"
  by (simp add: to_yield_def clock_gettime_def yield_here_def Let_def)

lemma merge_file_keeps:
  assumes "file_len i n w" "l < r" "r < n" "l + r < 2 ^ 31"
  shows "keeps (file_len i n) (co_lift (merge_file i l r w))"
proof -
  from assms(1) obtain f where f: "i < length (files w)" "files w ! i = Some f" "length (f_arr f) = n" by (auto simp: file_len_def)
  from merge_ok [of l r "f_arr f"] obtain ys where "merge (f_arr f) l r = Inr ys" "length ys = n"
    using f assms(2-4) by auto
  with f show ?thesis by (simp add: merge_file_def get_file_def put_file_def file_len_def)
qed

lemma sorting_keeps:
  assumes "file_len i n w" "l \<le> r" "r < n" "2 * r < 2 ^ 31"
  shows "keeps (file_len i n) (sorting clk cd i l r w)"
  using assms
proof (induction "r - l" arbitrary: cd l r w rule: less_induct)
  case less
  show ?case
  proof (cases "l = r")
    case True
    with less.prems(1) show ?thesis by (simp add: sorting.simps [of _ _ _ r r])
  next
    case False
    let ?m = "(l + r) div 2"
    have lr: "l < r" "l + r < 2 ^ 31" using False less.prems(2,4) by simp_all
    have m: "?m - l < r - l" "r - (?m + 1) < r - l" "l \<le> ?m" "?m + 1 \<le> r" "?m < n" "2 * ?m < 2 ^ 31"
      using lr less.prems(3,4) by auto
    have "keeps (file_len i n) (co_bind (sorting clk cd i l ?m w) (\<lambda>cd w. co_bind (to_yield clk cd w) (\<lambda>cd w.
        co_bind (sorting clk cd i (?m + 1) r w) (\<lambda>cd w. co_bind (to_yield clk cd w) (\<lambda>cd w.
        co_bind (co_lift (merge_file i l r w)) (\<lambda>_ w. Ret cd w))))))"
      apply (rule keeps_bind [OF less.hyps [OF m(1) less.prems(1) m(3,5,6)]])
      apply (rule keeps_bind [OF to_yield_keeps], assumption)
      apply (rule keeps_bind [OF less.hyps [OF m(2) _ m(4) less.prems(3,4)]], assumption)
      apply (rule keeps_bind [OF to_yield_keeps], assumption)
      apply (rule keeps_bind [OF merge_file_keeps [OF _ lr(1) less.prems(3) lr(2)]], assumption)
      apply simp
      done
    then show ?thesis using lr by (subst sorting.simps) (simp add: Let_def)
  qed
qed

lemma merge_loop_overruns:
  assumes "r = length arr" "mid < r" "p2 \<le> r" "length answer = position + (mid + 1 - p1) + (r + 1 - p2)"
  shows "merge_loop arr mid r p1 p2 position answer = Inl OutOfBounds"
  using assms
proof (induction "(mid + 1 - p1) + (r + 1 - p2)" arbitrary: p1 p2 position answer rule: less_induct)
  case less
  note IH = less.hyps and prems = less.prems
  have s1: "p1 \<le> mid \<Longrightarrow> merge_loop arr mid r (p1 + 1) p2 (position + 1) (answer[position := arr ! p1]) = Inl OutOfBounds"
    using IH [of "p1 + 1" p2 "answer[position := arr ! p1]" "position + 1"] prems by simp
  have s2: "p2 < r \<Longrightarrow> merge_loop arr mid r p1 (p2 + 1) (position + 1) (answer[position := arr ! p2]) = Inl OutOfBounds"
    using IH [of p1 "p2 + 1" "answer[position := arr ! p2]" "position + 1"] prems by simp
  have s3: "p2 = r \<Longrightarrow> assign answer position arr p2 = Inl OutOfBounds" "p2 = r \<Longrightarrow> arr_get arr p2 = Inl OutOfBounds"
    using prems(1) by (simp_all add: assign_def arr_get_def)
  show ?case
  proof (cases "p2 = r")
    case True
    with s3 prems show ?thesis by (subst merge_loop.simps) auto
  next
    case False
    with s1 s2 prems show ?thesis by (subst merge_loop.simps) auto
  qed
qed

lemma merge_overruns:
  assumes "0 < length arr" "l < length arr" "l + length arr < 2 ^ 31"
  shows "merge arr l (length arr) = Inl OutOfBounds"
proof -
  let ?m = "(l + length arr) div 2" and ?ans = "malloc_ints (length arr - l + 1)"
  have "?m < length arr" "?m + 1 \<le> length arr" "length ?ans = 0 + (?m + 1 - l) + (length arr + 1 - (?m + 1))"
    using assms by (auto simp: malloc_ints_def)
  from merge_loop_overruns [OF refl this] show ?thesis using assms(3) by (simp add: merge_def Let_def)
qed

lemma merge_file_overruns:
  assumes "file_len i n w" "l < n" "l + n < 2 ^ 31"
  shows "co_lift (merge_file i l n w) = Fail OutOfBounds"
proof -
  from assms(1) obtain f where f: "i < length (files w)" "files w ! i = Some f" "length (f_arr f) = n" by (auto simp: file_len_def)
  with merge_overruns [of "f_arr f" l] assms(2,3) show ?thesis by (simp add: merge_file_def get_file_def)
qed

text \<open>
  The call main makes, \<open>sorting(arr, 0, size)\<close>, leaves an array of exactly \<open>size > 0\<close> cells: for
  every clock and every way the other coroutines run in between, the call does not return but
  reads or writes the cell \<open>arr[size]\<close>.
\<close>

theorem sorting_overruns:
  assumes "file_len i n w" "l < n" "2 * n < 2 ^ 31"
  shows "overruns (file_len i n) (sorting clk cd i l n w)"
  using assms
proof (induction "n - l" arbitrary: cd l w rule: less_induct)
  case less
  let ?m = "(l + n) div 2"
  have m: "n - (?m + 1) < n - l" "l \<le> ?m" "?m + 1 \<le> n" "?m < n" "2 * ?m < 2 ^ 31" "l + n < 2 ^ 31"
    using less.prems(2,3) by auto
  have last: "overruns (file_len i n) (co_bind (to_yield clk cd w) (\<lambda>cd w.
        co_bind (co_lift (merge_file i l n w)) (\<lambda>_ w. Ret cd w)))" if "file_len i n w" for cd w
    by (rule overruns_bind [OF to_yield_keeps [OF that]]) (simp add: merge_file_overruns [OF _ less.prems(2) m(6)])
  have right: "overruns (file_len i n) (co_bind (sorting clk cd i (?m + 1) n w) (\<lambda>cd w. co_bind (to_yield clk cd w) (\<lambda>cd w.
        co_bind (co_lift (merge_file i l n w)) (\<lambda>_ w. Ret cd w))))" if "file_len i n w" for cd w
  proof (cases "?m + 1 = n")
    case True
    have "sorting clk cd i n n w = Ret cd w" by (simp add: sorting.simps [of _ _ _ n n])
    with True last [OF that] show ?thesis by simp
  next
    case False
    then show ?thesis using less.hyps [OF m(1) that] m(3) less.prems(3) by (intro overruns_bind_left) auto
  qed
  have "overruns (file_len i n) (co_bind (sorting clk cd i l ?m w) (\<lambda>cd w. co_bind (to_yield clk cd w) (\<lambda>cd w.
        co_bind (sorting clk cd i (?m + 1) n w) (\<lambda>cd w. co_bind (to_yield clk cd w) (\<lambda>cd w.
        co_bind (co_lift (merge_file i l n w)) (\<lambda>_ w. Ret cd w))))))"
    apply (rule overruns_bind [OF sorting_keeps [OF less.prems(1) m(2,4,5)]])
    apply (rule overruns_bind [OF to_yield_keeps], assumption)
    apply (rule right, assumption)
    done
  then show ?case using less.prems(2) m(6) by (subst sorting.simps) (simp add: Let_def)
qed

theorem sorting_overruns_witness:
  "overruns (file_len 0 2) (sorting demo_clock \<lparr>coro_id = 0, start = demo_clock 0, total_time = 0\<rparr> 0 0 2
     \<lparr>files = [Some \<lparr>filename = ''a'', f_arr = [2, 1], f_size = 2, f_sorted = True\<rparr>], lat = 0, readings = 1\<rparr>)"
  by (rule sorting_overruns) (simp_all add: file_len_def)

end
