(* ===== verification/ThreadPool.thy ===== *)
theory ThreadPool
  imports Chat Complex_Main
begin

text \<open>
  The thread pool of src/4/thread_pool.c. A critical section, between the locking and the unlocking
  of a mutex, is one atomic step; a thread that waits on a condition variable can take its next
  step once the condition it waits for holds. The threads and the client interleave these steps
  in any order.
\<close>

section \<open>Data\<close>

datatype thread_pool_errcode =
    TPOOL_ERR_INVALID_ARGUMENT
  | TPOOL_ERR_TOO_MANY_TASKS
  | TPOOL_ERR_HAS_TASKS
  | TPOOL_ERR_TASK_NOT_PUSHED
  | TPOOL_ERR_TASK_IN_POOL
  | TPOOL_ERR_NOT_IMPLEMENTED
  | TPOOL_ERR_TIMEOUT

abbreviation (input) TPOOL_MAX_THREADS :: int where "TPOOL_MAX_THREADS \<equiv> 20"
abbreviation (input) TPOOL_MAX_TASKS :: int where "TPOOL_MAX_TASKS \<equiv> 100000"

text \<open>A task; its result is \<open>None\<close> until it was written.\<close>

record ('a, 'r) thread_task =
  t_function :: "'a \<Rightarrow> 'r"
  t_arg :: 'a
  t_result :: "'r option"
  pushed :: bool
  finished :: bool
  joined :: bool
  t_delete :: bool

text \<open>The pool; its queue holds the addresses of tasks.\<close>

record thread_pool =
  max_threads :: int
  run_threads :: int
  cnt_threads :: int
  tqueue :: "nat lqueue"
  shutdown :: bool

text \<open>
  Where a thread is between two critical sections: at the head of its loop, with a task it has
  taken, with the result of the task, with the result after it has left the running threads,
  or at its end.
\<close>

datatype 'r worker =
    W_Loop
  | W_Run nat
  | W_Ran nat 'r
  | W_Left nat 'r
  | W_Exit

text \<open>The pool and its threads with the tasks on the heap.\<close>

record ('a, 'r) tsys =
  pool :: thread_pool
  pool_freed :: bool
  workers :: "'r worker list"
  tasks :: "nat \<Rightarrow> ('a, 'r) thread_task option"
  fresh_task :: nat

section \<open>The queue of tasks\<close>

definition tasks_queue_add :: "'a lqueue \<Rightarrow> 'a \<Rightarrow> 'a lqueue cres" where
  "tasks_queue_add tq ts =
     (let new_elm = fresh_cell tq;
          tq = tq\<lparr>cells := (cells tq)(new_elm \<mapsto> (ts, None)), fresh_cell := new_elm + 1\<rparr>
      in if cnt tq = 0
         then Inr (tq\<lparr>first := Some new_elm, last_elm := Some new_elm, cnt := cnt tq + 1\<rparr>)
         else case last_elm tq of
                None \<Rightarrow> Inl NullDeref
              | Some l \<Rightarrow>
                  (case cells tq l of
                     None \<Rightarrow> Inl UseAfterFree
                   | Some (t, _) \<Rightarrow>
                       Inr (tq\<lparr>cells := (cells tq)(l \<mapsto> (t, Some new_elm)),
                              last_elm := Some new_elm, cnt := cnt tq + 1\<rparr>)))"

definition tasks_queue_pop :: "'a lqueue \<Rightarrow> ('a option \<times> 'a lqueue) cres" where
  "tasks_queue_pop tq =
     (if cnt tq = 0 then Inr (None, tq)
      else case first tq of
             None \<Rightarrow> Inl NullDeref
           | Some elm \<Rightarrow>
               (case cells tq elm of
                  None \<Rightarrow> Inl UseAfterFree
                | Some (ts, nx) \<Rightarrow>
                    let tq = tq\<lparr>cnt := cnt tq - 1\<rparr>;
                        tq = (if cnt tq = 0 then tq\<lparr>first := None, last_elm := None\<rparr> else tq\<lparr>first := nx\<rparr>)
                    in Inr (Some ts, tq\<lparr>cells := (cells tq)(elm := None)\<rparr>)))"

text \<open>This is the queue of the chat again, written a second time.\<close>

lemma tasks_queue_eq: "tasks_queue_add = queue_add" "tasks_queue_pop = queue_pop"
  by (intro ext, simp add: tasks_queue_add_def queue_add_def tasks_queue_pop_def queue_pop_def)+

interpretation task_queue: fifo_queue lqueue_ok lqueue_items lqueue_empty tasks_queue_add tasks_queue_pop
  unfolding tasks_queue_eq by (rule chat_queue.fifo_queue_axioms)

section \<open>The threads\<close>

definition get_task :: "('a, 'r) tsys \<Rightarrow> nat \<Rightarrow> ('a, 'r) thread_task cres" where
  "get_task s t = (case tasks s t of None \<Rightarrow> Inl UseAfterFree | Some ts \<Rightarrow> Inr ts)"

definition set_worker :: "nat \<Rightarrow> 'r worker \<Rightarrow> ('a, 'r) tsys \<Rightarrow> ('a, 'r) tsys" where
  "set_worker w st s = s\<lparr>workers := (workers s)[w := st]\<rparr>"

text \<open>
  The first critical section of the loop. \<open>None\<close>: the thread waits on the condition variable.
  Without a task the loop starts again.
\<close>

definition worker_take :: "nat \<Rightarrow> ('a, 'r) tsys \<Rightarrow> ('a, 'r) tsys cres option" where
  "worker_take w s =
     (if pool_freed s then Some (Inl UseAfterFree)
      else if cnt (tqueue (pool s)) = 0 \<and> \<not> shutdown (pool s) then None
      else if shutdown (pool s) then Some (Inr (set_worker w W_Exit s))
      else Some (
        rbind (tasks_queue_pop (tqueue (pool s))) (\<lambda>(task, q).
        let p = (pool s)\<lparr>tqueue := q\<rparr>
        in case task of
             None \<Rightarrow> Inr (s\<lparr>pool := p\<rparr>)
           | Some t \<Rightarrow> Inr (set_worker w (W_Run t) (s\<lparr>pool := p\<lparr>run_threads := run_threads p + 1\<rparr>\<rparr>)))))"

definition worker_call :: "nat \<Rightarrow> nat \<Rightarrow> ('a, 'r) tsys \<Rightarrow> ('a, 'r) tsys cres" where
  "worker_call w t s = rbind (get_task s t) (\<lambda>ts. Inr (set_worker w (W_Ran t (t_function ts (t_arg ts))) s))"

definition worker_leave :: "nat \<Rightarrow> nat \<Rightarrow> 'r \<Rightarrow> ('a, 'r) tsys \<Rightarrow> ('a, 'r) tsys cres" where
  "worker_leave w t r s =
     (if pool_freed s then Inl UseAfterFree
      else Inr (set_worker w (W_Left t r) (s\<lparr>pool := (pool s)\<lparr>run_threads := run_threads (pool s) - 1\<rparr>\<rparr>)))"

definition worker_finish :: "nat \<Rightarrow> nat \<Rightarrow> 'r \<Rightarrow> ('a, 'r) tsys \<Rightarrow> ('a, 'r) tsys cres" where
  "worker_finish w t r s =
     rbind (get_task s t) (\<lambda>ts.
     Inr (set_worker w W_Loop (s\<lparr>tasks := (tasks s)(t \<mapsto> ts\<lparr>t_result := Some r, finished := True\<rparr>)\<rparr>)))"

text \<open>One step of the thread \<open>w\<close>; \<open>None\<close> when it waits or has ended.\<close>

definition tpool_worker :: "nat \<Rightarrow> ('a, 'r) tsys \<Rightarrow> ('a, 'r) tsys cres option" where
  "tpool_worker w s =
     (case workers s ! w of
        W_Loop \<Rightarrow> worker_take w s
      | W_Run t \<Rightarrow> Some (worker_call w t s)
      | W_Ran t r \<Rightarrow> Some (worker_leave w t r s)
      | W_Left t r \<Rightarrow> Some (worker_finish w t r s)
      | W_Exit \<Rightarrow> None)"

section \<open>The interface of the pool\<close>

text \<open>
  A new pool. \<open>junk\<close> is what the fresh memory holds at \<open>run_threads\<close>, which is not initialised.
\<close>

definition thread_pool_new :: "int \<Rightarrow> int \<Rightarrow> thread_pool_errcode + thread_pool" where
  "thread_pool_new max_thread_count junk =
     (if max_thread_count > TPOOL_MAX_THREADS \<or> max_thread_count \<le> 0 then Inl TPOOL_ERR_INVALID_ARGUMENT
      else Inr \<lparr>max_threads = max_thread_count, run_threads = junk, cnt_threads = 0,
                tqueue = lqueue_empty, shutdown = False\<rparr>)"

definition thread_pool_thread_count :: "thread_pool \<Rightarrow> int" where
  "thread_pool_thread_count p = cnt_threads p"

text \<open>
  \<open>thread_pool_delete\<close>: its critical section, and the release of the memory once all threads
  have ended.
\<close>

definition thread_pool_delete :: "('a, 'r) tsys \<Rightarrow> thread_pool_errcode option \<times> ('a, 'r) tsys" where
  "thread_pool_delete s =
     (if run_threads (pool s) \<noteq> 0 \<or> cnt (tqueue (pool s)) \<noteq> 0 then (Some TPOOL_ERR_HAS_TASKS, s)
      else (None, s\<lparr>pool := (pool s)\<lparr>shutdown := True\<rparr>\<rparr>))"

definition thread_pool_delete_end :: "('a, 'r) tsys \<Rightarrow> ('a, 'r) tsys option" where
  "thread_pool_delete_end s =
     (if list_all (\<lambda>w. w = W_Exit) (workers s) then Some (s\<lparr>pool_freed := True\<rparr>) else None)"

definition thread_pool_push_task ::
  "('a, 'r) tsys \<Rightarrow> nat \<Rightarrow> (thread_pool_errcode option \<times> ('a, 'r) tsys) cres" where
  "thread_pool_push_task s t =
     (let p = pool s
      in if pool_freed s then Inl UseAfterFree
         else if cnt (tqueue p) = TPOOL_MAX_TASKS then Inr (Some TPOOL_ERR_TOO_MANY_TASKS, s)
         else rbind (tasks_queue_add (tqueue p) t) (\<lambda>q.
              rbind (get_task s t) (\<lambda>ts.
              let ts = ts\<lparr>pushed := True, joined := False, t_delete := False, finished := False\<rparr>;
                  p = p\<lparr>tqueue := q\<rparr>;
                  s = s\<lparr>tasks := (tasks s)(t \<mapsto> ts), pool := p\<rparr>
              in if cnt_threads p < max_threads p \<and> cnt_threads p = run_threads p
                 then Inr (None, s\<lparr>pool := p\<lparr>cnt_threads := cnt_threads p + 1\<rparr>, workers := workers s @ [W_Loop]\<rparr>)
                 else Inr (None, s))))"

section \<open>The interface of a task\<close>

definition thread_task_new :: "('a \<Rightarrow> 'r) \<Rightarrow> 'a \<Rightarrow> ('a, 'r) tsys \<Rightarrow> nat \<times> ('a, 'r) tsys" where
  "thread_task_new f x s =
     (fresh_task s,
      s\<lparr>tasks := (tasks s)(fresh_task s \<mapsto> \<lparr>t_function = f, t_arg = x, t_result = None, pushed = False,
          finished = False, joined = False, t_delete = False\<rparr>),
        fresh_task := fresh_task s + 1\<rparr>)"

definition thread_task_is_finished :: "('a, 'r) tsys \<Rightarrow> nat \<Rightarrow> bool cres" where
  "thread_task_is_finished s t = rbind (get_task s t) (\<lambda>ts. Inr (finished ts))"

definition thread_task_is_running :: "('a, 'r) tsys \<Rightarrow> nat \<Rightarrow> bool cres" where
  "thread_task_is_running s t = rbind (get_task s t) (\<lambda>ts. Inr (pushed ts))"

text \<open>\<open>thread_task_join\<close>; \<open>None\<close> while it waits. The result is \<open>None\<close> when it was never written.\<close>

definition thread_task_join ::
  "('a, 'r) tsys \<Rightarrow> nat \<Rightarrow> ((thread_pool_errcode + 'r option) \<times> ('a, 'r) tsys) cres option" where
  "thread_task_join s t =
     (case get_task s t of
        Inl e \<Rightarrow> Some (Inl e)
      | Inr ts \<Rightarrow>
          if \<not> pushed ts then Some (Inr (Inl TPOOL_ERR_TASK_NOT_PUSHED, s))
          else if \<not> finished ts then None
          else Some (Inr (Inr (t_result ts), s\<lparr>tasks := (tasks s)(t \<mapsto> ts\<lparr>joined := True\<rparr>)\<rparr>)))"

type_synonym time = "int \<times> int"

definition bigger :: "time \<Rightarrow> time \<Rightarrow> bool" where
  "bigger a b = (if fst a = fst b then snd a \<ge> snd b else fst a > fst b)"

definition timeout_time :: "time \<Rightarrow> rat \<Rightarrow> time" where
  "timeout_time now timeout = (fst now + \<lfloor>timeout\<rfloor>, snd now + \<lfloor>timeout * 1000000000\<rfloor> mod 1000000000)"

text \<open>
  The loop of \<open>thread_task_timed_join\<close> over what it finds each time it wakes up: the task and the
  time. \<open>None\<close>: it still waits. The result is the error, or the result of the task and the task
  with its new flag.
\<close>

fun timed_join_loop :: "time \<Rightarrow> (('a, 'r) thread_task \<times> time) list \<Rightarrow>
    (thread_pool_errcode + 'r option \<times> ('a, 'r) thread_task) option" where
  "timed_join_loop deadline [] = None"
| "timed_join_loop deadline ((ts, now) # wakes) =
     (if finished ts then Some (Inr (t_result ts, ts\<lparr>joined := True\<rparr>))
      else if bigger now deadline then Some (Inl TPOOL_ERR_TIMEOUT)
      else timed_join_loop deadline wakes)"

definition thread_task_timed_join :: "('a, 'r) thread_task \<Rightarrow> time \<Rightarrow> rat \<Rightarrow> (('a, 'r) thread_task \<times> time) list \<Rightarrow>
    (thread_pool_errcode + 'r option \<times> ('a, 'r) thread_task) option" where
  "thread_task_timed_join ts now timeout wakes =
     (if timeout \<le> 0 then Some (Inl TPOOL_ERR_TIMEOUT)
      else if pushed ts then timed_join_loop (timeout_time now timeout) wakes
      else Some (Inl TPOOL_ERR_TASK_NOT_PUSHED))"

definition thread_task_delete :: "('a, 'r) tsys \<Rightarrow> nat \<Rightarrow> (thread_pool_errcode option \<times> ('a, 'r) tsys) cres" where
  "thread_task_delete s t =
     rbind (get_task s t) (\<lambda>ts.
     if pushed ts \<and> \<not> (joined ts \<or> t_delete ts) then Inr (Some TPOOL_ERR_TASK_IN_POOL, s)
     else Inr (None, s\<lparr>tasks := (tasks s)(t := None)\<rparr>))"

definition thread_task_detach :: "('a, 'r) tsys \<Rightarrow> nat \<Rightarrow> (thread_pool_errcode option \<times> ('a, 'r) tsys) cres" where
  "thread_task_detach s t =
     rbind (get_task s t) (\<lambda>ts.
     if pushed ts
     then let s = s\<lparr>tasks := (tasks s)(t \<mapsto> ts\<lparr>t_delete := True\<rparr>)\<rparr>
          in if finished ts then rbind (thread_task_delete s t) (\<lambda>(_, s). Inr (None, s)) else Inr (None, s)
     else Inr (Some TPOOL_ERR_TASK_NOT_PUSHED, s))"

end
