(* ===== verification/ThreadPool_Spec.thy ===== *)
theory ThreadPool_Spec
  imports ThreadPool
begin

text \<open>
  What the thread pool of src/4/thread_pool.c promises: the invariant of its threads, tasks and
  queue under every interleaving, that all pushed tasks finish, and what a pool with an
  uninitialised counter does.
\<close>

section \<open>The invariant\<close>

fun holds :: "'r worker \<Rightarrow> nat list" where
  "holds (W_Run t) = [t]"
| "holds (W_Ran t r) = [t]"
| "holds (W_Left t r) = [t]"
| "holds _ = []"

fun busy :: "'r worker \<Rightarrow> bool" where
  "busy (W_Run t) = True"
| "busy (W_Ran t r) = True"
| "busy _ = False"

text \<open>The tasks that are queued or that a thread holds.\<close>

definition waiting :: "('a, 'r) tsys \<Rightarrow> nat list" where
  "waiting s = lqueue_items (tqueue (pool s))"

definition active :: "('a, 'r) tsys \<Rightarrow> nat list" where
  "active s = waiting s @ concat (map holds (workers s))"

definition value_of :: "('a, 'r) thread_task \<Rightarrow> 'r" where
  "value_of ts = t_function ts (t_arg ts)"

text \<open>A task outside of the pool: it was not pushed, or it has finished with its value.\<close>

definition task_ok :: "bool \<Rightarrow> ('a, 'r) thread_task \<Rightarrow> bool" where
  "task_ok act ts \<longleftrightarrow>
     (if act then pushed ts \<and> \<not> finished ts
      else (pushed ts \<longrightarrow> finished ts) \<and> (finished ts \<longrightarrow> t_result ts = Some (value_of ts))) \<and>
     (finished ts \<longrightarrow> pushed ts) \<and> (joined ts \<longrightarrow> finished ts)"

definition worker_ok :: "(nat \<Rightarrow> ('a, 'r) thread_task option) \<Rightarrow> 'r worker \<Rightarrow> bool" where
  "worker_ok h w \<longleftrightarrow> (\<forall>t r. w = W_Ran t r \<or> w = W_Left t r \<longrightarrow> (\<exists>ts. h t = Some ts \<and> r = value_of ts))"

lemma worker_ok_simps [simp]: "worker_ok h W_Loop" "worker_ok h W_Exit" "worker_ok h (W_Run t)"
  by (simp_all add: worker_ok_def)

definition tp_inv :: "('a, 'r) tsys \<Rightarrow> bool" where
  "tp_inv s \<longleftrightarrow>
     lqueue_ok (tqueue (pool s)) \<and>
     (cnt_threads (pool s) = int (length (workers s)) \<and> cnt_threads (pool s) \<le> max_threads (pool s) \<and>
      0 < max_threads (pool s) \<and> max_threads (pool s) \<le> TPOOL_MAX_THREADS) \<and>
     run_threads (pool s) = int (length (filter busy (workers s))) \<and>
     distinct (active s) \<and>
     (\<forall>t \<in> set (active s). tasks s t \<noteq> None) \<and>
     (\<forall>t ts. tasks s t = Some ts \<longrightarrow> task_ok (t \<in> set (active s)) ts \<and> t < fresh_task s) \<and>
     (\<forall>w \<in> set (workers s). worker_ok (tasks s) w) \<and>
     (W_Exit \<in> set (workers s) \<longrightarrow> shutdown (pool s)) \<and>
     (shutdown (pool s) \<longrightarrow> waiting s = [] \<and> (\<forall>w \<in> set (workers s). \<not> busy w)) \<and>
     (waiting s \<noteq> [] \<longrightarrow> workers s \<noteq> []) \<and>
     (pool_freed s \<longrightarrow> shutdown (pool s) \<and> (\<forall>w \<in> set (workers s). w = W_Exit))"

lemma split_workers:
  assumes "w < length ws"
  obtains xs ys where "ws = xs @ (ws ! w) # ys" "\<And>x. ws[w := x] = xs @ x # ys"
  using assms by (metis id_take_nth_drop upd_conv_take_nth_drop)

lemma queue_cnt: "lqueue_ok q \<Longrightarrow> cnt q = 0 \<longleftrightarrow> lqueue_items q = []"
  using lqueue_ok_rep rep_empty_iff(1) by blast

lemma worker_call_inv:
  assumes "tp_inv s" "w < length (workers s)" "workers s ! w = W_Run t"
  shows "\<exists>s'. worker_call w t s = Inr s' \<and> tp_inv s'"
proof -
  from assms(2) obtain xs ys where ws: "workers s = xs @ W_Run t # ys" "\<And>x. (workers s)[w := x] = xs @ x # ys"
    using split_workers assms(3) by metis
  have "t \<in> set (active s)" by (simp add: active_def ws(1))
  then obtain ts where ts: "tasks s t = Some ts" using assms(1) by (auto simp: tp_inv_def)
  let ?s = "set_worker w (W_Ran t (value_of ts)) s"
  have w': "workers ?s = xs @ W_Ran t (value_of ts) # ys" using ws by (simp add: set_worker_def)
  have [simp]: "pool ?s = pool s" "tasks ?s = tasks s" "fresh_task ?s = fresh_task s" "pool_freed ?s = pool_freed s"
    by (simp_all add: set_worker_def)
  have [simp]: "waiting ?s = waiting s" "active ?s = active s" by (simp_all add: waiting_def active_def w' ws(1))
  have "tp_inv ?s"
    using assms(1) ts unfolding tp_inv_def w' ws(1) by (auto simp: worker_ok_def)
  then show ?thesis using ts by (simp add: worker_call_def get_task_def value_of_def)
qed

lemma tp_inv_task:
  assumes "tp_inv s" "tasks s t = Some ts"
  shows "task_ok (t \<in> set (active s)) ts" "t < fresh_task s"
  using assms unfolding tp_inv_def by blast+

lemma worker_leave_inv:
  assumes "tp_inv s" "w < length (workers s)" "workers s ! w = W_Ran t r"
  shows "\<exists>s'. worker_leave w t r s = Inr s' \<and> tp_inv s'"
proof -
  from assms(2) obtain xs ys where ws: "workers s = xs @ W_Ran t r # ys" "\<And>x. (workers s)[w := x] = xs @ x # ys"
    using split_workers assms(3) by metis
  have nf: "\<not> pool_freed s" using assms(1) by (auto simp: tp_inv_def ws(1))
  define s' where "s' = set_worker w (W_Left t r) (s\<lparr>pool := (pool s)\<lparr>run_threads := run_threads (pool s) - 1\<rparr>\<rparr>)"
  have s': "workers s' = xs @ W_Left t r # ys" "pool s' = (pool s)\<lparr>run_threads := run_threads (pool s) - 1\<rparr>"
    "tasks s' = tasks s" "fresh_task s' = fresh_task s" "pool_freed s' = pool_freed s"
    using ws by (simp_all add: s'_def set_worker_def)
  have a: "waiting s' = waiting s" "active s' = active s" by (simp_all add: waiting_def active_def s' ws(1))
  have "tp_inv s'"
    using assms(1) unfolding tp_inv_def s' a ws(1) by (auto simp: worker_ok_def)
  then show ?thesis using nf by (simp add: worker_leave_def s'_def)
qed

lemma worker_finish_inv:
  assumes "tp_inv s" "w < length (workers s)" "workers s ! w = W_Left t r"
  shows "\<exists>s'. worker_finish w t r s = Inr s' \<and> tp_inv s'"
proof -
  from assms(2) obtain xs ys where ws: "workers s = xs @ W_Left t r # ys" "\<And>x. (workers s)[w := x] = xs @ x # ys"
    using split_workers assms(3) by metis
  have act: "active s = waiting s @ concat (map holds xs) @ t # concat (map holds ys)" by (simp add: active_def ws(1))
  obtain ts where ts: "tasks s t = Some ts" "r = value_of ts"
    using assms(1) by (auto simp: tp_inv_def worker_ok_def ws(1))
  define ts' where "ts' = ts\<lparr>t_result := Some r, finished := True\<rparr>"
  define s' where "s' = set_worker w W_Loop (s\<lparr>tasks := (tasks s)(t \<mapsto> ts')\<rparr>)"
  have s': "workers s' = xs @ W_Loop # ys" "pool s' = pool s" "tasks s' = (tasks s)(t \<mapsto> ts')" "fresh_task s' = fresh_task s"
    "pool_freed s' = pool_freed s" using ws by (simp_all add: s'_def set_worker_def)
  have a: "waiting s' = waiting s" "active s' = waiting s @ concat (map holds xs) @ concat (map holds ys)"
    by (simp_all add: active_def waiting_def s')
  have v: "value_of ts' = value_of ts" by (simp add: value_of_def ts'_def)
  have old: "task_ok True ts" "t < fresh_task s" using tp_inv_task [OF assms(1) ts(1)] by (simp_all add: act)
  then have new: "task_ok False ts'" using ts(2) v by (auto simp: task_ok_def ts'_def)
  have wok: "worker_ok ((tasks s)(t \<mapsto> ts')) x" if "worker_ok (tasks s) x" for x
    using that ts(1) v by (auto simp: worker_ok_def)
  have d: "distinct (active s)" using assms(1) by (simp add: tp_inv_def)
  have other: "task_ok (u \<in> set (active s')) us \<and> u < fresh_task s" if "((tasks s)(t \<mapsto> ts')) u = Some us" for u us
  proof (cases "u = t")
    case True
    with that new old(2) d show ?thesis by (simp add: a(2) act)
  next
    case False
    with that tp_inv_task [OF assms(1), of u us] show ?thesis by (simp add: a(2) act)
  qed
  have "tp_inv s'"
    unfolding tp_inv_def s' using assms(1) d wok other
    by (intro conjI allI impI) (auto simp: tp_inv_def a act ws(1) worker_ok_def)
  then show ?thesis using ts(1) by (simp add: worker_finish_def get_task_def s'_def ts'_def)
qed

lemma worker_take_inv:
  assumes "tp_inv s" "w < length (workers s)" "workers s ! w = W_Loop"
  shows "(waiting s = [] \<and> \<not> shutdown (pool s) \<and> worker_take w s = None) \<or>
    (\<exists>s'. worker_take w s = Some (Inr s') \<and> tp_inv s')"
proof -
  from assms(2) obtain xs ys where ws: "workers s = xs @ W_Loop # ys" "\<And>x. (workers s)[w := x] = xs @ x # ys"
    using split_workers assms(3) by metis
  have nf: "\<not> pool_freed s" and ok: "lqueue_ok (tqueue (pool s))" using assms(1) by (auto simp: tp_inv_def ws(1))
  have empty: "cnt (tqueue (pool s)) = 0 \<longleftrightarrow> waiting s = []" using queue_cnt [OF ok] by (simp add: waiting_def)
  consider (shut) "shutdown (pool s)" | (wait) "waiting s = []" "\<not> shutdown (pool s)"
    | (task) t q where "waiting s = t # q" "\<not> shutdown (pool s)"
    by (cases "waiting s") auto
  then show ?thesis
  proof cases
    case shut
    define s' where "s' = set_worker w W_Exit s"
    have s': "workers s' = xs @ W_Exit # ys" "pool s' = pool s" "tasks s' = tasks s" "fresh_task s' = fresh_task s"
      "pool_freed s' = pool_freed s" using ws by (simp_all add: s'_def set_worker_def)
    have a: "waiting s' = waiting s" "active s' = active s" by (simp_all add: waiting_def active_def s' ws(1))
    have "tp_inv s'" using assms(1) shut unfolding tp_inv_def s' a ws(1) by (auto simp: worker_ok_def)
    then show ?thesis using shut nf by (simp add: worker_take_def s'_def)
  next
    case wait
    then show ?thesis using nf empty by (simp add: worker_take_def)
  next
    case (task t q)
    from task_queue.pop_some [OF ok task(1) [unfolded waiting_def]] obtain tq where
      tq: "tasks_queue_pop (tqueue (pool s)) = Inr (Some t, tq)" "lqueue_ok tq" "lqueue_items tq = q" by blast
    let ?p = "(pool s)\<lparr>tqueue := tq, run_threads := run_threads (pool s) + 1\<rparr>"
    define s' where "s' = set_worker w (W_Run t) (s\<lparr>pool := ?p\<rparr>)"
    have s': "workers s' = xs @ W_Run t # ys" "pool s' = ?p" "tasks s' = tasks s" "fresh_task s' = fresh_task s"
      "pool_freed s' = pool_freed s" using ws by (simp_all add: s'_def set_worker_def)
    have wt: "waiting s' = q" using tq(3) by (simp add: waiting_def s')
    have act: "active s = t # q @ concat (map holds xs) @ concat (map holds ys)"
      "active s' = q @ concat (map holds xs) @ t # concat (map holds ys)"
      using task(1) wt by (simp_all add: active_def ws(1) s')
    have set: "set (active s') = set (active s)" "distinct (active s') = distinct (active s)" unfolding act by auto
    have "tp_inv s'"
      using assms(1) tq(2) task unfolding tp_inv_def s' wt ws(1) set by (auto simp: worker_ok_def)
    then show ?thesis using task nf empty tq(1) by (simp add: worker_take_def s'_def)
  qed
qed

text \<open>The client has a task that it has not detached, and that it may push.\<close>

definition usable :: "('a, 'r) tsys \<Rightarrow> nat \<Rightarrow> bool" where
  "usable s t \<longleftrightarrow> (\<exists>ts. tasks s t = Some ts \<and> \<not> t_delete ts)"

definition pushable :: "('a, 'r) tsys \<Rightarrow> nat \<Rightarrow> bool" where
  "pushable s t \<longleftrightarrow> (\<exists>ts. tasks s t = Some ts \<and> \<not> t_delete ts \<and> (\<not> pushed ts \<or> joined ts)) \<and> \<not> shutdown (pool s)"

lemma push_inv:
  assumes inv: "tp_inv s" and "pushable s t"
  shows "\<exists>e s'. thread_pool_push_task s t = Inr (e, s') \<and> tp_inv s' \<and>
    (e = None \<longrightarrow> waiting s' = waiting s @ [t]) \<and> (e \<noteq> None \<longrightarrow> s' = s \<and> cnt (tqueue (pool s)) = TPOOL_MAX_TASKS)"
proof (cases "cnt (tqueue (pool s)) = TPOOL_MAX_TASKS")
  case True
  have "\<not> pool_freed s" using inv assms(2) by (auto simp: tp_inv_def pushable_def)
  with True inv show ?thesis by (simp add: thread_pool_push_task_def)
next
  case False
  from assms(2) obtain ts where ts: "tasks s t = Some ts" "\<not> pushed ts \<or> joined ts" "\<not> shutdown (pool s)" by (auto simp: pushable_def)
  have nf: "\<not> pool_freed s" using inv ts(3) by (auto simp: tp_inv_def)
  have na: "t \<notin> set (active s)" using tp_inv_task(1) [OF inv ts(1)] ts(2) by (auto simp: task_ok_def split: if_splits)
  have ok: "lqueue_ok (tqueue (pool s))" using inv by (simp add: tp_inv_def)
  from task_queue.add_ok [OF ok, of t] obtain q where
    q: "tasks_queue_add (tqueue (pool s)) t = Inr q" "lqueue_ok q" "lqueue_items q = waiting s @ [t]" by (auto simp: waiting_def)
  define ts' where "ts' = ts\<lparr>pushed := True, joined := False, t_delete := False, finished := False\<rparr>"
  have new: "task_ok True ts'" "value_of ts' = value_of ts" by (simp_all add: task_ok_def ts'_def value_of_def)
  define grow where "grow \<longleftrightarrow> cnt_threads (pool s) < max_threads (pool s) \<and> cnt_threads (pool s) = run_threads (pool s)"
  define s' where "s' = (if grow then s\<lparr>tasks := (tasks s)(t \<mapsto> ts'), pool := (pool s)\<lparr>tqueue := q, cnt_threads := cnt_threads (pool s) + 1\<rparr>,
       workers := workers s @ [W_Loop]\<rparr>
     else s\<lparr>tasks := (tasks s)(t \<mapsto> ts'), pool := (pool s)\<lparr>tqueue := q\<rparr>\<rparr>)"
  have run: "thread_pool_push_task s t = Inr (None, s')"
    using False nf q(1) ts(1) by (simp add: thread_pool_push_task_def get_task_def Let_def s'_def ts'_def grow_def)
  have s': "tasks s' = (tasks s)(t \<mapsto> ts')" "fresh_task s' = fresh_task s" "pool_freed s' = pool_freed s"
    "max_threads (pool s') = max_threads (pool s)" "run_threads (pool s') = run_threads (pool s)" "shutdown (pool s') = shutdown (pool s)"
    "tqueue (pool s') = q" "cnt_threads (pool s') = cnt_threads (pool s) + (if grow then 1 else 0)"
    "workers s' = workers s @ (if grow then [W_Loop] else [])" by (simp_all add: s'_def)
  have a: "waiting s' = waiting s @ [t]" "set (active s') = insert t (set (active s))" "distinct (active s') = distinct (active s)"
    using q(3) na by (auto simp: active_def waiting_def s')
  have "workers s' \<noteq> []"
  proof (cases "workers s = []")
    case True
    then have grow using inv by (auto simp: tp_inv_def grow_def)
    then show ?thesis by (simp add: s')
  qed (simp add: s')
  moreover have "worker_ok ((tasks s)(t \<mapsto> ts')) x" if "worker_ok (tasks s) x" for x
    using that ts(1) new(2) by (auto simp: worker_ok_def)
  moreover have "task_ok (u \<in> insert t (set (active s))) us \<and> u < fresh_task s" if "((tasks s)(t \<mapsto> ts')) u = Some us" for u us
    using that new(1) tp_inv_task [OF inv, of u us] tp_inv_task(2) [OF inv ts(1)] by (cases "u = t") auto
  ultimately have "tp_inv s'"
    using inv q(2) ts(3) nf unfolding tp_inv_def s' a
    by (intro conjI allI impI) (auto simp: grow_def)
  with run a(1) show ?thesis by blast
qed

lemma update_task_inv:
  assumes "tp_inv s" "tasks s t = Some ts" "value_of ts' = value_of ts" "\<And>b. task_ok b ts \<Longrightarrow> task_ok b ts'"
  shows "tp_inv (s\<lparr>tasks := (tasks s)(t \<mapsto> ts')\<rparr>)"
proof -
  define s' where "s' = s\<lparr>tasks := (tasks s)(t \<mapsto> ts')\<rparr>"
  have s': "workers s' = workers s" "pool s' = pool s" "tasks s' = (tasks s)(t \<mapsto> ts')" "fresh_task s' = fresh_task s"
    "pool_freed s' = pool_freed s" by (simp_all add: s'_def)
  have a: "waiting s' = waiting s" "active s' = active s" by (simp_all add: waiting_def active_def s')
  have "worker_ok ((tasks s)(t \<mapsto> ts')) x" if "worker_ok (tasks s) x" for x
    using that assms(2,3) by (auto simp: worker_ok_def)
  moreover have "task_ok (u \<in> set (active s)) us \<and> u < fresh_task s" if "((tasks s)(t \<mapsto> ts')) u = Some us" for u us
    using that assms(2,4) tp_inv_task [OF assms(1), of u] by (cases "u = t") auto
  ultimately have "tp_inv s'" using assms(1) unfolding tp_inv_def s' a by (intro conjI allI impI) auto
  then show ?thesis by (simp add: s'_def)
qed

lemma free_task_inv:
  assumes "tp_inv s" "t \<notin> set (active s)"
  shows "tp_inv (s\<lparr>tasks := (tasks s)(t := None)\<rparr>)"
proof -
  define s' where "s' = s\<lparr>tasks := (tasks s)(t := None)\<rparr>"
  have s': "workers s' = workers s" "pool s' = pool s" "tasks s' = (tasks s)(t := None)" "fresh_task s' = fresh_task s"
    "pool_freed s' = pool_freed s" by (simp_all add: s'_def)
  have a: "waiting s' = waiting s" "active s' = active s" by (simp_all add: waiting_def active_def s')
  have "worker_ok ((tasks s)(t := None)) x" if "worker_ok (tasks s) x" "x \<in> set (workers s)" for x
    using that assms(2) by (fastforce simp: worker_ok_def active_def)
  moreover have "task_ok (u \<in> set (active s)) us \<and> u < fresh_task s" if "((tasks s)(t := None)) u = Some us" for u us
    using that tp_inv_task [OF assms(1), of u] by (cases "u = t") auto
  ultimately have "tp_inv s'" using assms unfolding tp_inv_def s' a by (intro conjI allI impI) auto
  then show ?thesis by (simp add: s'_def)
qed

section \<open>Steps\<close>

inductive worker_step :: "('a, 'r) tsys \<Rightarrow> ('a, 'r) tsys \<Rightarrow> bool" where
  "w < length (workers s) \<Longrightarrow> tpool_worker w s = Some (Inr s') \<Longrightarrow> worker_step s s'"

text \<open>
  A call of the client within the contract of the header: a task is pushed when it is new or was
  joined, it is not used after it was detached or deleted, and the pool is not used once its deletion has
  begun.
\<close>

inductive client_step :: "('a, 'r) tsys \<Rightarrow> ('a, 'r) tsys \<Rightarrow> bool" where
  new: "thread_task_new f x s = (t, s') \<Longrightarrow> client_step s s'"
| push: "pushable s t \<Longrightarrow> thread_pool_push_task s t = Inr (e, s') \<Longrightarrow> client_step s s'"
| join: "usable s t \<Longrightarrow> thread_task_join s t = Some (Inr (r, s')) \<Longrightarrow> client_step s s'"
| del: "usable s t \<Longrightarrow> thread_task_delete s t = Inr (e, s') \<Longrightarrow> client_step s s'"
| detach: "usable s t \<Longrightarrow> thread_task_detach s t = Inr (e, s') \<Longrightarrow> client_step s s'"
| pool_delete: "\<not> shutdown (pool s) \<Longrightarrow> thread_pool_delete s = (e, s') \<Longrightarrow> client_step s s'"
| pool_end: "shutdown (pool s) \<Longrightarrow> thread_pool_delete_end s = Some s' \<Longrightarrow> client_step s s'"

definition tp_start :: "thread_pool \<Rightarrow> ('a, 'r) tsys" where
  "tp_start p = \<lparr>pool = p, pool_freed = False, workers = [], tasks = Map.empty, fresh_task = 0\<rparr>"

inductive reachable :: "thread_pool \<Rightarrow> ('a, 'r) tsys \<Rightarrow> bool" for p where
  start: "reachable p (tp_start p)"
| worker: "reachable p s \<Longrightarrow> worker_step s s' \<Longrightarrow> reachable p s'"
| client: "reachable p s \<Longrightarrow> client_step s s' \<Longrightarrow> reachable p s'"

lemma tpool_worker_inv:
  assumes "tp_inv s" "w < length (workers s)"
  shows "tpool_worker w s = None \<or> (\<exists>s'. tpool_worker w s = Some (Inr s') \<and> tp_inv s')"
proof (cases "workers s ! w")
  case W_Loop
  from worker_take_inv [OF assms W_Loop] W_Loop show ?thesis by (auto simp: tpool_worker_def)
next
  case (W_Run t)
  from worker_call_inv [OF assms W_Run] W_Run show ?thesis by (auto simp: tpool_worker_def)
next
  case (W_Ran t r)
  from worker_leave_inv [OF assms W_Ran] W_Ran show ?thesis by (auto simp: tpool_worker_def)
next
  case (W_Left t r)
  from worker_finish_inv [OF assms W_Left] W_Left show ?thesis by (auto simp: tpool_worker_def)
qed (simp add: tpool_worker_def)

lemma task_new_inv:
  assumes "tp_inv s"
  shows "tp_inv (snd (thread_task_new f x s))"
proof -
  let ?t = "fresh_task s"
  have free: "tasks s ?t = None" using tp_inv_task(2) [OF assms, of ?t] by (cases "tasks s ?t") auto
  have na: "?t \<notin> set (active s)" using assms free by (auto simp: tp_inv_def)
  define ts where "ts = \<lparr>t_function = f, t_arg = x, t_result = None, pushed = False, finished = False, joined = False, t_delete = False\<rparr>"
  define s' where "s' = snd (thread_task_new f x s)"
  have s': "workers s' = workers s" "pool s' = pool s" "tasks s' = (tasks s)(?t \<mapsto> ts)" "fresh_task s' = fresh_task s + 1"
    "pool_freed s' = pool_freed s" by (simp_all add: s'_def thread_task_new_def ts_def)
  have a: "waiting s' = waiting s" "active s' = active s" by (simp_all add: waiting_def active_def s')
  have "worker_ok ((tasks s)(?t \<mapsto> ts)) y" if "worker_ok (tasks s) y" for y
    using that free by (fastforce simp: worker_ok_def)
  moreover have "task_ok (u \<in> set (active s)) us \<and> u < fresh_task s + 1" if "((tasks s)(?t \<mapsto> ts)) u = Some us" for u us
    using that na tp_inv_task [OF assms, of u us] by (cases "u = ?t") (auto simp: task_ok_def ts_def)
  ultimately have "tp_inv s'" using assms unfolding tp_inv_def s' a by (intro conjI allI impI) auto
  then show ?thesis by (simp add: s'_def)
qed

lemma join_inv:
  assumes "tp_inv s" "usable s t"
  shows "thread_task_join s t = None \<or> (\<exists>r s'. thread_task_join s t = Some (Inr (r, s')) \<and> tp_inv s')"
proof -
  from assms(2) obtain ts where ts: "tasks s t = Some ts" by (auto simp: usable_def)
  have "tp_inv (s\<lparr>tasks := (tasks s)(t \<mapsto> ts\<lparr>joined := True\<rparr>)\<rparr>)" if "finished ts"
    by (rule update_task_inv [OF assms(1) ts]) (use that in \<open>auto simp: value_of_def task_ok_def\<close>)
  with assms(1) ts show ?thesis by (simp add: thread_task_join_def get_task_def)
qed

lemma delete_inv:
  assumes "tp_inv s" "tasks s t = Some ts" "t_delete ts \<longrightarrow> finished ts"
  shows "\<exists>e s'. thread_task_delete s t = Inr (e, s') \<and> tp_inv s'"
proof (cases "pushed ts \<and> \<not> (joined ts \<or> t_delete ts)")
  case True
  with assms show ?thesis by (simp add: thread_task_delete_def get_task_def)
next
  case False
  then have "t \<notin> set (active s)" using tp_inv_task(1) [OF assms(1,2)] assms(3) by (auto simp: task_ok_def split: if_splits)
  with False assms free_task_inv show ?thesis by (auto simp: thread_task_delete_def get_task_def)
qed

lemma detach_inv:
  assumes "tp_inv s" "usable s t"
  shows "\<exists>e s'. thread_task_detach s t = Inr (e, s') \<and> tp_inv s'"
proof -
  from assms(2) obtain ts where ts: "tasks s t = Some ts" by (auto simp: usable_def)
  let ?s = "s\<lparr>tasks := (tasks s)(t \<mapsto> ts\<lparr>t_delete := True\<rparr>)\<rparr>"
  have inv: "tp_inv ?s"
    by (rule update_task_inv [OF assms(1) ts]) (auto simp: value_of_def task_ok_def)
  have "\<exists>e s'. thread_task_delete ?s t = Inr (e, s') \<and> tp_inv s'" if "finished ts"
    by (rule delete_inv [OF inv]) (use that in auto)
  with inv assms(1) ts show ?thesis by (auto simp: thread_task_detach_def get_task_def Let_def)
qed

lemma pool_delete_inv:
  assumes "tp_inv s" "\<not> shutdown (pool s)" "thread_pool_delete s = (e, s')"
  shows "tp_inv s'"
proof (cases "run_threads (pool s) \<noteq> 0 \<or> cnt (tqueue (pool s)) \<noteq> 0")
  case True
  with assms show ?thesis by (simp add: thread_pool_delete_def)
next
  case False
  then have s': "s' = s\<lparr>pool := (pool s)\<lparr>shutdown := True\<rparr>\<rparr>" using assms(3) by (simp add: thread_pool_delete_def)
  have w: "waiting s = []" using False assms(1) queue_cnt [of "tqueue (pool s)"] by (auto simp: tp_inv_def waiting_def)
  have "\<forall>w \<in> set (workers s). \<not> busy w" using False assms(1) by (simp add: tp_inv_def filter_empty_conv)
  moreover have "waiting s' = waiting s" "active s' = active s" by (simp_all add: s' waiting_def active_def)
  ultimately show ?thesis using assms(1,2) w unfolding tp_inv_def by (auto simp: s')
qed

lemma pool_end_inv:
  assumes "tp_inv s" "shutdown (pool s)" "thread_pool_delete_end s = Some s'"
  shows "tp_inv s'"
proof -
  have s': "s' = s\<lparr>pool_freed := True\<rparr>" "\<forall>w \<in> set (workers s). w = W_Exit"
    using assms(3) by (auto simp: thread_pool_delete_end_def list_all_iff split: if_splits)
  have "waiting s' = waiting s" "active s' = active s" by (simp_all add: s'(1) waiting_def active_def)
  then show ?thesis using assms(1,2) s' unfolding tp_inv_def by auto
qed

lemma worker_step_inv:
  assumes "tp_inv s" "worker_step s s'"
  shows "tp_inv s'"
  using assms(2)
proof cases
  case (1 w)
  with tpool_worker_inv [OF assms(1), of w] show ?thesis by simp
qed

lemma client_step_inv:
  assumes "tp_inv s" "client_step s s'"
  shows "tp_inv s'"
  using assms(2)
proof cases
  case (new f x t)
  with task_new_inv [OF assms(1), of f x] show ?thesis by simp
next
  case (push t e)
  with push_inv [OF assms(1), of t] show ?thesis by auto
next
  case (join t r)
  with join_inv [OF assms(1), of t] show ?thesis by auto
next
  case (del t e)
  then obtain ts where "tasks s t = Some ts" "\<not> t_delete ts" by (auto simp: usable_def)
  with delete_inv [OF assms(1), of t ts] del show ?thesis by auto
next
  case (detach t e)
  with detach_inv [OF assms(1), of t] show ?thesis by auto
next
  case (pool_delete e)
  with pool_delete_inv [OF assms(1)] show ?thesis by blast
next
  case pool_end
  with pool_end_inv [OF assms(1)] show ?thesis by blast
qed

lemma reachable_inv:
  assumes "thread_pool_new n 0 = Inr p" "reachable p s"
  shows "tp_inv s"
  using assms(2)
proof induction
  case start
  have "lqueue_items (lqueue_empty :: nat lqueue) = []" "lqueue_ok (lqueue_empty :: nat lqueue)"
    using task_queue.empty_ok by blast+
  with assms(1) show ?case
    by (auto simp: tp_inv_def tp_start_def thread_pool_new_def active_def waiting_def split: if_splits)
qed (use worker_step_inv client_step_inv in blast)+

section \<open>Progress\<close>

fun cost :: "'r worker \<Rightarrow> nat" where
  "cost (W_Run t) = 4"
| "cost (W_Ran t r) = 3"
| "cost (W_Left t r) = 2"
| "cost W_Loop = 1"
| "cost W_Exit = 0"

text \<open>A bound for the number of steps the threads can still take without a new task.\<close>

definition work :: "('a, 'r) tsys \<Rightarrow> nat" where
  "work s = 5 * length (waiting s) + sum_list (map cost (workers s))"

lemma work_set_worker:
  assumes "w < length (workers s)" "workers s' = (workers s)[w := x]" "length (waiting s') * 5 + cost x < length (waiting s) * 5 + cost (workers s ! w)"
  shows "work s' < work s"
proof -
  from split_workers [OF assms(1)] obtain xs ys where "workers s = xs @ workers s ! w # ys" "(workers s)[w := x] = xs @ x # ys" by metis
  then have "map cost (workers s) = map cost xs @ cost (workers s ! w) # map cost ys"
    "map cost (workers s') = map cost xs @ cost x # map cost ys"
    using assms(2) arg_cong [of "workers s" _ "map cost"] by (metis list.simps(9) map_append, simp)
  with assms(3) show ?thesis by (simp add: work_def)
qed

lemma worker_step_work:
  assumes "tp_inv s" "worker_step s s'"
  shows "work s' < work s"
  using assms(2)
proof cases
  case (1 w)
  show ?thesis
  proof (cases "workers s ! w")
    case W_Loop
    have ok: "lqueue_ok (tqueue (pool s))" using assms(1) by (simp add: tp_inv_def)
    have run: "worker_take w s = Some (Inr s')" using 1 W_Loop by (simp add: tpool_worker_def)
    show ?thesis
    proof (cases "shutdown (pool s)")
      case True
      then have "s' = set_worker w W_Exit s" using run by (simp add: worker_take_def split: if_splits)
      with 1 W_Loop show ?thesis by (intro work_set_worker [of w s s' W_Exit]) (simp_all add: set_worker_def waiting_def)
    next
      case False
      then have "waiting s \<noteq> []" using run queue_cnt [OF ok] by (auto simp: worker_take_def waiting_def split: if_splits)
      then obtain t q where tq: "lqueue_items (tqueue (pool s)) = t # q" by (cases "waiting s") (auto simp: waiting_def)
      from task_queue.pop_some [OF ok tq] obtain q' where
        "tasks_queue_pop (tqueue (pool s)) = Inr (Some t, q')" "lqueue_items q' = q" by blast
      with run False have "workers s' = (workers s)[w := W_Run t]" "waiting s' = q"
        by (auto simp: worker_take_def set_worker_def waiting_def split: if_splits)
      with 1 W_Loop tq show ?thesis by (intro work_set_worker [of w s s' "W_Run t"]) (simp_all add: waiting_def)
    qed
  qed (use 1 in \<open>auto simp: tpool_worker_def worker_call_def worker_leave_def worker_finish_def set_worker_def res_simps waiting_def
         split: if_splits intro!: work_set_worker [of w s]\<close>)
qed

lemma worker_enabled:
  assumes "tp_inv s" "active s \<noteq> []"
  shows "\<exists>s'. worker_step s s'"
proof (cases "\<exists>w < length (workers s). holds (workers s ! w) \<noteq> []")
  case True
  then obtain w where w: "w < length (workers s)" "holds (workers s ! w) \<noteq> []" by blast
  then have "tpool_worker w s \<noteq> None" by (cases "workers s ! w") (simp_all add: tpool_worker_def)
  with tpool_worker_inv [OF assms(1) w(1)] w(1) worker_step.intros show ?thesis by blast
next
  case False
  then have none: "concat (map holds (workers s)) = []" by (auto simp: concat_eq_Nil_conv in_set_conv_nth)
  then have wt: "waiting s \<noteq> []" using assms(2) by (simp add: active_def)
  then have ns: "\<not> shutdown (pool s)" "workers s \<noteq> []" using assms(1) by (auto simp: tp_inv_def)
  let ?x = "workers s ! 0"
  have x: "0 < length (workers s)" "?x \<in> set (workers s)" using ns(2) by simp_all
  have "W_Exit \<notin> set (workers s)" using assms(1) ns(1) by (auto simp: tp_inv_def)
  then have "?x \<noteq> W_Exit" using x(2) by metis
  moreover have "holds ?x = []" using none x(2) by simp
  ultimately have "?x = W_Loop" by (cases ?x) simp_all
  with worker_take_inv [OF assms(1) x(1)] wt obtain s' where "tpool_worker 0 s = Some (Inr s')" by (auto simp: tpool_worker_def)
  with worker_step.intros [OF x(1)] show ?thesis by blast
qed

section \<open>Properties\<close>


text \<open>A client and a thread: a task is pushed to a pool of one thread, which runs it.\<close>

definition demo_pool :: "int \<Rightarrow> thread_pool" where
  "demo_pool junk = \<lparr>max_threads = 1, run_threads = junk, cnt_threads = 0, tqueue = lqueue_empty, shutdown = False\<rparr>"

lemma demo_pool_new: "thread_pool_new 1 junk = Inr (demo_pool junk)"
  by (simp add: thread_pool_new_def demo_pool_def)

definition demo_task :: "int \<Rightarrow> (int, int) tsys" where
  "demo_task junk = snd (thread_task_new (\<lambda>x. x + 1) 41 (tp_start (demo_pool junk)))"

definition demo_pushed :: "int \<Rightarrow> (int, int) tsys" where
  "demo_pushed junk = (case thread_pool_push_task (demo_task junk) 0 of Inr (e, s) \<Rightarrow> s | Inl e \<Rightarrow> demo_task junk)"

fun demo_run :: "nat \<Rightarrow> (int, int) tsys" where
  "demo_run 0 = demo_pushed 0"
| "demo_run (Suc k) = (case tpool_worker 0 (demo_run k) of Some (Inr s) \<Rightarrow> s | _ \<Rightarrow> demo_run k)"

lemma demo_task_reachable: "reachable (demo_pool junk) (demo_task junk)"
  unfolding demo_task_def
  by (rule reachable.client [OF reachable.start client_step.new]) (rule surjective_pairing)

lemma demo_task_pushable: "pushable (demo_task junk) 0"
  by (simp add: pushable_def demo_task_def thread_task_new_def tp_start_def demo_pool_def)

lemma demo_push: "thread_pool_push_task (demo_task junk) 0 = Inr (None, demo_pushed junk)"
  by (simp add: demo_pushed_def thread_pool_push_task_def demo_task_def thread_task_new_def tp_start_def demo_pool_def
      tasks_queue_add_def lqueue_empty_def get_task_def Let_def)

lemma demo_pushed_reachable: "reachable (demo_pool junk) (demo_pushed junk)"
  by (rule reachable.client [OF demo_task_reachable client_step.push [OF demo_task_pushable demo_push]])

lemmas demo_defs = demo_pushed_def thread_pool_push_task_def demo_task_def thread_task_new_def tp_start_def demo_pool_def
  tasks_queue_add_def lqueue_empty_def get_task_def tpool_worker_def worker_take_def worker_call_def worker_leave_def
  worker_finish_def set_worker_def tasks_queue_pop_def Let_def

lemma demo_run_steps: "(worker_step ^^ 4) (demo_pushed 0) (demo_run 4)"
proof -
  have s: "worker_step (demo_run k) (demo_run (Suc k))" if "k \<in> {0, 1, 2, 3}" for k
  proof (rule worker_step.intros [of 0])
    show "0 < length (workers (demo_run k))" "tpool_worker 0 (demo_run k) = Some (Inr (demo_run (Suc k)))"
      using that by (auto simp: demo_defs numeral_eq_Suc)
  qed
  have "(worker_step ^^ k) (demo_run 0) (demo_run k)" if "k \<le> 4" for k
    using that
  proof (induction k)
    case (Suc k)
    then have "k \<in> {0, 1, 2, 3}" by auto
    with s [of k] Suc show ?case by auto
  qed simp
  from this [of 4] show ?thesis by simp
qed

lemma demo_run_end:
  "\<nexists>s. worker_step (demo_run 4) s" "\<exists>ts. tasks (demo_run 4) 0 = Some ts \<and> pushed ts \<and> t_function ts (t_arg ts) = 42"
  by (auto elim!: worker_step.cases simp: demo_defs numeral_eq_Suc)


interpretation pool_run: progress worker_step tp_inv work "\<lambda>s. active s = []"
  by unfold_locales (auto dest: worker_step_inv worker_step_work worker_enabled)



text \<open>
  \<open>thread_pool_new\<close> does not initialise \<open>run_threads\<close>. When the memory it gets holds anything but 0
  there, the pool never starts a thread and no task ever finishes, so that every join waits
  for ever.
\<close>

theorem uninitialised_pool_never_works:
  assumes "thread_pool_new n junk = Inr p" "junk \<noteq> 0" "reachable p s"
  shows "workers s = [] \<and> (\<forall>t ts. tasks s t = Some ts \<longrightarrow> pushed ts \<longrightarrow> thread_task_join s t = None)"
proof -
  have "workers s = [] \<and> cnt_threads (pool s) = 0 \<and> run_threads (pool s) = junk \<and> (\<forall>t ts. tasks s t = Some ts \<longrightarrow> \<not> finished ts)"
    using assms(3)
  proof induction
    case start
    then show ?case using assms(1) by (auto simp: tp_start_def thread_pool_new_def split: if_splits)
  next
    case (worker s s')
    then show ?case by (auto elim: worker_step.cases)
  next
    case (client s s')
    note IH = client(3)
    show ?case using client(2)
    proof cases
      case (push t e)
      with IH assms(2) show ?thesis
        by (auto simp: thread_pool_push_task_def res_simps Let_def split: if_splits)
    qed (use IH in \<open>auto simp: thread_task_new_def thread_task_join_def get_task_def thread_task_delete_def thread_task_detach_def
           thread_pool_delete_def thread_pool_delete_end_def res_simps Let_def split: if_splits sum.splits option.splits\<close>)
  qed
  then show ?thesis by (auto simp: thread_task_join_def get_task_def)
qed

theorem uninitialised_pool_never_works_witness:
  "workers (demo_pushed 7) = [] \<and> thread_task_join (demo_pushed 7) 0 = None"
proof -
  have "\<exists>ts. tasks (demo_pushed 7) 0 = Some ts \<and> pushed ts" by (simp add: demo_defs)
  with uninitialised_pool_never_works [OF demo_pool_new _ demo_pushed_reachable, of 7] show ?thesis by auto
qed

end
