(* ===== verification/HeapHelp.thy ===== *)
theory HeapHelp
  imports Prelude
begin

text \<open>
  The leak checker of src/utils/heap_help/heap_help.c, which replaces malloc, free and the other
  heap functions, remembers every live block with its backtrace and reports the blocks that are
  left at exit. The original functions, the backtraces, mmap and the environment are
  parameters. The model is that of one thread: a spinlock that is taken already is never released.
\<close>

section \<open>Computations on a state\<close>

type_synonym ('s, 'a) act = "'s \<Rightarrow> ('a \<times> 's) cres"

definition act_bind :: "('s, 'a) act \<Rightarrow> ('a \<Rightarrow> ('s, 'b) act) \<Rightarrow> ('s, 'b) act" where
  "act_bind m f s = rbind (m s) (\<lambda>(x, s). f x s)"

definition act_ret :: "'a \<Rightarrow> ('s, 'a) act" where
  "act_ret x s = Inr (x, s)"

definition act_upd :: "('s \<Rightarrow> 's) \<Rightarrow> ('s, unit) act" where
  "act_upd f s = Inr ((), f s)"

definition act_get :: "('s \<Rightarrow> 'a) \<Rightarrow> ('s, 'a) act" where
  "act_get f s = Inr (f s, s)"

abbreviation (input) act_seq :: "('s, 'a) act \<Rightarrow> ('s, 'b) act \<Rightarrow> ('s, 'b) act" where
  "act_seq m k \<equiv> act_bind m (\<lambda>_. k)"

lemmas act_defs = act_bind_def act_ret_def act_upd_def act_get_def

section \<open>Data\<close>

abbreviation (input) MAX_BACKTRACE_LEN :: nat where "MAX_BACKTRACE_LEN \<equiv> 64"
abbreviation (input) ALLOCATION_BATCH_SIZE :: nat where "ALLOCATION_BATCH_SIZE \<equiv> 1024"

datatype report_mode = MODE_VERBOSE | MODE_LEAKS | MODE_QUIET

text \<open>Pointers are numbers, 0 is the null pointer; \<open>trace_size\<close> is the length of \<open>trace\<close>.\<close>

record allocation =
  trace :: "nat list"
  mem :: nat
  a_size :: nat

record symbol =
  sym_file :: "string option"
  sym_name :: "string option"

text \<open>Which functions the pointers \<open>default_malloc\<close> and so on lead to.\<close>

datatype defaults = DefNull | DefStatic | DefSystem

text \<open>
  The static variables, and the rest of the machine. The lists of allocation objects are HOL lists;
  of the unused ones only their number matters. \<open>batch_used\<close> is \<open>None\<close> when there is no batch.
\<close>

record 'w heaph =
  init_lock :: bool
  is_init_done :: bool
  is_exit_done :: bool
  init_lock_count :: nat
  depth :: nat
  h_report_mode :: report_mode
  static_size :: nat
  static_used :: nat
  static_buf :: nat
  allocs_lock :: bool
  alloc_count :: int
  alloc_count_total :: u64
  allocs :: "allocation list"
  alloc_pool :: nat
  batch_used :: "nat option"
  default_fns :: defaults
  os :: 'w

text \<open>
  The original functions: a result and the machine after the call. \<open>s_getline\<close> gives the result, the
  line and its length, \<open>s_getaddrinfo\<close> the result, the list and the size of its first
  element. \<open>s_dlsym_allocs\<close> are the sizes of the blocks that the calls of dlsym allocate
  before the original functions are known.
\<close>

record 'w sysfns =
  s_malloc :: "nat \<Rightarrow> 'w \<Rightarrow> nat \<times> 'w"
  s_free :: "nat \<Rightarrow> 'w \<Rightarrow> 'w"
  s_calloc :: "nat \<Rightarrow> nat \<Rightarrow> 'w \<Rightarrow> nat \<times> 'w"
  s_realloc :: "nat \<Rightarrow> nat \<Rightarrow> 'w \<Rightarrow> nat \<times> 'w"
  s_strdup :: "nat \<Rightarrow> 'w \<Rightarrow> nat \<times> nat \<times> 'w"
  s_getline :: "nat \<Rightarrow> 'w \<Rightarrow> int \<times> nat \<times> nat \<times> 'w"
  s_getaddrinfo :: "'w \<Rightarrow> int \<times> nat \<times> nat \<times> 'w"
  s_freeaddrinfo :: "nat \<Rightarrow> 'w \<Rightarrow> 'w"
  s_backtrace :: "'w \<Rightarrow> nat list"
  s_dladdr :: "nat \<Rightarrow> symbol option"
  s_mmap :: "'w \<Rightarrow> nat option \<times> 'w"
  s_dlsym_allocs :: "nat list"
  s_getenv :: "string option"

section \<open>Assertions and locks\<close>

definition heaph_assert :: "('w heaph \<Rightarrow> bool) \<Rightarrow> ('w heaph, unit) act" where
  "heaph_assert P s = (if P s then Inr ((), s) else Inl AssertFail)"

definition spinlock_acq :: "bool \<Rightarrow> bool cres" where
  "spinlock_acq lock = (if lock then Inl Hang else Inr True)"

definition spinlock_rel :: "bool \<Rightarrow> bool cres" where
  "spinlock_rel lock = (if lock then Inr False else Inl AssertFail)"

definition allocs_acq :: "('w heaph, unit) act" where
  "allocs_acq s = rbind (spinlock_acq (allocs_lock s)) (\<lambda>l. Inr ((), s\<lparr>allocs_lock := l\<rparr>))"

definition allocs_rel :: "('w heaph, unit) act" where
  "allocs_rel s = rbind (spinlock_rel (allocs_lock s)) (\<lambda>l. Inr ((), s\<lparr>allocs_lock := l\<rparr>))"

section \<open>The table of allocations\<close>

definition alloc_is_static :: "'w heaph \<Rightarrow> nat \<Rightarrow> bool" where
  "alloc_is_static s ptr \<longleftrightarrow> ptr \<noteq> 0 \<and> static_buf s \<le> ptr \<and> ptr \<le> static_buf s + static_size s"

text \<open>\<open>mmap\<close>; a failure is an assertion failure at both places that call it.\<close>

definition heaph_mmap :: "'w sysfns \<Rightarrow> ('w heaph, nat) act" where
  "heaph_mmap d s =
     (case s_mmap d (os s) of
        (None, w) \<Rightarrow> Inl AssertFail
      | (Some p, w) \<Rightarrow> Inr (p, s\<lparr>os := w\<rparr>))"

text \<open>An unused allocation object, from the pool or from a batch.\<close>

definition take_object :: "'w sysfns \<Rightarrow> ('w heaph, unit) act" where
  "take_object d s =
     (if alloc_pool s > 0 then Inr ((), s\<lparr>alloc_pool := alloc_pool s - 1\<rparr>)
      else case batch_used s of
             None \<Rightarrow> act_bind (heaph_mmap d) (\<lambda>_. act_upd (\<lambda>s. s\<lparr>batch_used := Some 1\<rparr>)) s
           | Some n \<Rightarrow>
               if n = ALLOCATION_BATCH_SIZE
               then act_bind (heaph_mmap d) (\<lambda>_. act_upd (\<lambda>s. s\<lparr>batch_used := Some 1\<rparr>)) s
               else if n < ALLOCATION_BATCH_SIZE then Inr ((), s\<lparr>batch_used := Some (n + 1)\<rparr>)
               else Inl AssertFail)"

definition alloc_trace_new :: "'w sysfns \<Rightarrow> nat \<Rightarrow> nat \<Rightarrow> ('w heaph, unit) act" where
  "alloc_trace_new d ptr sz s =
     (if alloc_is_static s ptr then Inr ((), s)
      else if depth s > 1 then Inr ((), s)
      else act_seq (heaph_assert (\<lambda>s. depth s > 0))
           (act_seq (heaph_assert is_init_done)
           (\<lambda>s. if is_exit_done s then Inr ((), s)
                else act_seq allocs_acq (act_seq (take_object d) (act_seq allocs_rel
                     (act_bind (act_get (\<lambda>s. \<lparr>trace = (if depth s = 1 then take MAX_BACKTRACE_LEN (s_backtrace d (os s)) else []),
                                              mem = ptr, a_size = sz\<rparr>)) (\<lambda>a.
                      act_seq allocs_acq (act_seq
                        (act_upd (\<lambda>s. s\<lparr>allocs := a # allocs s, alloc_count := alloc_count s + 1,
                                        alloc_count_total := alloc_count_total s + 1\<rparr>))
                        allocs_rel))))) s)) s)"

text \<open>Unlinking the first object of a block, if there is one.\<close>

fun unlink_alloc :: "nat \<Rightarrow> allocation list \<Rightarrow> allocation list option" where
  "unlink_alloc ptr [] = None"
| "unlink_alloc ptr (a # as) = (if mem a = ptr then Some as else map_option (Cons a) (unlink_alloc ptr as))"

definition alloc_free :: "nat \<Rightarrow> ('w heaph, unit) act" where
  "alloc_free ptr s =
     (if alloc_is_static s ptr then Inr ((), s)
      else if depth s > 1 then Inr ((), s)
      else act_seq (heaph_assert is_init_done)
           (\<lambda>s. if is_exit_done s then Inr ((), s)
                else act_seq allocs_acq (\<lambda>s.
                     case unlink_alloc ptr (allocs s) of
                       None \<Rightarrow> act_seq allocs_rel (heaph_assert (\<lambda>_. False)) s
                     | Some as \<Rightarrow>
                         act_seq (act_upd (\<lambda>s. s\<lparr>allocs := as, alloc_pool := alloc_pool s + 1, alloc_count := alloc_count s - 1\<rparr>))
                           (act_seq allocs_rel (heaph_assert (\<lambda>s. alloc_count s \<ge> 0))) s) s) s)"

section \<open>The static allocator\<close>

definition static_allocator_touch :: "'w sysfns \<Rightarrow> ('w heaph, unit) act" where
  "static_allocator_touch d s =
     (if static_buf s \<noteq> 0 then Inr ((), s)
      else act_bind (heaph_mmap d) (\<lambda>p. act_upd (\<lambda>s. s\<lparr>static_size := 16 * 1024, static_buf := p\<rparr>)) s)"

definition static_malloc :: "'w sysfns \<Rightarrow> nat \<Rightarrow> ('w heaph, nat) act" where
  "static_malloc d sz =
     act_seq (heaph_assert (\<lambda>s. \<not> is_init_done s))
     (act_seq (heaph_assert init_lock)
     (act_seq (static_allocator_touch d)
     (act_seq (heaph_assert (\<lambda>s. static_size s \<ge> static_used s))
     (act_seq (heaph_assert (\<lambda>s. sz < static_size s - static_used s))
     (act_bind (act_get (\<lambda>s. static_buf s + static_used s)) (\<lambda>res.
      act_seq (act_upd (\<lambda>s. s\<lparr>static_used := static_used s + sz\<rparr>)) (act_ret res)))))))"

definition static_free :: "'w sysfns \<Rightarrow> nat \<Rightarrow> ('w heaph, unit) act" where
  "static_free d ptr =
     act_seq (heaph_assert (\<lambda>s. \<not> is_init_done s))
     (act_seq (heaph_assert init_lock)
     (act_seq (static_allocator_touch d)
      (heaph_assert (\<lambda>s. ptr = 0 \<or> alloc_is_static s ptr))))"

text \<open>The product of two sizes wraps around.\<close>

definition size_mult :: "nat \<Rightarrow> nat \<Rightarrow> nat" where
  "size_mult a b = (a * b) mod 2 ^ 64"

definition static_calloc :: "'w sysfns \<Rightarrow> nat \<Rightarrow> nat \<Rightarrow> ('w heaph, nat) act" where
  "static_calloc d n sz = static_malloc d (size_mult sz n)"

section \<open>Initialisation\<close>

definition heaph_lock :: "('w heaph, unit) act" where
  "heaph_lock s =
     (if init_lock_count s = 0
      then rbind (spinlock_acq (init_lock s)) (\<lambda>l. Inr ((), s\<lparr>init_lock := l, init_lock_count := init_lock_count s + 1\<rparr>))
      else Inr ((), s\<lparr>init_lock_count := init_lock_count s + 1\<rparr>))"

definition heaph_unlock :: "('w heaph, unit) act" where
  "heaph_unlock =
     act_seq (heaph_assert (\<lambda>s. init_lock_count s > 0))
     (\<lambda>s. let s = s\<lparr>init_lock_count := init_lock_count s - 1\<rparr>
          in if init_lock_count s = 0
             then rbind (spinlock_rel (init_lock s)) (\<lambda>l. Inr ((), s\<lparr>init_lock := l\<rparr>))
             else Inr ((), s))"

text \<open>The calls through \<open>default_malloc\<close> and \<open>default_calloc\<close>.\<close>

definition default_malloc :: "'w sysfns \<Rightarrow> nat \<Rightarrow> ('w heaph, nat) act" where
  "default_malloc d sz s =
     (case default_fns s of
        DefNull \<Rightarrow> Inl NullDeref
      | DefStatic \<Rightarrow> static_malloc d sz s
      | DefSystem \<Rightarrow> (case s_malloc d sz (os s) of (p, w) \<Rightarrow> Inr (p, s\<lparr>os := w\<rparr>)))"

definition default_calloc :: "'w sysfns \<Rightarrow> nat \<Rightarrow> nat \<Rightarrow> ('w heaph, nat) act" where
  "default_calloc d n sz s =
     (case default_fns s of
        DefNull \<Rightarrow> Inl NullDeref
      | DefStatic \<Rightarrow> static_calloc d n sz s
      | DefSystem \<Rightarrow> (case s_calloc d n sz (os s) of (p, w) \<Rightarrow> Inr (p, s\<lparr>os := w\<rparr>)))"

definition default_free :: "'w sysfns \<Rightarrow> nat \<Rightarrow> ('w heaph, unit) act" where
  "default_free d ptr s =
     (case default_fns s of
        DefNull \<Rightarrow> Inl NullDeref
      | DefStatic \<Rightarrow> static_free d ptr s
      | DefSystem \<Rightarrow> Inr ((), s\<lparr>os := s_free d ptr (os s)\<rparr>))"

text \<open>A call of one of the original functions that the static allocator does not replace.\<close>

definition sys_call :: "('w \<Rightarrow> 'a \<times> 'w) \<Rightarrow> ('w heaph, 'a) act" where
  "sys_call f s =
     (case default_fns s of
        DefSystem \<Rightarrow> (case f (os s) of (x, w) \<Rightarrow> Inr (x, s\<lparr>os := w\<rparr>))
      | _ \<Rightarrow> Inl NullDeref)"

text \<open>A wrapper counts its depth around what it does.\<close>

definition deeper :: "('w heaph, 'a) act \<Rightarrow> ('w heaph, 'a) act" where
  "deeper m =
     act_seq (act_upd (\<lambda>s. s\<lparr>depth := depth s + 1\<rparr>))
     (act_bind m (\<lambda>x. act_seq (act_upd (\<lambda>s. s\<lparr>depth := depth s - 1\<rparr>)) (act_ret x)))"

text \<open>\<open>malloc\<close> after \<open>heaph_touch\<close>, which does nothing while \<open>heaph_init\<close> runs.\<close>

definition malloc_body :: "'w sysfns \<Rightarrow> nat \<Rightarrow> ('w heaph, nat) act" where
  "malloc_body d sz =
     deeper (act_bind (default_malloc d sz) (\<lambda>res.
             if res \<noteq> 0 then act_seq (alloc_trace_new d res sz) (act_ret res) else act_ret res))"

fun dlsym_calls :: "'w sysfns \<Rightarrow> nat list \<Rightarrow> ('w heaph, unit) act" where
  "dlsym_calls d [] = act_ret ()"
| "dlsym_calls d (sz # szs) = act_seq (malloc_body d sz) (dlsym_calls d szs)"

definition report_mode_of :: "string option \<Rightarrow> report_mode \<Rightarrow> report_mode" where
  "report_mode_of hh_report m =
     (case hh_report of
        None \<Rightarrow> m
      | Some v \<Rightarrow>
          if v = ''v'' then MODE_VERBOSE
          else if v = ''l'' then MODE_LEAKS
          else if v = ''q'' then MODE_QUIET
          else m)"

definition heaph_init :: "'w sysfns \<Rightarrow> ('w heaph, unit) act" where
  "heaph_init d =
     act_seq (act_upd (\<lambda>s. s\<lparr>default_fns := DefStatic\<rparr>))
     (act_seq (dlsym_calls d (s_dlsym_allocs d))
      (act_upd (\<lambda>s. s\<lparr>default_fns := DefSystem, h_report_mode := report_mode_of (s_getenv d) (h_report_mode s)\<rparr>)))"

definition heaph_touch :: "'w sysfns \<Rightarrow> ('w heaph, unit) act" where
  "heaph_touch d s =
     (if is_init_done s then Inr ((), s)
      else if init_lock_count s > 0 then Inr ((), s)
      else act_seq heaph_lock (act_seq (heaph_init d)
           (act_bind (act_get is_init_done) (\<lambda>old.
            act_seq (act_upd (\<lambda>s. s\<lparr>is_init_done := True\<rparr>))
            (act_seq heaph_unlock (heaph_assert (\<lambda>_. \<not> old)))))) s)"

section \<open>The replaced functions\<close>

definition getline :: "'w sysfns \<Rightarrow> nat \<Rightarrow> ('w heaph, int \<times> nat) act" where
  "getline d line_old =
     act_seq (heaph_touch d) (deeper (
     act_seq (heaph_assert (\<lambda>s. \<not> alloc_is_static s line_old))
     (act_bind (sys_call (\<lambda>w. case s_getline d line_old w of (res, line, len, w) \<Rightarrow> ((res, line, len), w))) (\<lambda>(res, line, len).
      act_seq
        (if line_old = 0 \<and> line \<noteq> 0 then alloc_trace_new d line (len + 1)
         else if line_old \<noteq> 0 \<and> line = 0 then heaph_assert (\<lambda>_. False)
         else if line_old \<noteq> 0 \<and> line \<noteq> 0 \<and> line_old \<noteq> line
              then act_seq (alloc_free line_old) (alloc_trace_new d line (len + 1))
         else if line_old \<noteq> line then heaph_assert (\<lambda>_. False)
         else act_ret ())
        (act_ret (res, line))))))"

definition strdup :: "'w sysfns \<Rightarrow> nat \<Rightarrow> ('w heaph, nat) act" where
  "strdup d ptr =
     act_seq (heaph_touch d)
     (act_seq (heaph_assert (\<lambda>s. \<not> is_exit_done s))
     (act_seq (heaph_assert (\<lambda>s. \<not> alloc_is_static s ptr))
     (deeper (act_bind (sys_call (\<lambda>w. case s_strdup d ptr w of (res, len, w) \<Rightarrow> ((res, len), w))) (\<lambda>(res, len).
       if res \<noteq> 0 then act_seq (alloc_trace_new d res (len + 1)) (act_ret res) else act_ret res)))))"

definition malloc :: "'w sysfns \<Rightarrow> nat \<Rightarrow> ('w heaph, nat) act" where
  "malloc d sz = act_seq (heaph_touch d) (malloc_body d sz)"

definition calloc :: "'w sysfns \<Rightarrow> nat \<Rightarrow> nat \<Rightarrow> ('w heaph, nat) act" where
  "calloc d n sz =
     act_seq (heaph_touch d)
     (deeper (act_bind (default_calloc d n sz) (\<lambda>res.
       if res \<noteq> 0 then act_seq (alloc_trace_new d res (size_mult n sz)) (act_ret res) else act_ret res)))"

definition realloc :: "'w sysfns \<Rightarrow> nat \<Rightarrow> nat \<Rightarrow> ('w heaph, nat) act" where
  "realloc d ptr sz =
     act_seq (heaph_touch d) (deeper (
     act_bind (act_get (\<lambda>s. if alloc_is_static s ptr then 0 else ptr)) (\<lambda>ptr.
     act_bind (sys_call (s_realloc d ptr sz)) (\<lambda>res.
     act_seq
       (if ptr = 0 \<and> res \<noteq> 0 then alloc_trace_new d res sz
        else if ptr \<noteq> 0 \<and> res = 0 then alloc_free ptr
        else if ptr \<noteq> 0 \<and> res \<noteq> ptr then act_seq (alloc_free ptr) (alloc_trace_new d res sz)
        else act_ret ())
       (act_ret res)))))"

definition free :: "'w sysfns \<Rightarrow> nat \<Rightarrow> ('w heaph, unit) act" where
  "free d ptr s =
     (if ptr = 0 then Inr ((), s)
      else if alloc_is_static s ptr then Inr ((), s)
      else act_seq (heaph_touch d) (deeper (act_seq (alloc_free ptr) (default_free d ptr))) s)"

definition getaddrinfo :: "'w sysfns \<Rightarrow> ('w heaph, int \<times> nat) act" where
  "getaddrinfo d =
     act_seq (heaph_touch d) (deeper (
     act_bind (sys_call (\<lambda>w. case s_getaddrinfo d w of (rc, res, sz, w) \<Rightarrow> ((rc, res, sz), w))) (\<lambda>(rc, res, sz).
     act_seq (if rc = 0 \<and> res \<noteq> 0 then alloc_trace_new d res sz else act_ret ()) (act_ret (rc, res)))))"

definition freeaddrinfo :: "'w sysfns \<Rightarrow> nat \<Rightarrow> ('w heaph, unit) act" where
  "freeaddrinfo d ai s =
     (if ai = 0 then Inr ((), s)
      else act_seq (heaph_assert (\<lambda>s. \<not> alloc_is_static s ai))
           (act_seq (heaph_touch d)
           (deeper (act_seq (alloc_free ai) (sys_call (\<lambda>w. ((), s_freeaddrinfo d ai w)))))) s)"

definition heaph_get_alloc_count :: "('w heaph, int) act" where
  "heaph_get_alloc_count = act_seq allocs_acq (act_bind (act_get alloc_count) (\<lambda>res. act_seq allocs_rel (act_ret res)))"

section \<open>The report\<close>

definition trace_sym_is_func :: "symbol \<Rightarrow> string \<Rightarrow> bool" where
  "trace_sym_is_func sy func = (case sym_name sy of None \<Rightarrow> False | Some n \<Rightarrow> n = func)"

definition trace_sym_file_starts_with :: "symbol \<Rightarrow> string \<Rightarrow> bool" where
  "trace_sym_file_starts_with sy file_name =
     (case sym_file sy of None \<Rightarrow> False | Some f \<Rightarrow> take (length file_name) f = file_name)"

definition trace_sym_is_internal :: "symbol \<Rightarrow> bool" where
  "trace_sym_is_internal sy =
     (if trace_sym_is_func sy ''puts'' then True
      else if trace_sym_is_func sy ''pthread_create'' then True
      else if trace_sym_is_func sy ''_IO_printf'' then True
      else if trace_sym_is_func sy ''_IO_puts'' then True
      else if trace_sym_is_func sy ''_IO_vfscanf'' then True
      else trace_sym_file_starts_with sy ''libpthread.so'')"

fun trace_is_internal :: "symbol list \<Rightarrow> bool" where
  "trace_is_internal [] = False"
| "trace_is_internal (sy # syms) = (if trace_sym_is_internal sy then True else trace_is_internal syms)"

definition trace_resolve :: "'w sysfns \<Rightarrow> nat list \<Rightarrow> symbol list" where
  "trace_resolve d addrs =
     map (\<lambda>a. case s_dladdr d a of None \<Rightarrow> \<lparr>sym_file = None, sym_name = None\<rparr> | Some s \<Rightarrow> s) addrs"

datatype report_line =
    NoLeaks
  | Leak nat nat "string option list"
  | Found int u64
  | Suppressed int
  | OnlyFirst nat
  | TotalCount u64

text \<open>
  The loop of \<open>heaph_atexit\<close> over the blocks: the count, the number of reports, the size and
  the reports themselves. The size wraps around.
\<close>

fun report_loop :: "'w sysfns \<Rightarrow> allocation list \<Rightarrow> int \<Rightarrow> nat \<Rightarrow> u64 \<Rightarrow> (int \<times> nat \<times> u64 \<times> report_line list) cres" where
  "report_loop d [] count report_count leak_size = Inr (count, report_count, leak_size, [])"
| "report_loop d (a # as) count report_count leak_size =
     (if \<not> count > 0 then Inl AssertFail
      else if trace a = [] then report_loop d as (count - 1) report_count leak_size
      else let syms = trace_resolve d (trace a)
           in if trace_is_internal syms then report_loop d as (count - 1) report_count leak_size
              else let shown = report_count < 10;
                       line = (if shown then [Leak (report_count + 1) (a_size a) (map sym_name syms)] else []);
                       report_count = (if shown then report_count + 1 else report_count)
                   in rbind (report_loop d as count report_count (leak_size + of_nat (a_size a))) (\<lambda>(c, r, l, ls).
                      Inr (c, r, l, line @ ls)))"

definition heaph_atexit :: "'w sysfns \<Rightarrow> ('w heaph, report_line list) act" where
  "heaph_atexit d s =
     (if is_exit_done s then Inr ([], s)
      else let s = s\<lparr>is_exit_done := True\<rparr>
           in if h_report_mode s = MODE_QUIET then Inr ([], s)
              else act_seq allocs_acq (\<lambda>s.
                   let count = alloc_count s
                   in if count = 0
                      then act_seq allocs_rel (act_ret (if h_report_mode s = MODE_VERBOSE
                             then [NoLeaks, TotalCount (alloc_count_total s)] else [])) s
                      else rbind (report_loop d (allocs s) count 0 0) (\<lambda>(c, report_count, leak_size, ls).
                           act_seq allocs_rel (act_ret (
                             if c = 0 \<and> h_report_mode s \<noteq> MODE_VERBOSE then ls
                             else ls @ [Found c leak_size] @
                                  (if count - c \<noteq> 0 then [Suppressed (count - c)] else []) @
                                  (if int report_count < c then [OnlyFirst report_count] else []) @
                                  [TotalCount (alloc_count_total s)])) s)) s)"

text \<open>The static variables at the start of the program.\<close>

definition heaph_start :: "'w \<Rightarrow> 'w heaph" where
  "heaph_start w = \<lparr>init_lock = False, is_init_done = False, is_exit_done = False, init_lock_count = 0, depth = 0,
     h_report_mode = MODE_LEAKS, static_size = 0, static_used = 0, static_buf = 0, allocs_lock = False,
     alloc_count = 0, alloc_count_total = 0, allocs = [], alloc_pool = 0, batch_used = None,
     default_fns = DefNull, os = w\<rparr>"

end
