(* ===== verification/HeapHelp_Spec.thy ===== *)
theory HeapHelp_Spec
  imports HeapHelp
begin

text \<open>
  What the leak checker of src/utils/heap_help/heap_help.c promises: its table holds exactly the live
  blocks of the original allocator, and the report at exit counts exactly those a user has left.
\<close>

section \<open>What the original functions promise\<close>

text \<open>
  \<open>live w\<close> are the blocks of the original allocator, \<open>area\<close> the addresses it never hands out: an
  allocation returns null or a new block, \<open>free\<close> gives a block back, \<open>mmap\<close> succeeds and does not
  touch the heap.
\<close>

definition fresh_block :: "nat set \<Rightarrow> ('w \<Rightarrow> nat set) \<Rightarrow> 'w \<Rightarrow> nat \<times> 'w \<Rightarrow> bool" where
  "fresh_block area live w r \<longleftrightarrow>
     (if fst r = 0 then live (snd r) = live w
      else fst r \<notin> live w \<and> fst r \<notin> area \<and> live (snd r) = insert (fst r) (live w))"

definition heap_laws :: "'w sysfns \<Rightarrow> nat set \<Rightarrow> ('w \<Rightarrow> nat set) \<Rightarrow> bool" where
  "heap_laws d area live \<longleftrightarrow>
     (\<forall>n w. fresh_block area live w (s_malloc d n w)) \<and>
     (\<forall>n k w. fresh_block area live w (s_calloc d n k w)) \<and>
     (\<forall>p w. p \<in> live w \<longrightarrow> live (s_free d p w) = live w - {p}) \<and>
     (\<forall>p k w. p \<in> live w \<longrightarrow> fst (s_realloc d p k w) \<noteq> 0 \<longrightarrow>
        (fst (s_realloc d p k w) = p \<or> fst (s_realloc d p k w) \<notin> live w \<union> area) \<and>
        live (snd (s_realloc d p k w)) = insert (fst (s_realloc d p k w)) (live w - {p})) \<and>
     (\<forall>w. fst (s_mmap d w) \<noteq> None \<and> live (snd (s_mmap d w)) = live w)"

text \<open>Between two calls: exactly the live blocks are in the table, each once.\<close>

definition hh_inv :: "nat set \<Rightarrow> ('w \<Rightarrow> nat set) \<Rightarrow> 'w heaph \<Rightarrow> bool" where
  "hh_inv area live s \<longleftrightarrow> is_init_done s \<and> \<not> is_exit_done s \<and> depth s = 0 \<and> \<not> allocs_lock s \<and> default_fns s = DefSystem \<and>
     alloc_count s = int (length (allocs s)) \<and> distinct (map mem (allocs s)) \<and> mem ` set (allocs s) = live (os s) \<and>
     (\<forall>p. alloc_is_static s p \<longrightarrow> p \<in> area) \<and> 0 \<notin> live (os s) \<and> live (os s) \<inter> area = {} \<and>
     (\<forall>n. batch_used s = Some n \<longrightarrow> n \<le> ALLOCATION_BATCH_SIZE)"

text \<open>The same inside a wrapper, with the table and the heap apart.\<close>

definition hh_mid :: "nat set \<Rightarrow> nat set \<Rightarrow> 'w heaph \<Rightarrow> bool" where
  "hh_mid area tracked s \<longleftrightarrow> is_init_done s \<and> \<not> is_exit_done s \<and> depth s = 1 \<and> \<not> allocs_lock s \<and> default_fns s = DefSystem \<and>
     alloc_count s = int (length (allocs s)) \<and> distinct (map mem (allocs s)) \<and> mem ` set (allocs s) = tracked \<and>
     (\<forall>p. alloc_is_static s p \<longrightarrow> p \<in> area) \<and>
     (\<forall>n. batch_used s = Some n \<longrightarrow> n \<le> ALLOCATION_BATCH_SIZE)"

lemma static_upd [simp]:
  "alloc_is_static (s\<lparr>depth := x\<rparr>) = alloc_is_static s"
  "alloc_is_static (s\<lparr>os := w\<rparr>) = alloc_is_static s"
  "alloc_is_static (s\<lparr>allocs_lock := l\<rparr>) = alloc_is_static s"
  "alloc_is_static (s\<lparr>batch_used := b\<rparr>) = alloc_is_static s"
  "alloc_is_static (s\<lparr>alloc_pool := k\<rparr>) = alloc_is_static s"
  "alloc_is_static (s\<lparr>allocs := as\<rparr>) = alloc_is_static s"
  "alloc_is_static (s\<lparr>alloc_count := c\<rparr>) = alloc_is_static s"
  "alloc_is_static (s\<lparr>alloc_count_total := t\<rparr>) = alloc_is_static s"
  by (simp_all add: alloc_is_static_def fun_eq_iff)

lemma take_object_ok:
  assumes "hh_mid area T s" "\<And>w. fst (s_mmap d w) \<noteq> None \<and> live (snd (s_mmap d w)) = live w"
  shows "\<exists>s'. take_object d (s\<lparr>allocs_lock := True\<rparr>) = Inr ((), s'\<lparr>allocs_lock := True\<rparr>) \<and> hh_mid area T s' \<and>
    live (os s') = live (os s) \<and> allocs s' = allocs s"
proof -
  obtain p w where mm: "s_mmap d (os s) = (Some p, w)" "live w = live (os s)"
    using assms(2) [of "os s"] by (cases "s_mmap d (os s)") auto
  consider (pool) "alloc_pool s > 0" | (batch) "alloc_pool s = 0" "batch_used s = None \<or> batch_used s = Some ALLOCATION_BATCH_SIZE"
    | (slot) n where "alloc_pool s = 0" "batch_used s = Some n" "n < ALLOCATION_BATCH_SIZE"
    using assms(1) by (cases "batch_used s") (fastforce simp: hh_mid_def)+
  then show ?thesis
  proof cases
    case pool
    then show ?thesis using assms(1) by (intro exI [of _ "s\<lparr>alloc_pool := alloc_pool s - 1\<rparr>"]) (simp add: take_object_def hh_mid_def)
  next
    case batch
    then show ?thesis using assms(1) mm
      by (intro exI [of _ "s\<lparr>os := w, batch_used := Some 1\<rparr>"]) (auto simp: take_object_def hh_mid_def act_defs heaph_mmap_def)
  next
    case slot
    then show ?thesis using assms(1)
      by (intro exI [of _ "s\<lparr>batch_used := Some (n + 1)\<rparr>"]) (auto simp: take_object_def hh_mid_def)
  qed
qed

lemma trace_new_ok:
  assumes "hh_mid area T s" "p \<notin> area" "p \<notin> T" "\<And>w. fst (s_mmap d w) \<noteq> None \<and> live (snd (s_mmap d w)) = live w"
  shows "\<exists>s'. alloc_trace_new d p n s = Inr ((), s') \<and> hh_mid area (insert p T) s' \<and> live (os s') = live (os s)"
proof -
  from take_object_ok [where live = live, OF assms(1,4)] obtain s1 where s1: "take_object d (s\<lparr>allocs_lock := True\<rparr>) = Inr ((), s1\<lparr>allocs_lock := True\<rparr>)"
    "hh_mid area T s1" "live (os s1) = live (os s)" by auto
  let ?a = "\<lparr>trace = take MAX_BACKTRACE_LEN (s_backtrace d (os s1)), mem = p, a_size = n\<rparr>"
  let ?s = "s1\<lparr>allocs := ?a # allocs s1, alloc_count := alloc_count s1 + 1, alloc_count_total := alloc_count_total s1 + 1\<rparr>"
  have "\<not> alloc_is_static s p" "depth s = 1" "is_init_done s" "\<not> is_exit_done s" "\<not> allocs_lock s" "depth s1 = 1" "\<not> allocs_lock s1"
    using assms(1,2) s1(2) by (auto simp: hh_mid_def)
  then have "alloc_trace_new d p n s = Inr ((), ?s)"
    using s1(1) by (simp add: alloc_trace_new_def act_defs heaph_assert_def allocs_acq_def allocs_rel_def spinlock_acq_def spinlock_rel_def)
  moreover have "hh_mid area (insert p T) ?s" using s1(2) assms(3) by (auto simp: hh_mid_def)
  ultimately show ?thesis using s1(3) by (intro exI [of _ ?s]) simp
qed

lemma unlink_ok:
  "distinct (map mem as) \<Longrightarrow> p \<in> mem ` set as \<Longrightarrow>
     \<exists>bs. unlink_alloc p as = Some bs \<and> distinct (map mem bs) \<and> mem ` set bs = mem ` set as - {p} \<and> length as = length bs + 1"
proof (induction as)
  case (Cons a as)
  show ?case
  proof (cases "mem a = p")
    case True
    with Cons.prems show ?thesis by auto
  next
    case False
    with Cons obtain bs where "unlink_alloc p as = Some bs" "distinct (map mem bs)" "mem ` set bs = mem ` set as - {p}" "length as = length bs + 1"
      by auto
    with False Cons.prems show ?thesis by auto
  qed
qed simp

lemma unlink_none: "p \<notin> mem ` set as \<Longrightarrow> unlink_alloc p as = None"
  by (induction as) auto

lemmas lock_defs = heaph_assert_def allocs_acq_def allocs_rel_def spinlock_acq_def spinlock_rel_def

lemma alloc_free_ok:
  assumes "hh_mid area T s" "p \<in> T" "p \<notin> area"
  shows "\<exists>s'. alloc_free p s = Inr ((), s') \<and> hh_mid area (T - {p}) s' \<and> os s' = os s"
proof -
  from assms(1,2) unlink_ok [of "allocs s" p] obtain bs where
    bs: "unlink_alloc p (allocs s) = Some bs" "distinct (map mem bs)" "mem ` set bs = T - {p}" "length (allocs s) = length bs + 1"
    by (auto simp: hh_mid_def)
  let ?s = "s\<lparr>allocs := bs, alloc_pool := alloc_pool s + 1, alloc_count := alloc_count s - 1\<rparr>"
  have "\<not> alloc_is_static s p" "depth s = 1" "is_init_done s" "\<not> is_exit_done s" "\<not> allocs_lock s" "alloc_count s = int (length bs) + 1"
    using assms(1,3) bs(4) by (auto simp: hh_mid_def)
  then have "alloc_free p s = Inr ((), ?s)" using bs(1) by (simp add: alloc_free_def act_defs lock_defs)
  moreover have "hh_mid area (T - {p}) ?s" using assms(1) bs by (auto simp: hh_mid_def)
  ultimately show ?thesis by auto
qed

lemma alloc_free_bad:
  assumes "hh_mid area T s" "p \<notin> T" "p \<notin> area"
  shows "alloc_free p s = Inl AssertFail"
proof -
  have "unlink_alloc p (allocs s) = None" using assms(1,2) by (intro unlink_none) (auto simp: hh_mid_def)
  moreover have "\<not> alloc_is_static s p" "depth s = 1" "is_init_done s" "\<not> is_exit_done s" "\<not> allocs_lock s"
    using assms(1,3) by (auto simp: hh_mid_def)
  ultimately show ?thesis by (simp add: alloc_free_def act_defs lock_defs)
qed

text \<open>Entering and leaving a wrapper.\<close>

lemma hh_enter:
  "hh_inv area live s \<Longrightarrow> hh_mid area (live (os s)) (s\<lparr>depth := depth s + 1\<rparr>)"
  by (simp add: hh_inv_def hh_mid_def)

lemma hh_leave:
  "hh_mid area (live (os s)) s \<Longrightarrow> 0 \<notin> live (os s) \<Longrightarrow> live (os s) \<inter> area = {} \<Longrightarrow> hh_inv area live (s\<lparr>depth := depth s - 1\<rparr>)"
  by (simp add: hh_inv_def hh_mid_def)

lemma deeper_ok:
  assumes "hh_inv area live s"
    and "\<exists>s'. m (s\<lparr>depth := depth s + 1\<rparr>) = Inr (x, s') \<and> hh_mid area (live (os s')) s' \<and> live (os s') = L"
    and "0 \<notin> L" "L \<inter> area = {}"
  shows "\<exists>s'. deeper m s = Inr (x, s') \<and> hh_inv area live s' \<and> live (os s') = L"
proof -
  from assms(2) obtain s' where s': "m (s\<lparr>depth := depth s + 1\<rparr>) = Inr (x, s')" "hh_mid area (live (os s')) s'" "live (os s') = L" by blast
  from s'(1) have "deeper m s = Inr (x, s'\<lparr>depth := depth s' - 1\<rparr>)" by (simp add: deeper_def act_defs)
  with hh_leave [where live = live, OF s'(2)] s'(3) assms(3,4) show ?thesis by auto
qed

lemma hh_touch: "hh_inv area live s \<Longrightarrow> heaph_touch d s = Inr ((), s)"
  by (simp add: hh_inv_def heaph_touch_def)

text \<open>A wrapper that asks the original allocator for a block and puts it into the table.\<close>

lemma new_block_ok:
  assumes inv: "hh_inv area live s" and mm: "\<And>w. fst (s_mmap d w) \<noteq> None \<and> live (snd (s_mmap d w)) = live w"
    and f: "\<And>s. default_fns s = DefSystem \<Longrightarrow> f s = Inr (fst (g (os s)), s\<lparr>os := snd (g (os s))\<rparr>)"
    and fresh: "fresh_block area live (os s) (g (os s))"
  shows "\<exists>p s'. deeper (act_bind f (\<lambda>res. if res \<noteq> 0 then act_seq (alloc_trace_new d res n) (act_ret res) else act_ret res)) s = Inr (p, s') \<and>
    hh_inv area live s' \<and> p = fst (g (os s)) \<and> live (os s') = live (snd (g (os s)))"
proof -
  let ?p = "fst (g (os s))" and ?w = "snd (g (os s))" and ?s = "s\<lparr>depth := depth s + 1\<rparr>"
  have mid: "hh_mid area (live (os s)) (?s\<lparr>os := ?w\<rparr>)" using hh_enter [OF inv] by (simp add: hh_mid_def)
  have f': "f ?s = Inr (?p, ?s\<lparr>os := ?w\<rparr>)" using f [of ?s] inv by (simp add: hh_inv_def)
  have L: "0 \<notin> live ?w" "live ?w \<inter> area = {}" using inv fresh by (auto simp: hh_inv_def fresh_block_def split: if_splits)
  have "\<exists>s'. act_bind f (\<lambda>res. if res \<noteq> 0 then act_seq (alloc_trace_new d res n) (act_ret res) else act_ret res) ?s = Inr (?p, s') \<and>
      hh_mid area (live (os s')) s' \<and> live (os s') = live ?w"
  proof (cases "?p = 0")
    case True
    then show ?thesis using f' mid fresh by (auto simp: act_defs fresh_block_def)
  next
    case False
    with fresh have p: "?p \<notin> area" "?p \<notin> live (os s)" "live ?w = insert ?p (live (os s))" by (simp_all add: fresh_block_def)
    from trace_new_ok [where live = live and n = n, OF mid p(1,2) mm] p(3) obtain s' where
      "alloc_trace_new d ?p n (?s\<lparr>os := ?w\<rparr>) = Inr ((), s')" "hh_mid area (live ?w) s'" "live (os s') = live ?w" by auto
    with False f' show ?thesis by (auto simp: act_defs)
  qed
  from deeper_ok [where live = live and s = s and x = ?p and L = "live ?w" and
      m = "act_bind f (\<lambda>res. if res \<noteq> 0 then act_seq (alloc_trace_new d res n) (act_ret res) else act_ret res)", OF inv this L] show ?thesis by auto
qed

lemma default_calls:
  "default_fns s = DefSystem \<Longrightarrow> default_malloc d n s = Inr (fst (s_malloc d n (os s)), s\<lparr>os := snd (s_malloc d n (os s))\<rparr>)"
  "default_fns s = DefSystem \<Longrightarrow> default_calloc d k n s = Inr (fst (s_calloc d k n (os s)), s\<lparr>os := snd (s_calloc d k n (os s))\<rparr>)"
  by (simp_all add: default_malloc_def default_calloc_def case_prod_beta)

lemma malloc_ok:
  assumes "heap_laws d area live" "hh_inv area live s"
  shows "\<exists>p s'. malloc d n s = Inr (p, s') \<and> hh_inv area live s' \<and> fresh_block area live (os s) (p, os s')"
proof -
  have laws: "fresh_block area live (os s) (s_malloc d n (os s))" "\<And>w. fst (s_mmap d w) \<noteq> None \<and> live (snd (s_mmap d w)) = live w"
    using assms(1) by (auto simp: heap_laws_def)
  from new_block_ok [where f = "default_malloc d n" and g = "s_malloc d n" and n = n, OF assms(2) laws(2) default_calls(1) laws(1)]
  obtain p s' where "malloc_body d n s = Inr (p, s')" "hh_inv area live s'" "p = fst (s_malloc d n (os s))"
    "live (os s') = live (snd (s_malloc d n (os s)))"
    unfolding malloc_body_def by blast
  with laws(1) hh_touch [OF assms(2)] show ?thesis by (auto simp: malloc_def act_bind_def fresh_block_def)
qed

lemma calloc_ok:
  assumes "heap_laws d area live" "hh_inv area live s"
  shows "\<exists>p s'. calloc d k n s = Inr (p, s') \<and> hh_inv area live s' \<and> fresh_block area live (os s) (p, os s')"
proof -
  have laws: "fresh_block area live (os s) (s_calloc d k n (os s))" "\<And>w. fst (s_mmap d w) \<noteq> None \<and> live (snd (s_mmap d w)) = live w"
    using assms(1) by (auto simp: heap_laws_def)
  from new_block_ok [where f = "default_calloc d k n" and g = "s_calloc d k n" and n = "size_mult k n", OF assms(2) laws(2) default_calls(2) laws(1)]
  obtain p s' where "deeper (act_bind (default_calloc d k n) (\<lambda>res.
       if res \<noteq> 0 then act_seq (alloc_trace_new d res (size_mult k n)) (act_ret res) else act_ret res)) s = Inr (p, s')"
    "hh_inv area live s'" "p = fst (s_calloc d k n (os s))" "live (os s') = live (snd (s_calloc d k n (os s)))"
    by blast
  with laws(1) hh_touch [OF assms(2)] show ?thesis by (auto simp: calloc_def act_bind_def fresh_block_def)
qed

lemma free_ok:
  assumes "heap_laws d area live" "hh_inv area live s" "p \<in> live (os s)"
  shows "\<exists>s'. free d p s = Inr ((), s') \<and> hh_inv area live s' \<and> live (os s') = live (os s) - {p}"
proof -
  have p: "p \<noteq> 0" "\<not> alloc_is_static s p" "p \<notin> area" using assms(2,3) by (auto simp: hh_inv_def)
  let ?s = "s\<lparr>depth := depth s + 1\<rparr>"
  have law: "live (s_free d p (os s)) = live (os s) - {p}" using assms(1,3) by (simp add: heap_laws_def)
  from alloc_free_ok [OF hh_enter [OF assms(2)] assms(3) p(3)] obtain s1 where
    s1: "alloc_free p ?s = Inr ((), s1)" "hh_mid area (live (os s) - {p}) s1" "os s1 = os s" by auto
  have "act_seq (alloc_free p) (default_free d p) ?s = Inr ((), s1\<lparr>os := s_free d p (os s)\<rparr>)"
    using s1 by (simp add: act_defs default_free_def hh_mid_def)
  moreover have "hh_mid area (live (os s) - {p}) (s1\<lparr>os := s_free d p (os s)\<rparr>)" using s1(2) by (simp add: hh_mid_def)
  ultimately have "\<exists>s'. act_seq (alloc_free p) (default_free d p) ?s = Inr ((), s') \<and> hh_mid area (live (os s')) s' \<and>
      live (os s') = live (os s) - {p}" using law by auto
  moreover have "0 \<notin> live (os s) - {p}" "(live (os s) - {p}) \<inter> area = {}" using assms(2) by (auto simp: hh_inv_def)
  ultimately obtain s' where
    "deeper (act_seq (alloc_free p) (default_free d p)) s = Inr ((), s')" "hh_inv area live s'" "live (os s') = live (os s) - {p}"
    using deeper_ok [where live = live and s = s and x = "()" and L = "live (os s) - {p}" and
      m = "act_seq (alloc_free p) (default_free d p)", OF assms(2)] by blast
  with p hh_touch [OF assms(2)] show ?thesis by (auto simp: free_def act_bind_def)
qed

lemma free_bad:
  assumes "hh_inv area live s" "p \<noteq> 0" "p \<notin> live (os s)" "p \<notin> area"
  shows "free d p s = Inl AssertFail"
proof -
  have "\<not> alloc_is_static s p" using assms(1,4) by (auto simp: hh_inv_def)
  with alloc_free_bad [OF hh_enter [OF assms(1)] assms(3,4)] hh_touch [OF assms(1)] assms(2) show ?thesis
    by (simp add: free_def deeper_def act_defs)
qed

lemma realloc_ok:
  assumes "heap_laws d area live" "hh_inv area live s" "p \<in> live (os s)" "fst (s_realloc d p n (os s)) \<noteq> 0"
  shows "\<exists>q s'. realloc d p n s = Inr (q, s') \<and> hh_inv area live s' \<and> live (os s') = insert q (live (os s) - {p})"
proof -
  let ?q = "fst (s_realloc d p n (os s))" and ?w = "snd (s_realloc d p n (os s))" and ?s = "s\<lparr>depth := depth s + 1\<rparr>"
  have p: "p \<noteq> 0" "\<not> alloc_is_static s p" "p \<notin> area" using assms(2,3) by (auto simp: hh_inv_def)
  have law: "?q = p \<or> ?q \<notin> live (os s) \<union> area" "live ?w = insert ?q (live (os s) - {p})"
    and mm: "\<And>w. fst (s_mmap d w) \<noteq> None \<and> live (snd (s_mmap d w)) = live w"
    using assms(1,3,4) by (auto simp: heap_laws_def)
  have mid: "hh_mid area (live (os s)) (?s\<lparr>os := ?w\<rparr>)" using hh_enter [OF assms(2)] by (simp add: hh_mid_def)
  let ?m = "act_bind (act_get (\<lambda>s. if alloc_is_static s p then 0 else p)) (\<lambda>ptr.
     act_bind (sys_call (s_realloc d ptr n)) (\<lambda>res.
     act_seq
       (if ptr = 0 \<and> res \<noteq> 0 then alloc_trace_new d res n
        else if ptr \<noteq> 0 \<and> res = 0 then alloc_free ptr
        else if ptr \<noteq> 0 \<and> res \<noteq> ptr then act_seq (alloc_free ptr) (alloc_trace_new d res n)
        else act_ret ())
       (act_ret res)))"
  have call: "sys_call (s_realloc d p n) ?s = Inr (?q, ?s\<lparr>os := ?w\<rparr>)"
    using assms(2) by (simp add: sys_call_def hh_inv_def split: prod.split)
  have "\<exists>s'. ?m ?s = Inr (?q, s') \<and> hh_mid area (live (os s')) s' \<and> live (os s') = insert ?q (live (os s) - {p})"
  proof (cases "?q = p")
    case True
    then have "?m ?s = Inr (?q, ?s\<lparr>os := ?w\<rparr>)" using call p assms(4) by (simp add: act_defs)
    moreover have "live ?w = live (os s)" using law(2) True assms(3) by auto
    ultimately show ?thesis using mid True assms(3) by (intro exI [of _ "?s\<lparr>os := ?w\<rparr>"]) (auto simp: insert_absorb)
  next
    case False
    from alloc_free_ok [OF mid assms(3) p(3)] obtain s1 where
      s1: "alloc_free p (?s\<lparr>os := ?w\<rparr>) = Inr ((), s1)" "hh_mid area (live (os s) - {p}) s1" "os s1 = ?w" by auto
    from False law(1) have "?q \<notin> area" "?q \<notin> live (os s) - {p}" by auto
    from trace_new_ok [where live = live and n = n, OF s1(2) this mm] obtain s2 where
      "alloc_trace_new d ?q n s1 = Inr ((), s2)" "hh_mid area (insert ?q (live (os s) - {p})) s2" "live (os s2) = live ?w"
      using s1(3) by auto
    with call s1(1) p False assms(4) law(2) show ?thesis by (auto simp: act_defs)
  qed
  moreover have "0 \<notin> insert ?q (live (os s) - {p})" "insert ?q (live (os s) - {p}) \<inter> area = {}"
    using assms(2,4) law(1) p(3) by (auto simp: hh_inv_def)
  ultimately obtain s' where "deeper ?m s = Inr (?q, s')" "hh_inv area live s'" "live (os s') = insert ?q (live (os s) - {p})"
    using deeper_ok [where live = live and m = ?m, OF assms(2)] by (metis (no_types, lifting))
  with hh_touch [OF assms(2)] show ?thesis by (auto simp: realloc_def act_bind_def)
qed

section \<open>The report\<close>

text \<open>A block that is reported: it has a backtrace, and not one of the runtime.\<close>

definition user_leak :: "'w sysfns \<Rightarrow> allocation \<Rightarrow> bool" where
  "user_leak d a \<longleftrightarrow> trace a \<noteq> [] \<and> \<not> trace_is_internal (trace_resolve d (trace a))"

text \<open>The reports of at most \<open>10 - k\<close> blocks, numbered from \<open>k + 1\<close>.\<close>

fun leak_lines :: "'w sysfns \<Rightarrow> nat \<Rightarrow> allocation list \<Rightarrow> report_line list" where
  "leak_lines d k [] = []"
| "leak_lines d k (a # as) =
     (if k < 10 then Leak (k + 1) (a_size a) (map sym_name (trace_resolve d (trace a))) # leak_lines d (k + 1) as else [])"

lemma leak_lines_end: "10 \<le> k \<Longrightarrow> leak_lines d k as = []"
  by (cases as) simp_all

lemma report_loop_ok:
  "int (length as) \<le> count \<Longrightarrow> k \<le> 10 \<Longrightarrow>
   report_loop d as count k l =
     Inr (count - int (length (filter (\<lambda>a. \<not> user_leak d a) as)), min 10 (k + length (filter (user_leak d) as)),
          l + (\<Sum>a\<leftarrow>filter (user_leak d) as. of_nat (a_size a)), leak_lines d k (filter (user_leak d) as))"
proof (induction as arbitrary: count k l)
  case (Cons a as)
  show ?case
  proof (cases "user_leak d a")
    case True
    then have "trace a \<noteq> []" "\<not> trace_is_internal (trace_resolve d (trace a))" by (simp_all add: user_leak_def)
    with True Cons show ?thesis by (simp add: Let_def leak_lines_end add.assoc)
  next
    case False
    then have "trace a = [] \<or> trace_is_internal (trace_resolve d (trace a))" by (simp add: user_leak_def)
    with False Cons show ?thesis by (auto simp: Let_def)
  qed
qed simp

section \<open>Properties\<close>


text \<open>A machine whose allocator hands out the addresses from 20000 on and never uses one twice.\<close>

type_synonym bump = "nat \<times> nat set"

definition bump_new :: "bump \<Rightarrow> nat \<times> bump" where
  "bump_new w = (20000 + fst w, (fst w + 1, insert (20000 + fst w) (snd w)))"

definition bump_fns :: "bump sysfns" where
  "bump_fns = \<lparr>s_malloc = (\<lambda>n. bump_new), s_free = (\<lambda>p w. (fst w, snd w - {p})), s_calloc = (\<lambda>n k. bump_new),
     s_realloc = (\<lambda>p k w. (p, w)), s_strdup = (\<lambda>p w. (0, 0, w)), s_getline = (\<lambda>p w. (-1, p, 0, w)),
     s_getaddrinfo = (\<lambda>w. (1, 0, 0, w)), s_freeaddrinfo = (\<lambda>p w. w), s_backtrace = (\<lambda>w. [7]), s_dladdr = (\<lambda>a. None),
     s_mmap = (\<lambda>w. (Some 16, w)), s_dlsym_allocs = [], s_getenv = None\<rparr>"

definition bump_live :: "bump \<Rightarrow> nat set" where
  "bump_live w = {p \<in> snd w. p < 20000 + fst w \<and> 20000 \<le> p}"

lemma bump_laws: "heap_laws bump_fns {16..16400} bump_live"
  by (auto simp: heap_laws_def fresh_block_def bump_fns_def bump_new_def bump_live_def)

definition demo_heap :: "bump heaph" where
  "demo_heap = (case heaph_touch bump_fns (heaph_start (0, {})) of Inr (_, s) \<Rightarrow> s | Inl _ \<Rightarrow> heaph_start (0, {}))"

lemma demo_heap_eq: "demo_heap = (heaph_start (0, {}))\<lparr>is_init_done := True, default_fns := DefSystem\<rparr>"
  by (simp add: demo_heap_def heaph_start_def heaph_touch_def heaph_lock_def heaph_unlock_def heaph_init_def act_defs lock_defs
      bump_fns_def report_mode_of_def)

lemma demo_heap_inv: "hh_inv {16..16400} bump_live demo_heap"
  by (auto simp: hh_inv_def demo_heap_eq heaph_start_def bump_live_def alloc_is_static_def)


text \<open>
  The report at exit is exact: it counts the blocks that are still live and have a backtrace
  outside of the runtime, adds up their sizes, lists the first ten of them, newest first, and says how
  many blocks were suppressed. Without such blocks nothing is printed, unless the verbose mode
  asks for it, and the loop over the blocks never fails.
\<close>

theorem heaph_report_exact:
  assumes "hh_inv area live s" "h_report_mode s \<noteq> MODE_QUIET" and us: "us = filter (user_leak d) (allocs s)"
  shows "heaph_atexit d s = Inr
    (if us = [] \<and> h_report_mode s = MODE_LEAKS then []
     else if allocs s = [] then [NoLeaks, TotalCount (alloc_count_total s)]
     else leak_lines d 0 us @ [Found (int (length us)) (\<Sum>a\<leftarrow>us. of_nat (a_size a))] @
       (if length us < length (allocs s) then [Suppressed (int (length (allocs s) - length us))] else []) @
       (if 10 < length us then [OnlyFirst 10] else []) @ [TotalCount (alloc_count_total s)],
     s\<lparr>is_exit_done := True\<rparr>)"
proof -
  have st: "\<not> is_exit_done s" "\<not> allocs_lock s" "alloc_count s = int (length (allocs s))" using assms(1) by (auto simp: hh_inv_def)
  have mode: "h_report_mode s \<noteq> MODE_VERBOSE \<longleftrightarrow> h_report_mode s = MODE_LEAKS" using assms(2) by (cases "h_report_mode s") auto
  have len: "length (filter (\<lambda>a. \<not> user_leak d a) (allocs s)) + length us = length (allocs s)"
    using sum_length_filter_compl [of "user_leak d" "allocs s"] us by simp
  have loop: "report_loop d (allocs s) (int (length (allocs s))) 0 0 =
      Inr (int (length us), min 10 (length us), \<Sum>a\<leftarrow>us. of_nat (a_size a), leak_lines d 0 us)"
    using report_loop_ok [of "allocs s" "int (length (allocs s))" 0 d 0] len us by simp
  show ?thesis
  proof (cases "allocs s = []")
    case True
    then have "us = []" using us by simp
    with True st mode assms(2) show ?thesis
      by (cases "h_report_mode s") (simp_all add: heaph_atexit_def act_defs lock_defs)
  next
    case False
    have "int (length (allocs s)) - int (length us) = int (length (allocs s) - length us)" using len by simp
    with False st mode assms(2) loop len show ?thesis
      by (cases "us = []") (auto simp: heaph_atexit_def act_defs lock_defs Let_def)
  qed
qed

definition demo_leak :: "bump heaph" where
  "demo_leak = demo_heap\<lparr>os := (1, {20000}), batch_used := Some 1, alloc_count := 1, alloc_count_total := 1,
     allocs := [\<lparr>trace = [7], mem = 20000, a_size = 8\<rparr>]\<rparr>"

lemma demo_leak_malloc: "malloc bump_fns 8 demo_heap = Inr (20000, demo_leak)"
  by (simp add: demo_leak_def demo_heap_eq malloc_def malloc_body_def deeper_def default_malloc_def alloc_trace_new_def
      take_object_def heaph_mmap_def heaph_touch_def heaph_start_def act_defs lock_defs bump_fns_def bump_new_def alloc_is_static_def)

theorem heaph_report_exact_witness:
  "heaph_atexit bump_fns demo_leak = Inr ([Leak 1 8 [None], Found 1 8, TotalCount 1], demo_leak\<lparr>is_exit_done := True\<rparr>)"
proof -
  have inv: "hh_inv {16..16400} bump_live demo_leak" using malloc_ok [OF bump_laws demo_heap_inv, of 8] demo_leak_malloc by auto
  have "h_report_mode demo_leak \<noteq> MODE_QUIET" by (simp add: demo_leak_def demo_heap_eq heaph_start_def)
  from heaph_report_exact [OF inv this refl, of bump_fns] show ?thesis
    by (simp add: demo_leak_def user_leak_def trace_resolve_def bump_fns_def trace_sym_is_internal_def trace_sym_is_func_def
        trace_sym_file_starts_with_def)
qed

end
