(* ===== verification/MemSort.thy ===== *)
theory MemSort
  imports Prelude
begin

text \<open>
  The parallel sort of src/lecture_examples/7_ipc/3_mem_sort.c: one process per file sorts its
  numbers and sends them to the main process through shared memory, in pieces, with two flags that
  say whose turn it is. The processes interleave at every access to the flags. A step that is
  \<open>None\<close> is a process that has read a flag that is not set, and yields.
\<close>

section \<open>The channel\<close>

text \<open>The mapped region: the two flags and the bytes behind them.\<close>

record shared =
  is_readable :: bool
  is_writable :: bool
  mem_data :: "char list"

definition mem_size :: nat where
  "mem_size = 65536 - 2"

definition mem_init :: shared where
  "mem_init = \<lparr>is_readable = False, is_writable = True, mem_data = replicate mem_size CHR 0x00\<rparr>"

text \<open>
  A running call of \<open>write_to_shared_mem\<close> or \<open>read_from_shared_mem\<close>: where it stands, the variable
  \<open>size\<close>, the bytes from \<open>src\<close> on or the bytes stored behind \<open>dst\<close>, and the room that is left there.
\<close>

datatype call_pc = At_Load | At_Copy | At_Clear | At_Set | At_Return

record mem_call =
  k_pc :: call_pc
  k_size :: int
  k_data :: "char list"
  k_room :: nat

definition write_call :: "char list \<Rightarrow> int \<Rightarrow> mem_call" where
  "write_call src sz = \<lparr>k_pc = At_Load, k_size = sz, k_data = src, k_room = 0\<rparr>"

definition read_call :: "nat \<Rightarrow> int \<Rightarrow> mem_call" where
  "read_call room sz = \<lparr>k_pc = At_Load, k_size = sz, k_data = [], k_room = room\<rparr>"

definition to_copy :: "mem_call \<Rightarrow> int" where
  "to_copy k = (if int mem_size > k_size k then k_size k else int mem_size)"

definition write_to_shared_mem :: "shared \<Rightarrow> mem_call \<Rightarrow> (shared \<times> mem_call) cres option" where
  "write_to_shared_mem m k =
     (case k_pc k of
        At_Load \<Rightarrow> if is_writable m then Some (Inr (m, k\<lparr>k_pc := At_Copy\<rparr>)) else None
      | At_Copy \<Rightarrow>
          if to_copy k < 0 \<or> length (k_data k) < nat (to_copy k) then Some (Inl OutOfBounds)
          else Some (Inr (m\<lparr>mem_data := mem_write (mem_data m) 0 (take (nat (to_copy k)) (k_data k))\<rparr>,
                 k\<lparr>k_pc := At_Clear, k_size := k_size k - to_copy k, k_data := drop (nat (to_copy k)) (k_data k)\<rparr>))
      | At_Clear \<Rightarrow> Some (Inr (m\<lparr>is_writable := False\<rparr>, k\<lparr>k_pc := At_Set\<rparr>))
      | At_Set \<Rightarrow> Some (Inr (m\<lparr>is_readable := True\<rparr>, k\<lparr>k_pc := if k_size k = 0 then At_Return else At_Load\<rparr>))
      | At_Return \<Rightarrow> None)"

definition read_from_shared_mem :: "shared \<Rightarrow> mem_call \<Rightarrow> (shared \<times> mem_call) cres option" where
  "read_from_shared_mem m k =
     (case k_pc k of
        At_Load \<Rightarrow> if is_readable m then Some (Inr (m, k\<lparr>k_pc := At_Copy\<rparr>)) else None
      | At_Copy \<Rightarrow>
          if to_copy k < 0 \<or> k_room k < nat (to_copy k) then Some (Inl OutOfBounds)
          else Some (Inr (m, k\<lparr>k_pc := At_Clear, k_size := k_size k - to_copy k,
                 k_data := k_data k @ take (nat (to_copy k)) (mem_data m), k_room := k_room k - nat (to_copy k)\<rparr>))
      | At_Clear \<Rightarrow> Some (Inr (m\<lparr>is_readable := False\<rparr>, k\<lparr>k_pc := At_Set\<rparr>))
      | At_Set \<Rightarrow> Some (Inr (m\<lparr>is_writable := True\<rparr>, k\<lparr>k_pc := if k_size k = 0 then At_Return else At_Load\<rparr>))
      | At_Return \<Rightarrow> None)"

section \<open>The sorter\<close>

text \<open>
  The numbers that bytes stand for; the product \<open>size * sizeof(int)\<close> of type \<open>size_t\<close>; and its
  conversion to the parameter of type \<open>int\<close>.
\<close>

fun bytes_ints :: "char list \<Rightarrow> i32 list" where
  "bytes_ints (a # b # c # d # bs) = of_nat (bytes_nat [a, b, c, d]) # bytes_ints bs"
| "bytes_ints _ = []"

definition array_bytes :: "i32 \<Rightarrow> u64" where
  "array_bytes sz = signed sz * 4"

definition to_int :: "u64 \<Rightarrow> int" where
  "to_int x = sint (ucast x :: i32)"

definition cmp :: "i32 \<Rightarrow> i32 \<Rightarrow> int cres" where
  "cmp a b = (let d = sint a - sint b in if - (2 ^ 31) \<le> d \<and> d < 2 ^ 31 then Inr d else Inl SignedOverflow)"

text \<open>
  \<open>qsort\<close>: any two elements may be compared, so a comparison that overflows is an error; else the
  result is the arrangement in which each element compares as not greater than the next.
\<close>

fun insert_by :: "('a \<Rightarrow> 'a \<Rightarrow> int cres) \<Rightarrow> 'a \<Rightarrow> 'a list \<Rightarrow> 'a list" where
  "insert_by c x [] = [x]"
| "insert_by c x (y # ys) =
     (case c x y of
        Inl _ \<Rightarrow> x # y # ys
      | Inr d \<Rightarrow> if d \<le> 0 then x # y # ys else y # insert_by c x ys)"

definition qsort :: "('a \<Rightarrow> 'a \<Rightarrow> int cres) \<Rightarrow> 'a list \<Rightarrow> 'a list cres" where
  "qsort c xs =
     (if list_all (\<lambda>a. list_all (\<lambda>b. \<not> isl (c a b)) xs) xs then Inr (foldr (insert_by c) xs [])
      else Inl SignedOverflow)"

definition realloc_ints :: "i32 list \<Rightarrow> nat \<Rightarrow> i32 list" where
  "realloc_ints arr capacity = arr @ replicate (capacity - length arr) 0"

text \<open>The loop of \<open>fscanf\<close> over the numbers of the file.\<close>

fun read_numbers :: "i32 list \<Rightarrow> i32 list \<Rightarrow> nat \<Rightarrow> nat \<Rightarrow> i32 list cres" where
  "read_numbers [] arr sz capacity = Inr (take sz arr)"
| "read_numbers (x # xs) arr sz capacity =
     rbind (arr_put arr sz x) (\<lambda>arr.
     rbind (int_add sz 1) (\<lambda>sz.
     if sz = capacity
     then rbind (int_add capacity capacity) (\<lambda>capacity. read_numbers xs (realloc_ints arr capacity) sz capacity)
     else read_numbers xs arr sz capacity))"

text \<open>
  The process that runs \<open>sorter\<close>: before its file is read, in the first and in the second call of
  \<open>write_to_shared_mem\<close>, and after it has exited.
\<close>

datatype sorter =
    Sorter_Start "i32 list"
  | Sorter_Size "i32 list" mem_call
  | Sorter_Array mem_call
  | Sorter_Exit

definition map_call :: "('k \<Rightarrow> 's) \<Rightarrow> (shared \<times> 'k) cres option \<Rightarrow> (shared \<times> 's) cres option" where
  "map_call f r = map_option (map_sum id (\<lambda>(m, k). (m, f k))) r"

fun sorter_step :: "shared \<Rightarrow> sorter \<Rightarrow> (shared \<times> sorter) cres option" where
  "sorter_step m (Sorter_Start content) =
     Some (rbind (read_numbers content (realloc_ints [] 1024) 0 1024) (\<lambda>array.
           rbind (qsort cmp array) (\<lambda>array.
           Inr (m, Sorter_Size array (write_call (int_bytes (of_nat (length array))) 4)))))"
| "sorter_step m (Sorter_Size array k) =
     (if k_pc k = At_Return
      then Some (Inr (m, Sorter_Array (write_call (concat (map int_bytes array))
                   (to_int (array_bytes (of_nat (length array)))))))
      else map_call (Sorter_Size array) (write_to_shared_mem m k))"
| "sorter_step m (Sorter_Array k) =
     (if k_pc k = At_Return then Some (Inr (m, Sorter_Exit))
      else map_call Sorter_Array (write_to_shared_mem m k))"
| "sorter_step m Sorter_Exit = None"

section \<open>The main process\<close>

text \<open>What main does for one worker: the calls that read the size and the array.\<close>

datatype reader =
    Read_Size mem_call
  | Read_Array i32 mem_call
  | Read_Done i32 "i32 list"

fun reader_step :: "shared \<Rightarrow> reader \<Rightarrow> (shared \<times> reader) cres option" where
  "reader_step m (Read_Size k) =
     (if k_pc k = At_Return
      then let sz = of_nat (bytes_nat (k_data k))
           in Some (Inr (m, Read_Array sz (read_call (unat (array_bytes sz)) (to_int (array_bytes sz)))))
      else map_call Read_Size (read_from_shared_mem m k))"
| "reader_step m (Read_Array sz k) =
     (if k_pc k = At_Return then Some (Inr (m, Read_Done sz (bytes_ints (k_data k))))
      else map_call (Read_Array sz) (read_from_shared_mem m k))"
| "reader_step m (Read_Done sz array) = None"

record sort_worker =
  w_mem :: shared
  w_sorter :: sorter
  w_reader :: reader

definition new_worker :: "i32 list \<Rightarrow> sort_worker" where
  "new_worker content = \<lparr>w_mem = mem_init, w_sorter = Sorter_Start content, w_reader = Read_Size (read_call 4 4)\<rparr>"

text \<open>
  The state of the program: the workers that were forked, the files of the others, the phase
  of main, its loop counter, the number of children it has waited for and \<open>total_size\<close>.
\<close>

datatype main_pc = M_Fork | M_Read | M_Wait | M_Done "i32 list"

record mem_sort =
  ms_workers :: "sort_worker list"
  ms_files :: "i32 list list"
  ms_pc :: main_pc
  ms_i :: nat
  ms_waited :: nat
  ms_total :: nat

definition mem_sort_init :: "i32 list list \<Rightarrow> mem_sort" where
  "mem_sort_init files =
     \<lparr>ms_workers = [], ms_files = files, ms_pc = M_Fork, ms_i = 0, ms_waited = 0, ms_total = 0\<rparr>"

definition set_sort_worker :: "mem_sort \<Rightarrow> nat \<Rightarrow> sort_worker \<Rightarrow> mem_sort" where
  "set_sort_worker s i w = s\<lparr>ms_workers := (ms_workers s)[i := w]\<rparr>"

definition run_sorter :: "nat \<Rightarrow> mem_sort \<Rightarrow> mem_sort cres option" where
  "run_sorter i s =
     (let w = ms_workers s ! i in
      map_option (map_sum id (\<lambda>(m, st). set_sort_worker s i (w\<lparr>w_mem := m, w_sorter := st\<rparr>)))
        (sorter_step (w_mem w) (w_sorter w)))"

text \<open>The loop that copies the arrays one after the other to \<open>pos\<close>.\<close>

fun copy_arrays :: "i32 list \<Rightarrow> nat \<Rightarrow> sort_worker list \<Rightarrow> i32 list cres" where
  "copy_arrays total_array pos [] = Inr total_array"
| "copy_arrays total_array pos (w # ws) =
     (case w_reader w of
        Read_Done sz array \<Rightarrow>
          if pos + length array \<le> length total_array
          then copy_arrays (mem_write total_array pos array) (pos + length array) ws
          else Inl OutOfBounds
      | _ \<Rightarrow> Inl UninitRead)"

text \<open>
  \<open>wait\<close> returns once a child has exited that was not waited for yet. The size of a worker is not
  negative when it is added to \<open>total_size\<close>, since its array was received.
\<close>

definition run_main :: "mem_sort \<Rightarrow> mem_sort cres option" where
  "run_main s =
     (case ms_pc s of
        M_Fork \<Rightarrow>
          (case ms_files s of
             [] \<Rightarrow> Some (Inr (s\<lparr>ms_pc := M_Read\<rparr>))
           | f # fs \<Rightarrow> Some (Inr (s\<lparr>ms_workers := ms_workers s @ [new_worker f], ms_files := fs\<rparr>)))
      | M_Read \<Rightarrow>
          if ms_i s = length (ms_workers s)
          then Some (map_sum id (\<lambda>r. s\<lparr>ms_pc := M_Done r\<rparr>)
                 (copy_arrays (replicate (ms_total s) 0) 0 (ms_workers s)))
          else let w = ms_workers s ! ms_i s in
               (case w_reader w of
                  Read_Done sz array \<Rightarrow> Some (Inr (s\<lparr>ms_pc := M_Wait\<rparr>))
                | rd \<Rightarrow> map_option (map_sum id (\<lambda>(m, rd). set_sort_worker s (ms_i s) (w\<lparr>w_mem := m, w_reader := rd\<rparr>)))
                         (reader_step (w_mem w) rd))
      | M_Wait \<Rightarrow>
          if ms_waited s < length (filter (\<lambda>w. w_sorter w = Sorter_Exit) (ms_workers s))
          then (case w_reader (ms_workers s ! ms_i s) of
                  Read_Done sz array \<Rightarrow>
                    Some (rbind (int_add (ms_total s) (nat (sint sz))) (\<lambda>t.
                      Inr (s\<lparr>ms_pc := M_Read, ms_i := ms_i s + 1, ms_waited := ms_waited s + 1, ms_total := t\<rparr>)))
                | _ \<Rightarrow> Some (Inl UninitRead))
          else None
      | M_Done _ \<Rightarrow> None)"

text \<open>One step of one process: \<open>None\<close> is main, \<open>Some i\<close> the child of worker \<open>i\<close>.\<close>

definition ms_proc :: "mem_sort \<Rightarrow> nat option \<Rightarrow> mem_sort cres option" where
  "ms_proc s p = (case p of None \<Rightarrow> run_main s
     | Some i \<Rightarrow> if i < length (ms_workers s) then run_sorter i s else None)"

inductive ms_step :: "mem_sort \<Rightarrow> mem_sort \<Rightarrow> bool" where
  "ms_proc s p = Some (Inr s') \<Longrightarrow> ms_step s s'"

end
