(* ===== verification/MemSort_Spec.thy ===== *)
theory MemSort_Spec
  imports MemSort
begin

text \<open>
  What the parallel sort of src/lecture_examples/7_ipc/3_mem_sort.c promises: the protocol of the
  two flags transfers every message unchanged, the two processes are never in the shared
  memory at the same time, and the program ends with the sorted files.
\<close>

section \<open>Bytes and numbers\<close>

lemma bytes_ints_append:
  assumes "length bs = 4"
  shows "bytes_ints (bs @ cs) = of_nat (bytes_nat bs) # bytes_ints cs"
proof -
  obtain a b c d where "bs = [a, b, c, d]"
    using assms by (auto simp: numeral_eq_Suc length_Suc_conv)
  then show ?thesis by simp
qed

lemma bytes_ints_array [simp]: "bytes_ints (concat (map int_bytes xs)) = xs"
  by (induction xs) (simp_all add: bytes_ints_append)

lemma length_array [simp]: "length (concat (map int_bytes xs)) = 4 * length xs"
  by (induction xs) simp_all

lemma array_size:
  assumes "n < 2 ^ 29"
  shows "sint (of_nat n :: i32) = int n" "unat (array_bytes (of_nat n)) = 4 * n"
    "to_int (array_bytes (of_nat n)) = 4 * int n"
proof -
  show s: "sint (of_nat n :: i32) = int n"
    using assms by (simp add: sint_of_nat_small)
  have "(signed (of_nat n :: i32) :: u64) = of_int (sint (of_nat n :: i32))" by simp
  then have a: "array_bytes (of_nat n) = of_nat (4 * n)"
    unfolding array_bytes_def s by simp
  have "4 * n < 2 ^ 64" using assms by simp
  then have "take_bit 64 (4 * n) = 4 * n" by (simp only: take_bit_nat_eq_self_iff)
  with a show "unat (array_bytes (of_nat n)) = 4 * n" by (simp add: unsigned_of_nat del: of_nat_mult)
  have "(ucast (of_nat (4 * n) :: u64) :: i32) = of_nat (4 * n)"
    by (rule bit_word_eqI) (simp add: bit_simps del: of_nat_mult)
  with a have "to_int (array_bytes (of_nat n)) = sint (of_nat (4 * n) :: i32)" by (simp only: to_int_def)
  then show "to_int (array_bytes (of_nat n)) = 4 * int n"
    using sint_of_nat_small [of "4 * n"] assms by (simp del: of_nat_mult)
qed

section \<open>Reading and sorting a file\<close>

lemma read_numbers_ok:
  assumes "sz < capacity" "length arr = capacity" "sz + length xs < 2 ^ 30"
  shows "read_numbers xs arr sz capacity = Inr (take sz arr @ xs)"
  using assms
proof (induction xs arbitrary: arr sz capacity)
  case (Cons x xs)
  have t: "take (Suc sz) (arr[sz := x]) = take sz arr @ [x]"
    using Cons.prems by (simp add: take_Suc_conv_app_nth)
  show ?case
  proof (cases "Suc sz = capacity")
    case True
    with Cons.prems Cons.IH [of "Suc sz" "capacity + capacity" "realloc_ints (arr[sz := x]) (capacity + capacity)"] t
    show ?thesis by (simp add: realloc_ints_def)
  next
    case False
    with Cons.prems Cons.IH [of "Suc sz" capacity "arr[sz := x]"] t show ?thesis by simp
  qed
qed simp

definition comparable :: "i32 list \<Rightarrow> bool" where
  "comparable xs \<longleftrightarrow> (\<forall>a\<in>set xs. \<forall>b\<in>set xs. \<not> isl (cmp a b))"

lemma insert_by_cmp:
  "\<forall>y\<in>set ys. \<not> isl (cmp x y) \<Longrightarrow> insert_by cmp x ys = insort_key sint x ys"
  by (induction ys) (auto simp: cmp_def Let_def split: if_splits)

lemma foldr_insert_by_cmp:
  "\<forall>a\<in>set xs. \<forall>b\<in>set xs. \<not> isl (cmp a b) \<Longrightarrow> foldr (insert_by cmp) xs [] = sort_key sint xs"
  by (induction xs) (simp_all add: insert_by_cmp)

lemma qsort_cmp: "comparable xs \<Longrightarrow> qsort cmp xs = Inr (sort_key sint xs)"
  by (simp add: qsort_def comparable_def list_all_iff foldr_insert_by_cmp)

section \<open>The invariant of a channel\<close>

text \<open>
  What a worker with the file \<open>f\<close> has to transfer, and what is left of it after the next piece. The
  ghost value \<open>r\<close> below is what the reader still has to get.
\<close>

abbreviation (input) sorted_numbers :: "i32 list \<Rightarrow> i32 list" where
  "sorted_numbers f \<equiv> sort_key sint f"

definition header :: "i32 list \<Rightarrow> char list" where
  "header f = int_bytes (of_nat (length f))"

definition body :: "i32 list \<Rightarrow> char list" where
  "body f = concat (map int_bytes (sorted_numbers f))"

definition next_msgs :: "char list list \<Rightarrow> char list list" where
  "next_msgs r = (if length (hd r) \<le> mem_size then tl r else drop mem_size (hd r) # tl r)"

lemma length_header [simp]: "length (header f) = 4"
  by (simp add: header_def)

lemma length_body [simp]: "length (body f) = 4 * length f"
  by (simp add: body_def)

text \<open>A call of the writer that still has to send \<open>x\<close>, and one of the reader that still has to get \<open>y\<close>.\<close>

definition writing :: "call_pc \<Rightarrow> mem_call \<Rightarrow> char list \<Rightarrow> bool" where
  "writing p k x \<longleftrightarrow> k_pc k = p \<and> k_data k = x \<and> k_size k = int (length x)"

definition reading :: "call_pc \<Rightarrow> mem_call \<Rightarrow> char list \<Rightarrow> char list \<Rightarrow> bool" where
  "reading p k full y \<longleftrightarrow> k_pc k = p \<and> k_data k @ y = full \<and> k_size k = int (length y) \<and> k_room k = length y"

definition write_ready :: "bool \<Rightarrow> mem_call \<Rightarrow> char list \<Rightarrow> bool" where
  "write_ready turn k x \<longleftrightarrow> writing At_Load k x \<or> turn \<and> writing At_Copy k x"

definition read_ready :: "bool \<Rightarrow> mem_call \<Rightarrow> char list \<Rightarrow> char list \<Rightarrow> bool" where
  "read_ready turn k full y \<longleftrightarrow> reading At_Load k full y \<or> turn \<and> reading At_Copy k full y"

text \<open>The sorter before a piece, and in the middle of one; \<open>turn\<close> says that it may have passed its flag.\<close>

fun sorter_ready :: "i32 list \<Rightarrow> bool \<Rightarrow> sorter \<Rightarrow> char list list \<Rightarrow> bool" where
  "sorter_ready f turn (Sorter_Start c) r \<longleftrightarrow> c = f \<and> r = [header f, body f]"
| "sorter_ready f turn (Sorter_Size a k) r \<longleftrightarrow> a = sorted_numbers f \<and>
     ((\<exists>x. write_ready turn k x \<and> r = [x, body f]) \<or> k_pc k = At_Return \<and> r = [body f])"
| "sorter_ready f turn (Sorter_Array k) r \<longleftrightarrow>
     (\<exists>x. write_ready turn k x \<and> r = [x]) \<or> k_pc k = At_Return \<and> r = []"
| "sorter_ready f turn Sorter_Exit r \<longleftrightarrow> r = []"

fun sorter_mid :: "i32 list \<Rightarrow> call_pc \<Rightarrow> sorter \<Rightarrow> char list list \<Rightarrow> bool" where
  "sorter_mid f p (Sorter_Size a k) r \<longleftrightarrow> a = sorted_numbers f \<and>
     (\<exists>x. writing p k (drop mem_size x) \<and> r = [x, body f])"
| "sorter_mid f p (Sorter_Array k) r \<longleftrightarrow> (\<exists>x. writing p k (drop mem_size x) \<and> r = [x])"
| "sorter_mid f p st r \<longleftrightarrow> False"

fun reader_ready :: "i32 list \<Rightarrow> bool \<Rightarrow> reader \<Rightarrow> char list list \<Rightarrow> bool" where
  "reader_ready f turn (Read_Size k) r \<longleftrightarrow>
     (\<exists>y. read_ready turn k (header f) y \<and> r = [y, body f]) \<or>
     k_pc k = At_Return \<and> k_data k = header f \<and> r = [body f]"
| "reader_ready f turn (Read_Array n k) r \<longleftrightarrow> n = of_nat (length f) \<and>
     ((\<exists>y. read_ready turn k (body f) y \<and> r = [y]) \<or> k_pc k = At_Return \<and> k_data k = body f \<and> r = [])"
| "reader_ready f turn (Read_Done n a) r \<longleftrightarrow> n = of_nat (length f) \<and> a = sorted_numbers f \<and> r = []"

fun reader_mid :: "i32 list \<Rightarrow> call_pc \<Rightarrow> reader \<Rightarrow> char list list \<Rightarrow> bool" where
  "reader_mid f p (Read_Size k) r \<longleftrightarrow> (\<exists>y. reading p k (header f) (drop mem_size y) \<and> r = [y, body f])"
| "reader_mid f p (Read_Array n k) r \<longleftrightarrow> n = of_nat (length f) \<and>
     (\<exists>y. reading p k (body f) (drop mem_size y) \<and> r = [y])"
| "reader_mid f p (Read_Done n a) r \<longleftrightarrow> False"

text \<open>The phases of the channel, in the order in which they follow each other.\<close>

datatype phase = T_Write | T_Wrote | T_Publish | T_Read | T_Got | T_Release

definition holds_piece :: "shared \<Rightarrow> char list list \<Rightarrow> bool" where
  "holds_piece m r \<longleftrightarrow> r \<noteq> [] \<and> take (min mem_size (length (hd r))) (mem_data m) = take mem_size (hd r)"

fun chan_phase :: "i32 list \<Rightarrow> phase \<Rightarrow> char list list \<Rightarrow> shared \<Rightarrow> sorter \<Rightarrow> reader \<Rightarrow> bool" where
  "chan_phase f T_Write r m st rd \<longleftrightarrow> is_writable m \<and> \<not> is_readable m \<and>
     sorter_ready f True st r \<and> reader_ready f False rd r"
| "chan_phase f T_Wrote r m st rd \<longleftrightarrow> is_writable m \<and> \<not> is_readable m \<and> holds_piece m r \<and>
     sorter_mid f At_Clear st r \<and> reader_ready f False rd r"
| "chan_phase f T_Publish r m st rd \<longleftrightarrow> \<not> is_writable m \<and> \<not> is_readable m \<and> holds_piece m r \<and>
     sorter_mid f At_Set st r \<and> reader_ready f False rd r"
| "chan_phase f T_Read r m st rd \<longleftrightarrow> \<not> is_writable m \<and> is_readable m \<and> holds_piece m r \<and>
     sorter_ready f False st (next_msgs r) \<and> reader_ready f True rd r"
| "chan_phase f T_Got r m st rd \<longleftrightarrow> \<not> is_writable m \<and> is_readable m \<and>
     sorter_ready f False st (next_msgs r) \<and> reader_mid f At_Clear rd r"
| "chan_phase f T_Release r m st rd \<longleftrightarrow> \<not> is_writable m \<and> \<not> is_readable m \<and>
     sorter_ready f False st (next_msgs r) \<and> reader_mid f At_Set rd r"

definition chan_ok :: "i32 list \<Rightarrow> sort_worker \<Rightarrow> bool" where
  "chan_ok f w \<longleftrightarrow> (\<exists>ph r. chan_phase f ph r (w_mem w) (w_sorter w) (w_reader w))"

section \<open>Steps keep the invariant\<close>

definition numbers_ok :: "i32 list \<Rightarrow> bool" where
  "numbers_ok f \<longleftrightarrow> length f < 2 ^ 29 \<and> comparable f"

lemma to_copy_eq: "k_size k = int (length x) \<Longrightarrow> to_copy k = int (min mem_size (length x))"
  by (simp add: to_copy_def min_def)

lemma mem_size_pos: "0 < mem_size"
  by (simp add: mem_size_def)

lemma take_min_length: "take (min n (length x)) x = take n x" "drop (min n (length x)) x = drop n x"
  by (simp_all add: min_def)

definition after_call :: "char list \<Rightarrow> char list list \<Rightarrow> char list list" where
  "after_call x later = (if x = [] then later else x # later)"

lemma next_msgs_Cons: "next_msgs (x # later) = after_call (drop mem_size x) later"
  by (auto simp: next_msgs_def after_call_def)

lemma holds_piece_write:
  "holds_piece (m\<lparr>mem_data := mem_write (mem_data m) 0 (take mem_size x)\<rparr>) (x # later)"
  by (simp add: holds_piece_def mem_write_def min_def)

text \<open>The steps that are left to a call.\<close>

definition pieces :: "nat \<Rightarrow> nat" where
  "pieces n = (n - 1) div mem_size + 1"

definition rest_cost :: "nat \<Rightarrow> nat" where
  "rest_cost n = (if n = 0 then 0 else 4 * pieces n)"

definition call_cost :: "mem_call \<Rightarrow> nat" where
  "call_cost k =
     (let n = nat (k_size k) in
      case k_pc k of
        At_Load \<Rightarrow> 4 * pieces n
      | At_Copy \<Rightarrow> 4 * pieces n - 1
      | At_Clear \<Rightarrow> 2 + rest_cost n
      | At_Set \<Rightarrow> 1 + rest_cost n
      | At_Return \<Rightarrow> 0)"

lemma rest_cost_piece: "rest_cost (n - mem_size) + 4 = 4 * pieces n"
proof (cases "n \<le> mem_size")
  case True
  then have "(n - 1) div mem_size = 0" using mem_size_pos by auto
  then show ?thesis using True by (simp add: rest_cost_def pieces_def)
next
  case False
  then have "n - 1 = mem_size + (n - mem_size - 1)" by simp
  then have "(n - 1) div mem_size = (n - mem_size - 1) div mem_size + 1"
    using mem_size_pos by (metis div_add_self1 gr_implies_not0)
  then show ?thesis using False by (simp add: rest_cost_def pieces_def)
qed

lemma write_load:
  assumes "writing At_Load k x"
  shows "write_to_shared_mem m k = (if is_writable m then Some (Inr (m, k\<lparr>k_pc := At_Copy\<rparr>)) else None)"
    "writing At_Copy (k\<lparr>k_pc := At_Copy\<rparr>) x" "call_cost (k\<lparr>k_pc := At_Copy\<rparr>) < call_cost k"
  using assms by (simp_all add: write_to_shared_mem_def writing_def call_cost_def pieces_def)

lemma write_copy:
  assumes "writing At_Copy k x"
  obtains k' where
    "write_to_shared_mem m k = Some (Inr (m\<lparr>mem_data := mem_write (mem_data m) 0 (take mem_size x)\<rparr>, k'))"
    "writing At_Clear k' (drop mem_size x)" "call_cost k' < call_cost k"
proof -
  let ?k' = "k\<lparr>k_pc := At_Clear, k_size := int (length (drop mem_size x)), k_data := drop mem_size x\<rparr>"
  have k: "k_pc k = At_Copy" "k_data k = x" "k_size k = int (length x)" using assms by (auto simp: writing_def)
  have c: "to_copy k = int (min mem_size (length x))" by (rule to_copy_eq [OF k(3)])
  have d: "int (length x) - int (min mem_size (length x)) = int (length (drop mem_size x))" by (simp add: min_def)
  have "call_cost ?k' < call_cost k"
    using rest_cost_piece [of "length x"] by (simp add: call_cost_def k)
  moreover have "write_to_shared_mem m k =
      Some (Inr (m\<lparr>mem_data := mem_write (mem_data m) 0 (take mem_size x)\<rparr>, ?k'))"
    by (simp add: write_to_shared_mem_def k(1,2) c take_min_length) (simp only: k(3) d length_drop)
  ultimately show ?thesis using that [of ?k'] by (simp add: writing_def)
qed

lemma write_clear:
  assumes "writing At_Clear k x"
  shows "write_to_shared_mem m k = Some (Inr (m\<lparr>is_writable := False\<rparr>, k\<lparr>k_pc := At_Set\<rparr>))"
    "writing At_Set (k\<lparr>k_pc := At_Set\<rparr>) x" "call_cost (k\<lparr>k_pc := At_Set\<rparr>) < call_cost k"
  using assms by (simp_all add: write_to_shared_mem_def writing_def call_cost_def)

lemma write_set:
  assumes "writing At_Set k x"
  obtains k' where "write_to_shared_mem m k = Some (Inr (m\<lparr>is_readable := True\<rparr>, k'))"
    "if x = [] then k_pc k' = At_Return else writing At_Load k' x" "call_cost k' < call_cost k"
  using that [of "k\<lparr>k_pc := if k_size k = 0 then At_Return else At_Load\<rparr>"] assms
  by (simp add: write_to_shared_mem_def writing_def call_cost_def rest_cost_def)

lemma read_load:
  assumes "reading At_Load k full y"
  shows "read_from_shared_mem m k = (if is_readable m then Some (Inr (m, k\<lparr>k_pc := At_Copy\<rparr>)) else None)"
    "reading At_Copy (k\<lparr>k_pc := At_Copy\<rparr>) full y" "call_cost (k\<lparr>k_pc := At_Copy\<rparr>) < call_cost k"
  using assms by (simp_all add: read_from_shared_mem_def reading_def call_cost_def pieces_def)

lemma read_copy:
  assumes "reading At_Copy k full y" "holds_piece m (y # later)"
  obtains k' where "read_from_shared_mem m k = Some (Inr (m, k'))"
    "reading At_Clear k' full (drop mem_size y)" "call_cost k' < call_cost k"
proof -
  let ?k' = "k\<lparr>k_pc := At_Clear, k_size := int (length (drop mem_size y)),
    k_data := k_data k @ take mem_size y, k_room := length (drop mem_size y)\<rparr>"
  have k: "k_pc k = At_Copy" "k_data k @ y = full" "k_size k = int (length y)" "k_room k = length y"
    using assms by (auto simp: reading_def)
  have c: "to_copy k = int (min mem_size (length y))" by (rule to_copy_eq [OF k(3)])
  have d: "int (length y) - int (min mem_size (length y)) = int (length (drop mem_size y))"
    "length y - min mem_size (length y) = length (drop mem_size y)" by (simp_all add: min_def)
  have t: "take (min mem_size (length y)) (mem_data m) = take mem_size y"
    using assms(2) by (simp add: holds_piece_def)
  have "call_cost ?k' < call_cost k"
    using rest_cost_piece [of "length y"] by (simp add: call_cost_def k)
  moreover have "read_from_shared_mem m k = Some (Inr (m, ?k'))"
    by (simp add: read_from_shared_mem_def k(1,4) c t) (simp only: k(3) d length_drop)
  moreover have "reading At_Clear ?k' full (drop mem_size y)" using k by (simp add: reading_def)
  ultimately show ?thesis using that [of ?k'] by simp
qed

lemma read_clear:
  assumes "reading At_Clear k full y"
  shows "read_from_shared_mem m k = Some (Inr (m\<lparr>is_readable := False\<rparr>, k\<lparr>k_pc := At_Set\<rparr>))"
    "reading At_Set (k\<lparr>k_pc := At_Set\<rparr>) full y" "call_cost (k\<lparr>k_pc := At_Set\<rparr>) < call_cost k"
  using assms by (simp_all add: read_from_shared_mem_def reading_def call_cost_def)

lemma read_set:
  assumes "reading At_Set k full y"
  obtains k' where "read_from_shared_mem m k = Some (Inr (m\<lparr>is_writable := True\<rparr>, k'))"
    "if y = [] then k_pc k' = At_Return \<and> k_data k' = full else reading At_Load k' full y" "call_cost k' < call_cost k"
  using that [of "k\<lparr>k_pc := if k_size k = 0 then At_Return else At_Load\<rparr>"] assms
  by (auto simp: read_from_shared_mem_def reading_def call_cost_def rest_cost_def)

text \<open>The steps that are left to a sorter and to the reader of a file of \<open>n\<close> numbers.\<close>

fun sorter_cost :: "nat \<Rightarrow> sorter \<Rightarrow> nat" where
  "sorter_cost n (Sorter_Start c) = 4 * pieces 4 + 4 * pieces (4 * n) + 3"
| "sorter_cost n (Sorter_Size a k) = call_cost k + 4 * pieces (4 * n) + 2"
| "sorter_cost n (Sorter_Array k) = call_cost k + 1"
| "sorter_cost n Sorter_Exit = 0"

fun reader_cost :: "nat \<Rightarrow> reader \<Rightarrow> nat" where
  "reader_cost n (Read_Size k) = call_cost k + 4 * pieces (4 * n) + 2"
| "reader_cost n (Read_Array sz k) = call_cost k + 1"
| "reader_cost n (Read_Done sz a) = 0"

lemma call_cost_start:
  "call_cost (write_call x (int n)) = 4 * pieces n" "call_cost (read_call q (int n)) = 4 * pieces n"
  by (simp_all add: call_cost_def write_call_def read_call_def)

lemma sorter_start:
  assumes "numbers_ok f"
  obtains st' where "sorter_step m (Sorter_Start f) = Some (Inr (m, st'))"
    "sorter_ready f turn st' [header f, body f]" "sorter_cost (length f) st' < sorter_cost (length f) (Sorter_Start f)"
proof -
  have "read_numbers f (realloc_ints [] 1024) 0 1024 = Inr f"
    using assms by (subst read_numbers_ok) (simp_all add: realloc_ints_def numbers_ok_def)
  moreover have "qsort cmp f = Inr (sorted_numbers f)" using assms by (simp add: qsort_cmp numbers_ok_def)
  ultimately show ?thesis
    using that call_cost_start(1) [of "header f" 4]
    by (simp add: header_def write_ready_def writing_def write_call_def)
qed

lemma sorter_second_call:
  assumes "numbers_ok f" "k_pc k = At_Return"
  obtains st' where "sorter_step m (Sorter_Size (sorted_numbers f) k) = Some (Inr (m, st'))"
    "sorter_ready f turn st' [body f]"
    "sorter_cost (length f) st' < sorter_cost (length f) (Sorter_Size (sorted_numbers f) k)"
  using that assms array_size(3) [of "length f"] call_cost_start(1) [of "body f" "4 * length f"]
  by (simp add: numbers_ok_def write_ready_def writing_def write_call_def body_def)

lemma writing_pc: "writing p k x \<Longrightarrow> k_pc k = p"
  by (simp add: writing_def)

lemma write_ready_pc: "write_ready turn k x \<Longrightarrow> k_pc k \<noteq> At_Return"
  by (auto simp: write_ready_def writing_def)

lemma sorter_step_waiting:
  assumes "numbers_ok f" "sorter_ready f False st r" "\<not> is_writable m" "sorter_step m st = Some x"
  shows "\<exists>st'. x = Inr (m, st') \<and> sorter_ready f False st' r \<and> sorter_cost (length f) st' < sorter_cost (length f) st"
proof (cases st)
  case (Sorter_Start c)
  from sorter_start [OF assms(1), of m False] obtain st' where "sorter_step m (Sorter_Start f) = Some (Inr (m, st'))"
    "sorter_ready f False st' [header f, body f]" "sorter_cost (length f) st' < sorter_cost (length f) (Sorter_Start f)" .
  with assms Sorter_Start show ?thesis by auto
next
  case (Sorter_Size a k)
  show ?thesis
  proof (cases "k_pc k = At_Return")
    case True
    with assms Sorter_Size sorter_second_call [OF assms(1) True, of m False] show ?thesis
      by (auto simp: write_ready_def writing_def)
  qed (use assms Sorter_Size in \<open>auto simp: write_ready_def map_call_def write_load(1)\<close>)
next
  case (Sorter_Array k)
  with assms show ?thesis by (auto simp: write_ready_def map_call_def write_load(1) dest: writing_pc split: if_splits)
qed (use assms in auto)

lemma sorter_step_turn:
  assumes "numbers_ok f" "sorter_ready f True st r" "is_writable m" "sorter_step m st = Some x"
  shows "\<exists>m' st'. x = Inr (m', st') \<and> is_writable m' \<and> is_readable m' = is_readable m \<and>
    (sorter_ready f True st' r \<or> holds_piece m' r \<and> sorter_mid f At_Clear st' r) \<and>
    sorter_cost (length f) st' < sorter_cost (length f) st"
proof -
  have call: "\<exists>m' k'. write_to_shared_mem m k = Some (Inr (m', k')) \<and> is_writable m' \<and> is_readable m' = is_readable m \<and>
      call_cost k' < call_cost k \<and> k_pc k \<noteq> At_Return \<and>
      (write_ready True k' y \<or> holds_piece m' (y # later) \<and> writing At_Clear k' (drop mem_size y))"
    if k: "write_ready True k y" for k y later
  proof (cases "k_pc k = At_Load")
    case True
    with k have "writing At_Load k y" by (auto simp: write_ready_def writing_def)
    from write_load [OF this] show ?thesis using assms(3) True by (auto simp: write_ready_def)
  next
    case False
    with k have c: "writing At_Copy k y" by (auto simp: write_ready_def writing_def)
    from write_copy [OF c, of m] obtain k' where
      "write_to_shared_mem m k = Some (Inr (m\<lparr>mem_data := mem_write (mem_data m) 0 (take mem_size y)\<rparr>, k'))"
      "writing At_Clear k' (drop mem_size y)" "call_cost k' < call_cost k" .
    then show ?thesis using assms(3) holds_piece_write [of m y later] writing_pc [OF c] by auto
  qed
  show ?thesis
  proof (cases st)
    case (Sorter_Start c)
    from sorter_start [OF assms(1), of m True] obtain st' where "sorter_step m (Sorter_Start f) = Some (Inr (m, st'))"
      "sorter_ready f True st' [header f, body f]" "sorter_cost (length f) st' < sorter_cost (length f) (Sorter_Start f)" .
    with assms Sorter_Start show ?thesis by auto
  next
    case (Sorter_Size a k)
    show ?thesis
    proof (cases "k_pc k = At_Return")
      case True
      with assms Sorter_Size sorter_second_call [OF assms(1) True, of m True] show ?thesis
        by (auto dest: write_ready_pc)
    next
      case False
      with assms Sorter_Size obtain y where y: "write_ready True k y" "r = [y, body f]" by auto
      with call [OF y(1), of "[body f]"] assms Sorter_Size False show ?thesis by (auto simp: map_call_def)
    qed
  next
    case (Sorter_Array k)
    show ?thesis
    proof (cases "k_pc k = At_Return")
      case True
      with assms Sorter_Array show ?thesis by (auto dest: write_ready_pc)
    next
      case False
      with assms Sorter_Array obtain y where y: "write_ready True k y" "r = [y]" by auto
      with call [OF y(1), of "[]"] assms Sorter_Array False show ?thesis by (auto simp: map_call_def)
    qed
  qed (use assms in auto)
qed

lemma sorter_step_clear:
  assumes "sorter_mid f At_Clear st r" "sorter_step m st = Some x"
  shows "\<exists>st'. x = Inr (m\<lparr>is_writable := False\<rparr>, st') \<and> sorter_mid f At_Set st' r \<and>
    sorter_cost (length f) st' < sorter_cost (length f) st"
proof (cases st)
  case (Sorter_Size a k)
  with assms obtain y where "writing At_Clear k (drop mem_size y)" "r = [y, body f]" "a = sorted_numbers f" by auto
  with write_clear(1) [OF this(1), of m] write_clear(2,3) [OF this(1)] writing_pc [OF this(1)] assms(2) Sorter_Size show ?thesis
    by (auto simp: map_call_def)
next
  case (Sorter_Array k)
  with assms obtain y where "writing At_Clear k (drop mem_size y)" "r = [y]" by auto
  with write_clear(1) [OF this(1), of m] write_clear(2,3) [OF this(1)] writing_pc [OF this(1)] assms(2) Sorter_Array show ?thesis
    by (auto simp: map_call_def)
qed (use assms in auto)

lemma sorter_step_set:
  assumes "sorter_mid f At_Set st r" "sorter_step m st = Some x"
  shows "\<exists>st'. x = Inr (m\<lparr>is_readable := True\<rparr>, st') \<and> sorter_ready f False st' (next_msgs r) \<and>
    sorter_cost (length f) st' < sorter_cost (length f) st"
proof (cases st)
  case (Sorter_Size a k)
  with assms obtain y where y: "writing At_Set k (drop mem_size y)" "r = [y, body f]" "a = sorted_numbers f" by auto
  from write_set [OF y(1), of m] obtain k' where "write_to_shared_mem m k = Some (Inr (m\<lparr>is_readable := True\<rparr>, k'))"
    "if drop mem_size y = [] then k_pc k' = At_Return else writing At_Load k' (drop mem_size y)" "call_cost k' < call_cost k" .
  with y Sorter_Size assms(2) show ?thesis
    by (auto simp: map_call_def next_msgs_Cons after_call_def write_ready_def dest: writing_pc split: if_splits)
next
  case (Sorter_Array k)
  with assms obtain y where y: "writing At_Set k (drop mem_size y)" "r = [y]" by auto
  from write_set [OF y(1), of m] obtain k' where "write_to_shared_mem m k = Some (Inr (m\<lparr>is_readable := True\<rparr>, k'))"
    "if drop mem_size y = [] then k_pc k' = At_Return else writing At_Load k' (drop mem_size y)" "call_cost k' < call_cost k" .
  with y Sorter_Array assms(2) show ?thesis
    by (auto simp: map_call_def next_msgs_Cons after_call_def write_ready_def dest: writing_pc split: if_splits)
qed (use assms in auto)

section \<open>Steps of the reader\<close>

lemma reading_pc: "reading p k full y \<Longrightarrow> k_pc k = p"
  by (simp add: reading_def)

lemma read_ready_pc: "read_ready turn k full y \<Longrightarrow> k_pc k \<noteq> At_Return"
  by (auto simp: read_ready_def reading_def)

lemma reader_second_call:
  assumes "numbers_ok f" "k_pc k = At_Return" "k_data k = header f"
  obtains rd' where "reader_step m (Read_Size k) = Some (Inr (m, rd'))"
    "reader_ready f turn rd' [body f]" "reader_cost (length f) rd' < reader_cost (length f) (Read_Size k)"
proof -
  have n: "length f < 2 ^ 29" using assms by (simp add: numbers_ok_def)
  have "bytes_nat (header f) = length f"
    using n unat_of_nat [of "length f", where 'a = 32] by (simp add: header_def unsigned_of_nat take_bit_nat_eq_self)
  then show ?thesis
    using that assms array_size(2,3) [OF n] call_cost_start(2) [of "4 * length f" "4 * length f"]
    by (simp add: read_ready_def reading_def read_call_def Let_def)
qed

lemma reader_step_waiting:
  assumes "numbers_ok f" "reader_ready f False rd r" "\<not> is_readable m" "reader_step m rd = Some x"
  shows "\<exists>rd'. x = Inr (m, rd') \<and> reader_ready f False rd' r \<and> reader_cost (length f) rd' < reader_cost (length f) rd"
proof (cases rd)
  case (Read_Size k)
  show ?thesis
  proof (cases "k_pc k = At_Return")
    case True
    with assms Read_Size have d: "k_data k = header f" "r = [body f]" by (auto dest: read_ready_pc)
    from reader_second_call [OF assms(1) True d(1), of m False] obtain rd' where
      "reader_step m (Read_Size k) = Some (Inr (m, rd'))"
      "reader_ready f False rd' [body f]" "reader_cost (length f) rd' < reader_cost (length f) (Read_Size k)" .
    with assms Read_Size d show ?thesis by auto
  qed (use assms Read_Size in \<open>auto simp: read_ready_def map_call_def read_load(1)\<close>)
next
  case (Read_Array n k)
  with assms show ?thesis
    by (auto simp: read_ready_def map_call_def read_load(1) body_def dest: reading_pc split: if_splits)
qed (use assms in auto)

lemma reader_step_turn:
  assumes "numbers_ok f" "reader_ready f True rd r" "is_readable m" "holds_piece m r" "reader_step m rd = Some x"
  shows "\<exists>rd'. x = Inr (m, rd') \<and> (reader_ready f True rd' r \<or> reader_mid f At_Clear rd' r) \<and>
    reader_cost (length f) rd' < reader_cost (length f) rd"
proof -
  have call: "\<exists>k'. read_from_shared_mem m k = Some (Inr (m, k')) \<and>
      call_cost k' < call_cost k \<and> k_pc k \<noteq> At_Return \<and>
      (read_ready True k' full y \<or> reading At_Clear k' full (drop mem_size y))"
    if k: "read_ready True k full y" "r = y # later" for k full y later
  proof (cases "k_pc k = At_Load")
    case True
    with k have "reading At_Load k full y" by (auto simp: read_ready_def reading_def)
    from read_load [OF this] show ?thesis using assms(3) True by (auto simp: read_ready_def)
  next
    case False
    with k have c: "reading At_Copy k full y" by (auto simp: read_ready_def reading_def)
    have "holds_piece m (y # later)" using assms(4) k(2) by simp
    from read_copy [OF c this] obtain k' where
      "read_from_shared_mem m k = Some (Inr (m, k'))" "reading At_Clear k' full (drop mem_size y)" "call_cost k' < call_cost k" .
    then show ?thesis using reading_pc [OF c] by auto
  qed
  show ?thesis
  proof (cases rd)
    case (Read_Size k)
    show ?thesis
    proof (cases "k_pc k = At_Return")
      case True
      with assms Read_Size have d: "k_data k = header f" "r = [body f]" by (auto dest: read_ready_pc)
      from reader_second_call [OF assms(1) True d(1), of m True] obtain rd' where
        "reader_step m (Read_Size k) = Some (Inr (m, rd'))"
        "reader_ready f True rd' [body f]" "reader_cost (length f) rd' < reader_cost (length f) (Read_Size k)" .
      with assms Read_Size d show ?thesis by auto
    next
      case False
      with assms Read_Size obtain y where y: "read_ready True k (header f) y" "r = [y, body f]" by auto
      with call [OF y(1), of "[body f]"] assms Read_Size False show ?thesis by (auto simp: map_call_def)
    qed
  next
    case (Read_Array n k)
    show ?thesis
    proof (cases "k_pc k = At_Return")
      case True
      with assms Read_Array show ?thesis by (auto simp: holds_piece_def dest: read_ready_pc)
    next
      case False
      with assms Read_Array obtain y where y: "read_ready True k (body f) y" "r = [y]" by auto
      with call [OF y(1), of "[]"] assms Read_Array False show ?thesis by (auto simp: map_call_def)
    qed
  qed (use assms in auto)
qed

lemma reader_step_clear:
  assumes "reader_mid f At_Clear rd r" "reader_step m rd = Some x"
  shows "\<exists>rd'. x = Inr (m\<lparr>is_readable := False\<rparr>, rd') \<and> reader_mid f At_Set rd' r \<and>
    reader_cost (length f) rd' < reader_cost (length f) rd"
proof (cases rd)
  case (Read_Size k)
  with assms obtain y where "reading At_Clear k (header f) (drop mem_size y)" "r = [y, body f]" by auto
  with read_clear(1) [OF this(1), of m] read_clear(2,3) [OF this(1)] reading_pc [OF this(1)] assms(2) Read_Size show ?thesis
    by (auto simp: map_call_def)
next
  case (Read_Array n k)
  with assms obtain y where "reading At_Clear k (body f) (drop mem_size y)" "r = [y]" "n = of_nat (length f)" by auto
  with read_clear(1) [OF this(1), of m] read_clear(2,3) [OF this(1)] reading_pc [OF this(1)] assms(2) Read_Array show ?thesis
    by (auto simp: map_call_def)
qed (use assms in auto)

lemma reader_step_set:
  assumes "reader_mid f At_Set rd r" "reader_step m rd = Some x"
  shows "\<exists>rd'. x = Inr (m\<lparr>is_writable := True\<rparr>, rd') \<and> reader_ready f False rd' (next_msgs r) \<and>
    reader_cost (length f) rd' < reader_cost (length f) rd"
proof (cases rd)
  case (Read_Size k)
  with assms obtain y where y: "reading At_Set k (header f) (drop mem_size y)" "r = [y, body f]" by auto
  from read_set [OF y(1), of m] obtain k' where "read_from_shared_mem m k = Some (Inr (m\<lparr>is_writable := True\<rparr>, k'))"
    "if drop mem_size y = [] then k_pc k' = At_Return \<and> k_data k' = header f else reading At_Load k' (header f) (drop mem_size y)"
    "call_cost k' < call_cost k" .
  with y Read_Size assms(2) show ?thesis
    by (auto simp: map_call_def next_msgs_Cons after_call_def read_ready_def dest: reading_pc split: if_splits)
next
  case (Read_Array n k)
  with assms obtain y where y: "reading At_Set k (body f) (drop mem_size y)" "r = [y]" "n = of_nat (length f)" by auto
  from read_set [OF y(1), of m] obtain k' where "read_from_shared_mem m k = Some (Inr (m\<lparr>is_writable := True\<rparr>, k'))"
    "if drop mem_size y = [] then k_pc k' = At_Return \<and> k_data k' = body f else reading At_Load k' (body f) (drop mem_size y)"
    "call_cost k' < call_cost k" .
  with y Read_Array assms(2) show ?thesis
    by (auto simp: map_call_def next_msgs_Cons after_call_def read_ready_def dest: reading_pc split: if_splits)
qed (use assms in auto)

section \<open>Steps of a channel\<close>

lemma ready_turn:
  "sorter_ready f False st r \<Longrightarrow> sorter_ready f True st r" "reader_ready f False rd r \<Longrightarrow> reader_ready f True rd r"
  by (cases st; auto simp: write_ready_def) (cases rd; auto simp: read_ready_def)

lemma holds_piece_flags [simp]:
  "holds_piece (m\<lparr>is_writable := b\<rparr>) r = holds_piece m r" "holds_piece (m\<lparr>is_readable := b\<rparr>) r = holds_piece m r"
  by (simp_all add: holds_piece_def)

lemma phase_sorter_step:
  assumes "numbers_ok f" "chan_phase f ph r m st rd" "sorter_step m st = Some x"
  shows "\<exists>m' st' ph'. x = Inr (m', st') \<and> chan_phase f ph' r m' st' rd \<and>
    sorter_cost (length f) st' < sorter_cost (length f) st"
proof (cases ph)
  case T_Write
  with assms sorter_step_turn [OF assms(1) _ _ assms(3), of r] obtain m' st' where x: "x = Inr (m', st')"
    and m': "is_writable m'" "\<not> is_readable m'"
      "sorter_ready f True st' r \<or> holds_piece m' r \<and> sorter_mid f At_Clear st' r"
    and c: "sorter_cost (length f) st' < sorter_cost (length f) st" by auto
  have "chan_phase f T_Write r m' st' rd \<or> chan_phase f T_Wrote r m' st' rd" using assms(2) T_Write m' by auto
  with x c show ?thesis by blast
next
  case T_Wrote
  with assms sorter_step_clear [OF _ assms(3), of f r] obtain st' where x: "x = Inr (m\<lparr>is_writable := False\<rparr>, st')"
    and s: "sorter_mid f At_Set st' r" "sorter_cost (length f) st' < sorter_cost (length f) st" by auto
  have "chan_phase f T_Publish r (m\<lparr>is_writable := False\<rparr>) st' rd" using assms(2) T_Wrote s by simp
  with x s show ?thesis by blast
next
  case T_Publish
  with assms sorter_step_set [OF _ assms(3), of f r] obtain st' where x: "x = Inr (m\<lparr>is_readable := True\<rparr>, st')"
    and s: "sorter_ready f False st' (next_msgs r)" "sorter_cost (length f) st' < sorter_cost (length f) st" by auto
  have "chan_phase f T_Read r (m\<lparr>is_readable := True\<rparr>) st' rd" using assms(2) T_Publish s ready_turn by simp
  with x s show ?thesis by blast
next
  case T_Read
  with assms sorter_step_waiting [OF assms(1) _ _ assms(3), of "next_msgs r"] obtain st' where
    x: "x = Inr (m, st')" "sorter_ready f False st' (next_msgs r)" "sorter_cost (length f) st' < sorter_cost (length f) st" by auto
  then have "chan_phase f T_Read r m st' rd" using assms(2) T_Read by simp
  with x show ?thesis by blast
next
  case T_Got
  with assms sorter_step_waiting [OF assms(1) _ _ assms(3), of "next_msgs r"] obtain st' where
    x: "x = Inr (m, st')" "sorter_ready f False st' (next_msgs r)" "sorter_cost (length f) st' < sorter_cost (length f) st" by auto
  then have "chan_phase f T_Got r m st' rd" using assms(2) T_Got by simp
  with x show ?thesis by blast
next
  case T_Release
  with assms sorter_step_waiting [OF assms(1) _ _ assms(3), of "next_msgs r"] obtain st' where
    x: "x = Inr (m, st')" "sorter_ready f False st' (next_msgs r)" "sorter_cost (length f) st' < sorter_cost (length f) st" by auto
  then have "chan_phase f T_Release r m st' rd" using assms(2) T_Release by simp
  with x show ?thesis by blast
qed

lemma phase_reader_step:
  assumes "numbers_ok f" "chan_phase f ph r m st rd" "reader_step m rd = Some x"
  shows "\<exists>m' rd' ph' r'. x = Inr (m', rd') \<and> chan_phase f ph' r' m' st rd' \<and>
    reader_cost (length f) rd' < reader_cost (length f) rd"
proof -
  have wait: "\<exists>rd'. x = Inr (m, rd') \<and> reader_ready f False rd' r \<and> reader_cost (length f) rd' < reader_cost (length f) rd"
    if "reader_ready f False rd r" "\<not> is_readable m"
    using reader_step_waiting [OF assms(1) that assms(3)] .
  show ?thesis
  proof (cases ph)
    case T_Write
    with assms wait obtain rd' where x: "x = Inr (m, rd')" "reader_ready f False rd' r"
      "reader_cost (length f) rd' < reader_cost (length f) rd" by auto
    then have "chan_phase f T_Write r m st rd'" using assms(2) T_Write by simp
    with x show ?thesis by blast
  next
    case T_Wrote
    with assms wait obtain rd' where x: "x = Inr (m, rd')" "reader_ready f False rd' r"
      "reader_cost (length f) rd' < reader_cost (length f) rd" by auto
    then have "chan_phase f T_Wrote r m st rd'" using assms(2) T_Wrote by simp
    with x show ?thesis by blast
  next
    case T_Publish
    with assms wait obtain rd' where x: "x = Inr (m, rd')" "reader_ready f False rd' r"
      "reader_cost (length f) rd' < reader_cost (length f) rd" by auto
    then have "chan_phase f T_Publish r m st rd'" using assms(2) T_Publish by simp
    with x show ?thesis by blast
  next
    case T_Read
    with assms reader_step_turn [OF assms(1) _ _ _ assms(3), of r] obtain rd' where x: "x = Inr (m, rd')"
      and c: "reader_ready f True rd' r \<or> reader_mid f At_Clear rd' r" "reader_cost (length f) rd' < reader_cost (length f) rd"
      by auto
    have "chan_phase f T_Read r m st rd' \<or> chan_phase f T_Got r m st rd'" using assms(2) T_Read c by auto
    with x c show ?thesis by blast
  next
    case T_Got
    with assms reader_step_clear [OF _ assms(3), of f r] obtain rd' where x: "x = Inr (m\<lparr>is_readable := False\<rparr>, rd')"
      and c: "reader_mid f At_Set rd' r" "reader_cost (length f) rd' < reader_cost (length f) rd" by auto
    have "chan_phase f T_Release r (m\<lparr>is_readable := False\<rparr>) st rd'" using assms(2) T_Got c by simp
    with x c show ?thesis by blast
  next
    case T_Release
    with assms reader_step_set [OF _ assms(3), of f r] obtain rd' where x: "x = Inr (m\<lparr>is_writable := True\<rparr>, rd')"
      and c: "reader_ready f False rd' (next_msgs r)" "reader_cost (length f) rd' < reader_cost (length f) rd" by auto
    have "chan_phase f T_Write (next_msgs r) (m\<lparr>is_writable := True\<rparr>) st rd'"
      using assms(2) T_Release c ready_turn by simp
    with x c show ?thesis by blast
  qed
qed

text \<open>Nobody waits for ever: when one side waits for its flag, the other can go on.\<close>

lemma sorter_blocked:
  "sorter_ready f turn st r \<Longrightarrow> sorter_step m st = None \<Longrightarrow> st = Sorter_Exit \<and> r = [] \<or> \<not> is_writable m"
  by (cases st) (auto simp: map_call_def write_to_shared_mem_def write_ready_def writing_def split: if_splits)

lemma reader_blocked:
  "reader_ready f turn rd r \<Longrightarrow> reader_step m rd = None \<Longrightarrow>
     (\<exists>n a. rd = Read_Done n a) \<and> r = [] \<or> \<not> is_readable m \<and> r \<noteq> []"
  by (cases rd) (auto simp: map_call_def read_from_shared_mem_def read_ready_def reading_def Let_def split: if_splits)

lemma mid_enabled:
  "sorter_mid f p st r \<Longrightarrow> p = At_Clear \<or> p = At_Set \<Longrightarrow> sorter_step m st \<noteq> None"
  "reader_mid f p rd r \<Longrightarrow> p = At_Clear \<or> p = At_Set \<Longrightarrow> reader_step m rd \<noteq> None"
  by (cases st; auto simp: map_call_def write_to_shared_mem_def writing_def)
    (cases rd; auto simp: map_call_def read_from_shared_mem_def reading_def)

lemma chan_not_stuck:
  assumes "chan_phase f ph r m st rd" "sorter_step m st = None" "reader_step m rd = None"
  shows "st = Sorter_Exit \<and> (\<exists>n a. rd = Read_Done n a)"
proof (cases ph)
  case T_Write
  with assms sorter_blocked [of f True st r m] reader_blocked [of f False rd r m] show ?thesis by auto
next
  case T_Read
  with assms reader_blocked [of f True rd r m] show ?thesis by (auto simp: holds_piece_def)
qed (use assms mid_enabled(1) [of f At_Clear st r m] mid_enabled(1) [of f At_Set st r m]
    mid_enabled(2) [of f At_Clear rd r m] mid_enabled(2) [of f At_Set rd r m] in auto)

lemma chan_done:
  assumes "chan_phase f ph r m st (Read_Done n a)"
  shows "n = of_nat (length f) \<and> a = sorted_numbers f \<and> (st = Sorter_Exit \<or> sorter_step m st \<noteq> None)"
proof (cases ph)
  case T_Write
  with assms sorter_blocked [of f True st r m] show ?thesis by auto
next
  case T_Read
  with assms show ?thesis by (auto simp: holds_piece_def)
qed (use assms in \<open>auto simp: holds_piece_def\<close>)

section \<open>The whole program\<close>

definition reader_done :: "sort_worker \<Rightarrow> bool" where
  "reader_done w \<longleftrightarrow> (\<exists>n a. w_reader w = Read_Done n a)"

definition files_ok :: "i32 list list \<Rightarrow> bool" where
  "files_ok files \<longleftrightarrow> (\<forall>f\<in>set files. numbers_ok f) \<and> sum_list (map length files) < 2 ^ 31"

definition ms_inv :: "i32 list list \<Rightarrow> mem_sort \<Rightarrow> bool" where
  "ms_inv files s \<longleftrightarrow>
     length (ms_workers s) \<le> length files \<and> ms_files s = drop (length (ms_workers s)) files \<and>
     (\<forall>i<length (ms_workers s). chan_ok (files ! i) (ms_workers s ! i)) \<and>
     (if ms_pc s = M_Fork then ms_i s = 0 else ms_files s = []) \<and>
     ms_i s \<le> length (ms_workers s) \<and> ms_waited s = ms_i s \<and>
     ms_total s = sum_list (map length (take (ms_i s) files)) \<and>
     (\<forall>j<ms_i s. reader_done (ms_workers s ! j)) \<and>
     (ms_pc s = M_Wait \<longrightarrow> ms_i s < length (ms_workers s) \<and> reader_done (ms_workers s ! ms_i s)) \<and>
     (\<forall>r. ms_pc s = M_Done r \<longrightarrow> r = concat (map (sort_key sint) files))"

definition worker_cost :: "i32 list \<Rightarrow> sort_worker \<Rightarrow> nat" where
  "worker_cost f w = sorter_cost (length f) (w_sorter w) + reader_cost (length f) (w_reader w)"

fun main_cost :: "nat \<Rightarrow> main_pc \<Rightarrow> nat \<Rightarrow> nat" where
  "main_cost n M_Fork i = 2 * n + 2"
| "main_cost n M_Read i = 2 * (n - i) + 1"
| "main_cost n M_Wait i = 2 * (n - i)"
| "main_cost n (M_Done r) i = 0"

definition file_cost :: "i32 list list \<Rightarrow> sort_worker list \<Rightarrow> nat \<Rightarrow> nat" where
  "file_cost files ws i =
     (if i < length ws then worker_cost (files ! i) (ws ! i) else worker_cost (files ! i) (new_worker (files ! i)) + 1)"

definition ms_work :: "i32 list list \<Rightarrow> mem_sort \<Rightarrow> nat" where
  "ms_work files s = (\<Sum>i<length files. file_cost files (ms_workers s) i) + main_cost (length files) (ms_pc s) (ms_i s)"

lemma new_worker_ok: "chan_ok f (new_worker f)"
proof -
  have "chan_phase f T_Write [header f, body f] mem_init (Sorter_Start f) (Read_Size (read_call 4 4))"
    by (simp add: mem_init_def read_call_def read_ready_def reading_def)
  then show ?thesis by (simp only: chan_ok_def new_worker_def sort_worker.simps) blast
qed

lemma sum_update_less:
  fixes g h :: "nat \<Rightarrow> nat"
  assumes "i < n" "g i < h i" "\<And>j. j < n \<Longrightarrow> j \<noteq> i \<Longrightarrow> g j = h j"
  shows "sum g {..<n} < sum h {..<n}"
  by (rule sum_strict_mono_ex1) (use assms in \<open>force intro: le_less_trans\<close>)+

lemma ms_inv_set_worker:
  assumes "ms_inv files s" "i < length (ms_workers s)" "chan_ok (files ! i) w"
    "worker_cost (files ! i) w < worker_cost (files ! i) (ms_workers s ! i)"
    "w_reader w = w_reader (ms_workers s ! i) \<or> ms_pc s = M_Read \<and> i = ms_i s"
  shows "ms_inv files (set_sort_worker s i w)" "ms_work files (set_sort_worker s i w) < ms_work files s"
proof -
  have rd: "reader_done ((ms_workers s)[i := w] ! j)"
    if "reader_done (ms_workers s ! j)" "j \<noteq> i \<or> \<not> (ms_pc s = M_Read \<and> i = ms_i s)" for j
    using that assms(2,5) by (cases "j = i") (auto simp: reader_done_def)
  show "ms_inv files (set_sort_worker s i w)"
    using assms(1-3) rd by (auto simp: ms_inv_def set_sort_worker_def nth_list_update)
  have "(\<Sum>j<length files. file_cost files ((ms_workers s)[i := w]) j) < (\<Sum>j<length files. file_cost files (ms_workers s) j)"
    by (rule sum_update_less [of i]) (use assms in \<open>auto simp: file_cost_def ms_inv_def\<close>)
  then show "ms_work files (set_sort_worker s i w) < ms_work files s"
    by (simp add: ms_work_def set_sort_worker_def)
qed

lemma run_sorter_inv:
  assumes "files_ok files" "ms_inv files s" "i < length (ms_workers s)" "run_sorter i s = Some x"
  shows "\<exists>s'. x = Inr s' \<and> ms_inv files s' \<and> ms_work files s' < ms_work files s"
proof -
  let ?w = "ms_workers s ! i"
  from assms(4) obtain y where y: "sorter_step (w_mem ?w) (w_sorter ?w) = Some y"
    and x: "x = map_sum id (\<lambda>(m, st). set_sort_worker s i (?w\<lparr>w_mem := m, w_sorter := st\<rparr>)) y"
    by (auto simp: run_sorter_def Let_def)
  have f: "numbers_ok (files ! i)" using assms(1-3) by (auto simp: files_ok_def ms_inv_def)
  obtain ph r where "chan_phase (files ! i) ph r (w_mem ?w) (w_sorter ?w) (w_reader ?w)"
    using assms(2,3) by (auto simp: ms_inv_def chan_ok_def)
  from phase_sorter_step [OF f this y] obtain m' st' ph' where p: "y = Inr (m', st')"
    "chan_phase (files ! i) ph' r m' st' (w_reader ?w)"
    "sorter_cost (length (files ! i)) st' < sorter_cost (length (files ! i)) (w_sorter ?w)" by blast
  let ?v = "?w\<lparr>w_mem := m', w_sorter := st'\<rparr>"
  have "chan_ok (files ! i) ?v" using p(2) by (auto simp: chan_ok_def)
  with ms_inv_set_worker [OF assms(2,3), of ?v] p x show ?thesis by (simp add: worker_cost_def)
qed

lemma copy_arrays_ok:
  assumes "list_all2 (\<lambda>f w. \<exists>n. w_reader w = Read_Done n (sort_key sint f)) fs ws"
    "length arr = pos + sum_list (map length fs)"
  shows "copy_arrays arr pos ws = Inr (take pos arr @ concat (map (sort_key sint) fs))"
  using assms
proof (induction arbitrary: arr pos rule: list_all2_induct)
  case (Cons f fs w ws)
  then obtain n where w: "w_reader w = Read_Done n (sort_key sint f)" by blast
  have t: "take (pos + length f) (mem_write arr pos (sort_key sint f)) = take pos arr @ sort_key sint f"
    using take_mem_write_end [of pos arr "sort_key sint f"] Cons.prems by simp
  have "length (mem_write arr pos (sort_key sint f)) = pos + length f + sum_list (map length fs)"
    using Cons.prems by (simp add: length_mem_write)
  from Cons.IH [OF this] show ?case using w Cons.prems t by simp
qed simp

lemma run_main_fork:
  assumes "ms_inv files s" "ms_pc s = M_Fork"
  shows "\<exists>s'. run_main s = Some (Inr s') \<and> ms_inv files s' \<and> ms_work files s' < ms_work files s"
proof (cases "ms_files s")
  case Nil
  with assms show ?thesis by (simp add: run_main_def ms_inv_def ms_work_def)
next
  case (Cons f fs)
  let ?k = "length (ms_workers s)"
  let ?s' = "s\<lparr>ms_workers := ms_workers s @ [new_worker f], ms_files := fs\<rparr>"
  have "drop ?k files = f # fs" using assms Cons by (simp add: ms_inv_def)
  then have k: "?k < length files" "f = files ! ?k" "fs = drop (Suc ?k) files"
    by (metis drop_eq_Nil list.distinct(1) not_less, metis nth_via_drop, metis drop_Suc list.sel(3) tl_drop)
  have inv: "ms_inv files ?s'"
    using assms k new_worker_ok [of f] by (auto simp: ms_inv_def nth_append less_Suc_eq)
  have "(\<Sum>j<length files. file_cost files (ms_workers s @ [new_worker f]) j) < (\<Sum>j<length files. file_cost files (ms_workers s) j)"
    by (rule sum_update_less [of ?k]) (use k in \<open>auto simp: file_cost_def nth_append less_Suc_eq\<close>)
  then have "ms_work files ?s' < ms_work files s" by (simp add: ms_work_def)
  with inv assms(2) Cons show ?thesis by (simp add: run_main_def)
qed

lemma reader_done_chan:
  assumes "chan_ok f w" "reader_done w"
  shows "w_reader w = Read_Done (of_nat (length f)) (sort_key sint f)"
    "w_sorter w = Sorter_Exit \<or> sorter_step (w_mem w) (w_sorter w) \<noteq> None"
  using assms chan_done [of f _ _ "w_mem w" "w_sorter w"] by (fastforce simp: chan_ok_def reader_done_def)+

lemma run_main_copy:
  assumes "ms_inv files s" "ms_pc s = M_Read" "ms_i s = length (ms_workers s)"
  shows "\<exists>s'. run_main s = Some (Inr s') \<and> ms_inv files s' \<and> ms_work files s' < ms_work files s"
proof -
  have n: "length (ms_workers s) = length files" using assms by (auto simp: ms_inv_def)
  have "list_all2 (\<lambda>f w. \<exists>n. w_reader w = Read_Done n (sort_key sint f)) files (ms_workers s)"
    using assms n reader_done_chan(1) by (force simp: list_all2_conv_all_nth ms_inv_def)
  then have "copy_arrays (replicate (ms_total s) 0) 0 (ms_workers s) = Inr (concat (map (sort_key sint) files))"
    using copy_arrays_ok [of files "ms_workers s" "replicate (ms_total s) 0" 0] assms n by (simp add: ms_inv_def)
  with assms n show ?thesis by (simp add: run_main_def ms_inv_def ms_work_def)
qed

lemma run_main_read:
  assumes "files_ok files" "ms_inv files s" "ms_pc s = M_Read" "ms_i s \<noteq> length (ms_workers s)" "run_main s = Some x"
  shows "\<exists>s'. x = Inr s' \<and> ms_inv files s' \<and> ms_work files s' < ms_work files s"
proof (cases "reader_done (ms_workers s ! ms_i s)")
  case True
  with assms show ?thesis by (auto simp: run_main_def ms_inv_def ms_work_def reader_done_def)
next
  case False
  let ?i = "ms_i s" and ?w = "ms_workers s ! ms_i s"
  from False assms obtain y where y: "reader_step (w_mem ?w) (w_reader ?w) = Some y"
    and x: "x = map_sum id (\<lambda>(m, rd). set_sort_worker s ?i (?w\<lparr>w_mem := m, w_reader := rd\<rparr>)) y"
    by (auto simp: run_main_def reader_done_def Let_def split: reader.splits)
  have i: "?i < length (ms_workers s)" using assms(2,4) by (auto simp: ms_inv_def)
  have f: "numbers_ok (files ! ?i)" using assms(1,2) i by (auto simp: files_ok_def ms_inv_def)
  obtain ph r where "chan_phase (files ! ?i) ph r (w_mem ?w) (w_sorter ?w) (w_reader ?w)"
    using assms(2) i by (auto simp: ms_inv_def chan_ok_def)
  from phase_reader_step [OF f this y] obtain m' rd' ph' r' where p: "y = Inr (m', rd')"
    "chan_phase (files ! ?i) ph' r' m' (w_sorter ?w) rd'"
    "reader_cost (length (files ! ?i)) rd' < reader_cost (length (files ! ?i)) (w_reader ?w)" by blast
  let ?v = "?w\<lparr>w_mem := m', w_reader := rd'\<rparr>"
  have "chan_ok (files ! ?i) ?v" using p(2) by (auto simp: chan_ok_def)
  with ms_inv_set_worker [OF assms(2) i, of ?v] p x assms(3) show ?thesis by (simp add: worker_cost_def)
qed

lemma run_main_wait:
  assumes "files_ok files" "ms_inv files s" "ms_pc s = M_Wait" "run_main s = Some x"
  shows "\<exists>s'. x = Inr s' \<and> ms_inv files s' \<and> ms_work files s' < ms_work files s"
proof -
  let ?i = "ms_i s"
  have i: "?i < length (ms_workers s)" "length (ms_workers s) = length files" "reader_done (ms_workers s ! ?i)"
    "chan_ok (files ! ?i) (ms_workers s ! ?i)" using assms(2,3) by (auto simp: ms_inv_def)
  have rd: "w_reader (ms_workers s ! ?i) = Read_Done (of_nat (length (files ! ?i))) (sort_key sint (files ! ?i))"
    using reader_done_chan(1) [OF i(4,3)] .
  have f: "length (files ! ?i) < 2 ^ 29" using assms(1) i by (auto simp: files_ok_def numbers_ok_def)
  have t: "ms_total s + length (files ! ?i) = sum_list (map length (take (Suc ?i) files))"
    using assms(2) i by (simp add: ms_inv_def take_Suc_conv_app_nth)
  also have "\<dots> \<le> sum_list (map length files)"
    by (metis append_take_drop_id le_add1 map_append sum_list.append)
  finally have l: "ms_total s + length (files ! ?i) < 2 ^ 31" using assms(1) by (simp add: files_ok_def)
  have "x = Inr (s\<lparr>ms_pc := M_Read, ms_i := ?i + 1, ms_waited := ms_waited s + 1, ms_total := ms_total s + length (files ! ?i)\<rparr>)"
    using assms(3,4) rd l array_size(1) [OF f] by (auto simp: run_main_def split: if_splits)
  with assms(2,3) i t show ?thesis by (auto simp: ms_inv_def ms_work_def less_Suc_eq)
qed

lemma ms_step_inv:
  assumes "files_ok files" "ms_inv files s" "ms_proc s p = Some x"
  shows "\<exists>s'. x = Inr s' \<and> ms_inv files s' \<and> ms_work files s' < ms_work files s"
proof (cases p)
  case None
  with assms have r: "run_main s = Some x" by (simp add: ms_proc_def)
  show ?thesis
  proof (cases "ms_pc s")
    case M_Fork
    with run_main_fork [OF assms(2)] r show ?thesis by auto
  next
    case M_Read
    with run_main_copy [OF assms(2)] run_main_read [OF assms(1,2) _ _ r] r show ?thesis
      by (cases "ms_i s = length (ms_workers s)") auto
  next
    case M_Wait
    with run_main_wait [OF assms(1,2) _ r] show ?thesis by simp
  next
    case (M_Done q)
    with r show ?thesis by (simp add: run_main_def)
  qed
next
  case (Some i)
  with assms run_sorter_inv [OF assms(1,2)] show ?thesis by (auto simp: ms_proc_def split: if_splits)
qed

lemma ms_not_stuck:
  assumes "ms_inv files s" "\<forall>p. ms_proc s p = None"
  shows "ms_pc s = M_Done (concat (map (sort_key sint) files))"
proof (cases "ms_pc s")
  case M_Fork
  with run_main_fork [OF assms(1)] assms(2) show ?thesis by (auto simp: ms_proc_def dest: spec [of _ None])
next
  case (M_Done r)
  with assms(1) show ?thesis by (simp add: ms_inv_def)
next
  case M_Read
  show ?thesis
  proof (cases "ms_i s = length (ms_workers s)")
    case True
    with M_Read run_main_copy [OF assms(1)] assms(2) show ?thesis by (auto simp: ms_proc_def dest: spec [of _ None])
  next
    case False
    let ?w = "ms_workers s ! ms_i s"
    have i: "ms_i s < length (ms_workers s)" using assms(1) False by (auto simp: ms_inv_def)
    have st: "sorter_step (w_mem ?w) (w_sorter ?w) = None"
      using spec [OF assms(2), of "Some (ms_i s)"] i by (simp add: ms_proc_def run_sorter_def Let_def)
    have rd: "\<not> reader_done ?w \<and> reader_step (w_mem ?w) (w_reader ?w) = None"
      using spec [OF assms(2), of None] M_Read False
      by (auto simp: ms_proc_def run_main_def reader_done_def Let_def split: reader.splits)
    obtain ph r where "chan_phase (files ! ms_i s) ph r (w_mem ?w) (w_sorter ?w) (w_reader ?w)"
      using assms(1) i by (auto simp: ms_inv_def chan_ok_def)
    with chan_not_stuck [OF this st] rd show ?thesis by (auto simp: reader_done_def)
  qed
next
  case M_Wait
  have e: "w_sorter (ms_workers s ! j) = Sorter_Exit" if "j \<le> ms_i s" for j
  proof -
    have j: "j < length (ms_workers s)" "reader_done (ms_workers s ! j)" "chan_ok (files ! j) (ms_workers s ! j)"
      using assms(1) M_Wait that by (cases "j = ms_i s"; auto simp: ms_inv_def)+
    have "sorter_step (w_mem (ms_workers s ! j)) (w_sorter (ms_workers s ! j)) = None"
      using spec [OF assms(2), of "Some j"] j(1) by (simp add: ms_proc_def run_sorter_def Let_def)
    with reader_done_chan(2) [OF j(3,2)] show ?thesis by simp
  qed
  have i: "ms_i s < length (ms_workers s)" "ms_waited s = ms_i s" "reader_done (ms_workers s ! ms_i s)"
    using assms(1) M_Wait by (auto simp: ms_inv_def)
  have "{..ms_i s} \<subseteq> {j. j < length (ms_workers s) \<and> w_sorter (ms_workers s ! j) = Sorter_Exit}"
    using e i(1) by auto
  then have "card {..ms_i s} \<le> length (filter (\<lambda>w. w_sorter w = Sorter_Exit) (ms_workers s))"
    unfolding length_filter_conv_card by (intro card_mono) auto
  then have "run_main s \<noteq> None" using M_Wait i by (auto simp: run_main_def reader_done_def)
  with spec [OF assms(2), of None] show ?thesis by (simp add: ms_proc_def)
qed

lemma ms_init_inv: "ms_inv files (mem_sort_init files)"
  by (simp add: ms_inv_def mem_sort_init_def)

definition ms_sorted :: "i32 list list \<Rightarrow> mem_sort \<Rightarrow> bool" where
  "ms_sorted files s \<longleftrightarrow> ms_pc s = M_Done (concat (map (sort_key sint) files))"

interpretation ms_run: progress ms_step "\<lambda>s. files_ok files \<and> ms_inv files s" "ms_work files" "ms_sorted files" for files
proof
  show "ms_sorted files s" if "files_ok files \<and> ms_inv files s" "\<nexists>s'. ms_step s s'" for s
  proof -
    have "ms_proc s p = None" for p
      using ms_step_inv [of files s p] that by (cases "ms_proc s p") (fastforce intro: ms_step.intros)+
    then show ?thesis using ms_not_stuck [of files s] that(1) by (simp add: ms_sorted_def)
  qed
qed (auto elim!: ms_step.cases dest: ms_step_inv)

text \<open>The processes that are copying bytes to or from the shared memory.\<close>

fun sorter_copies :: "sorter \<Rightarrow> bool" where
  "sorter_copies (Sorter_Size a k) \<longleftrightarrow> k_pc k = At_Copy"
| "sorter_copies (Sorter_Array k) \<longleftrightarrow> k_pc k = At_Copy"
| "sorter_copies st \<longleftrightarrow> False"

fun reader_copies :: "reader \<Rightarrow> bool" where
  "reader_copies (Read_Size k) \<longleftrightarrow> k_pc k = At_Copy"
| "reader_copies (Read_Array n k) \<longleftrightarrow> k_pc k = At_Copy"
| "reader_copies rd \<longleftrightarrow> False"

lemma copies_turn:
  "sorter_copies st \<Longrightarrow> \<not> sorter_ready f False st r" "reader_copies rd \<Longrightarrow> \<not> reader_ready f False rd r"
  by (cases st; auto simp: write_ready_def writing_def) (cases rd; auto simp: read_ready_def reading_def)

lemma chan_no_race: "chan_ok f w \<Longrightarrow> \<not> (sorter_copies (w_sorter w) \<and> reader_copies (w_reader w))"
proof
  assume "chan_ok f w" and c: "sorter_copies (w_sorter w) \<and> reader_copies (w_reader w)"
  then obtain ph r where "chan_phase f ph r (w_mem w) (w_sorter w) (w_reader w)" by (auto simp: chan_ok_def)
  with c show False using copies_turn by (cases ph) auto
qed

text \<open>
  (C20) The parallel sort always gets its result. Whatever way main and the sorters are interleaved,
  no access is outside of its array, a sorter and main never copy to and from its shared memory at
  the same time, a run has at most \<open>ms_work\<close> steps besides those of waiting processes, and it can
  be continued to its only end: the sorted files, one after the other, in main's array. The files
  have less than \<open>2 ^ 29\<close> numbers each, less than \<open>2 ^ 31\<close> in all, and their differences fit in an \<open>int\<close>.
\<close>

theorem mem_sort_finishes:
  assumes "files_ok files" "(ms_step ^^ k) (mem_sort_init files) s"
  shows "k \<le> ms_work files (mem_sort_init files) \<and> (\<nexists>p e. ms_proc s p = Some (Inl e)) \<and>
    (\<forall>w\<in>set (ms_workers s). \<not> (sorter_copies (w_sorter w) \<and> reader_copies (w_reader w))) \<and>
    (\<exists>s'. ms_step\<^sup>*\<^sup>* s s' \<and> ms_pc s' = M_Done (concat (map (sort_key sint) files))) \<and>
    (\<forall>r. ms_pc s = M_Done r \<longrightarrow> r = concat (map (sort_key sint) files))"
proof -
  have start: "files_ok files \<and> ms_inv files (mem_sort_init files)"
    using assms(1) ms_init_inv [of files] by simp
  then have inv: "ms_inv files s"
    using ms_run.run_inv [OF assms(2)] by simp
  moreover have "\<nexists>p e. ms_proc s p = Some (Inl e)" using ms_step_inv [OF assms(1) inv] by blast
  moreover have "\<forall>w\<in>set (ms_workers s). \<not> (sorter_copies (w_sorter w) \<and> reader_copies (w_reader w))"
    using inv chan_no_race by (fastforce simp: ms_inv_def in_set_conv_nth)
  ultimately show ?thesis
    using ms_run.finishes [OF assms(2) start] inv by (auto simp: ms_inv_def ms_sorted_def)
qed

theorem mem_sort_finishes_witness:
  "\<exists>s'. ms_step\<^sup>*\<^sup>* (mem_sort_init [[3, 1, - 2], [7, 5]]) s' \<and> ms_pc s' = M_Done [- 2, 1, 3, 5, 7]"
proof -
  have "files_ok [[3, 1, - 2], [7, 5]]" by (simp add: files_ok_def numbers_ok_def comparable_def cmp_def Let_def)
  from mem_sort_finishes [OF this, of 0] show ?thesis by simp
qed

end
