(* ===== verification/CThread.thy ===== *)
theory CThread
  imports Prelude
begin

text \<open>
  The threads of src/lecture_examples/6_threads/12_cthread_detach.c: a thread runs on a stack that
  nobody may free before it has exited, so that a stack is put on a list when its thread is
  destroyed, and freed by a later call once the kernel has cleared the thread's \<open>tid\<close>. The threads
  and the callers of \<open>cthread_detach\<close> and \<open>cthread_join\<close> interleave at every access to the locks and flags.
\<close>

section \<open>Data\<close>

text \<open>The two that work on a thread: the one that runs it and the client that detaches or joins it.\<close>

datatype actor = Runner | Client

text \<open>
  Where an actor stands: in \<open>func\<close> or waiting for \<open>is_finished\<close>, at the lock of the thread, at the test
  of the other's flag, in the three parts of \<open>cthread_destroy\<close>, at the setting of its own flag, at the
  unlocking, after its return, and (the runner) after the kernel has cleared \<open>tid\<close>.
\<close>

datatype ct_pc =
    C_Func | C_Wait | C_Lock | C_Test | C_LockList | C_Destroy | C_UnlockList | C_Mark | C_Unlock | C_Ret | C_Gone

text \<open>\<open>ct_join\<close> says whether the client joins the thread instead of detaching it.\<close>

record cthread =
  returned_code :: int
  ct_stack :: nat
  ct_lock :: bool
  is_finished :: bool
  is_detached :: bool
  ct_pc :: "actor \<Rightarrow> ct_pc"
  ct_join :: bool

text \<open>
  \<open>stacks\<close> has the \<open>tid\<close> of every \<open>struct cthread_stack\<close> that is allocated, together with its stack;
  \<open>stack_list\<close> are the addresses in the order of the \<open>next\<close> links.
\<close>

record ct_state =
  cthreads :: "cthread list"
  stacks :: "nat \<Rightarrow> nat option"
  stack_list :: "nat list"
  last_stack_lock :: bool

definition ct_init :: ct_state where
  "ct_init = \<lparr>cthreads = [], stacks = \<lambda>_. None, stack_list = [], last_stack_lock = False\<rparr>"

section \<open>Operations\<close>

text \<open>\<open>spin_lock\<close> goes on spinning (\<open>None\<close>) while the flag is set.\<close>

definition spin_lock :: "bool \<Rightarrow> bool option" where
  "spin_lock lock = (if lock then None else Some True)"

definition spin_unlock :: "bool \<Rightarrow> bool" where
  "spin_unlock lock = (if lock then False else lock)"

text \<open>
  \<open>cthread_create\<close>: the kernel stores the new \<open>tid\<close> before the thread runs. Addresses of stacks are
  not used twice.
\<close>

definition cthread_create :: "bool \<Rightarrow> nat \<Rightarrow> ct_state \<Rightarrow> ct_state" where
  "cthread_create joined tid s =
     (let n = length (cthreads s);
          t = \<lparr>returned_code = 0, ct_stack = n, ct_lock = False, is_finished = False, is_detached = False,
                ct_pc = case_actor C_Func (if joined then C_Wait else C_Lock), ct_join = joined\<rparr>
      in s\<lparr>cthreads := cthreads s @ [t], stacks := (stacks s)(n \<mapsto> tid)\<rparr>)"

text \<open>The loop of \<open>cthread_destroy\<close>, and its body between the two lock operations.\<close>

fun free_exited :: "nat list \<Rightarrow> (nat \<Rightarrow> nat option) \<Rightarrow> (nat list \<times> (nat \<Rightarrow> nat option)) cres" where
  "free_exited [] st = Inr ([], st)"
| "free_exited (a # as) st =
     (case st a of
        None \<Rightarrow> Inl UseAfterFree
      | Some tid \<Rightarrow> if tid \<noteq> 0 then Inr (a # as, st) else free_exited as (st(a := None)))"

definition cthread_destroy :: "nat \<Rightarrow> ct_state \<Rightarrow> ct_state cres" where
  "cthread_destroy stack s =
     rbind (free_exited (stack_list s) (stacks s)) (\<lambda>(iter, st).
     if st stack = None then Inl UseAfterFree
     else Inr (s\<lparr>stack_list := stack # iter, stacks := st\<rparr>))"

text \<open>The flag that an actor sets and the other one tests.\<close>

definition flag :: "actor \<Rightarrow> cthread \<Rightarrow> bool" where
  "flag a t = (case a of Runner \<Rightarrow> is_finished t | Client \<Rightarrow> is_detached t)"

definition mark :: "actor \<Rightarrow> cthread \<Rightarrow> cthread" where
  "mark a t = (case a of Runner \<Rightarrow> t\<lparr>is_finished := True\<rparr> | Client \<Rightarrow> t\<lparr>is_detached := True\<rparr>)"

definition other :: "actor \<Rightarrow> actor" where
  "other a = (case a of Runner \<Rightarrow> Client | Client \<Rightarrow> Runner)"

definition set_thread :: "nat \<Rightarrow> cthread \<Rightarrow> ct_state \<Rightarrow> ct_state" where
  "set_thread i t s = s\<lparr>cthreads := (cthreads s)[i := t]\<rparr>"

definition goto :: "actor \<Rightarrow> ct_pc \<Rightarrow> cthread \<Rightarrow> cthread" where
  "goto a p t = t\<lparr>ct_pc := (ct_pc t)(a := p)\<rparr>"

text \<open>
  One step of \<open>cthread_runner\<close>, or of \<open>cthread_detach\<close> or \<open>cthread_join\<close>, for the thread \<open>i\<close>. \<open>code\<close> is
  what \<open>func\<close> returns or passes to \<open>cthread_exit\<close>.
\<close>

definition cthread_step :: "int \<Rightarrow> nat \<Rightarrow> actor \<Rightarrow> ct_state \<Rightarrow> ct_state cres option" where
  "cthread_step code i a s =
     (let t = cthreads s ! i; go = (\<lambda>p t. set_thread i (goto a p t)) in
      case ct_pc t a of
        C_Func \<Rightarrow> Some (Inr (go C_Lock (t\<lparr>returned_code := code\<rparr>) s))
      | C_Wait \<Rightarrow> if is_finished t then Some (Inr (go C_LockList t s)) else None
      | C_Lock \<Rightarrow> map_option (\<lambda>l. Inr (go C_Test (t\<lparr>ct_lock := l\<rparr>) s)) (spin_lock (ct_lock t))
      | C_Test \<Rightarrow> Some (Inr (go (if flag (other a) t then C_LockList else C_Mark) t s))
      | C_LockList \<Rightarrow>
          map_option (\<lambda>l. Inr (go C_Destroy t (s\<lparr>last_stack_lock := l\<rparr>))) (spin_lock (last_stack_lock s))
      | C_Destroy \<Rightarrow> Some (rbind (cthread_destroy (ct_stack t) s) (\<lambda>s. Inr (go C_UnlockList t s)))
      | C_UnlockList \<Rightarrow>
          Some (Inr (go (if a = Client \<and> ct_join t then C_Ret else C_Mark) t
                       (s\<lparr>last_stack_lock := spin_unlock (last_stack_lock s)\<rparr>)))
      | C_Mark \<Rightarrow> Some (Inr (go C_Unlock (mark a t) s))
      | C_Unlock \<Rightarrow> Some (Inr (go C_Ret (t\<lparr>ct_lock := spin_unlock (ct_lock t)\<rparr>) s))
      | C_Ret \<Rightarrow>
          (case a of
             Client \<Rightarrow> None
           | Runner \<Rightarrow>
               (case stacks s (ct_stack t) of
                  None \<Rightarrow> Some (Inl UseAfterFree)
                | Some tid \<Rightarrow> Some (Inr (go C_Gone t (s\<lparr>stacks := (stacks s)(ct_stack t \<mapsto> 0)\<rparr>)))))
      | C_Gone \<Rightarrow> None)"

text \<open>
  The program: threads are created, with any \<open>tid\<close> but 0, and their actors take steps. \<open>code i\<close> is the
  value of the \<open>i\<close>-th thread.
\<close>

inductive ct_move :: "(nat \<Rightarrow> int) \<Rightarrow> ct_state \<Rightarrow> ct_state \<Rightarrow> bool" for code where
  "i < length (cthreads s) \<Longrightarrow> cthread_step (code i) i a s = Some (Inr s') \<Longrightarrow> ct_move code s s'"

inductive ct_reachable :: "(nat \<Rightarrow> int) \<Rightarrow> ct_state \<Rightarrow> bool" for code where
  start: "ct_reachable code ct_init"
| create: "ct_reachable code s \<Longrightarrow> tid \<noteq> 0 \<Longrightarrow> ct_reachable code (cthread_create joined tid s)"
| move: "ct_reachable code s \<Longrightarrow> ct_move code s s' \<Longrightarrow> ct_reachable code s'"

text \<open>
  The loop at the end of \<open>main\<close>, which waits for the ten threads: a step looks at \<open>is_finished\<close> of the
  thread \<open>i\<close>; when it is not set, \<open>i\<close> becomes 0 and then, by the loop's increment, 1.
\<close>

definition wait_step :: "(nat \<Rightarrow> bool) \<Rightarrow> nat \<Rightarrow> nat" where
  "wait_step finished i = (if \<not> finished i then 0 + 1 else i + 1)"

fun wait_loop :: "(nat \<Rightarrow> bool) list \<Rightarrow> nat \<Rightarrow> bool" where
  "wait_loop [] i \<longleftrightarrow> \<not> i < 10"
| "wait_loop (f # fs) i \<longleftrightarrow> \<not> i < 10 \<or> wait_loop fs (wait_step f i)"

end
