(* ===== verification/CThread_Spec.thy ===== *)
theory CThread_Spec
  imports CThread
begin

text \<open>
  What the threads of src/lecture_examples/6_threads/12_cthread_detach.c promise: mutual exclusion at the
  list of stacks, no stack freed while it is in use or freed twice, and that everything ends.
\<close>

section \<open>The invariant\<close>

definition in_section :: "ct_pc \<Rightarrow> bool" where
  "in_section p \<longleftrightarrow> p = C_Test \<or> p = C_LockList \<or> p = C_Destroy \<or> p = C_UnlockList \<or> p = C_Mark \<or> p = C_Unlock"

definition in_destroy :: "ct_pc \<Rightarrow> bool" where
  "in_destroy p \<longleftrightarrow> p = C_Destroy \<or> p = C_UnlockList"

definition locks :: "actor \<Rightarrow> cthread \<Rightarrow> bool" where
  "locks a t \<longleftrightarrow> in_section (ct_pc t a) \<and> \<not> (a = Client \<and> ct_join t)"

text \<open>That the stack of the thread was put on the list.\<close>

definition was_destroyed :: "cthread \<Rightarrow> bool" where
  "was_destroyed t \<longleftrightarrow> ct_pc t Runner = C_UnlockList \<or> ct_pc t Client = C_UnlockList \<or>
     ct_pc t Runner = C_Mark \<and> is_detached t \<or> ct_pc t Client = C_Mark \<and> is_finished t \<or>
     is_finished t \<and> is_detached t \<or> ct_join t \<and> ct_pc t Client = C_Ret"

definition pcs_ok :: "cthread \<Rightarrow> bool" where
  "pcs_ok t \<longleftrightarrow> ct_pc t Runner \<noteq> C_Wait \<and> ct_pc t Client \<noteq> C_Func \<and> ct_pc t Client \<noteq> C_Gone \<and>
     (if ct_join t then ct_pc t Client \<in> {C_Wait, C_LockList, C_Destroy, C_UnlockList, C_Ret}
      else ct_pc t Client \<noteq> C_Wait)"

definition flags_ok :: "cthread \<Rightarrow> bool" where
  "flags_ok t \<longleftrightarrow> (is_finished t \<longleftrightarrow> ct_pc t Runner \<in> {C_Unlock, C_Ret, C_Gone}) \<and>
     (is_detached t \<longleftrightarrow> \<not> ct_join t \<and> ct_pc t Client \<in> {C_Unlock, C_Ret}) \<and>
     (ct_pc t Runner \<in> {C_LockList, C_Destroy, C_UnlockList} \<longrightarrow> is_detached t) \<and>
     (ct_pc t Client \<in> {C_LockList, C_Destroy, C_UnlockList} \<longrightarrow> is_finished t)"

definition lock_ok :: "cthread \<Rightarrow> bool" where
  "lock_ok t \<longleftrightarrow> (ct_lock t \<longleftrightarrow> locks Runner t \<or> locks Client t) \<and> \<not> (locks Runner t \<and> locks Client t)"

definition stack_ok :: "nat option \<Rightarrow> bool \<Rightarrow> cthread \<Rightarrow> bool" where
  "stack_ok tid listed t \<longleftrightarrow> (listed \<or> tid = None \<longleftrightarrow> was_destroyed t) \<and> (listed \<longrightarrow> tid \<noteq> None) \<and>
     (case tid of None \<Rightarrow> ct_pc t Runner = C_Gone | Some x \<Rightarrow> x = 0 \<longleftrightarrow> ct_pc t Runner = C_Gone)"

definition thread_ok :: "int \<Rightarrow> nat option \<Rightarrow> bool \<Rightarrow> cthread \<Rightarrow> bool" where
  "thread_ok code tid listed t \<longleftrightarrow> pcs_ok t \<and> flags_ok t \<and> lock_ok t \<and> stack_ok tid listed t \<and>
     (ct_pc t Runner \<noteq> C_Func \<longrightarrow> returned_code t = code)"

text \<open>\<open>owner\<close> is the actor that holds the lock of the list.\<close>

definition list_lock_ok :: "ct_state \<Rightarrow> (nat \<times> actor) option \<Rightarrow> bool" where
  "list_lock_ok s owner \<longleftrightarrow> (last_stack_lock s \<longleftrightarrow> owner \<noteq> None) \<and>
     (\<forall>i<length (cthreads s). \<forall>a. in_destroy (ct_pc (cthreads s ! i) a) \<longleftrightarrow> owner = Some (i, a)) \<and>
     (\<forall>i a. owner = Some (i, a) \<longrightarrow> i < length (cthreads s))"

definition ct_inv :: "(nat \<Rightarrow> int) \<Rightarrow> ct_state \<Rightarrow> bool" where
  "ct_inv code s \<longleftrightarrow>
     (\<forall>i<length (cthreads s). ct_stack (cthreads s ! i) = i \<and>
        thread_ok (code i) (stacks s i) (i \<in> set (stack_list s)) (cthreads s ! i)) \<and>
     distinct (stack_list s) \<and> set (stack_list s) \<subseteq> {..<length (cthreads s)} \<and>
     (\<forall>i\<ge>length (cthreads s). stacks s i = None) \<and> (\<exists>owner. list_lock_ok s owner)"

lemmas pc_defs = in_section_def in_destroy_def locks_def was_destroyed_def pcs_ok_def flags_ok_def lock_ok_def

lemma ct_inv_threadD:
  assumes "ct_inv code s" "i < length (cthreads s)"
  shows "ct_stack (cthreads s ! i) = i" "thread_ok (code i) (stacks s i) (i \<in> set (stack_list s)) (cthreads s ! i)"
  using assms by (auto simp: ct_inv_def)

lemma goto_sel [simp]:
  "ct_pc (goto a p t) = (ct_pc t)(a := p)" "ct_stack (goto a p t) = ct_stack t" "ct_lock (goto a p t) = ct_lock t"
  "is_finished (goto a p t) = is_finished t" "is_detached (goto a p t) = is_detached t"
  "returned_code (goto a p t) = returned_code t" "ct_join (goto a p t) = ct_join t"
  by (simp_all add: goto_def)

lemma set_thread_sel [simp]:
  "cthreads (set_thread i t s) = (cthreads s)[i := t]" "stacks (set_thread i t s) = stacks s"
  "stack_list (set_thread i t s) = stack_list s" "last_stack_lock (set_thread i t s) = last_stack_lock s"
  by (simp_all add: set_thread_def)

section \<open>Steps keep the invariant\<close>

lemma ct_inv_set_thread:
  assumes "ct_inv code s" "i < length (cthreads s)" "ct_stack t = i"
    "thread_ok (code i) (stacks s i) (i \<in> set (stack_list s)) t"
    "\<And>a. in_destroy (ct_pc t a) \<longleftrightarrow> in_destroy (ct_pc (cthreads s ! i) a)"
  shows "ct_inv code (set_thread i t s)"
proof -
  obtain owner where "list_lock_ok s owner" using assms(1) by (auto simp: ct_inv_def)
  then have "list_lock_ok (set_thread i t s) owner"
    using assms(2,5) by (auto simp: list_lock_ok_def nth_list_update)
  with assms show ?thesis by (auto simp: ct_inv_def nth_list_update)
qed

text \<open>The steps that touch neither the list nor the stacks.\<close>

lemma thread_ok_func:
  "thread_ok code tid listed t \<Longrightarrow> ct_pc t a = C_Func \<Longrightarrow>
     thread_ok code tid listed (goto a C_Lock (t\<lparr>returned_code := code\<rparr>)) \<and> a = Runner"
  by (cases a) (auto simp: thread_ok_def stack_ok_def pc_defs split: option.splits if_splits)

lemma thread_ok_wait:
  "thread_ok code tid listed t \<Longrightarrow> ct_pc t a = C_Wait \<Longrightarrow> is_finished t \<Longrightarrow> thread_ok code tid listed (goto a C_LockList t)"
  by (cases a) (auto simp: thread_ok_def stack_ok_def pc_defs split: option.splits if_splits)

lemma thread_ok_lock:
  "thread_ok code tid listed t \<Longrightarrow> ct_pc t a = C_Lock \<Longrightarrow> \<not> ct_lock t \<Longrightarrow>
     thread_ok code tid listed (goto a C_Test (t\<lparr>ct_lock := True\<rparr>))"
  by (cases a) (auto simp: thread_ok_def stack_ok_def pc_defs split: option.splits if_splits)

lemma thread_ok_test:
  "thread_ok code tid listed t \<Longrightarrow> ct_pc t a = C_Test \<Longrightarrow>
     thread_ok code tid listed (goto a (if flag (other a) t then C_LockList else C_Mark) t)"
  by (cases a) (auto simp: thread_ok_def stack_ok_def pc_defs flag_def other_def split: option.splits if_splits)

lemma thread_ok_mark:
  "thread_ok code tid listed t \<Longrightarrow> ct_pc t a = C_Mark \<Longrightarrow> thread_ok code tid listed (goto a C_Unlock (mark a t))"
  by (cases a) (auto simp: thread_ok_def stack_ok_def pc_defs mark_def split: option.splits if_splits)

lemma thread_ok_unlock:
  "thread_ok code tid listed t \<Longrightarrow> ct_pc t a = C_Unlock \<Longrightarrow>
     thread_ok code tid listed (goto a C_Ret (t\<lparr>ct_lock := spin_unlock (ct_lock t)\<rparr>))"
  by (cases a) (auto simp: thread_ok_def stack_ok_def pc_defs spin_unlock_def split: option.splits if_splits)

lemma thread_ok_locklist:
  "thread_ok code tid listed t \<Longrightarrow> ct_pc t a = C_LockList \<Longrightarrow> thread_ok code tid listed (goto a C_Destroy t)"
  by (cases a) (auto simp: thread_ok_def stack_ok_def pc_defs split: option.splits if_splits)

lemma thread_ok_unlocklist:
  "thread_ok code tid listed t \<Longrightarrow> ct_pc t a = C_UnlockList \<Longrightarrow>
     thread_ok code tid listed (goto a (if a = Client \<and> ct_join t then C_Ret else C_Mark) t)"
  by (cases a) (auto simp: thread_ok_def stack_ok_def pc_defs split: option.splits if_splits)

lemma thread_ok_destroy:
  "thread_ok code tid False t \<Longrightarrow> ct_pc t a = C_Destroy \<Longrightarrow> thread_ok code tid True (goto a C_UnlockList t)"
  by (cases a) (auto simp: thread_ok_def stack_ok_def pc_defs split: option.splits if_splits)

lemma thread_ok_destroying:
  "thread_ok code tid listed t \<Longrightarrow> ct_pc t a = C_Destroy \<Longrightarrow> \<not> listed \<and> tid \<noteq> None"
  by (cases a) (auto simp: thread_ok_def stack_ok_def pc_defs split: option.splits if_splits)

lemma thread_ok_exit:
  "thread_ok code (Some x) listed t \<Longrightarrow> ct_pc t Runner = C_Ret \<Longrightarrow> thread_ok code (Some 0) listed (goto Runner C_Gone t)"
  by (auto simp: thread_ok_def stack_ok_def pc_defs split: option.splits if_splits)

lemma thread_ok_stack: "thread_ok code None listed t \<Longrightarrow> ct_pc t Runner = C_Gone"
  by (auto simp: thread_ok_def stack_ok_def)

lemma thread_ok_freed: "thread_ok code (Some 0) True t \<Longrightarrow> thread_ok code None False t"
  by (auto simp: thread_ok_def stack_ok_def)

lemma free_exited_ok:
  assumes "distinct as" "\<forall>a\<in>set as. st a \<noteq> None"
  shows "\<exists>bs cs. as = bs @ cs \<and> (\<forall>b\<in>set bs. st b = Some 0) \<and>
    free_exited as st = Inr (cs, \<lambda>b. if b \<in> set bs then None else st b)"
  using assms
proof (induction as arbitrary: st)
  case Nil
  then show ?case by simp
next
  case (Cons a as)
  obtain tid where tid: "st a = Some tid" using Cons.prems by auto
  show ?case
  proof (cases "tid = 0")
    case False
    then show ?thesis using tid by (intro exI [of _ "[]"] exI [of _ "a # as"]) simp
  next
    case True
    have "distinct as" "\<forall>b\<in>set as. (st(a := None)) b \<noteq> None" using Cons.prems by auto
    from Cons.IH [OF this] obtain bs cs where b: "as = bs @ cs" "\<forall>b\<in>set bs. (st(a := None)) b = Some 0"
      "free_exited as (st(a := None)) = Inr (cs, \<lambda>b. if b \<in> set bs then None else (st(a := None)) b)" by blast
    have "(\<lambda>b. if b \<in> set bs then None else (st(a := None)) b) = (\<lambda>b. if b \<in> set (a # bs) then None else st b)"
      by (auto simp: fun_eq_iff)
    moreover have "\<forall>x\<in>set (a # bs). st x = Some 0" using b(2) tid True by (auto split: if_splits)
    moreover have "free_exited (a # as) st = free_exited as (st(a := None))" using tid True by simp
    ultimately show ?thesis using b(1,3) by (metis append_Cons)
  qed
qed

lemma list_lock_ok_goto:
  assumes l: "list_lock_ok s owner" and i: "i < length (cthreads s)"
    and "cthreads s' = cthreads s" "last_stack_lock s' \<longleftrightarrow> owner' \<noteq> None" "in_destroy p \<longleftrightarrow> owner' = Some (i, a)"
    and o: "\<And>jb. jb \<noteq> (i, a) \<Longrightarrow> owner' = Some jb \<longleftrightarrow> owner = Some jb"
  shows "list_lock_ok (set_thread i (goto a p (cthreads s ! i)) s') owner'"
proof -
  have "in_destroy (ct_pc ((cthreads s)[i := goto a p (cthreads s ! i)] ! j) b) \<longleftrightarrow> owner' = Some (j, b)"
    if "j < length (cthreads s)" for j b
    using l that i assms(5) o [of "(j, b)"] by (cases "(j, b) = (i, a)") (auto simp: list_lock_ok_def nth_list_update)
  moreover have "j < length (cthreads s)" if "owner' = Some (j, b)" for j b
    using l that i o [of "(j, b)"] by (cases "(j, b) = (i, a)") (auto simp: list_lock_ok_def)
  ultimately show ?thesis using assms(3,4) by (simp add: list_lock_ok_def)
qed

lemma list_lock_owner:
  "list_lock_ok s owner \<Longrightarrow> i < length (cthreads s) \<Longrightarrow> in_destroy (ct_pc (cthreads s ! i) a) \<longleftrightarrow> owner = Some (i, a)"
  by (simp add: list_lock_ok_def)

lemma cthread_destroy_ok:
  assumes inv: "ct_inv code s" and i: "i < length (cthreads s)" and pc: "ct_pc (cthreads s ! i) a = C_Destroy"
  shows "\<exists>s'. cthread_destroy i s = Inr s' \<and> ct_inv code (set_thread i (goto a C_UnlockList (cthreads s ! i)) s') \<and>
    cthreads s' = cthreads s"
proof -
  have t: "\<And>j. j < length (cthreads s) \<Longrightarrow> thread_ok (code j) (stacks s j) (j \<in> set (stack_list s)) (cthreads s ! j)"
    and l: "distinct (stack_list s)" "set (stack_list s) \<subseteq> {..<length (cthreads s)}"
    and o: "\<forall>i\<ge>length (cthreads s). stacks s i = None"
    using inv by (auto simp: ct_inv_def)
  have n: "i \<notin> set (stack_list s)" "stacks s i \<noteq> None" using thread_ok_destroying [OF t [OF i] pc] by auto
  have "\<forall>a\<in>set (stack_list s). stacks s a \<noteq> None"
    using l(2) t by (fastforce simp: thread_ok_def stack_ok_def)
  from free_exited_ok [OF l(1) this] obtain bs cs where f: "stack_list s = bs @ cs" "\<forall>b\<in>set bs. stacks s b = Some 0"
    "free_exited (stack_list s) (stacks s) = Inr (cs, \<lambda>b. if b \<in> set bs then None else stacks s b)" by blast
  let ?st = "\<lambda>b. if b \<in> set bs then None else stacks s b"
  let ?s = "s\<lparr>stack_list := i # cs, stacks := ?st\<rparr>" and ?t = "goto a C_UnlockList (cthreads s ! i)"
  have d: "cthread_destroy i s = Inr ?s" using n f by (simp add: cthread_destroy_def)
  have "thread_ok (code j) (?st j) (j \<in> set (i # cs)) ((cthreads s)[i := ?t] ! j)" if j: "j < length (cthreads s)" for j
  proof (cases "j = i")
    case True
    with thread_ok_destroy [OF _ pc, of "code i" "stacks s i"] t [OF i] n f(1) i show ?thesis by simp
  next
    case False
    show ?thesis
    proof (cases "j \<in> set bs")
      case True
      then have "thread_ok (code j) None False (cthreads s ! j)"
        using thread_ok_freed [of "code j" "cthreads s ! j"] t [OF j] f(1,2) by auto
      moreover have "j \<notin> set cs" using True l(1) f(1) by auto
      ultimately show ?thesis using True False by simp
    next
      case nb: False
      then show ?thesis using t [OF j] False f(1) by simp
    qed
  qed
  moreover obtain owner where own: "list_lock_ok s owner" using inv by (auto simp: ct_inv_def)
  have "list_lock_ok (set_thread i ?t ?s) owner"
    by (rule list_lock_ok_goto [OF own i])
      (use list_lock_owner [OF own i, of a] own pc in \<open>auto simp: in_destroy_def list_lock_ok_def\<close>)
  moreover have "ct_stack ((cthreads s)[i := ?t] ! j) = j" if "j < length (cthreads s)" for j
    using that inv i by (auto simp: ct_inv_def nth_list_update)
  moreover have "distinct (i # cs)" "set (i # cs) \<subseteq> {..<length (cthreads s)}" using l n f(1) i by auto
  ultimately have "ct_inv code (set_thread i ?t ?s)" using o unfolding ct_inv_def by (auto simp del: list.set)
  with d show ?thesis by (intro exI [of _ ?s]) simp
qed

lemma ct_inv_locklist:
  assumes inv: "ct_inv code s" and i: "i < length (cthreads s)" and pc: "ct_pc (cthreads s ! i) a = C_LockList"
    and free: "\<not> last_stack_lock s"
  shows "ct_inv code (set_thread i (goto a C_Destroy (cthreads s ! i)) (s\<lparr>last_stack_lock := True\<rparr>))"
proof -
  obtain owner where "list_lock_ok s owner" using inv by (auto simp: ct_inv_def)
  with free have own: "list_lock_ok s None" by (simp add: list_lock_ok_def)
  have "list_lock_ok (set_thread i (goto a C_Destroy (cthreads s ! i)) (s\<lparr>last_stack_lock := True\<rparr>)) (Some (i, a))"
    by (rule list_lock_ok_goto [OF own i]) (auto simp: in_destroy_def)
  with inv i thread_ok_locklist [OF ct_inv_threadD(2) [OF inv i] pc] show ?thesis
    by (auto simp: ct_inv_def nth_list_update)
qed

lemma ct_inv_unlocklist:
  assumes inv: "ct_inv code s" and i: "i < length (cthreads s)" and pc: "ct_pc (cthreads s ! i) a = C_UnlockList"
  shows "ct_inv code (set_thread i (goto a (if a = Client \<and> ct_join (cthreads s ! i) then C_Ret else C_Mark) (cthreads s ! i))
    (s\<lparr>last_stack_lock := spin_unlock (last_stack_lock s)\<rparr>))"
proof -
  let ?s = "set_thread i (goto a (if a = Client \<and> ct_join (cthreads s ! i) then C_Ret else C_Mark) (cthreads s ! i))
    (s\<lparr>last_stack_lock := spin_unlock (last_stack_lock s)\<rparr>)"
  obtain owner where own: "list_lock_ok s owner" using inv by (auto simp: ct_inv_def)
  then have "owner = Some (i, a)" using i pc by (auto simp: list_lock_ok_def in_destroy_def)
  then have "list_lock_ok ?s None"
    by (intro list_lock_ok_goto [OF own i]) (auto simp: in_destroy_def spin_unlock_def)
  with inv i thread_ok_unlocklist [OF ct_inv_threadD(2) [OF inv i] pc] show ?thesis
    by (auto simp: ct_inv_def nth_list_update)
qed

lemma ct_inv_exit:
  assumes inv: "ct_inv code s" and i: "i < length (cthreads s)" and pc: "ct_pc (cthreads s ! i) Runner = C_Ret"
  shows "\<exists>tid. stacks s i = Some tid \<and>
    ct_inv code (set_thread i (goto Runner C_Gone (cthreads s ! i)) (s\<lparr>stacks := (stacks s)(i \<mapsto> 0)\<rparr>))"
proof -
  note t = ct_inv_threadD(2) [OF inv i]
  obtain tid where tid: "stacks s i = Some tid" using thread_ok_stack [of "code i"] t pc by (cases "stacks s i") auto
  obtain owner where own: "list_lock_ok s owner" using inv by (auto simp: ct_inv_def)
  then have "list_lock_ok (set_thread i (goto Runner C_Gone (cthreads s ! i)) (s\<lparr>stacks := (stacks s)(i \<mapsto> 0)\<rparr>)) owner"
    by (intro list_lock_ok_goto [OF own i])
      (use list_lock_owner [OF own i, of Runner] own pc in \<open>auto simp: in_destroy_def list_lock_ok_def\<close>)
  with inv i thread_ok_exit [OF t[unfolded tid] pc] tid show ?thesis by (auto simp: ct_inv_def nth_list_update)
qed

text \<open>The steps that are left.\<close>

fun pc_rank :: "ct_pc \<Rightarrow> nat" where
  "pc_rank C_Func = 9"
| "pc_rank C_Lock = 8"
| "pc_rank C_Wait = 7"
| "pc_rank C_Test = 7"
| "pc_rank C_LockList = 6"
| "pc_rank C_Destroy = 5"
| "pc_rank C_UnlockList = 4"
| "pc_rank C_Mark = 3"
| "pc_rank C_Unlock = 2"
| "pc_rank C_Ret = 1"
| "pc_rank C_Gone = 0"

definition thread_work :: "cthread \<Rightarrow> nat" where
  "thread_work t = pc_rank (ct_pc t Runner) + pc_rank (ct_pc t Client)"

definition ct_work :: "ct_state \<Rightarrow> nat" where
  "ct_work s = sum_list (map thread_work (cthreads s))"

lemma ct_work_set_thread:
  assumes "i < length (cthreads s)" "cthreads s' = cthreads s" "ct_pc t = (ct_pc (cthreads s ! i))(a := p)"
    "pc_rank p < pc_rank (ct_pc (cthreads s ! i) a)"
  shows "ct_work (set_thread i t s') < ct_work s"
proof -
  have l: "thread_work t < thread_work (cthreads s ! i)" using assms(3,4) by (cases a) (simp_all add: thread_work_def)
  have "thread_work (cthreads s ! i) \<le> ct_work s"
    using assms(1) by (auto simp: ct_work_def intro!: elem_le_sum_list [of i "map thread_work (cthreads s)", simplified])
  with l assms(1,2) show ?thesis by (simp add: ct_work_def map_update sum_list_update)
qed

definition step_fine :: "(nat \<Rightarrow> int) \<Rightarrow> ct_state \<Rightarrow> ct_state cres \<Rightarrow> bool" where
  "step_fine code s x \<longleftrightarrow> (\<exists>s'. x = Inr s' \<and> ct_inv code s' \<and> ct_work s' < ct_work s)"

lemma step_fine_thread:
  assumes "ct_inv code s" "i < length (cthreads s)"
    "thread_ok (code i) (stacks s i) (i \<in> set (stack_list s)) t" "ct_stack t = i"
    "ct_pc t = (ct_pc (cthreads s ! i))(a := p)" "in_destroy p \<longleftrightarrow> in_destroy (ct_pc (cthreads s ! i) a)"
    "pc_rank p < pc_rank (ct_pc (cthreads s ! i) a)"
  shows "step_fine code s (Inr (set_thread i t s))"
  using ct_inv_set_thread [OF assms(1,2,4,3)] ct_work_set_thread [OF assms(2) refl assms(5,7)] assms(5,6)
  by (auto simp: step_fine_def)

lemma cthread_step_inv:
  assumes inv: "ct_inv code s" and i: "i < length (cthreads s)" and step: "cthread_step (code i) i a s = Some x"
  shows "step_fine code s x"
proof -
  note t = ct_inv_threadD [OF inv i]
  note fine = step_fine_thread [OF inv i, where a = a]
  note defs = cthread_step_def Let_def spin_lock_def in_destroy_def
  show ?thesis
  proof (cases "ct_pc (cthreads s ! i) a")
    case C_Func
    then show ?thesis using step thread_ok_func [OF t(2) C_Func] t(1) by (auto simp: defs intro!: fine)
  next
    case C_Wait
    then show ?thesis using step thread_ok_wait [OF t(2) C_Wait] t(1) by (auto simp: defs intro!: fine split: if_splits)
  next
    case C_Lock
    then show ?thesis using step thread_ok_lock [OF t(2) C_Lock] t(1) by (auto simp: defs intro!: fine split: if_splits)
  next
    case C_Test
    then show ?thesis using step thread_ok_test [OF t(2) C_Test] t(1) by (auto simp: defs intro!: fine split: if_splits)
  next
    case C_LockList
    then have "x = Inr (set_thread i (goto a C_Destroy (cthreads s ! i)) (s\<lparr>last_stack_lock := True\<rparr>))" "\<not> last_stack_lock s"
      using step by (auto simp: defs split: if_splits)
    moreover have "ct_work (set_thread i (goto a C_Destroy (cthreads s ! i)) (s\<lparr>last_stack_lock := True\<rparr>)) < ct_work s"
      by (rule ct_work_set_thread [OF i, where a = a and p = C_Destroy]) (simp_all add: C_LockList)
    ultimately show ?thesis using ct_inv_locklist [OF inv i C_LockList] by (simp add: step_fine_def)
  next
    case C_Destroy
    from cthread_destroy_ok [OF inv i C_Destroy] obtain s1 where s1: "cthread_destroy i s = Inr s1"
      "ct_inv code (set_thread i (goto a C_UnlockList (cthreads s ! i)) s1)" "cthreads s1 = cthreads s" by blast
    have "ct_work (set_thread i (goto a C_UnlockList (cthreads s ! i)) s1) < ct_work s"
      by (rule ct_work_set_thread [OF i s1(3), where a = a and p = C_UnlockList]) (simp_all add: C_Destroy)
    with s1 show ?thesis using step t(1) by (auto simp: defs C_Destroy step_fine_def)
  next
    case C_UnlockList
    let ?p = "if a = Client \<and> ct_join (cthreads s ! i) then C_Ret else C_Mark"
    let ?s = "s\<lparr>last_stack_lock := spin_unlock (last_stack_lock s)\<rparr>"
    have "x = Inr (set_thread i (goto a ?p (cthreads s ! i)) ?s)" using step C_UnlockList by (simp add: defs)
    moreover have "ct_work (set_thread i (goto a ?p (cthreads s ! i)) ?s) < ct_work s"
      by (rule ct_work_set_thread [OF i, where a = a and p = ?p]) (simp_all add: C_UnlockList)
    ultimately show ?thesis using ct_inv_unlocklist [OF inv i C_UnlockList] by (simp add: step_fine_def)
  next
    case C_Mark
    have "ct_pc (mark a (cthreads s ! i)) = ct_pc (cthreads s ! i)" "ct_stack (mark a (cthreads s ! i)) = i"
      using t(1) by (cases a; simp add: mark_def)+
    then show ?thesis using C_Mark step thread_ok_mark [OF t(2) C_Mark] by (auto simp: defs intro!: fine)
  next
    case C_Unlock
    then show ?thesis using step thread_ok_unlock [OF t(2) C_Unlock] t(1) by (auto simp: defs intro!: fine)
  next
    case C_Ret
    show ?thesis
    proof (cases a)
      case Client
      then show ?thesis using step C_Ret by (simp add: defs)
    next
      case Runner
      from ct_inv_exit [OF inv i] C_Ret Runner obtain tid where tid: "stacks s i = Some tid"
        "ct_inv code (set_thread i (goto Runner C_Gone (cthreads s ! i)) (s\<lparr>stacks := (stacks s)(i \<mapsto> 0)\<rparr>))" by auto
      have "ct_work (set_thread i (goto Runner C_Gone (cthreads s ! i)) (s\<lparr>stacks := (stacks s)(i \<mapsto> 0)\<rparr>)) < ct_work s"
        by (rule ct_work_set_thread [OF i, where a = Runner and p = C_Gone]) (use C_Ret Runner in simp_all)
      with tid show ?thesis using step t(1) C_Ret Runner by (auto simp: defs step_fine_def)
    qed
  next
    case C_Gone
    then show ?thesis using step by (simp add: defs)
  qed
qed

section \<open>Creation and progress\<close>

lemma ct_inv_create:
  assumes inv: "ct_inv code s" and "tid \<noteq> 0"
  shows "ct_inv code (cthread_create joined tid s)"
proof -
  let ?n = "length (cthreads s)" and ?s = "cthread_create joined tid s"
  let ?t = "\<lparr>returned_code = 0, ct_stack = ?n, ct_lock = False, is_finished = False, is_detached = False,
    ct_pc = case_actor C_Func (if joined then C_Wait else C_Lock), ct_join = joined\<rparr>"
  have s: "cthreads ?s = cthreads s @ [?t]" "stacks ?s = (stacks s)(?n \<mapsto> tid)" "stack_list ?s = stack_list s"
    "last_stack_lock ?s = last_stack_lock s" by (simp_all add: cthread_create_def Let_def)
  have n: "?n \<notin> set (stack_list s)" using inv by (auto simp: ct_inv_def)
  then have t: "thread_ok (code ?n) (Some tid) (?n \<in> set (stack_list s)) ?t"
    using assms(2) by (simp add: thread_ok_def stack_ok_def pc_defs)
  obtain owner where own: "list_lock_ok s owner" using inv by (auto simp: ct_inv_def)
  then have "owner \<noteq> Some (?n, a)" for a by (auto simp: list_lock_ok_def)
  moreover have "\<not> in_destroy (ct_pc ?t a)" for a by (cases a) (simp_all add: in_destroy_def)
  ultimately have "list_lock_ok ?s owner"
    using own unfolding list_lock_ok_def s by (auto simp: nth_append less_Suc_eq)
  then have "\<exists>owner. list_lock_ok ?s owner" by blast
  moreover have "\<forall>i<length (cthreads ?s). ct_stack (cthreads ?s ! i) = i \<and>
      thread_ok (code i) (stacks ?s i) (i \<in> set (stack_list ?s)) (cthreads ?s ! i)"
    unfolding s using inv t by (auto simp: ct_inv_def nth_append less_Suc_eq)
  moreover have "\<forall>i\<ge>length (cthreads ?s). stacks ?s i = None" "set (stack_list ?s) \<subseteq> {..<length (cthreads ?s)}"
    "distinct (stack_list ?s)"
    unfolding s using inv by (auto simp: ct_inv_def)
  ultimately show ?thesis unfolding ct_inv_def by blast
qed

lemma ct_reachable_inv: "ct_reachable code s \<Longrightarrow> ct_inv code s"
proof (induction rule: ct_reachable.induct)
  case start
  have "list_lock_ok ct_init None" by (simp add: list_lock_ok_def ct_init_def)
  then show ?case by (auto simp: ct_inv_def ct_init_def)
next
  case (create s tid joined)
  then show ?case by (simp add: ct_inv_create)
next
  case (move s s')
  then show ?case by (auto elim!: ct_move.cases dest: cthread_step_inv simp: step_fine_def)
qed

text \<open>What the end looks like: every stack was freed or waits on the list to be freed.\<close>

definition ct_done :: "(nat \<Rightarrow> int) \<Rightarrow> ct_state \<Rightarrow> bool" where
  "ct_done code s \<longleftrightarrow> (\<forall>i<length (cthreads s). let t = cthreads s ! i in
     ct_pc t Runner = C_Gone \<and> ct_pc t Client = C_Ret \<and> returned_code t = code i \<and>
     ((stacks s i = None) \<noteq> (i \<in> set (stack_list s))))"

lemma thread_waits:
  "cthread_step code i a s = None \<Longrightarrow> t = cthreads s ! i \<Longrightarrow>
     ct_pc t a = C_Wait \<and> \<not> is_finished t \<or> ct_pc t a = C_Lock \<and> ct_lock t \<or> ct_pc t a = C_LockList \<and> last_stack_lock s \<or>
     ct_pc t a = C_Ret \<and> a = Client \<or> ct_pc t a = C_Gone"
  by (cases "ct_pc t a"; cases a) (auto simp: cthread_step_def Let_def spin_lock_def split: if_splits option.splits)

lemma stuck_thread:
  assumes t: "thread_ok code tid listed t"
    and w: "\<And>a. ct_pc t a = C_Wait \<and> \<not> is_finished t \<or> ct_pc t a = C_Lock \<and> ct_lock t \<or> ct_pc t a = C_Ret \<and> a = Client \<or> ct_pc t a = C_Gone"
  shows "ct_pc t Runner = C_Gone \<and> ct_pc t Client = C_Ret \<and> returned_code t = code \<and> ((tid = None) \<noteq> listed)"
proof -
  have p: "pcs_ok t" "flags_ok t" "lock_ok t" "stack_ok tid listed t" "ct_pc t Runner \<noteq> C_Func \<longrightarrow> returned_code t = code"
    using t by (simp_all add: thread_ok_def)
  have "\<not> locks a t" for a using w [of a] by (auto simp: locks_def in_section_def)
  then have "\<not> ct_lock t" using p(3) by (simp add: lock_ok_def)
  with w have q: "ct_pc t a = C_Wait \<and> \<not> is_finished t \<or> ct_pc t a = C_Ret \<and> a = Client \<or> ct_pc t a = C_Gone" for a by metis
  have r: "ct_pc t Runner = C_Gone" using q [of Runner] p(1) by (auto simp: pcs_ok_def)
  then have f: "is_finished t" using p(2) by (simp add: flags_ok_def)
  then have c: "ct_pc t Client = C_Ret" using q [of Client] p(1) by (auto simp: pcs_ok_def)
  have "is_detached t \<or> ct_join t" using c p(2) by (auto simp: flags_ok_def)
  then have "was_destroyed t" using f c by (auto simp: was_destroyed_def)
  with p(4,5) r c show ?thesis by (auto simp: stack_ok_def)
qed

lemma ct_not_stuck:
  assumes inv: "ct_inv code s" and stuck: "\<And>i a. i < length (cthreads s) \<Longrightarrow> cthread_step (code i) i a s = None"
  shows "ct_done code s"
proof -
  obtain owner where own: "list_lock_ok s owner" using inv by (auto simp: ct_inv_def)
  have "owner = None"
  proof (cases owner)
    case (Some ja)
    obtain j b where ja: "ja = (j, b)" by (cases ja)
    with own Some have j: "j < length (cthreads s)" "in_destroy (ct_pc (cthreads s ! j) b)" by (auto simp: list_lock_ok_def)
    with thread_waits [OF stuck [OF j(1)] refl, of b] show ?thesis by (auto simp: in_destroy_def)
  qed simp
  with own have nl: "\<not> last_stack_lock s" by (simp add: list_lock_ok_def)
  have "ct_pc (cthreads s ! i) Runner = C_Gone \<and> ct_pc (cthreads s ! i) Client = C_Ret \<and>
      returned_code (cthreads s ! i) = code i \<and> ((stacks s i = None) \<noteq> (i \<in> set (stack_list s)))"
    if i: "i < length (cthreads s)" for i
    by (rule stuck_thread [OF ct_inv_threadD(2) [OF inv i]]) (use thread_waits [OF stuck [OF i] refl] nl in blast)
  then show ?thesis unfolding ct_done_def Let_def by blast
qed

lemma ct_move_inv: "ct_move code s s' \<Longrightarrow> ct_inv code s \<Longrightarrow> ct_inv code s' \<and> ct_work s' < ct_work s"
  by (auto elim!: ct_move.cases dest: cthread_step_inv simp: step_fine_def)

lemma ct_stuck_done:
  assumes "ct_inv code s" "\<nexists>s'. ct_move code s s'"
  shows "ct_done code s"
proof (rule ct_not_stuck [OF assms(1)])
  fix i a
  assume i: "i < length (cthreads s)"
  show "cthread_step (code i) i a s = None"
  proof (cases "cthread_step (code i) i a s")
    case (Some x)
    with cthread_step_inv [OF assms(1) i Some] assms(2) i show ?thesis
      by (auto simp: step_fine_def intro: ct_move.intros)
  qed
qed

interpretation ct_run: progress "ct_move code" "ct_inv code" ct_work "ct_done code" for code
  by unfold_locales (auto dest: ct_move_inv ct_stuck_done)

section \<open>Properties\<close>

text \<open>
  (C33) Destroying threads is safe in every interleaving of creators, runners, detaching and joining
  clients: no step touches freed memory, no stack is on the list twice, a stack is freed only
  after its thread has exited, and at most one actor works on the list.
\<close>

theorem cthread_safe:
  assumes "ct_reachable code s"
  shows "(\<nexists>i a e. i < length (cthreads s) \<and> cthread_step (code i) i a s = Some (Inl e)) \<and>
    distinct (stack_list s) \<and>
    (\<nexists>i. i < length (cthreads s) \<and> stacks s i = None \<and> ct_pc (cthreads s ! i) Runner \<noteq> C_Gone) \<and>
    (\<exists>owner. \<nexists>i a. i < length (cthreads s) \<and> in_destroy (ct_pc (cthreads s ! i) a) \<and> owner \<noteq> Some (i, a))"
proof -
  have inv: "ct_inv code s" by (rule ct_reachable_inv [OF assms])
  then obtain owner where "list_lock_ok s owner" by (auto simp: ct_inv_def)
  then have "\<nexists>i a. i < length (cthreads s) \<and> in_destroy (ct_pc (cthreads s ! i) a) \<and> owner \<noteq> Some (i, a)"
    by (auto simp: list_lock_ok_def)
  moreover have "\<nexists>i. i < length (cthreads s) \<and> stacks s i = None \<and> ct_pc (cthreads s ! i) Runner \<noteq> C_Gone"
    using ct_inv_threadD(2) [OF inv] thread_ok_stack by metis
  moreover have "\<nexists>i a e. i < length (cthreads s) \<and> cthread_step (code i) i a s = Some (Inl e)"
    using cthread_step_inv [OF inv] by (fastforce simp: step_fine_def)
  moreover have "distinct (stack_list s)" using inv by (simp add: ct_inv_def)
  ultimately show ?thesis by blast
qed

text \<open>
  Threads end and leave no stack behind. From every reachable state the actors can take at most
  \<open>ct_work s\<close> steps, in any order, and they can go on until each thread has exited with the value of
  its function, each client has returned, and each stack was freed or is on the list, exactly once,
  where the next destruction frees it.
\<close>

theorem cthreads_finish:
  assumes "ct_reachable code s" "(ct_move code ^^ k) s s'"
  shows "k \<le> ct_work s \<and> (\<exists>s''. (ct_move code)\<^sup>*\<^sup>* s' s'' \<and> ct_done code s'') \<and> ((\<exists>s''. ct_move code s' s'') \<or> ct_done code s')"
  by (rule ct_run.finishes [OF assms(2) ct_reachable_inv [OF assms(1)]])

definition demo_threads :: ct_state where
  "demo_threads = cthread_create True 8 (cthread_create False 7 ct_init)"

lemma demo_threads_reachable: "ct_reachable code demo_threads"
  unfolding demo_threads_def by (intro ct_reachable.intros) simp_all

theorem cthread_safe_witness: "distinct (stack_list demo_threads) \<and> (\<nexists>a e. cthread_step 1 0 a demo_threads = Some (Inl e))"
  using cthread_safe [OF demo_threads_reachable, of "\<lambda>_. 1"] by (auto simp: demo_threads_def cthread_create_def ct_init_def)

theorem cthreads_finish_witness: "\<exists>s. (ct_move (\<lambda>_. 1))\<^sup>*\<^sup>* demo_threads s \<and> ct_done (\<lambda>_. 1) s"
  using cthreads_finish [OF demo_threads_reachable, of 0 "\<lambda>_. 1" demo_threads] by simp

text \<open>
  The loop at the end of main does not wait for the first thread: when that has not finished at the
  first look, the loop goes on with the second thread and never looks at the first one again.
\<close>

lemma main_skips_first_thread: "wait_loop (replicate 10 (\<lambda>i. i \<noteq> 0)) 0"
  by (simp add: wait_step_def numeral_eq_Suc)

end
