(* ===== verification/EchoServer.thy ===== *)
theory EchoServer
  imports Prelude
begin

text \<open>
  The servers of src/lecture_examples/9_aio/4_server_select.c, 5_server_poll.c, 6_server_kqueue.c, 7_server_epoll.c and
  10_users/9_daemon.c, and their clients 9_aio/4_client.c and 10_users/9_client.c: the servers answer
  each number with the next one, and differ in how they wait for their clients. The sockets are a
  parameter over an arbitrary world.
\<close>

section \<open>Sockets\<close>

text \<open>
  \<open>io_recv\<close> is the result of \<open>recv\<close> for four bytes and what it has stored, \<open>io_again\<close> whether \<open>errno\<close> is
  \<open>EWOULDBLOCK\<close> or \<open>EAGAIN\<close>. \<open>io_select\<close> is given the descriptors of the set and returns those that
  are ready, \<open>io_poll\<close> whether \<open>POLLIN\<close> is set in each entry.
\<close>

record 'w io =
  io_recv :: "int \<Rightarrow> 'w \<Rightarrow> int \<times> char list \<times> 'w"
  io_send :: "int \<Rightarrow> char list \<Rightarrow> 'w \<Rightarrow> int \<times> 'w"
  io_again :: "'w \<Rightarrow> bool"
  io_accept :: "int \<Rightarrow> 'w \<Rightarrow> int \<times> 'w"
  io_select :: "int \<Rightarrow> int list \<Rightarrow> 'w \<Rightarrow> int \<times> int list \<times> 'w"
  io_poll :: "int list \<Rightarrow> 'w \<Rightarrow> int \<times> bool list \<times> 'w"
  io_socket :: "'w \<Rightarrow> int \<times> 'w"
  io_bind :: "int \<Rightarrow> 'w \<Rightarrow> int \<times> 'w"
  io_listen :: "int \<Rightarrow> 'w \<Rightarrow> int \<times> 'w"
  io_close :: "int \<Rightarrow> 'w \<Rightarrow> 'w"

text \<open>The buffer is 0 before the bytes are stored; its value is incremented as an \<open>int\<close>.\<close>

definition interact :: "'w io \<Rightarrow> int \<Rightarrow> 'w \<Rightarrow> (int \<times> 'w) cres" where
  "interact io client_sock w =
     (let (sz, bytes, w) = io_recv io client_sock w
      in if sz \<le> 0 then Inr (sz, w)
         else let buffer = of_nat (bytes_nat (mem_write (int_bytes 0) 0 (take 4 bytes))) :: i32
              in if sint buffer = 2 ^ 31 - 1 then Inl SignedOverflow
                 else Inr (io_send io client_sock (int_bytes (buffer + 1)) w))"

section \<open>The server with select\<close>

abbreviation (input) FD_SETSIZE :: int where "FD_SETSIZE \<equiv> 1024"

text \<open>\<open>FD_SET\<close> writes and \<open>FD_ISSET\<close> reads a bit of an array of 1024 bits.\<close>

definition FD_SET :: "int \<Rightarrow> int list \<Rightarrow> int list cres" where
  "FD_SET fd s = (if 0 \<le> fd \<and> fd < FD_SETSIZE then Inr (fd # s) else Inl OutOfBounds)"

definition FD_ISSET :: "int \<Rightarrow> int list \<Rightarrow> bool cres" where
  "FD_ISSET fd s = (if 0 \<le> fd \<and> fd < FD_SETSIZE then Inr (fd \<in> set s) else Inl OutOfBounds)"

fun fill_loop :: "int list \<Rightarrow> int \<Rightarrow> int list \<Rightarrow> (int \<times> int list) cres" where
  "fill_loop [] max_fd s = Inr (max_fd, s)"
| "fill_loop (c # cs) max_fd s = rbind (FD_SET c s) (fill_loop cs (if c > max_fd then c else max_fd))"

definition fill_fdset :: "int list \<Rightarrow> int \<Rightarrow> (int \<times> int list) cres" where
  "fill_fdset clients server = rbind (FD_SET server []) (fill_loop clients server)"

text \<open>The two copies of \<open>remove_client\<close>: \<open>i\<close> elements, and those behind the \<open>i\<close>-th.\<close>

definition remove_client :: "'a list \<Rightarrow> nat \<Rightarrow> 'a list cres" where
  "remove_client clients i =
     (let n = length clients - 1
      in if i \<le> n \<and> clients \<noteq> [] \<and> i + 1 + (n - i) \<le> length clients
         then Inr (take i clients @ take (n - i) (drop (i + 1) clients))
         else Inl OutOfBounds)"

lemma remove_client_length: "remove_client cs i = Inr cs' \<Longrightarrow> length cs' < length cs"
  by (auto simp: remove_client_def Let_def split: if_splits)

text \<open>The loop over the clients; the table is what is left of it.\<close>

function serve_ready :: "'w io \<Rightarrow> int list \<Rightarrow> int \<Rightarrow> nat \<Rightarrow> int list \<Rightarrow> 'w \<Rightarrow> (int list \<times> 'w) cres" where
  "serve_ready io ready nfds i clients w =
     (if \<not> (i < length clients \<and> nfds > 0) then Inr (clients, w)
      else (case FD_ISSET (clients ! i) ready of
          Inl e \<Rightarrow> Inl e
        | Inr False \<Rightarrow> serve_ready io ready nfds (i + 1) clients w
        | Inr True \<Rightarrow>
            (case interact io (clients ! i) w of
              Inl e \<Rightarrow> Inl e
            | Inr (rc, w) \<Rightarrow>
                if rc = -1
                then (if \<not> io_again io w then Inr (clients, w)
                      else serve_ready io ready (nfds - 1) (i + 1) clients w)
                else if rc = 0
                then (case remove_client clients i of
                        Inl e \<Rightarrow> Inl e
                      | Inr clients \<Rightarrow> serve_ready io ready (nfds - 1) (i + 1) clients w)
                else serve_ready io ready (nfds - 1) (i + 1) clients w)))"
  by pat_completeness auto
termination
  by (relation "measure (\<lambda>(io, ready, nfds, i, clients, w). length clients - i)")
    (auto dest!: remove_client_length)

declare serve_ready.simps [simp del]

text \<open>One round of the loop of \<open>main\<close>; the flag is whether it goes on.\<close>

definition select_round :: "'w io \<Rightarrow> int \<Rightarrow> int list \<Rightarrow> 'w \<Rightarrow> (bool \<times> int list \<times> 'w) cres" where
  "select_round io server clients w =
     rbind (fill_fdset clients server) (\<lambda>(max_fd, readset).
     let (nfds, ready, w) = io_select io (max_fd + 1) readset w
     in if nfds = 0 then Inr (True, clients, w)
        else if nfds = -1 then Inr (False, clients, w)
        else let serve = (\<lambda>clients nfds w. rbind (serve_ready io ready nfds 0 clients w) (\<lambda>(clients, w). Inr (True, clients, w)))
             in rbind (FD_ISSET server ready) (\<lambda>new.
                if new
                then let (client_sock, w) = io_accept io server w
                     in if client_sock = -1 then Inr (False, clients, w)
                        else serve (clients @ [client_sock]) (nfds - 1) w
                else serve clients nfds w))"

partial_function (option) select_loop :: "'w io \<Rightarrow> int \<Rightarrow> int list \<Rightarrow> 'w \<Rightarrow> (int list \<times> 'w) cres option" where
  "select_loop io server clients w =
     (case select_round io server clients w of
        Inl e \<Rightarrow> Some (Inl e)
      | Inr (go, clients, w) \<Rightarrow> if go then select_loop io server clients w else Some (Inr (clients, w)))"

text \<open>The opening of the listening socket: \<open>None\<close> when a call fails.\<close>

definition open_server :: "'w io \<Rightarrow> 'w \<Rightarrow> int option \<times> 'w" where
  "open_server io w =
     (let (server, w) = io_socket io w
      in if server = -1 then (None, w)
         else let (rc, w) = io_bind io server w
              in if rc \<noteq> 0 then (None, w)
                 else let (rc, w) = io_listen io server w in if rc = -1 then (None, w) else (Some server, w))"

definition select_main :: "'w io \<Rightarrow> 'w \<Rightarrow> (int \<times> 'w) cres option" where
  "select_main io w =
     (case open_server io w of
        (None, w) \<Rightarrow> Some (Inr (-1, w))
      | (Some server, w) \<Rightarrow>
          map_option (\<lambda>r. rbind r (\<lambda>(clients, w). Inr (0, fold (io_close io) clients (io_close io server w))))
            (select_loop io server [] w))"

section \<open>The servers with poll\<close>

text \<open>An entry of the array; \<open>revents\<close> is not initialised before \<open>poll\<close> has seen the entry.\<close>

record pollfd =
  p_fd :: int
  p_revents :: "bool option"

definition pollin :: "pollfd \<Rightarrow> bool cres" where
  "pollin p = (case p_revents p of None \<Rightarrow> Inl UninitRead | Some b \<Rightarrow> Inr b)"

text \<open>\<open>strict\<close>: the loop ends after any error, as in the daemon.\<close>

function serve_poll :: "bool \<Rightarrow> 'w io \<Rightarrow> int \<Rightarrow> nat \<Rightarrow> pollfd list \<Rightarrow> 'w \<Rightarrow> (pollfd list \<times> 'w) cres" where
  "serve_poll strict io nfds i fds w =
     (if \<not> (i < length fds \<and> nfds > 0) then Inr (fds, w)
      else (case pollin (fds ! i) of
          Inl e \<Rightarrow> Inl e
        | Inr False \<Rightarrow> serve_poll strict io nfds (i + 1) fds w
        | Inr True \<Rightarrow>
            (case interact io (p_fd (fds ! i)) w of
              Inl e \<Rightarrow> Inl e
            | Inr (rc, w) \<Rightarrow>
                if rc = -1
                then (if strict \<or> \<not> io_again io w then Inr (fds, w)
                      else serve_poll strict io (nfds - 1) (i + 1) fds w)
                else if rc = 0
                then (case remove_client fds i of
                        Inl e \<Rightarrow> Inl e
                      | Inr fds \<Rightarrow> serve_poll strict io (nfds - 1) (i + 1) fds w)
                else serve_poll strict io (nfds - 1) (i + 1) fds w)))"
  by pat_completeness auto
termination
  by (relation "measure (\<lambda>(strict, io, nfds, i, fds, w). length fds - i)") (auto dest!: remove_client_length)

declare serve_poll.simps [simp del]

definition poll_round :: "bool \<Rightarrow> 'w io \<Rightarrow> int \<Rightarrow> pollfd list \<Rightarrow> 'w \<Rightarrow> (bool \<times> pollfd list \<times> 'w) cres" where
  "poll_round strict io server fds w =
     (let (nfds, evs, w) = io_poll io (map p_fd fds) w;
          fds = map (\<lambda>(p, b). p\<lparr>p_revents := Some b\<rparr>) (zip fds evs)
      in if nfds = 0 then Inr (True, fds, w)
         else if nfds = -1 then Inr (False, fds, w)
         else let serve = (\<lambda>fds nfds w. rbind (serve_poll strict io nfds 0 fds w) (\<lambda>(fds, w). Inr (True, fds, w)))
              in rbind (rbind (arr_get fds 0) pollin) (\<lambda>new.
                 if new
                 then let (client_sock, w) = io_accept io server w
                      in if client_sock = -1 then Inr (False, fds, w)
                         else serve (fds @ [\<lparr>p_fd = client_sock, p_revents = None\<rparr>]) (nfds - 1) w
                 else serve fds nfds w))"

partial_function (option) poll_loop :: "bool \<Rightarrow> 'w io \<Rightarrow> int \<Rightarrow> pollfd list \<Rightarrow> 'w \<Rightarrow> (pollfd list \<times> 'w) cres option" where
  "poll_loop strict io server fds w =
     (case poll_round strict io server fds w of
        Inl e \<Rightarrow> Some (Inl e)
      | Inr (go, fds, w) \<Rightarrow> if go then poll_loop strict io server fds w else Some (Inr (fds, w)))"

definition poll_main :: "bool \<Rightarrow> 'w io \<Rightarrow> 'w \<Rightarrow> (int \<times> 'w) cres option" where
  "poll_main strict io w =
     (case open_server io w of
        (None, w) \<Rightarrow> Some (Inr (-1, w))
      | (Some server, w) \<Rightarrow>
          map_option (\<lambda>r. rbind r (\<lambda>(fds, w). Inr (0, io_close io server (fold (io_close io) (map p_fd fds) w))))
            (poll_loop strict io server [\<lparr>p_fd = server, p_revents = None\<rparr>] w))"

text \<open>
  The daemon leaves its terminal first: the parent exits with 0, and the child fails when the log
  cannot be opened or duplicated.
\<close>

record 'w daemon_os =
  d_fork :: "'w \<Rightarrow> int \<times> 'w"
  d_open :: "string \<Rightarrow> 'w \<Rightarrow> int \<times> 'w"
  d_dup2 :: "int \<Rightarrow> int \<Rightarrow> 'w \<Rightarrow> int \<times> 'w"
  d_close :: "int \<Rightarrow> 'w \<Rightarrow> 'w"
  d_setsid :: "'w \<Rightarrow> int \<times> 'w"

definition daemonize :: "'w daemon_os \<Rightarrow> string \<Rightarrow> 'w \<Rightarrow> int option \<times> 'w" where
  "daemonize os log_file w =
     (let (pid, w) = d_fork os w
      in if pid > 0 then (None, w)
         else let (fd, w) = d_open os log_file w
              in if fd = -1 then (Some (-1), w)
                 else let (rc, w) = d_dup2 os fd 1 w; w = d_close os fd w
                      in if rc = -1 then (Some (-1), w)
                         else let (sid, w) = d_setsid os (d_close os 2 (d_close os 0 w)) in (Some sid, w))"

definition daemon_main :: "'w daemon_os \<Rightarrow> 'w io \<Rightarrow> string \<Rightarrow> 'w \<Rightarrow> (int \<times> 'w) cres option" where
  "daemon_main os io log_file w =
     (case daemonize os log_file w of
        (None, w) \<Rightarrow> Some (Inr (0, w))
      | (Some rc, w) \<Rightarrow> if rc = -1 then Some (Inr (-1, w)) else poll_main True io w)"

section \<open>The server with epoll\<close>

text \<open>
  9_aio/7_server_epoll.c. \<open>ep_ctl\<close> is given whether a descriptor is added or deleted; \<open>ep_wait\<close> returns
  the number of events, at most one, and its descriptor.
\<close>

record 'w epoll =
  ep_create :: "'w \<Rightarrow> int \<times> 'w"
  ep_ctl :: "int \<Rightarrow> bool \<Rightarrow> int \<Rightarrow> 'w \<Rightarrow> int \<times> 'w"
  ep_wait :: "int \<Rightarrow> 'w \<Rightarrow> int \<times> int \<times> 'w"

definition epoll_round :: "'w io \<Rightarrow> 'w epoll \<Rightarrow> int \<Rightarrow> int \<Rightarrow> 'w \<Rightarrow> (bool \<times> 'w) cres" where
  "epoll_round io os server ep w =
     (let (nfds, fd, w) = ep_wait os ep w
      in if nfds = 0 then Inr (True, w)
         else if nfds = -1 then Inr (False, w)
         else if fd = server
         then let (client_sock, w) = io_accept io server w
              in if client_sock = -1 then Inr (False, w)
                 else let (rc, w) = ep_ctl os ep True client_sock w in Inr (rc \<noteq> -1, w)
         else rbind (interact io fd w) (\<lambda>(rc, w).
              if rc = -1 then Inr (io_again io w, w)
              else if rc = 0 then let (_, w) = ep_ctl os ep False fd w in Inr (True, io_close io fd w)
              else Inr (True, w)))"

partial_function (option) epoll_loop :: "'w io \<Rightarrow> 'w epoll \<Rightarrow> int \<Rightarrow> int \<Rightarrow> 'w \<Rightarrow> 'w cres option" where
  "epoll_loop io os server ep w =
     (case epoll_round io os server ep w of
        Inl e \<Rightarrow> Some (Inl e)
      | Inr (go, w) \<Rightarrow> if go then epoll_loop io os server ep w else Some (Inr w))"

definition epoll_main :: "'w io \<Rightarrow> 'w epoll \<Rightarrow> 'w \<Rightarrow> (int \<times> 'w) cres option" where
  "epoll_main io os w =
     (case open_server io w of
        (None, w) \<Rightarrow> Some (Inr (-1, w))
      | (Some server, w) \<Rightarrow>
          (let (ep, w) = ep_create os w
           in if ep = -1 then Some (Inr (-1, io_close io server w))
              else let (rc, w) = ep_ctl os ep True server w
                   in if rc = -1 then Some (Inr (-1, io_close io server w))
                      else map_option (\<lambda>r. rbind r (\<lambda>w. Inr (0, io_close io server (io_close io ep w))))
                             (epoll_loop io os server ep w)))"

section \<open>The server with kqueue\<close>

text \<open>
  9_aio/6_server_kqueue.c. \<open>kq_add\<close> adds a descriptor; \<open>kq_wait\<close> returns the number of events, at most one, its
  descriptor and whether \<open>EV_EOF\<close> is set.
\<close>

record 'w kqueue =
  kq_create :: "'w \<Rightarrow> int \<times> 'w"
  kq_add :: "int \<Rightarrow> int \<Rightarrow> 'w \<Rightarrow> int \<times> 'w"
  kq_wait :: "int \<Rightarrow> 'w \<Rightarrow> int \<times> int \<times> bool \<times> 'w"

definition kqueue_round :: "'w io \<Rightarrow> 'w kqueue \<Rightarrow> int \<Rightarrow> int \<Rightarrow> 'w \<Rightarrow> (bool \<times> 'w) cres" where
  "kqueue_round io os server kq w =
     (let (nfds, fd, eof, w) = kq_wait os kq w
      in if nfds = 0 then Inr (True, w)
         else if nfds = -1 then Inr (False, w)
         else if fd = server
         then let (client_sock, w) = io_accept io server w
              in if client_sock = -1 then Inr (False, w)
                 else let (rc, w) = kq_add os kq client_sock w in Inr (rc \<noteq> -1, w)
         else rbind (interact io fd w) (\<lambda>(rc, w).
              if rc = -1 then Inr (io_again io w, w)
              else if eof then Inr (True, io_close io fd w)
              else Inr (True, w)))"

partial_function (option) kqueue_loop :: "'w io \<Rightarrow> 'w kqueue \<Rightarrow> int \<Rightarrow> int \<Rightarrow> 'w \<Rightarrow> 'w cres option" where
  "kqueue_loop io os server kq w =
     (case kqueue_round io os server kq w of
        Inl e \<Rightarrow> Some (Inl e)
      | Inr (go, w) \<Rightarrow> if go then kqueue_loop io os server kq w else Some (Inr w))"

definition kqueue_main :: "'w io \<Rightarrow> 'w kqueue \<Rightarrow> 'w \<Rightarrow> (int \<times> 'w) cres option" where
  "kqueue_main io os w =
     (case open_server io w of
        (None, w) \<Rightarrow> Some (Inr (-1, w))
      | (Some server, w) \<Rightarrow>
          (let (kq, w) = kq_create os w
           in if kq = -1 then Some (Inr (-1, io_close io server w))
              else let (rc, w) = kq_add os kq server w
                   in if rc = -1 then Some (Inr (-1, io_close io server w))
                      else map_option (\<lambda>r. rbind r (\<lambda>w. Inr (0, io_close io server (io_close io kq w))))
                             (kqueue_loop io os server kq w)))"

section \<open>The client\<close>

text \<open>
  9_aio/4_client.c and 10_users/9_client.c: what is printed for the numbers that \<open>scanf\<close> has read.
  \<open>io_connect\<close> is the result of \<open>connect\<close>.
\<close>

datatype report = Sent i32 | Received i32 | ErrorPrinted | ClosedConnection

fun echo_client_loop :: "'w io \<Rightarrow> int \<Rightarrow> i32 list \<Rightarrow> 'w \<Rightarrow> report list \<times> 'w" where
  "echo_client_loop io sock [] w = ([], w)"
| "echo_client_loop io sock (number # numbers) w =
     (let (rc, w) = io_send io sock (int_bytes number) w
      in if rc = -1
         then let (out, w) = echo_client_loop io sock numbers w in (ErrorPrinted # out, w)
         else let (rc, bytes, w) = io_recv io sock w
              in if rc = 0 then ([Sent number, ClosedConnection], w)
                 else let (out, w) = echo_client_loop io sock numbers w
                      in (Sent number #
                            (if rc = -1 then ErrorPrinted
                             else Received (of_nat (bytes_nat (mem_write (int_bytes 0) 0 (take 4 bytes))))) # out, w))"

definition echo_client_main :: "'w io \<Rightarrow> (int \<Rightarrow> 'w \<Rightarrow> int \<times> 'w) \<Rightarrow> i32 list \<Rightarrow> 'w \<Rightarrow> int \<times> report list \<times> 'w" where
  "echo_client_main io io_connect numbers w =
     (let (sock, w) = io_socket io w
      in if sock = -1 then (-1, [ErrorPrinted], w)
         else let (rc, w) = io_connect sock w
              in if rc \<noteq> 0 then (-1, [ErrorPrinted], io_close io sock w)
                 else let (out, w) = echo_client_loop io sock numbers w in (0, out, io_close io sock w))"

declare select_loop.simps [code] poll_loop.simps [code] epoll_loop.simps [code] kqueue_loop.simps [code]

end
