(* ===== verification/EchoServer_Spec.thy ===== *)
theory EchoServer_Spec
  imports EchoServer
begin

text \<open>
  What one round of the servers of EchoServer does for their clients, in terms of the numbers that
  wait in each socket and the answers that have been sent; that the loop over the entries of \<open>poll\<close>
  does what the loop over the set of \<open>select\<close> does; and a session of the client with a server.
\<close>

section \<open>The documented behaviour of sockets\<close>

text \<open>
  In a world \<open>w\<close>, \<open>num w c\<close> are the numbers that \<open>c\<close> has sent and that were not received, \<open>sent w c\<close> the
  answers sent to \<open>c\<close>, \<open>readable w c\<close> says that \<open>select\<close> reports \<open>c\<close>, and \<open>conn w\<close> is the descriptor
  of the next connection. A readable socket without numbers is one whose client has disconnected.
\<close>

definition sockets_ok :: "'w io \<Rightarrow> ('w \<Rightarrow> int \<Rightarrow> i32 list) \<Rightarrow> ('w \<Rightarrow> int \<Rightarrow> char list list) \<Rightarrow>
    ('w \<Rightarrow> int \<Rightarrow> bool) \<Rightarrow> ('w \<Rightarrow> int) \<Rightarrow> bool" where
  "sockets_ok io num sent readable conn \<longleftrightarrow>
     (\<forall>w c k ks. num w c = k # ks \<longrightarrow>
        (\<exists>w'. io_recv io c w = (4, int_bytes k, w') \<and> num w' = (num w)(c := ks) \<and> sent w' = sent w)) \<and>
     (\<forall>w c. num w c = [] \<longrightarrow> (\<exists>w'. io_recv io c w = (0, [], w') \<and> num w' = num w \<and> sent w' = sent w)) \<and>
     (\<forall>w c bs. length bs = 4 \<longrightarrow>
        (\<exists>w'. io_send io c bs w = (4, w') \<and> num w' = num w \<and> sent w' = (sent w)(c := sent w c @ [bs]))) \<and>
     (\<forall>w n s. \<exists>r w'. io_select io n s w = (int (length r), r, w') \<and> distinct r \<and>
        set r = {c \<in> set s. readable w c} \<and> num w' = num w \<and> sent w' = sent w \<and> conn w' = conn w) \<and>
     (\<forall>w c. \<exists>w'. io_accept io c w = (conn w, w') \<and> num w' = num w \<and> sent w' = sent w)"

lemma sockets_okD:
  assumes "sockets_ok io num sent readable conn"
  shows sockets_number: "num w c = k # ks \<Longrightarrow>
      \<exists>w'. io_recv io c w = (4, int_bytes k, w') \<and> num w' = (num w)(c := ks) \<and> sent w' = sent w"
    and sockets_end: "num w c = [] \<Longrightarrow> \<exists>w'. io_recv io c w = (0, [], w') \<and> num w' = num w \<and> sent w' = sent w"
    and sockets_send: "length bs = 4 \<Longrightarrow>
      \<exists>w'. io_send io c bs w = (4, w') \<and> num w' = num w \<and> sent w' = (sent w)(c := sent w c @ [bs])"
    and sockets_select: "\<exists>r w'. io_select io n s w = (int (length r), r, w') \<and> distinct r \<and>
      set r = {c \<in> set s. readable w c} \<and> num w' = num w \<and> sent w' = sent w \<and> conn w' = conn w"
    and sockets_accept: "\<exists>w'. io_accept io c w = (conn w, w') \<and> num w' = num w \<and> sent w' = sent w"
  using assms by (simp_all add: sockets_ok_def)

section \<open>One interaction\<close>

lemma interact_number:
  assumes "sockets_ok io num sent readable conn" "num w c = k # ks" "sint k \<noteq> 2 ^ 31 - 1"
  shows "\<exists>w'. interact io c w = Inr (4, w') \<and> num w' = (num w)(c := ks) \<and>
           sent w' = (sent w)(c := sent w c @ [int_bytes (k + 1)])"
proof -
  obtain w1 where 1: "io_recv io c w = (4, int_bytes k, w1)" "num w1 = (num w)(c := ks)" "sent w1 = sent w"
    using sockets_number[OF assms(1), of w c k ks] assms(2) by blast
  obtain w2 where 2: "io_send io c (int_bytes (k + 1)) w1 = (4, w2)" "num w2 = num w1"
      "sent w2 = (sent w1)(c := sent w1 c @ [int_bytes (k + 1)])"
    using sockets_send[OF assms(1), of "int_bytes (k + 1)" c w1] by auto
  have "mem_write (int_bytes 0) 0 (take 4 (int_bytes k)) = int_bytes k"
    by (simp add: mem_write_def)
  then show ?thesis
    using 1 2 assms(3) by (simp add: interact_def Let_def)
qed

lemma interact_end:
  assumes "sockets_ok io num sent readable conn" "num w c = []"
  shows "\<exists>w'. interact io c w = Inr (0, w') \<and> num w' = num w \<and> sent w' = sent w"
  using sockets_end[OF assms(1), of w c] assms(2) by (auto simp: interact_def)

section \<open>The loop over the clients\<close>

text \<open>
  \<open>R\<close> is the set that \<open>select\<close> has left. The client behind one that has disconnected takes its place
  and the loop goes on behind it: it is looked at in the next round only.
\<close>

fun kept_clients :: "int set \<Rightarrow> (int \<Rightarrow> i32 list) \<Rightarrow> int list \<Rightarrow> int list" where
  "kept_clients R q [] = []"
| "kept_clients R q (c # cs) =
     (if c \<in> R \<and> q c = [] then (case cs of [] \<Rightarrow> [] | d # ds \<Rightarrow> d # kept_clients R q ds) else c # kept_clients R q cs)"

fun answered :: "int set \<Rightarrow> (int \<Rightarrow> i32 list) \<Rightarrow> int list \<Rightarrow> int list" where
  "answered R q [] = []"
| "answered R q (c # cs) =
     (if c \<notin> R then answered R q cs
      else if q c = [] then (case cs of [] \<Rightarrow> [] | d # ds \<Rightarrow> answered R q ds)
      else c # answered R q cs)"

lemma set_answered: "set (answered R q cs) \<subseteq> set cs \<inter> R"
  by (induction R q cs rule: answered.induct) (auto split: list.splits)

lemma kept_idle: "set cs \<inter> R = {} \<Longrightarrow> kept_clients R q cs = cs \<and> answered R q cs = []"
  by (induction cs) auto

lemma kept_cong: "\<forall>c \<in> set cs. (c \<in> R \<longleftrightarrow> c \<in> R') \<and> q c = q' c \<Longrightarrow>
    kept_clients R q cs = kept_clients R' q' cs \<and> answered R q cs = answered R' q' cs"
  by (induction R q cs rule: kept_clients.induct) (auto split: list.splits)

text \<open>What has been received and answered after the clients of \<open>as\<close> were served.\<close>

definition served_num :: "int list \<Rightarrow> (int \<Rightarrow> i32 list) \<Rightarrow> int \<Rightarrow> i32 list" where
  "served_num as q c = (if c \<in> set as then tl (q c) else q c)"

definition served_sent :: "int list \<Rightarrow> (int \<Rightarrow> i32 list) \<Rightarrow> (int \<Rightarrow> char list list) \<Rightarrow> int \<Rightarrow> char list list" where
  "served_sent as q s c = (if c \<in> set as then s c @ [int_bytes (hd (q c) + 1)] else s c)"

lemma served_Nil [simp]: "served_num [] q = q" "served_sent [] q s = s"
  by (simp_all add: served_num_def served_sent_def fun_eq_iff)

lemma served_Cons:
  assumes "c \<notin> set as"
  shows "served_num as (q(c := tl (q c))) = served_num (c # as) q"
    and "served_sent as (q(c := ks)) (s(c := s c @ [int_bytes (hd (q c) + 1)])) = served_sent (c # as) q s"
  using assms by (auto simp: served_num_def served_sent_def fun_eq_iff)

lemma remove_middle: "remove_client (pre @ c # cs) (length pre) = Inr (pre @ cs)"
  by (simp add: remove_client_def Let_def)

definition no_int_max :: "(int \<Rightarrow> i32 list) \<Rightarrow> bool" where
  "no_int_max q \<longleftrightarrow> (\<forall>c. \<forall>k \<in> set (q c). sint k \<noteq> 2 ^ 31 - 1)"

lemma no_int_max_tl: "no_int_max q \<Longrightarrow> q c = k # ks \<Longrightarrow> no_int_max (q(c := ks))"
  unfolding no_int_max_def by (metis fun_upd_apply list.set_intros(2))

lemma serve_ready_kept:
  assumes ok: "sockets_ok io num sent readable conn"
  shows "\<lbrakk>length (filter (\<lambda>c. c \<in> set r) cs) \<le> nat nfds; distinct cs; \<forall>c \<in> set cs. 0 \<le> c \<and> c < FD_SETSIZE;
      no_int_max (num w)\<rbrakk> \<Longrightarrow>
    \<exists>w'. serve_ready io r nfds (length pre) (pre @ cs) w = Inr (pre @ kept_clients (set r) (num w) cs, w') \<and>
      num w' = served_num (answered (set r) (num w) cs) (num w) \<and>
      sent w' = served_sent (answered (set r) (num w) cs) (num w) (sent w)"
proof (induction "length cs" arbitrary: cs nfds pre w rule: less_induct)
  case less
  show ?case
  proof (cases cs)
    case Nil
    then show ?thesis by (simp add: serve_ready.simps)
  next
    case (Cons c ds)
    have isset: "FD_ISSET c r = Inr (c \<in> set r)"
      using less.prems(3) by (simp add: FD_ISSET_def Cons)
    note unfold = serve_ready.simps[of io r nfds "length pre" "pre @ c # ds" w]
    show ?thesis
    proof (cases "nfds > 0")
      case False
      then have "set cs \<inter> set r = {}"
        using less.prems(1) by (auto simp: filter_empty_conv)
      then show ?thesis
        using False kept_idle[of cs "set r" "num w"] by (simp add: unfold Cons)
    next
      case pos: True
      show ?thesis
      proof (cases "c \<in> set r")
        case False
        obtain w' where w': "serve_ready io r nfds (length (pre @ [c])) ((pre @ [c]) @ ds) w =
            Inr ((pre @ [c]) @ kept_clients (set r) (num w) ds, w')"
          "num w' = served_num (answered (set r) (num w) ds) (num w)"
          "sent w' = served_sent (answered (set r) (num w) ds) (num w) (sent w)"
          using less.hyps[of ds nfds w "pre @ [c]"] less.prems False by (auto simp: Cons)
        then show ?thesis
          using pos False isset unfold by (simp add: Cons)
      next
        case True
        show ?thesis
        proof (cases "num w c")
          case Nil
          obtain w1 where w1: "interact io c w = Inr (0, w1)" "num w1 = num w" "sent w1 = sent w"
            using interact_end[OF ok Nil] by blast
          have step: "serve_ready io r nfds (length pre) (pre @ cs) w =
              serve_ready io r (nfds - 1) (length pre + 1) (pre @ ds) w1"
            using pos True isset w1 by (simp add: unfold Cons remove_middle)
          show ?thesis
          proof (cases ds)
            case Nil': Nil
            then show ?thesis
              using step True Nil w1 by (simp add: Cons serve_ready.simps)
          next
            case (Cons d es)
            then show ?thesis
              using step True Nil w1 less.hyps[of es "nfds - 1" w1 "pre @ [d]"] less.prems \<open>cs = c # ds\<close>
              by (auto split: if_splits)
          qed
        next
          case (Cons k ks)
          have "sint k \<noteq> 2 ^ 31 - 1"
            using less.prems(4) Cons by (auto simp: no_int_max_def dest!: spec[of _ c])
          then obtain w1 where w1: "interact io c w = Inr (4, w1)" "num w1 = (num w)(c := ks)"
            "sent w1 = (sent w)(c := sent w c @ [int_bytes (k + 1)])"
            using interact_number[OF ok Cons] by blast
          have step: "serve_ready io r nfds (length pre) (pre @ cs) w =
              serve_ready io r (nfds - 1) (length (pre @ [c])) ((pre @ [c]) @ ds) w1"
            using pos True isset w1 by (simp add: unfold \<open>cs = c # ds\<close>)
          have c: "c \<notin> set ds"
            using less.prems(2) by (simp add: \<open>cs = c # ds\<close>)
          have same: "kept_clients (set r) (num w1) ds = kept_clients (set r) (num w) ds"
              "answered (set r) (num w1) ds = answered (set r) (num w) ds"
            using kept_cong[of ds "set r" "set r" "num w1" "num w"] c w1 by auto
          have count: "length (filter (\<lambda>c. c \<in> set r) ds) \<le> nat (nfds - 1)"
            using less.prems(1) True by (simp add: \<open>cs = c # ds\<close>)
          have "no_int_max (num w1)"
            using no_int_max_tl[OF less.prems(4) Cons] w1 by simp
          then obtain w' where w': "serve_ready io r (nfds - 1) (length (pre @ [c])) ((pre @ [c]) @ ds) w1 =
              Inr ((pre @ [c]) @ kept_clients (set r) (num w1) ds, w')"
            "num w' = served_num (answered (set r) (num w1) ds) (num w1)"
            "sent w' = served_sent (answered (set r) (num w1) ds) (num w1) (sent w1)"
            using less.hyps[of ds "nfds - 1" w1 "pre @ [c]"] less.prems(2,3) count
            by (auto simp: \<open>cs = c # ds\<close>)
          moreover have "c \<notin> set (answered (set r) (num w) ds)"
            using c set_answered by fastforce
          ultimately show ?thesis
            using step served_Cons[of c _ "num w"] Cons True
            by (simp add: \<open>cs = c # ds\<close> same[unfolded w1(2)] w1(2,3))
        qed
      qed
    qed
  qed
qed

section \<open>A round of the server with select\<close>

lemma fill_loop_range:
  "\<forall>c \<in> set cs. 0 \<le> c \<and> c < FD_SETSIZE \<Longrightarrow> \<exists>m. fill_loop cs n s = Inr (m, rev cs @ s)"
  by (induction cs arbitrary: n s) (simp_all add: FD_SET_def)

lemma fill_fdset_range:
  "\<forall>c \<in> insert server (set cs). 0 \<le> c \<and> c < FD_SETSIZE \<Longrightarrow> \<exists>m. fill_fdset cs server = Inr (m, rev cs @ [server])"
  using fill_loop_range[of cs server "[server]"] by (simp add: fill_fdset_def FD_SET_def)

lemma ready_count:
  assumes "distinct r" "distinct cs" "set r \<subseteq> insert server (set cs)" "server \<notin> set cs"
  shows "length (filter (\<lambda>c. c \<in> set r) cs) = (if server \<in> set r then length r - 1 else length r)"
proof -
  have "set (filter (\<lambda>c. c \<in> set r) cs) = set r - {server}"
    using assms by auto
  then have "length (filter (\<lambda>c. c \<in> set r) cs) = card (set r - {server})"
    using assms distinct_card[of "filter (\<lambda>c. c \<in> set r) cs"] by simp
  then show ?thesis
    using assms distinct_card[of r] by (simp add: card_Diff_singleton_if)
qed

text \<open>The table the loop works on: with the new client when the listening socket is readable.\<close>

definition joined :: "('w \<Rightarrow> int \<Rightarrow> bool) \<Rightarrow> ('w \<Rightarrow> int) \<Rightarrow> int \<Rightarrow> int list \<Rightarrow> 'w \<Rightarrow> int list" where
  "joined readable conn server cs w = (if readable w server then cs @ [conn w] else cs)"


text \<open>A network where 4 has sent 41, 5 has disconnected, 7 has sent 1 and 6 is connecting.\<close>

type_synonym echo_net = "(int \<Rightarrow> i32 list) \<times> (int \<Rightarrow> char list list)"

definition net_io_with :: "(int \<Rightarrow> 'w \<Rightarrow> int \<times> char list \<times> 'w) \<Rightarrow> (int \<Rightarrow> char list \<Rightarrow> 'w \<Rightarrow> int \<times> 'w) \<Rightarrow> 'w io" where
  "net_io_with recv send = \<lparr>
     io_recv = recv, io_send = send, io_again = (\<lambda>w. False), io_accept = (\<lambda>c w. (6, w)),
     io_select = (\<lambda>n s w. let r = filter (\<lambda>c. 3 \<le> c) (remdups s) in (int (length r), r, w)),
     io_poll = (\<lambda>fds w. (int (length fds), map (\<lambda>c. 3 \<le> c) fds, w)),
     io_socket = (\<lambda>w. (3, w)), io_bind = (\<lambda>c w. (0, w)), io_listen = (\<lambda>c w. (0, w)), io_close = (\<lambda>c w. w)\<rparr>"

definition net_io :: "echo_net io" where
  "net_io = net_io_with
     (\<lambda>c (q, s). case q c of [] \<Rightarrow> (0, [], q, s) | k # ks \<Rightarrow> (4, int_bytes k, q(c := ks), s))
     (\<lambda>c bs (q, s). (4, q, s(c := s c @ [bs])))"

definition net_start :: echo_net where
  "net_start = ((\<lambda>c. [])(4 := [41], 7 := [1]), \<lambda>c. [])"

lemma net_sockets_ok: "sockets_ok net_io fst snd (\<lambda>w c. 3 \<le> c) (\<lambda>w. 6)"
  by (auto simp: sockets_ok_def net_io_def net_io_with_def Let_def)

lemma net_no_int_max: "no_int_max (fst net_start)"
  by (simp add: no_int_max_def net_start_def)


section \<open>The servers with poll\<close>

lemma remove_client_map: "remove_client (map f xs) i = (case remove_client xs i of Inl e \<Rightarrow> Inl e | Inr ys \<Rightarrow> Inr (map f ys))"
  by (simp add: remove_client_def Let_def take_map drop_map)

lemma remove_client_set: "remove_client xs i = Inr ys \<Longrightarrow> set ys \<subseteq> set xs"
  by (auto simp: remove_client_def Let_def split: if_splits dest: in_set_takeD in_set_dropD)

text \<open>
  The loop over the entries that \<open>poll\<close> has filled in does exactly what the loop over the clients
  does with the set that \<open>select\<close> has left: the same calls in the same order, the same table and the
  same failures.
\<close>

theorem serve_poll_as_select:
  assumes "\<forall>p \<in> set fds. p_revents p = Some (p_fd p \<in> set r)" "\<forall>p \<in> set fds. 0 \<le> p_fd p \<and> p_fd p < FD_SETSIZE"
  shows "rbind (serve_poll False io nfds i fds w) (\<lambda>(fds, w). Inr (map p_fd fds, w)) =
           serve_ready io r nfds i (map p_fd fds) w"
  using assms
proof (induction False io nfds i fds w rule: serve_poll.induct)
  case (1 io nfds i fds w)
  show ?case
  proof (cases "i < length fds \<and> nfds > 0")
    case False
    then show ?thesis by (simp add: serve_poll.simps serve_ready.simps)
  next
    case True
    then have in_range: "fds ! i \<in> set fds" by simp
    then have pollin: "pollin (fds ! i) = Inr (p_fd (fds ! i) \<in> set r)"
        and isset: "FD_ISSET (p_fd (fds ! i)) r = Inr (p_fd (fds ! i) \<in> set r)"
      using 1(5,6) by (simp_all add: pollin_def FD_ISSET_def)
    note unfold = serve_poll.simps[of False io nfds i fds w] serve_ready.simps[of io r nfds i "map p_fd fds" w]
    show ?thesis
    proof (cases "p_fd (fds ! i) \<in> set r")
      case False
      then show ?thesis
        using 1 True by (simp add: unfold pollin isset)
    next
      case ready: True
      show ?thesis
      proof (cases "interact io (p_fd (fds ! i)) w")
        case (Inl e)
        then show ?thesis
          using True ready by (simp add: unfold pollin isset)
      next
        case (Inr z)
        obtain rc w1 where z: "z = (rc, w1)" by fastforce
        have still: "(\<forall>p \<in> set fds'. p_revents p = Some (p_fd p \<in> set r)) \<and> (\<forall>p \<in> set fds'. 0 \<le> p_fd p \<and> p_fd p < FD_SETSIZE)"
          if "remove_client fds i = Inr fds'" for fds'
          using remove_client_set[OF that] 1(5,6) by blast
        show ?thesis
          using 1 True ready Inr still z
          by (simp add: unfold pollin isset remove_client_map split: sum.split)
      qed
    qed
  qed
qed

theorem serve_poll_as_select_witness:
  "rbind (serve_poll False net_io 2 0 [\<lparr>p_fd = 4, p_revents = Some True\<rparr>, \<lparr>p_fd = 9, p_revents = Some False\<rparr>] net_start)
     (\<lambda>(fds, w). Inr (map p_fd fds, w)) = serve_ready net_io [4] 2 0 [4, 9] net_start"
  using serve_poll_as_select[of "[\<lparr>p_fd = 4, p_revents = Some True\<rparr>, \<lparr>p_fd = 9, p_revents = Some False\<rparr>]" "[4]"]
  by simp

text \<open>
  The servers with \<open>poll\<close> keep the listening socket among their clients, so that after a new connection
  the loop receives from it; that fails, and the round ends before any client is served, whatever
  has arrived from them. \<open>strict\<close> is the daemon's loop.
\<close>

theorem new_connection_stops_the_round:
  assumes "io_poll io (server # map p_fd fds) w = (n, True # evs, w1)" "n > 1"
    and "io_accept io server w1 = (d, w2)" "d \<noteq> -1"
    and "io_recv io server w2 = (-1, bytes, w3)" "\<not> io_again io w3"
  shows "\<exists>fds'. poll_round strict io server (\<lparr>p_fd = server, p_revents = ev\<rparr> # fds) w = Inr (True, fds', w3)"
proof -
  have "interact io server w2 = Inr (-1, w3)"
    using assms(5) by (simp add: interact_def)
  then show ?thesis
    using assms by (simp add: poll_round_def Let_def arr_get_def pollin_def serve_poll.simps)
qed

section \<open>A client and a server\<close>

text \<open>
  The two ends of a connection; the world is the bytes on their way to the server and to the client.
  When the client waits, the server interacts with it; a server that crashes closes the connection.
\<close>

definition server_end :: "(char list \<times> char list) io" where
  "server_end = net_io_with
     (\<lambda>c (up, down). (int (length (take 4 up)), take 4 up, drop 4 up, down))
     (\<lambda>c bs (up, down). (int (length bs), up, down @ bs))"

definition client_end :: "(char list \<times> char list) io" where
  "client_end = net_io_with
     (\<lambda>c w. case interact server_end c w of
              Inl e \<Rightarrow> (0, [], w)
            | Inr (rc, up, down) \<Rightarrow> (int (length (take 4 down)), take 4 down, up, drop 4 down))
     (\<lambda>c bs (up, down). (int (length bs), up @ bs, down))"

text \<open>
  Whatever numbers the user types, the client prints each number with its successor, in order, until
  one is the largest \<open>int\<close>: its increment overflows in the server, and the client finds the connection
  closed.
\<close>

theorem echo_session:
  "fst (echo_client_loop client_end sock ns ([], [])) =
     concat (map (\<lambda>n. [Sent n, Received (n + 1)]) (takeWhile (\<lambda>n. sint n \<noteq> 2 ^ 31 - 1) ns)) @
     (if \<exists>n \<in> set ns. sint n = 2 ^ 31 - 1 then [Sent (2 ^ 31 - 1), ClosedConnection] else [])"
proof (induction ns)
  case (Cons n ns)
  have bytes: "mem_write (int_bytes 0) 0 (int_bytes m) = int_bytes m" for m
    by (simp add: mem_write_def)
  have send: "io_send client_end sock (int_bytes n) ([], []) = (4, int_bytes n, [])"
    by (simp add: client_end_def net_io_with_def)
  have answer: "interact server_end sock (int_bytes n, []) =
      (if sint n = 2 ^ 31 - 1 then Inl SignedOverflow else Inr (4, [], int_bytes (n + 1)))"
    by (simp add: interact_def server_end_def net_io_with_def bytes)
  have recv: "io_recv client_end sock (int_bytes n, []) =
      (if sint n = 2 ^ 31 - 1 then (0, [], int_bytes n, []) else (4, int_bytes (n + 1), [], []))"
    using answer by (simp add: client_end_def net_io_with_def)
  show ?case
  proof (cases "sint n = 2 ^ 31 - 1")
    case True
    have "n = word_of_int (sint n)"
      by simp
    then have "n = 2 ^ 31 - 1"
      using True by simp
    then show ?thesis
      using True send recv by simp
  next
    case False
    then show ?thesis
      using send recv Cons.IH by (simp add: bytes Let_def case_prod_beta)
  qed
qed simp

section \<open>The server with epoll\<close>

text \<open>
  A server with \<open>epoll\<close> answers one event a round: a client that has sent a number is sent the next one,
  and the descriptor of one that has disconnected is taken from the set and closed.
\<close>

lemma epoll_round_number:
  assumes "sockets_ok io num sent readable conn" "ep_wait os ep w = (1, c, w1)" "c \<noteq> server"
    "num w1 c = k # ks" "sint k \<noteq> 2 ^ 31 - 1"
  shows "\<exists>w'. epoll_round io os server ep w = Inr (True, w') \<and> num w' = (num w1)(c := ks) \<and>
           sent w' = (sent w1)(c := sent w1 c @ [int_bytes (k + 1)])"
  using interact_number[OF assms(1,4,5)] assms(2,3) by (auto simp: epoll_round_def)

lemma epoll_round_end:
  assumes "sockets_ok io num sent readable conn" "ep_wait os ep w = (1, c, w1)" "c \<noteq> server" "num w1 c = []"
  shows "\<exists>w2. epoll_round io os server ep w = Inr (True, io_close io c (snd (ep_ctl os ep False c w2))) \<and>
           num w2 = num w1 \<and> sent w2 = sent w1"
proof -
  obtain w2 where "interact io c w1 = Inr (0, w2)" "num w2 = num w1" "sent w2 = sent w1"
    using interact_end[OF assms(1,4)] by blast
  then show ?thesis
    using assms(2,3) by (intro exI[of _ w2]) (simp add: epoll_round_def case_prod_beta Let_def)
qed


section \<open>The server with kqueue\<close>

text \<open>The calls of \<open>epoll\<close> over those of \<open>kqueue\<close>: a descriptor leaves the set when it is closed.\<close>

definition epoll_of :: "'w kqueue \<Rightarrow> 'w epoll" where
  "epoll_of os = \<lparr>ep_create = kq_create os, ep_ctl = (\<lambda>ep add fd w. if add then kq_add os ep fd w else (0, w)),
     ep_wait = (\<lambda>ep w. let (n, fd, eof, w) = kq_wait os ep w in (n, fd, w))\<rparr>"

text \<open>
  When \<open>EV_EOF\<close> is reported exactly for the sockets from which nothing more can be received, the server is the one
  with \<open>epoll\<close>.
\<close>

lemma kqueue_round_as_epoll:
  assumes "\<And>w n fd eof w1 rc w2. kq_wait os kq w = (n, fd, eof, w1) \<Longrightarrow> fd \<noteq> server \<Longrightarrow> interact io fd w1 = Inr (rc, w2) \<Longrightarrow>
    rc \<noteq> -1 \<Longrightarrow> eof = (rc = 0)"
  shows "kqueue_round io os server kq w = epoll_round io (epoll_of os) server kq w"
proof -
  obtain n fd eof w1 where wait: "kq_wait os kq w = (n, fd, eof, w1)" by (cases "kq_wait os kq w")
  show ?thesis
  proof (cases "interact io fd w1")
    case (Inl e)
    then show ?thesis by (simp add: kqueue_round_def epoll_round_def epoll_of_def wait case_prod_beta)
  next
    case (Inr r)
    obtain rc w2 where r: "r = (rc, w2)" by (cases r)
    have "eof = (rc = 0)" if "fd \<noteq> server" "rc \<noteq> -1"
      using assms[OF wait that(1) Inr[unfolded r] that(2)] .
    then show ?thesis
      using Inr by (simp add: kqueue_round_def epoll_round_def epoll_of_def wait r case_prod_beta)
  qed
qed

text \<open>Otherwise it closes a connection as soon as the client has closed it, and the numbers that still wait there are lost.\<close>

lemma kqueue_closes_early:
  assumes "sockets_ok io num sent readable conn" "kq_wait os kq w = (1, c, True, w1)" "c \<noteq> server"
    "num w1 c = k # ks" "sint k \<noteq> 2 ^ 31 - 1"
  shows "\<exists>w'. kqueue_round io os server kq w = Inr (True, io_close io c w') \<and> num w' c = ks \<and>
           sent w' c = sent w1 c @ [int_bytes (k + 1)]"
  using interact_number[OF assms(1,4,5)] assms(2,3) by (auto simp: kqueue_round_def)

end
