(* ===== verification/Futex.thy ===== *)
theory Futex
  imports Prelude
begin

text \<open>
  The lock of src/lecture_examples/6_threads/8_futex.c: six threads increment a shared counter under a
  lock that is taken with a compare-and-swap and waited for in the kernel. The threads and main
  interleave at every access to shared memory and at every system call.
\<close>

section \<open>State\<close>

text \<open>
  Where a thread stands: waiting for \<open>start\<close>, at the test of the loop, at the compare-and-swap of
  \<open>futex_lock\<close>, before \<open>futex_wait\<close>, asleep in the kernel, before the reading of the counter, before its
  writing with the value \<open>v + 1\<close>, at the compare-and-swap of \<open>futex_unlock\<close>, before \<open>futex_wake\<close>, returned.
\<close>

datatype fx_pc = X_Start | X_Loop | X_Cas | X_Wait | X_Sleep | X_Load | X_Store (loaded: nat) | X_Unlock | X_Wake | X_Ret

record fx_thread =
  fx_pc :: fx_pc
  fx_i :: nat

text \<open>main creates the threads, sets \<open>start\<close>, joins the threads and prints the counter.\<close>

datatype fx_main = X_Create nat | X_Go | X_Join nat | X_Print nat

record fx_state =
  fx_futex :: nat
  fx_counter :: nat
  fx_start :: bool
  fx_threads :: "fx_thread list"
  fx_main :: fx_main

definition fx_init :: fx_state where
  "fx_init = \<lparr>fx_futex = 0, fx_counter = 0, fx_start = False, fx_threads = [], fx_main = X_Create 0\<rparr>"

section \<open>The system calls\<close>

text \<open>\<open>FUTEX_WAIT\<close> puts the caller to sleep when the word still has the value \<open>val\<close>.\<close>

definition futex_wait :: "nat \<Rightarrow> nat \<Rightarrow> fx_pc" where
  "futex_wait futex val = (if futex = val then X_Sleep else X_Cas)"

text \<open>
  \<open>FUTEX_WAKE\<close> wakes one of the sleeping threads, \<open>j\<close> by the choice of the kernel; \<open>None\<close> when
  that one does not sleep, although another one does.
\<close>

definition futex_wake :: "nat \<Rightarrow> fx_thread list \<Rightarrow> fx_thread list option" where
  "futex_wake j ts =
     (if \<forall>t \<in> set ts. fx_pc t \<noteq> X_Sleep then Some ts
      else if j < length ts \<and> fx_pc (ts ! j) = X_Sleep then Some (ts[j := (ts ! j)\<lparr>fx_pc := X_Cas\<rparr>])
      else None)"

text \<open>The compare-and-swaps: the value before, and the value after.\<close>

definition compare_and_swap :: "nat \<Rightarrow> nat \<Rightarrow> nat \<Rightarrow> nat \<times> nat" where
  "compare_and_swap x old new = (x, if x = old then new else x)"

section \<open>Steps\<close>

text \<open>
  One step of \<open>thread_f\<close> with \<open>futex_lock\<close> and \<open>futex_unlock\<close>, for a loop of \<open>k\<close> rounds: \<open>None\<close> when the thread
  sleeps, waits for \<open>start\<close> or has returned.
\<close>

definition fx_goto :: "nat \<Rightarrow> fx_pc \<Rightarrow> fx_state \<Rightarrow> fx_state" where
  "fx_goto i p s = s\<lparr>fx_threads := (fx_threads s)[i := (fx_threads s ! i)\<lparr>fx_pc := p\<rparr>]\<rparr>"

definition fx_thread_step :: "nat \<Rightarrow> nat \<Rightarrow> nat \<Rightarrow> fx_state \<Rightarrow> fx_state cres option" where
  "fx_thread_step k i j s =
     (let t = fx_threads s ! i in
      case fx_pc t of
        X_Start \<Rightarrow> if fx_start s then Some (Inr (fx_goto i X_Loop s)) else None
      | X_Loop \<Rightarrow> Some (Inr (fx_goto i (if fx_i t < k then X_Cas else X_Ret) s))
      | X_Cas \<Rightarrow>
          (let (old, new) = compare_and_swap (fx_futex s) 0 1
           in Some (Inr (fx_goto i (if old \<noteq> 0 then X_Wait else X_Load) (s\<lparr>fx_futex := new\<rparr>))))
      | X_Wait \<Rightarrow> Some (Inr (fx_goto i (futex_wait (fx_futex s) 1) s))
      | X_Sleep \<Rightarrow> None
      | X_Load \<Rightarrow> Some (Inr (fx_goto i (X_Store (fx_counter s)) s))
      | X_Store v \<Rightarrow> Some (rbind (int_add v 1) (\<lambda>v. Inr (fx_goto i X_Unlock (s\<lparr>fx_counter := v\<rparr>))))
      | X_Unlock \<Rightarrow> Some (Inr (fx_goto i X_Wake (s\<lparr>fx_futex := snd (compare_and_swap (fx_futex s) 1 0)\<rparr>)))
      | X_Wake \<Rightarrow>
          map_option (\<lambda>ts. Inr (s\<lparr>fx_threads := ts[i := \<lparr>fx_pc = X_Loop, fx_i = fx_i t + 1\<rparr>]\<rparr>))
            (futex_wake j (fx_threads s))
      | X_Ret \<Rightarrow> None)"

definition fx_main_step :: "nat \<Rightarrow> fx_state \<Rightarrow> fx_state option" where
  "fx_main_step n s =
     (case fx_main s of
        X_Create m \<Rightarrow>
          Some (if m < n then s\<lparr>fx_threads := fx_threads s @ [\<lparr>fx_pc = X_Start, fx_i = 0\<rparr>], fx_main := X_Create (m + 1)\<rparr>
                else s\<lparr>fx_main := X_Go\<rparr>)
      | X_Go \<Rightarrow> Some (s\<lparr>fx_start := True, fx_main := X_Join 0\<rparr>)
      | X_Join m \<Rightarrow>
          if m < n then (if fx_pc (fx_threads s ! m) = X_Ret then Some (s\<lparr>fx_main := X_Join (m + 1)\<rparr>) else None)
          else Some (s\<lparr>fx_main := X_Print (fx_counter s)\<rparr>)
      | X_Print _ \<Rightarrow> None)"

text \<open>The program with \<open>n\<close> threads and \<open>k\<close> rounds; in the source \<open>n\<close> is 6 and \<open>k\<close> is 100000.\<close>

inductive fx_step :: "nat \<Rightarrow> nat \<Rightarrow> fx_state \<Rightarrow> fx_state \<Rightarrow> bool" for n k where
  thread: "i < length (fx_threads s) \<Longrightarrow> fx_thread_step k i j s = Some (Inr s') \<Longrightarrow> fx_step n k s s'"
| main: "fx_main_step n s = Some s' \<Longrightarrow> fx_step n k s s'"

end
