(* ===== verification/Futex_Spec.thy ===== *)
theory Futex_Spec
  imports Futex
begin

text \<open>
  The lock of Futex excludes all but one thread, no wake-up is lost, and main prints the number of all
  rounds, in every interleaving.
\<close>

section \<open>The invariant\<close>

definition holding :: "fx_thread \<Rightarrow> nat" where
  "holding t = (case fx_pc t of X_Load \<Rightarrow> 1 | X_Store _ \<Rightarrow> 1 | X_Unlock \<Rightarrow> 1 | _ \<Rightarrow> 0)"

definition counted :: "fx_thread \<Rightarrow> nat" where
  "counted t = fx_i t + (if fx_pc t = X_Unlock \<or> fx_pc t = X_Wake then 1 else 0)"

definition in_round :: "fx_pc \<Rightarrow> bool" where
  "in_round p \<longleftrightarrow> p \<notin> {X_Start, X_Loop, X_Ret}"

text \<open>A thread that will take the lock, or release it and wake another one.\<close>

definition awake :: "fx_thread \<Rightarrow> bool" where
  "awake t \<longleftrightarrow> holding t = 1 \<or> fx_pc t = X_Cas \<or> fx_pc t = X_Wake"

definition sleepers_ok :: "fx_thread list \<Rightarrow> bool" where
  "sleepers_ok ts \<longleftrightarrow> (\<exists>t \<in> set ts. fx_pc t = X_Sleep) \<longrightarrow> (\<exists>t \<in> set ts. awake t)"

definition fx_ok :: "nat \<Rightarrow> nat \<Rightarrow> bool \<Rightarrow> fx_thread \<Rightarrow> bool" where
  "fx_ok k c started t \<longleftrightarrow> fx_i t \<le> k \<and> (in_round (fx_pc t) \<longrightarrow> fx_i t < k) \<and> (fx_pc t = X_Ret \<longrightarrow> fx_i t = k) \<and>
     (fx_pc t = X_Start \<longrightarrow> fx_i t = 0) \<and> (\<not> started \<longrightarrow> fx_pc t = X_Start) \<and> (\<forall>v. fx_pc t = X_Store v \<longrightarrow> v = c)"

definition fx_main_ok :: "nat \<Rightarrow> nat \<Rightarrow> bool \<Rightarrow> fx_thread list \<Rightarrow> fx_main \<Rightarrow> bool" where
  "fx_main_ok n c started ts p \<longleftrightarrow>
     (case p of
        X_Create m \<Rightarrow> length ts = m \<and> m \<le> n \<and> \<not> started
      | X_Go \<Rightarrow> length ts = n \<and> \<not> started
      | X_Join m \<Rightarrow> length ts = n \<and> started \<and> m \<le> n \<and> (\<forall>i < m. fx_pc (ts ! i) = X_Ret)
      | X_Print v \<Rightarrow> length ts = n \<and> started \<and> v = c \<and> (\<forall>i < n. fx_pc (ts ! i) = X_Ret))"

definition fx_inv :: "nat \<Rightarrow> nat \<Rightarrow> fx_state \<Rightarrow> bool" where
  "fx_inv n k s \<longleftrightarrow> fx_futex s = tally holding (fx_threads s) \<and> fx_futex s \<le> 1 \<and>
     fx_counter s = tally counted (fx_threads s) \<and>
     (\<forall>t \<in> set (fx_threads s). fx_ok k (fx_counter s) (fx_start s) t) \<and> sleepers_ok (fx_threads s) \<and>
     fx_main_ok n (fx_counter s) (fx_start s) (fx_threads s) (fx_main s)"

lemma fx_inv_init: "fx_inv n k fx_init"
  by (simp add: fx_inv_def fx_init_def sleepers_ok_def fx_main_ok_def)

lemma sleepers_ok_holder: "tally holding ts = 1 \<Longrightarrow> sleepers_ok ts"
  using tally_pos[of holding ts] by (auto simp: sleepers_ok_def awake_def holding_def split: fx_pc.splits)

lemma sleepers_ok_update:
  assumes "sleepers_ok ts" "i < length ts" "awake t \<or> \<not> awake (ts ! i) \<and> fx_pc t \<noteq> X_Sleep"
  shows "sleepers_ok (ts[i := t])"
proof (cases "awake t")
  case True
  then show ?thesis
    using assms(2) set_update_memI[of i ts t] by (auto simp: sleepers_ok_def)
next
  case False
  have "\<exists>u \<in> set (ts[i := t]). awake u" if "u \<in> set ts" "awake u" for u
    using that False assms(2,3) by (metis in_set_conv_nth length_list_update nth_list_update_neq)
  moreover have "\<exists>u \<in> set ts. fx_pc u = X_Sleep" if "u \<in> set (ts[i := t])" "fx_pc u = X_Sleep" for u
    using that False assms(3) set_update_subset_insert[of ts i t] by blast
  ultimately show ?thesis
    using assms(1) by (auto simp: sleepers_ok_def)
qed

text \<open>The state after one thread has changed.\<close>

lemma fx_inv_update:
  assumes inv: "fx_inv n k s" and i: "i < length (fx_threads s)" and t: "fx_threads s ! i = t"
    and "fx_futex s' + holding t = fx_futex s + holding t'" "fx_futex s' \<le> 1"
    and "fx_counter s' + counted t = fx_counter s + counted t'" "fx_ok k (fx_counter s') True t'"
      "fx_counter s' = fx_counter s \<or> holding t = 1"
    and "sleepers_ok ((fx_threads s)[i := t'])" "fx_start s" "fx_pc t \<noteq> X_Ret"
    and s': "fx_threads s' = (fx_threads s)[i := t']" "fx_start s' = fx_start s" "fx_main s' = fx_main s"
  shows "fx_inv n k s'"
proof -
  let ?ts = "fx_threads s" and ?f = "fx_futex s'" and ?c = "fx_counter s'"
  have "?f = tally holding (?ts[i := t'])"
    using tally_update[OF i, of holding t'] inv assms(4) by (simp add: fx_inv_def t)
  moreover have "?c = tally counted (?ts[i := t'])"
    using tally_update[OF i, of counted t'] inv assms(6) by (simp add: fx_inv_def t)
  moreover have "fx_ok k ?c True u" if "u \<in> set (?ts[i := t'])" for u
  proof -
    from that obtain j where j: "j < length ?ts" "u = ?ts[i := t'] ! j"
      by (metis in_set_conv_nth length_list_update)
    show ?thesis
    proof (cases "j = i")
      case False
      have ok: "fx_ok k (fx_counter s) True u"
        using inv j False assms(10) nth_mem[OF j(1)] unfolding fx_inv_def by fastforce
      have "holding (?ts ! i) + holding (?ts ! j) \<le> 1"
        using tally_two[OF i j(1), of holding] inv False by (simp add: fx_inv_def)
      then show ?thesis
        using ok assms(8) j False t by (auto simp: fx_ok_def holding_def)
    qed (use j i assms(7) in simp)
  qed
  moreover have "fx_main_ok n ?c True (?ts[i := t']) (fx_main s)"
    using inv assms(10,11) i t
    by (auto simp: fx_inv_def fx_main_ok_def nth_list_update split: fx_main.splits)
  ultimately show ?thesis
    using inv assms(5,9,10) s' by (simp add: fx_inv_def)
qed


lemma fx_counter_le: "fx_inv n k s \<Longrightarrow> fx_counter s \<le> n * k"
proof -
  assume inv: "fx_inv n k s"
  have "counted t \<le> k" if "t \<in> set (fx_threads s)" for t
    using inv that by (fastforce simp: fx_inv_def fx_ok_def counted_def in_round_def)
  then have "tally counted (fx_threads s) \<le> k * length (fx_threads s)"
    using tally_le[of "fx_threads s" counted "\<lambda>_. 0" k] tally_const[of "fx_threads s" "\<lambda>_. 0" 0] by simp
  also have "\<dots> \<le> n * k"
    using inv by (auto simp: fx_inv_def fx_main_ok_def mult.commute split: fx_main.splits)
  finally show ?thesis
    using inv by (simp add: fx_inv_def)
qed

text \<open>A thread that holding the lock has not been counted, so that the counter can still grow.\<close>

lemma fx_thread_step_inv:
  assumes inv: "fx_inv n k s" and small: "n * k < 2 ^ 31" and i: "i < length (fx_threads s)"
    and step: "fx_thread_step k i j s = Some r"
  shows "\<exists>s'. r = Inr s' \<and> fx_inv n k s'"
proof -
  let ?t = "fx_threads s ! i"
  have ok: "fx_ok k (fx_counter s) (fx_start s) ?t" and f: "fx_futex s \<le> 1" and sl: "sleepers_ok (fx_threads s)"
    and count: "fx_futex s = tally holding (fx_threads s)"
    using inv i by (auto simp: fx_inv_def)
  have le: "holding ?t \<le> fx_futex s"
    using count tally_nth[OF i, of holding] by simp
  note defs = holding_def counted_def fx_ok_def in_round_def awake_def fx_goto_def Let_def
  have goto: "fx_inv n k s'" if "fx_pc ?t \<noteq> X_Ret" "fx_start s" "fx_threads s' = (fx_threads s)[i := ?t\<lparr>fx_pc := p\<rparr>]"
      "fx_start s' = fx_start s" "fx_main s' = fx_main s" "fx_futex s' \<le> 1"
      "fx_futex s' + holding ?t = fx_futex s + holding (?t\<lparr>fx_pc := p\<rparr>)"
      "fx_counter s' + counted ?t = fx_counter s + counted (?t\<lparr>fx_pc := p\<rparr>)"
      "fx_ok k (fx_counter s') True (?t\<lparr>fx_pc := p\<rparr>)" "fx_counter s' = fx_counter s \<or> holding ?t = 1"
      "awake (?t\<lparr>fx_pc := p\<rparr>) \<or> fx_futex s' = 1 \<or> \<not> awake ?t \<and> p \<noteq> X_Sleep" for s' p
  proof (rule fx_inv_update[OF inv i refl that(7,6,8,9,10) _ that(2,1,3,4,5)])
    have "tally holding ((fx_threads s)[i := ?t\<lparr>fx_pc := p\<rparr>]) = fx_futex s'"
      using tally_update[OF i, of holding "?t\<lparr>fx_pc := p\<rparr>"] count that(7) by simp
    then show "sleepers_ok ((fx_threads s)[i := ?t\<lparr>fx_pc := p\<rparr>])"
      using sleepers_ok_holder sleepers_ok_update[OF sl i] that(11) by fastforce
  qed
  show ?thesis
  proof (cases "fx_pc ?t")
    case X_Start
    then show ?thesis
      using step ok f goto[of "fx_goto i X_Loop s" X_Loop] by (auto simp: defs fx_thread_step_def split: if_splits)
  next
    case X_Loop
    then show ?thesis
      using step ok f goto[of "fx_goto i X_Cas s" X_Cas] goto[of "fx_goto i X_Ret s" X_Ret]
      by (auto simp: defs fx_thread_step_def split: if_splits)
  next
    case X_Cas
    then show ?thesis
      using step ok f goto[of "fx_goto i X_Wait s" X_Wait] goto[of "fx_goto i X_Load (s\<lparr>fx_futex := 1\<rparr>)" X_Load]
      by (auto simp: defs fx_thread_step_def compare_and_swap_def split: if_splits)
  next
    case X_Wait
    then show ?thesis
      using step ok f goto[of "fx_goto i X_Sleep s" X_Sleep] goto[of "fx_goto i X_Cas s" X_Cas]
      by (auto simp: defs fx_thread_step_def futex_wait_def split: if_splits)
  next
    case X_Load
    then show ?thesis
      using step ok f goto[of "fx_goto i (X_Store (fx_counter s)) s" "X_Store (fx_counter s)"]
      by (auto simp: defs fx_thread_step_def)
  next
    case X_Unlock
    then show ?thesis
      using step ok f le goto[of "fx_goto i X_Wake (s\<lparr>fx_futex := 0\<rparr>)" X_Wake]
      by (auto simp: defs fx_thread_step_def compare_and_swap_def)
  next
    case (X_Store v)
    then have v: "v = fx_counter s" and "fx_start s"
      using ok by (auto simp: fx_ok_def)
    then have s': "fx_inv n k (fx_goto i X_Unlock (s\<lparr>fx_counter := v + 1\<rparr>))"
      using ok f X_Store by (intro goto[where p = X_Unlock]) (auto simp: defs)
    then have "v + 1 < 2 ^ 31"
      using fx_counter_le[OF s'] small by (simp add: fx_goto_def)
    then show ?thesis
      using step s' X_Store by (auto simp: fx_thread_step_def)
  next
    case X_Wake
    let ?t' = "\<lparr>fx_pc = X_Loop, fx_i = fx_i ?t + 1\<rparr>"
    from step X_Wake obtain ts where ts: "futex_wake j (fx_threads s) = Some ts"
        "r = Inr (s\<lparr>fx_threads := ts[i := ?t']\<rparr>)"
      by (auto simp: fx_thread_step_def)
    have started: "fx_start s"
      using ok X_Wake by (auto simp: fx_ok_def)
    show ?thesis
    proof (cases "\<forall>t \<in> set (fx_threads s). fx_pc t \<noteq> X_Sleep")
      case True
      then have "sleepers_ok ((fx_threads s)[i := ?t'])"
        using set_update_subset_insert[of "fx_threads s" i ?t'] by (auto simp: sleepers_ok_def)
      then have "fx_inv n k (s\<lparr>fx_threads := (fx_threads s)[i := ?t']\<rparr>)"
        using ok f X_Wake started by (intro fx_inv_update[OF inv i refl]) (auto simp: defs)
      then show ?thesis
        using ts True by (simp add: futex_wake_def)
    next
      case False
      let ?u = "(fx_threads s ! j)\<lparr>fx_pc := X_Cas\<rparr>" and ?s1 = "fx_goto j X_Cas s"
      have j: "j < length (fx_threads s)" "fx_pc (fx_threads s ! j) = X_Sleep" "ts = (fx_threads s)[j := ?u]"
        using ts(1) False by (auto simp: futex_wake_def split: if_splits)
      have ij: "i \<noteq> j"
        using j X_Wake by auto
      have ok': "fx_ok k (fx_counter s) True (fx_threads s ! j)"
        using inv j(1) started nth_mem[OF j(1)] unfolding fx_inv_def by fastforce
      have inv1: "fx_inv n k ?s1"
        using ok' f j started sleepers_ok_update[OF sl j(1), of ?u]
        by (intro fx_inv_update[OF inv j(1) refl, of _ ?u]) (auto simp: defs)
      have "sleepers_ok (ts[i := ?t'])"
      proof -
        have "ts[i := ?t'] ! j = ?u" "j < length (ts[i := ?t'])"
          using j ij by simp_all
        then have "?u \<in> set (ts[i := ?t'])"
          by (metis nth_mem)
        moreover have "awake ?u"
          by (simp add: awake_def)
        ultimately show ?thesis
          unfolding sleepers_ok_def by blast
      qed
      then have "fx_inv n k (s\<lparr>fx_threads := ts[i := ?t']\<rparr>)"
        using ok f X_Wake started i j ij by (intro fx_inv_update[OF inv1, of i ?t _ ?t']) (auto simp: defs)
      then show ?thesis
        using ts(2) by simp
    qed
  qed (use step in \<open>auto simp: fx_thread_step_def\<close>)
qed

lemma fx_main_step_inv:
  assumes inv: "fx_inv n k s" and step: "fx_main_step n s = Some s'"
  shows "fx_inv n k s'"
proof (cases "fx_main s")
  case (X_Create m)
  then have main: "length (fx_threads s) = m" "m \<le> n" "\<not> fx_start s"
    using inv by (auto simp: fx_inv_def fx_main_ok_def)
  have "sleepers_ok (fx_threads s @ [\<lparr>fx_pc = X_Start, fx_i = 0\<rparr>])"
    using inv by (auto simp: fx_inv_def sleepers_ok_def)
  then show ?thesis
    using step inv main X_Create
    by (auto simp: fx_main_step_def fx_inv_def fx_main_ok_def holding_def counted_def fx_ok_def in_round_def split: if_splits)
next
  case X_Go
  then show ?thesis
    using step inv by (auto simp: fx_main_step_def fx_inv_def fx_main_ok_def fx_ok_def)
next
  case (X_Join m)
  then show ?thesis
    using step inv by (auto simp: fx_main_step_def fx_inv_def fx_main_ok_def less_Suc_eq split: if_splits)
qed (use step in \<open>auto simp: fx_main_step_def\<close>)

lemma fx_step_inv: "fx_inv n k s \<Longrightarrow> n * k < 2 ^ 31 \<Longrightarrow> fx_step n k s s' \<Longrightarrow> fx_inv n k s'"
  by (erule fx_step.cases) (auto dest: fx_thread_step_inv fx_main_step_inv)

section \<open>Progress\<close>

text \<open>
  The rounds whose lock was not released, and within a round how far each thread is from the release:
  while the lock is free the next compare-and-swap takes it, and while it is taken all others fall asleep.
\<close>

definition rounds_left :: "nat \<Rightarrow> fx_thread \<Rightarrow> nat" where
  "rounds_left k t = k - (fx_i t + (if fx_pc t = X_Wake then 1 else 0))"

definition rank :: "nat \<Rightarrow> fx_thread \<Rightarrow> nat" where
  "rank f t =
     (case fx_pc t of
        X_Start \<Rightarrow> 8 | X_Loop \<Rightarrow> 7 | X_Wait \<Rightarrow> if f = 0 then 6 else 3 | X_Cas \<Rightarrow> if f = 0 then 5 else 4
      | X_Load \<Rightarrow> 4 | X_Store _ \<Rightarrow> 3 | X_Unlock \<Rightarrow> 2 | X_Sleep \<Rightarrow> 2 | X_Wake \<Rightarrow> 12 | X_Ret \<Rightarrow> 0)"

definition main_rank :: "nat \<Rightarrow> fx_main \<Rightarrow> nat" where
  "main_rank n p = (case p of X_Create m \<Rightarrow> 10 * (n - m) + n + 3 | X_Go \<Rightarrow> n + 2 | X_Join m \<Rightarrow> n - m + 1 | X_Print _ \<Rightarrow> 0)"

definition fx_work :: "nat \<Rightarrow> nat \<Rightarrow> fx_state \<Rightarrow> nat" where
  "fx_work n k s =
     (3 * n + 12) * (tally (rounds_left k) (fx_threads s) + (n - length (fx_threads s)) * k) +
     tally (rank (fx_futex s)) (fx_threads s) + main_rank n (fx_main s)"

lemma rank_taken: "tally (rank (Suc 0)) ts \<le> tally (rank 0) ts" "tally (rank 0) ts \<le> tally (rank (Suc 0)) ts + 3 * length ts"
proof -
  have "rank (Suc 0) t \<le> rank 0 t + 0" "rank 0 t \<le> rank (Suc 0) t + 3" for t
    by (auto simp: rank_def split: fx_pc.splits)
  then show "tally (rank (Suc 0)) ts \<le> tally (rank 0) ts" "tally (rank 0) ts \<le> tally (rank (Suc 0)) ts + 3 * length ts"
    using tally_le[of ts "rank (Suc 0)" "rank 0" 0] tally_le[of ts "rank 0" "rank (Suc 0)" 3] by simp_all
qed

lemma fx_thread_step_work:
  assumes inv: "fx_inv n k s" and i: "i < length (fx_threads s)" and step: "fx_thread_step k i j s = Some (Inr s')"
  shows "fx_work n k s' < fx_work n k s"
proof -
  let ?t = "fx_threads s ! i" and ?ts = "fx_threads s"
  have ok: "fx_ok k (fx_counter s) (fx_start s) ?t" and f: "fx_futex s \<le> 1" and len: "length ?ts \<le> n"
    and count: "fx_futex s = tally holding ?ts"
    using inv i by (auto simp: fx_inv_def fx_main_ok_def split: fx_main.splits)
  have le: "holding ?t \<le> fx_futex s"
    using count tally_nth[OF i, of holding] by simp
  note left = tally_update[OF i, of "rounds_left k"] and cnt = tally_update[OF i, of "rank (fx_futex s)"]
  note defs = fx_thread_step_def fx_goto_def fx_work_def rounds_left_def Let_def rank_def
  consider "fx_futex s = 0" | "fx_futex s = Suc 0"
    using f by linarith
  then have taken: "tally (rank (Suc 0)) ?ts \<le> tally (rank (fx_futex s)) ?ts"
    using rank_taken by cases simp_all
  show ?thesis
  proof (cases "fx_pc ?t")
    case X_Start
    then show ?thesis
      using step left[of "?t\<lparr>fx_pc := X_Loop\<rparr>"] cnt[of "?t\<lparr>fx_pc := X_Loop\<rparr>"] by (auto simp: defs split: if_splits)
  next
    case X_Loop
    then show ?thesis
      using step left[of "?t\<lparr>fx_pc := X_Cas\<rparr>"] cnt[of "?t\<lparr>fx_pc := X_Cas\<rparr>"]
        left[of "?t\<lparr>fx_pc := X_Ret\<rparr>"] cnt[of "?t\<lparr>fx_pc := X_Ret\<rparr>"] by (auto simp: defs split: if_splits)
  next
    case X_Cas
    then show ?thesis
      using step left[of "?t\<lparr>fx_pc := X_Wait\<rparr>"] cnt[of "?t\<lparr>fx_pc := X_Wait\<rparr>"]
        left[of "?t\<lparr>fx_pc := X_Load\<rparr>"] cnt[of "?t\<lparr>fx_pc := X_Load\<rparr>"] rank_taken(1)[of "?ts[i := ?t\<lparr>fx_pc := X_Load\<rparr>]"]
      by (auto simp: defs compare_and_swap_def split: if_splits)
  next
    case X_Wait
    then show ?thesis
      using step left[of "?t\<lparr>fx_pc := X_Sleep\<rparr>"] cnt[of "?t\<lparr>fx_pc := X_Sleep\<rparr>"]
        left[of "?t\<lparr>fx_pc := X_Cas\<rparr>"] cnt[of "?t\<lparr>fx_pc := X_Cas\<rparr>"] f
      by (auto simp: defs futex_wait_def split: if_splits)
  next
    case X_Load
    then show ?thesis
      using step left[of "?t\<lparr>fx_pc := X_Store (fx_counter s)\<rparr>"] cnt[of "?t\<lparr>fx_pc := X_Store (fx_counter s)\<rparr>"]
      by (auto simp: defs)
  next
    case (X_Store v)
    then show ?thesis
      using step left[of "?t\<lparr>fx_pc := X_Unlock\<rparr>"] cnt[of "?t\<lparr>fx_pc := X_Unlock\<rparr>"]
      by (auto simp: defs int_add_def split: if_splits)
  next
    case X_Unlock
    let ?us = "?ts[i := ?t\<lparr>fx_pc := X_Wake\<rparr>]"
    have one: "fx_futex s = Suc 0" and round: "fx_i ?t < k"
      using X_Unlock le f ok by (auto simp: holding_def fx_ok_def in_round_def)
    have "tally (rounds_left k) ?ts = Suc (tally (rounds_left k) ?us)"
      using left[of "?t\<lparr>fx_pc := X_Wake\<rparr>"] X_Unlock round by (simp add: rounds_left_def)
    moreover have "tally (rank 0) ?us \<le> tally (rank (Suc 0)) ?ts + 3 * n + 10"
      using tally_update[OF i, of "rank 0" "?t\<lparr>fx_pc := X_Wake\<rparr>"] rank_taken(2)[of ?ts] len X_Unlock by (simp add: rank_def)
    moreover have "s' = s\<lparr>fx_futex := 0, fx_threads := ?us\<rparr>"
      using step X_Unlock one by (simp add: fx_thread_step_def fx_goto_def compare_and_swap_def)
    ultimately show ?thesis
      by (simp add: fx_work_def one)
  next
    case X_Wake
    let ?t' = "\<lparr>fx_pc = X_Loop, fx_i = fx_i ?t + 1\<rparr>" and ?u = "(?ts ! j)\<lparr>fx_pc := X_Cas\<rparr>"
    obtain ts where ts: "futex_wake j ?ts = Some ts" "s' = s\<lparr>fx_threads := ts[i := ?t']\<rparr>"
      using step X_Wake by (auto simp: fx_thread_step_def)
    show ?thesis
    proof (cases "ts = ?ts")
      case True
      then show ?thesis
        using ts X_Wake left[of ?t'] cnt[of ?t'] by (auto simp: fx_work_def rounds_left_def rank_def)
    next
      case False
      then have j: "j < length ?ts" "fx_pc (?ts ! j) = X_Sleep" "ts = ?ts[j := ?u]"
        using ts(1) by (auto simp: futex_wake_def split: if_splits)
      then have same: "i < length ts" "ts ! i = ?t"
        using i X_Wake by (auto simp: nth_list_update)
      show ?thesis
        using ts j X_Wake same tally_update[OF j(1), of "rounds_left k" ?u] tally_update[OF j(1), of "rank (fx_futex s)" ?u]
          tally_update[OF same(1), of "rounds_left k" ?t'] tally_update[OF same(1), of "rank (fx_futex s)" ?t']
        by (auto simp: fx_work_def rounds_left_def rank_def split: if_splits)
    qed
  qed (insert step, simp_all add: fx_thread_step_def)
qed

lemma fx_main_step_work:
  assumes "fx_inv n k s" "fx_main_step n s = Some s'"
  shows "fx_work n k s' < fx_work n k s"
proof (cases "fx_main s")
  case (X_Create m)
  have "n - length (fx_threads s) = Suc (n - Suc (length (fx_threads s)))" if "m < n"
    using assms(1) X_Create that by (auto simp: fx_inv_def fx_main_ok_def)
  then show ?thesis
    using assms X_Create
    by (auto simp: fx_main_step_def fx_work_def main_rank_def fx_inv_def fx_main_ok_def rounds_left_def rank_def add.assoc split: if_splits)
qed (use assms in \<open>auto simp: fx_main_step_def fx_work_def main_rank_def split: if_splits\<close>)

text \<open>A state where nothing can happen is one where main has printed: no thread sleeps for ever.\<close>

lemma fx_stuck:
  assumes inv: "fx_inv n k s" and small: "n * k < 2 ^ 31" and stuck: "\<nexists>s'. fx_step n k s s'"
  shows "fx_main s = X_Print (n * k)"
proof -
  have thread: "fx_thread_step k i j s = None" if i: "i < length (fx_threads s)" for i j
  proof (cases "fx_thread_step k i j s")
    case (Some r)
    then show ?thesis
      using fx_thread_step_inv[OF inv small i Some] fx_step.thread[OF i] stuck by blast
  qed
  have still: "fx_pc t \<in> {X_Start, X_Sleep, X_Ret}" if "t \<in> set (fx_threads s)" for t
  proof -
    from that obtain i where i: "i < length (fx_threads s)" "t = fx_threads s ! i"
      by (metis in_set_conv_nth)
    show ?thesis
    proof (cases "fx_pc t")
      case X_Wake
      then have "futex_wake j (fx_threads s) = None" for j
        using thread[OF i(1), of j] i(2) by (simp add: fx_thread_step_def)
      then have False
        by (metis futex_wake_def in_set_conv_nth option.distinct(1))
      then show ?thesis ..
    qed (use thread[OF i(1)] i(2) in \<open>simp_all add: fx_thread_step_def compare_and_swap_def Let_def\<close>)
  qed
  have none: "fx_main_step n s = None"
    using stuck fx_step.main by (metis option.exhaust)
  have awake: "\<not> awake t" if "t \<in> set (fx_threads s)" for t
    using still[OF that] by (auto simp: awake_def holding_def)
  then have sleep: "fx_pc t \<noteq> X_Sleep" if "t \<in> set (fx_threads s)" for t
    using inv that by (auto simp: fx_inv_def sleepers_ok_def)
  show ?thesis
  proof (cases "fx_main s")
    case (X_Join m)
    then have m: "m < n" "fx_pc (fx_threads s ! m) \<noteq> X_Ret" "length (fx_threads s) = n" "fx_start s"
      using none inv by (auto simp: fx_main_step_def fx_inv_def fx_main_ok_def split: if_splits)
    then have "fx_pc (fx_threads s ! m) = X_Start"
      using still[OF nth_mem] sleep[OF nth_mem] by auto
    then have False
      using thread[of m 0] m by (simp add: fx_thread_step_def)
    then show ?thesis ..
  next
    case (X_Print v)
    then have "v = tally counted (fx_threads s)" "length (fx_threads s) = n" "\<forall>t \<in> set (fx_threads s). fx_pc t = X_Ret"
      using inv by (auto simp: fx_inv_def fx_main_ok_def in_set_conv_nth)
    moreover from this have "\<forall>t \<in> set (fx_threads s). counted t = k"
      using inv by (auto simp: fx_inv_def fx_ok_def counted_def)
    ultimately show ?thesis
      using tally_const[of "fx_threads s" counted k] X_Print by (simp add: mult.commute)
  qed (use none in \<open>auto simp: fx_main_step_def split: if_splits\<close>)
qed

section \<open>The program\<close>

definition fx_good :: "nat \<Rightarrow> nat \<Rightarrow> fx_state \<Rightarrow> bool" where
  "fx_good n k s \<longleftrightarrow> fx_inv n k s \<and> n * k < 2 ^ 31"

definition fx_printed :: "nat \<Rightarrow> nat \<Rightarrow> fx_state \<Rightarrow> bool" where
  "fx_printed n k s \<longleftrightarrow> fx_main s = X_Print (n * k)"

interpretation futex_run: progress "fx_step n k" "fx_good n k" "fx_work n k" "fx_printed n k" for n k
proof
  fix s s'
  assume good: "fx_good n k s"
  show "fx_step n k s s' \<Longrightarrow> fx_good n k s'"
    using fx_step_inv good by (auto simp: fx_good_def)
  show "fx_step n k s s' \<Longrightarrow> fx_work n k s' < fx_work n k s"
    using good by (auto simp: fx_good_def elim!: fx_step.cases dest: fx_thread_step_work fx_main_step_work)
  show "\<nexists>s'. fx_step n k s s' \<Longrightarrow> fx_printed n k s"
    using fx_stuck good by (auto simp: fx_good_def fx_printed_def)
qed

text \<open>
  (C22) In every interleaving of the threads at most one holds the lock, the counter never overflows, and
  the program comes to an end after boundedly many steps, whatever thread the kernel wakes: no
  wake-up is lost, and main prints the number of all rounds (600000 for 6 threads of 100000).
\<close>

theorem futex_counter_exact:
  assumes "n * k < 2 ^ 31" "(fx_step n k ^^ m) fx_init s"
  shows "m \<le> fx_work n k fx_init \<and>
    (\<forall>i < length (fx_threads s). \<forall>j e. fx_thread_step k i j s \<noteq> Some (Inl e)) \<and>
    length (filter (\<lambda>t. fx_pc t \<in> {X_Load, X_Unlock} \<or> (\<exists>v. fx_pc t = X_Store v)) (fx_threads s)) \<le> 1 \<and>
    (\<exists>s'. (fx_step n k)\<^sup>*\<^sup>* s s' \<and> fx_main s' = X_Print (n * k)) \<and>
    ((\<exists>s'. fx_step n k s s') \<or> fx_main s = X_Print (n * k))"
proof -
  have good: "fx_good n k fx_init" "fx_good n k s"
    using assms fx_inv_init futex_run.run_inv by (auto simp: fx_good_def)
  have "length (filter (\<lambda>t. fx_pc t \<in> {X_Load, X_Unlock} \<or> (\<exists>v. fx_pc t = X_Store v)) ts) = tally holding ts" for ts
    by (induction ts) (auto simp: holding_def split: fx_pc.splits)
  moreover have "tally holding (fx_threads s) \<le> 1"
    using good(2) by (simp add: fx_good_def fx_inv_def)
  moreover have "fx_thread_step k i j s \<noteq> Some (Inl e)" if "i < length (fx_threads s)" for i j e
    using fx_thread_step_inv[OF _ assms(1) that] good(2) by (fastforce simp: fx_good_def)
  ultimately show ?thesis
    using futex_run.finishes[OF assms(2) good(1)] by (simp add: fx_printed_def)
qed

theorem futex_counter_exact_witness:
  "\<exists>s. (fx_step 6 100000)\<^sup>*\<^sup>* fx_init s \<and> fx_main s = X_Print 600000"
  using futex_counter_exact[of 6 100000 0 fx_init] by simp

end
