(* ===== verification/SemEvents.thy ===== *)
theory SemEvents
  imports Prelude
begin

text \<open>
  The programs of src/lecture_examples/7_ipc/9_sem_event_source.c and 9_sem_event_cons.c: three sources
  put their lines on one message queue and count them in a semaphore each; consumers wait for one line of
  every source, under a fourth semaphore. A call of the kernel is one step.
\<close>

section \<open>Messages\<close>

text \<open>A \<open>long\<close> that is not negative; \<open>msg\<close> is a buffer of 512 bytes with any content.\<close>

definition long_bytes :: "nat \<Rightarrow> char list" where
  "long_bytes n = map (\<lambda>i. char_of (n div 256 ^ i mod 256)) [0..<8]"

definition pack_msg :: "char list \<Rightarrow> nat \<Rightarrow> char list \<Rightarrow> (char list \<times> nat) cres" where
  "pack_msg msg type data =
     (let data_size = length data
      in if 12 + data_size \<le> length msg
         then Inr (mem_write (mem_write (mem_write msg 0 (long_bytes type)) 8 (int_bytes (of_nat data_size))) 12 data,
                   12 + data_size)
         else Inl OutOfBounds)"

text \<open>
  \<open>msgsnd\<close> takes the number of bytes behind the type; it is given that of the whole message, and so reads eight
  bytes more. The result is what the kernel keeps: the type and the bytes.
\<close>

definition send_msg :: "char list \<Rightarrow> nat \<Rightarrow> char list \<Rightarrow> (nat \<times> char list) cres" where
  "send_msg msg myid data =
     rbind (pack_msg msg myid data) (\<lambda>(msg, sz).
     if 8 + sz \<le> length msg then Inr (myid, take sz (drop 8 msg)) else Inl OutOfBounds)"

text \<open>The type, the size, and the memory from \<open>data\<close> on.\<close>

definition unpack_msg :: "char list \<Rightarrow> nat \<times> nat \<times> char list" where
  "unpack_msg msg = (bytes_nat (take 8 msg), bytes_nat (take 4 (drop 8 msg)), drop 12 msg)"

definition take_first :: "nat \<Rightarrow> (nat \<times> char list) list \<Rightarrow> ((nat \<times> char list) \<times> (nat \<times> char list) list) option" where
  "take_first type q =
     (case dropWhile (\<lambda>m. fst m \<noteq> type) q of
        [] \<Rightarrow> None
      | m # rest \<Rightarrow> Some (m, takeWhile (\<lambda>m. fst m \<noteq> type) q @ rest))"

text \<open>\<open>recv_msg\<close> waits (\<open>None\<close>) while the queue has no message of the type.\<close>

definition recv_msg :: "char list \<Rightarrow> (nat \<times> char list) list \<Rightarrow> nat \<Rightarrow>
    ((nat \<times> nat \<times> char list) \<times> (nat \<times> char list) list) cres option" where
  "recv_msg msg q type =
     map_option (\<lambda>((t, text), q).
       if 8 + length text \<le> length msg
       then Inr (unpack_msg (mem_write (mem_write msg 0 (long_bytes t)) 8 text), q)
       else Inl OutOfBounds) (take_first type q)"

section \<open>Semaphores\<close>

text \<open>\<open>semop\<close> does all its operations or waits; here each adds 1 or subtracts 1 (\<open>False\<close>).\<close>

fun semop :: "nat list \<Rightarrow> (nat \<times> bool) list \<Rightarrow> nat list option" where
  "semop sems [] = Some sems"
| "semop sems ((num, up) # ops) =
     (if up then semop (sems[num := sems ! num + 1]) ops
      else if sems ! num = 0 then None
      else semop (sems[num := sems ! num - 1]) ops)"

definition lock_events :: "nat list \<Rightarrow> nat list option" where
  "lock_events sems = semop sems (map (\<lambda>i. (i, False)) [0..<4])"

definition unlock_events :: "nat list \<Rightarrow> nat list option" where
  "unlock_events sems = semop sems [(3, True)]"

definition sem_inc :: "nat list \<Rightarrow> nat \<Rightarrow> nat list option" where
  "sem_inc sems myid = semop sems [(myid - 1, True)]"

section \<open>The processes\<close>

text \<open>
  \<open>src_lines\<close> are the lines a source has still to read, \<open>src_sent\<close> says that it stands between \<open>send_msg\<close> and
  \<open>sem_inc\<close>, \<open>src_undo\<close> is what the kernel undoes at its exit. A consumer is before \<open>lock_events\<close>, before the
  \<open>recv_msg\<close> of the type \<open>i + 1\<close>, or before \<open>unlock_events\<close>.
\<close>

record event_source =
  src_lines :: "char list list"
  src_sent :: bool
  src_undo :: nat

datatype cons_pc = E_Lock | E_Read nat | E_Unlock

record ev_state =
  ev_sems :: "nat list"
  ev_queue :: "(nat \<times> char list) list"
  ev_sources :: "event_source list"
  ev_consumers :: "cons_pc list"
  ev_printed :: "(nat \<times> nat \<times> char list) list"

definition ev_init :: "char list list list \<Rightarrow> nat \<Rightarrow> ev_state" where
  "ev_init files consumers =
     \<lparr>ev_sems = [0, 0, 0, 1], ev_queue = [],
      ev_sources = map (\<lambda>ls. \<lparr>src_lines = ls, src_sent = False, src_undo = 0\<rparr>) files,
      ev_consumers = replicate consumers E_Lock, ev_printed = []\<rparr>"

text \<open>A step of the source with the id \<open>i + 1\<close>; \<open>None\<close> at the end of its input.\<close>

definition source_step :: "char list \<Rightarrow> nat \<Rightarrow> ev_state \<Rightarrow> ev_state cres option" where
  "source_step msg i s =
     (let src = ev_sources s ! i; set_src = (\<lambda>src s. s\<lparr>ev_sources := (ev_sources s)[i := src]\<rparr>) in
      if src_sent src
      then map_option (\<lambda>sems. Inr (set_src (src\<lparr>src_sent := False, src_undo := src_undo src + 1\<rparr>) (s\<lparr>ev_sems := sems\<rparr>)))
             (sem_inc (ev_sems s) (i + 1))
      else case src_lines src of
             [] \<Rightarrow> None
           | line # lines \<Rightarrow>
               Some (rbind (send_msg msg (i + 1) line) (\<lambda>m.
                 Inr (set_src (src\<lparr>src_lines := lines, src_sent := True\<rparr>) (s\<lparr>ev_queue := ev_queue s @ [m]\<rparr>)))))"

text \<open>A step of the consumer \<open>j\<close>: the loop of main with \<open>read_data\<close>.\<close>

definition consumer_step :: "char list \<Rightarrow> nat \<Rightarrow> ev_state \<Rightarrow> ev_state cres option" where
  "consumer_step msg j s =
     (let goto = (\<lambda>p s. s\<lparr>ev_consumers := (ev_consumers s)[j := p]\<rparr>) in
      case ev_consumers s ! j of
        E_Lock \<Rightarrow> map_option (\<lambda>sems. Inr (goto (E_Read 0) (s\<lparr>ev_sems := sems\<rparr>))) (lock_events (ev_sems s))
      | E_Read i \<Rightarrow>
          map_option (\<lambda>r. rbind r (\<lambda>(out, q).
              Inr (goto (if i + 1 < 3 then E_Read (i + 1) else E_Unlock)
                     (s\<lparr>ev_queue := q, ev_printed := ev_printed s @ [out]\<rparr>))))
            (recv_msg msg (ev_queue s) (i + 1))
      | E_Unlock \<Rightarrow> map_option (\<lambda>sems. Inr (goto E_Lock (s\<lparr>ev_sems := sems\<rparr>))) (unlock_events (ev_sems s)))"

inductive ev_step :: "ev_state \<Rightarrow> ev_state \<Rightarrow> bool" where
  source: "i < length (ev_sources s) \<Longrightarrow> length msg = 512 \<Longrightarrow> source_step msg i s = Some (Inr s') \<Longrightarrow> ev_step s s'"
| consumer: "j < length (ev_consumers s) \<Longrightarrow> length msg = 512 \<Longrightarrow> consumer_step msg j s = Some (Inr s') \<Longrightarrow> ev_step s s'"

text \<open>
  The exit of a source: because of \<open>SEM_UNDO\<close> the kernel takes back what it has added to its semaphore, as far as
  it is still there.
\<close>

definition source_exit :: "nat \<Rightarrow> ev_state \<Rightarrow> ev_state" where
  "source_exit i s =
     s\<lparr>ev_sems := (ev_sems s)[i := ev_sems s ! i - src_undo (ev_sources s ! i)],
       ev_sources := (ev_sources s)[i := (ev_sources s ! i)\<lparr>src_lines := [], src_undo := 0\<rparr>]\<rparr>"

end
