(* ===== verification/SemEvents_Spec.thy ===== *)
theory SemEvents_Spec
  imports SemEvents
begin

text \<open>
  What a source sends is what a consumer gets, and however the processes are interleaved the consumers
  print the first lines of all sources, then the second lines, and so on, until a source has no more.
\<close>

section \<open>Messages\<close>

lemma length_long_bytes [simp]: "length (long_bytes n) = 8"
  by (simp add: long_bytes_def)

lemma bytes_nat_long_bytes: "n < 256 \<Longrightarrow> bytes_nat (long_bytes n) = n"
  by (simp add: long_bytes_def upt_rec)

definition message_of :: "nat \<Rightarrow> nat \<times> char list \<Rightarrow> char list \<Rightarrow> bool" where
  "message_of type m line \<longleftrightarrow>
     (\<exists>junk. length junk = 8 \<and> m = (type, int_bytes (of_nat (length line)) @ line @ junk))"

lemma send_msg_ok:
  assumes "length msg = 512" "length line \<le> 492"
  shows "\<exists>m. send_msg msg type line = Inr m \<and> message_of type m line"
proof -
  let ?n = "length line" and ?i = "int_bytes (of_nat (length line))"
  have 1: "mem_write msg 0 (long_bytes type) = long_bytes type @ drop 8 msg"
    by (simp add: mem_write_def)
  have 2: "mem_write (long_bytes type @ drop 8 msg) 8 ?i = long_bytes type @ ?i @ drop 12 msg"
    by (simp add: mem_write_def)
  have 3: "mem_write (long_bytes type @ ?i @ drop 12 msg) 12 line = long_bytes type @ ?i @ line @ drop (12 + ?n) msg"
    by (simp add: mem_write_def add.commute)
  have "take (12 + ?n) (drop 8 (long_bytes type @ ?i @ line @ drop (12 + ?n) msg)) =
      ?i @ line @ take 8 (drop (12 + ?n) msg)"
    by simp
  then show ?thesis
    using assms by (simp add: send_msg_def pack_msg_def Let_def 1 2 3 message_of_def)
qed

definition printed_line :: "nat \<Rightarrow> nat \<times> nat \<times> char list \<Rightarrow> char list \<Rightarrow> bool" where
  "printed_line type out line \<longleftrightarrow> (\<exists>rest. out = (type, length line, line @ rest))"

lemma unpack_ok:
  assumes "length msg = 512" "length line \<le> 492" "type < 256" "message_of type (t, text) line"
  shows "8 + length text \<le> 512 \<and> t = type \<and>
    printed_line type (unpack_msg (mem_write (mem_write msg 0 (long_bytes t)) 8 text)) line"
proof -
  obtain junk where junk: "length junk = 8" "t = type" "text = int_bytes (of_nat (length line)) @ line @ junk"
    using assms(4) by (auto simp: message_of_def)
  have 1: "mem_write msg 0 (long_bytes type) = long_bytes type @ drop 8 msg"
    by (simp add: mem_write_def)
  have 2: "mem_write (long_bytes type @ drop 8 msg) 8 text = long_bytes type @ text @ drop (8 + length text) msg"
    by (simp add: mem_write_def add.commute)
  have "unat (of_nat (length line) :: i32) = length line"
    using assms(2) by (simp add: unat_of_nat)
  then show ?thesis
    using assms(2,3) junk(1) unfolding junk(2) 1 2 unfolding unpack_msg_def printed_line_def junk(3)
    by (simp add: bytes_nat_long_bytes)
qed

lemma take_first_ok:
  assumes "filter (\<lambda>m. fst m = type) q = m # ms"
  shows "\<exists>q'. take_first type q = Some (m, q') \<and> filter (\<lambda>m. fst m = type) q' = ms \<and>
    (\<forall>t. t \<noteq> type \<longrightarrow> filter (\<lambda>m. fst m = t) q' = filter (\<lambda>m. fst m = t) q)"
proof -
  obtain as bs where q: "q = as @ m # bs" "\<forall>a \<in> set as. fst a \<noteq> type" "fst m = type" "ms = filter (\<lambda>m. fst m = type) bs"
    using assms by (auto simp: filter_eq_Cons_iff)
  have "dropWhile (\<lambda>m. fst m \<noteq> type) q = m # bs" "takeWhile (\<lambda>m. fst m \<noteq> type) q = as"
    using q(2,3) unfolding q(1) by (simp_all add: dropWhile_append2 takeWhile_append2)
  then show ?thesis
    using q by (auto simp: take_first_def filter_empty_conv)
qed

lemma recv_msg_ok:
  assumes "filter (\<lambda>m. fst m = type) q = m # ms" "message_of type m line"
    and "length msg = 512" "length line \<le> 492" "type < 256"
  shows "\<exists>out q'. recv_msg msg q type = Some (Inr (out, q')) \<and> printed_line type out line \<and>
    filter (\<lambda>m. fst m = type) q' = ms \<and> (\<forall>t. t \<noteq> type \<longrightarrow> filter (\<lambda>m. fst m = t) q' = filter (\<lambda>m. fst m = t) q)"
proof -
  obtain q' where "take_first type q = Some (m, q')" "filter (\<lambda>m. fst m = type) q' = ms"
      "\<forall>t. t \<noteq> type \<longrightarrow> filter (\<lambda>m. fst m = t) q' = filter (\<lambda>m. fst m = t) q"
    using take_first_ok[OF assms(1)] by blast
  then show ?thesis
    using unpack_ok[OF assms(3-5), of "fst m" "snd m"] assms(2,3)
    by (cases m) (auto simp: recv_msg_def)
qed

section \<open>Semaphores\<close>

lemma four: "length xs = 4 \<Longrightarrow> \<exists>a b c d. xs = [a, b, c, d]"
  by (auto simp: numeral_eq_Suc length_Suc_conv)

lemma lock_events_ok:
  "length sems = 4 \<Longrightarrow>
     lock_events sems = (if \<forall>i < 4. 0 < sems ! i then Some (map (\<lambda>n. n - 1) sems) else None)"
  by (drule four) (auto simp: lock_events_def upt_rec numeral_eq_Suc All_less_Suc)

section \<open>The invariant\<close>

text \<open>
  \<open>L\<close> is the number of locks so far. The \<open>p\<close>-th printed line is the line \<open>p div 3\<close> of the source \<open>p mod 3\<close>, so that
  after \<open>p\<close> lines \<open>(p + 2 - i) div 3\<close> are of the source \<open>i\<close>.
\<close>

definition sent_of :: "char list list \<Rightarrow> event_source \<Rightarrow> nat" where
  "sent_of ls src = length ls - length (src_lines src)"

definition source_ok :: "char list list \<Rightarrow> nat \<Rightarrow> nat \<Rightarrow> event_source \<Rightarrow> bool" where
  "source_ok ls L sem src \<longleftrightarrow>
     src_lines src = drop (sent_of ls src) ls \<and> sem + L + (if src_sent src then 1 else 0) = sent_of ls src"

definition queue_ok :: "char list list \<Rightarrow> nat \<Rightarrow> nat \<Rightarrow> (nat \<times> char list) list \<Rightarrow> event_source \<Rightarrow> bool" where
  "queue_ok ls i P q src \<longleftrightarrow>
     list_all2 (message_of (i + 1)) (filter (\<lambda>m. fst m = i + 1) q) (seg ls ((P + 2 - i) div 3) (sent_of ls src))"

definition printed_ok :: "char list list list \<Rightarrow> (nat \<times> nat \<times> char list) list \<Rightarrow> bool" where
  "printed_ok files out \<longleftrightarrow>
     (\<forall>p < length out. p div 3 < length (files ! (p mod 3)) \<and>
        printed_line (p mod 3 + 1) (out ! p) (files ! (p mod 3) ! (p div 3)))"

definition in_section :: "cons_pc \<Rightarrow> nat" where
  "in_section p = (if p = E_Lock then 0 else 1)"

definition section_ok :: "nat \<Rightarrow> nat \<Rightarrow> cons_pc list \<Rightarrow> bool" where
  "section_ok L P pcs \<longleftrightarrow>
     (\<forall>i. E_Read i \<in> set pcs \<longrightarrow> i = P mod 3 \<and> L = P div 3 + 1) \<and> (E_Unlock \<in> set pcs \<longrightarrow> P = 3 * L) \<and>
     ((\<forall>p \<in> set pcs. p = E_Lock) \<longrightarrow> P = 3 * L)"

definition ev_inv :: "char list list list \<Rightarrow> nat \<Rightarrow> nat \<Rightarrow> ev_state \<Rightarrow> bool" where
  "ev_inv files n L s \<longleftrightarrow>
     length (ev_sources s) = 3 \<and> length (ev_sems s) = 4 \<and> length (ev_consumers s) = n \<and>
     ev_sems s ! 3 + tally in_section (ev_consumers s) = 1 \<and>
     (\<forall>i < 3. source_ok (files ! i) L (ev_sems s ! i) (ev_sources s ! i) \<and>
        queue_ok (files ! i) i (length (ev_printed s)) (ev_queue s) (ev_sources s ! i)) \<and>
     printed_ok files (ev_printed s) \<and> section_ok L (length (ev_printed s)) (ev_consumers s)"

definition files_fit :: "char list list list \<Rightarrow> bool" where
  "files_fit files \<longleftrightarrow> length files = 3 \<and> (\<forall>ls \<in> set files. \<forall>line \<in> set ls. length line \<le> 492)"

lemma ev_init_inv:
  assumes "length files = 3"
  shows "ev_inv files n 0 (ev_init files n)"
proof -
  have sems: "[0, 0, 0, Suc 0] ! i = 0" if "i < 3" for i :: nat
    using that by (auto simp: nth_Cons' less_Suc_eq numeral_3_eq_3)
  then show ?thesis
    using assms tally_const[of "replicate n E_Lock" in_section 0]
    by (simp add: ev_inv_def ev_init_def source_ok_def sent_of_def queue_ok_def printed_ok_def section_ok_def in_section_def)
qed

lemma seg_snoc: "i \<le> j \<Longrightarrow> j < length xs \<Longrightarrow> seg xs i (Suc j) = seg xs i j @ [xs ! j]"
  by (simp add: seg_def take_Suc_conv_app_nth)

text \<open>A source whose line is sent, and one whose semaphore is incremented.\<close>

lemma source_send:
  assumes "source_ok ls L sem src" "\<not> src_sent src" "src_lines src = line # lines"
  shows "sent_of ls src < length ls" "line = ls ! sent_of ls src"
    "sent_of ls (src\<lparr>src_lines := lines, src_sent := True\<rparr>) = Suc (sent_of ls src)"
    "source_ok ls L sem (src\<lparr>src_lines := lines, src_sent := True\<rparr>)"
proof -
  have d: "drop (sent_of ls src) ls = line # lines"
    using assms(1,3) by (simp add: source_ok_def)
  then show t: "sent_of ls src < length ls"
    by (metis drop_all list.distinct(1) not_le)
  have "drop (Suc (sent_of ls src)) ls = lines"
    using d by (metis drop_Suc list.sel(3) tl_drop)
  moreover show "line = ls ! sent_of ls src"
    using d t by (metis Cons_nth_drop_Suc list.inject)
  moreover have "Suc (length lines) + sent_of ls src = length ls"
    using arg_cong[OF d, of length] t by simp
  ultimately show "sent_of ls (src\<lparr>src_lines := lines, src_sent := True\<rparr>) = Suc (sent_of ls src)"
      "source_ok ls L sem (src\<lparr>src_lines := lines, src_sent := True\<rparr>)"
    using assms(1,2) by (auto simp: source_ok_def sent_of_def)
qed

lemma section_le: "section_ok L P pcs \<Longrightarrow> P \<le> 3 * L"
proof -
  assume ok: "section_ok L P pcs"
  show ?thesis
  proof (cases "\<forall>p \<in> set pcs. p = E_Lock")
    case True
    then show ?thesis
      using ok by (simp add: section_ok_def)
  next
    case False
    then obtain p where "p \<in> set pcs" "p \<noteq> E_Lock"
      by blast
    then consider k where "E_Read k \<in> set pcs" | "E_Unlock \<in> set pcs"
      by (metis cons_pc.exhaust)
    then have "L = P div 3 + 1 \<or> P = 3 * L"
      using ok unfolding section_ok_def by cases blast+
    then show ?thesis
      by linarith
  qed
qed

lemma taken_le: "section_ok L P pcs \<Longrightarrow> (P + 2 - i) div 3 \<le> L"
  using section_le[of L P pcs] by linarith

lemma source_step_ok:
  assumes inv: "ev_inv files n L s" and fit: "files_fit files" and i: "i < 3" and msg: "length msg = 512"
    and step: "source_step msg i s = Some r"
  shows "\<exists>s'. r = Inr s' \<and> ev_inv files n L s'"
proof -
  let ?src = "ev_sources s ! i" and ?ls = "files ! i"
  have ok: "source_ok ?ls L (ev_sems s ! i) ?src" "queue_ok ?ls i (length (ev_printed s)) (ev_queue s) ?src"
    and len: "length (ev_sources s) = 3" "length (ev_sems s) = 4"
    using inv i by (auto simp: ev_inv_def)
  show ?thesis
  proof (cases "src_sent ?src")
    case True
    let ?new = "?src\<lparr>src_sent := False, src_undo := src_undo ?src + 1\<rparr>"
    have "source_ok ?ls L (ev_sems s ! i + 1) ?new" "queue_ok ?ls i (length (ev_printed s)) (ev_queue s) ?new"
      using ok True by (simp_all add: source_ok_def queue_ok_def sent_of_def)
    then have "ev_inv files n L (s\<lparr>ev_sems := (ev_sems s)[i := ev_sems s ! i + 1], ev_sources := (ev_sources s)[i := ?new]\<rparr>)"
      using inv i unfolding ev_inv_def by (simp add: nth_list_update)
    then show ?thesis
      using step True by (auto simp: source_step_def sem_inc_def Let_def)
  next
    case False
    then obtain line lines where lines: "src_lines ?src = line # lines"
      using step by (auto simp: source_step_def Let_def split: list.splits)
    let ?new = "?src\<lparr>src_lines := lines, src_sent := True\<rparr>"
    note src = source_send[OF ok(1) False lines]
    have "length line \<le> 492"
      using fit i src(1,2) nth_mem[of i files] nth_mem[OF src(1)] unfolding files_fit_def by metis
    then obtain m where m: "send_msg msg (i + 1) line = Inr m" "message_of (i + 1) m line"
      using send_msg_ok[OF msg, of line "i + 1"] by blast
    have fst: "fst m = i + 1"
      using m(2) by (auto simp: message_of_def)
    have "(length (ev_printed s) + 2 - i) div 3 \<le> sent_of ?ls ?src"
      using taken_le[of L "length (ev_printed s)" "ev_consumers s" i] ok(1) inv by (auto simp: source_ok_def ev_inv_def)
    then have "queue_ok ?ls i (length (ev_printed s)) (ev_queue s @ [m]) ?new"
      using ok(2) m(2) fst src(1,2) unfolding queue_ok_def src(3) by (simp add: seg_snoc list_all2_appendI)
    moreover have "queue_ok ls j P (ev_queue s @ [m]) src'" if "queue_ok ls j P (ev_queue s) src'" "j \<noteq> i" for ls j P src'
      using that fst by (simp add: queue_ok_def)
    ultimately have "ev_inv files n L (s\<lparr>ev_queue := ev_queue s @ [m], ev_sources := (ev_sources s)[i := ?new]\<rparr>)"
      using inv i src(4) unfolding ev_inv_def by (simp add: nth_list_update)
    then show ?thesis
      using step False lines m(1) by (auto simp: source_step_def Let_def)
  qed
qed

section \<open>The consumers\<close>

text \<open>While a consumer is in its section no other one is.\<close>

lemma section_alone:
  assumes "tally in_section pcs \<le> 1" "j < length pcs" "pcs ! j \<noteq> E_Lock" "p \<in> set (pcs[j := q])"
  shows "p = q \<or> p = E_Lock"
proof -
  obtain i where i: "i < length pcs" "p = pcs[j := q] ! i"
    using assms(4) by (metis in_set_conv_nth length_list_update)
  show ?thesis
  proof (cases "i = j")
    case False
    then show ?thesis
      using tally_two[OF i(1) assms(2), of in_section] assms(1,3) i by (auto simp: in_section_def split: if_splits)
  qed (use i assms(2) in simp)
qed

lemma section_update:
  assumes "tally in_section pcs \<le> 1" "j < length pcs" "pcs ! j \<noteq> E_Lock"
    and "\<And>i. q = E_Read i \<Longrightarrow> i = P mod 3 \<and> L = P div 3 + 1" "q = E_Unlock \<or> q = E_Lock \<Longrightarrow> P = 3 * L"
  shows "section_ok L P (pcs[j := q])"
proof -
  have "q \<in> set (pcs[j := q])"
    using assms(2) by (rule set_update_memI)
  then show ?thesis
    using section_alone[OF assms(1-3), of _ q] assms(4,5) unfolding section_ok_def
    by (metis cons_pc.distinct(1,3,5) cons_pc.exhaust)
qed

lemma consumer_lock_ok:
  assumes inv: "ev_inv files n L s" and j: "j < n" "ev_consumers s ! j = E_Lock"
    and lock: "\<forall>i < 4. 0 < ev_sems s ! i"
  shows "ev_inv files n (L + 1) (s\<lparr>ev_sems := map (\<lambda>n. n - 1) (ev_sems s), ev_consumers := (ev_consumers s)[j := E_Read 0]\<rparr>)"
proof -
  let ?pcs = "ev_consumers s" and ?P = "length (ev_printed s)"
  have len: "length (ev_sems s) = 4" "j < length ?pcs"
    using inv j by (auto simp: ev_inv_def)
  have "0 < ev_sems s ! 3"
    using lock by simp
  then have one: "ev_sems s ! 3 = 1" "tally in_section ?pcs = 0"
    using inv by (auto simp: ev_inv_def)
  then have all: "\<forall>p \<in> set ?pcs. p = E_Lock"
    using tally_pos[of in_section ?pcs] by (auto simp: in_section_def split: if_splits)
  then have P: "?P = 3 * L"
    using inv by (simp add: ev_inv_def section_ok_def)
  have "section_ok (L + 1) ?P (?pcs[j := E_Read 0])"
    using all P set_update_subset_insert[of ?pcs j "E_Read 0"] set_update_memI[OF len(2), of "E_Read 0"]
    by (auto simp: section_ok_def)
  moreover have "tally in_section (?pcs[j := E_Read 0]) = 1"
    using tally_update[OF len(2), of in_section "E_Read 0"] one(2) j(2) by (simp add: in_section_def)
  moreover have "source_ok ls (L + 1) (k - 1) src" if "source_ok ls L k src" "0 < k" for ls k src
    using that by (simp add: source_ok_def)
  ultimately show ?thesis
    using inv lock len one unfolding ev_inv_def by simp
qed

lemma taken_next:
  fixes P i :: nat
  shows "i = P mod 3 \<Longrightarrow> (P + 2 - i) div 3 = P div 3" "i = P mod 3 \<Longrightarrow> (P + 1 + 2 - i) div 3 = P div 3 + 1"
    "i \<noteq> P mod 3 \<Longrightarrow> i < 3 \<Longrightarrow> (P + 1 + 2 - i) div 3 = (P + 2 - i) div 3"
proof -
  define a r where "a = P div 3" "r = P mod 3"
  then have P: "P = 3 * a + r" and r: "r = 0 \<or> r = 1 \<or> r = 2"
    by auto
  show "i = P mod 3 \<Longrightarrow> (P + 2 - i) div 3 = P div 3" "i = P mod 3 \<Longrightarrow> (P + 1 + 2 - i) div 3 = P div 3 + 1"
    using r by (auto simp: P)
  have "i < 3 \<Longrightarrow> i = 0 \<or> i = 1 \<or> i = 2"
    by linarith
  moreover have "Suc (3 * a) div 3 = a" "Suc (Suc (3 * a)) div 3 = a"
    by (rule div_nat_eqI; simp)+
  ultimately show "i \<noteq> P mod 3 \<Longrightarrow> i < 3 \<Longrightarrow> (P + 1 + 2 - i) div 3 = (P + 2 - i) div 3"
    using r by (auto simp: P)
qed

lemma consumer_read_ok:
  assumes inv: "ev_inv files n L s" and fit: "files_fit files" and j: "j < n" "ev_consumers s ! j = E_Read i"
    and msg: "length msg = 512"
  shows "\<exists>out q. recv_msg msg (ev_queue s) (i + 1) = Some (Inr (out, q)) \<and>
    ev_inv files n L (s\<lparr>ev_queue := q, ev_printed := ev_printed s @ [out],
      ev_consumers := (ev_consumers s)[j := if i + 1 < 3 then E_Read (i + 1) else E_Unlock]\<rparr>)"
proof -
  let ?pcs = "ev_consumers s" and ?P = "length (ev_printed s)" and ?ls = "files ! i"
  let ?q = "if i + 1 < 3 then E_Read (i + 1) else E_Unlock" and ?sent = "sent_of (files ! i) (ev_sources s ! i)"
  have jlen: "j < length ?pcs" and le1: "tally in_section ?pcs \<le> 1"
    using inv j(1) by (auto simp: ev_inv_def)
  have "E_Read i \<in> set ?pcs"
    using jlen j(2) by (metis nth_mem)
  then have pos: "i = ?P mod 3" "L = ?P div 3 + 1"
    using inv by (auto simp: ev_inv_def section_ok_def)
  have i: "i < 3"
    using pos(1) by simp
  have src: "source_ok ?ls L (ev_sems s ! i) (ev_sources s ! i)" "queue_ok ?ls i ?P (ev_queue s) (ev_sources s ! i)"
    using inv i by (auto simp: ev_inv_def)
  have a: "?P div 3 < ?sent" "?sent \<le> length ?ls"
    using src(1) pos(2) by (auto simp: source_ok_def sent_of_def split: if_splits)
  then have line: "?P div 3 < length ?ls"
    by simp
  have "seg ?ls ((?P + 2 - i) div 3) ?sent = ?ls ! (?P div 3) # seg ?ls (?P div 3 + 1) ?sent"
    using a by (subst taken_next(1)[OF pos(1)], subst seg_Cons) auto
  then obtain m ms where m: "filter (\<lambda>m. fst m = i + 1) (ev_queue s) = m # ms" "message_of (i + 1) m (?ls ! (?P div 3))"
      "list_all2 (message_of (i + 1)) ms (seg ?ls (?P div 3 + 1) ?sent)"
    using src(2) unfolding queue_ok_def by (auto simp: list_all2_Cons2)
  have "length (?ls ! (?P div 3)) \<le> 492"
    using fit i line nth_mem[of i files] nth_mem[OF line] unfolding files_fit_def by metis
  then obtain out q where out: "recv_msg msg (ev_queue s) (i + 1) = Some (Inr (out, q))"
      "printed_line (i + 1) out (?ls ! (?P div 3))" "filter (\<lambda>m. fst m = i + 1) q = ms"
      "\<forall>t. t \<noteq> i + 1 \<longrightarrow> filter (\<lambda>m. fst m = t) q = filter (\<lambda>m. fst m = t) (ev_queue s)"
    using recv_msg_ok[OF m(1,2) msg] i by fastforce
  have "queue_ok (files ! k) k (?P + 1) q (ev_sources s ! k)" if k: "k < 3" for k
  proof (cases "k = i")
    case True
    then show ?thesis
      using m(3) out(3) unfolding queue_ok_def True taken_next(2)[OF pos(1)] by simp
  next
    case False
    then have "k \<noteq> ?P mod 3"
      using pos(1) by simp
    moreover have "queue_ok (files ! k) k ?P (ev_queue s) (ev_sources s ! k)"
      using inv k by (simp add: ev_inv_def)
    ultimately show ?thesis
      using False out(4) unfolding queue_ok_def taken_next(3)[OF \<open>k \<noteq> ?P mod 3\<close> k] by simp
  qed
  moreover have "printed_ok files (ev_printed s @ [out])"
    using inv out(2) line pos(1) by (auto simp: ev_inv_def printed_ok_def nth_append less_Suc_eq)
  moreover have "section_ok L (?P + 1) (?pcs[j := ?q])"
  proof (rule section_update[OF le1 jlen])
    show "?pcs ! j \<noteq> E_Lock"
      using j(2) by simp
  qed (use pos in \<open>auto split: if_splits\<close>; presburger)+
  moreover have "tally in_section (?pcs[j := ?q]) = tally in_section ?pcs"
  proof -
    have "in_section ?q = 1" "in_section (?pcs ! j) = 1"
      using j(2) by (simp_all add: in_section_def)
    then show ?thesis
      using tally_update[OF jlen, of in_section ?q] by (simp only: add_right_cancel)
  qed
  ultimately have "ev_inv files n L (s\<lparr>ev_queue := q, ev_printed := ev_printed s @ [out], ev_consumers := ?pcs[j := ?q]\<rparr>)"
    using inv unfolding ev_inv_def by simp
  then show ?thesis
    using out(1) by blast
qed

lemma consumer_unlock_ok:
  assumes inv: "ev_inv files n L s" and j: "j < n" "ev_consumers s ! j = E_Unlock"
  shows "ev_inv files n L (s\<lparr>ev_sems := (ev_sems s)[3 := ev_sems s ! 3 + 1], ev_consumers := (ev_consumers s)[j := E_Lock]\<rparr>)"
proof -
  let ?pcs = "ev_consumers s" and ?P = "length (ev_printed s)"
  have jlen: "j < length ?pcs" and le1: "tally in_section ?pcs \<le> 1"
    using inv j(1) by (auto simp: ev_inv_def)
  have "E_Unlock \<in> set ?pcs"
    using jlen j(2) by (metis nth_mem)
  then have P: "?P = 3 * L"
    using inv by (auto simp: ev_inv_def section_ok_def)
  have "section_ok L ?P (?pcs[j := E_Lock])"
    by (rule section_update[OF le1 jlen]) (use P j(2) in auto)
  moreover have "tally in_section (?pcs[j := E_Lock]) + 1 = tally in_section ?pcs"
    using tally_update[OF jlen, of in_section E_Lock] j(2) by (simp add: in_section_def)
  ultimately show ?thesis
    using inv unfolding ev_inv_def by simp
qed

section \<open>Every schedule\<close>

definition source_weight :: "event_source \<Rightarrow> nat" where
  "source_weight src = 8 * length (src_lines src) + (if src_sent src then 7 else 0)"

definition cons_rank :: "cons_pc \<Rightarrow> nat" where
  "cons_rank p = (case p of E_Lock \<Rightarrow> 0 | E_Read i \<Rightarrow> 4 - i | E_Unlock \<Rightarrow> 1)"

definition ev_work :: "ev_state \<Rightarrow> nat" where
  "ev_work s = tally source_weight (ev_sources s) + 6 * (ev_sems s ! 0 + ev_sems s ! 1 + ev_sems s ! 2) +
     tally cons_rank (ev_consumers s)"

lemma source_step_work:
  assumes "length (ev_sources s) = 3" "length (ev_sems s) = 4" "i < 3" "source_step msg i s = Some (Inr s')"
  shows "ev_work s' < ev_work s"
proof -
  let ?src = "ev_sources s ! i"
  have i: "i < length (ev_sources s)" "i = 0 \<or> i = 1 \<or> i = 2"
    using assms(1,3) by auto
  note upd = tally_update[OF i(1), of source_weight]
  show ?thesis
  proof (cases "src_sent ?src")
    case True
    then show ?thesis
      using assms(2,4) i(2) upd[of "?src\<lparr>src_sent := False, src_undo := src_undo ?src + 1\<rparr>"]
      by (auto simp: source_step_def sem_inc_def ev_work_def source_weight_def Let_def)
  next
    case False
    then show ?thesis
      using assms(4) upd[of "?src\<lparr>src_lines := tl (src_lines ?src), src_sent := True\<rparr>"]
      by (auto simp: source_step_def ev_work_def source_weight_def Let_def res_simps split: list.splits)
  qed
qed

lemma ev_invD:
  assumes "ev_inv files n L s"
  shows ev_inv_len: "length (ev_sources s) = 3" "length (ev_sems s) = 4" "length (ev_consumers s) = n"
    and ev_inv_mutex: "ev_sems s ! 3 + tally in_section (ev_consumers s) = 1"
    and ev_inv_source: "i < 3 \<Longrightarrow> source_ok (files ! i) L (ev_sems s ! i) (ev_sources s ! i)"
    and ev_inv_section: "section_ok L (length (ev_printed s)) (ev_consumers s)"
    and ev_inv_printed: "printed_ok files (ev_printed s)"
  using assms by (simp_all add: ev_inv_def)

lemma section_read: "section_ok L P pcs \<Longrightarrow> E_Read i \<in> set pcs \<Longrightarrow> i < 3"
  unfolding section_ok_def by (metis mod_less_divisor zero_less_numeral)

lemma consumer_okI:
  "r = Inr s' \<Longrightarrow> ev_inv files n L' s' \<Longrightarrow> ev_work s' < ev_work s \<Longrightarrow>
     \<exists>s' L'. r = Inr s' \<and> ev_inv files n L' s' \<and> ev_work s' < ev_work s"
  by blast

lemma consumer_step_ok:
  assumes inv: "ev_inv files n L s" and fit: "files_fit files" and j: "j < n" and msg: "length msg = 512"
    and step: "consumer_step msg j s = Some r"
  shows "\<exists>s' L'. r = Inr s' \<and> ev_inv files n L' s' \<and> ev_work s' < ev_work s"
proof -
  let ?pcs = "ev_consumers s"
  have jlen: "j < length ?pcs" and sems: "length (ev_sems s) = 4"
    using inv j by (auto simp: ev_inv_def)
  note upd = tally_update[OF jlen, of cons_rank]
  show ?thesis
  proof (cases "?pcs ! j")
    case E_Lock
    have lock: "\<forall>i < 4. 0 < ev_sems s ! i"
      using step sems E_Lock by (auto simp: consumer_step_def lock_events_ok split: if_splits)
    show ?thesis
    proof (rule consumer_okI[OF _ consumer_lock_ok[OF inv j E_Lock lock]])
      show "r = Inr (s\<lparr>ev_sems := map (\<lambda>n. n - 1) (ev_sems s), ev_consumers := ?pcs[j := E_Read 0]\<rparr>)"
        using step E_Lock lock sems by (simp add: consumer_step_def lock_events_ok)
      have "0 < ev_sems s ! 0" "0 < ev_sems s ! 1" "0 < ev_sems s ! 2"
        using lock by simp_all
      then show "ev_work (s\<lparr>ev_sems := map (\<lambda>n. n - 1) (ev_sems s), ev_consumers := ?pcs[j := E_Read 0]\<rparr>) < ev_work s"
        using upd[of "E_Read 0"] E_Lock sems by (simp add: ev_work_def cons_rank_def)
    qed
  next
    case (E_Read i)
    let ?q = "if i + 1 < 3 then E_Read (i + 1) else E_Unlock"
    from consumer_read_ok[OF inv fit j E_Read msg] obtain out q where read:
      "recv_msg msg (ev_queue s) (i + 1) = Some (Inr (out, q))"
      "ev_inv files n L (s\<lparr>ev_queue := q, ev_printed := ev_printed s @ [out], ev_consumers := ?pcs[j := ?q]\<rparr>)"
      by (elim exE conjE)
    show ?thesis
    proof (rule consumer_okI[OF _ read(2)])
      show "r = Inr (s\<lparr>ev_queue := q, ev_printed := ev_printed s @ [out], ev_consumers := ?pcs[j := ?q]\<rparr>)"
        using step E_Read read(1) by (simp add: consumer_step_def)
      have "E_Read i \<in> set ?pcs"
        using jlen E_Read by (metis nth_mem)
      then have "i < 3"
        by (rule section_read[OF ev_inv_section[OF inv]])
      then have "cons_rank ?q < cons_rank (?pcs ! j)"
        by (auto simp: cons_rank_def E_Read)
      then have "tally cons_rank (?pcs[j := ?q]) < tally cons_rank ?pcs"
        using upd[of ?q] by linarith
      then show "ev_work (s\<lparr>ev_queue := q, ev_printed := ev_printed s @ [out], ev_consumers := ?pcs[j := ?q]\<rparr>) < ev_work s"
        by (simp add: ev_work_def)
    qed
  next
    case E_Unlock
    show ?thesis
    proof (rule consumer_okI[OF _ consumer_unlock_ok[OF inv j E_Unlock]])
      show "r = Inr (s\<lparr>ev_sems := (ev_sems s)[3 := ev_sems s ! 3 + 1], ev_consumers := ?pcs[j := E_Lock]\<rparr>)"
        using step E_Unlock by (simp add: consumer_step_def unlock_events_def)
      show "ev_work (s\<lparr>ev_sems := (ev_sems s)[3 := ev_sems s ! 3 + 1], ev_consumers := ?pcs[j := E_Lock]\<rparr>) < ev_work s"
        using upd[of E_Lock] E_Unlock by (simp add: ev_work_def cons_rank_def)
    qed
  qed
qed

definition ev_good :: "char list list list \<Rightarrow> nat \<Rightarrow> ev_state \<Rightarrow> bool" where
  "ev_good files n s \<longleftrightarrow> files_fit files \<and> 0 < n \<and> (\<exists>L. ev_inv files n L s)"

definition ev_done :: "char list list list \<Rightarrow> ev_state \<Rightarrow> bool" where
  "ev_done files s \<longleftrightarrow> length (ev_printed s) = 3 * Min (length ` set files)"

lemma ev_step_ok: "ev_good files n s \<Longrightarrow> ev_step s s' \<Longrightarrow> ev_good files n s' \<and> ev_work s' < ev_work s"
proof (erule ev_step.cases)
  fix i msg t t'
  assume good: "ev_good files n s" and t: "s = t" "s' = t'" "length (msg :: char list) = 512"
  then obtain L where inv: "ev_inv files n L s" "files_fit files" "0 < n"
    by (auto simp: ev_good_def)
  then have len: "length (ev_sources s) = 3" "length (ev_sems s) = 4" "length (ev_consumers s) = n"
    by (auto simp: ev_inv_def)
  show "ev_good files n s' \<and> ev_work s' < ev_work s" if "i < length (ev_sources t)" "source_step msg i t = Some (Inr t')"
    using source_step_ok[OF inv(1,2) _ t(3), of i] source_step_work[OF len(1,2), of i msg s'] that len t(1,2) inv(2,3)
    by (auto simp: ev_good_def)
  show "ev_good files n s' \<and> ev_work s' < ev_work s" if "i < length (ev_consumers t)" "consumer_step msg i t = Some (Inr t')"
    using consumer_step_ok[OF inv(1,2) _ t(3), of i] that len t(1,2) inv(2,3) by (auto simp: ev_good_def)
qed

lemma ev_stuck:
  assumes good: "ev_good files n s" and stuck: "\<nexists>s'. ev_step s s'"
  shows "ev_done files s"
proof -
  obtain L where inv: "ev_inv files n L s" and fit: "files_fit files" and n: "0 < n"
    using good by (auto simp: ev_good_def)
  define msg where "msg = replicate 512 ch_nul"
  have msg: "length msg = 512"
    by (simp add: msg_def)
  note len = ev_inv_len[OF inv]
  have source: "source_step msg i s = None" if "i < 3" for i
  proof (cases "source_step msg i s")
    case (Some r)
    then show ?thesis
      using source_step_ok[OF inv fit that msg Some] stuck ev_step.source[OF _ msg, of i s] len(1) that Some by auto
  qed
  have consumer: "consumer_step msg j s = None" if "j < n" for j
  proof (cases "consumer_step msg j s")
    case (Some r)
    then show ?thesis
      using consumer_step_ok[OF inv fit that msg Some] stuck ev_step.consumer[OF _ msg, of j s] len(3) that Some by auto
  qed
  have sent: "ev_sems s ! i + L = length (files ! i)" if i: "i < 3" for i
  proof -
    have "\<not> src_sent (ev_sources s ! i)" "src_lines (ev_sources s ! i) = []"
      using source[OF i] by (auto simp: source_step_def sem_inc_def Let_def split: if_splits list.splits)
    then show ?thesis
      using ev_inv_source[OF inv i] by (simp add: source_ok_def sent_of_def)
  qed
  have pc: "ev_consumers s ! j = E_Lock" if j: "j < n" for j
  proof (cases "ev_consumers s ! j")
    case (E_Read i)
    then show ?thesis
      using consumer[OF j] consumer_read_ok[OF inv fit j E_Read msg] by (auto simp: consumer_step_def)
  qed (use consumer[OF j] in \<open>simp_all add: consumer_step_def unlock_events_def\<close>)
  then have all: "\<forall>p \<in> set (ev_consumers s). p = E_Lock"
    using len(3) by (auto simp: in_set_conv_nth)
  then have P: "length (ev_printed s) = 3 * L" and "ev_sems s ! 3 = 1"
    using ev_inv_section[OF inv] ev_inv_mutex[OF inv] tally_const[of "ev_consumers s" in_section 0]
    by (simp_all add: section_ok_def in_section_def)
  then obtain i where i: "i < 3" "ev_sems s ! i = 0"
  proof -
    have "\<not> (\<forall>i < 4. 0 < ev_sems s ! i)"
      using consumer[OF n] pc[OF n] len(2) by (auto simp: consumer_step_def lock_events_ok split: if_splits)
    then obtain i where "i < 4" "ev_sems s ! i = 0"
      by auto
    moreover from this have "i \<noteq> 3"
      using \<open>ev_sems s ! 3 = 1\<close> by auto
    ultimately show thesis
      using that[of i] by simp
  qed
  have files: "length files = 3"
    using fit by (simp add: files_fit_def)
  have "Min (length ` set files) = L"
  proof (rule Min_eqI)
    have "L = length (files ! i)"
      using sent[OF i(1)] i(2) by simp
    then show "L \<in> length ` set files"
      using i(1) files nth_mem[of i files] by simp
  next
    fix k
    assume "k \<in> length ` set files"
    then obtain i where "i < 3" "k = length (files ! i)"
      using files by (auto simp: in_set_conv_nth)
    then show "L \<le> k"
      using sent[of i] by simp
  qed simp
  then show ?thesis
    using P by (simp add: ev_done_def)
qed

interpretation ev_run: progress ev_step "ev_good files n" ev_work "ev_done files" for files n
  by unfold_locales (use ev_step_ok ev_stuck in blast)+



text \<open>
  A source that ends takes its increments back, so that a line which was sent and counted is never printed: the
  consumers wait for the semaphore, while the line stays in the queue.
\<close>

theorem exit_loses_events:
  assumes "length (ev_sems s) = 4" "i < 3" "ev_sems s ! i \<le> src_undo (ev_sources s ! i)"
  shows "lock_events (ev_sems (source_exit i s)) = None \<and> ev_queue (source_exit i s) = ev_queue s"
  using assms by (auto simp: lock_events_ok source_exit_def intro!: exI[of _ i])

end
