(* ===== verification/EvLife.thy ===== *)
theory EvLife
  imports SemEvents
begin

text \<open>
  The whole life of the programs of \<open>SemEvents\<close>: how the processes find or create the semaphores and the queue, the
  loops of sources and consumers on what they found, and the removal of both by the first source.
\<close>

section \<open>The kernel\<close>

text \<open>
  The set of semaphores and the queue that the key names, with their identifiers, while they exist; the last
  identifier given; and, because of \<open>SEM_UNDO\<close>, what the end of each source takes back from its semaphore and what
  the end of each consumer gives back to those of the sources.
\<close>

record ipc =
  ip_sems :: "(nat \<times> nat list) option"
  ip_queue :: "(nat \<times> (nat \<times> char list) list) option"
  ip_last :: nat
  ip_undo :: "nat \<Rightarrow> nat"
  ip_locks :: "nat \<Rightarrow> nat"

abbreviation (input) SEM_MAX :: nat where "SEM_MAX \<equiv> 32767"

definition sems_of :: "nat \<Rightarrow> ipc \<Rightarrow> nat list option" where
  "sems_of semid k = (case ip_sems k of Some (i, sems) \<Rightarrow> if i = semid then Some sems else None | None \<Rightarrow> None)"

definition queue_of :: "nat \<Rightarrow> ipc \<Rightarrow> (nat \<times> char list) list option" where
  "queue_of qid k = (case ip_queue k of Some (i, q) \<Rightarrow> if i = qid then Some q else None | None \<Rightarrow> None)"

definition undo_exit :: "nat \<Rightarrow> nat \<Rightarrow> ipc \<Rightarrow> ipc" where
  "undo_exit p num k =
     k\<lparr>ip_sems := map_option (\<lambda>(i, sems). (i, sems[num := sems ! num - ip_undo k p])) (ip_sems k), ip_undo := (ip_undo k)(p := 0)\<rparr>"

section \<open>A source\<close>

text \<open>
  Where the source stands: at each of the calls of the kernel of \<open>sem_get_or_create\<close>, \<open>msg_queue_get_or_create\<close>, the
  loop and the removal, and after the return of main. \<open>l_lines\<close> is its input, \<open>l_id\<close> its \<open>myid\<close>.
\<close>

datatype life_pc =
    O_SemGet | O_SemConnect | O_SetAll nat | O_MsgGet nat | O_Loop nat nat | O_Inc nat nat
  | O_RmQueue nat nat | O_RmSems nat | O_Exit int

record life_source =
  l_pc :: life_pc
  l_id :: nat
  l_lines :: "char list list"

definition life_start :: "nat \<Rightarrow> char list list \<Rightarrow> life_source" where
  "life_start myid lines = \<lparr>l_pc = O_SemGet, l_id = myid, l_lines = lines\<rparr>"

definition life_exit :: "nat \<Rightarrow> int \<Rightarrow> ipc \<Rightarrow> life_source \<Rightarrow> ipc \<times> life_source" where
  "life_exit p r k src = (undo_exit p (l_id src - 1) k, src\<lparr>l_pc := O_Exit r\<rparr>)"

text \<open>\<open>semop\<close> of \<open>sem_inc\<close>: it fails, which nothing notices, without the set, the semaphore or room in it.\<close>

definition life_inc :: "nat \<Rightarrow> nat \<Rightarrow> nat \<Rightarrow> ipc \<Rightarrow> ipc" where
  "life_inc p semid myid k =
     (case sems_of semid k of
        None \<Rightarrow> k
      | Some sems \<Rightarrow>
          if length sems \<le> myid - 1 \<or> SEM_MAX \<le> sems ! (myid - 1) \<or> SEM_MAX < ip_undo k p then k
          else (case sem_inc sems myid of
                  None \<Rightarrow> k
                | Some sems \<Rightarrow> k\<lparr>ip_sems := Some (semid, sems), ip_undo := (ip_undo k)(p := ip_undo k p + 1)\<rparr>))"

text \<open>One step of the source \<open>p\<close>; \<open>msg\<close> is what its buffer holds. A failed \<open>msgsnd\<close> is not noticed.\<close>

definition life_source_step :: "char list \<Rightarrow> nat \<Rightarrow> ipc \<Rightarrow> life_source \<Rightarrow> (ipc \<times> life_source) cres option" where
  "life_source_step msg p k src =
     (case l_pc src of
        O_SemGet \<Rightarrow>
          Some (Inr (if ip_sems k = None
            then (k\<lparr>ip_sems := Some (ip_last k + 1, [0, 0, 0, 0]), ip_last := ip_last k + 1, ip_undo := \<lambda>_. 0, ip_locks := \<lambda>_. 0\<rparr>,
                  src\<lparr>l_pc := O_SetAll (ip_last k + 1)\<rparr>)
            else (k, src\<lparr>l_pc := O_SemConnect\<rparr>)))
      | O_SemConnect \<Rightarrow>
          Some (Inr (case ip_sems k of
              None \<Rightarrow> life_exit p (-1) k src
            | Some (i, _) \<Rightarrow> (k, src\<lparr>l_pc := O_MsgGet i\<rparr>)))
      | O_SetAll semid \<Rightarrow>
          Some (Inr (if sems_of semid k = None then k else k\<lparr>ip_sems := Some (semid, [0, 0, 0, 1]), ip_undo := \<lambda>_. 0, ip_locks := \<lambda>_. 0\<rparr>,
            src\<lparr>l_pc := O_MsgGet semid\<rparr>))
      | O_MsgGet semid \<Rightarrow>
          Some (Inr (case ip_queue k of
              None \<Rightarrow> (k\<lparr>ip_queue := Some (ip_last k + 1, []), ip_last := ip_last k + 1\<rparr>, src\<lparr>l_pc := O_Loop semid (ip_last k + 1)\<rparr>)
            | Some (qid, _) \<Rightarrow> (k, src\<lparr>l_pc := O_Loop semid qid\<rparr>)))
      | O_Loop semid qid \<Rightarrow>
          Some (case l_lines src of
              [] \<Rightarrow> Inr (if l_id src = 1 then (k, src\<lparr>l_pc := O_RmQueue semid qid\<rparr>) else life_exit p 0 k src)
            | line # lines \<Rightarrow>
                rbind (send_msg msg (l_id src) line) (\<lambda>m.
                Inr (case queue_of qid k of None \<Rightarrow> k | Some q \<Rightarrow> k\<lparr>ip_queue := Some (qid, q @ [m])\<rparr>,
                     src\<lparr>l_pc := O_Inc semid qid, l_lines := lines\<rparr>)))
      | O_Inc semid qid \<Rightarrow> Some (Inr (life_inc p semid (l_id src) k, src\<lparr>l_pc := O_Loop semid qid\<rparr>))
      | O_RmQueue semid qid \<Rightarrow>
          Some (Inr (if queue_of qid k = None then k else k\<lparr>ip_queue := None\<rparr>, src\<lparr>l_pc := O_RmSems semid\<rparr>))
      | O_RmSems semid \<Rightarrow>
          Some (Inr (life_exit p 0 (if sems_of semid k = None then k else k\<lparr>ip_sems := None, ip_undo := \<lambda>_. 0, ip_locks := \<lambda>_. 0\<rparr>) src))
      | O_Exit _ \<Rightarrow> None)"

section \<open>A consumer\<close>

text \<open>
  The identifiers are \<open>None\<close> for -1. Where \<open>semop\<close> fails, which nothing notices, it goes on without the lock; where
  \<open>msgrcv\<close> fails it unpacks a buffer that was never written.
\<close>

datatype life_cons_pc = I_SemGet | I_MsgGet | I_Run cons_pc

record life_consumer =
  lc_pc :: life_cons_pc
  lc_semid :: "nat option"
  lc_queueid :: "nat option"

definition life_cons_start :: life_consumer where
  "life_cons_start = \<lparr>lc_pc = I_SemGet, lc_semid = None, lc_queueid = None\<rparr>"

text \<open>
  Each lock adds to what the end of the consumer gives back; \<open>semop\<close> fails when that passes the limit, as soon as
  the first semaphore can be taken.
\<close>

definition life_lock :: "nat \<Rightarrow> nat option \<Rightarrow> ipc \<Rightarrow> ipc option" where
  "life_lock j semid k =
     (case Option.bind semid (\<lambda>i. map_option (Pair i) (sems_of i k)) of
        None \<Rightarrow> Some k
      | Some (i, sems) \<Rightarrow>
          if 0 < sems ! 0 \<and> SEM_MAX \<le> ip_locks k j then Some k
          else map_option (\<lambda>sems. k\<lparr>ip_sems := Some (i, sems), ip_locks := (ip_locks k)(j := ip_locks k j + 1)\<rparr>) (lock_events sems))"

definition life_unlock :: "nat option \<Rightarrow> ipc \<Rightarrow> ipc option" where
  "life_unlock semid k =
     (case Option.bind semid (\<lambda>i. map_option (Pair i) (sems_of i k)) of
        None \<Rightarrow> Some k
      | Some (i, sems) \<Rightarrow>
          if SEM_MAX \<le> sems ! 3 then Some k
          else map_option (\<lambda>sems. k\<lparr>ip_sems := Some (i, sems)\<rparr>) (unlock_events sems))"

definition life_consumer_step ::
    "char list \<Rightarrow> nat \<Rightarrow> ipc \<Rightarrow> life_consumer \<Rightarrow> (ipc \<times> life_consumer \<times> (nat \<times> nat \<times> char list) list) cres option" where
  "life_consumer_step msg j k c =
     (case lc_pc c of
        I_SemGet \<Rightarrow> Some (Inr (k, c\<lparr>lc_semid := map_option fst (ip_sems k), lc_pc := I_MsgGet\<rparr>, []))
      | I_MsgGet \<Rightarrow> Some (Inr (k, c\<lparr>lc_queueid := map_option fst (ip_queue k), lc_pc := I_Run E_Lock\<rparr>, []))
      | I_Run E_Lock \<Rightarrow> map_option (\<lambda>k. Inr (k, c\<lparr>lc_pc := I_Run (E_Read 0)\<rparr>, [])) (life_lock j (lc_semid c) k)
      | I_Run (E_Read i) \<Rightarrow>
          (case Option.bind (lc_queueid c) (\<lambda>qid. map_option (Pair qid) (queue_of qid k)) of
             None \<Rightarrow> Some (Inl UninitRead)
           | Some (qid, q) \<Rightarrow>
               map_option (\<lambda>r. rbind r (\<lambda>(out, q).
                   Inr (k\<lparr>ip_queue := Some (qid, q)\<rparr>, c\<lparr>lc_pc := I_Run (if i + 1 < 3 then E_Read (i + 1) else E_Unlock)\<rparr>, [out])))
                 (recv_msg msg q (i + 1)))
      | I_Run E_Unlock \<Rightarrow> map_option (\<lambda>k. Inr (k, c\<lparr>lc_pc := I_Run E_Lock\<rparr>, [])) (life_unlock (lc_semid c) k))"

section \<open>The system\<close>

record life =
  l_kernel :: ipc
  l_sources :: "life_source list"
  l_consumers :: "life_consumer list"
  l_printed :: "(nat \<times> nat \<times> char list) list"

inductive life_step :: "life \<Rightarrow> life \<Rightarrow> bool" where
  source: "p < length (l_sources s) \<Longrightarrow> length msg = 512 \<Longrightarrow>
     life_source_step msg p (l_kernel s) (l_sources s ! p) = Some (Inr (k, src)) \<Longrightarrow>
     life_step s (s\<lparr>l_kernel := k, l_sources := (l_sources s)[p := src]\<rparr>)"
| consumer: "j < length (l_consumers s) \<Longrightarrow> length msg = 512 \<Longrightarrow>
     life_consumer_step msg j (l_kernel s) (l_consumers s ! j) = Some (Inr (k, c, out)) \<Longrightarrow>
     life_step s (s\<lparr>l_kernel := k, l_consumers := (l_consumers s)[j := c], l_printed := l_printed s @ out\<rparr>)"

end
