(* ===== verification/EvLife_Spec.thy ===== *)
theory EvLife_Spec
  imports EvLife SemEvents_Spec
begin

text \<open>
  Once the semaphores and the queue are set up, the programs are the system of \<open>SemEvents\<close>; and what goes wrong when
  they are not, or when they are removed.
\<close>

section \<open>Refinement\<close>

text \<open>The processes of the loops, linked to one set of semaphores and one queue.\<close>

definition abs_source :: "ipc \<Rightarrow> nat \<Rightarrow> life_source \<Rightarrow> event_source" where
  "abs_source k p src =
     \<lparr>src_lines = l_lines src, src_sent = (case l_pc src of O_Inc _ _ \<Rightarrow> True | _ \<Rightarrow> False), src_undo = ip_undo k p\<rparr>"

definition abs_consumer :: "life_consumer \<Rightarrow> cons_pc" where
  "abs_consumer c = (case lc_pc c of I_Run p \<Rightarrow> p | _ \<Rightarrow> E_Lock)"

definition life_abs :: "life \<Rightarrow> ev_state" where
  "life_abs s =
     (let k = l_kernel s
      in \<lparr>ev_sems = snd (the (ip_sems k)), ev_queue = snd (the (ip_queue k)),
          ev_sources = map (\<lambda>p. abs_source k p (l_sources s ! p)) [0..<length (l_sources s)],
          ev_consumers = map abs_consumer (l_consumers s), ev_printed = l_printed s\<rparr>)"

definition linked_source :: "nat \<Rightarrow> nat \<Rightarrow> nat \<Rightarrow> life_source \<Rightarrow> bool" where
  "linked_source semid qid p src \<longleftrightarrow> l_id src = p + 1 \<and> (l_pc src = O_Loop semid qid \<or> l_pc src = O_Inc semid qid)"

definition linked_consumer :: "nat \<Rightarrow> nat \<Rightarrow> life_consumer \<Rightarrow> bool" where
  "linked_consumer semid qid c \<longleftrightarrow> lc_semid c = Some semid \<and> lc_queueid c = Some qid \<and> (\<exists>p. lc_pc c = I_Run p)"

definition linked_system :: "nat \<Rightarrow> nat \<Rightarrow> life \<Rightarrow> bool" where
  "linked_system semid qid s \<longleftrightarrow>
     (\<exists>sems q. ip_sems (l_kernel s) = Some (semid, sems) \<and> ip_queue (l_kernel s) = Some (qid, q) \<and> length sems = 4) \<and>
     length (l_sources s) = 3 \<and> (\<forall>p < 3. linked_source semid qid p (l_sources s ! p)) \<and>
     (\<forall>c \<in> set (l_consumers s). linked_consumer semid qid c)"

text \<open>No counter of the kernel is at its limit.\<close>

definition kernel_room :: "ipc \<Rightarrow> bool" where
  "kernel_room k \<longleftrightarrow> (\<forall>n \<in> set (snd (the (ip_sems k))). n < SEM_MAX) \<and> (\<forall>p. ip_undo k p < SEM_MAX) \<and> (\<forall>j. ip_locks k j < SEM_MAX)"

lemma abs_sel:
  assumes "ip_sems (l_kernel s) = Some (semid, sems)" "ip_queue (l_kernel s) = Some (qid, q)" "length (l_sources s) = 3"
  shows "ev_sems (life_abs s) = sems" "ev_queue (life_abs s) = q" "ev_printed (life_abs s) = l_printed s"
    "ev_consumers (life_abs s) = map abs_consumer (l_consumers s)" "length (ev_sources (life_abs s)) = 3"
    "p < 3 \<Longrightarrow> ev_sources (life_abs s) ! p = abs_source (l_kernel s) p (l_sources s ! p)"
  using assms by (simp_all add: life_abs_def)

lemma abs_eqI:
  assumes "ev_sems t = ev_sems t'" "ev_queue t = ev_queue t'" "ev_printed t = ev_printed t'" "ev_consumers t = ev_consumers t'"
    "length (ev_sources t) = length (ev_sources t')" "\<And>p. p < length (ev_sources t') \<Longrightarrow> ev_sources t ! p = ev_sources t' ! p"
  shows "t = (t' :: ev_state)"
  using assms by (cases t; cases t') (simp add: nth_equalityI)

lemma linked_source_step:
  assumes linked: "linked_system semid qid s" and room: "kernel_room (l_kernel s)" and p: "p < 3"
    and step: "life_source_step msg p (l_kernel s) (l_sources s ! p) = Some (Inr (k, src))"
    and live: "linked_source semid qid p src"
  defines "s' \<equiv> s\<lparr>l_kernel := k, l_sources := (l_sources s)[p := src]\<rparr>"
  shows "source_step msg p (life_abs s) = Some (Inr (life_abs s')) \<and> linked_system semid qid s'"
proof -
  obtain sems q where k: "ip_sems (l_kernel s) = Some (semid, sems)" "ip_queue (l_kernel s) = Some (qid, q)" "length sems = 4"
    using linked by (auto simp: linked_system_def)
  have len: "length (l_sources s) = 3" and ls: "\<And>p. p < 3 \<Longrightarrow> linked_source semid qid p (l_sources s ! p)"
    and lc: "\<And>c. c \<in> set (l_consumers s) \<Longrightarrow> linked_consumer semid qid c"
    using linked by (simp_all add: linked_system_def)
  note sel = abs_sel[OF k(1,2) len]
  have s': "l_kernel s' = k" "l_sources s' = (l_sources s)[p := src]" "l_consumers s' = l_consumers s" "l_printed s' = l_printed s"
    by (simp_all add: s'_def)
  let ?src = "l_sources s ! p"
  have id: "l_id ?src = p + 1"
    using ls[OF p] by (simp add: linked_source_def)
  from ls[OF p] consider (loop) "l_pc ?src = O_Loop semid qid" | (inc) "l_pc ?src = O_Inc semid qid"
    by (auto simp: linked_source_def)
  then show ?thesis
  proof cases
    case loop
    obtain line lines where lines: "l_lines ?src = line # lines"
      using step live loop id by (cases "l_lines ?src") (auto simp: life_source_step_def linked_source_def life_exit_def split: if_splits)
    then obtain m where m: "send_msg msg (p + 1) line = Inr m" "k = (l_kernel s)\<lparr>ip_queue := Some (qid, q @ [m])\<rparr>"
      "src = ?src\<lparr>l_pc := O_Inc semid qid, l_lines := lines\<rparr>"
      using step loop id k(2) by (auto simp: life_source_step_def queue_of_def res_simps)
    have k': "ip_sems (l_kernel s') = Some (semid, sems)" "ip_queue (l_kernel s') = Some (qid, q @ [m])" "length (l_sources s') = 3"
      using k len by (simp_all add: s'_def m(2))
    note sel' = abs_sel[OF k']
    have "life_abs s' = (life_abs s)\<lparr>ev_queue := q @ [m], ev_sources := (ev_sources (life_abs s))
        [p := (ev_sources (life_abs s) ! p)\<lparr>src_lines := lines, src_sent := True\<rparr>]\<rparr>"
      by (rule abs_eqI) (use p len in \<open>auto simp: sel sel' s' nth_list_update abs_source_def m(2,3)\<close>)
    then have "source_step msg p (life_abs s) = Some (Inr (life_abs s'))"
      using loop lines m(1) p by (simp add: source_step_def Let_def sel abs_source_def)
    moreover have "linked_system semid qid s'"
      using k' k(3) ls lc live len p by (auto simp: linked_system_def s'_def nth_list_update)
    ultimately show ?thesis by simp
  next
    case inc
    have bound: "p < length sems" "sems ! p < SEM_MAX" "\<not> SEM_MAX < ip_undo (l_kernel s) p"
      using room p k(1,3) nth_mem[of p sems] by (auto simp: kernel_room_def not_less order.strict_implies_order)
    have m: "k = (l_kernel s)\<lparr>ip_sems := Some (semid, sems[p := sems ! p + 1]), ip_undo := (ip_undo (l_kernel s))(p := ip_undo (l_kernel s) p + 1)\<rparr>"
      "src = ?src\<lparr>l_pc := O_Loop semid qid\<rparr>"
      using step inc id k(1) bound by (auto simp: life_source_step_def life_inc_def sems_of_def sem_inc_def)
    have k': "ip_sems (l_kernel s') = Some (semid, sems[p := sems ! p + 1])" "ip_queue (l_kernel s') = Some (qid, q)" "length (l_sources s') = 3"
      using k len by (simp_all add: s'_def m(1))
    note sel' = abs_sel[OF k']
    have "life_abs s' = (life_abs s)\<lparr>ev_sems := sems[p := sems ! p + 1], ev_sources := (ev_sources (life_abs s))
        [p := (ev_sources (life_abs s) ! p)\<lparr>src_sent := False, src_undo := src_undo (ev_sources (life_abs s) ! p) + 1\<rparr>]\<rparr>"
      by (rule abs_eqI) (use p len in \<open>auto simp: sel sel' s' nth_list_update abs_source_def m\<close>)
    then have "source_step msg p (life_abs s) = Some (Inr (life_abs s'))"
      using inc p by (simp add: source_step_def sem_inc_def Let_def sel abs_source_def)
    moreover have "linked_system semid qid s'"
      using k' k(3) ls lc live len p by (auto simp: linked_system_def s'_def nth_list_update)
    ultimately show ?thesis by simp
  qed
qed

lemma linked_consumer_step:
  assumes linked: "linked_system semid qid s" and room: "kernel_room (l_kernel s)" and j: "j < length (l_consumers s)"
    and step: "life_consumer_step msg j (l_kernel s) (l_consumers s ! j) = Some (Inr (k, c, out))"
  defines "s' \<equiv> s\<lparr>l_kernel := k, l_consumers := (l_consumers s)[j := c], l_printed := l_printed s @ out\<rparr>"
  shows "consumer_step msg j (life_abs s) = Some (Inr (life_abs s')) \<and> linked_system semid qid s'"
proof -
  obtain sems q where k: "ip_sems (l_kernel s) = Some (semid, sems)" "ip_queue (l_kernel s) = Some (qid, q)" "length sems = 4"
    using linked by (auto simp: linked_system_def)
  have len: "length (l_sources s) = 3" and ls: "\<And>p. p < 3 \<Longrightarrow> linked_source semid qid p (l_sources s ! p)"
    and lc: "\<And>c. c \<in> set (l_consumers s) \<Longrightarrow> linked_consumer semid qid c"
    using linked by (simp_all add: linked_system_def)
  note sel = abs_sel[OF k(1,2) len]
  have s': "l_kernel s' = k" "l_sources s' = l_sources s" "l_consumers s' = (l_consumers s)[j := c]" "l_printed s' = l_printed s @ out"
    by (simp_all add: s'_def)
  let ?c = "l_consumers s ! j"
  have c: "lc_semid ?c = Some semid" "lc_queueid ?c = Some qid" "\<exists>p. lc_pc ?c = I_Run p"
    using lc[of ?c] j by (simp_all add: linked_consumer_def)
  then obtain p where p: "lc_pc ?c = I_Run p" by blast
  have pc: "map abs_consumer (l_consumers s) ! j = p"
    using j p by (simp add: abs_consumer_def)
  have finish: ?thesis if "sems' \<noteq> None \<Longrightarrow> True" and k': "ip_sems k = Some (semid, sems1)" "ip_queue k = Some (qid, q1)" "length sems1 = 4"
      and undo: "ip_undo k = ip_undo (l_kernel s)" and c': "c = ?c\<lparr>lc_pc := I_Run p'\<rparr>"
      and abs: "consumer_step msg j (life_abs s) = Some (Inr ((life_abs s)\<lparr>ev_sems := sems1, ev_queue := q1,
        ev_consumers := (map abs_consumer (l_consumers s))[j := p'], ev_printed := l_printed s @ out\<rparr>))"
    for sems' :: "nat option" and sems1 q1 p'
  proof -
    have k2: "ip_sems (l_kernel s') = Some (semid, sems1)" "ip_queue (l_kernel s') = Some (qid, q1)" "length (l_sources s') = 3"
      using k' len by (simp_all add: s'_def)
    note sel' = abs_sel[OF k2]
    have "life_abs s' = (life_abs s)\<lparr>ev_sems := sems1, ev_queue := q1,
        ev_consumers := (map abs_consumer (l_consumers s))[j := p'], ev_printed := l_printed s @ out\<rparr>"
      by (rule abs_eqI) (use j len c' undo in \<open>auto simp: sel sel' s' map_update abs_consumer_def abs_source_def\<close>)
    moreover have "linked_consumer semid qid c"
      using c by (simp add: c' linked_consumer_def)
    then have "\<forall>c \<in> set (l_consumers s'). linked_consumer semid qid c"
      using lc set_update_subset_insert[of "l_consumers s" j c] by (auto simp: s'_def)
    then have "linked_system semid qid s'"
      using k2 k'(3) ls len by (simp add: linked_system_def s'_def)
    ultimately show ?thesis
      using abs by simp
  qed
  show ?thesis
  proof (cases p)
    case E_Lock
    have bound: "\<not> SEM_MAX \<le> ip_locks (l_kernel s) j"
      using room by (simp add: kernel_room_def not_le)
    obtain sems1 where sems1: "lock_events sems = Some sems1"
      "k = (l_kernel s)\<lparr>ip_sems := Some (semid, sems1), ip_locks := (ip_locks (l_kernel s))(j := ip_locks (l_kernel s) j + 1)\<rparr>"
      "c = ?c\<lparr>lc_pc := I_Run (E_Read 0)\<rparr>" "out = []"
      using step p E_Lock c(1) k(1) bound by (auto simp: life_consumer_step_def life_lock_def sems_of_def)
    have "length sems1 = 4"
      using sems1(1) k(3) by (auto simp: lock_events_ok split: if_splits)
    then show ?thesis
      by (intro finish[of None sems1 q "E_Read 0"])
        (use sems1 k pc E_Lock in \<open>auto simp: consumer_step_def sel intro!: abs_eqI\<close>)
  next
    case (E_Read i)
    obtain x q1 where r: "recv_msg msg q (i + 1) = Some (Inr (x, q1))" "k = (l_kernel s)\<lparr>ip_queue := Some (qid, q1)\<rparr>"
      "c = ?c\<lparr>lc_pc := I_Run (if i + 1 < 3 then E_Read (i + 1) else E_Unlock)\<rparr>" "out = [x]"
      using step p E_Read c(2) k(2) by (auto simp: life_consumer_step_def queue_of_def res_simps)
    show ?thesis
      by (rule finish[of None sems q1 "if i + 1 < 3 then E_Read (i + 1) else E_Unlock"])
        (use r k pc E_Read in \<open>auto simp: consumer_step_def sel intro!: abs_eqI\<close>)
  next
    case E_Unlock
    have "sems ! 3 < SEM_MAX"
      using room k(1,3) nth_mem[of 3 sems] by (auto simp: kernel_room_def)
    then have u: "k = (l_kernel s)\<lparr>ip_sems := Some (semid, sems[3 := sems ! 3 + 1])\<rparr>" "c = ?c\<lparr>lc_pc := I_Run E_Lock\<rparr>" "out = []"
      using step p E_Unlock c(1) k(1) by (auto simp: life_consumer_step_def life_unlock_def sems_of_def unlock_events_def)
    show ?thesis
      by (rule finish[of None "sems[3 := sems ! 3 + 1]" q E_Lock])
        (use u k pc E_Unlock in \<open>auto simp: consumer_step_def unlock_events_def sel intro!: abs_eqI\<close>)
  qed
qed

section \<open>The start\<close>

definition life_init :: "char list list list \<Rightarrow> nat \<Rightarrow> life" where
  "life_init files n =
     \<lparr>l_kernel = \<lparr>ip_sems = None, ip_queue = None, ip_last = 0, ip_undo = \<lambda>_. 0, ip_locks = \<lambda>_. 0\<rparr>,
      l_sources = map (\<lambda>p. life_start (p + 1) (files ! p)) [0..<3], l_consumers = replicate n life_cons_start, l_printed = []\<rparr>"

text \<open>The kernel and the sources once all sources are in their loops, and \<open>j\<close> consumers as well.\<close>

definition life_ready :: "char list list list \<Rightarrow> nat \<Rightarrow> nat \<Rightarrow> life" where
  "life_ready files n j =
     \<lparr>l_kernel = \<lparr>ip_sems = Some (1, [0, 0, 0, 1]), ip_queue = Some (2, []), ip_last = 2, ip_undo = \<lambda>_. 0, ip_locks = \<lambda>_. 0\<rparr>,
      l_sources = map (\<lambda>p. \<lparr>l_pc = O_Loop 1 2, l_id = p + 1, l_lines = files ! p\<rparr>) [0..<3],
      l_consumers = replicate j \<lparr>lc_pc = I_Run E_Lock, lc_semid = Some 1, lc_queueid = Some 2\<rparr> @ replicate (n - j) life_cons_start,
      l_printed = []\<rparr>"

lemma three: "map f [0..<3] = [f 0, f 1, f (2::nat)]"
  by (simp add: upt_rec numeral_2_eq_2)

lemma source_stepI:
  assumes "life_source_step (replicate 512 ch_nul) p (l_kernel s) (l_sources s ! p) = Some (Inr (k, src))" "p < length (l_sources s)"
    and "life_step\<^sup>*\<^sup>* (s\<lparr>l_kernel := k, l_sources := (l_sources s)[p := src]\<rparr>) s'"
  shows "life_step\<^sup>*\<^sup>* s s'"
proof -
  have "life_step s (s\<lparr>l_kernel := k, l_sources := (l_sources s)[p := src]\<rparr>)"
    by (rule life_step.source[OF assms(2) _ assms(1)]) simp
  then show ?thesis
    using assms(3) by (rule converse_rtranclp_into_rtranclp)
qed

lemma sources_start: "life_step\<^sup>*\<^sup>* (life_init files n) (life_ready files n 0)"
proof -
  have fin: "life_step\<^sup>*\<^sup>* s s'" if "s = s'" for s s'
    using that by simp
  show ?thesis
    unfolding life_init_def three
    by (rule source_stepI[where p = 0], simp add: life_source_step_def life_start_def, simp,
        rule source_stepI[where p = 0], simp add: life_source_step_def sems_of_def, simp,
        rule source_stepI[where p = 0], simp add: life_source_step_def, simp,
        rule source_stepI[where p = 1], simp add: life_source_step_def life_start_def, simp,
        rule source_stepI[where p = 1], simp add: life_source_step_def, simp,
        rule source_stepI[where p = 1], simp add: life_source_step_def, simp,
        rule source_stepI[where p = 2], simp add: life_source_step_def life_start_def, simp,
        rule source_stepI[where p = 2], simp add: life_source_step_def, simp,
        rule source_stepI[where p = 2], simp add: life_source_step_def, simp,
        rule fin)
      (simp add: life_ready_def three life_start_def)
qed

lemma consumer_starts: "j < n \<Longrightarrow> life_step\<^sup>*\<^sup>* (life_ready files n j) (life_ready files n (j + 1))"
proof -
  assume j: "j < n"
  let ?d = "\<lparr>lc_pc = I_Run E_Lock, lc_semid = Some 1, lc_queueid = Some 2\<rparr>" and ?s = "life_ready files n j"
  let ?c = "\<lparr>lc_pc = I_MsgGet, lc_semid = Some 1, lc_queueid = None\<rparr>"
  have n: "n - j = Suc (n - (j + 1))"
    using j by simp
  have jth: "l_consumers ?s ! j = life_cons_start" "j < length (l_consumers ?s)"
    using j by (simp_all add: life_ready_def nth_append)
  have msg: "length (replicate 512 ch_nul) = 512"
    by simp
  let ?s1 = "?s\<lparr>l_kernel := l_kernel ?s, l_consumers := (l_consumers ?s)[j := ?c], l_printed := l_printed ?s @ []\<rparr>"
  have 1: "life_step ?s ?s1"
    by (rule life_step.consumer[OF jth(2) msg, unfolded jth(1)])
      (simp add: life_consumer_step_def life_cons_start_def life_ready_def)
  have c: "l_consumers ?s1 ! j = ?c" "j < length (l_consumers ?s1)"
    using jth(2) by simp_all
  let ?s2 = "?s1\<lparr>l_kernel := l_kernel ?s1, l_consumers := (l_consumers ?s1)[j := ?d], l_printed := l_printed ?s1 @ []\<rparr>"
  have 2: "life_step ?s1 ?s2"
    by (rule life_step.consumer[OF c(2) msg, unfolded c(1)]) (simp add: life_consumer_step_def life_ready_def)
  have "?s2 = life_ready files n (j + 1)"
    unfolding life_ready_def n by (simp add: list_update_append replicate_append_same)
  with 1 2 show ?thesis
    by (metis converse_rtranclp_into_rtranclp r_into_rtranclp)
qed

lemma consumers_start: "j \<le> n \<Longrightarrow> life_step\<^sup>*\<^sup>* (life_init files n) (life_ready files n j)"
proof (induction j)
  case (Suc j)
  then show ?case
    using consumer_starts[of j n files] rtranclp_trans[of life_step "life_init files n"] by simp
qed (rule sources_start)

lemma ready_linked:
  assumes "length files = 3"
  shows "linked_system 1 2 (life_ready files n n)" "life_abs (life_ready files n n) = ev_init files n"
proof -
  show "linked_system 1 2 (life_ready files n n)"
    by (auto simp: linked_system_def life_ready_def linked_source_def linked_consumer_def)
  show "life_abs (life_ready files n n) = ev_init files n"
    using assms by (auto simp: life_abs_def life_ready_def ev_init_def abs_source_def abs_consumer_def list_eq_iff_nth_eq)
qed

lemma linked_step:
  assumes "linked_system semid qid s" "kernel_room (l_kernel s)" "life_step s s'" "\<forall>p < 3. linked_source semid qid p (l_sources s' ! p)"
  shows "ev_step (life_abs s) (life_abs s') \<and> linked_system semid qid s'"
  using assms(3)
proof cases
  case (source p msg k src)
  have p: "p < 3"
    using source(2) assms(1) by (simp add: linked_system_def)
  have "linked_source semid qid p src"
    using assms(4) p source(1,2) by (auto dest: spec[of _ p])
  from linked_source_step[OF assms(1,2) p source(4) this] show ?thesis
    using source(1,3) p ev_step.source[of p "life_abs s" msg] assms(1) by (auto simp: life_abs_def linked_system_def Let_def)
next
  case (consumer j msg k c out)
  from linked_consumer_step[OF assms(1,2) consumer(2,4)] show ?thesis
    using consumer(1,2,3) ev_step.consumer[of j "life_abs s" msg] by (auto simp: life_abs_def Let_def)
qed

text \<open>(C25) The programs implement the system of \<open>SemEvents\<close>: when the sources are started one after the other and then
  the consumers, they come to a state that is its initial state, and from there on every step of theirs is a step of
  it, as long as no source ends and no counter of the kernel is at its limit.\<close>

theorem programs_refine_events:
  assumes "length files = 3"
  shows "\<exists>s0. life_step\<^sup>*\<^sup>* (life_init files n) s0 \<and> linked_system 1 2 s0 \<and> life_abs s0 = ev_init files n \<and>
    (\<forall>s s'. linked_system 1 2 s \<and> kernel_room (l_kernel s) \<and> life_step s s' \<and>
       (\<forall>p < 3. linked_source 1 2 p (l_sources s' ! p)) \<longrightarrow> ev_step (life_abs s) (life_abs s') \<and> linked_system 1 2 s')"
  using consumers_start[of n n files] ready_linked[OF assms, of n] linked_step by blast

lemma programs_refine_events_witness:
  "\<exists>s0. life_step\<^sup>*\<^sup>* (life_init [[''a''], [''b''], []] 2) s0 \<and> life_abs s0 = ev_init [[''a''], [''b''], []] 2"
  using programs_refine_events[of "[[''a''], [''b''], []]" 2] by auto

section \<open>What the loops rely on\<close>

text \<open>
  The set exists before its creator has set its values: what another source has counted by then is lost, so that a
  line of the queue is never printed.
\<close>

lemma late_setall_loses:
  assumes "sems_of semid k = Some sems" "l_pc src = O_SetAll semid"
  shows "\<exists>k' src'. life_source_step msg p k src = Some (Inr (k', src')) \<and> ip_sems k' = Some (semid, [0, 0, 0, 1]) \<and>
    ip_queue k' = ip_queue k \<and> lock_events [0, 0, 0, 1] = None"
  using assms by (simp add: life_source_step_def lock_events_ok) (metis less_irrefl nth_Cons_0 zero_less_numeral)

text \<open>After 32767 locks a consumer reads without the lock.\<close>

lemma no_lock_at_limit:
  assumes "sems_of semid k = Some sems" "0 < sems ! 0" "SEM_MAX \<le> ip_locks k j"
  shows "life_lock j (Some semid) k = Some k"
  using assms by (simp add: life_lock_def)

text \<open>A consumer that is started before the sources unpacks memory that was never written.\<close>

lemma consumer_before_sources:
  assumes "lc_queueid c = None" "lc_pc c = I_Run (E_Read i)"
  shows "life_consumer_step msg j k c = Some (Inl UninitRead)"
  using assms by (simp add: life_consumer_step_def)

text \<open>So does one that is in its loop when the first source removes the queue.\<close>

lemma consumer_after_removal:
  assumes "l_pc src = O_RmQueue semid qid" "lc_queueid c = Some qid" "lc_pc c = I_Run (E_Read i)"
  shows "\<exists>k' src'. life_source_step msg p k src = Some (Inr (k', src')) \<and> life_consumer_step msg j k' c = Some (Inl UninitRead)"
  using assms by (auto simp: life_source_step_def life_consumer_step_def queue_of_def split: option.splits)

end
