(* ===== verification/Semaphores.thy ===== *)
theory Semaphores
  imports Scan
begin

text \<open>
  The program of src/lecture_examples/7_ipc/8_sem.c: a shell for three semaphores which several processes
  share. Lines change a semaphore at once or, between \<open>begin\<close> and \<open>commit\<close>, all together. A process that
  ends takes its changes back. The processes interleave at every call of the kernel.
\<close>

section \<open>The semaphores of the kernel\<close>

text \<open>
  \<open>k_id\<close> is the identifier of the last set that was created, \<open>k_sems\<close> its values while it exists, and \<open>k_undo i\<close>
  what the kernel adds to them at the end of the process \<open>i\<close>.
\<close>

record sem_kernel =
  k_id :: nat
  k_sems :: "int list option"
  k_undo :: "nat \<Rightarrow> int list"

abbreviation (input) SEMVMX :: int where "SEMVMX \<equiv> 32767"

datatype sem_result = Sem_Done "int list" "int list" | Sem_Err | Sem_Wait

text \<open>The operations of one \<open>semop\<close> on the values and the undo values; nothing is kept unless all are done.\<close>

fun sem_ops :: "(nat \<times> int) list \<Rightarrow> int list \<Rightarrow> int list \<Rightarrow> sem_result" where
  "sem_ops [] vals adj = Sem_Done vals adj"
| "sem_ops ((num, d) # ops) vals adj =
     (let v = vals ! num + d; u = adj ! num - d
      in if v < 0 then Sem_Wait
         else if v > SEMVMX \<or> u < - SEMVMX - 1 \<or> u > SEMVMX then Sem_Err
         else sem_ops ops (vals[num := v]) (adj[num := u]))"

definition sem_valid :: "sem_kernel \<Rightarrow> nat \<Rightarrow> int list option" where
  "sem_valid k semid = (if k_id k = semid then k_sems k else None)"

definition semop_undo :: "sem_kernel \<Rightarrow> nat \<Rightarrow> nat \<Rightarrow> (nat \<times> int) list \<Rightarrow> sem_result" where
  "semop_undo k i semid ops =
     (case sem_valid k semid of
        None \<Rightarrow> Sem_Err
      | Some vals \<Rightarrow>
          if ops = [] \<or> (\<exists>op \<in> set ops. length vals \<le> fst op) then Sem_Err
          else sem_ops ops vals (k_undo k i))"

text \<open>The end of the process \<open>i\<close>: the values stay in their range.\<close>

definition exit_sem :: "nat \<Rightarrow> sem_kernel \<Rightarrow> sem_kernel" where
  "exit_sem i k =
     k\<lparr>k_sems := map_option (\<lambda>vals. map2 (\<lambda>v u. max 0 (min SEMVMX (v + u))) vals (k_undo k i)) (k_sems k),
       k_undo := (k_undo k)(i := [0, 0, 0])\<rparr>"

section \<open>The process\<close>

text \<open>
  Where a process stands: before the two calls of \<open>semget\<close>, before \<open>SETALL\<close>, in the loop, before \<open>print_all_sems\<close>,
  and after the return of main with a value. \<open>sem_num\<close> and \<open>cmd\<close> are not initialised (\<open>None\<close>); \<open>p_ops\<close> are the
  first \<open>ops_count\<close> cells of \<open>ops\<close>; \<open>p_line\<close> is the buffer of \<open>getline\<close>, which is left as it is at the end of
  the input.
\<close>

datatype sem_pc = P_Open | P_Connect | P_Init | P_Loop | P_Print | P_Exit int

datatype sem_print = P_Values "int list" | P_Error | P_Unknown

record sem_proc =
  p_pc :: sem_pc
  p_semid :: nat
  p_ops :: "(nat \<times> int) list"
  is_inside_txn :: bool
  p_num :: "int option"
  p_cmd :: "char option"
  p_line :: "string option"
  p_input :: "string list"
  p_out :: "sem_print list"

definition sem_start :: "string list \<Rightarrow> sem_proc" where
  "sem_start input = \<lparr>p_pc = P_Open, p_semid = 0, p_ops = [], is_inside_txn = False, p_num = None, p_cmd = None,
     p_line = None, p_input = input, p_out = []\<rparr>"

definition print :: "sem_print \<Rightarrow> sem_proc \<Rightarrow> sem_proc" where
  "print x p = p\<lparr>p_out := p_out p @ [x]\<rparr>"

definition print_all_sems :: "sem_kernel \<Rightarrow> sem_proc \<Rightarrow> sem_proc" where
  "print_all_sems k p = print (case sem_valid k (p_semid p) of None \<Rightarrow> P_Error | Some vals \<Rightarrow> P_Values vals) p"

text \<open>\<open>sscanf(line, "%d %c", &sem_num, &cmd)\<close>\<close>

definition scan_command :: "string \<Rightarrow> sem_proc \<Rightarrow> sem_proc" where
  "scan_command line p =
     (case scan_d line of
        None \<Rightarrow> p
      | Some (n, rest) \<Rightarrow>
          (case scan_c (skip_spaces rest) of
             None \<Rightarrow> p\<lparr>p_num := Some n\<rparr>
           | Some (c, _) \<Rightarrow> p\<lparr>p_num := Some n, p_cmd := Some c\<rparr>))"

text \<open>The last branch of the loop: the operation of a line, its number cut to 16 bits.\<close>

definition sem_operation :: "nat \<Rightarrow> sem_kernel \<Rightarrow> sem_proc \<Rightarrow> (sem_kernel \<times> sem_proc) cres option" where
  "sem_operation i k p =
     (case p_cmd p of
        None \<Rightarrow> Some (Inl UninitRead)
      | Some c \<Rightarrow>
          if c \<noteq> CHR ''-'' \<and> c \<noteq> CHR ''+'' then Some (Inr (k, print P_Unknown p))
          else if length (p_ops p) \<ge> 100 then Some (Inl OutOfBounds)
          else (case p_num p of
             None \<Rightarrow> Some (Inl UninitRead)
           | Some n \<Rightarrow>
               let op = (unat (word_of_int (n - 1) :: u16), if c = CHR ''-'' then -1 else 1)
               in if is_inside_txn p then Some (Inr (k, p\<lparr>p_ops := p_ops p @ [op]\<rparr>))
                  else (case semop_undo k i (p_semid p) [op] of
                     Sem_Wait \<Rightarrow> None
                   | Sem_Err \<Rightarrow> Some (Inr (k, print P_Error p))
                   | Sem_Done vals adj \<Rightarrow>
                       Some (Inr (k\<lparr>k_sems := Some vals, k_undo := (k_undo k)(i := adj)\<rparr>, p\<lparr>p_pc := P_Print\<rparr>)))))"

definition sem_line :: "nat \<Rightarrow> sem_kernel \<Rightarrow> string \<Rightarrow> sem_proc \<Rightarrow> (sem_kernel \<times> sem_proc) cres option" where
  "sem_line i k line p =
     (if line = ''begin'' then Some (Inr (k, p\<lparr>is_inside_txn := True\<rparr>))
      else if line = ''commit''
      then (case semop_undo k i (p_semid p) (p_ops p) of
              Sem_Wait \<Rightarrow> None
            | Sem_Err \<Rightarrow> Some (Inr (k, print P_Error p))
            | Sem_Done vals adj \<Rightarrow>
                Some (Inr (k\<lparr>k_sems := Some vals, k_undo := (k_undo k)(i := adj)\<rparr>,
                           p\<lparr>is_inside_txn := False, p_ops := [], p_pc := P_Print\<rparr>)))
      else if line = ''rollback'' then Some (Inr (k, p\<lparr>is_inside_txn := False, p_ops := []\<rparr>))
      else if line = ''delete''
      then (let (k, p) = (if sem_valid k (p_semid p) = None then (k, print P_Error p)
                          else (k\<lparr>k_sems := None, k_undo := \<lambda>_. [0, 0, 0]\<rparr>, p))
            in Some (Inr (exit_sem i k, p\<lparr>p_pc := P_Exit 0\<rparr>)))
      else if line = ''quit'' then Some (Inr (exit_sem i k, p\<lparr>p_pc := P_Exit 0\<rparr>))
      else if line = ''show'' then Some (Inr (k, p\<lparr>p_pc := P_Print\<rparr>))
      else sem_operation i k (scan_command line p))"

text \<open>
  \<open>getline\<close> and the removal of the last character. At the end of the input the buffer still holds the last line; a
  first call without input allocates a buffer and leaves it uninitialised.
\<close>

definition sem_getline :: "sem_proc \<Rightarrow> (string \<times> sem_proc) cres" where
  "sem_getline p =
     rbind (case p_input p of
              l # ls \<Rightarrow> Inr (l, p\<lparr>p_input := ls\<rparr>)
            | [] \<Rightarrow> (case p_line p of None \<Rightarrow> Inl UninitRead | Some l \<Rightarrow> Inr (l, p))) (\<lambda>(l, p).
     if l = [] then Inl OutOfBounds else Inr (butlast l, p\<lparr>p_line := Some (butlast l)\<rparr>))"

definition sem_step :: "nat \<Rightarrow> sem_kernel \<Rightarrow> sem_proc \<Rightarrow> (sem_kernel \<times> sem_proc) cres option" where
  "sem_step i k p =
     (case p_pc p of
        P_Open \<Rightarrow>
          if k_sems k = None
          then Some (Inr (k\<lparr>k_id := k_id k + 1, k_sems := Some [0, 0, 0], k_undo := \<lambda>_. [0, 0, 0]\<rparr>,
                          p\<lparr>p_semid := k_id k + 1, p_pc := P_Init\<rparr>))
          else Some (Inr (k, p\<lparr>p_pc := P_Connect\<rparr>))
      | P_Connect \<Rightarrow>
          if k_sems k = None then Some (Inr (exit_sem i k, print P_Error p\<lparr>p_pc := P_Exit (-1)\<rparr>))
          else Some (Inr (k, p\<lparr>p_semid := k_id k, p_pc := P_Loop\<rparr>))
      | P_Init \<Rightarrow>
          Some (Inr (if sem_valid k (p_semid p) = None then k
                     else k\<lparr>k_sems := Some [1, 2, 3], k_undo := \<lambda>_. [0, 0, 0]\<rparr>, p\<lparr>p_pc := P_Print\<rparr>))
      | P_Loop \<Rightarrow>
          (case sem_getline p of Inl e \<Rightarrow> Some (Inl e) | Inr (line, p) \<Rightarrow> sem_line i k line p)
      | P_Print \<Rightarrow> Some (Inr (k, (print_all_sems k p)\<lparr>p_pc := P_Loop\<rparr>))
      | P_Exit _ \<Rightarrow> None)"

section \<open>The system\<close>

inductive sems_step :: "sem_kernel \<times> sem_proc list \<Rightarrow> sem_kernel \<times> sem_proc list \<Rightarrow> bool" where
  "i < length ps \<Longrightarrow> sem_step i k (ps ! i) = Some (Inr (k', p)) \<Longrightarrow> sems_step (k, ps) (k', ps[i := p])"

end
