(* ===== verification/Semaphores_Spec.thy ===== *)
theory Semaphores_Spec
  imports Semaphores
begin

text \<open>
  A transaction is one atomic change, sessions conserve what they share and a session alone leaves no
  trace; and what the loop does at the end of its input.
\<close>

section \<open>One semop\<close>

text \<open>What operations add to the semaphore \<open>j\<close>.\<close>

definition delta :: "nat \<Rightarrow> (nat \<times> int) list \<Rightarrow> int" where
  "delta j ops = sum_list (map (\<lambda>op. if fst op = j then snd op else 0) ops)"

lemma delta_simps [simp]: "delta j [] = 0" "delta j ((n, d) # ops) = (if n = j then d else 0) + delta j ops"
  by (simp_all add: delta_def)

definition in_range :: "int list \<Rightarrow> bool" where
  "in_range vals \<longleftrightarrow> (\<forall>v \<in> set vals. 0 \<le> v \<and> v \<le> SEMVMX)"

lemma sem_ops_done:
  assumes "sem_ops ops vals adj = Sem_Done vals' adj'" "\<forall>op \<in> set ops. fst op < length vals"
    and "length adj = length vals"
  shows "length vals' = length vals \<and> length adj' = length vals \<and>
    (\<forall>j < length vals. vals' ! j = vals ! j + delta j ops \<and> adj' ! j = adj ! j - delta j ops) \<and>
    (in_range vals \<longrightarrow> in_range vals')"
  using assms
proof (induction ops vals adj rule: sem_ops.induct)
  case (2 num d ops vals adj)
  let ?v = "vals ! num + d" and ?u = "adj ! num - d"
  have v: "0 \<le> ?v" "?v \<le> SEMVMX" and rest: "sem_ops ops (vals[num := ?v]) (adj[num := ?u]) = Sem_Done vals' adj'"
    using 2(2) by (auto simp: Let_def split: if_splits)
  have "in_range vals \<Longrightarrow> in_range (vals[num := ?v])"
    using v set_update_subset_insert[of vals num ?v] by (auto simp: in_range_def)
  then show ?case
    using 2(1)[OF refl refl _ _ rest] v 2(2-4) by (auto simp: Let_def nth_list_update split: if_splits)
qed simp

lemma semop_done:
  assumes "semop_undo k i semid ops = Sem_Done vals' adj'" "length (k_undo k i) = 3"
    and "k_sems k = Some vals" "length vals = 3"
  shows "length vals' = 3" "length adj' = 3" "j < 3 \<Longrightarrow> vals' ! j = vals ! j + delta j ops"
    "j < 3 \<Longrightarrow> adj' ! j = k_undo k i ! j - delta j ops" "in_range vals \<Longrightarrow> in_range vals'" "k_id k = semid"
proof -
  have "k_id k = semid" "\<not> (\<exists>op \<in> set ops. 3 \<le> fst op)" "sem_ops ops vals (k_undo k i) = Sem_Done vals' adj'"
    using assms by (auto simp: semop_undo_def sem_valid_def split: option.splits if_splits)
  moreover from this(2) have "\<forall>op \<in> set ops. fst op < length vals"
    using assms(4) by (simp add: not_le)
  ultimately show "length vals' = 3" "length adj' = 3" "j < 3 \<Longrightarrow> vals' ! j = vals ! j + delta j ops"
    "j < 3 \<Longrightarrow> adj' ! j = k_undo k i ! j - delta j ops" "in_range vals \<Longrightarrow> in_range vals'" "k_id k = semid"
    using sem_ops_done[of ops vals "k_undo k i" vals' adj'] assms(2,4) by simp_all
qed

section \<open>The lines of a transaction\<close>

definition op_line :: "nat \<times> bool \<Rightarrow> string" where
  "op_line op = show_int (int (fst op)) @ [CHR '' '', if snd op then CHR ''+'' else CHR ''-'']"

definition op_of :: "nat \<times> bool \<Rightarrow> nat \<times> int" where
  "op_of op = (fst op - 1, if snd op then 1 else -1)"

lemma scan_op_line:
  assumes "n \<in> {1, 2, 3}"
  shows "scan_command (op_line (n, up)) p = p\<lparr>p_num := Some (int n), p_cmd := Some (if up then CHR ''+'' else CHR ''-'')\<rparr>"
proof -
  let ?c = "if up then CHR ''+'' else CHR ''-''"
  have "scan_d ([] @ show_int (int n) @ [CHR '' '', ?c]) = Some (int n, [CHR '' '', ?c])"
    by (rule scan_show_int) (use assms in \<open>auto simp: isdigit_def\<close>)
  moreover have "skip_spaces [CHR '' '', ?c] = [?c]"
    by (simp add: skip_spaces_def isspace_def)
  ultimately show ?thesis
    by (simp add: scan_command_def op_line_def)
qed

lemma op_line_no_word:
  "op_line op \<notin> {''begin'', ''commit'', ''rollback'', ''delete'', ''quit'', ''show''}"
proof
  assume "op_line op \<in> {''begin'', ''commit'', ''rollback'', ''delete'', ''quit'', ''show''}"
  then have "last (op_line op) \<in> {CHR ''n'', CHR ''t'', CHR ''k'', CHR ''e'', CHR ''w''}"
    by auto
  then show False
    by (simp add: op_line_def split: if_splits)
qed

text \<open>A step that neither changes the kernel nor depends on it.\<close>

definition quiet :: "nat \<Rightarrow> sem_proc \<Rightarrow> sem_proc \<Rightarrow> bool" where
  "quiet i p p' \<longleftrightarrow> (\<forall>k. sem_step i k p = Some (Inr (k, p')))"

definition in_loop :: "sem_proc \<Rightarrow> bool \<Rightarrow> (nat \<times> int) list \<Rightarrow> string list \<Rightarrow> bool" where
  "in_loop p txn ops input \<longleftrightarrow> p_pc p = P_Loop \<and> is_inside_txn p = txn \<and> p_ops p = ops \<and> p_input p = input"

lemma begin_quiet: "in_loop p txn ops (''begin\<newline>'' # ls) \<Longrightarrow> \<exists>p'. quiet i p p' \<and> in_loop p' True ops ls \<and> p_semid p' = p_semid p"
  by (simp add: quiet_def in_loop_def sem_step_def sem_getline_def sem_line_def)

lemma scan_operation:
  assumes "fst op \<in> {1, 2, 3}" "length (p_ops p) < 100"
  shows "sem_operation i k (scan_command (op_line op) p) =
    (let p = p\<lparr>p_num := Some (int (fst op)), p_cmd := Some (if snd op then CHR ''+'' else CHR ''-'')\<rparr>
     in if is_inside_txn p then Some (Inr (k, p\<lparr>p_ops := p_ops p @ [op_of op]\<rparr>))
        else (case semop_undo k i (p_semid p) [op_of op] of
           Sem_Wait \<Rightarrow> None
         | Sem_Err \<Rightarrow> Some (Inr (k, print P_Error p))
         | Sem_Done vals adj \<Rightarrow>
             Some (Inr (k\<lparr>k_sems := Some vals, k_undo := (k_undo k)(i := adj)\<rparr>, p\<lparr>p_pc := P_Print\<rparr>))))"
proof -
  obtain n up where op: "op = (n, up)"
    by (cases op)
  from assms(1) op consider "n = 1" | "n = 2" | "n = 3"
    by auto
  then have num: "unat (word_of_int (int n - 1) :: u16) = n - 1"
    by cases simp_all
  show ?thesis
    using assms op by (simp add: scan_op_line sem_operation_def op_of_def num Let_def del: of_int_diff)
qed

lemma op_quiet:
  assumes "in_loop p True ops ((op_line op @ [ch_nl]) # ls)" "fst op \<in> {1, 2, 3}" "length ops < 100"
  shows "\<exists>p'. quiet i p p' \<and> in_loop p' True (ops @ [op_of op]) ls \<and> p_semid p' = p_semid p"
  using assms op_line_no_word[of op]
  by (auto simp: quiet_def in_loop_def sem_step_def sem_getline_def sem_line_def scan_operation Let_def)

lemma ops_quiet:
  "in_loop p True ops0 (map (\<lambda>op. op_line op @ [ch_nl]) ops @ ls) \<Longrightarrow> \<forall>op \<in> set ops. fst op \<in> {1, 2, 3} \<Longrightarrow>
     length ops0 + length ops \<le> 100 \<Longrightarrow>
     \<exists>p'. (quiet i ^^ length ops) p p' \<and> in_loop p' True (ops0 @ map op_of ops) ls \<and> p_semid p' = p_semid p"
proof (induction ops arbitrary: p ops0)
  case (Cons op ops)
  obtain p1 where p1: "quiet i p p1" "in_loop p1 True (ops0 @ [op_of op]) (map (\<lambda>op. op_line op @ [ch_nl]) ops @ ls)"
      "p_semid p1 = p_semid p"
    using op_quiet[of p ops0 op _ i] Cons.prems by auto
  obtain p2 where "(quiet i ^^ length ops) p1 p2" "in_loop p2 True (ops0 @ [op_of op] @ map op_of ops) ls"
      "p_semid p2 = p_semid p1"
    using Cons.IH[OF p1(2)] Cons.prems by auto
  then show ?case
    using p1 relpowp_Suc_I2[of "quiet i" p p1 "length ops" p2] by (intro exI[of _ p2]) auto
qed auto

definition transaction :: "(nat \<times> bool) list \<Rightarrow> string list" where
  "transaction ops = ''begin\<newline>'' # map (\<lambda>op. op_line op @ [ch_nl]) ops @ [''commit\<newline>'']"

text \<open>What one commit does with the semaphores: it waits, fails and changes nothing, or makes every change.\<close>

definition committed :: "nat \<Rightarrow> (nat \<times> int) list \<Rightarrow> sem_kernel \<Rightarrow> sem_kernel \<Rightarrow> bool" where
  "committed i ops k k' \<longleftrightarrow>
     k_id k' = k_id k \<and> (\<forall>i'. i' \<noteq> i \<longrightarrow> k_undo k' i' = k_undo k i') \<and>
     (\<exists>vals vals'. k_sems k = Some vals \<and> k_sems k' = Some vals' \<and> length vals' = 3 \<and> in_range vals' \<and>
        (\<forall>j < 3. vals' ! j = vals ! j + delta j ops \<and> k_undo k' i ! j = k_undo k i ! j - delta j ops))"

definition kernel_ok :: "sem_kernel \<Rightarrow> bool" where
  "kernel_ok k \<longleftrightarrow> (\<exists>vals. k_sems k = Some vals \<and> length vals = 3 \<and> in_range vals) \<and> (\<forall>i. length (k_undo k i) = 3)"

lemma kernel_okE:
  assumes "kernel_ok k"
  obtains vals where "k_sems k = Some vals" "length vals = 3" "in_range vals" "\<And>i. length (k_undo k i) = 3"
  using assms by (auto simp: kernel_ok_def)

lemma semop_committed:
  assumes "kernel_ok k" "semop_undo k i semid ops = Sem_Done vals' adj'"
  shows "committed i ops k (k\<lparr>k_sems := Some vals', k_undo := (k_undo k)(i := adj')\<rparr>)"
proof -
  obtain vals where vals: "k_sems k = Some vals" "length vals = 3" "in_range vals" "length (k_undo k i) = 3"
    using assms(1) by (rule kernel_okE) blast
  show ?thesis
    unfolding committed_def using vals semop_done[OF assms(2) vals(4,1,2)] by auto
qed

lemma committed_kernel_ok: "kernel_ok k \<Longrightarrow> semop_undo k i semid ops = Sem_Done vals' adj' \<Longrightarrow>
  kernel_ok (k\<lparr>k_sems := Some vals', k_undo := (k_undo k)(i := adj')\<rparr>)"
  using semop_done[of k i semid ops vals' adj'] by (elim kernel_okE) (auto simp: kernel_ok_def)

text \<open>(C26) A transaction of at most 100 operations is one atomic change. Its lines up to the commit are steps that
  neither change the semaphores nor depend on them, whatever the other processes do in between. The step of the
  commit waits, or fails, changes nothing and keeps the transaction, or makes all the changes of its lines at once
  and ends the transaction.\<close>

theorem transaction_atomic:
  assumes "in_loop p txn [] (transaction ops @ ls)" "\<forall>op \<in> set ops. fst op \<in> {1, 2, 3}" "length ops \<le> 100"
  shows "\<exists>p'. (quiet i ^^ (length ops + 1)) p p' \<and>
    (\<forall>k. kernel_ok k \<longrightarrow>
       (case semop_undo k i (p_semid p) (map op_of ops) of
          Sem_Wait \<Rightarrow> sem_step i k p' = None
        | Sem_Err \<Rightarrow> \<exists>p2. sem_step i k p' = Some (Inr (k, p2)) \<and> in_loop p2 True (map op_of ops) ls \<and>
            p_out p2 = p_out p' @ [P_Error]
        | Sem_Done _ _ \<Rightarrow> \<exists>k2 p2. sem_step i k p' = Some (Inr (k2, p2)) \<and> committed i (map op_of ops) k k2 \<and>
            p_pc p2 = P_Print \<and> \<not> is_inside_txn p2 \<and> p_ops p2 = [] \<and> p_input p2 = ls))"
proof -
  obtain p1 where p1: "quiet i p p1" "in_loop p1 True [] (map (\<lambda>op. op_line op @ [ch_nl]) ops @ ''commit\<newline>'' # ls)"
      "p_semid p1 = p_semid p"
  proof -
    have "in_loop p txn [] (''begin\<newline>'' # (map (\<lambda>op. op_line op @ [ch_nl]) ops @ ''commit\<newline>'' # ls))"
      using assms(1) by (simp add: transaction_def)
    from begin_quiet[OF this] show ?thesis using that by blast
  qed
  obtain p2 where p2: "(quiet i ^^ length ops) p1 p2" "in_loop p2 True (map op_of ops) (''commit\<newline>'' # ls)"
      "p_semid p2 = p_semid p1"
    using ops_quiet[OF p1(2) assms(2)] assms(3) by auto
  have run: "(quiet i ^^ (length ops + 1)) p p2"
    using relpowp_Suc_I2[OF p1(1) p2(1)] by simp
  have commit: "sem_step i k p2 = (case semop_undo k i (p_semid p) (map op_of ops) of Sem_Wait \<Rightarrow> None
      | Sem_Err \<Rightarrow> Some (Inr (k, print P_Error p2\<lparr>p_input := ls, p_line := Some ''commit''\<rparr>))
      | Sem_Done vals adj \<Rightarrow> Some (Inr (k\<lparr>k_sems := Some vals, k_undo := (k_undo k)(i := adj)\<rparr>,
          p2\<lparr>p_input := ls, p_line := Some ''commit'', is_inside_txn := False, p_ops := [], p_pc := P_Print\<rparr>)))" for k
    using p2(2,3) p1(3)
    by (simp add: in_loop_def sem_step_def sem_getline_def sem_line_def print_def split: sem_result.split)
  show ?thesis
    using run p2(2) semop_committed[of _ i "p_semid p" "map op_of ops"]
    by (intro exI[of _ p2] conjI allI impI)
      (simp_all add: commit in_loop_def print_def split: sem_result.split)
qed

section \<open>Sessions\<close>

definition live_pc :: "sem_proc \<Rightarrow> bool" where
  "live_pc p \<longleftrightarrow> p_pc p = P_Loop \<or> p_pc p = P_Print"

text \<open>What a step of the loop does with the semaphores.\<close>

inductive session_effect :: "nat \<Rightarrow> sem_kernel \<Rightarrow> sem_kernel \<Rightarrow> sem_proc \<Rightarrow> bool" for i k where
  keep: "live_pc p' \<Longrightarrow> session_effect i k k p'"
| commit: "live_pc p' \<Longrightarrow> semop_undo k i semid ops = Sem_Done vals adj \<Longrightarrow>
     session_effect i k (k\<lparr>k_sems := Some vals, k_undo := (k_undo k)(i := adj)\<rparr>) p'"
| leave: "p_pc p' = P_Exit 0 \<Longrightarrow> session_effect i k (exit_sem i k) p'"
| remove: "p_pc p' = P_Exit 0 \<Longrightarrow> k_sems k' = None \<Longrightarrow> session_effect i k k' p'"

lemma print_sel [simp]: "p_pc (print x p) = p_pc p"
  by (simp add: print_def)

lemma sem_operation_effect:
  assumes "sem_operation i k p = Some (Inr (k', p'))" "p_pc p = P_Loop"
  shows "session_effect i k k' p'"
  using assms by (auto simp: sem_operation_def Let_def live_pc_def split: option.splits if_splits sem_result.splits
      intro: keep commit)

lemma if_resultE:
  assumes "(if b then x else y) = z"
  obtains "b" "x = z" | "\<not> b" "y = z"
  using assms by (cases b) auto

lemma commit_effect:
  assumes "(case semop_undo k i semid ops of Sem_Wait \<Rightarrow> None | Sem_Err \<Rightarrow> Some (Inr (k, print P_Error p))
      | Sem_Done vals adj \<Rightarrow> Some (Inr (k\<lparr>k_sems := Some vals, k_undo := (k_undo k)(i := adj)\<rparr>, q))) = Some (Inr (k', p'))"
    and "live_pc p" "live_pc q"
  shows "session_effect i k k' p'"
proof -
  have "live_pc (print P_Error p)"
    using assms(2) by (simp add: live_pc_def)
  then show ?thesis
    using assms by (cases "semop_undo k i semid ops") (auto intro: keep commit)
qed

lemma sem_line_effect:
  assumes "sem_line i k line p = Some (Inr (k', p'))" "p_pc p = P_Loop"
  shows "session_effect i k k' p'"
proof -
  have live: "live_pc p"
    using assms(2) by (simp add: live_pc_def)
  have scan: "p_pc (scan_command line p) = P_Loop"
    using assms(2) by (simp add: scan_command_def split: option.split prod.split)
  show ?thesis
    using assms(1) unfolding sem_line_def
  proof (elim if_resultE)
    assume "Some (Inr (k, p\<lparr>is_inside_txn := True\<rparr>)) = Some (Inr (k', p'))"
    then show ?thesis using assms(2) by (auto simp: live_pc_def intro: keep)
  next
    assume "(case semop_undo k i (p_semid p) (p_ops p) of Sem_Wait \<Rightarrow> None | Sem_Err \<Rightarrow> Some (Inr (k, print P_Error p))
      | Sem_Done vals adj \<Rightarrow> Some (Inr (k\<lparr>k_sems := Some vals, k_undo := (k_undo k)(i := adj)\<rparr>,
          p\<lparr>is_inside_txn := False, p_ops := [], p_pc := P_Print\<rparr>))) = Some (Inr (k', p'))"
    then show ?thesis by (rule commit_effect) (use live in \<open>simp_all add: live_pc_def\<close>)
  next
    assume "Some (Inr (k, p\<lparr>is_inside_txn := False, p_ops := []\<rparr>)) = Some (Inr (k', p'))"
    then show ?thesis using assms(2) by (auto simp: live_pc_def intro: keep)
  next
    assume "(let (k, p) = (if sem_valid k (p_semid p) = None then (k, print P_Error p)
                          else (k\<lparr>k_sems := None, k_undo := \<lambda>_. [0, 0, 0]\<rparr>, p))
            in Some (Inr (exit_sem i k, p\<lparr>p_pc := P_Exit 0\<rparr>))) = Some (Inr (k', p'))"
    then show ?thesis
      by (cases "sem_valid k (p_semid p) = None") (auto simp: exit_sem_def intro: remove leave[unfolded exit_sem_def])
  next
    assume "Some (Inr (exit_sem i k, p\<lparr>p_pc := P_Exit 0\<rparr>)) = Some (Inr (k', p'))"
    then show ?thesis by (auto intro: leave)
  next
    assume "Some (Inr (k, p\<lparr>p_pc := P_Print\<rparr>)) = Some (Inr (k', p'))"
    then show ?thesis by (auto simp: live_pc_def intro: keep)
  next
    assume "sem_operation i k (scan_command line p) = Some (Inr (k', p'))"
    then show ?thesis by (rule sem_operation_effect[OF _ scan])
  qed
qed

lemma session_step:
  assumes "sem_step i k p = Some (Inr (k', p'))" "live_pc p"
  shows "session_effect i k k' p'"
proof (cases "p_pc p = P_Print")
  case True
  then show ?thesis
    using assms(1) by (auto simp: sem_step_def live_pc_def intro: keep)
next
  case False
  then have pc: "p_pc p = P_Loop"
    using assms(2) by (simp add: live_pc_def)
  obtain line q where q: "sem_getline p = Inr (line, q)" "sem_line i k line q = Some (Inr (k', p'))"
    using assms(1) pc by (auto simp: sem_step_def split: sum.splits)
  from q(1) have "p_pc q = P_Loop"
    using pc by (auto simp: sem_getline_def split: list.splits option.splits if_splits)
  with q(2) show ?thesis
    by (rule sem_line_effect)
qed

text \<open>The value of a semaphore together with what the ends of the processes will add to it.\<close>

definition balance :: "nat \<Rightarrow> sem_kernel \<Rightarrow> nat \<Rightarrow> int" where
  "balance n k j = (case k_sems k of None \<Rightarrow> 0 | Some vals \<Rightarrow> vals ! j + (\<Sum>i < n. k_undo k i ! j))"

lemma committed_balance:
  assumes "committed i ops k k'" "i < n" "j < 3"
  shows "balance n k' j = balance n k j"
proof -
  obtain vals vals' where v: "k_sems k = Some vals" "k_sems k' = Some vals'" "vals' ! j = vals ! j + delta j ops"
      "k_undo k' i ! j = k_undo k i ! j - delta j ops"
    using assms(1,3) unfolding committed_def by blast
  have "(\<Sum>i < n. k_undo k' i ! j) = (\<Sum>i < n. k_undo k i ! j) - delta j ops"
    using sum_change[OF assms(2), of "\<lambda>i. k_undo k' i ! j" "\<lambda>i. k_undo k i ! j"] assms(1) v(4)
    by (simp add: committed_def)
  then show ?thesis
    using v by (simp add: balance_def)
qed

lemma session_conserves:
  assumes "kernel_ok k" "session_effect i k k' p'" "live_pc p'" "i < n"
  shows "kernel_ok k' \<and> (\<forall>j < 3. balance n k' j = balance n k j)"
  using assms(2)
proof cases
  case (commit semid ops vals adj)
  then show ?thesis
    using committed_kernel_ok[OF assms(1)] committed_balance[OF semop_committed[OF assms(1)] assms(4)] by blast
qed (use assms in \<open>simp_all add: live_pc_def\<close>)

lemma sems_step_cases:
  assumes "sems_step (k, ps) (k', ps')"
  obtains i p' where "i < length ps" "sem_step i k (ps ! i) = Some (Inr (k', p'))" "ps' = ps[i := p']"
  using assms by (auto elim: sems_step.cases)

lemma sem_exit_stays: "p_pc p = P_Exit r \<Longrightarrow> sem_step i k p = None"
  by (simp add: sem_step_def)

lemma sessions_step:
  assumes "sems_step (k, ps) (k', ps')" "kernel_ok k" "list_all live_pc ps" "list_all live_pc ps'"
  shows "kernel_ok k' \<and> (\<forall>j < 3. balance (length ps) k' j = balance (length ps) k j)"
proof -
  obtain i p' where i: "i < length ps" "sem_step i k (ps ! i) = Some (Inr (k', p'))" "ps' = ps[i := p']"
    using assms(1) by (rule sems_step_cases)
  have "live_pc (ps ! i)" "live_pc p'"
    using assms(3,4) i(1,3) by (auto simp: list_all_length dest: spec[of _ i])
  then show ?thesis
    using session_conserves[OF assms(2) session_step[OF i(2)]] i(1) by simp
qed

text \<open>A process of the loop has either ended or is still in the loop.\<close>

lemma sessions_back:
  assumes "sems_step (k, ps) (k', ps')" "list_all (\<lambda>p. live_pc p \<or> p_pc p = P_Exit 0) ps"
  shows "list_all (\<lambda>p. live_pc p \<or> p_pc p = P_Exit 0) ps' \<and> (list_all live_pc ps' \<longrightarrow> list_all live_pc ps)"
proof -
  obtain i p' where i: "i < length ps" "sem_step i k (ps ! i) = Some (Inr (k', p'))" "ps' = ps[i := p']"
    using assms(1) by (rule sems_step_cases)
  have live: "live_pc (ps ! i)"
    using assms(2) i(1,2) by (auto simp: list_all_length sem_exit_stays)
  then have "live_pc p' \<or> p_pc p' = P_Exit 0"
    using session_step[OF i(2)] by (auto elim: session_effect.cases)
  then show ?thesis
    using assms(2) i(1,3) live by (auto simp: list_all_length nth_list_update split: if_splits)
qed


text \<open>A session alone: live, it has kept the balance; ended, it has restored the values or deleted the semaphores.\<close>

definition alone_inv :: "int list \<Rightarrow> sem_kernel \<Rightarrow> sem_proc \<Rightarrow> bool" where
  "alone_inv vals0 k p \<longleftrightarrow>
     (if live_pc p then kernel_ok k \<and> (\<forall>j < 3. balance 1 k j = vals0 ! j)
      else p_pc p = P_Exit 0 \<and> (k_sems k = None \<or> k_sems k = Some vals0))"

lemma exit_restores:
  assumes "kernel_ok k" "\<forall>j < 3. balance 1 k j = vals0 ! j" "length vals0 = 3" "in_range vals0"
  shows "k_sems (exit_sem 0 k) = Some vals0"
proof -
  obtain vals where v: "k_sems k = Some vals" "length vals = 3" "length (k_undo k 0) = 3"
    using assms(1) by (rule kernel_okE) blast
  have "max 0 (min SEMVMX (vals ! j + k_undo k 0 ! j)) = vals0 ! j" if "j < 3" for j
  proof -
    have "vals0 ! j \<in> set vals0"
      using that assms(3) by simp
    then have "0 \<le> vals0 ! j" "vals0 ! j \<le> SEMVMX"
      using assms(4) by (auto simp: in_range_def)
    moreover have "vals ! j + k_undo k 0 ! j = vals0 ! j"
      using assms(2) that v(1) by (simp add: balance_def)
    ultimately show ?thesis by simp
  qed
  then have "map2 (\<lambda>v u. max 0 (min SEMVMX (v + u))) vals (k_undo k 0) = vals0"
    using v assms(3) by (intro nth_equalityI) simp_all
  then show ?thesis
    by (simp add: exit_sem_def v(1))
qed

lemma alone_step:
  assumes "alone_inv vals0 k p" "sem_step 0 k p = Some (Inr (k', p'))" "length vals0 = 3" "in_range vals0"
  shows "alone_inv vals0 k' p'"
proof -
  have live: "live_pc p"
    using assms(1,2) by (auto simp: alone_inv_def sem_exit_stays split: if_splits)
  have inv: "kernel_ok k" "\<forall>j < 3. balance 1 k j = vals0 ! j"
    using assms(1) live by (simp_all add: alone_inv_def)
  note effect = session_step[OF assms(2) live]
  show ?thesis
  proof (cases "live_pc p'")
    case True
    then show ?thesis
      using session_conserves[OF inv(1) effect True, of 1] inv(2) by (simp add: alone_inv_def)
  next
    case False
    with effect show ?thesis
      by cases (use exit_restores[OF inv assms(3,4)] in \<open>auto simp: alone_inv_def live_pc_def\<close>)
  qed
qed

text \<open>A session alone leaves no trace: whatever its lines, when it ends each semaphore has the value from before
  it, also after committed transactions, unless the set was deleted.\<close>

theorem session_leaves_no_trace:
  assumes "sems_step\<^sup>*\<^sup>* (k, [p]) (k', [p'])" "kernel_ok k" "k_undo k 0 = [0, 0, 0]" "live_pc p" "\<not> live_pc p'"
  shows "p_pc p' = P_Exit 0 \<and> (k_sems k' = None \<or> k_sems k' = k_sems k)"
proof -
  obtain vals0 where v: "k_sems k = Some vals0" "length vals0 = 3" "in_range vals0"
    using assms(2) by (rule kernel_okE) blast
  have zero: "[0, 0, 0] ! j = (0::int)" if "j < 3" for j :: nat
    using that by (auto simp: numeral_3_eq_3 less_Suc_eq)
  have "length ps' = 1 \<and> alone_inv vals0 k1 (hd ps')" if "sems_step\<^sup>*\<^sup>* (k, [p]) (k1, ps')" for k1 ps'
    using that
  proof (induction "(k1, ps')" arbitrary: k1 ps' rule: rtranclp_induct)
    case base
    then show ?case
      using assms(2-4) v(1) zero by (simp add: alone_inv_def balance_def)
  next
    case (step s)
    obtain k0 ps0 where s: "s = (k0, ps0)"
      by (cases s)
    obtain q where q: "ps0 = [q]" "alone_inv vals0 k0 q"
      using step(3)[OF s] by (cases ps0) auto
    from step(2) show ?case
      unfolding s by (rule sems_step_cases) (use alone_step[OF q(2) _ v(2,3)] q(1) in auto)
  qed
  from this[OF assms(1)] show ?thesis
    using assms(5) v(1) by (auto simp: alone_inv_def)
qed

section \<open>The end of the input\<close>

text \<open>The kernel after \<open>m\<close> increments of the semaphore of the line \<open>n\<close> by the process 0.\<close>

definition raised :: "nat \<Rightarrow> int \<Rightarrow> sem_kernel \<Rightarrow> sem_kernel" where
  "raised n m k =
     k\<lparr>k_sems := map_option (\<lambda>vals. vals[n - 1 := vals ! (n - 1) + m]) (k_sems k),
       k_undo := (k_undo k)(0 := (k_undo k 0)[n - 1 := k_undo k 0 ! (n - 1) - m])\<rparr>"

definition room :: "nat \<Rightarrow> int \<Rightarrow> sem_kernel \<Rightarrow> bool" where
  "room n m k \<longleftrightarrow> kernel_ok k \<and> n \<in> {1, 2, 3} \<and>
     (\<exists>vals. k_sems k = Some vals \<and> vals ! (n - 1) + m \<le> SEMVMX \<and>
        - SEMVMX - 1 \<le> k_undo k 0 ! (n - 1) - m \<and> k_undo k 0 ! (n - 1) \<le> SEMVMX)"

lemma roomE:
  assumes "room n m k"
  obtains vals where "k_sems k = Some vals" "length vals = 3" "length (k_undo k 0) = 3" "n - 1 < 3"
    "0 \<le> vals ! (n - 1)" "vals ! (n - 1) + m \<le> SEMVMX" "- SEMVMX - 1 \<le> k_undo k 0 ! (n - 1) - m"
    "k_undo k 0 ! (n - 1) \<le> SEMVMX" "kernel_ok k"
proof -
  have ok: "kernel_ok k" and n: "n - 1 < 3"
    using assms by (auto simp: room_def)
  obtain vals where v: "k_sems k = Some vals" "length vals = 3" "in_range vals" "length (k_undo k 0) = 3"
    using ok by (rule kernel_okE) blast
  have "vals ! (n - 1) \<in> set vals"
    using n v(2) by simp
  then have "0 \<le> vals ! (n - 1)"
    using v(3) by (simp add: in_range_def)
  with assms v n ok that show ?thesis
    by (auto simp: room_def)
qed

lemma semop_raised:
  assumes "room n m k" "1 \<le> m" "k_id k = semid"
  obtains vals adj where "semop_undo k 0 semid [(n - 1, 1)] = Sem_Done vals adj"
    "k\<lparr>k_sems := Some vals, k_undo := (k_undo k)(0 := adj)\<rparr> = raised n 1 k"
  using assms(1)
  by (rule roomE) (use assms(2,3) that in \<open>auto simp: semop_undo_def sem_valid_def raised_def Let_def\<close>)

lemma raised_room:
  assumes "room n m k" "1 \<le> m" "k_id k = semid"
  shows "room n (m - 1) (raised n 1 k)" "raised n l (raised n 1 k) = raised n (l + 1) k" "k_id (raised n 1 k) = semid"
proof -
  obtain vals adj where dn: "semop_undo k 0 semid [(n - 1, 1)] = Sem_Done vals adj"
      "k\<lparr>k_sems := Some vals, k_undo := (k_undo k)(0 := adj)\<rparr> = raised n 1 k"
    by (rule semop_raised[OF assms])
  have ok: "kernel_ok (raised n 1 k)"
    using committed_kernel_ok[OF _ dn(1)] assms(1) dn(2) by (simp add: room_def)
  obtain vals where v: "k_sems k = Some vals" "length vals = 3" "length (k_undo k 0) = 3" "n - 1 < 3"
    "0 \<le> vals ! (n - 1)" "vals ! (n - 1) + m \<le> SEMVMX" "- SEMVMX - 1 \<le> k_undo k 0 ! (n - 1) - m"
    "k_undo k 0 ! (n - 1) \<le> SEMVMX"
    using assms(1) by (rule roomE)
  show "room n (m - 1) (raised n 1 k)"
    using ok assms(1) v unfolding room_def by (auto simp: raised_def)
  show "raised n l (raised n 1 k) = raised n (l + 1) k"
    using v by (simp add: raised_def algebra_simps)
  show "k_id (raised n 1 k) = semid"
    using assms(3) by (simp add: raised_def)
qed

text \<open>A process of the loop whose last line was the increment \<open>n\<close> and whose next line is \<open>line\<close>.\<close>

definition repeats :: "nat \<Rightarrow> string \<Rightarrow> sem_proc \<Rightarrow> bool" where
  "repeats n line p \<longleftrightarrow> p_pc p = P_Loop \<and> \<not> is_inside_txn p \<and> p_ops p = [] \<and>
     (\<exists>q. sem_getline p = Inr (line, q) \<and> q = p\<lparr>p_input := [], p_line := Some line\<rparr> \<and>
        p_num (scan_command line q) = Some (int n) \<and> p_cmd (scan_command line q) = Some CHR ''+'')"

lemma scan_command_parts:
  "scan_command line p = p\<lparr>p_num := p_num (scan_command line p), p_cmd := p_cmd (scan_command line p)\<rparr>"
  by (simp add: scan_command_def split: option.split prod.split)

lemma repeats_step:
  assumes "repeats n line p" "room n m k" "1 \<le> m" "k_id k = p_semid p"
    and "line \<notin> {''begin'', ''commit'', ''rollback'', ''delete'', ''quit'', ''show''}"
  obtains p' where "(sems_step ^^ 2) (k, [p]) (raised n 1 k, [p'])" "p_pc p' = P_Loop" "\<not> is_inside_txn p'" "p_ops p' = []"
    "p_input p' = []" "p_line p' = Some line" "p_num p' = Some (int n)" "p_cmd p' = Some CHR ''+''" "p_semid p' = p_semid p"
proof -
  obtain q where q: "sem_getline p = Inr (line, q)" "q = p\<lparr>p_input := [], p_line := Some line\<rparr>"
      "p_num (scan_command line q) = Some (int n)" "p_cmd (scan_command line q) = Some CHR ''+''"
    using assms(1) by (auto simp: repeats_def)
  obtain vals adj where dn: "semop_undo k 0 (p_semid p) [(n - 1, 1)] = Sem_Done vals adj"
      "k\<lparr>k_sems := Some vals, k_undo := (k_undo k)(0 := adj)\<rparr> = raised n 1 k"
    by (rule semop_raised[OF assms(2-4)])
  let ?p1 = "(scan_command line q)\<lparr>p_pc := P_Print\<rparr>"
  let ?p2 = "(print_all_sems (raised n 1 k) ?p1)\<lparr>p_pc := P_Loop\<rparr>"
  from assms(2) have "n = 1 \<or> n = 2 \<or> n = 3"
    by (auto simp: room_def)
  then have num: "unat (word_of_int (int n - 1) :: u16) = n - 1"
    by (elim disjE) simp_all
  note scan = scan_command_parts[of line q]
  have loop: "p_pc p = P_Loop" "\<not> is_inside_txn p" "p_ops p = []"
    using assms(1) by (simp_all add: repeats_def)
  have sel: "p_semid (scan_command line q) = p_semid p" "\<not> is_inside_txn (scan_command line q)" "p_ops (scan_command line q) = []"
    "p_input (scan_command line q) = []" "p_line (scan_command line q) = Some line"
    by (subst scan; use loop in \<open>simp add: q(2)\<close>)+
  have "sem_operation 0 k (scan_command line q) = Some (Inr (raised n 1 k, ?p1))"
    using dn by (simp add: sem_operation_def q(3,4) sel num Let_def del: of_int_diff)
  then have "sem_step 0 k p = Some (Inr (raised n 1 k, ?p1))"
    using assms(5) loop(1) q(1) by (simp add: sem_step_def sem_line_def)
  moreover have "sem_step 0 (raised n 1 k) ?p1 = Some (Inr (raised n 1 k, ?p2))"
    by (simp add: sem_step_def)
  ultimately have "(sems_step ^^ 2) (k, [p]) (raised n 1 k, [?p2])"
    using sems_step.intros[of 0 "[p]" k] sems_step.intros[of 0 "[?p1]" "raised n 1 k"]
    by (auto simp: numeral_2_eq_2)
  then show ?thesis
    by (rule that) (use sel q(3,4) in \<open>simp_all add: print_all_sems_def print_def\<close>)
qed

text \<open>What the buffer holds at the successive calls of \<open>getline\<close>: each removes one more character.\<close>

lemma show_small: "n \<in> {1, 2, 3} \<Longrightarrow> show_int (int n) = [char_of (48 + n)]"
  by (auto simp: show_int_def show_nat.simps)

lemma scan_show:
  assumes "n \<in> {1, 2, 3}" "rest = [] \<or> rest = [CHR '' '']"
  shows "scan_command (show_int (int n) @ rest) p = p\<lparr>p_num := Some (int n)\<rparr>"
proof -
  have "scan_d ([] @ show_int (int n) @ rest) = Some (int n, rest)"
    by (rule scan_show_int) (use assms in \<open>auto simp: isdigit_def\<close>)
  moreover have "skip_spaces rest = []"
    using assms(2) by (auto simp: skip_spaces_def isspace_def)
  ultimately show ?thesis
    by (simp add: scan_command_def)
qed

lemma scan_empty: "scan_command '''' p = p"
  by (simp add: scan_command_def scan_d_def strtol_def)

abbreviation (input) left_over :: "nat \<Rightarrow> string set" where
  "left_over n \<equiv> {show_int (int n) @ '' '', show_int (int n), ''''}"

lemma short_lines:
  assumes "n \<in> {1, 2, 3}" "l \<in> left_over n"
  shows "l \<notin> {''begin'', ''commit'', ''rollback'', ''delete'', ''quit'', ''show''}"
proof -
  have "length l < 4"
    using assms by (auto simp: show_small)
  then show ?thesis
    by auto
qed

definition at_end :: "nat \<Rightarrow> string \<Rightarrow> sem_proc \<Rightarrow> bool" where
  "at_end n l p \<longleftrightarrow> in_loop p False [] [] \<and> p_line p = Some l \<and> p_num p = Some (int n) \<and> p_cmd p = Some CHR ''+''"

lemma at_end_repeats:
  assumes "at_end n (l @ [c]) p" "n \<in> {1, 2, 3}" "l \<in> left_over n"
  shows "repeats n l p"
proof -
  have "p_num (scan_command l q) = Some (int n) \<and> p_cmd (scan_command l q) = Some CHR ''+''"
    if "p_num q = Some (int n)" "p_cmd q = Some CHR ''+''" for q
    using assms(2,3) that scan_show[of n "[]"] scan_show[of n "'' ''"] scan_empty by auto
  then show ?thesis
    using assms(1) by (simp add: repeats_def at_end_def in_loop_def sem_getline_def)
qed

lemma repeats_at_end:
  assumes "repeats n l p" "room n m k" "1 \<le> m" "k_id k = p_semid p"
    and "l \<notin> {''begin'', ''commit'', ''rollback'', ''delete'', ''quit'', ''show''}"
  obtains p' where "(sems_step ^^ 2) (k, [p]) (raised n 1 k, [p'])" "at_end n l p'" "p_semid p' = p_semid p"
  by (rule repeats_step[OF assms]) (use that in \<open>auto simp: at_end_def in_loop_def\<close>)

lemma at_end_step:
  assumes "at_end n (l @ [c]) p" "l \<in> left_over n" "room n m k" "1 \<le> m" "k_id k = p_semid p"
  obtains p' where "(sems_step ^^ 2) (k, [p]) (raised n 1 k, [p'])" "at_end n l p'" "p_semid p' = p_semid p"
proof -
  have n: "n \<in> {1, 2, 3}"
    using assms(3) by (simp add: room_def)
  show ?thesis
    by (rule repeats_at_end[OF at_end_repeats[OF assms(1) n assms(2)] assms(3-5) short_lines[OF n assms(2)] that])
qed

text \<open>(C39) The end of the input is not seen: \<open>getline\<close> fails and leaves the buffer as it was, the loop cuts one more
  character from it and runs what is left. An input of the one line \<open>n +\<close> increments the semaphore four times, not
  once, and then the loop writes in front of the buffer.\<close>

theorem end_of_input_repeats:
  assumes "in_loop p False [] [op_line (n, True) @ [ch_nl]]" "room n 4 k" "k_id k = p_semid p"
  shows "\<exists>p'. (sems_step ^^ 8) (k, [p]) (raised n 4 k, [p']) \<and> sem_step 0 (raised n 4 k) p' = Some (Inl OutOfBounds)"
proof -
  let ?k1 = "raised n 1 k" and ?k2 = "raised n 2 k" and ?k3 = "raised n 3 k" and ?k4 = "raised n 4 k"
  have n: "n \<in> {1, 2, 3}"
    using assms(2) by (simp add: room_def)
  note k1 = raised_room[OF assms(2) _ assms(3), simplified]
  note k2 = raised_room[OF k1(1) _ k1(3), simplified k1, simplified]
  note k3 = raised_room[OF k2(1) _ k2(3), simplified k1 k2, simplified]
  have r0: "repeats n (op_line (n, True)) p"
    using assms(1) scan_op_line[OF n, of True] by (simp add: repeats_def in_loop_def sem_getline_def)
  obtain p1 where p1: "(sems_step ^^ 2) (k, [p]) (?k1, [p1])" "at_end n ((show_int (int n) @ '' '') @ ''+'') p1" "p_semid p1 = p_semid p"
    by (rule repeats_at_end[OF r0 assms(2) _ assms(3) op_line_no_word]) (simp_all add: op_line_def)
  obtain p2 where p2: "(sems_step ^^ 2) (?k1, [p1]) (?k2, [p2])" "at_end n (show_int (int n) @ '' '') p2" "p_semid p2 = p_semid p"
    by (rule at_end_step[OF p1(2) _ k1(1)]) (simp_all add: k1 p1(3))
  obtain p3 where p3: "(sems_step ^^ 2) (?k2, [p2]) (?k3, [p3])" "at_end n (show_int (int n)) p3" "p_semid p3 = p_semid p"
    by (rule at_end_step[OF p2(2) _ k2(1)]) (simp_all add: k1 k2 p2(3))
  have "at_end n ([] @ [char_of (48 + n)]) p3"
    using p3(2) by (simp add: show_small[OF n])
  then obtain p4 where p4: "(sems_step ^^ 2) (?k3, [p3]) (?k4, [p4])" "at_end n '''' p4"
    by (rule at_end_step[OF _ _ k3(1)]) (simp_all add: k1 k2 k3 p3(3))
  have "(sems_step ^^ (2 + (2 + (2 + 2)))) (k, [p]) (?k4, [p4])"
    unfolding relpowp_add using p1(1) p2(1) p3(1) p4(1) by blast
  moreover have "sem_step 0 ?k4 p4 = Some (Inl OutOfBounds)"
    using p4(2) by (simp add: at_end_def in_loop_def sem_step_def sem_getline_def)
  ultimately show ?thesis
    by (intro exI[of _ p4]) simp
qed

text \<open>A line in a full transaction: the cell behind \<open>ops\<close> is written.\<close>

lemma transaction_full:
  assumes "in_loop p txn ops ((op_line op @ [ch_nl]) # ls)" "fst op \<in> {1, 2, 3}" "length ops = 100"
  shows "sem_step i k p = Some (Inl OutOfBounds)"
  using assms op_line_no_word[of op] scan_op_line[of "fst op" "snd op"]
  by (auto simp: in_loop_def sem_step_def sem_getline_def sem_line_def sem_operation_def)

section \<open>Instances\<close>

definition sems_example :: sem_kernel where
  "sems_example = \<lparr>k_id = 1, k_sems = Some [1, 2, 3], k_undo = \<lambda>_. [0, 0, 0]\<rparr>"

definition proc_example :: "string list \<Rightarrow> sem_proc" where
  "proc_example input = (sem_start input)\<lparr>p_pc := P_Loop, p_semid := 1\<rparr>"

lemma examples_ok:
  "kernel_ok sems_example" "k_undo sems_example 0 = [0, 0, 0]" "live_pc (proc_example input)"
  "in_loop (proc_example input) False [] input" "k_id sems_example = p_semid (proc_example input)" "room 1 4 sems_example"
  by (auto simp: kernel_ok_def room_def in_range_def sems_example_def proc_example_def sem_start_def live_pc_def in_loop_def)

lemma quit_example:
  "sems_step (sems_example, [proc_example [''quit\<newline>'']])
     (exit_sem 0 sems_example, [(proc_example [])\<lparr>p_pc := P_Exit 0, p_line := Some ''quit''\<rparr>])"
  using sems_step.intros[of 0 "[proc_example [''quit\<newline>'']]" sems_example]
  by (simp add: sem_step_def sem_getline_def sem_line_def proc_example_def sem_start_def)

lemma transaction_atomic_witness:
  "\<exists>p' k2 p2. (quiet 0 ^^ 3) (proc_example (transaction [(1, True), (3, False)])) p' \<and>
     sem_step 0 sems_example p' = Some (Inr (k2, p2)) \<and> committed 0 [(0, 1), (2, -1)] sems_example k2"
proof -
  let ?ops = "[(1, True), (3, False)]"
  have "in_loop (proc_example (transaction ?ops)) False [] (transaction ?ops @ [])"
    using examples_ok(4) by simp
  from transaction_atomic[OF this, where i = 0] obtain p' where
    p': "(quiet 0 ^^ 3) (proc_example (transaction ?ops)) p'"
      "case semop_undo sems_example 0 (p_semid (proc_example (transaction ?ops))) (map op_of ?ops) of
          Sem_Wait \<Rightarrow> sem_step 0 sems_example p' = None
        | Sem_Err \<Rightarrow> \<exists>p2. sem_step 0 sems_example p' = Some (Inr (sems_example, p2)) \<and> in_loop p2 True (map op_of ?ops) [] \<and>
            p_out p2 = p_out p' @ [P_Error]
        | Sem_Done _ _ \<Rightarrow> \<exists>k2 p2. sem_step 0 sems_example p' = Some (Inr (k2, p2)) \<and>
            committed 0 (map op_of ?ops) sems_example k2 \<and>
            p_pc p2 = P_Print \<and> \<not> is_inside_txn p2 \<and> p_ops p2 = [] \<and> p_input p2 = []"
    using examples_ok(1) by (auto simp: numeral_3_eq_3)
  moreover have "\<exists>vals adj. semop_undo sems_example 0 (p_semid (proc_example (transaction ?ops))) (map op_of ?ops) = Sem_Done vals adj"
    by (simp add: semop_undo_def sem_valid_def sems_example_def proc_example_def op_of_def Let_def)
  ultimately obtain k2 p2 where "sem_step 0 sems_example p' = Some (Inr (k2, p2))" "committed 0 [(0, 1), (2, -1)] sems_example k2"
    by (auto simp: op_of_def)
  with p'(1) show ?thesis
    by blast
qed


lemma session_leaves_no_trace_witness:
  "k_sems (exit_sem 0 sems_example) = None \<or> k_sems (exit_sem 0 sems_example) = k_sems sems_example"
  using session_leaves_no_trace[OF r_into_rtranclp[of sems_step, OF quit_example] examples_ok(1-3)] by (simp add: live_pc_def)

lemma end_of_input_repeats_witness:
  "\<exists>p'. (sems_step ^^ 8) (sems_example, [proc_example [op_line (1, True) @ [ch_nl]]]) (raised 1 4 sems_example, [p']) \<and>
     sem_step 0 (raised 1 4 sems_example) p' = Some (Inl OutOfBounds)"
  by (rule end_of_input_repeats[OF examples_ok(4,6,5)])

end
