(* ===== verification/StoreBuffer.thy ===== *)
theory StoreBuffer
  imports Prelude
begin

text \<open>
  The memory of x86 processors: every thread writes into a buffer of its own, which the memory takes from later,
  in order and one store at a time; a load sees the latest store of its own buffer, or the memory.
\<close>

section \<open>Memory with store buffers\<close>

record ('t, 'v) tso =
  tso_mem :: "'v \<Rightarrow> int"
  tso_buf :: "'t \<Rightarrow> ('v \<times> int) list"

definition tso_init :: "('t, 'v) tso" where
  "tso_init = \<lparr>tso_mem = \<lambda>_. 0, tso_buf = \<lambda>_. []\<rparr>"

definition tso_read :: "'t \<Rightarrow> 'v \<Rightarrow> ('t, 'v) tso \<Rightarrow> int" where
  "tso_read t v m = (case map_of (rev (tso_buf m t)) v of None \<Rightarrow> tso_mem m v | Some x \<Rightarrow> x)"

definition tso_write :: "'t \<Rightarrow> 'v \<Rightarrow> int \<Rightarrow> ('t, 'v) tso \<Rightarrow> ('t, 'v) tso" where
  "tso_write t v x m = m\<lparr>tso_buf := (tso_buf m)(t := tso_buf m t @ [(v, x)])\<rparr>"

text \<open>The oldest store of a thread reaches the memory.\<close>

definition tso_drain :: "'t \<Rightarrow> ('t, 'v) tso \<Rightarrow> ('t, 'v) tso option" where
  "tso_drain t m =
     (case tso_buf m t of
        [] \<Rightarrow> None
      | (v, x) # b \<Rightarrow> Some (m\<lparr>tso_mem := (tso_mem m)(v := x), tso_buf := (tso_buf m)(t := b)\<rparr>))"

text \<open>\<open>mfence\<close>, and what a locked instruction waits for.\<close>

definition tso_flushed :: "'t \<Rightarrow> ('t, 'v) tso \<Rightarrow> bool" where
  "tso_flushed t m \<longleftrightarrow> tso_buf m t = []"

lemma tso_read_flushed: "tso_buf m t = [] \<Longrightarrow> tso_read t v m = tso_mem m v"
  by (simp add: tso_read_def)

lemma tso_read_mem: "v \<notin> fst ` set (tso_buf m t) \<Longrightarrow> tso_read t v m = tso_mem m v"
  using map_of_eq_None_iff[of "rev (tso_buf m t)" v] by (simp add: tso_read_def)

lemma tso_read_buf: "tso_buf m t = b @ [(v, x)] @ b' \<Longrightarrow> v \<notin> fst ` set b' \<Longrightarrow> tso_read t v m = x"
  using map_of_eq_None_iff[of "rev b'" v] by (simp add: tso_read_def map_add_def)

lemma tso_write_sel [simp]:
  "tso_mem (tso_write t v x m) = tso_mem m" "tso_buf (tso_write t v x m) = (tso_buf m)(t := tso_buf m t @ [(v, x)])"
  by (simp_all add: tso_write_def)

lemma tso_drain_Some:
  "tso_drain t m = Some m' \<longleftrightarrow>
     (\<exists>v x b. tso_buf m t = (v, x) # b \<and> tso_mem m' = (tso_mem m)(v := x) \<and> tso_buf m' = (tso_buf m)(t := b))"
  by (cases m; cases m'; cases "tso_buf m t") (auto simp: tso_drain_def split: list.splits prod.splits)

end
