(* ===== verification/Twister.thy ===== *)
theory Twister
  imports Prelude
begin

unbundle bit_operations_syntax

text \<open>
  The random generator of src/lecture_examples/6_threads/8_5_random_generator.h, which keeps the last 624 words of
  the sequence in a circular buffer, and its equivalence with the recurrence of MT19937.
\<close>

section \<open>The generator\<close>

abbreviation (input) MT_IA :: nat where "MT_IA \<equiv> 397"

abbreviation (input) MT_LEN :: nat where "MT_LEN \<equiv> 624"

text \<open>The index is an \<open>int\<close> that never leaves the buffer; indices are natural numbers, checked at each access.\<close>

record mersenne_twister =
  mt_buffer :: "u32 list"
  mt_index :: nat

text \<open>\<open>r\<close> with the four shifts at the end of the generator; the constants with the suffix UL are cut to 32 bits.\<close>

definition tempering :: "u32 \<Rightarrow> u32" where
  "tempering r =
     (let r = r XOR drop_bit 11 r;
          r = r XOR (push_bit 7 r AND 0x9d2c5680);
          r = r XOR (push_bit 15 r AND 0xefc60000)
      in r XOR drop_bit 18 r)"

definition mersenne_twister_generate :: "mersenne_twister \<Rightarrow> (u32 \<times> mersenne_twister) cres" where
  "mersenne_twister_generate twister =
     (let i = mt_index twister;
          i2 = mt_index twister + 1;
          j = mt_index twister + MT_IA;
          i2 = (if i2 \<ge> MT_LEN then 0 else i2);
          j = (if j \<ge> MT_LEN then j - MT_LEN else j);
          buf = mt_buffer twister
      in if i \<ge> length buf \<or> i2 \<ge> length buf \<or> j \<ge> length buf then Inl OutOfBounds
         else let s = (buf ! i AND 0x80000000) OR (buf ! i2 AND 0x7fffffff);
                  r = buf ! j XOR drop_bit 1 s XOR ((s AND 1) * 0x9908B0DF)
              in Inr (tempering r, \<lparr>mt_buffer = buf[i := r], mt_index = i2\<rparr>))"

primrec generate_times :: "nat \<Rightarrow> mersenne_twister \<Rightarrow> mersenne_twister cres" where
  "generate_times 0 twister = Inr twister"
| "generate_times (Suc n) twister = rbind (mersenne_twister_generate twister) (\<lambda>(_, t). generate_times n t)"

definition mersenne_twister_create :: "u32 \<Rightarrow> mersenne_twister cres" where
  "mersenne_twister_create seed = generate_times (MT_LEN * 100) \<lparr>mt_buffer = replicate MT_LEN seed, mt_index = 0\<rparr>"

text \<open>The numbers of the first \<open>n\<close> calls.\<close>

primrec generate_list :: "nat \<Rightarrow> mersenne_twister \<Rightarrow> u32 list cres" where
  "generate_list 0 twister = Inr []"
| "generate_list (Suc n) twister =
     rbind (mersenne_twister_generate twister) (\<lambda>(r, t). rbind (generate_list n t) (\<lambda>rs. Inr (r # rs)))"

section \<open>The recurrence\<close>

text \<open>
  MT19937: from 624 words on, each word is the one 397 after the oldest, changed by the product of the highest bit of
  the oldest and the other bits of the next with a matrix. The product shifts by one bit and adds the last row when
  the lowest bit is set.
\<close>

definition matrix :: "u32 \<Rightarrow> u32" where
  "matrix x = (if bit x 0 then drop_bit 1 x XOR 0x9908B0DF else drop_bit 1 x)"

definition upper_lower :: "u32 \<Rightarrow> u32 \<Rightarrow> u32" where
  "upper_lower x y = push_bit 31 (drop_bit 31 x) OR take_bit 31 y"

fun mt19937 :: "u32 list \<Rightarrow> nat \<Rightarrow> u32" where
  "mt19937 xs k =
     (if k < 624 then xs ! k
      else mt19937 xs (k - 624 + 397) XOR matrix (upper_lower (mt19937 xs (k - 624)) (mt19937 xs (k - 624 + 1))))"

declare mt19937.simps [simp del]

lemma twist_word:
  fixes x y z :: u32
  defines "s \<equiv> (x AND 0x80000000) OR (y AND 0x7fffffff)"
  shows "z XOR drop_bit 1 s XOR ((s AND 1) * 0x9908B0DF) = z XOR matrix (upper_lower x y)"
proof -
  have top: "bit (0x80000000 :: u32) n \<longleftrightarrow> n = 31" for n
  proof -
    have "(0x80000000 :: u32) = push_bit 31 1" by simp
    then show ?thesis by (simp only: bit_push_bit_iff bit_1_iff) auto
  qed
  have "bit (x AND 0x80000000) n \<longleftrightarrow> bit (push_bit 31 (drop_bit 31 x)) n" if "n < 32" for n
    using that by (cases "n = 31") (simp_all only: bit_and_iff top, simp_all add: bit_simps)
  then have "x AND 0x80000000 = push_bit 31 (drop_bit 31 x)"
    by (intro bit_word_eqI) simp
  moreover have "y AND 0x7fffffff = take_bit 31 y"
    by (simp add: take_bit_eq_mask mask_eq_decr_exp)
  ultimately have s: "s = upper_lower x y"
    by (simp add: s_def upper_lower_def)
  show ?thesis
    by (simp add: s matrix_def and_one_eq xor.assoc bit_0 odd_iff_mod_2_eq_one)
qed

text \<open>A generator that holds 624 words always returns and keeps them.\<close>

definition twister_ok :: "mersenne_twister \<Rightarrow> bool" where
  "twister_ok t \<longleftrightarrow> length (mt_buffer t) = 624 \<and> mt_index t < 624"

lemma mod_reduce: "(i::nat) < n \<Longrightarrow> d \<le> n \<Longrightarrow> (if i + d \<ge> n then i + d - n else i + d) = (i + d) mod n"
  by (auto simp: mod_if le_mod_geq)

definition next_word :: "mersenne_twister \<Rightarrow> u32" where
  "next_word t = (let b = mt_buffer t; i = mt_index t
     in b ! ((i + 397) mod 624) XOR matrix (upper_lower (b ! i) (b ! ((i + 1) mod 624))))"

lemma generate_eq:
  assumes "twister_ok t"
  shows "mersenne_twister_generate t = Inr (tempering (next_word t),
    \<lparr>mt_buffer = (mt_buffer t)[mt_index t := next_word t], mt_index = (mt_index t + 1) mod 624\<rparr>)"
proof -
  have i: "mt_index t < 624" and b: "length (mt_buffer t) = 624"
    using assms by (simp_all add: twister_ok_def)
  have i2: "(if 624 \<le> mt_index t + 1 then 0 else mt_index t + 1) = (mt_index t + 1) mod 624"
    using i by (auto simp: mod_Suc)
  have j: "(if 624 \<le> mt_index t + 397 then mt_index t + 397 - 624 else mt_index t + 397) = (mt_index t + 397) mod 624"
    using mod_reduce[OF i, of 397] by simp
  have "\<not> (624 \<le> mt_index t \<or> 624 \<le> (mt_index t + 1) mod 624 \<or> 624 \<le> (mt_index t + 397) mod 624)"
    using i by (simp add: not_le)
  then show ?thesis
    unfolding mersenne_twister_generate_def Let_def i2 j b twist_word next_word_def by (simp only: if_False)
qed

lemma generate_total:
  assumes "twister_ok t"
  obtains r t' where "mersenne_twister_generate t = Inr (r, t')" "twister_ok t'"
  using assms that by (simp add: generate_eq twister_ok_def)

section \<open>The buffer holds the last words of the sequence\<close>

definition mt_holds :: "u32 list \<Rightarrow> nat \<Rightarrow> mersenne_twister \<Rightarrow> bool" where
  "mt_holds xs k t \<longleftrightarrow> length (mt_buffer t) = 624 \<and> mt_index t = k mod 624 \<and>
     (\<forall>j < 624. mt_buffer t ! ((k + j) mod 624) = mt19937 xs (k + j))"

lemma holds_start: "length xs = 624 \<Longrightarrow> mt_holds xs 0 \<lparr>mt_buffer = xs, mt_index = 0\<rparr>"
  by (simp add: mt_holds_def mt19937.simps)

lemma holds_ok: "mt_holds xs k t \<Longrightarrow> twister_ok t"
  by (simp add: mt_holds_def twister_ok_def)

lemma generate_holds:
  assumes "mt_holds xs k t"
  obtains t' where "mersenne_twister_generate t = Inr (tempering (mt19937 xs (k + 624)), t')" "mt_holds xs (k + 1) t'"
proof -
  let ?b = "mt_buffer t" and ?i = "k mod 624" and ?r = "mt19937 xs (k + 624)"
  have b: "length ?b = 624" "mt_index t = ?i"
    using assms by (simp_all add: mt_holds_def)
  have w: "?b ! ((k + j) mod 624) = mt19937 xs (k + j)" if "j < 624" for j
    using assms that by (simp add: mt_holds_def)
  have r: "next_word t = ?r"
    using w[of 397] w[of 0] w[of 1]
    by (subst mt19937.simps[of xs "k + 624"]) (simp add: next_word_def b(2) mod_simps)
  have step: "mersenne_twister_generate t = Inr (tempering ?r, \<lparr>mt_buffer = ?b[?i := ?r], mt_index = (k + 1) mod 624\<rparr>)"
    using generate_eq[OF holds_ok[OF assms]] by (simp add: r b(2) mod_simps)
  have "(?b[?i := ?r]) ! ((k + 1 + j) mod 624) = mt19937 xs (k + 1 + j)" if "j < 624" for j
  proof (cases "j = 623")
    case True
    then show ?thesis
      using b(1) by (simp add: add.commute[of 624])
  next
    case False
    then have "(k + (1 + j)) mod 624 \<noteq> ?i"
      using that mod_eq_dvd_iff_nat[of k "k + (1 + j)" 624] dvd_imp_le[of 624 "1 + j"] by auto
    then show ?thesis
      using w[of "1 + j"] that False by simp
  qed
  then have "mt_holds xs (k + 1) \<lparr>mt_buffer = ?b[?i := ?r], mt_index = (k + 1) mod 624\<rparr>"
    using b(1) by (simp add: mt_holds_def)
  with step show ?thesis
    by (rule that)
qed

lemma generate_list_holds:
  assumes "mt_holds xs k t"
  shows "generate_list n t = Inr (map (\<lambda>i. tempering (mt19937 xs (k + 624 + i))) [0..<n])"
  using assms
proof (induction n arbitrary: k t)
  case (Suc n)
  obtain t' where t': "mersenne_twister_generate t = Inr (tempering (mt19937 xs (k + 624)), t')" "mt_holds xs (k + 1) t'"
    using Suc.prems by (rule generate_holds)
  have "map (\<lambda>i. tempering (mt19937 xs (k + 624 + i))) [0..<Suc n] =
    tempering (mt19937 xs (k + 624)) # map (\<lambda>i. tempering (mt19937 xs (k + 1 + 624 + i))) [0..<n]"
    unfolding map_upt_Suc by (simp add: add.assoc)
  then show ?case
    using t'(1) Suc.IH[OF t'(2)] by simp
qed simp

lemma generate_times_holds: "mt_holds xs k t \<Longrightarrow> \<exists>t'. generate_times n t = Inr t' \<and> mt_holds xs (k + n) t'"
proof (induction n arbitrary: k t)
  case (Suc n)
  obtain t' where "mersenne_twister_generate t = Inr (tempering (mt19937 xs (k + 624)), t')" "mt_holds xs (k + 1) t'"
    using Suc.prems by (rule generate_holds)
  then show ?case
    using Suc.IH[of "k + 1" t'] by simp
qed simp

text \<open>(C31) The generator never leaves its buffer, and what it returns is the tempered sequence of MT19937 which starts
  with the seed 624 times: the first number after \<open>mersenne_twister_create\<close> is the one behind 624 + 62400 words.\<close>

theorem twister_is_mt19937:
  "\<exists>t. mersenne_twister_create seed = Inr t \<and>
     generate_list n t = Inr (map (\<lambda>i. tempering (mt19937 (replicate 624 seed) (63024 + i))) [0..<n])"
proof -
  have "mt_holds (replicate 624 seed) 0 \<lparr>mt_buffer = replicate 624 seed, mt_index = 0\<rparr>"
    by (rule holds_start) simp
  from generate_times_holds[OF this, of 62400] obtain t where
    "mersenne_twister_create seed = Inr t" "mt_holds (replicate 624 seed) 62400 t"
    by (auto simp: mersenne_twister_create_def)
  then show ?thesis
    using generate_list_holds[of "replicate 624 seed" 62400 t n] by simp
qed

end
