(* ===== verification/CpuReorder.thy ===== *)
theory CpuReorder
  imports StoreBuffer Twister
begin

text \<open>
  The program of src/lecture_examples/6_threads/8_5_cpu_reordering.c: two threads that write one variable and read
  the other, started and awaited by main through flags, on a memory with store buffers.
\<close>

section \<open>Variables and threads\<close>

text \<open>
  The two threads run the same code with the names exchanged: \<open>Shared\<close> is X for the first and Y for the second,
  \<open>Start\<close>, \<open>End\<close> and \<open>Res\<close> are \<open>start_t\<close>, \<open>end_t\<close> and \<open>r\<close> with the number of the thread. Flags are 0 and 1.
\<close>

datatype side = One | Two

fun other_side :: "side \<Rightarrow> side" where
  "other_side One = Two"
| "other_side Two = One"

datatype cr_var = Start side | End side | Shared side | Res side

datatype cr_thread = Main | Worker side

datatype worker_pc = W_Wait | W_Clear | W_Delay | W_Set | W_Barrier | W_Load | W_Store int | W_End

datatype cr_main_pc = M_X | M_Y | M_Start side | M_Wait side | M_Clear side | M_Test side

record cr_state =
  cr_tso :: "(cr_thread, cr_var) tso"
  cr_main :: cr_main_pc
  cr_worker :: "side \<Rightarrow> worker_pc"
  cr_twister :: "side \<Rightarrow> mersenne_twister"
  iterations :: int
  detected :: int

text \<open>\<open>fence\<close> is \<open>USE_CPU_FENCE\<close>. The barriers of the compiler keep the order in which the code is written.\<close>

definition cr_init :: "mersenne_twister \<Rightarrow> mersenne_twister \<Rightarrow> cr_state" where
  "cr_init t1 t2 = \<lparr>cr_tso = tso_init, cr_main = M_X, cr_worker = \<lambda>_. W_Wait,
     cr_twister = (\<lambda>w. case w of One \<Rightarrow> t1 | Two \<Rightarrow> t2), iterations = 1, detected = 0\<rparr>"

definition worker_goto :: "side \<Rightarrow> worker_pc \<Rightarrow> cr_state \<Rightarrow> cr_state" where
  "worker_goto w pc s = s\<lparr>cr_worker := (cr_worker s)(w := pc)\<rparr>"

definition worker_write :: "side \<Rightarrow> cr_var \<Rightarrow> int \<Rightarrow> worker_pc \<Rightarrow> cr_state \<Rightarrow> cr_state" where
  "worker_write w v x pc s = worker_goto w pc (s\<lparr>cr_tso := tso_write (Worker w) v x (cr_tso s)\<rparr>)"

text \<open>One access to the memory or one number of the generator; \<open>None\<close> while the fence waits for the buffer.\<close>

definition cr_worker_step :: "bool \<Rightarrow> side \<Rightarrow> cr_state \<Rightarrow> cr_state cres option" where
  "cr_worker_step fence w s =
     (let m = cr_tso s; t = Worker w in
      case cr_worker s w of
        W_Wait \<Rightarrow> Some (Inr (if tso_read t (Start w) m = 0 then s else worker_goto w W_Clear s))
      | W_Clear \<Rightarrow> Some (Inr (worker_write w (Start w) 0 W_Delay s))
      | W_Delay \<Rightarrow>
          Some (rbind (mersenne_twister_generate (cr_twister s w)) (\<lambda>(r, tw).
            let s = s\<lparr>cr_twister := (cr_twister s)(w := tw)\<rparr>
            in Inr (if unat r mod 8 \<noteq> 0 then s else worker_goto w W_Set s)))
      | W_Set \<Rightarrow> Some (Inr (worker_write w (Shared w) 1 W_Barrier s))
      | W_Barrier \<Rightarrow> if fence \<and> \<not> tso_flushed t m then None else Some (Inr (worker_goto w W_Load s))
      | W_Load \<Rightarrow> Some (Inr (worker_goto w (W_Store (tso_read t (Shared (other_side w)) m)) s))
      | W_Store v \<Rightarrow> Some (Inr (worker_write w (Res w) v W_End s))
      | W_End \<Rightarrow> Some (Inr (worker_write w (End w) 1 W_Wait s)))"

definition main_write :: "cr_var \<Rightarrow> int \<Rightarrow> cr_main_pc \<Rightarrow> cr_state \<Rightarrow> cr_state" where
  "main_write v x pc s = s\<lparr>cr_tso := tso_write Main v x (cr_tso s), cr_main := pc\<rparr>"

text \<open>The end of an iteration, with \<open>iterations++\<close>.\<close>

definition next_iteration :: "cr_state \<Rightarrow> cr_state cres" where
  "next_iteration s =
     (if iterations s + 1 > 2 ^ 31 - 1 then Inl SignedOverflow
      else Inr (s\<lparr>iterations := iterations s + 1, cr_main := M_X\<rparr>))"

definition main_step :: "cr_state \<Rightarrow> cr_state cres" where
  "main_step s =
     (let m = cr_tso s in
      case cr_main s of
        M_X \<Rightarrow> Inr (main_write (Shared One) 0 M_Y s)
      | M_Y \<Rightarrow> Inr (main_write (Shared Two) 0 (M_Start One) s)
      | M_Start One \<Rightarrow> Inr (main_write (Start One) 1 (M_Start Two) s)
      | M_Start Two \<Rightarrow> Inr (main_write (Start Two) 1 (M_Wait One) s)
      | M_Wait One \<Rightarrow> Inr (if tso_read Main (End One) m = 0 then s else s\<lparr>cr_main := M_Wait Two\<rparr>)
      | M_Wait Two \<Rightarrow> Inr (s\<lparr>cr_main := if tso_read Main (End Two) m = 0 then M_Wait One else M_Clear One\<rparr>)
      | M_Clear One \<Rightarrow> Inr (main_write (End One) 0 (M_Clear Two) s)
      | M_Clear Two \<Rightarrow> Inr (main_write (End Two) 0 (M_Test One) s)
      | M_Test One \<Rightarrow> if tso_read Main (Res One) m = 0 then Inr (s\<lparr>cr_main := M_Test Two\<rparr>) else next_iteration s
      | M_Test Two \<Rightarrow>
          next_iteration (if tso_read Main (Res Two) m = 0 then s\<lparr>detected := detected s + 1\<rparr> else s))"

section \<open>The program\<close>

inductive cr_step :: "bool \<Rightarrow> cr_state \<Rightarrow> cr_state \<Rightarrow> bool" for fence where
  main: "main_step s = Inr s' \<Longrightarrow> cr_step fence s s'"
| worker: "cr_worker_step fence w s = Some (Inr s') \<Longrightarrow> cr_step fence s s'"
| drain: "tso_drain t (cr_tso s) = Some m \<Longrightarrow> cr_step fence s (s\<lparr>cr_tso := m\<rparr>)"

end
