(* ===== verification/CpuReorder_Spec.thy ===== *)
theory CpuReorder_Spec
  imports CpuReorder
begin

text \<open>
  With the fence no iteration sees both variables as zero; without it one can.
\<close>

section \<open>Where the stores of an iteration are\<close>

text \<open>
  Main issues the same six stores in each iteration, the worker four. What a buffer holds is what its thread has
  issued without the number of stores that have reached the memory.
\<close>

abbreviation (input) num :: "side \<Rightarrow> nat" where "num w \<equiv> (case w of One \<Rightarrow> 0 | Two \<Rightarrow> 1)"

definition main_stores :: "(cr_var \<times> int) list" where
  "main_stores = [(End One, 0), (End Two, 0), (Shared One, 0), (Shared Two, 0), (Start One, 1), (Start Two, 1)]"

fun main_issued :: "cr_main_pc \<Rightarrow> nat" where
  "main_issued (M_Clear w) = num w"
| "main_issued (M_Test w) = 2"
| "main_issued M_X = 2"
| "main_issued M_Y = 3"
| "main_issued (M_Start w) = 4 + num w"
| "main_issued (M_Wait w) = 6"

definition worker_stores :: "side \<Rightarrow> int \<Rightarrow> (cr_var \<times> int) list" where
  "worker_stores w v = [(Start w, 0), (Shared w, 1), (Res w, v), (End w, 1)]"

fun worker_issued :: "worker_pc \<Rightarrow> nat" where
  "worker_issued W_Wait = 4"
| "worker_issued W_Clear = 0"
| "worker_issued W_Delay = 1"
| "worker_issued W_Set = 1"
| "worker_issued W_Barrier = 2"
| "worker_issued W_Load = 2"
| "worker_issued (W_Store v) = 2"
| "worker_issued W_End = 3"

abbreviation (input) cr_mem :: "cr_state \<Rightarrow> cr_var \<Rightarrow> int" where "cr_mem s \<equiv> tso_mem (cr_tso s)"

abbreviation (input) cr_buf :: "cr_state \<Rightarrow> cr_thread \<Rightarrow> (cr_var \<times> int) list" where "cr_buf s \<equiv> tso_buf (cr_tso s)"

fun loaded :: "worker_pc \<Rightarrow> bool" where
  "loaded (W_Store v) = True"
| "loaded W_End = True"
| "loaded W_Wait = True"
| "loaded pc = False"

text \<open>
  A worker has not been started, can see its start, or runs with \<open>n\<close> of its stores in memory and the result \<open>v\<close>.
  With the fence its first two stores are in memory before it loads.
\<close>

datatype cr_mode = Asleep | Ready | Running nat int

fun mode_ok :: "cr_mode \<Rightarrow> nat \<Rightarrow> side \<Rightarrow> cr_state \<Rightarrow> bool" where
  "mode_ok Asleep m w s \<longleftrightarrow> cr_worker s w = W_Wait \<and> cr_buf s (Worker w) = [] \<and> cr_mem s (Start w) = 0 \<and>
     (m > num w \<longrightarrow> cr_mem s (End w) = 0) \<and> (m > 2 + num w \<longrightarrow> cr_mem s (Shared w) = 0)"
| "mode_ok Ready m w s \<longleftrightarrow> cr_worker s w = W_Wait \<and> cr_buf s (Worker w) = [] \<and> cr_mem s (Start w) = 1 \<and>
     cr_mem s (End w) = 0 \<and> cr_mem s (Shared w) = 0"
| "mode_ok (Running n v) m w s \<longleftrightarrow>
     (let pc = cr_worker s w in
      n \<le> worker_issued pc \<and> cr_buf s (Worker w) = drop n (take (worker_issued pc) (worker_stores w v)) \<and>
      cr_mem s (Start w) = (if n \<ge> 1 then 0 else 1) \<and> cr_mem s (Shared w) = (if n \<ge> 2 then 1 else 0) \<and>
      (n \<ge> 3 \<longrightarrow> cr_mem s (Res w) = v) \<and> cr_mem s (End w) = (if n \<ge> 4 then 1 else 0) \<and>
      (\<forall>x. pc = W_Store x \<longrightarrow> x = v) \<and> (pc = W_Load \<or> loaded pc \<longrightarrow> n \<ge> 2))"

lemma mode_ok_cong:
  assumes "cr_worker s' w = cr_worker s w" "cr_buf s' (Worker w) = cr_buf s (Worker w)"
    and "\<And>f. f \<in> {Start, End, Shared, Res} \<Longrightarrow> cr_mem s' (f w) = cr_mem s (f w)"
  shows "mode_ok mo m w s' = mode_ok mo m w s"
  using assms by (cases mo) (simp_all add: Let_def)

text \<open>What a step of a worker leaves alone.\<close>

definition own_step :: "side \<Rightarrow> cr_state \<Rightarrow> cr_state \<Rightarrow> bool" where
  "own_step w s s' \<longleftrightarrow> cr_main s' = cr_main s \<and> detected s' = detected s \<and> iterations s' = iterations s \<and>
     cr_worker s' (other_side w) = cr_worker s (other_side w) \<and>
     (\<forall>t. t \<noteq> Worker w \<longrightarrow> cr_buf s' t = cr_buf s t) \<and>
     (\<forall>f. f \<in> {Start, End, Shared, Res} \<longrightarrow> cr_mem s' (f (other_side w)) = cr_mem s (f (other_side w))) \<and>
     (\<forall>w. twister_ok (cr_twister s w) \<longrightarrow> twister_ok (cr_twister s' w))"

text \<open>How the mode of a worker may change in a step of its own.\<close>

definition mode_step :: "side \<Rightarrow> cr_mode \<Rightarrow> cr_mode \<Rightarrow> cr_state \<Rightarrow> cr_state \<Rightarrow> bool" where
  "mode_step w mo mo' s s' \<longleftrightarrow> (mo' = Asleep \<longleftrightarrow> mo = Asleep) \<and>
     (mo = Asleep \<or> (\<exists>v. mo = Running 4 v \<and> cr_worker s w = W_Wait) \<longrightarrow> mo' = mo \<and> cr_worker s' w = W_Wait \<and> cr_tso s' = cr_tso s) \<and>
     (\<forall>n v. mo' = Running n v \<and> loaded (cr_worker s' w) \<longrightarrow>
        (\<exists>n. mo = Running n v \<and> loaded (cr_worker s w)) \<or> v = cr_mem s (Shared (other_side w)))"

lemma other_side_neq [simp]: "other_side w \<noteq> w" "w \<noteq> other_side w" "other_side (other_side w) = w"
  by (cases w; simp)+

lemma own_step_refl: "own_step w s s"
  by (simp add: own_step_def)

lemma own_step_goto: "own_step w s (worker_goto w pc s)"
  by (simp add: own_step_def worker_goto_def)

lemma own_step_write: "own_step w s (worker_write w x v pc s)"
  by (simp add: own_step_def worker_goto_def worker_write_def)

lemma worker_goto_sel [simp]:
  "cr_tso (worker_goto w pc s) = cr_tso s" "cr_worker (worker_goto w pc s) = (cr_worker s)(w := pc)"
  "cr_tso (worker_write w x v pc s) = tso_write (Worker w) x v (cr_tso s)"
  "cr_worker (worker_write w x v pc s) = (cr_worker s)(w := pc)"
  by (simp_all add: worker_goto_def worker_write_def)

lemma mode_running:
  assumes "mode_ok mo m w s" "cr_worker s w \<noteq> W_Wait"
  obtains n v where "mo = Running n v" "mode_ok (Running n v) m w s"
  using assms by (cases mo) auto

lemma worker_step_wait:
  assumes "cr_worker s w = W_Wait" "mode_ok mo m w s"
  obtains s' mo' where "cr_worker_step fence w s = Some (Inr s')" "mode_ok mo' m w s'" "own_step w s s'" "mode_step w mo mo' s s'"
proof (cases mo)
  case Asleep
  then have "tso_read (Worker w) (Start w) (cr_tso s) = 0"
    using assms(2) by (simp add: tso_read_flushed)
  then show ?thesis
    using that[of s mo] assms Asleep by (simp add: cr_worker_step_def own_step_refl mode_step_def)
next
  case Ready
  then have "tso_read (Worker w) (Start w) (cr_tso s) = 1"
    using assms(2) by (simp add: tso_read_flushed)
  then show ?thesis
    using that[of "worker_goto w W_Clear s" "Running 0 0"] assms Ready
    by (simp add: cr_worker_step_def own_step_goto mode_step_def Let_def)
next
  case (Running n v)
  then have n: "2 \<le> n" "n \<le> 4" and b: "cr_buf s (Worker w) = drop n (worker_stores w v)" "cr_mem s (Start w) = 0"
    using assms by (auto simp: Let_def worker_stores_def)
  have "n = 2 \<or> n = 3 \<or> n = 4"
    using n by linarith
  then have "tso_read (Worker w) (Start w) (cr_tso s) = 0"
    using b by (subst tso_read_mem) (auto simp: worker_stores_def)
  then show ?thesis
    using that[of s mo] assms Running by (simp add: cr_worker_step_def own_step_refl mode_step_def)
qed

lemma running_cases:
  assumes "mode_ok (Running n v) m w s"
  shows "n = 0 \<or> n = 1 \<or> n = 2 \<or> n = 3 \<or> n = 4"
proof -
  have "n \<le> worker_issued (cr_worker s w)" "worker_issued (cr_worker s w) \<le> 4"
    using assms by (simp_all add: Let_def) (cases "cr_worker s w"; simp)
  then show ?thesis by linarith
qed

lemma worker_step_delay:
  assumes "cr_worker s w = W_Delay" "mode_ok (Running n v) m w s" "twister_ok (cr_twister s w)"
  obtains s' where "cr_worker_step fence w s = Some (Inr s')" "mode_ok (Running n v) m w s'" "own_step w s s'"
    "mode_step w (Running n v) (Running n v) s s'"
proof -
  obtain r tw where tw: "mersenne_twister_generate (cr_twister s w) = Inr (r, tw)" "twister_ok tw"
    using assms(3) by (rule generate_total)
  show ?thesis
    by (rule that[of "let s = s\<lparr>cr_twister := (cr_twister s)(w := tw)\<rparr> in if unat r mod 8 \<noteq> 0 then s else worker_goto w W_Set s"])
      (use assms tw in \<open>auto simp: cr_worker_step_def Let_def own_step_def mode_step_def worker_goto_def\<close>)
qed

lemma worker_step_mode:
  assumes "cr_worker_step True w s = Some r" "mode_ok mo m w s" "twister_ok (cr_twister s w)"
  obtains s' mo' where "r = Inr s'" "mode_ok mo' m w s'" "own_step w s s'" "mode_step w mo mo' s s'"
proof (cases "cr_worker s w = W_Wait")
  case True
  from worker_step_wait[OF this assms(2), of True] that assms(1) show ?thesis
    by fastforce
next
  case False
  obtain n v where mo: "mo = Running n v" "mode_ok (Running n v) m w s"
    using assms(2) False by (rule mode_running)
  note ok = mo(2) and n = running_cases[OF mo(2)]
  show ?thesis
  proof (cases "cr_worker s w")
    case W_Delay
    from worker_step_delay[OF this mo(2) assms(3), of True] that assms(1) mo(1) show ?thesis
      by fastforce
  next
    case W_Load
    let ?v = "tso_read (Worker w) (Shared (other_side w)) (cr_tso s)"
    have "n = 2" and b: "cr_buf s (Worker w) = []"
      using ok W_Load by (auto simp: Let_def)
    then have v: "?v = cr_mem s (Shared (other_side w))"
      by (simp add: tso_read_flushed)
    show ?thesis
      by (rule that[of "worker_goto w (W_Store ?v) s" "Running n ?v"])
        (use assms(1) ok W_Load mo(1) v b \<open>n = 2\<close> in \<open>auto simp: cr_worker_step_def own_step_goto mode_step_def Let_def\<close>)
  next
    case W_Barrier
    then have b: "cr_buf s (Worker w) = []" and r: "r = Inr (worker_goto w W_Load s)"
      using assms(1) by (auto simp: cr_worker_step_def tso_flushed_def Let_def split: if_splits)
    then have "n = 2"
      using ok W_Barrier n by (auto simp: Let_def worker_stores_def)
    then show ?thesis
      using that[OF r, of mo] ok W_Barrier mo(1) by (auto simp: own_step_goto mode_step_def Let_def)
  next
    case W_Clear
    then show ?thesis
      using that[of "worker_write w (Start w) 0 W_Delay s" mo] assms(1) ok mo(1)
      by (auto simp: cr_worker_step_def own_step_write mode_step_def worker_stores_def Let_def)
  next
    case W_Set
    then show ?thesis
      using that[of "worker_write w (Shared w) 1 W_Barrier s" mo] assms(1) ok mo(1) n
      by (auto simp: cr_worker_step_def own_step_write mode_step_def worker_stores_def Let_def)
  next
    case (W_Store x)
    then have "n = 2"
      using ok by (simp add: Let_def)
    with W_Store show ?thesis
      using that[of "worker_write w (Res w) x W_End s" mo] assms(1) ok mo(1)
      by (auto simp: cr_worker_step_def own_step_write mode_step_def worker_stores_def Let_def)
  next
    case W_End
    then show ?thesis
      using that[of "worker_write w (End w) 1 W_Wait s" mo] assms(1) ok mo(1) n
      by (auto simp: cr_worker_step_def own_step_write mode_step_def worker_stores_def Let_def)
  qed (use False in simp)
qed

section \<open>Stores that reach the memory\<close>

lemma worker_drain_mode:
  assumes "tso_drain (Worker w) (cr_tso s) = Some t" "mode_ok mo m w s"
  obtains n v where "mo = Running n v" "mode_ok (Running (n + 1) v) m w (s\<lparr>cr_tso := t\<rparr>)" "own_step w s (s\<lparr>cr_tso := t\<rparr>)" "n < 4"
proof -
  obtain x y b where d: "cr_buf s (Worker w) = (x, y) # b" "tso_mem t = (cr_mem s)(x := y)" "tso_buf t = (cr_buf s)(Worker w := b)"
    using assms(1) by (auto simp: tso_drain_Some)
  then obtain n v where mo: "mo = Running n v"
    using assms(2) by (cases mo) auto
  note ok = assms(2)[unfolded mo]
  let ?k = "worker_issued (cr_worker s w)"
  have k: "?k \<le> 4" by (cases "cr_worker s w") simp_all
  have n: "n < ?k"
    using ok d(1) by (cases "n < ?k") (simp_all add: Let_def)
  have xy: "(x, y) = worker_stores w v ! n" and b: "b = drop (n + 1) (take ?k (worker_stores w v))"
  proof -
    have "(x, y) # b = drop n (take ?k (worker_stores w v))"
      using ok d(1) by (simp add: Let_def)
    also have "\<dots> = worker_stores w v ! n # drop (n + 1) (take ?k (worker_stores w v))"
      using n k by (subst Cons_nth_drop_Suc[symmetric]) (simp_all add: worker_stores_def)
    finally show "(x, y) = worker_stores w v ! n" "b = drop (n + 1) (take ?k (worker_stores w v))"
      by simp_all
  qed
  have "n = 0 \<or> n = 1 \<or> n = 2 \<or> n = 3"
    using n k by linarith
  then have "mode_ok (Running (n + 1) v) m w (s\<lparr>cr_tso := t\<rparr>)"
    using ok d xy b n k by (elim disjE) (simp_all add: Let_def worker_stores_def)
  moreover have "own_step w s (s\<lparr>cr_tso := t\<rparr>)"
    using \<open>n = 0 \<or> n = 1 \<or> n = 2 \<or> n = 3\<close> d xy
    by (elim disjE) (auto simp: own_step_def worker_stores_def)
  ultimately show ?thesis
    using that mo n k by simp
qed

section \<open>The program\<close>

definition finished :: "side \<Rightarrow> cr_mode \<Rightarrow> cr_state \<Rightarrow> bool" where
  "finished w mo s \<longleftrightarrow> (\<exists>v. mo = Running 4 v) \<and> cr_worker s w = W_Wait"

text \<open>Main, with \<open>m\<close> of its stores in memory, and the modes of the workers.\<close>

definition cr_ghost :: "nat \<Rightarrow> (side \<Rightarrow> cr_mode) \<Rightarrow> cr_state \<Rightarrow> bool" where
  "cr_ghost m mo s \<longleftrightarrow>
     (let k = main_issued (cr_main s) in
      m \<le> k \<and> cr_buf s Main = drop m (take k main_stores) \<and>
      (\<forall>w. mode_ok (mo w) m w s \<and> (mo w = Asleep \<longleftrightarrow> num w < k \<and> m \<le> 4 + num w) \<and>
         (k \<le> num w \<longrightarrow> finished w (mo w) s) \<and> twister_ok (cr_twister s w)) \<and>
      (cr_main s = M_Wait Two \<longrightarrow> finished One (mo One) s) \<and>
      (k \<le> 2 \<and> cr_main s \<noteq> M_X \<longrightarrow> cr_mem s (Res One) \<noteq> 0 \<or> cr_mem s (Res Two) \<noteq> 0) \<and>
      (cr_main s = M_Test Two \<longrightarrow> cr_mem s (Res One) = 0) \<and>
      (\<forall>n v n' v'. mo One = Running n v \<and> mo Two = Running n' v' \<and> loaded (cr_worker s One) \<and> loaded (cr_worker s Two) \<longrightarrow>
         v \<noteq> 0 \<or> v' \<noteq> 0) \<and>
      detected s = 0)"

lemma mode_ok_mono:
  "mode_ok mo m w s \<Longrightarrow> mo \<noteq> Asleep \<Longrightarrow> mode_ok mo m' w s"
  by (cases mo) simp_all

text \<open>The parts of the invariant, and what it needs of a state.\<close>

lemma ghostD:
  assumes "cr_ghost m mo s"
  shows "m \<le> main_issued (cr_main s)" "cr_buf s Main = drop m (take (main_issued (cr_main s)) main_stores)"
    "mode_ok (mo w) m w s" "mo w = Asleep \<longleftrightarrow> num w < main_issued (cr_main s) \<and> m \<le> 4 + num w"
    "main_issued (cr_main s) \<le> num w \<Longrightarrow> finished w (mo w) s" "twister_ok (cr_twister s w)"
    "cr_main s = M_Wait Two \<Longrightarrow> finished One (mo One) s"
    "main_issued (cr_main s) \<le> 2 \<Longrightarrow> cr_main s \<noteq> M_X \<Longrightarrow> cr_mem s (Res One) \<noteq> 0 \<or> cr_mem s (Res Two) \<noteq> 0"
    "cr_main s = M_Test Two \<Longrightarrow> cr_mem s (Res One) = 0" "detected s = 0"
    "mo One = Running n v \<Longrightarrow> mo Two = Running n' v' \<Longrightarrow> loaded (cr_worker s One) \<Longrightarrow> loaded (cr_worker s Two) \<Longrightarrow>
       v \<noteq> 0 \<or> v' \<noteq> 0"
  using assms unfolding cr_ghost_def Let_def by blast+

lemma ghostI:
  assumes "m \<le> main_issued (cr_main s)" "cr_buf s Main = drop m (take (main_issued (cr_main s)) main_stores)"
    "\<And>w. mode_ok (mo w) m w s" "\<And>w. mo w = Asleep \<longleftrightarrow> num w < main_issued (cr_main s) \<and> m \<le> 4 + num w"
    "\<And>w. main_issued (cr_main s) \<le> num w \<Longrightarrow> finished w (mo w) s" "\<And>w. twister_ok (cr_twister s w)"
    "cr_main s = M_Wait Two \<Longrightarrow> finished One (mo One) s"
    "main_issued (cr_main s) \<le> 2 \<Longrightarrow> cr_main s \<noteq> M_X \<Longrightarrow> cr_mem s (Res One) \<noteq> 0 \<or> cr_mem s (Res Two) \<noteq> 0"
    "cr_main s = M_Test Two \<Longrightarrow> cr_mem s (Res One) = 0" "detected s = 0"
    "\<And>n v n' v'. mo One = Running n v \<Longrightarrow> mo Two = Running n' v' \<Longrightarrow> loaded (cr_worker s One) \<Longrightarrow> loaded (cr_worker s Two) \<Longrightarrow>
       v \<noteq> 0 \<or> v' \<noteq> 0"
  shows "cr_ghost m mo s"
  using assms unfolding cr_ghost_def Let_def by blast

definition still :: "side \<Rightarrow> cr_mode \<Rightarrow> cr_state \<Rightarrow> bool" where
  "still w mo s \<longleftrightarrow> mo = Asleep \<or> finished w mo s"

lemma ghost_still:
  assumes "cr_ghost m mo s" "main_issued (cr_main s) \<le> 2"
  shows "still w (mo w) s"
proof (cases "num w < main_issued (cr_main s)")
  case True
  moreover have "m \<le> 4 + num w"
    using ghostD(1)[OF assms(1)] assms(2) by simp
  ultimately show ?thesis
    using ghostD(4)[OF assms(1)] by (simp add: still_def)
next
  case False
  then show ?thesis
    using ghostD(5)[OF assms(1), of w] by (simp add: still_def)
qed

lemma side_eq:
  obtains "v = w" | "v = other_side w"
  by (cases v; cases w) auto

lemma own_step_sel:
  assumes "own_step w s s'"
  shows "cr_main s' = cr_main s" "detected s' = detected s" "cr_worker s' (other_side w) = cr_worker s (other_side w)"
    "cr_buf s' Main = cr_buf s Main" "mode_ok mo m (other_side w) s' = mode_ok mo m (other_side w) s"
    "finished (other_side w) mo s' = finished (other_side w) mo s"
    "twister_ok (cr_twister s v) \<Longrightarrow> twister_ok (cr_twister s' v)"
    "cr_mem s' (Shared (other_side w)) = cr_mem s (Shared (other_side w))"
proof -
  show "mode_ok mo m (other_side w) s' = mode_ok mo m (other_side w) s"
    by (rule mode_ok_cong) (use assms in \<open>unfold own_step_def, simp, simp, blast\<close>)
qed (use assms in \<open>simp_all add: own_step_def finished_def\<close>)

lemma loaded_shared: "mode_ok (Running n v) m w s \<Longrightarrow> loaded (cr_worker s w) \<Longrightarrow> cr_mem s (Shared w) = 1"
  by (simp add: Let_def)

text \<open>A step of a worker, whose mode changes to one from which it did not load, or loaded what is in memory.\<close>

lemma ghost_own_step:
  assumes "cr_ghost m mo s" "own_step w s s'" "mode_ok mo' m w s'" "mo' = Asleep \<longleftrightarrow> mo w = Asleep"
    and still: "still w (mo w) s \<Longrightarrow> mo' = mo w \<and> cr_worker s' w = W_Wait \<and> cr_tso s' = cr_tso s"
    and load: "\<And>n v. mo' = Running n v \<Longrightarrow> loaded (cr_worker s' w) \<Longrightarrow>
        (\<exists>n. mo w = Running n v \<and> loaded (cr_worker s w)) \<or> v = cr_mem s (Shared (other_side w))"
  shows "cr_ghost m (mo(w := mo')) s'"
proof (rule ghostI)
  note d = ghostD[OF assms(1)] and e = own_step_sel[OF assms(2)]
  let ?mo = "mo(w := mo')"
  show "m \<le> main_issued (cr_main s')" "cr_buf s' Main = drop m (take (main_issued (cr_main s')) main_stores)"
    using d(1,2) by (simp_all add: e(1,4))
  show "mode_ok (?mo v) m v s'" for v
    by (rule side_eq[of v w]) (use assms(3) d(3) in \<open>simp_all add: e(5)\<close>)
  show "?mo v = Asleep \<longleftrightarrow> num v < main_issued (cr_main s') \<and> m \<le> 4 + num v" for v
    unfolding e(1) d(4)[symmetric] using assms(4) by simp
  have fin: "finished v (?mo v) s'" if "finished v (mo v) s" for v
  proof (rule side_eq[of v w])
    assume "v = w"
    with that still show ?thesis by (simp add: still_def finished_def)
  next
    assume "v = other_side w"
    with that show ?thesis by (simp add: e(6))
  qed
  show "finished v (?mo v) s'" if "main_issued (cr_main s') \<le> num v" for v
    by (rule fin, rule d(5)) (use that in \<open>simp add: e(1)\<close>)
  show "twister_ok (cr_twister s' v)" for v
    by (rule e(7)[OF d(6)])
  show "finished One (?mo One) s'" if "cr_main s' = M_Wait Two"
    by (rule fin, rule d(7)) (use that in \<open>simp add: e(1)\<close>)
  have same: "cr_tso s' = cr_tso s" if "main_issued (cr_main s) \<le> 2"
    using still ghost_still[OF assms(1) that] by blast
  show "cr_mem s' (Res One) \<noteq> 0 \<or> cr_mem s' (Res Two) \<noteq> 0" if "main_issued (cr_main s') \<le> 2" "cr_main s' \<noteq> M_X"
    using d(8) that by (simp add: e(1) same)
  show "cr_mem s' (Res One) = 0" if "cr_main s' = M_Test Two"
    using d(9) that by (simp add: e(1) same)
  show "detected s' = 0"
    using d(10) by (simp add: e(2))
  have pair: "v \<noteq> 0 \<or> v' \<noteq> 0" if mo: "mo' = Running n v" "loaded (cr_worker s' w)"
    and om: "mo (other_side w) = Running n' v'" "loaded (cr_worker s (other_side w))" for n v n' v'
    using load[OF mo]
  proof
    assume "\<exists>n. mo w = Running n v \<and> loaded (cr_worker s w)"
    then obtain n0 where "mo w = Running n0 v" "loaded (cr_worker s w)" by blast
    note o = this
    show ?thesis
    proof (cases w)
      case One
      show ?thesis by (rule d(11)[of n0 v n' v']) (use o om One in simp_all)
    next
      case Two
      have "v' \<noteq> 0 \<or> v \<noteq> 0" by (rule d(11)[of n' v' n0 v]) (use o om Two in simp_all)
      then show ?thesis by blast
    qed
  next
    assume v: "v = cr_mem s (Shared (other_side w))"
    have "mode_ok (Running n' v') m (other_side w) s"
      using d(3)[of "other_side w"] unfolding om(1) .
    from loaded_shared[OF this om(2)] v show ?thesis
      by linarith
  qed
  show "v \<noteq> 0 \<or> v' \<noteq> 0" if "?mo One = Running n v" "?mo Two = Running n' v'" "loaded (cr_worker s' One)" "loaded (cr_worker s' Two)"
    for n v n' v'
  proof (cases w)
    case One
    show ?thesis by (rule pair[of n v n' v']) (use that e(3) One in simp_all)
  next
    case Two
    have "v' \<noteq> 0 \<or> v \<noteq> 0" by (rule pair[of n' v' n v]) (use that e(3) Two in simp_all)
    then show ?thesis by blast
  qed
qed

lemma ghost_worker:
  assumes "cr_ghost m mo s" "cr_worker_step True w s = Some r"
  shows "\<exists>s' mo'. r = Inr s' \<and> cr_ghost m mo' s'"
proof -
  obtain s' mo' where r: "r = Inr s'" and ok: "mode_ok mo' m w s'" "own_step w s s'" "mode_step w (mo w) mo' s s'"
    by (rule worker_step_mode[OF assms(2) ghostD(3)[OF assms(1)] ghostD(6)[OF assms(1)]])
  have "cr_ghost m (mo(w := mo')) s'"
    by (rule ghost_own_step[OF assms(1) ok(2,1)]) (use ok(3) in \<open>auto simp: mode_step_def still_def finished_def\<close>)
  with r show ?thesis
    by blast
qed

lemma ghost_worker_drain:
  assumes "cr_ghost m mo s" "tso_drain (Worker w) (cr_tso s) = Some t"
  shows "\<exists>mo'. cr_ghost m mo' (s\<lparr>cr_tso := t\<rparr>)"
proof -
  obtain n v where mo: "mo w = Running n v" and ok: "mode_ok (Running (n + 1) v) m w (s\<lparr>cr_tso := t\<rparr>)" "own_step w s (s\<lparr>cr_tso := t\<rparr>)" "n < 4"
    by (rule worker_drain_mode[OF assms(2) ghostD(3)[OF assms(1)]])
  have "cr_ghost m (mo(w := Running (n + 1) v)) (s\<lparr>cr_tso := t\<rparr>)"
    by (rule ghost_own_step[OF assms(1) ok(2,1)]) (use mo ok(3) in \<open>auto simp: still_def finished_def\<close>)
  then show ?thesis
    by blast
qed

definition side_of :: "cr_var \<Rightarrow> side" where
  "side_of x = (case x of Start w \<Rightarrow> w | End w \<Rightarrow> w | Shared w \<Rightarrow> w | Res w \<Rightarrow> w)"

lemma side_of_simps [simp]: "side_of (Start w) = w" "side_of (End w) = w" "side_of (Shared w) = w" "side_of (Res w) = w"
  by (simp_all add: side_of_def)

lemma main_drain:
  assumes "cr_buf s Main = drop m (take k main_stores)" "k \<le> 6" "tso_drain Main (cr_tso s) = Some t"
  obtains x y where "main_stores ! m = (x, y)" "m < k" "tso_mem t = (cr_mem s)(x := y)"
    "tso_buf t = (cr_buf s)(Main := drop (m + 1) (take k main_stores))"
proof -
  obtain x y b where d: "cr_buf s Main = (x, y) # b" "tso_mem t = (cr_mem s)(x := y)" "tso_buf t = (cr_buf s)(Main := b)"
    using assms(3) by (auto simp: tso_drain_Some)
  have m: "m < k" "m < length main_stores"
    using assms(1,2) d(1) by (cases "m < k"; simp add: main_stores_def)+
  then have "drop m (take k main_stores) = main_stores ! m # drop (m + 1) (take k main_stores)"
    by (subst Cons_nth_drop_Suc[symmetric]) simp_all
  with assms(1) d m show ?thesis
    by (intro that[of x y]) simp_all
qed

lemma mode_main_drain:
  assumes "mode_ok mo m w s" "main_stores ! m = (x, y)" "m < 6" "mo = Asleep \<longleftrightarrow> num w < k \<and> m \<le> 4 + num w" "m < k"
    and "cr_worker s' w = cr_worker s w" "cr_buf s' (Worker w) = cr_buf s (Worker w)" "cr_mem s' = (cr_mem s)(x := y)"
  shows "mode_ok (if m = 4 + num w then Ready else mo) (m + 1) w s'"
proof (cases "mo = Asleep")
  case True
  have "m = 0 \<or> m = 1 \<or> m = 2 \<or> m = 3 \<or> m = 4 \<or> m = 5"
    using assms(3) by linarith
  then show ?thesis
    using assms True by (elim disjE; cases w) (simp_all add: main_stores_def, auto)
next
  case False
  have "side_of x \<noteq> w"
  proof -
    have "m = 0 \<or> m = 1 \<or> m = 2 \<or> m = 3 \<or> m = 4 \<or> m = 5"
      using assms(3) by linarith
    then show ?thesis
      using assms(2,4,5) False by (elim disjE; cases w) (simp_all add: main_stores_def, auto)
  qed
  then have "mode_ok mo m w s' = mode_ok mo m w s"
    by (intro mode_ok_cong) (use assms(6-8) in auto)
  moreover have "m \<noteq> 4 + num w"
    using assms(4,5) False by auto
  ultimately show ?thesis
    using mode_ok_mono[OF _ False] assms(1) by simp
qed

lemma main_issued_le: "main_issued pc \<le> 6"
  by (cases pc) (auto split: side.split)

lemma num_le: "num w \<le> 1"
  by (cases w) simp_all

lemma main_stores_no_result: "m < 6 \<Longrightarrow> main_stores ! m = (x, y) \<Longrightarrow> x \<noteq> Res w"
  using nth_mem[of m main_stores] by (auto simp: main_stores_def)

lemma ghost_main_drain:
  assumes "cr_ghost m mo s" "tso_drain Main (cr_tso s) = Some t"
  shows "cr_ghost (m + 1) (\<lambda>w. if m = 4 + num w then Ready else mo w) (s\<lparr>cr_tso := t\<rparr>)"
proof -
  note d = ghostD[OF assms(1)]
  let ?k = "main_issued (cr_main s)" and ?mo = "\<lambda>w. if m = 4 + num w then Ready else mo w"
  obtain x y where xy: "main_stores ! m = (x, y)" "m < ?k" "tso_mem t = (cr_mem s)(x := y)"
    "tso_buf t = (cr_buf s)(Main := drop (m + 1) (take ?k main_stores))"
    by (rule main_drain[OF d(2) main_issued_le assms(2)])
  have m: "m < 6"
    using xy(2) main_issued_le[of "cr_main s"] by linarith
  have res: "tso_mem t (Res w) = cr_mem s (Res w)" for w
    using main_stores_no_result[OF m xy(1), of w] by (simp add: xy(3))
  have keep: "?mo w = mo w" if "mo w = Running n v" for w n v
    using d(4)[of w] that num_le[of w] xy(2) by auto
  show ?thesis
  proof (rule ghostI)
    show "mode_ok (?mo w) (m + 1) w (s\<lparr>cr_tso := t\<rparr>)" for w
      by (rule mode_main_drain[OF d(3) xy(1) m d(4) xy(2)]) (simp_all add: xy(3,4))
    show "?mo w = Asleep \<longleftrightarrow> num w < main_issued (cr_main (s\<lparr>cr_tso := t\<rparr>)) \<and> m + 1 \<le> 4 + num w" for w
      using d(4)[of w] by auto
    show "finished w (?mo w) (s\<lparr>cr_tso := t\<rparr>)" if "main_issued (cr_main (s\<lparr>cr_tso := t\<rparr>)) \<le> num w" for w
      using d(5)[of w] that keep[of w] by (auto simp: finished_def)
    show "finished One (?mo One) (s\<lparr>cr_tso := t\<rparr>)" if "cr_main (s\<lparr>cr_tso := t\<rparr>) = M_Wait Two"
      using d(7) that keep[of One] by (auto simp: finished_def)
    show "v \<noteq> 0 \<or> v' \<noteq> 0" if "?mo One = Running n v" "?mo Two = Running n' v'"
      "loaded (cr_worker (s\<lparr>cr_tso := t\<rparr>) One)" "loaded (cr_worker (s\<lparr>cr_tso := t\<rparr>) Two)" for n v n' v'
      by (rule d(11)[of n v n' v']) (use that in \<open>simp_all split: if_splits\<close>)
  qed (use d xy(2,4) res in simp_all)
qed

section \<open>Steps of main\<close>

lemma take_store: "k < 6 \<Longrightarrow> m \<le> k \<Longrightarrow> drop m (take (k + 1) main_stores) = drop m (take k main_stores) @ [main_stores ! k]"
proof -
  assume "k < 6" "m \<le> k"
  moreover have "length main_stores = 6"
    by (simp add: main_stores_def)
  ultimately show ?thesis
    by (simp add: take_Suc_conv_app_nth)
qed

lemma finished_asleep: "mode_ok mo m w s \<Longrightarrow> finished w mo s \<Longrightarrow> m' \<le> num w \<Longrightarrow> mode_ok Asleep m' w s"
  by (auto simp: finished_def Let_def worker_stores_def)

lemma main_write_sel [simp]:
  "cr_main (main_write x y pc s) = pc" "cr_worker (main_write x y pc s) = cr_worker s" "cr_mem (main_write x y pc s) = cr_mem s"
  "cr_buf (main_write x y pc s) = (cr_buf s)(Main := cr_buf s Main @ [(x, y)])" "detected (main_write x y pc s) = detected s"
  "cr_twister (main_write x y pc s) = cr_twister s"
  by (simp_all add: main_write_def)

lemma mode_main_write: "mode_ok mo m w (main_write x y pc s) = mode_ok mo m w s"
  by (rule mode_ok_cong) simp_all

lemma ghost_main_write:
  assumes "cr_ghost m mo s" "main_issued pc = main_issued (cr_main s) + 1" "main_stores ! main_issued (cr_main s) = (x, y)"
    and "pc \<notin> {M_Wait Two, M_Test Two}" "main_issued pc \<le> 2 \<Longrightarrow> cr_main s \<noteq> M_X"
  shows "cr_ghost m (\<lambda>w. if main_issued (cr_main s) = num w then Asleep else mo w) (main_write x y pc s)"
proof -
  note d = ghostD[OF assms(1)]
  let ?k = "main_issued (cr_main s)" and ?mo = "\<lambda>w. if main_issued (cr_main s) = num w then Asleep else mo w"
  have k: "?k < 6"
    using assms(2) main_issued_le[of pc] by linarith
  show ?thesis
  proof (rule ghostI)
    show "cr_buf (main_write x y pc s) Main = drop m (take (main_issued (cr_main (main_write x y pc s))) main_stores)"
      using take_store[OF k d(1)] d(2) by (simp add: assms(2,3) del: add_Suc_right)
    show "mode_ok (?mo w) m w (main_write x y pc s)" for w
      unfolding mode_main_write using d(3)[of w] finished_asleep[OF d(3) d(5)] d(1) by auto
    show "?mo w = Asleep \<longleftrightarrow> num w < main_issued (cr_main (main_write x y pc s)) \<and> m \<le> 4 + num w" for w
      using d(4)[of w] d(1) assms(2) by auto
    show "finished w (?mo w) (main_write x y pc s)" if "main_issued (cr_main (main_write x y pc s)) \<le> num w" for w
      using d(5)[of w] that assms(2) by (simp add: finished_def)
    show "v \<noteq> 0 \<or> v' \<noteq> 0" if "?mo One = Running n v" "?mo Two = Running n' v'"
      "loaded (cr_worker (main_write x y pc s) One)" "loaded (cr_worker (main_write x y pc s) Two)" for n v n' v'
      by (rule d(11)[of n v n' v']) (use that in \<open>simp_all split: if_splits\<close>)
  qed (use d assms(2,4,5) in simp_all)
qed

lemma end_seen:
  assumes "cr_ghost m mo s" "main_issued (cr_main s) = 6" "tso_read Main (End w) (cr_tso s) \<noteq> 0"
  shows "finished w (mo w) s" "4 + num w < m"
proof -
  note d = ghostD[OF assms(1)]
  have buf: "cr_buf s Main = drop m main_stores"
    using d(2) by (simp add: assms(2) main_stores_def)
  have "num w < m"
  proof (rule ccontr)
    assume "\<not> num w < m"
    then have m: "m = 0 \<or> m = 1" "m \<le> num w"
      using num_le[of w] by auto
    have "tso_read Main (End w) (cr_tso s) = 0"
      by (rule tso_read_buf[of _ _ "if m < num w then [(End One, 0)] else []" _ _ "drop (num w + 1) main_stores"])
        (use m in \<open>cases w; elim disjE; simp add: buf main_stores_def\<close>)+
    with assms(3) show False by simp
  qed
  have mem: "cr_mem s (End w) = 1 \<or> cr_mem s (End w) \<noteq> 0"
  proof -
    have "End w \<notin> fst ` set (drop m main_stores)"
      using \<open>num w < m\<close> set_drop_subset_set_drop[of "num w + 1" m main_stores]
      by (cases w) (auto simp: main_stores_def)
    then show ?thesis
      using assms(3) tso_read_mem[of "End w" "cr_tso s" Main] buf by simp
  qed
  then obtain n v where mo: "mo w = Running n v"
    using d(3)[of w] \<open>num w < m\<close> by (cases "mo w") auto
  have "n = 4"
    using d(3)[of w] mem running_cases[of n v m w s] unfolding mo by (auto simp: Let_def split: if_splits)
  moreover have "n \<le> worker_issued (cr_worker s w)"
    using d(3)[of w] unfolding mo by (simp add: Let_def)
  ultimately show "finished w (mo w) s"
    by (cases "cr_worker s w") (simp_all add: finished_def mo)
  show "4 + num w < m"
    using d(4)[of w] mo assms(2) num_le[of w] by auto
qed

lemma ghost_goto:
  assumes "cr_ghost m mo s" "main_issued pc = main_issued (cr_main s)"
    and "pc = M_Wait Two \<Longrightarrow> finished One (mo One) s" "pc = M_Test Two \<Longrightarrow> cr_mem s (Res One) = 0"
    and "main_issued pc \<le> 2 \<Longrightarrow> pc \<noteq> M_X \<Longrightarrow> cr_main s \<noteq> M_X" "twister_ok (tw One)" "twister_ok (tw Two)"
  shows "cr_ghost m mo (s\<lparr>cr_main := pc, iterations := i, cr_twister := tw\<rparr>)"
proof -
  note d = ghostD[OF assms(1)]
  have mode: "mode_ok (mo w) m w (s\<lparr>cr_main := pc, iterations := i, cr_twister := tw\<rparr>) = mode_ok (mo w) m w s" for w
    by (rule mode_ok_cong) simp_all
  have tw: "twister_ok (tw w)" for w
    using assms(6,7) by (cases w) simp_all
  show ?thesis
    by (rule ghostI) (use d assms(2-5) tw in \<open>simp_all add: mode finished_def\<close>)
qed

lemma ghost_clear:
  assumes "cr_ghost m mo s" "cr_main s = M_Wait Two" "finished Two (mo Two) s" "5 < m"
  shows "cr_ghost 0 mo (s\<lparr>cr_main := M_Clear One\<rparr>)"
proof -
  note d = ghostD[OF assms(1)]
  let ?s = "s\<lparr>cr_main := M_Clear One\<rparr>"
  have fin: "finished w (mo w) s" for w
    using d(7)[OF assms(2)] assms(3) by (cases w) simp_all
  have "cr_buf s Main = []"
    using d(1,2) assms(2,4) by (simp add: main_stores_def)
  have mode: "mode_ok (mo w) 0 w ?s" for w
  proof -
    have "mode_ok (mo w) 0 w s"
      using mode_ok_mono[OF d(3)[of w], of 0] fin[of w] by (auto simp: finished_def)
    moreover have "mode_ok (mo w) 0 w ?s = mode_ok (mo w) 0 w s"
      by (rule mode_ok_cong) simp_all
    ultimately show ?thesis by simp
  qed
  obtain v v' where v: "mo One = Running 4 v" "mo Two = Running 4 v'"
    using fin[of One] fin[of Two] by (auto simp: finished_def)
  have "cr_mem s (Res One) = v" "cr_mem s (Res Two) = v'"
    using d(3)[of One] d(3)[of Two] unfolding v by (simp_all add: Let_def)
  moreover have "v \<noteq> 0 \<or> v' \<noteq> 0"
    using d(11)[OF v] fin[of One] fin[of Two] by (simp add: finished_def)
  ultimately have res: "cr_mem s (Res One) \<noteq> 0 \<or> cr_mem s (Res Two) \<noteq> 0"
    by simp
  show ?thesis
  proof (rule ghostI)
    show "mo w = Asleep \<longleftrightarrow> num w < main_issued (cr_main ?s) \<and> 0 \<le> 4 + num w" for w
      using fin[of w] by (auto simp: finished_def)
    show "cr_mem ?s (Res One) \<noteq> 0 \<or> cr_mem ?s (Res Two) \<noteq> 0"
      using res by simp
    show "v \<noteq> 0 \<or> v' \<noteq> 0" if "mo One = Running n v" "mo Two = Running n' v'" "loaded (cr_worker ?s One)" "loaded (cr_worker ?s Two)"
      for n v n' v'
      by (rule d(11)[of n v n' v']) (use that in simp_all)
  qed (use mode fin d(6,10) \<open>cr_buf s Main = []\<close> in \<open>simp_all add: finished_def\<close>)
qed

lemma test_reads:
  assumes "cr_ghost m mo s" "cr_main s = M_Test v"
  shows "tso_read Main (Res w) (cr_tso s) = cr_mem s (Res w)"
proof -
  have "cr_buf s Main = drop m (take 2 main_stores)"
    using ghostD(2)[OF assms(1)] assms(2) by simp
  then have "set (cr_buf s Main) \<subseteq> set (take 2 main_stores)"
    using set_drop_subset[of m "take 2 main_stores"] by simp
  then show ?thesis
    by (intro tso_read_mem) (auto simp: main_stores_def)
qed

lemma ghost_next_iteration:
  assumes "cr_ghost m mo s" "cr_main s = M_Test w" "next_iteration s = Inr s'"
  shows "cr_ghost m mo s'"
proof -
  have s': "s' = s\<lparr>cr_main := M_X, iterations := iterations s + 1, cr_twister := cr_twister s\<rparr>"
    using assms(3) by (auto simp: next_iteration_def split: if_splits)
  show ?thesis
    unfolding s' by (rule ghost_goto[OF assms(1)]) (use assms(2) ghostD(6)[OF assms(1)] in simp_all)
qed

lemma ghost_goto_pc:
  assumes "cr_ghost m mo s" "main_issued pc = main_issued (cr_main s)"
    and "pc = M_Wait Two \<Longrightarrow> finished One (mo One) s" "pc = M_Test Two \<Longrightarrow> cr_mem s (Res One) = 0"
    and "main_issued pc \<le> 2 \<Longrightarrow> pc \<noteq> M_X \<Longrightarrow> cr_main s \<noteq> M_X"
  shows "cr_ghost m mo (s\<lparr>cr_main := pc\<rparr>)"
proof -
  have "s\<lparr>cr_main := pc\<rparr> = s\<lparr>cr_main := pc, iterations := iterations s, cr_twister := cr_twister s\<rparr>"
    by simp
  then show ?thesis
    using ghost_goto[OF assms, of "cr_twister s" "iterations s"] ghostD(6)[OF assms(1)] by simp
qed

lemma ghost_write:
  assumes "cr_ghost m mo s" "main_issued pc = main_issued (cr_main s) + 1" "main_stores ! main_issued (cr_main s) = (x, y)"
    and "pc \<notin> {M_Wait Two, M_Test Two}" "main_issued pc \<le> 2 \<Longrightarrow> cr_main s \<noteq> M_X"
  shows "\<exists>m mo. cr_ghost m mo (main_write x y pc s)"
  using ghost_main_write[OF assms] by blast

lemma cr_main_pc_cases:
  "pc = M_X \<or> pc = M_Y \<or> pc = M_Start One \<or> pc = M_Start Two \<or> pc = M_Wait One \<or> pc = M_Wait Two \<or>
   pc = M_Clear One \<or> pc = M_Clear Two \<or> pc = M_Test One \<or> pc = M_Test Two"
proof -
  have "w = One \<or> w = Two" for w
    by (cases w) simp_all
  then show ?thesis
    by (cases pc) auto
qed

lemma ghost_main_step:
  assumes g: "cr_ghost m mo s" and step: "main_step s = Inr s'"
  shows "\<exists>m mo. cr_ghost m mo s'"
proof -
  note d = ghostD[OF g]
  have "cr_main s = M_X \<or> cr_main s = M_Y \<or> cr_main s = M_Start One \<or> cr_main s = M_Start Two \<or> cr_main s = M_Wait One
    \<or> cr_main s = M_Wait Two \<or> cr_main s = M_Clear One \<or> cr_main s = M_Clear Two \<or> cr_main s = M_Test One \<or> cr_main s = M_Test Two"
    by (rule cr_main_pc_cases)
  then consider (mx) "cr_main s = M_X" | (my) "cr_main s = M_Y" | (s1) "cr_main s = M_Start One" | (s2) "cr_main s = M_Start Two"
    | (w1) "cr_main s = M_Wait One" | (w2) "cr_main s = M_Wait Two" | (c1) "cr_main s = M_Clear One" | (c2) "cr_main s = M_Clear Two"
    | (t1) "cr_main s = M_Test One" | (t2) "cr_main s = M_Test Two"
    by (elim disjE) assumption+
  then show ?thesis
  proof cases
    case mx
    then have s': "s' = main_write (Shared One) 0 M_Y s"
      using step by (simp add: main_step_def)
    show ?thesis
      unfolding s' by (rule ghost_write[OF g]) (use mx in \<open>simp_all add: main_stores_def\<close>)
  next
    case my
    then have s': "s' = main_write (Shared Two) 0 (M_Start One) s"
      using step by (simp add: main_step_def)
    show ?thesis
      unfolding s' by (rule ghost_write[OF g]) (use my in \<open>simp_all add: main_stores_def\<close>)
  next
    case s1
    then have s': "s' = main_write (Start One) 1 (M_Start Two) s"
      using step by (simp add: main_step_def)
    show ?thesis
      unfolding s' by (rule ghost_write[OF g]) (use s1 in \<open>simp_all add: main_stores_def\<close>)
  next
    case s2
    then have s': "s' = main_write (Start Two) 1 (M_Wait One) s"
      using step by (simp add: main_step_def)
    show ?thesis
      unfolding s' by (rule ghost_write[OF g]) (use s2 in \<open>simp_all add: main_stores_def\<close>)
  next
    case w1
    show ?thesis
    proof (cases "tso_read Main (End One) (cr_tso s) = 0")
      case True
      then have "s' = s"
        using step w1 by (simp add: main_step_def)
      with g show ?thesis by blast
    next
      case False
      then have "s' = s\<lparr>cr_main := M_Wait Two\<rparr>"
        using step w1 by (simp add: main_step_def)
      moreover have "cr_ghost m mo (s\<lparr>cr_main := M_Wait Two\<rparr>)"
        by (rule ghost_goto_pc[OF g]) (use w1 end_seen(1)[OF g _ False] in simp_all)
      ultimately show ?thesis by blast
    qed
  next
    case w2
    show ?thesis
    proof (cases "tso_read Main (End Two) (cr_tso s) = 0")
      case True
      then have "s' = s\<lparr>cr_main := M_Wait One\<rparr>"
        using step w2 by (simp add: main_step_def)
      moreover have "cr_ghost m mo (s\<lparr>cr_main := M_Wait One\<rparr>)"
        by (rule ghost_goto_pc[OF g]) (use w2 in simp_all)
      ultimately show ?thesis by blast
    next
      case False
      then have s': "s' = s\<lparr>cr_main := M_Clear One\<rparr>"
        using step w2 by (simp add: main_step_def)
      have k: "main_issued (cr_main s) = 6"
        using w2 by simp
      show ?thesis
        unfolding s' using ghost_clear[OF g w2 end_seen(1)[OF g k False]] end_seen(2)[OF g k False] by auto
    qed
  next
    case c1
    then have s': "s' = main_write (End One) 0 (M_Clear Two) s"
      using step by (simp add: main_step_def)
    show ?thesis
      unfolding s' by (rule ghost_write[OF g]) (use c1 in \<open>simp_all add: main_stores_def\<close>)
  next
    case c2
    then have s': "s' = main_write (End Two) 0 (M_Test One) s"
      using step by (simp add: main_step_def)
    show ?thesis
      unfolding s' by (rule ghost_write[OF g]) (use c2 in \<open>simp_all add: main_stores_def\<close>)
  next
    case t1
    show ?thesis
    proof (cases "cr_mem s (Res One) = 0")
      case True
      then have "s' = s\<lparr>cr_main := M_Test Two\<rparr>"
        using step t1 test_reads[OF g t1] by (simp add: main_step_def)
      moreover have "cr_ghost m mo (s\<lparr>cr_main := M_Test Two\<rparr>)"
        by (rule ghost_goto_pc[OF g]) (use t1 True in simp_all)
      ultimately show ?thesis by blast
    next
      case False
      then have "next_iteration s = Inr s'"
        using step t1 test_reads[OF g t1] by (simp add: main_step_def)
      from ghost_next_iteration[OF g t1 this] show ?thesis by blast
    qed
  next
    case t2
    have "cr_mem s (Res Two) \<noteq> 0"
      using d(8) d(9)[OF t2] t2 by simp
    then have "next_iteration s = Inr s'"
      using step t2 test_reads[OF g t2] by (simp add: main_step_def)
    from ghost_next_iteration[OF g t2 this] show ?thesis by blast
  qed
qed

section \<open>With and without the fence\<close>

lemma ghost_init: "twister_ok t1 \<Longrightarrow> twister_ok t2 \<Longrightarrow> cr_ghost 2 (\<lambda>_. Asleep) (cr_init t1 t2)"
  by (rule ghostI) (auto simp: cr_init_def tso_init_def main_stores_def split: side.splits)

lemma ghost_step:
  assumes "cr_step True s s'" "cr_ghost m mo s"
  shows "\<exists>m mo. cr_ghost m mo s'"
  using assms(1)
proof cases
  case main
  then show ?thesis by (rule ghost_main_step[OF assms(2)])
next
  case (worker w)
  then show ?thesis using ghost_worker[OF assms(2), of w "Inr s'"] by auto
next
  case (drain t m')
  then show ?thesis
    using ghost_main_drain[OF assms(2)] ghost_worker_drain[OF assms(2)] by (cases t) blast+
qed

lemma create_ok: "\<exists>t. mersenne_twister_create seed = Inr t \<and> twister_ok t"
  using generate_times_holds[OF holds_start, of "replicate 624 seed" 62400] holds_ok
  by (auto simp: mersenne_twister_create_def)

text \<open>(C30) With the fence no iteration ever finds both results zero, however the two threads, main and the stores in
  their buffers interleave and however long the random delays are; and the threads never fail.\<close>

theorem fence_prevents_reordering:
  assumes "mersenne_twister_create 1 = Inr t1" "mersenne_twister_create 2 = Inr t2" "(cr_step True)\<^sup>*\<^sup>* (cr_init t1 t2) s"
  shows "detected s = 0 \<and> cr_worker_step True w s \<noteq> Some (Inl e)"
proof -
  have "twister_ok t1" "twister_ok t2"
    using create_ok[of 1] create_ok[of 2] assms(1,2) by auto
  then have init: "\<exists>m mo. cr_ghost m mo (cr_init t1 t2)"
    using ghost_init by blast
  from assms(3) have "\<exists>m mo. cr_ghost m mo s"
    by (induction rule: rtranclp_induct) (use init ghost_step in blast)+
  then obtain m mo where g: "cr_ghost m mo s" by blast
  then show ?thesis
    using ghostD(10)[OF g] ghost_worker[OF g, of w "Inl e"] by auto
qed

datatype cr_act = Act_Main | Act_Worker side | Act_Drain cr_thread

fun cr_do :: "bool \<Rightarrow> cr_act \<Rightarrow> cr_state \<Rightarrow> cr_state option" where
  "cr_do fence Act_Main s = (case main_step s of Inl _ \<Rightarrow> None | Inr s \<Rightarrow> Some s)"
| "cr_do fence (Act_Worker w) s = (case cr_worker_step fence w s of Some (Inr s) \<Rightarrow> Some s | _ \<Rightarrow> None)"
| "cr_do fence (Act_Drain t) s = map_option (\<lambda>m. s\<lparr>cr_tso := m\<rparr>) (tso_drain t (cr_tso s))"

fun cr_run :: "bool \<Rightarrow> cr_act list \<Rightarrow> cr_state \<Rightarrow> cr_state option" where
  "cr_run fence [] s = Some s"
| "cr_run fence (a # as) s = (case cr_do fence a s of None \<Rightarrow> None | Some s \<Rightarrow> cr_run fence as s)"

lemma cr_run_steps: "cr_run fence as s = Some s' \<Longrightarrow> (cr_step fence)\<^sup>*\<^sup>* s s'"
proof (induction as arbitrary: s)
  case (Cons a as)
  then obtain t where t: "cr_do fence a s = Some t" "cr_run fence as t = Some s'"
    by (auto split: option.splits)
  from t(1) have "cr_step fence s t"
    by (cases a) (auto split: sum.splits option.splits intro: cr_step.intros)
  then show ?case
    using Cons.IH[OF t(2)] by (rule converse_rtranclp_into_rtranclp)
qed simp

text \<open>Without the fence both threads can load before their stores are in memory.\<close>

definition zero_twister :: mersenne_twister where
  "zero_twister = \<lparr>mt_buffer = replicate 624 0, mt_index = 0\<rparr>"

lemma zero_generate: "\<exists>t. mersenne_twister_generate zero_twister = Inr (0, t)"
  by (simp add: mersenne_twister_generate_def zero_twister_def tempering_def)

lemma reordering_without_fence:
  "\<exists>s. (cr_step False)\<^sup>*\<^sup>* (cr_init zero_twister zero_twister) s \<and> detected s = 1"
proof -
  obtain t where t: "mersenne_twister_generate zero_twister = Inr (0, t)"
    using zero_generate by blast
  have "\<exists>s. cr_run False
      ([Act_Main, Act_Main, Act_Main, Act_Main] @
       [Act_Drain Main, Act_Drain Main, Act_Drain Main, Act_Drain Main] @
       [Act_Worker One, Act_Worker One, Act_Worker One, Act_Worker One, Act_Worker One, Act_Worker One, Act_Worker One, Act_Worker One] @
       [Act_Worker Two, Act_Worker Two, Act_Worker Two, Act_Worker Two, Act_Worker Two, Act_Worker Two, Act_Worker Two, Act_Worker Two] @
       [Act_Drain (Worker One), Act_Drain (Worker One), Act_Drain (Worker One), Act_Drain (Worker One)] @
       [Act_Drain (Worker Two), Act_Drain (Worker Two), Act_Drain (Worker Two), Act_Drain (Worker Two)] @
       [Act_Main, Act_Main, Act_Main, Act_Main, Act_Main, Act_Main])
      (cr_init zero_twister zero_twister) = Some s \<and> detected s = 1"
    by (simp add: cr_init_def tso_init_def main_step_def cr_worker_step_def main_write_def worker_write_def
        worker_goto_def tso_write_def tso_drain_def tso_read_def next_iteration_def t)
  then show ?thesis
    using cr_run_steps by blast
qed

lemma fence_prevents_reordering_witness:
  "\<exists>t1 t2. mersenne_twister_create 1 = Inr t1 \<and> mersenne_twister_create 2 = Inr t2 \<and>
     detected (main_write (Shared One) 0 M_Y (cr_init t1 t2)) = 0"
proof -
  obtain t1 t2 where t: "mersenne_twister_create 1 = Inr t1" "mersenne_twister_create 2 = Inr t2"
    using create_ok[of 1] create_ok[of 2] by blast
  have "cr_step True (cr_init t1 t2) (main_write (Shared One) 0 M_Y (cr_init t1 t2))"
    by (rule cr_step.main) (simp add: main_step_def cr_init_def)
  then show ?thesis
    using fence_prevents_reordering[OF t r_into_rtranclp, of "main_write (Shared One) 0 M_Y (cr_init t1 t2)"] t by blast
qed

end
