(* ===== verification/SpinLock.thy ===== *)
theory SpinLock
  imports StoreBuffer
begin

text \<open>
  The program of src/lecture_examples/6_threads/8_6_spinlock_acq_rel.c: six threads increment a shared counter under
  a spin lock, on a memory with store buffers. \<open>acq_rel\<close> is \<open>USE_ACQUIRE_RELEASE\<close>: the lock is then released by a
  plain store, which waits in the buffer like any other.
\<close>

section \<open>State\<close>

datatype sl_var = V_Start | V_Lock | V_Counter

datatype sl_actor = A_Main | A_Thread nat

text \<open>
  Where a thread stands: waiting for \<open>start\<close>, at the test of the loop, in \<open>spin_lock\<close>, before the load and the store
  of \<open>++counter\<close>, in \<open>spin_unlock\<close>, returned.
\<close>

datatype sl_pc = S_Start | S_Loop | S_Lock | S_Load | S_Store (sl_loaded: int) | S_Unlock | S_Ret

record sl_thread =
  sl_pc :: sl_pc
  sl_i :: nat

text \<open>main creates the threads, sets \<open>start\<close>, joins the threads and prints the counter.\<close>

datatype sl_main = M_Create nat | M_Go | M_Join nat | M_Print int

record sl_state =
  sl_tso :: "(sl_actor, sl_var) tso"
  sl_threads :: "sl_thread list"
  sl_main :: sl_main

definition sl_init :: sl_state where
  "sl_init = \<lparr>sl_tso = tso_init, sl_threads = [], sl_main = M_Create 0\<rparr>"

section \<open>The lock\<close>

text \<open>
  A locked instruction waits for the buffer of its thread and then reads and writes the memory at once: it gives the
  value from before. \<open>__atomic_test_and_set\<close> always sets the lock, the compare-and-swap only when it is free.
\<close>

definition locked_swap :: "sl_actor \<Rightarrow> sl_var \<Rightarrow> (int \<Rightarrow> int) \<Rightarrow> (sl_actor, sl_var) tso \<Rightarrow> (int \<times> (sl_actor, sl_var) tso) option" where
  "locked_swap a x f m =
     (if tso_flushed a m then Some (tso_mem m x, m\<lparr>tso_mem := (tso_mem m)(x := f (tso_mem m x))\<rparr>) else None)"

text \<open>One round of the loop of \<open>spin_lock\<close>: whether the lock is taken.\<close>

definition spin_lock_acq :: "bool \<Rightarrow> sl_actor \<Rightarrow> (sl_actor, sl_var) tso \<Rightarrow> (bool \<times> (sl_actor, sl_var) tso) option" where
  "spin_lock_acq acq_rel a m =
     map_option (\<lambda>(old, m). (old = 0, m)) (locked_swap a V_Lock (\<lambda>v. if acq_rel then 1 else if v = 0 then 1 else v) m)"

definition spin_unlock_rel :: "bool \<Rightarrow> sl_actor \<Rightarrow> (sl_actor, sl_var) tso \<Rightarrow> (sl_actor, sl_var) tso option" where
  "spin_unlock_rel acq_rel a m =
     (if acq_rel then Some (tso_write a V_Lock 0 m)
      else map_option snd (locked_swap a V_Lock (\<lambda>v. if v = 1 then 0 else v) m))"

section \<open>Steps\<close>

definition sl_goto :: "nat \<Rightarrow> sl_pc \<Rightarrow> sl_state \<Rightarrow> sl_state" where
  "sl_goto i p s = s\<lparr>sl_threads := (sl_threads s)[i := (sl_threads s ! i)\<lparr>sl_pc := p\<rparr>]\<rparr>"

text \<open>The thread \<open>i\<close>, in a loop of \<open>k\<close> rounds; \<open>None\<close> while a locked instruction waits, and after the return.\<close>

definition sl_thread_step :: "bool \<Rightarrow> nat \<Rightarrow> nat \<Rightarrow> sl_state \<Rightarrow> sl_state option" where
  "sl_thread_step acq_rel k i s =
     (let t = sl_threads s ! i; a = A_Thread i; m = sl_tso s in
      case sl_pc t of
        S_Start \<Rightarrow> Some (if tso_read a V_Start m = 0 then s else sl_goto i S_Loop s)
      | S_Loop \<Rightarrow> Some (sl_goto i (if sl_i t < k then S_Lock else S_Ret) s)
      | S_Lock \<Rightarrow> map_option (\<lambda>(taken, m). sl_goto i (if taken then S_Load else S_Lock) (s\<lparr>sl_tso := m\<rparr>)) (spin_lock_acq acq_rel a m)
      | S_Load \<Rightarrow> Some (sl_goto i (S_Store (tso_read a V_Counter m)) s)
      | S_Store v \<Rightarrow> Some (sl_goto i S_Unlock (s\<lparr>sl_tso := tso_write a V_Counter ((v + 1) mod 2 ^ 64) m\<rparr>))
      | S_Unlock \<Rightarrow>
          map_option (\<lambda>m. s\<lparr>sl_tso := m, sl_threads := (sl_threads s)[i := \<lparr>sl_pc = S_Loop, sl_i = sl_i t + 1\<rparr>]\<rparr>)
            (spin_unlock_rel acq_rel a m)
      | S_Ret \<Rightarrow> None)"

text \<open>\<open>pthread_join\<close> returns once the thread has returned and its stores are in memory.\<close>

definition sl_main_step :: "nat \<Rightarrow> sl_state \<Rightarrow> sl_state option" where
  "sl_main_step n s =
     (case sl_main s of
        M_Create m \<Rightarrow>
          Some (if m < n then s\<lparr>sl_threads := sl_threads s @ [\<lparr>sl_pc = S_Start, sl_i = 0\<rparr>], sl_main := M_Create (m + 1)\<rparr>
                else s\<lparr>sl_main := M_Go\<rparr>)
      | M_Go \<Rightarrow> Some (s\<lparr>sl_tso := tso_write A_Main V_Start 1 (sl_tso s), sl_main := M_Join 0\<rparr>)
      | M_Join m \<Rightarrow>
          if m < n
          then (if sl_pc (sl_threads s ! m) = S_Ret \<and> tso_flushed (A_Thread m) (sl_tso s) then Some (s\<lparr>sl_main := M_Join (m + 1)\<rparr>)
                else None)
          else Some (s\<lparr>sl_main := M_Print (tso_read A_Main V_Counter (sl_tso s))\<rparr>)
      | M_Print _ \<Rightarrow> None)"

text \<open>The program with \<open>n\<close> threads and \<open>k\<close> rounds; in the source \<open>n\<close> is 6 and \<open>k\<close> is 10000000.\<close>

inductive sl_step :: "bool \<Rightarrow> nat \<Rightarrow> nat \<Rightarrow> sl_state \<Rightarrow> sl_state \<Rightarrow> bool" for acq_rel n k where
  thread: "i < length (sl_threads s) \<Longrightarrow> sl_thread_step acq_rel k i s = Some s' \<Longrightarrow> sl_step acq_rel n k s s'"
| main: "sl_main_step n s = Some s' \<Longrightarrow> sl_step acq_rel n k s s'"
| drain: "tso_drain a (sl_tso s) = Some m \<Longrightarrow> sl_step acq_rel n k s (s\<lparr>sl_tso := m\<rparr>)"

end
