(* ===== verification/SpinLock_Spec.thy ===== *)
theory SpinLock_Spec
  imports SpinLock
begin

text \<open>
  Release and acquire are enough: the counter is exact although the increments wait in store buffers.
\<close>

section \<open>The invariant\<close>

abbreviation (input) sl_mem :: "sl_state \<Rightarrow> sl_var \<Rightarrow> int" where "sl_mem s \<equiv> tso_mem (sl_tso s)"

abbreviation (input) sl_buf :: "sl_state \<Rightarrow> sl_actor \<Rightarrow> (sl_var \<times> int) list" where "sl_buf s \<equiv> tso_buf (sl_tso s)"

text \<open>The increments a thread has issued, and all of them.\<close>

definition sl_done :: "sl_thread \<Rightarrow> nat" where
  "sl_done t = sl_i t + (if sl_pc t = S_Unlock then 1 else 0)"

definition sl_total :: "sl_thread list \<Rightarrow> int" where
  "sl_total ts = int (tally sl_done ts) mod 2 ^ 64"

fun inside :: "sl_pc \<Rightarrow> bool" where
  "inside S_Load = True"
| "inside (S_Store v) = True"
| "inside S_Unlock = True"
| "inside pc = False"

definition sl_thread_ok :: "nat \<Rightarrow> sl_thread \<Rightarrow> bool" where
  "sl_thread_ok k t \<longleftrightarrow> sl_i t \<le> k \<and> (inside (sl_pc t) \<or> sl_pc t = S_Lock \<longrightarrow> sl_i t < k) \<and> (sl_pc t = S_Ret \<longrightarrow> sl_i t = k)"

text \<open>
  The owner of the lock: its store of the counter and, once it has left, its release may wait in its buffer.
\<close>

definition owner_ok :: "sl_pc \<Rightarrow> (sl_var \<times> int) list \<Rightarrow> int \<Rightarrow> int \<Rightarrow> bool" where
  "owner_ok pc b c tot \<longleftrightarrow>
     (case pc of
        S_Load \<Rightarrow> b = [] \<and> c = tot
      | S_Store v \<Rightarrow> b = [] \<and> c = tot \<and> v = tot
      | S_Unlock \<Rightarrow> b = [] \<and> c = tot \<or> b = [(V_Counter, tot)]
      | _ \<Rightarrow> b = [(V_Lock, 0)] \<and> c = tot \<or> b = [(V_Counter, tot), (V_Lock, 0)])"

text \<open>Who owns the lock; without an owner everything is in memory.\<close>

definition sl_lock_ok :: "nat option \<Rightarrow> sl_state \<Rightarrow> bool" where
  "sl_lock_ok ow s \<longleftrightarrow>
     (\<forall>j. ow \<noteq> Some j \<longrightarrow> sl_buf s (A_Thread j) = [] \<and> (j < length (sl_threads s) \<longrightarrow> \<not> inside (sl_pc (sl_threads s ! j)))) \<and>
     (case ow of
        None \<Rightarrow> sl_mem s V_Lock = 0 \<and> sl_mem s V_Counter = sl_total (sl_threads s)
      | Some i \<Rightarrow> i < length (sl_threads s) \<and> sl_mem s V_Lock = 1 \<and>
          owner_ok (sl_pc (sl_threads s ! i)) (sl_buf s (A_Thread i)) (sl_mem s V_Counter) (sl_total (sl_threads s)))"

definition main_ok :: "nat \<Rightarrow> nat \<Rightarrow> nat option \<Rightarrow> sl_state \<Rightarrow> bool" where
  "main_ok n k ow s \<longleftrightarrow>
     (case sl_main s of
        M_Create m \<Rightarrow> length (sl_threads s) = m \<and> m \<le> n \<and> sl_buf s A_Main = []
      | M_Go \<Rightarrow> length (sl_threads s) = n \<and> sl_buf s A_Main = []
      | M_Join m \<Rightarrow> length (sl_threads s) = n \<and> m \<le> n \<and>
          (sl_buf s A_Main = [(V_Start, 1)] \<or> sl_buf s A_Main = [] \<and> sl_mem s V_Start = 1) \<and>
          (\<forall>j < m. sl_pc (sl_threads s ! j) = S_Ret \<and> ow \<noteq> Some j)
      | M_Print v \<Rightarrow> v = int (n * k) mod 2 ^ 64 \<and> (sl_buf s A_Main = [(V_Start, 1)] \<or> sl_buf s A_Main = []))"

definition sl_inv :: "nat \<Rightarrow> nat \<Rightarrow> nat option \<Rightarrow> sl_state \<Rightarrow> bool" where
  "sl_inv n k ow s \<longleftrightarrow> sl_lock_ok ow s \<and> main_ok n k ow s \<and> (\<forall>t \<in> set (sl_threads s). sl_thread_ok k t)"

lemma owner_outside:
  "\<not> inside pc \<Longrightarrow> owner_ok pc b c tot \<longleftrightarrow> b = [(V_Lock, 0)] \<and> c = tot \<or> b = [(V_Counter, tot), (V_Lock, 0)]"
  by (cases pc) (simp_all add: owner_ok_def)

lemma lock_cong:
  assumes "sl_threads s' = sl_threads s" "\<And>i. sl_buf s' (A_Thread i) = sl_buf s (A_Thread i)"
    and "sl_mem s' V_Lock = sl_mem s V_Lock" "sl_mem s' V_Counter = sl_mem s V_Counter"
  shows "sl_lock_ok ow s' = sl_lock_ok ow s"
  using assms by (cases ow) (simp_all add: sl_lock_ok_def)

lemma lock_other: "sl_lock_ok ow s \<Longrightarrow> ow \<noteq> Some j \<Longrightarrow> sl_buf s (A_Thread j) = []"
  by (simp add: sl_lock_ok_def)

lemma lock_inside: "sl_lock_ok ow s \<Longrightarrow> j < length (sl_threads s) \<Longrightarrow> inside (sl_pc (sl_threads s ! j)) \<Longrightarrow> ow = Some j"
  unfolding sl_lock_ok_def by blast

lemma lock_free: "sl_lock_ok ow s \<Longrightarrow> ow = None \<longleftrightarrow> sl_mem s V_Lock = 0"
  by (cases ow) (simp_all add: sl_lock_ok_def)

lemma sl_total_update:
  assumes "i < length ts"
  shows "sl_total (ts[i := t]) = (sl_total ts + int (sl_done t) - int (sl_done (ts ! i))) mod 2 ^ 64"
proof -
  have "int (tally sl_done (ts[i := t])) = int (tally sl_done ts) + int (sl_done t) - int (sl_done (ts ! i))"
    using tally_update[OF assms, of sl_done t] by linarith
  then show ?thesis
    unfolding sl_total_def by (metis add_diff_eq mod_add_left_eq)
qed

lemma sl_total_same: "i < length ts \<Longrightarrow> sl_done t = sl_done (ts ! i) \<Longrightarrow> sl_total (ts[i := t]) = sl_total ts"
  by (simp add: sl_total_update) (simp add: sl_total_def)

lemma sl_total_more: "i < length ts \<Longrightarrow> sl_done t = sl_done (ts ! i) + 1 \<Longrightarrow> sl_total (ts[i := t]) = (sl_total ts + 1) mod 2 ^ 64"
  by (simp add: sl_total_update)

section \<open>Steps of a thread\<close>

text \<open>One thread and what only it can change.\<close>

definition thread_change :: "nat \<Rightarrow> sl_thread \<Rightarrow> sl_state \<Rightarrow> sl_state \<Rightarrow> bool" where
  "thread_change i t s s' \<longleftrightarrow> i < length (sl_threads s) \<and> sl_threads s' = (sl_threads s)[i := t] \<and> sl_main s' = sl_main s \<and>
     (\<forall>a. a \<noteq> A_Thread i \<longrightarrow> sl_buf s' a = sl_buf s a) \<and> sl_mem s' V_Start = sl_mem s V_Start"

lemma inv_change:
  assumes "sl_inv n k ow s" "thread_change i t s s'" "sl_thread_ok k t" "sl_lock_ok ow' s'"
    and "ow' = ow \<or> ow' = Some i \<or> ow' = None" "sl_pc (sl_threads s ! i) \<noteq> S_Ret \<or> t = sl_threads s ! i \<and> ow' \<noteq> Some i"
  shows "sl_inv n k ow' s'"
proof -
  have "main_ok n k ow' s'"
    using assms(1,2,5,6) unfolding sl_inv_def main_ok_def thread_change_def
    by (cases "sl_main s") (auto simp: nth_list_update)
  moreover have "\<forall>t \<in> set (sl_threads s'). sl_thread_ok k t"
    using assms(1-3) set_update_subset_insert[of "sl_threads s" i t] by (auto simp: sl_inv_def thread_change_def)
  ultimately show ?thesis
    using assms(4) by (simp add: sl_inv_def)
qed

lemma inv_ex:
  assumes "sl_inv n k ow s" "thread_change i t s s'" "sl_lock_ok ow' s'" "sl_thread_ok k t"
    and "ow' = ow \<or> ow' = Some i \<or> ow' = None" "sl_pc (sl_threads s ! i) \<noteq> S_Ret"
  shows "\<exists>ow. sl_inv n k ow s'"
  using inv_change[OF assms(1,2,4,3,5)] assms(6) by blast

lemma lock_same:
  assumes "sl_lock_ok ow s" "thread_change i t s s'" "sl_done t = sl_done (sl_threads s ! i)" "sl_tso s' = sl_tso s"
    and "\<not> inside (sl_pc (sl_threads s ! i))" "\<not> inside (sl_pc t)"
  shows "sl_lock_ok ow s'"
proof -
  have i: "i < length (sl_threads s)" and ts: "sl_threads s' = (sl_threads s)[i := t]"
    using assms(2) by (simp_all add: thread_change_def)
  have pc: "owner_ok (sl_pc t) b c tot = owner_ok (sl_pc (sl_threads s ! i)) b c tot" for b c tot
    using assms(5,6) by (simp add: owner_outside)
  have total: "sl_total (sl_threads s') = sl_total (sl_threads s)"
    using sl_total_same[OF i assms(3)] ts by simp
  have inside: "inside (sl_pc ((sl_threads s)[i := t] ! j)) = inside (sl_pc (sl_threads s ! j))" for j
    by (cases "j = i") (use i assms(5,6) in simp_all)
  have own: "owner_ok (sl_pc ((sl_threads s)[i := t] ! j)) b c tot = owner_ok (sl_pc (sl_threads s ! j)) b c tot" for j b c tot
    by (cases "j = i") (use i pc in simp_all)
  show ?thesis
    using assms(1) unfolding sl_lock_ok_def total unfolding ts by (cases ow) (simp_all add: assms(4) inside own)
qed

text \<open>Taking the lock: the thread \<open>i\<close> becomes the owner.\<close>

lemma lock_taken:
  assumes "sl_lock_ok None s" "thread_change i t s s'" "sl_done t = sl_done (sl_threads s ! i)" "sl_pc t = S_Load"
    and "sl_mem s' = (sl_mem s)(V_Lock := 1)" "sl_buf s' = sl_buf s"
  shows "sl_lock_ok (Some i) s'"
proof -
  have i: "i < length (sl_threads s)" and ts: "sl_threads s' = (sl_threads s)[i := t]"
    using assms(2) by (simp_all add: thread_change_def)
  have total: "sl_total (sl_threads s') = sl_total (sl_threads s)"
    using sl_total_same[OF i assms(3)] ts by simp
  show ?thesis
    using assms(1) i unfolding sl_lock_ok_def total unfolding ts
    by (simp add: assms(4-6) owner_ok_def nth_list_update)
qed

text \<open>A step of the owner that stays the owner.\<close>

lemma lock_owner:
  assumes "sl_lock_ok (Some i) s" "thread_change i t s s'" "sl_mem s' V_Lock = sl_mem s V_Lock"
    and "owner_ok (sl_pc t) (sl_buf s' (A_Thread i)) (sl_mem s' V_Counter) (sl_total ((sl_threads s)[i := t]))"
  shows "sl_lock_ok (Some i) s'"
  using assms unfolding sl_lock_ok_def thread_change_def by auto

text \<open>A step of the owner that frees the lock.\<close>

lemma lock_released:
  assumes "sl_lock_ok (Some i) s" "thread_change i t s s'" "sl_mem s' V_Lock = 0" "sl_buf s' (A_Thread i) = []" "\<not> inside (sl_pc t)"
    and "sl_mem s' V_Counter = sl_total ((sl_threads s)[i := t])"
  shows "sl_lock_ok None s'"
  using assms unfolding sl_lock_ok_def thread_change_def by (auto simp: nth_list_update)

lemma inv_thread:
  assumes "sl_inv n k ow s" "i < length (sl_threads s)" "sl_thread_step acq_rel k i s = Some s'"
  shows "\<exists>ow. sl_inv n k ow s'"
proof -
  let ?t = "sl_threads s ! i" and ?a = "A_Thread i" and ?m = "sl_tso s"
  have lock: "sl_lock_ok ow s" and ok: "sl_thread_ok k ?t"
    using assms(1,2) by (simp_all add: sl_inv_def)
  have goto: "thread_change i (?t\<lparr>sl_pc := p\<rparr>) s (sl_goto i p s)" for p
    using assms(2) by (simp add: thread_change_def sl_goto_def)
  show ?thesis
  proof (cases "sl_pc ?t")
    case S_Start
    show ?thesis
    proof (cases "tso_read ?a V_Start ?m = 0")
      case True
      then show ?thesis using assms(1,3) S_Start by (auto simp: sl_thread_step_def Let_def)
    next
      case False
      then have s': "s' = sl_goto i S_Loop s"
        using assms(3) S_Start by (simp add: sl_thread_step_def Let_def)
      have "sl_lock_ok ow s'"
        unfolding s' by (rule lock_same[OF lock goto]) (simp_all add: S_Start sl_done_def sl_goto_def)
      from inv_ex[OF assms(1) goto[of S_Loop, folded s'] this] show ?thesis
        using ok S_Start by (auto simp: s' sl_thread_ok_def)
    qed
  next
    case S_Loop
    let ?p = "if sl_i ?t < k then S_Lock else S_Ret"
    have s': "s' = sl_goto i ?p s"
      using assms(3) S_Loop by (simp add: sl_thread_step_def Let_def)
    have "sl_lock_ok ow s'"
      unfolding s' by (rule lock_same[OF lock goto]) (simp_all add: S_Loop sl_done_def sl_goto_def)
    from inv_ex[OF assms(1) goto[of ?p, folded s'] this] show ?thesis
      using ok S_Loop by (auto simp: s' sl_thread_ok_def)
  next
    case S_Lock
    let ?m' = "?m\<lparr>tso_mem := (tso_mem ?m)(V_Lock := 1)\<rparr>"
    have b: "sl_buf s ?a = []" and s': "s' = sl_goto i (if sl_mem s V_Lock = 0 then S_Load else S_Lock)
        (s\<lparr>sl_tso := ?m\<lparr>tso_mem := (tso_mem ?m)(V_Lock := if acq_rel \<or> sl_mem s V_Lock = 0 then 1 else sl_mem s V_Lock)\<rparr>\<rparr>)"
      using assms(3) S_Lock by (auto simp: sl_thread_step_def Let_def spin_lock_acq_def locked_swap_def tso_flushed_def split: if_splits)
    have "ow \<noteq> Some i"
      using lock S_Lock b by (auto simp: sl_lock_ok_def owner_ok_def)
    show ?thesis
    proof (cases ow)
      case None
      then have free: "sl_mem s V_Lock = 0"
        using lock_free[OF lock] by simp
      have c: "thread_change i (?t\<lparr>sl_pc := S_Load\<rparr>) s s'"
        using assms(2) free by (simp add: s' thread_change_def sl_goto_def)
      have "sl_lock_ok (Some i) s'"
        by (rule lock_taken[OF lock[unfolded None] c]) (use free S_Lock in \<open>simp_all add: s' sl_goto_def sl_done_def\<close>)
      from inv_ex[OF assms(1) c this] show ?thesis
        using ok S_Lock by (auto simp: sl_thread_ok_def)
    next
      case (Some j)
      then have held: "sl_mem s V_Lock = 1"
        using lock by (simp add: sl_lock_ok_def)
      then have same: "sl_tso s' = sl_tso s" and c: "thread_change i (?t\<lparr>sl_pc := S_Lock\<rparr>) s s'"
        using assms(2) fun_upd_idem[of "sl_mem s" V_Lock 1] by (simp_all add: s' thread_change_def sl_goto_def)
      have "sl_lock_ok ow s'"
        by (rule lock_same[OF lock c _ same]) (use S_Lock in \<open>simp_all add: sl_done_def\<close>)
      from inv_ex[OF assms(1) c this] show ?thesis
        using ok S_Lock by (auto simp: sl_thread_ok_def)
    qed
  next
    case S_Load
    then have ow: "ow = Some i"
      using lock_inside[OF lock assms(2)] by simp
    have o: "sl_buf s ?a = []" "sl_mem s V_Counter = sl_total (sl_threads s)"
      using lock S_Load by (simp_all add: ow sl_lock_ok_def owner_ok_def)
    then have s': "s' = sl_goto i (S_Store (sl_total (sl_threads s))) s"
      using assms(3) S_Load by (simp add: sl_thread_step_def Let_def tso_read_flushed)
    have "sl_lock_ok (Some i) s'"
      unfolding s' by (rule lock_owner[OF lock[unfolded ow] goto])
        (use o S_Load sl_total_same[OF assms(2)] in \<open>simp_all add: sl_goto_def owner_ok_def sl_done_def\<close>)
    from inv_ex[OF assms(1) goto[of "S_Store (sl_total (sl_threads s))", folded s'] this] show ?thesis
      using ok S_Load by (auto simp: s' sl_thread_ok_def)
  next
    case (S_Store v)
    then have ow: "ow = Some i"
      using lock_inside[OF lock assms(2)] by simp
    have o: "sl_buf s ?a = []" "v = sl_total (sl_threads s)"
      using lock S_Store by (simp_all add: ow sl_lock_ok_def owner_ok_def)
    then have s': "s' = sl_goto i S_Unlock (s\<lparr>sl_tso := tso_write ?a V_Counter ((v + 1) mod 2 ^ 64) ?m\<rparr>)"
      using assms(3) S_Store by (simp add: sl_thread_step_def Let_def)
    let ?u = "?t\<lparr>sl_pc := S_Unlock\<rparr>"
    have c: "thread_change i ?u s s'"
      using assms(2) by (simp add: s' thread_change_def sl_goto_def)
    have total: "sl_total ((sl_threads s)[i := ?u]) = (v + 1) mod 2 ^ 64"
      using sl_total_more[OF assms(2), of ?u] o S_Store by (simp add: sl_done_def)
    have "sl_lock_ok (Some i) s'"
      by (rule lock_owner[OF lock[unfolded ow] c]) (use o in \<open>simp_all add: s' sl_goto_def owner_ok_def total\<close>)
    from inv_ex[OF assms(1) c this] show ?thesis
      using ok S_Store by (auto simp: sl_thread_ok_def)
  next
    case S_Unlock
    then have ow: "ow = Some i"
      using lock_inside[OF lock assms(2)] by simp
    let ?u = "\<lparr>sl_pc = S_Loop, sl_i = Suc (sl_i ?t)\<rparr>"
    have total: "sl_total ((sl_threads s)[i := ?u]) = sl_total (sl_threads s)"
      using sl_total_same[OF assms(2), of ?u] S_Unlock by (simp add: sl_done_def)
    have u: "sl_thread_ok k ?u"
      using ok S_Unlock by (simp add: sl_thread_ok_def)
    have o: "sl_buf s ?a = [] \<and> sl_mem s V_Counter = sl_total (sl_threads s) \<or> sl_buf s ?a = [(V_Counter, sl_total (sl_threads s))]"
        "sl_mem s V_Lock = 1"
      using lock S_Unlock by (simp_all add: ow sl_lock_ok_def owner_ok_def)
    show ?thesis
    proof (cases acq_rel)
      case True
      then have s': "s' = s\<lparr>sl_tso := tso_write ?a V_Lock 0 ?m, sl_threads := (sl_threads s)[i := ?u]\<rparr>"
        using assms(3) S_Unlock by (simp add: sl_thread_step_def Let_def spin_unlock_rel_def)
      have c: "thread_change i ?u s s'"
        using assms(2) by (simp add: s' thread_change_def)
      have "sl_lock_ok (Some i) s'"
        by (rule lock_owner[OF lock[unfolded ow] c]) (use o in \<open>auto simp: s' owner_ok_def total\<close>)
      from inv_ex[OF assms(1) c this u] show ?thesis
        using S_Unlock by simp
    next
      case False
      then have b: "sl_buf s ?a = []" and s': "s' = s\<lparr>sl_tso := ?m\<lparr>tso_mem := (tso_mem ?m)(V_Lock := 0)\<rparr>, sl_threads := (sl_threads s)[i := ?u]\<rparr>"
        using assms(3) S_Unlock o(2) by (auto simp: sl_thread_step_def Let_def spin_unlock_rel_def locked_swap_def tso_flushed_def split: if_splits)
      have c: "thread_change i ?u s s'"
        using assms(2) by (simp add: s' thread_change_def)
      have "sl_lock_ok None s'"
        by (rule lock_released[OF lock[unfolded ow] c]) (use o b in \<open>simp_all add: s' total\<close>)
      from inv_ex[OF assms(1) c this u] show ?thesis
        using S_Unlock by simp
    qed
  next
    case S_Ret
    then show ?thesis using assms(3) by (simp add: sl_thread_step_def Let_def)
  qed
qed

section \<open>Stores that reach the memory, and main\<close>

lemma inv_drain:
  assumes "sl_inv n k ow s" "tso_drain a (sl_tso s) = Some m"
  shows "\<exists>ow. sl_inv n k ow (s\<lparr>sl_tso := m\<rparr>)"
proof -
  let ?s = "s\<lparr>sl_tso := m\<rparr>"
  have lock: "sl_lock_ok ow s"
    using assms(1) by (simp add: sl_inv_def)
  obtain x y b where d: "sl_buf s a = (x, y) # b" "tso_mem m = (sl_mem s)(x := y)" "tso_buf m = (sl_buf s)(a := b)"
    using assms(2) by (auto simp: tso_drain_Some)
  show ?thesis
  proof (cases a)
    case A_Main
    then have xy: "x = V_Start" "y = 1" "b = []"
      using assms(1) d(1) by (auto simp: sl_inv_def main_ok_def split: sl_main.splits)
    have "sl_lock_ok ow ?s = sl_lock_ok ow s"
      by (rule lock_cong) (simp_all add: d A_Main xy)
    then have "sl_lock_ok ow ?s"
      using lock by simp
    moreover have "main_ok n k ow ?s"
      using assms(1) d A_Main xy by (auto simp: sl_inv_def main_ok_def split: sl_main.splits)
    ultimately show ?thesis
      using assms(1) by (auto simp: sl_inv_def)
  next
    case (A_Thread i)
    then have ow: "ow = Some i"
      using lock_other[OF lock, of i] d(1) by auto
    have i: "i < length (sl_threads s)"
      and o: "owner_ok (sl_pc (sl_threads s ! i)) ((x, y) # b) (sl_mem s V_Counter) (sl_total (sl_threads s))" "sl_mem s V_Lock = 1"
      using lock d(1) A_Thread by (simp_all add: ow sl_lock_ok_def)
    have ret: "sl_pc (sl_threads s ! i) = S_Ret \<Longrightarrow> sl_threads s ! i = sl_threads s ! i \<and> ow' \<noteq> Some i" if "ow' = None" for ow'
      using that by simp
    show ?thesis
    proof (cases "x = V_Lock")
      case True
      have out: "\<not> inside (sl_pc (sl_threads s ! i))" and b: "b = []" "y = 0" "sl_mem s V_Counter = sl_total (sl_threads s)"
        using o(1) True by (cases "sl_pc (sl_threads s ! i)"; simp add: owner_ok_def)+
      have c: "thread_change i (sl_threads s ! i) s ?s"
        using i d A_Thread True by (simp add: thread_change_def)
      have free: "sl_lock_ok None ?s"
        by (rule lock_released[OF lock[unfolded ow] c]) (use d A_Thread True out b in simp_all)
      show ?thesis
        using inv_change[OF assms(1) c _ free] i assms(1) by (auto simp: sl_inv_def)
    next
      case False
      then have x: "x = V_Counter" "y = sl_total (sl_threads s)"
        using o(1) by (cases "sl_pc (sl_threads s ! i)"; auto simp: owner_ok_def)+
      have "owner_ok (sl_pc (sl_threads s ! i)) b y (sl_total (sl_threads s))"
        using o(1) x by (cases "sl_pc (sl_threads s ! i)") (auto simp: owner_ok_def)
      then have "sl_lock_ok ow ?s"
        using lock i o(2) by (simp add: sl_lock_ok_def ow d A_Thread x)
      moreover have "main_ok n k ow ?s"
        using assms(1) d A_Thread x by (auto simp: sl_inv_def main_ok_def split: sl_main.splits)
      ultimately show ?thesis
        using assms(1) by (auto simp: sl_inv_def)
    qed
  qed
qed

lemma all_returned:
  assumes "sl_inv n k ow s" "sl_main s = M_Join n"
  shows "ow = None" "sl_mem s V_Counter = int (n * k) mod 2 ^ 64"
proof -
  have len: "length (sl_threads s) = n" and ret: "\<forall>j < n. sl_pc (sl_threads s ! j) = S_Ret \<and> ow \<noteq> Some j"
    using assms by (simp_all add: sl_inv_def main_ok_def)
  have lock: "sl_lock_ok ow s"
    using assms(1) by (simp add: sl_inv_def)
  then show "ow = None"
    using ret len by (cases ow) (auto simp: sl_lock_ok_def)
  have "\<forall>t \<in> set (sl_threads s). sl_done t = k"
  proof
    fix t assume t: "t \<in> set (sl_threads s)"
    then have "sl_pc t = S_Ret"
      using ret len by (auto simp: in_set_conv_nth)
    moreover have "sl_thread_ok k t"
      using assms(1) t by (simp add: sl_inv_def)
    ultimately show "sl_done t = k"
      by (simp add: sl_thread_ok_def sl_done_def)
  qed
  then have "sl_total (sl_threads s) = int (n * k) mod 2 ^ 64"
    using tally_const[of "sl_threads s" sl_done k] len by (simp add: sl_total_def mult.commute)
  then show "sl_mem s V_Counter = int (n * k) mod 2 ^ 64"
    using lock \<open>ow = None\<close> by (simp add: sl_lock_ok_def)
qed

lemma inv_main:
  assumes "sl_inv n k ow s" "sl_main_step n s = Some s'"
  shows "\<exists>ow. sl_inv n k ow s'"
proof -
  have lock: "sl_lock_ok ow s"
    using assms(1) by (simp add: sl_inv_def)
  show ?thesis
  proof (cases "sl_main s")
    case (M_Create m)
    have len: "length (sl_threads s) = m"
      using assms(1) M_Create by (simp add: sl_inv_def main_ok_def)
    show ?thesis
    proof (cases "m < n")
      case True
      then have s': "s' = s\<lparr>sl_threads := sl_threads s @ [\<lparr>sl_pc = S_Start, sl_i = 0\<rparr>], sl_main := M_Create (m + 1)\<rparr>"
        using assms(2) M_Create by (simp add: sl_main_step_def)
      have total: "sl_total (sl_threads s @ [\<lparr>sl_pc = S_Start, sl_i = 0\<rparr>]) = sl_total (sl_threads s)"
        by (simp add: sl_total_def sl_done_def)
      have "sl_lock_ok ow s'"
        using lock by (cases ow) (auto simp: s' sl_lock_ok_def total nth_append)
      then have "sl_inv n k ow s'"
        using assms(1) M_Create True by (auto simp: s' sl_inv_def main_ok_def sl_thread_ok_def)
      then show ?thesis ..
    next
      case False
      then have s': "s' = s\<lparr>sl_main := M_Go\<rparr>"
        using assms(2) M_Create by (simp add: sl_main_step_def)
      have "sl_lock_ok ow s' = sl_lock_ok ow s"
        by (rule lock_cong) (simp_all add: s')
      then have "sl_inv n k ow s'"
        using assms(1) M_Create False by (auto simp: s' sl_inv_def main_ok_def)
      then show ?thesis ..
    qed
  next
    case M_Go
    then have s': "s' = s\<lparr>sl_tso := tso_write A_Main V_Start 1 (sl_tso s), sl_main := M_Join 0\<rparr>"
      using assms(2) by (simp add: sl_main_step_def)
    have "sl_lock_ok ow s' = sl_lock_ok ow s"
      by (rule lock_cong) (simp_all add: s')
    then have "sl_inv n k ow s'"
      using assms(1) M_Go by (auto simp: s' sl_inv_def main_ok_def)
    then show ?thesis ..
  next
    case (M_Join m)
    show ?thesis
    proof (cases "m < n")
      case True
      then have s': "s' = s\<lparr>sl_main := M_Join (m + 1)\<rparr>" and ret: "sl_pc (sl_threads s ! m) = S_Ret" "sl_buf s (A_Thread m) = []"
        using assms(2) M_Join by (auto simp: sl_main_step_def tso_flushed_def split: if_splits)
      have "ow \<noteq> Some m"
        using lock ret by (auto simp: sl_lock_ok_def owner_ok_def)
      moreover have "sl_lock_ok ow s' = sl_lock_ok ow s"
        by (rule lock_cong) (simp_all add: s')
      ultimately have "sl_inv n k ow s'"
        using assms(1) M_Join True ret by (auto simp: s' sl_inv_def main_ok_def less_Suc_eq)
      then show ?thesis ..
    next
      case False
      then have m: "m = n" and buf: "sl_buf s A_Main = [(V_Start, 1)] \<or> sl_buf s A_Main = []"
        using assms(1) M_Join by (auto simp: sl_inv_def main_ok_def)
      have "tso_read A_Main V_Counter (sl_tso s) = sl_mem s V_Counter"
        using buf by (intro tso_read_mem) auto
      then have s': "s' = s\<lparr>sl_main := M_Print (int (n * k) mod 2 ^ 64)\<rparr>"
        using assms(2) M_Join False all_returned(2)[OF assms(1)] m by (simp add: sl_main_step_def)
      have "sl_lock_ok ow s' = sl_lock_ok ow s"
        by (rule lock_cong) (simp_all add: s')
      then have "sl_inv n k ow s'"
        using assms(1) buf by (auto simp: s' sl_inv_def main_ok_def)
      then show ?thesis ..
    qed
  next
    case (M_Print v)
    then show ?thesis
      using assms(2) by (simp add: sl_main_step_def)
  qed
qed

lemma inv_step: "sl_step acq_rel n k s s' \<Longrightarrow> sl_inv n k ow s \<Longrightarrow> \<exists>ow. sl_inv n k ow s'"
  by (erule sl_step.cases) (use inv_thread inv_main inv_drain in blast)+

lemma inv_init: "sl_inv n k None sl_init"
  by (simp add: sl_inv_def sl_lock_ok_def main_ok_def sl_init_def tso_init_def sl_total_def)

section \<open>The end\<close>

fun sl_pc_work :: "sl_pc \<Rightarrow> nat" where
  "sl_pc_work S_Start = 9"
| "sl_pc_work S_Loop = 8"
| "sl_pc_work S_Lock = 7"
| "sl_pc_work S_Load = 6"
| "sl_pc_work (S_Store v) = 5"
| "sl_pc_work S_Unlock = 3"
| "sl_pc_work S_Ret = 0"

definition sl_thread_work :: "nat \<Rightarrow> sl_thread \<Rightarrow> nat" where
  "sl_thread_work k t = (k - sl_i t) * 10 + sl_pc_work (sl_pc t)"

fun sl_main_work :: "nat \<Rightarrow> nat \<Rightarrow> sl_main \<Rightarrow> nat" where
  "sl_main_work n k (M_Create m) = (n - m) * (10 * k + 10) + n + 4"
| "sl_main_work n k M_Go = n + 3"
| "sl_main_work n k (M_Join m) = n - m + 1"
| "sl_main_work n k (M_Print v) = 0"

definition sl_work :: "nat \<Rightarrow> nat \<Rightarrow> sl_state \<Rightarrow> nat" where
  "sl_work n k s = tally (sl_thread_work k) (sl_threads s) + sl_main_work n k (sl_main s) + length (sl_buf s A_Main) +
     (\<Sum>j < length (sl_threads s). length (sl_buf s (A_Thread j)))"

text \<open>The steps that bring the end nearer: those of a thread that waits for the lock do not.\<close>

definition sl_forward :: "bool \<Rightarrow> nat \<Rightarrow> nat \<Rightarrow> sl_state \<Rightarrow> sl_state \<Rightarrow> bool" where
  "sl_forward acq_rel n k s s' \<longleftrightarrow> sl_step acq_rel n k s s' \<and> sl_work n k s' < sl_work n k s"

definition sl_finished :: "sl_state \<Rightarrow> bool" where
  "sl_finished s \<longleftrightarrow> (\<exists>v. sl_main s = M_Print v)"

lemma work_thread:
  assumes "thread_change i t s s'" "sl_thread_work k t + length (sl_buf s' (A_Thread i)) <
      sl_thread_work k (sl_threads s ! i) + length (sl_buf s (A_Thread i))"
  shows "sl_work n k s' < sl_work n k s"
proof -
  have i: "i < length (sl_threads s)" and ts: "sl_threads s' = (sl_threads s)[i := t]" and m: "sl_main s' = sl_main s"
    and b: "\<forall>a. a \<noteq> A_Thread i \<longrightarrow> sl_buf s' a = sl_buf s a"
    using assms(1) by (simp_all add: thread_change_def)
  have "(\<Sum>j < length (sl_threads s). length (sl_buf s' (A_Thread j))) + length (sl_buf s (A_Thread i)) =
    (\<Sum>j < length (sl_threads s). length (sl_buf s (A_Thread j))) + length (sl_buf s' (A_Thread i))"
    by (rule sum_change[OF i]) (use b in simp)
  then show ?thesis
    using assms(2) tally_update[OF i, of "sl_thread_work k" t] b unfolding sl_work_def ts m by simp
qed

lemma forward_drain:
  assumes "sl_buf s a \<noteq> []" "a = A_Main \<or> (\<exists>j < length (sl_threads s). a = A_Thread j)"
  shows "\<exists>s'. sl_forward acq_rel n k s s'"
proof -
  obtain x y b where b: "sl_buf s a = (x, y) # b"
    using assms(1) by (cases "sl_buf s a") auto
  let ?m = "(sl_tso s)\<lparr>tso_mem := (sl_mem s)(x := y), tso_buf := (sl_buf s)(a := b)\<rparr>"
  let ?s = "s\<lparr>sl_tso := ?m\<rparr>"
  have "tso_drain a (sl_tso s) = Some ?m"
    by (simp add: tso_drain_def b)
  then have "sl_step acq_rel n k s ?s"
    by (rule sl_step.drain)
  moreover have "sl_work n k ?s < sl_work n k s"
    using assms(2)
  proof
    assume "a = A_Main"
    with b show ?thesis by (simp add: sl_work_def)
  next
    assume "\<exists>j < length (sl_threads s). a = A_Thread j"
    then obtain j where j: "j < length (sl_threads s)" "a = A_Thread j" by blast
    then have "(\<Sum>j < length (sl_threads s). length (sl_buf ?s (A_Thread j))) + length (sl_buf s (A_Thread j)) =
      (\<Sum>j < length (sl_threads s). length (sl_buf s (A_Thread j))) + length (sl_buf ?s (A_Thread j))"
      by (intro sum_change) simp_all
    then show ?thesis
      using j b by (simp add: sl_work_def)
  qed
  ultimately show ?thesis
    by (auto simp: sl_forward_def)
qed

lemma forward_thread:
  assumes "sl_inv n k ow s" "i < length (sl_threads s)" "sl_pc (sl_threads s ! i) \<noteq> S_Ret" "ow = None \<or> ow = Some i"
    and "sl_buf s (A_Thread i) = []" "sl_mem s V_Start = 1"
  shows "\<exists>s'. sl_forward acq_rel n k s s'"
proof -
  let ?t = "sl_threads s ! i" and ?m = "sl_tso s" and ?a = "A_Thread i"
  have lock: "sl_lock_ok ow s" and ok: "sl_thread_ok k ?t"
    using assms(1,2) by (simp_all add: sl_inv_def)
  have forward: ?thesis if "sl_thread_step acq_rel k i s = Some s'" "thread_change i t s s'"
    "sl_thread_work k t + length (sl_buf s' ?a) < sl_thread_work k ?t" for s' t
    using that work_thread[OF that(2), of k] assms(2,5) by (auto simp: sl_forward_def intro: sl_step.thread)
  have change: "thread_change i t s (s\<lparr>sl_tso := m, sl_threads := (sl_threads s)[i := t]\<rparr>)"
    if "\<forall>a. a \<noteq> ?a \<longrightarrow> tso_buf m a = sl_buf s a" "tso_mem m V_Start = sl_mem s V_Start" for m t
    using that assms(2) by (simp add: thread_change_def)
  show ?thesis
  proof (cases "sl_pc ?t")
    case S_Start
    have "tso_read ?a V_Start ?m = 1"
      using assms(5,6) by (simp add: tso_read_flushed)
    with S_Start show ?thesis
      by (intro forward[of "sl_goto i S_Loop s" "?t\<lparr>sl_pc := S_Loop\<rparr>"])
        (use assms(2,5) in \<open>simp_all add: sl_thread_step_def Let_def thread_change_def sl_goto_def sl_thread_work_def\<close>)
  next
    case S_Loop
    then show ?thesis
      by (intro forward[of "sl_goto i (if sl_i ?t < k then S_Lock else S_Ret) s" "?t\<lparr>sl_pc := if sl_i ?t < k then S_Lock else S_Ret\<rparr>"])
        (use assms(2,5) in \<open>simp_all add: sl_thread_step_def Let_def thread_change_def sl_goto_def sl_thread_work_def\<close>)
  next
    case S_Lock
    then have "ow = None"
      using lock assms(4,5) by (auto simp: sl_lock_ok_def owner_ok_def)
    then have "sl_mem s V_Lock = 0"
      using lock_free[OF lock] by simp
    with S_Lock show ?thesis
      by (intro forward[of "sl_goto i S_Load (s\<lparr>sl_tso := ?m\<lparr>tso_mem := (tso_mem ?m)(V_Lock := 1)\<rparr>\<rparr>)" "?t\<lparr>sl_pc := S_Load\<rparr>"])
        (use assms(2,5) in \<open>simp_all add: sl_thread_step_def Let_def thread_change_def sl_goto_def sl_thread_work_def spin_lock_acq_def
          locked_swap_def tso_flushed_def\<close>)
  next
    case S_Load
    then show ?thesis
      by (intro forward[of "sl_goto i (S_Store (tso_read ?a V_Counter ?m)) s" "?t\<lparr>sl_pc := S_Store (tso_read ?a V_Counter ?m)\<rparr>"])
        (use assms(2,5) in \<open>simp_all add: sl_thread_step_def Let_def thread_change_def sl_goto_def sl_thread_work_def\<close>)
  next
    case (S_Store v)
    then show ?thesis
      by (intro forward[of "sl_goto i S_Unlock (s\<lparr>sl_tso := tso_write ?a V_Counter ((v + 1) mod 2 ^ 64) ?m\<rparr>)" "?t\<lparr>sl_pc := S_Unlock\<rparr>"])
        (use assms(2,5) in \<open>simp_all add: sl_thread_step_def Let_def thread_change_def sl_goto_def sl_thread_work_def\<close>)
  next
    case S_Unlock
    then have "sl_i ?t < k"
      using ok by (simp add: sl_thread_ok_def)
    then have work: "sl_thread_work k \<lparr>sl_pc = S_Loop, sl_i = sl_i ?t + 1\<rparr> + 1 < sl_thread_work k ?t"
      using S_Unlock by (auto simp: sl_thread_work_def diff_mult_distrib dest!: less_imp_Suc_add)
    obtain m where m: "spin_unlock_rel acq_rel ?a ?m = Some m" "\<forall>a. a \<noteq> ?a \<longrightarrow> tso_buf m a = sl_buf s a"
      "tso_mem m V_Start = sl_mem s V_Start" "length (tso_buf m ?a) \<le> 1"
      using assms(5) by (cases acq_rel) (auto simp: spin_unlock_rel_def locked_swap_def tso_flushed_def)
    show ?thesis
      by (rule forward[OF _ change[OF m(2,3)], of "\<lparr>sl_pc = S_Loop, sl_i = sl_i ?t + 1\<rparr>"])
        (use S_Unlock m(1,4) work in \<open>simp_all add: sl_thread_step_def Let_def\<close>)
  qed (use assms(3) in simp)
qed

lemma forward_main:
  assumes "sl_main_step n s = Some s'" "sl_main_work n k (sl_main s') + length (sl_buf s' A_Main) + tally (sl_thread_work k) (sl_threads s') <
     sl_main_work n k (sl_main s) + length (sl_buf s A_Main) + tally (sl_thread_work k) (sl_threads s)"
    and "\<And>j. sl_buf s' (A_Thread j) = []"
  shows "\<exists>s'. sl_forward acq_rel n k s s'"
proof -
  have "sl_work n k s' < sl_work n k s"
    using assms(2,3) by (simp add: sl_work_def)
  with sl_step.main[OF assms(1)] show ?thesis
    by (auto simp: sl_forward_def)
qed

lemma sl_stuck:
  assumes "sl_inv n k ow s" "\<nexists>s'. sl_forward acq_rel n k s s'"
  shows "sl_finished s"
proof (rule ccontr)
  assume "\<not> sl_finished s"
  then have not: "\<And>v. sl_main s \<noteq> M_Print v"
    by (simp add: sl_finished_def)
  have lock: "sl_lock_ok ow s"
    using assms(1) by (simp add: sl_inv_def)
  have main: "sl_buf s A_Main = []"
    using forward_drain[of s A_Main] assms(2) by blast
  have thr: "sl_buf s (A_Thread j) = []" for j
  proof (cases "ow = Some j")
    case True
    then have "j < length (sl_threads s)"
      using lock by (simp add: sl_lock_ok_def)
    then show ?thesis
      using forward_drain[of s "A_Thread j"] assms(2) by blast
  qed (rule lock_other[OF lock])
  show False
  proof (cases "sl_main s")
    case (M_Create m)
    show ?thesis
    proof (cases "m < n")
      case True
      then obtain d where d: "n = m + 1 + d"
        using less_imp_Suc_add[OF True] by auto
      have "\<exists>s'. sl_forward acq_rel n k s s'"
        by (rule forward_main[where s' = "s\<lparr>sl_threads := sl_threads s @ [\<lparr>sl_pc = S_Start, sl_i = 0\<rparr>], sl_main := M_Create (m + 1)\<rparr>"])
          (use M_Create True d main thr in \<open>simp_all add: sl_main_step_def sl_thread_work_def\<close>)
      with assms(2) show ?thesis ..
    next
      case False
      have "\<exists>s'. sl_forward acq_rel n k s s'"
        by (rule forward_main[where s' = "s\<lparr>sl_main := M_Go\<rparr>"]) (use M_Create False main thr in \<open>simp_all add: sl_main_step_def\<close>)
      with assms(2) show ?thesis ..
    qed
  next
    case M_Go
    have "\<exists>s'. sl_forward acq_rel n k s s'"
      by (rule forward_main[where s' = "s\<lparr>sl_tso := tso_write A_Main V_Start 1 (sl_tso s), sl_main := M_Join 0\<rparr>"])
        (use M_Go main thr in \<open>simp_all add: sl_main_step_def\<close>)
    with assms(2) show ?thesis ..
  next
    case (M_Join m)
    have start: "sl_mem s V_Start = 1" and len: "length (sl_threads s) = n" and m: "m \<le> n"
      using assms(1) M_Join main by (simp_all add: sl_inv_def main_ok_def)
    show ?thesis
    proof (cases ow)
      case (Some i)
      then have i: "i < length (sl_threads s)" and pc: "sl_pc (sl_threads s ! i) \<noteq> S_Ret"
        using lock thr by (auto simp: sl_lock_ok_def owner_ok_def)
      from forward_thread[OF assms(1) i pc _ thr start] Some assms(2) show ?thesis by blast
    next
      case None
      show ?thesis
      proof (cases "m < n \<and> sl_pc (sl_threads s ! m) \<noteq> S_Ret")
        case True
        with forward_thread[OF assms(1), of m] None thr start len assms(2) show ?thesis by blast
      next
        case False
        have "\<exists>s'. sl_forward acq_rel n k s s'"
          by (rule forward_main[where s' = "s\<lparr>sl_main := if m < n then M_Join (m + 1) else M_Print (tso_read A_Main V_Counter (sl_tso s))\<rparr>"])
            (use M_Join False m main thr in \<open>auto simp: sl_main_step_def tso_flushed_def\<close>)
        with assms(2) show ?thesis ..
      qed
    qed
  qed (use not in blast)
qed

interpretation spin_run: progress "sl_forward acq_rel n k" "\<lambda>s. \<exists>ow. sl_inv n k ow s" "sl_work n k" sl_finished
  for acq_rel n k
proof
  show "\<exists>ow. sl_inv n k ow s'" if "\<exists>ow. sl_inv n k ow s" "sl_forward acq_rel n k s s'" for s s'
    using that inv_step by (auto simp: sl_forward_def)
  show "sl_work n k s' < sl_work n k s" if "sl_forward acq_rel n k s s'" for s s'
    using that by (simp add: sl_forward_def)
  show "sl_finished s" if "\<exists>ow. sl_inv n k ow s" "\<nexists>s'. sl_forward acq_rel n k s s'" for s
    using that sl_stuck by blast
qed

lemma forward_steps: "(sl_forward acq_rel n k)\<^sup>*\<^sup>* s s' \<Longrightarrow> (sl_step acq_rel n k)\<^sup>*\<^sup>* s s'"
  by (erule rtranclp_mono[THEN predicate2D, rotated]) (auto simp: sl_forward_def)

lemma sl_reach: "(sl_step acq_rel n k)\<^sup>*\<^sup>* sl_init s \<Longrightarrow> \<exists>ow. sl_inv n k ow s"
  by (induction rule: rtranclp_induct) (use inv_init inv_step in blast)+

text \<open>(C19) With the acquiring and releasing lock, whose release waits in the store buffer, as with the full
  barriers: wherever an interleaving of the threads, main and their buffers has come, it can go on to the end, and
  whenever main prints the counter it is the number of threads times the number of rounds, modulo 2^64.\<close>

theorem spin_counter_exact:
  assumes "(sl_step acq_rel n k)\<^sup>*\<^sup>* sl_init s"
  shows "(\<forall>v. sl_main s = M_Print v \<longrightarrow> v = int (n * k) mod 2 ^ 64) \<and>
    (\<exists>s'. (sl_step acq_rel n k)\<^sup>*\<^sup>* s s' \<and> sl_main s' = M_Print (int (n * k) mod 2 ^ 64))"
proof -
  have printed: "v = int (n * k) mod 2 ^ 64" if "\<exists>ow. sl_inv n k ow s" "sl_main s = M_Print v" for s v
    using that by (auto simp: sl_inv_def main_ok_def)
  have inv: "\<exists>ow. sl_inv n k ow s"
    by (rule sl_reach[OF assms])
  from spin_run.can_finish[OF this] obtain s' where s': "(sl_forward acq_rel n k)\<^sup>*\<^sup>* s s'" "\<exists>ow. sl_inv n k ow s'" "sl_finished s'"
    by blast
  from s'(3) obtain v where "sl_main s' = M_Print v"
    by (auto simp: sl_finished_def)
  with printed[OF s'(2)] printed[OF inv] forward_steps[OF s'(1)] show ?thesis
    by blast
qed

lemma spin_counter_exact_witness:
  "\<exists>s'. (sl_step True 6 10000000)\<^sup>*\<^sup>* sl_init s' \<and> sl_main s' = M_Print 60000000"
  using spin_counter_exact[of True 6 10000000 sl_init] by simp

end
