(* ===== verification/PipeSort.thy ===== *)
theory PipeSort
  imports MemSort
begin

text \<open>
  The sorts of src/lecture_examples/7_ipc/1_simple_sort.c, one file after the other, and 2_parallel_sort.c, one
  process for each file which sends its numbers to main through a pipe. \<open>cmp\<close>, the reading of a file and \<open>qsort\<close> are
  those of \<open>MemSort\<close>.
\<close>

section \<open>Both programs\<close>

definition sort_file :: "i32 list \<Rightarrow> i32 list cres" where
  "sort_file content = rbind (read_numbers content (realloc_ints [] 1024) 0 1024) (qsort cmp)"

text \<open>The loop that copies the arrays to \<open>pos\<close>, and the one that adds up their sizes.\<close>

fun copy_to_total :: "i32 list \<Rightarrow> nat \<Rightarrow> i32 list list \<Rightarrow> i32 list cres" where
  "copy_to_total total_array pos [] = Inr total_array"
| "copy_to_total total_array pos (array # arrays) =
     (if pos + length array \<le> length total_array
      then copy_to_total (mem_write total_array pos array) (pos + length array) arrays
      else Inl OutOfBounds)"

fun simple_sorters :: "i32 list list \<Rightarrow> nat \<Rightarrow> (i32 list list \<times> nat) cres" where
  "simple_sorters [] total_size = Inr ([], total_size)"
| "simple_sorters (f # fs) total_size =
     rbind (sort_file f) (\<lambda>array.
     rbind (int_add total_size (length array)) (\<lambda>total_size.
     rbind (simple_sorters fs total_size) (\<lambda>(arrays, total_size). Inr (array # arrays, total_size))))"

definition simple_sort :: "i32 list list \<Rightarrow> i32 list cres" where
  "simple_sort files =
     rbind (simple_sorters files 0) (\<lambda>(arrays, total_size). copy_to_total (replicate total_size 0) 0 arrays)"

section \<open>The child\<close>

text \<open>Before its file is read, in a call of \<open>write\<close> with the bytes that are left and the later calls, and after its exit.\<close>

datatype pipe_child = Child_Start "i32 list" | Child_Write "char list" "char list list" | Child_Exit

text \<open>
  \<open>write\<close> waits while the pipe is full and then puts as many bytes into it as fit, here any number \<open>n\<close> of them. The
  pipe is closed by the exit.
\<close>

definition pipe_size :: nat where "pipe_size = 65536"

fun child_step :: "nat \<Rightarrow> char list \<Rightarrow> pipe_child \<Rightarrow> (char list \<times> pipe_child) cres option" where
  "child_step n p (Child_Start content) =
     Some (rbind (sort_file content) (\<lambda>array.
       Inr (p, Child_Write (int_bytes (of_nat (length array)))
         [take (unat (array_bytes (of_nat (length array)))) (concat (map int_bytes array))])))"
| "child_step n p (Child_Write [] []) = Some (Inr (p, Child_Exit))"
| "child_step n p (Child_Write [] (bs # rest)) = Some (Inr (p, Child_Write bs rest))"
| "child_step n p (Child_Write (b # bs) rest) =
     (if 0 < n \<and> n \<le> length (b # bs) \<and> length p + n \<le> pipe_size
      then Some (Inr (p @ take n (b # bs), Child_Write (drop n (b # bs)) rest)) else None)"
| "child_step n p Child_Exit = None"

section \<open>Main\<close>

text \<open>
  A call of \<open>read_from_pipe\<close>: the variable \<open>size\<close>, the bytes behind \<open>in\<close> and the room that is left there. A step is
  a call of \<open>read\<close>, which gets any number \<open>n\<close> of the bytes in the pipe, or 0 at its end; the loop ends with that.
\<close>

record pipe_read =
  rd_left :: int
  rd_data :: "char list"
  rd_room :: nat

definition read_from_pipe :: "nat \<Rightarrow> int \<Rightarrow> pipe_read" where
  "read_from_pipe room sz = \<lparr>rd_left = sz, rd_data = [], rd_room = room\<rparr>"

definition read_step :: "nat \<Rightarrow> bool \<Rightarrow> char list \<Rightarrow> pipe_read \<Rightarrow> (char list \<times> pipe_read \<times> bool) cres option" where
  "read_step n closed p r =
     (if rd_left r = 0 then Some (Inr (p, r, True))
      else if rd_left r < 0 \<or> int (rd_room r) < rd_left r then Some (Inl OutOfBounds)
      else if p = [] then (if closed then Some (Inr (p, r, True)) else None)
      else if 0 < n \<and> n \<le> length p \<and> int n \<le> rd_left r
      then Some (Inr (drop n p, \<lparr>rd_left = rd_left r - int n, rd_data = rd_data r @ take n p, rd_room = rd_room r - n\<rparr>, False))
      else None)"

text \<open>\<open>size\<close> and \<open>array\<close> of a worker in main; \<open>None\<close> is memory from \<open>malloc\<close> that was not written.\<close>

record pipe_worker =
  pw_child :: pipe_child
  pw_pipe :: "char list"
  pw_size :: "i32 option"
  pw_array :: "i32 list option"

definition new_pipe_worker :: "i32 list \<Rightarrow> pipe_worker" where
  "new_pipe_worker content = \<lparr>pw_child = Child_Start content, pw_pipe = [], pw_size = None, pw_array = None\<rparr>"

datatype pipe_pc = PM_Fork | PM_Size pipe_read | PM_Array pipe_read | PM_Wait | PM_Copy | PM_Done "i32 list"

record pipe_sort =
  ps_workers :: "pipe_worker list"
  ps_files :: "i32 list list"
  ps_pc :: pipe_pc
  ps_i :: nat
  ps_waited :: nat
  ps_total :: nat

definition pipe_sort_init :: "i32 list list \<Rightarrow> pipe_sort" where
  "pipe_sort_init files = \<lparr>ps_workers = [], ps_files = files, ps_pc = PM_Fork, ps_i = 0, ps_waited = 0, ps_total = 0\<rparr>"

definition next_worker :: "pipe_sort \<Rightarrow> pipe_sort" where
  "next_worker s = s\<lparr>ps_pc := if ps_i s < length (ps_workers s) then PM_Size (read_from_pipe 4 4) else PM_Copy\<rparr>"

definition run_child :: "nat \<Rightarrow> nat \<Rightarrow> pipe_sort \<Rightarrow> pipe_sort cres option" where
  "run_child n i s =
     (let w = ps_workers s ! i in
      map_option (map_sum id (\<lambda>(p, c). s\<lparr>ps_workers := (ps_workers s)[i := w\<lparr>pw_pipe := p, pw_child := c\<rparr>]\<rparr>))
        (child_step n (pw_pipe w) (pw_child w)))"

text \<open>The end of the two calls of \<open>read_from_pipe\<close> for a worker.\<close>

definition size_read :: "pipe_read \<Rightarrow> pipe_worker \<Rightarrow> (pipe_worker \<times> pipe_pc) cres" where
  "size_read r w =
     (if length (rd_data r) < 4 then Inl UninitRead
      else let sz = of_nat (bytes_nat (rd_data r))
           in Inr (w\<lparr>pw_size := Some sz\<rparr>, PM_Array (read_from_pipe (unat (array_bytes sz)) (to_int (array_bytes sz)))))"

definition array_read :: "pipe_read \<Rightarrow> pipe_worker \<Rightarrow> (pipe_worker \<times> pipe_pc) cres" where
  "array_read r w =
     (if rd_room r > 0 then Inl UninitRead else Inr (w\<lparr>pw_array := Some (bytes_ints (rd_data r))\<rparr>, PM_Wait))"

definition run_read :: "nat \<Rightarrow> (pipe_read \<Rightarrow> pipe_pc) \<Rightarrow> (pipe_read \<Rightarrow> pipe_worker \<Rightarrow> (pipe_worker \<times> pipe_pc) cres) \<Rightarrow> pipe_read \<Rightarrow>
    pipe_sort \<Rightarrow> pipe_sort cres option" where
  "run_read n pc finish r s =
     (let w = ps_workers s ! ps_i s in
      map_option (\<lambda>res.
        rbind res (\<lambda>(p, r, ended).
        rbind (if ended then finish r (w\<lparr>pw_pipe := p\<rparr>) else Inr (w\<lparr>pw_pipe := p\<rparr>, pc r)) (\<lambda>(w, pc).
        Inr (s\<lparr>ps_workers := (ps_workers s)[ps_i s := w], ps_pc := pc\<rparr>))))
        (read_step n (pw_child w = Child_Exit) (pw_pipe w) r))"

text \<open>
  \<open>wait\<close> returns once a child has exited that was not waited for yet. The size of a worker is not negative when it is
  added to \<open>total_size\<close>, since its array was received.
\<close>

definition run_pipe_main :: "nat \<Rightarrow> pipe_sort \<Rightarrow> pipe_sort cres option" where
  "run_pipe_main n s =
     (case ps_pc s of
        PM_Fork \<Rightarrow>
          Some (Inr (case ps_files s of
             [] \<Rightarrow> next_worker s
           | f # fs \<Rightarrow> s\<lparr>ps_workers := ps_workers s @ [new_pipe_worker f], ps_files := fs\<rparr>))
      | PM_Size r \<Rightarrow> run_read n PM_Size size_read r s
      | PM_Array r \<Rightarrow> run_read n PM_Array array_read r s
      | PM_Wait \<Rightarrow>
          if ps_waited s < length (filter (\<lambda>w. pw_child w = Child_Exit) (ps_workers s))
          then Some (case pw_size (ps_workers s ! ps_i s) of
                  None \<Rightarrow> Inl UninitRead
                | Some sz \<Rightarrow>
                    rbind (int_add (ps_total s) (nat (sint sz))) (\<lambda>t.
                    Inr (next_worker (s\<lparr>ps_i := ps_i s + 1, ps_waited := ps_waited s + 1, ps_total := t\<rparr>))))
          else None
      | PM_Copy \<Rightarrow>
          Some (if \<exists>w \<in> set (ps_workers s). pw_array w = None then Inl UninitRead
                else rbind (copy_to_total (replicate (ps_total s) 0) 0 (map (\<lambda>w. the (pw_array w)) (ps_workers s))) (\<lambda>r.
                  Inr (s\<lparr>ps_pc := PM_Done r\<rparr>)))
      | PM_Done _ \<Rightarrow> None)"

text \<open>One step of main (\<open>None\<close>) or of the child of worker \<open>i\<close>, with the choice of the kernel.\<close>

definition pipe_proc :: "pipe_sort \<Rightarrow> nat option \<Rightarrow> nat \<Rightarrow> pipe_sort cres option" where
  "pipe_proc s who n = (case who of None \<Rightarrow> run_pipe_main n s
     | Some i \<Rightarrow> if i < length (ps_workers s) then run_child n i s else None)"

inductive pipe_step :: "pipe_sort \<Rightarrow> pipe_sort \<Rightarrow> bool" where
  "pipe_proc s who n = Some (Inr s') \<Longrightarrow> pipe_step s s'"

end
