(* ===== verification/PipeSort_Spec.thy ===== *)
theory PipeSort_Spec
  imports PipeSort MemSort_Spec
begin

text \<open>
  Both programs sort every file, and in every schedule the parallel one gets what the sequential one gets.
\<close>

section \<open>The sequential program\<close>

lemma sort_file_ok: "numbers_ok f \<Longrightarrow> sort_file f = Inr (sort_key sint f)"
  by (simp add: sort_file_def numbers_ok_def read_numbers_ok realloc_ints_def qsort_cmp)

lemma simple_sorters_ok:
  assumes "\<forall>f \<in> set fs. numbers_ok f" "t + sum_list (map length fs) < 2 ^ 31"
  shows "simple_sorters fs t = Inr (map (sort_key sint) fs, t + sum_list (map length fs))"
  using assms
proof (induction fs arbitrary: t)
  case (Cons f fs)
  then have "simple_sorters fs (t + length f) = Inr (map (sort_key sint) fs, t + length f + sum_list (map length fs))"
    by simp
  then show ?case
    using Cons.prems by (simp add: sort_file_ok add.assoc)
qed simp

lemma copy_to_total_ok:
  "length total_array = pos + sum_list (map length arrays) \<Longrightarrow>
     copy_to_total total_array pos arrays = Inr (take pos total_array @ concat arrays)"
proof (induction arrays arbitrary: total_array pos)
  case (Cons a arrays)
  have t: "take (pos + length a) (mem_write total_array pos a) = take pos total_array @ a"
    using take_mem_write_end [of pos total_array a] Cons.prems by simp
  have "length (mem_write total_array pos a) = pos + length a + sum_list (map length arrays)"
    using Cons.prems by (simp add: length_mem_write)
  from Cons.IH [OF this] show ?case using Cons.prems t by simp
qed simp

lemma length_sorted: "map (length \<circ> sort_key sint) fs = map length fs"
  by simp

lemma simple_sort_ok: "files_ok files \<Longrightarrow> simple_sort files = Inr (concat (map (sort_key sint) files))"
  using copy_to_total_ok[of "replicate (sum_list (map length files)) 0" 0 "map (sort_key sint) files"]
  by (simp add: simple_sort_def files_ok_def simple_sorters_ok length_sorted)

section \<open>One pipe\<close>

fun child_bytes :: "pipe_child \<Rightarrow> char list" where
  "child_bytes (Child_Write b rest) = b @ concat rest"
| "child_bytes c = []"

text \<open>What main has got, what is in the pipe and what the child has still to write are together what it sends.\<close>

definition pipe_ok :: "i32 list \<Rightarrow> char list \<Rightarrow> pipe_worker \<Rightarrow> bool" where
  "pipe_ok f got w \<longleftrightarrow> length (pw_pipe w) \<le> pipe_size \<and>
     (case pw_child w of
        Child_Start content \<Rightarrow> content = f \<and> pw_pipe w = [] \<and> got = []
      | c \<Rightarrow> got @ pw_pipe w @ child_bytes c = header f @ body f)"

fun child_work :: "pipe_child \<Rightarrow> nat" where
  "child_work (Child_Start f) = 2 * (4 + 4 * length f) + 3"
| "child_work (Child_Write b rest) = 2 * (length b + length (concat rest)) + length rest + 1"
| "child_work Child_Exit = 0"

definition worker_work :: "pipe_worker \<Rightarrow> nat" where
  "worker_work w = child_work (pw_child w) + length (pw_pipe w)"

lemma pipe_ok_fields [simp]:
  "pipe_ok f got (w\<lparr>pw_size := x\<rparr>) = pipe_ok f got w" "pipe_ok f got (w\<lparr>pw_array := y\<rparr>) = pipe_ok f got w"
  by (cases "pw_child w"; simp add: pipe_ok_def)+

lemma same_prefix_length: "xs @ ys = zs \<Longrightarrow> length xs = length zs \<Longrightarrow> xs = zs"
  by (metis append_Nil2 append_eq_append_conv)

lemma take_drop_rest: "take n xs @ drop n xs @ ys = xs @ ys"
  by (metis append_assoc append_take_drop_id)

lemma child_step_ok:
  assumes "pipe_ok f got w" "numbers_ok f" "child_step n (pw_pipe w) (pw_child w) = Some res"
  obtains p c where "res = Inr (p, c)" "pipe_ok f got (w\<lparr>pw_pipe := p, pw_child := c\<rparr>)"
    "worker_work (w\<lparr>pw_pipe := p, pw_child := c\<rparr>) < worker_work w"
proof (cases "pw_child w")
  case (Child_Start content)
  then have f: "content = f" "pw_pipe w = []" "got = []"
    using assms(1) by (simp_all add: pipe_ok_def)
  have "unat (array_bytes (of_nat (length f))) = 4 * length f"
    using array_size(2)[of "length f"] assms(2) by (simp add: numbers_ok_def)
  then have "res = Inr ([], Child_Write (header f) [body f])"
    using assms(2,3) Child_Start f by (simp add: sort_file_ok header_def body_def)
  then show ?thesis
    using that[of "[]" "Child_Write (header f) [body f]"] Child_Start f by (simp add: pipe_ok_def worker_work_def)
next
  case (Child_Write b rest)
  show ?thesis
  proof (cases b)
    case Nil
    then show ?thesis
      using that[of "pw_pipe w" "case rest of [] \<Rightarrow> Child_Exit | bs # rest \<Rightarrow> Child_Write bs rest"] assms(1,3) Child_Write
      by (cases rest) (auto simp: pipe_ok_def worker_work_def)
  next
    case (Cons x bs)
    then have n: "0 < n" "n \<le> length b" "length (pw_pipe w) + n \<le> pipe_size"
      and res: "res = Inr (pw_pipe w @ take n b, Child_Write (drop n b) rest)"
      using assms(3) Child_Write by (auto split: if_splits)
    show ?thesis
      using that[OF res] assms(1) Child_Write n by (simp add: pipe_ok_def worker_work_def take_drop_rest)
  qed
next
  case Child_Exit
  then show ?thesis using assms(3) by simp
qed

text \<open>A child that has not exited can make a step, unless its pipe is full.\<close>

lemma child_enabled:
  assumes "pw_child w \<noteq> Child_Exit" "length (pw_pipe w) < pipe_size"
  shows "child_step 1 (pw_pipe w) (pw_child w) \<noteq> None"
proof (cases "pw_child w")
  case (Child_Write b rest)
  then show ?thesis using assms(2) by (cases b; cases rest) auto
qed (use assms(1) in simp_all)

definition read_ok :: "nat \<Rightarrow> pipe_read \<Rightarrow> bool" where
  "read_ok n r \<longleftrightarrow> length (rd_data r) \<le> n \<and> rd_left r = int (n - length (rd_data r)) \<and> rd_room r = n - length (rd_data r)"

lemma read_start: "to_int sz = int n \<Longrightarrow> read_ok n (read_from_pipe n (to_int sz))" "read_ok 4 (read_from_pipe 4 4)"
  by (simp_all add: read_ok_def read_from_pipe_def)

lemma read_step_ok:
  assumes "pipe_ok f (pre @ rd_data r) w" "read_ok n r" "length pre + n \<le> 4 + 4 * length f"
    and "read_step k (pw_child w = Child_Exit) (pw_pipe w) r = Some res"
  shows "length (rd_data r) = n \<and> res = Inr (pw_pipe w, r, True) \<or>
    (\<exists>p r'. res = Inr (p, r', False) \<and> pipe_ok f (pre @ rd_data r') (w\<lparr>pw_pipe := p\<rparr>) \<and> read_ok n r' \<and> length p < length (pw_pipe w))"
proof (cases "rd_left r = 0")
  case True
  then show ?thesis
    using assms(2,4) by (simp add: read_step_def read_ok_def)
next
  case False
  then have left: "length (rd_data r) < n" "\<not> (rd_left r < 0 \<or> int (rd_room r) < rd_left r)"
    using assms(2) by (auto simp: read_ok_def)
  have nonempty: "pw_pipe w \<noteq> []"
  proof
    assume e: "pw_pipe w = []"
    then have "pw_child w = Child_Exit"
      using assms(4) False left(2) by (auto simp: read_step_def split: if_splits)
    then have "length (pre @ rd_data r) = 4 + 4 * length f"
      using assms(1) e arg_cong[of "pre @ rd_data r" "header f @ body f" length] by (simp add: pipe_ok_def)
    then show False
      using left(1) assms(3) by simp
  qed
  let ?r = "\<lparr>rd_left = rd_left r - int k, rd_data = rd_data r @ take k (pw_pipe w), rd_room = rd_room r - k\<rparr>"
  have k: "0 < k" "k \<le> length (pw_pipe w)" "int k \<le> rd_left r" and res: "res = Inr (drop k (pw_pipe w), ?r, False)"
    using assms(4) False left(2) nonempty by (auto simp: read_step_def split: if_splits)
  have "pw_child w \<noteq> Child_Start c" for c
    using assms(1) nonempty by (auto simp: pipe_ok_def)
  then have "pipe_ok f (pre @ rd_data ?r) (w\<lparr>pw_pipe := drop k (pw_pipe w)\<rparr>)"
    using assms(1) by (cases "pw_child w") (auto simp: pipe_ok_def take_drop_rest)
  moreover have "read_ok n ?r"
    using assms(2) k by (auto simp: read_ok_def)
  ultimately show ?thesis
    using res k nonempty by (intro disjI2 exI[of _ "drop k (pw_pipe w)"] exI[of _ ?r]) simp
qed

section \<open>The system\<close>

definition current_bytes :: "i32 list \<Rightarrow> pipe_pc \<Rightarrow> char list" where
  "current_bytes f pc =
     (case pc of PM_Size r \<Rightarrow> rd_data r | PM_Array r \<Rightarrow> header f @ rd_data r | PM_Wait \<Rightarrow> header f @ body f | _ \<Rightarrow> [])"

text \<open>What main has got from the worker \<open>j\<close>.\<close>

definition got_bytes :: "i32 list list \<Rightarrow> nat \<Rightarrow> pipe_pc \<Rightarrow> nat \<Rightarrow> char list" where
  "got_bytes files i pc j =
     (if j < i then header (files ! j) @ body (files ! j) else if j = i then current_bytes (files ! j) pc else [])"

definition received :: "i32 list \<Rightarrow> pipe_worker \<Rightarrow> bool" where
  "received f w \<longleftrightarrow> pw_size w = Some (of_nat (length f)) \<and> pw_array w = Some (sort_key sint f)"

definition pipe_pc_ok :: "i32 list list \<Rightarrow> nat \<Rightarrow> pipe_pc \<Rightarrow> pipe_worker list \<Rightarrow> bool" where
  "pipe_pc_ok files i pc ws \<longleftrightarrow>
     (case pc of
        PM_Fork \<Rightarrow> i = 0
      | PM_Size r \<Rightarrow> i < length ws \<and> read_ok 4 r
      | PM_Array r \<Rightarrow> i < length ws \<and> read_ok (4 * length (files ! i)) r \<and> pw_size (ws ! i) = Some (of_nat (length (files ! i)))
      | PM_Wait \<Rightarrow> i < length ws \<and> received (files ! i) (ws ! i)
      | PM_Copy \<Rightarrow> i = length ws
      | PM_Done res \<Rightarrow> i = length ws \<and> res = concat (map (sort_key sint) files))"

definition ps_inv :: "i32 list list \<Rightarrow> pipe_sort \<Rightarrow> bool" where
  "ps_inv files s \<longleftrightarrow>
     (let ws = ps_workers s; i = ps_i s; pc = ps_pc s in
      length ws \<le> length files \<and> ps_files s = drop (length ws) files \<and> (pc \<noteq> PM_Fork \<longrightarrow> length ws = length files) \<and>
      i \<le> length ws \<and> ps_waited s = i \<and> ps_total s = sum_list (map length (take i files)) \<and>
      pipe_pc_ok files i pc ws \<and>
      (\<forall>j < length ws. pipe_ok (files ! j) (got_bytes files i pc j) (ws ! j) \<and> (j < i \<longrightarrow> received (files ! j) (ws ! j))))"

lemma ps_invD:
  assumes "ps_inv files s"
  shows "length (ps_workers s) \<le> length files" "ps_files s = drop (length (ps_workers s)) files"
    "ps_pc s \<noteq> PM_Fork \<Longrightarrow> length (ps_workers s) = length files" "ps_i s \<le> length (ps_workers s)" "ps_waited s = ps_i s"
    "ps_total s = sum_list (map length (take (ps_i s) files))" "pipe_pc_ok files (ps_i s) (ps_pc s) (ps_workers s)"
    "j < length (ps_workers s) \<Longrightarrow> pipe_ok (files ! j) (got_bytes files (ps_i s) (ps_pc s) j) (ps_workers s ! j)"
    "j < length (ps_workers s) \<Longrightarrow> j < ps_i s \<Longrightarrow> received (files ! j) (ps_workers s ! j)"
  using assms by (simp_all add: ps_inv_def Let_def)

lemma ps_invI:
  assumes "length (ps_workers s) \<le> length files" "ps_files s = drop (length (ps_workers s)) files"
    "ps_pc s \<noteq> PM_Fork \<Longrightarrow> length (ps_workers s) = length files" "ps_i s \<le> length (ps_workers s)" "ps_waited s = ps_i s"
    "ps_total s = sum_list (map length (take (ps_i s) files))" "pipe_pc_ok files (ps_i s) (ps_pc s) (ps_workers s)"
    "\<And>j. j < length (ps_workers s) \<Longrightarrow> pipe_ok (files ! j) (got_bytes files (ps_i s) (ps_pc s) j) (ps_workers s ! j)"
    "\<And>j. j < length (ps_workers s) \<Longrightarrow> j < ps_i s \<Longrightarrow> received (files ! j) (ps_workers s ! j)"
  shows "ps_inv files s"
  using assms by (simp add: ps_inv_def Let_def)

fun pipe_pc_work :: "nat \<Rightarrow> pipe_pc \<Rightarrow> nat" where
  "pipe_pc_work m PM_Fork = 3 * m + 3"
| "pipe_pc_work m (PM_Size r) = 3 * m + 2"
| "pipe_pc_work m (PM_Array r) = 3 * m + 1"
| "pipe_pc_work m PM_Wait = 3 * m"
| "pipe_pc_work m PM_Copy = 1"
| "pipe_pc_work m (PM_Done r) = 0"

definition ps_work :: "i32 list list \<Rightarrow> pipe_sort \<Rightarrow> nat" where
  "ps_work files s = tally worker_work (ps_workers s) + tally (\<lambda>f. 8 * length f + 12) (ps_files s) +
     pipe_pc_work (length files - ps_i s) (ps_pc s)"

definition ps_done :: "i32 list list \<Rightarrow> pipe_sort \<Rightarrow> bool" where
  "ps_done files s \<longleftrightarrow> ps_pc s = PM_Done (concat (map (sort_key sint) files))"

text \<open>A worker changes whose bytes stay accounted for.\<close>

lemma ps_inv_child:
  assumes "ps_inv files s" "i < length (ps_workers s)" "pw_size w = pw_size (ps_workers s ! i)" "pw_array w = pw_array (ps_workers s ! i)"
    and "pipe_ok (files ! i) (got_bytes files (ps_i s) (ps_pc s) i) w"
  shows "ps_inv files (s\<lparr>ps_workers := (ps_workers s)[i := w]\<rparr>)"
proof -
  note d = ps_invD[OF assms(1)]
  have r: "received f w = received f (ps_workers s ! i)" for f
    using assms(3,4) by (simp add: received_def)
  show ?thesis
  proof (rule ps_invI)
    show "pipe_pc_ok files (ps_i (s\<lparr>ps_workers := (ps_workers s)[i := w]\<rparr>)) (ps_pc (s\<lparr>ps_workers := (ps_workers s)[i := w]\<rparr>))
        (ps_workers (s\<lparr>ps_workers := (ps_workers s)[i := w]\<rparr>))"
      using d(7) assms(2,3) r by (cases "ps_pc s") (auto simp: pipe_pc_ok_def nth_list_update)
  qed (use d assms(2,5) r in \<open>auto simp: nth_list_update\<close>)
qed

lemma ps_work_worker:
  assumes "i < length (ps_workers s)" "worker_work w < worker_work (ps_workers s ! i)"
    and "pipe_pc_work (length files - ps_i s) pc \<le> pipe_pc_work (length files - ps_i s) (ps_pc s)"
  shows "ps_work files (s\<lparr>ps_workers := (ps_workers s)[i := w], ps_pc := pc\<rparr>) < ps_work files s"
  using tally_update[OF assms(1), of worker_work w] assms(2,3) by (simp add: ps_work_def)

lemma run_child_ok:
  assumes inv: "ps_inv files s" and files: "files_ok files" and i: "i < length (ps_workers s)" and step: "run_child n i s = Some res"
  shows "\<exists>s'. res = Inr s' \<and> ps_inv files s' \<and> ps_work files s' < ps_work files s"
proof -
  let ?w = "ps_workers s ! i"
  obtain r where r: "child_step n (pw_pipe ?w) (pw_child ?w) = Some r"
      "res = map_sum id (\<lambda>(p, c). s\<lparr>ps_workers := (ps_workers s)[i := ?w\<lparr>pw_pipe := p, pw_child := c\<rparr>]\<rparr>) r"
    using step by (auto simp: run_child_def Let_def)
  have f: "numbers_ok (files ! i)"
    using files i ps_invD(1)[OF inv] by (simp add: files_ok_def)
  obtain p c where pc: "r = Inr (p, c)" "pipe_ok (files ! i) (got_bytes files (ps_i s) (ps_pc s) i) (?w\<lparr>pw_pipe := p, pw_child := c\<rparr>)"
    "worker_work (?w\<lparr>pw_pipe := p, pw_child := c\<rparr>) < worker_work ?w"
    by (rule child_step_ok[OF ps_invD(8)[OF inv i] f r(1)])
  let ?s = "s\<lparr>ps_workers := (ps_workers s)[i := ?w\<lparr>pw_pipe := p, pw_child := c\<rparr>]\<rparr>"
  have "ps_inv files ?s"
    by (rule ps_inv_child[OF inv i _ _ pc(2)]) simp_all
  moreover have "ps_work files ?s < ps_work files s"
    using ps_work_worker[OF i pc(3), of files "ps_pc s"] by simp
  ultimately show ?thesis
    using r(2) pc(1) by simp
qed

lemma ps_inv_reading:
  assumes "ps_inv files s" "ps_i s < length (ps_workers s)" "ps_pc s \<noteq> PM_Fork"
    and "pipe_ok (files ! ps_i s) (current_bytes (files ! ps_i s) pc) w" "pipe_pc_ok files (ps_i s) pc ((ps_workers s)[ps_i s := w])"
  shows "ps_inv files (s\<lparr>ps_workers := (ps_workers s)[ps_i s := w], ps_pc := pc\<rparr>)"
proof -
  note d = ps_invD[OF assms(1)]
  show ?thesis
  proof (rule ps_invI)
    let ?s = "s\<lparr>ps_workers := (ps_workers s)[ps_i s := w], ps_pc := pc\<rparr>"
    show "pipe_ok (files ! j) (got_bytes files (ps_i ?s) (ps_pc ?s) j) (ps_workers ?s ! j)" if "j < length (ps_workers ?s)" for j
      using d(8)[of j] assms(2,4) that by (auto simp: nth_list_update got_bytes_def)
    show "received (files ! j) (ps_workers ?s ! j)" if "j < length (ps_workers ?s)" "j < ps_i ?s" for j
      using d(9)[of j] that by simp
  qed (use d assms(3,5) in simp_all)
qed

lemma run_read_ok:
  assumes inv: "ps_inv files s" and i: "ps_i s < length (ps_workers s)" and s: "ps_pc s = pc r"
    and pc: "pc = PM_Size \<and> pre = [] \<and> n = 4 \<and> finish = size_read \<or>
      pc = PM_Array \<and> pre = header (files ! ps_i s) \<and> n = 4 * length (files ! ps_i s) \<and> finish = array_read"
    and step: "run_read k pc finish r s = Some res"
  shows "(length (rd_data r) = n \<and> res = rbind (finish r (ps_workers s ! ps_i s)) (\<lambda>(w, pc).
        Inr (s\<lparr>ps_workers := (ps_workers s)[ps_i s := w], ps_pc := pc\<rparr>))) \<or>
    (\<exists>s'. res = Inr s' \<and> ps_inv files s' \<and> ps_work files s' < ps_work files s)"
proof -
  let ?w = "ps_workers s ! ps_i s" and ?f = "files ! ps_i s"
  note d = ps_invD[OF inv]
  obtain q where q: "read_step k (pw_child ?w = Child_Exit) (pw_pipe ?w) r = Some q" and
    res: "res = rbind q (\<lambda>(p, r, ended).
        rbind (if ended then finish r (?w\<lparr>pw_pipe := p\<rparr>) else Inr (?w\<lparr>pw_pipe := p\<rparr>, pc r)) (\<lambda>(w, pc).
        Inr (s\<lparr>ps_workers := (ps_workers s)[ps_i s := w], ps_pc := pc\<rparr>)))"
    using step by (auto simp: run_read_def Let_def)
  have ok: "read_ok n r" "pipe_ok ?f (pre @ rd_data r) ?w" "length pre + n \<le> 4 + 4 * length ?f"
    using d(7) d(8)[OF i] pc s by (auto simp: pipe_pc_ok_def got_bytes_def current_bytes_def)
  from read_step_ok[OF ok(2,1,3) q] show ?thesis
  proof
    assume "length (rd_data r) = n \<and> q = Inr (pw_pipe ?w, r, True)"
    then show ?thesis
      using res by simp
  next
    assume "\<exists>p r'. q = Inr (p, r', False) \<and> pipe_ok ?f (pre @ rd_data r') (?w\<lparr>pw_pipe := p\<rparr>) \<and> read_ok n r' \<and> length p < length (pw_pipe ?w)"
    then obtain p r' where more: "q = Inr (p, r', False)" "pipe_ok ?f (pre @ rd_data r') (?w\<lparr>pw_pipe := p\<rparr>)" "read_ok n r'"
      "length p < length (pw_pipe ?w)" by blast
    let ?s = "s\<lparr>ps_workers := (ps_workers s)[ps_i s := ?w\<lparr>pw_pipe := p\<rparr>], ps_pc := pc r'\<rparr>"
    have "ps_inv files ?s"
    proof (rule ps_inv_reading[OF inv i])
      show "ps_pc s \<noteq> PM_Fork" using pc s by auto
      show "pipe_ok ?f (current_bytes ?f (pc r')) (?w\<lparr>pw_pipe := p\<rparr>)"
        using pc more(2) by (auto simp: current_bytes_def)
      show "pipe_pc_ok files (ps_i s) (pc r') ((ps_workers s)[ps_i s := ?w\<lparr>pw_pipe := p\<rparr>])"
        using pc more(3) i d(7) s by (auto simp: pipe_pc_ok_def)
    qed
    moreover have "ps_work files ?s < ps_work files s"
      by (rule ps_work_worker[OF i]) (use more(4) pc s in \<open>auto simp: worker_work_def\<close>)
    ultimately show ?thesis
      using res more(1) by simp
  qed
qed

lemma run_size_ok:
  assumes inv: "ps_inv files s" and files: "files_ok files" and s: "ps_pc s = PM_Size r" and step: "run_read k PM_Size size_read r s = Some res"
  shows "\<exists>s'. res = Inr s' \<and> ps_inv files s' \<and> ps_work files s' < ps_work files s"
proof -
  note d = ps_invD[OF inv]
  let ?w = "ps_workers s ! ps_i s" and ?f = "files ! ps_i s"
  have i: "ps_i s < length (ps_workers s)"
    using d(7) s by (simp add: pipe_pc_ok_def)
  have f: "length ?f < 2 ^ 29"
    using files i d(1) by (simp add: files_ok_def numbers_ok_def)
  from run_read_ok[OF inv i s _ step, of "[]" 4]
  consider "length (rd_data r) = 4" "res = rbind (size_read r ?w) (\<lambda>(w, pc). Inr (s\<lparr>ps_workers := (ps_workers s)[ps_i s := w], ps_pc := pc\<rparr>))"
    | "\<exists>s'. res = Inr s' \<and> ps_inv files s' \<and> ps_work files s' < ps_work files s"
    by auto
  then show ?thesis
  proof cases
    case 1
    have pipe: "pipe_ok ?f (rd_data r) ?w"
      using d(8)[OF i] s by (simp add: got_bytes_def current_bytes_def)
    then have "rd_data r @ pw_pipe ?w @ child_bytes (pw_child ?w) = header ?f @ body ?f"
      using 1(1) by (cases "pw_child ?w") (auto simp: pipe_ok_def)
    then have data: "rd_data r = header ?f"
      using 1(1) by (simp add: append_eq_append_conv)
    let ?w' = "?w\<lparr>pw_size := Some (of_nat (length ?f))\<rparr>" and ?pc = "PM_Array (read_from_pipe (4 * length ?f) (4 * int (length ?f)))"
    let ?s = "s\<lparr>ps_workers := (ps_workers s)[ps_i s := ?w'], ps_pc := ?pc\<rparr>"
    have n: "(of_nat (bytes_nat (header ?f)) :: i32) = of_nat (length ?f)"
      by (simp add: header_def)
    have size: "size_read r ?w = Inr (?w', ?pc)"
      using 1(1) array_size(2,3)[OF f] by (simp add: size_read_def data n)
    have "ps_inv files ?s"
    proof (rule ps_inv_reading[OF inv i])
      show "pipe_ok ?f (current_bytes ?f ?pc) ?w'"
        using pipe data by (simp add: current_bytes_def read_from_pipe_def)
      show "pipe_pc_ok files (ps_i s) ?pc ((ps_workers s)[ps_i s := ?w'])"
        using i by (simp add: pipe_pc_ok_def read_ok_def read_from_pipe_def)
    qed (use s in simp)
    moreover have "ps_work files ?s < ps_work files s"
      using tally_update[OF i, of worker_work ?w'] s by (simp add: ps_work_def worker_work_def)
    ultimately show ?thesis
      using 1(2) size by simp
  qed
qed

lemma run_array_ok:
  assumes inv: "ps_inv files s" and s: "ps_pc s = PM_Array r" and step: "run_read k PM_Array array_read r s = Some res"
  shows "\<exists>s'. res = Inr s' \<and> ps_inv files s' \<and> ps_work files s' < ps_work files s"
proof -
  note d = ps_invD[OF inv]
  let ?w = "ps_workers s ! ps_i s" and ?f = "files ! ps_i s"
  have i: "ps_i s < length (ps_workers s)" and r: "read_ok (4 * length ?f) r" and sz: "pw_size ?w = Some (of_nat (length ?f))"
    using d(7) s by (simp_all add: pipe_pc_ok_def)
  from run_read_ok[OF inv i s _ step, of "header ?f" "4 * length ?f"]
  consider "length (rd_data r) = 4 * length ?f"
      "res = rbind (array_read r ?w) (\<lambda>(w, pc). Inr (s\<lparr>ps_workers := (ps_workers s)[ps_i s := w], ps_pc := pc\<rparr>))"
    | "\<exists>s'. res = Inr s' \<and> ps_inv files s' \<and> ps_work files s' < ps_work files s"
    by auto
  then show ?thesis
  proof cases
    case 1
    have pipe: "pipe_ok ?f (header ?f @ rd_data r) ?w"
      using d(8)[OF i] s by (simp add: got_bytes_def current_bytes_def)
    then have "header ?f @ rd_data r @ pw_pipe ?w @ child_bytes (pw_child ?w) = header ?f @ body ?f"
      using length_header[of ?f] by (cases "pw_child ?w") (auto simp: pipe_ok_def)
    then have data: "rd_data r = body ?f"
      using same_prefix_length[of "rd_data r" _ "body ?f"] 1(1) by simp
    let ?w' = "?w\<lparr>pw_array := Some (sort_key sint ?f)\<rparr>"
    let ?s = "s\<lparr>ps_workers := (ps_workers s)[ps_i s := ?w'], ps_pc := PM_Wait\<rparr>"
    have "array_read r ?w = Inr (?w', PM_Wait)"
      using r 1(1) by (simp add: array_read_def read_ok_def data body_def)
    moreover have "ps_inv files ?s"
    proof (rule ps_inv_reading[OF inv i])
      show "pipe_ok ?f (current_bytes ?f PM_Wait) ?w'"
        using pipe data by (simp add: current_bytes_def)
      show "pipe_pc_ok files (ps_i s) PM_Wait ((ps_workers s)[ps_i s := ?w'])"
        using i sz by (simp add: pipe_pc_ok_def received_def)
    qed (use s in simp)
    moreover have "ps_work files ?s < ps_work files s"
      using tally_update[OF i, of worker_work ?w'] s by (simp add: ps_work_def worker_work_def)
    ultimately show ?thesis
      using 1(2) by simp
  qed
qed

lemma sum_take_Suc: "i < length files \<Longrightarrow> sum_list (map length (take (Suc i) files)) = sum_list (map length (take i files)) + length (files ! i)"
  by (simp add: take_Suc_conv_app_nth)

lemma sum_take_le: "sum_list (map length (take i files)) \<le> sum_list (map length files)"
  by (metis append_take_drop_id le_add1 map_append sum_list_append)

lemma next_worker_ok:
  assumes "ps_i s \<le> length (ps_workers s)" "length (ps_workers s) = length files" "ps_files s = []" "ps_waited s = ps_i s"
    "ps_total s = sum_list (map length (take (ps_i s) files))"
    "\<And>j. j < length (ps_workers s) \<Longrightarrow> pipe_ok (files ! j) (if j < ps_i s then header (files ! j) @ body (files ! j) else []) (ps_workers s ! j)"
    "\<And>j. j < length (ps_workers s) \<Longrightarrow> j < ps_i s \<Longrightarrow> received (files ! j) (ps_workers s ! j)"
  shows "ps_inv files (next_worker s)"
proof (rule ps_invI)
  let ?s = "next_worker s"
  have cur: "current_bytes f (ps_pc ?s) = []" for f
    by (simp add: next_worker_def current_bytes_def read_from_pipe_def)
  show "pipe_ok (files ! j) (got_bytes files (ps_i ?s) (ps_pc ?s) j) (ps_workers ?s ! j)" if "j < length (ps_workers ?s)" for j
    using assms(6)[of j] that by (cases "j < ps_i s"; cases "j = ps_i s") (simp_all add: got_bytes_def cur, simp_all add: next_worker_def)
qed (use assms in \<open>simp_all add: next_worker_def pipe_pc_ok_def read_ok_def read_from_pipe_def\<close>)

lemma run_main_ok:
  assumes inv: "ps_inv files s" and files: "files_ok files" and step: "run_pipe_main n s = Some res"
  shows "\<exists>s'. res = Inr s' \<and> ps_inv files s' \<and> ps_work files s' < ps_work files s"
proof -
  note d = ps_invD[OF inv]
  show ?thesis
  proof (cases "ps_pc s")
    case PM_Fork
    have zero: "ps_i s = 0" "ps_waited s = 0"
      using d(5,7) PM_Fork by (simp_all add: pipe_pc_ok_def)
    have sent: "pipe_ok (files ! j) [] (ps_workers s ! j)" if "j < length (ps_workers s)" for j
      using d(8)[OF that] zero PM_Fork by (cases "j = 0") (simp_all add: got_bytes_def current_bytes_def)
    show ?thesis
    proof (cases "ps_files s")
      case Nil
      have len: "length (ps_workers s) = length files"
        using d(1,2) Nil by simp
      have "ps_inv files (next_worker s)"
        by (rule next_worker_ok) (use d(6) len Nil zero sent in simp_all)
      moreover have "ps_work files (next_worker s) < ps_work files s"
        using zero PM_Fork by (simp add: ps_work_def next_worker_def)
      ultimately show ?thesis
        using step PM_Fork Nil by (auto simp: run_pipe_main_def)
    next
      case (Cons f fs)
      let ?s = "s\<lparr>ps_workers := ps_workers s @ [new_pipe_worker f], ps_files := fs\<rparr>"
      have drop: "drop (length (ps_workers s)) files = f # fs"
        using d(2) Cons by simp
      then have f: "length (ps_workers s) < length files" "files ! length (ps_workers s) = f" "fs = drop (Suc (length (ps_workers s))) files"
        by (metis drop_all list.distinct(1) not_le, metis drop nth_via_drop, metis drop_Suc list.sel(3) tl_drop)
      have "ps_inv files ?s"
      proof (rule ps_invI)
        show "pipe_ok (files ! j) (got_bytes files (ps_i ?s) (ps_pc ?s) j) (ps_workers ?s ! j)" if "j < length (ps_workers ?s)" for j
        proof (cases "j < length (ps_workers s)")
          case True
          then show ?thesis using sent[OF True] zero PM_Fork by (auto simp: got_bytes_def current_bytes_def nth_append)
        next
          case False
          then have "j = length (ps_workers s)" using that by simp
          then show ?thesis using zero PM_Fork f by (simp add: got_bytes_def current_bytes_def pipe_ok_def new_pipe_worker_def)
        qed
      qed (use d f zero PM_Fork in \<open>simp_all add: pipe_pc_ok_def\<close>)
      moreover have "ps_work files ?s < ps_work files s"
        using Cons by (simp add: ps_work_def worker_work_def new_pipe_worker_def)
      ultimately show ?thesis
        using step PM_Fork Cons by (auto simp: run_pipe_main_def)
    qed
  next
    case (PM_Size r)
    then show ?thesis
      using run_size_ok[OF inv files PM_Size, of n res] step by (simp add: run_pipe_main_def)
  next
    case (PM_Array r)
    then show ?thesis
      using run_array_ok[OF inv PM_Array, of n res] step by (simp add: run_pipe_main_def)
  next
    case PM_Wait
    let ?i = "ps_i s"
    have i: "?i < length (ps_workers s)" and rec: "received (files ! ?i) (ps_workers s ! ?i)"
      using d(7) PM_Wait by (simp_all add: pipe_pc_ok_def)
    have len: "length (ps_workers s) = length files"
      using d(3) PM_Wait by simp
    have f: "length (files ! ?i) < 2 ^ 29"
      using files i len by (simp add: files_ok_def numbers_ok_def)
    have total: "ps_total s + length (files ! ?i) = sum_list (map length (take (Suc ?i) files))"
      using d(6) i len by (simp add: sum_take_Suc)
    have "ps_total s + length (files ! ?i) < 2 ^ 31"
      unfolding total using sum_take_le[of "Suc ?i" files] files by (simp add: files_ok_def)
    then have res: "res = Inr (next_worker (s\<lparr>ps_i := ?i + 1, ps_waited := ps_waited s + 1, ps_total := ps_total s + length (files ! ?i)\<rparr>))"
      using step PM_Wait rec f by (auto simp: run_pipe_main_def received_def sint_of_nat_small split: if_splits)
    have "ps_inv files (next_worker (s\<lparr>ps_i := ?i + 1, ps_waited := ps_waited s + 1, ps_total := ps_total s + length (files ! ?i)\<rparr>))"
    proof (rule next_worker_ok)
      let ?s = "s\<lparr>ps_i := ?i + 1, ps_waited := ps_waited s + 1, ps_total := ps_total s + length (files ! ?i)\<rparr>"
      show "pipe_ok (files ! j) (if j < ps_i ?s then header (files ! j) @ body (files ! j) else []) (ps_workers ?s ! j)"
        if "j < length (ps_workers ?s)" for j
        using d(8)[of j] that PM_Wait by (auto simp: got_bytes_def current_bytes_def less_Suc_eq split: if_splits)
      show "received (files ! j) (ps_workers ?s ! j)" if "j < length (ps_workers ?s)" "j < ps_i ?s" for j
        using d(9)[of j] rec that by (auto simp: less_Suc_eq)
    qed (use d(2,5) i len total in simp_all)
    moreover have "ps_work files (next_worker (s\<lparr>ps_i := ?i + 1, ps_waited := ps_waited s + 1, ps_total := ps_total s + length (files ! ?i)\<rparr>)) < ps_work files s"
      using PM_Wait Suc_diff_Suc[of ?i "length files"] i len by (auto simp: ps_work_def next_worker_def)
    ultimately show ?thesis
      using res by simp
  next
    case PM_Copy
    have i: "ps_i s = length files" and len: "length (ps_workers s) = length files"
      using d(3,7) PM_Copy by (simp_all add: pipe_pc_ok_def)
    have arrays: "pw_array (ps_workers s ! j) = Some (sort_key sint (files ! j))" if "j < length files" for j
      using d(9)[of j] that i len by (simp add: received_def)
    have some: "\<not> (\<exists>w \<in> set (ps_workers s). pw_array w = None)"
      using arrays len by (auto simp: in_set_conv_nth)
    have map: "map (\<lambda>w. the (pw_array w)) (ps_workers s) = map (sort_key sint) files"
      using arrays len by (intro nth_equalityI) simp_all
    have "copy_to_total (replicate (ps_total s) 0) 0 (map (sort_key sint) files) = Inr (concat (map (sort_key sint) files))"
      using copy_to_total_ok[of "replicate (ps_total s) 0" 0 "map (sort_key sint) files"] d(6) i by (simp add: length_sorted)
    then have res: "res = Inr (s\<lparr>ps_pc := PM_Done (concat (map (sort_key sint) files))\<rparr>)"
      using step PM_Copy some map by (simp add: run_pipe_main_def)
    have "ps_inv files (s\<lparr>ps_pc := PM_Done (concat (map (sort_key sint) files))\<rparr>)"
    proof (rule ps_invI)
      let ?s = "s\<lparr>ps_pc := PM_Done (concat (map (sort_key sint) files))\<rparr>"
      show "pipe_ok (files ! j) (got_bytes files (ps_i ?s) (ps_pc ?s) j) (ps_workers ?s ! j)" if "j < length (ps_workers ?s)" for j
        using d(8)[of j] that i len by (simp add: got_bytes_def)
    qed (use d i len in \<open>simp_all add: pipe_pc_ok_def\<close>)
    moreover have "ps_work files (s\<lparr>ps_pc := PM_Done (concat (map (sort_key sint) files))\<rparr>) < ps_work files s"
      using PM_Copy by (simp add: ps_work_def)
    ultimately show ?thesis
      using res by simp
  next
    case (PM_Done r)
    then show ?thesis using step by (simp add: run_pipe_main_def)
  qed
qed

lemma pipe_proc_ok:
  assumes "ps_inv files s" "files_ok files" "pipe_proc s who n = Some res"
  shows "\<exists>s'. res = Inr s' \<and> ps_inv files s' \<and> ps_work files s' < ps_work files s"
  using assms run_main_ok[OF assms(1,2), of n res] run_child_ok[OF assms(1,2), of _ n res]
  by (auto simp: pipe_proc_def split: option.splits if_splits)

section \<open>Every schedule\<close>

lemma read_or_child:
  assumes "length (pw_pipe w) \<le> pipe_size"
  shows "read_step 1 (pw_child w = Child_Exit) (pw_pipe w) r \<noteq> None \<or> child_step 1 (pw_pipe w) (pw_child w) \<noteq> None"
proof (cases "pw_pipe w = [] \<and> pw_child w \<noteq> Child_Exit")
  case True
  then show ?thesis using child_enabled[of w] by (simp add: pipe_size_def)
qed (auto simp: read_step_def Suc_le_eq)

lemma length_filter_prefix:
  assumes "i < length xs" "\<And>j. j \<le> i \<Longrightarrow> P (xs ! j)"
  shows "i < length (filter P xs)"
proof -
  have "filter P (take (Suc i) xs) = take (Suc i) xs"
    using assms by (auto simp: filter_id_conv in_set_conv_nth)
  then have "length (filter P xs) = Suc i + length (filter P (drop (Suc i) xs))"
    using assms(1) by (metis append_take_drop_id filter_append length_append length_take min.absorb2 Suc_leI)
  then show ?thesis by simp
qed

lemma emptied_pipe:
  assumes "pipe_ok f (header f @ body f) w" "pw_child w \<noteq> Child_Exit"
  shows "child_step 1 (pw_pipe w) (pw_child w) \<noteq> None"
proof -
  have "pw_pipe w = []"
    using assms length_header[of f] by (cases "pw_child w") (auto simp: pipe_ok_def)
  with child_enabled[OF assms(2)] show ?thesis by (simp add: pipe_size_def)
qed

lemma pipe_enabled:
  assumes inv: "ps_inv files s" and "\<not> ps_done files s"
  shows "\<exists>who. pipe_proc s who 1 \<noteq> None"
proof -
  note d = ps_invD[OF inv]
  have child: ?thesis if "j < length (ps_workers s)" "child_step 1 (pw_pipe (ps_workers s ! j)) (pw_child (ps_workers s ! j)) \<noteq> None" for j
    using that by (intro exI[of _ "Some j"]) (simp add: pipe_proc_def run_child_def Let_def)
  have main: ?thesis if "run_pipe_main 1 s \<noteq> None"
    using that by (intro exI[of _ None]) (simp add: pipe_proc_def)
  let ?w = "ps_workers s ! ps_i s"
  have reading: ?thesis if "ps_pc s = PM_Size r \<or> ps_pc s = PM_Array r" for r
  proof -
    have i: "ps_i s < length (ps_workers s)"
      using d(7) that by (auto simp: pipe_pc_ok_def)
    have "length (pw_pipe ?w) \<le> pipe_size"
      using d(8)[OF i] by (simp add: pipe_ok_def)
    from read_or_child[OF this, of r] child[OF i] main that show ?thesis
      by (auto simp: run_pipe_main_def run_read_def Let_def)
  qed
  show ?thesis
  proof (cases "ps_pc s")
    case PM_Wait
    have i: "ps_i s < length (ps_workers s)"
      using d(7) PM_Wait by (simp add: pipe_pc_ok_def)
    show ?thesis
    proof (cases "\<exists>j \<le> ps_i s. pw_child (ps_workers s ! j) \<noteq> Child_Exit")
      case True
      then obtain j where j: "j \<le> ps_i s" "pw_child (ps_workers s ! j) \<noteq> Child_Exit" by blast
      with i have "j < length (ps_workers s)" by simp
      moreover have "pipe_ok (files ! j) (header (files ! j) @ body (files ! j)) (ps_workers s ! j)"
        using d(8)[OF calculation] j(1) PM_Wait by (cases "j = ps_i s") (simp_all add: got_bytes_def current_bytes_def)
      ultimately show ?thesis using child emptied_pipe j(2) by blast
    next
      case False
      then have "ps_i s < length (filter (\<lambda>w. pw_child w = Child_Exit) (ps_workers s))"
        using length_filter_prefix[OF i, of "\<lambda>w. pw_child w = Child_Exit"] by blast
      with main PM_Wait d(5) show ?thesis by (simp add: run_pipe_main_def)
    qed
  next
    case (PM_Done r)
    then show ?thesis using d(7) assms(2) by (simp add: pipe_pc_ok_def ps_done_def)
  qed (use reading main in \<open>auto simp: run_pipe_main_def\<close>)
qed

lemma ps_init_inv: "ps_inv files (pipe_sort_init files)"
  by (rule ps_invI) (simp_all add: pipe_sort_init_def pipe_pc_ok_def)

lemma ps_init_work: "ps_work files (pipe_sort_init files) = sum_list (map (\<lambda>f. 8 * length f + 12) files) + 3 * length files + 3"
  by (simp add: ps_work_def pipe_sort_init_def tally_def)

interpretation pipe_run: progress pipe_step "\<lambda>s. files_ok files \<and> ps_inv files s" "ps_work files" "ps_done files"
  for files
proof
  show "files_ok files \<and> ps_inv files s'" if "files_ok files \<and> ps_inv files s" "pipe_step s s'" for s s'
    using that pipe_proc_ok by (fastforce elim: pipe_step.cases)
  show "ps_work files s' < ps_work files s" if "files_ok files \<and> ps_inv files s" "pipe_step s s'" for s s'
    using that pipe_proc_ok by (fastforce elim: pipe_step.cases)
  show "ps_done files s" if inv: "files_ok files \<and> ps_inv files s" and stuck: "\<nexists>s'. pipe_step s s'" for s
  proof (rule ccontr)
    assume "\<not> ps_done files s"
    with pipe_enabled inv obtain who res where "pipe_proc s who 1 = Some res" by blast
    with pipe_proc_ok inv stuck show False by (metis pipe_step.intros)
  qed
qed

text \<open>(C21) Whatever the scheduling of main and the children and however the pipes cut the writes and the reads, on
  files of fewer than 2^29 numbers, and 2^31 in all, whose differences do not overflow, the parallel program makes no error and a bounded number of steps;
  it can always go on to the end, and whenever it ends it has the array that the sequential program makes.\<close>

theorem pipe_sort_as_simple:
  assumes "files_ok files" "(pipe_step ^^ k) (pipe_sort_init files) s"
  shows "k \<le> sum_list (map (\<lambda>f. 8 * length f + 12) files) + 3 * length files + 3 \<and>
    (\<forall>who n e. pipe_proc s who n \<noteq> Some (Inl e)) \<and>
    (\<forall>r. ps_pc s = PM_Done r \<longrightarrow> simple_sort files = Inr r) \<and>
    (\<exists>s' r. pipe_step\<^sup>*\<^sup>* s s' \<and> ps_pc s' = PM_Done r \<and> simple_sort files = Inr r)"
proof -
  have init: "files_ok files \<and> ps_inv files (pipe_sort_init files)"
    using assms(1) ps_init_inv by blast
  have inv: "ps_inv files s"
    using pipe_run.run_inv[OF assms(2), of files] init by blast
  have "simple_sort files = Inr r" if "ps_pc s = PM_Done r" for r
    using ps_invD(7)[OF inv] that assms(1) by (simp add: pipe_pc_ok_def simple_sort_ok)
  moreover have "pipe_proc s who n \<noteq> Some (Inl e)" for who n e
    using pipe_proc_ok[OF inv assms(1)] by fastforce
  moreover obtain s' where "pipe_step\<^sup>*\<^sup>* s s'" "ps_done files s'"
    using pipe_run.finishes[OF assms(2), of files] init by blast
  ultimately show ?thesis
    using pipe_run.finishes[OF assms(2), of files] init ps_init_work[of files] assms(1)
    by (auto simp: ps_done_def simple_sort_ok)
qed

lemma pipe_sort_as_simple_witness:
  "\<exists>s'. pipe_step\<^sup>*\<^sup>* (pipe_sort_init [[3, 1, -2], [7, 5]]) s' \<and> ps_pc s' = PM_Done [-2, 1, 3, 5, 7]"
proof -
  have ok: "files_ok [[3, 1, -2], [7, 5 :: i32]]"
    by (simp add: files_ok_def numbers_ok_def comparable_def cmp_def Let_def)
  then have "simple_sort [[3, 1, -2], [7, 5]] = Inr [-2, 1, 3, 5, 7]"
    by (simp add: simple_sort_ok sort_key_def)
  then show ?thesis
    using pipe_sort_as_simple[OF ok, of 0] by auto
qed

end
