(* ===== verification/Condvar.thy ===== *)
theory Condvar
  imports Prelude
begin

text \<open>
  The condition variables of src/lecture_examples/6_threads/14_condvar.c, and the simpler ones of 13_simple_condvar.c:
  main signals an event for each character it reads, threads wait for it. All of them interleave at every access to the
  variable and at every call.
\<close>

section \<open>The mutex\<close>

datatype cv_owner = By_Main | By_Thread nat

text \<open>The struct of 13_simple_condvar.c, and the one of 14_condvar.c with a third field.\<close>

record cv_event =
  event_lock :: "cv_owner option"
  is_event_set :: bool

record condvar = cv_event +
  wait_count :: i32

text \<open>A thread waits while the mutex is held; it is an error to unlock a mutex that the thread does not hold.\<close>

definition mutex_lock :: "cv_owner \<Rightarrow> 'a cv_event_scheme \<Rightarrow> 'a cv_event_scheme option" where
  "mutex_lock a v = (if event_lock v = None then Some (v\<lparr>event_lock := Some a\<rparr>) else None)"

definition mutex_unlock :: "cv_owner \<Rightarrow> 'a cv_event_scheme \<Rightarrow> 'a cv_event_scheme cres" where
  "mutex_unlock a v = (if event_lock v = Some a then Inr (v\<lparr>event_lock := None\<rparr>) else Inl AssertFail)"

section \<open>State\<close>

text \<open>
  Where a thread stands in \<open>condvar_wait\<close>: before it adds itself to \<open>wait_count\<close>, before the lock, at the test, before
  it takes the event, before it takes itself from \<open>wait_count\<close>, before the unlock with the return, and before the one
  with the next round. \<open>cv_processed\<close> counts the events it has printed.
\<close>

datatype cv_pc = W_Count | W_Lock | W_Test | W_Clear | W_Sub | W_Return | W_Again

record cv_thread =
  cv_pc :: cv_pc
  cv_processed :: nat

text \<open>
  Where main stands: it creates the threads, reads a character, is in \<open>condvar_signal\<close> (reads \<open>wait_count\<close>, sets the
  event, unlocks, waits until the event is taken, locks, takes the event back) or joins the threads, which never return.
\<close>

datatype cv_main = V_Create nat | V_Input | V_Load | V_Set | V_Unlock | V_Spin | V_Lock | V_Reset | V_Join

text \<open>\<open>cv_signaled\<close> and \<open>cv_missed\<close> count the lines "condvar signaled" and "no waiters" that main has printed.\<close>

record cv_state =
  cv_var :: condvar
  cv_threads :: "cv_thread list"
  cv_main :: cv_main
  cv_input :: string
  cv_signaled :: nat
  cv_missed :: nat

definition condvar_create :: condvar where
  "condvar_create = \<lparr>event_lock = Some By_Main, is_event_set = False, wait_count = 0\<rparr>"

definition cv_init :: "string \<Rightarrow> cv_state" where
  "cv_init input = \<lparr>cv_var = condvar_create, cv_threads = [], cv_main = V_Create 0, cv_input = input, cv_signaled = 0, cv_missed = 0\<rparr>"

section \<open>The threads\<close>

definition cv_goto :: "nat \<Rightarrow> cv_pc \<Rightarrow> condvar \<Rightarrow> cv_state \<Rightarrow> cv_state" where
  "cv_goto i p v s = s\<lparr>cv_var := v, cv_threads := (cv_threads s)[i := (cv_threads s ! i)\<lparr>cv_pc := p\<rparr>]\<rparr>"

text \<open>A step of \<open>thread_f\<close> in \<open>condvar_wait\<close>; it goes on with the next call after the printing.\<close>

definition condvar_wait :: "nat \<Rightarrow> cv_state \<Rightarrow> cv_state cres option" where
  "condvar_wait i s =
     (let t = cv_threads s ! i; v = cv_var s in
      case cv_pc t of
        W_Count \<Rightarrow> Some (Inr (cv_goto i W_Lock (v\<lparr>wait_count := wait_count v + 1\<rparr>) s))
      | W_Lock \<Rightarrow> map_option (\<lambda>v. Inr (cv_goto i W_Test v s)) (mutex_lock (By_Thread i) v)
      | W_Test \<Rightarrow> Some (Inr (cv_goto i (if is_event_set v then W_Clear else W_Again) v s))
      | W_Clear \<Rightarrow> Some (Inr (cv_goto i W_Sub (v\<lparr>is_event_set := False\<rparr>) s))
      | W_Sub \<Rightarrow> Some (Inr (cv_goto i W_Return (v\<lparr>wait_count := wait_count v - 1\<rparr>) s))
      | W_Return \<Rightarrow>
          Some (rbind (mutex_unlock (By_Thread i) v) (\<lambda>v.
            Inr (s\<lparr>cv_var := v, cv_threads := (cv_threads s)[i := \<lparr>cv_pc = W_Count, cv_processed = Suc (cv_processed t)\<rparr>]\<rparr>)))
      | W_Again \<Rightarrow> Some (rbind (mutex_unlock (By_Thread i) v) (\<lambda>v. Inr (cv_goto i W_Lock v s))))"

section \<open>Main\<close>

definition condvar_main :: "nat \<Rightarrow> cv_state \<Rightarrow> cv_state cres option" where
  "condvar_main n s =
     (let v = cv_var s in
      case cv_main s of
        V_Create m \<Rightarrow>
          Some (Inr (if m < n then s\<lparr>cv_threads := cv_threads s @ [\<lparr>cv_pc = W_Count, cv_processed = 0\<rparr>], cv_main := V_Create (Suc m)\<rparr>
                     else s\<lparr>cv_main := V_Input\<rparr>))
      | V_Input \<Rightarrow>
          Some (Inr (case cv_input s of
             [] \<Rightarrow> s\<lparr>cv_main := V_Join\<rparr>
           | c # cs \<Rightarrow> s\<lparr>cv_main := V_Load, cv_input := cs\<rparr>))
      | V_Load \<Rightarrow>
          Some (Inr (if wait_count v = 0 then s\<lparr>cv_main := V_Input, cv_missed := Suc (cv_missed s)\<rparr>
                     else s\<lparr>cv_main := V_Set, cv_signaled := Suc (cv_signaled s)\<rparr>))
      | V_Set \<Rightarrow> Some (Inr (s\<lparr>cv_var := v\<lparr>is_event_set := True\<rparr>, cv_main := V_Unlock\<rparr>))
      | V_Unlock \<Rightarrow> Some (rbind (mutex_unlock By_Main v) (\<lambda>v. Inr (s\<lparr>cv_var := v, cv_main := V_Spin\<rparr>)))
      | V_Spin \<Rightarrow> Some (Inr (if is_event_set v then s else s\<lparr>cv_main := V_Lock\<rparr>))
      | V_Lock \<Rightarrow> map_option (\<lambda>v. Inr (s\<lparr>cv_var := v, cv_main := V_Reset\<rparr>)) (mutex_lock By_Main v)
      | V_Reset \<Rightarrow> Some (Inr (s\<lparr>cv_var := v\<lparr>is_event_set := False\<rparr>, cv_main := V_Input\<rparr>))
      | V_Join \<Rightarrow> None)"

text \<open>A step of main or of a thread, with \<open>n\<close> threads; in the source \<open>n\<close> is 10.\<close>

definition cv_proc :: "nat \<Rightarrow> cv_state \<Rightarrow> cv_owner \<Rightarrow> cv_state cres option" where
  "cv_proc n s who =
     (case who of By_Main \<Rightarrow> condvar_main n s
      | By_Thread i \<Rightarrow> if i < length (cv_threads s) then condvar_wait i s else None)"

inductive cv_step :: "nat \<Rightarrow> cv_state \<Rightarrow> cv_state \<Rightarrow> bool" for n where
  "cv_proc n s who = Some (Inr s') \<Longrightarrow> cv_step n s s'"

section \<open>The simple version\<close>

text \<open>Here main does not wait until the event is taken, and does not know whether anyone waits.\<close>

record sv_state =
  sv_var :: cv_event
  sv_threads :: "cv_thread list"
  sv_main :: cv_main
  sv_input :: string
  sv_signaled :: nat

definition simple_condvar_create :: cv_event where
  "simple_condvar_create = \<lparr>event_lock = Some By_Main, is_event_set = False\<rparr>"

definition sv_init :: "string \<Rightarrow> sv_state" where
  "sv_init input = \<lparr>sv_var = simple_condvar_create, sv_threads = [], sv_main = V_Create 0, sv_input = input, sv_signaled = 0\<rparr>"

definition sv_goto :: "nat \<Rightarrow> cv_pc \<Rightarrow> cv_event \<Rightarrow> sv_state \<Rightarrow> sv_state" where
  "sv_goto i p v s = s\<lparr>sv_var := v, sv_threads := (sv_threads s)[i := (sv_threads s ! i)\<lparr>cv_pc := p\<rparr>]\<rparr>"

text \<open>The threads start before the lock and never come to the two places at \<open>wait_count\<close>.\<close>

definition simple_condvar_wait :: "nat \<Rightarrow> sv_state \<Rightarrow> sv_state cres option" where
  "simple_condvar_wait i s =
     (let t = sv_threads s ! i; v = sv_var s in
      case cv_pc t of
        W_Lock \<Rightarrow> map_option (\<lambda>v. Inr (sv_goto i W_Test v s)) (mutex_lock (By_Thread i) v)
      | W_Test \<Rightarrow> Some (Inr (sv_goto i (if is_event_set v then W_Clear else W_Again) v s))
      | W_Clear \<Rightarrow> Some (Inr (sv_goto i W_Return (v\<lparr>is_event_set := False\<rparr>) s))
      | W_Return \<Rightarrow>
          Some (rbind (mutex_unlock (By_Thread i) v) (\<lambda>v.
            Inr (s\<lparr>sv_var := v, sv_threads := (sv_threads s)[i := \<lparr>cv_pc = W_Lock, cv_processed = Suc (cv_processed t)\<rparr>]\<rparr>)))
      | W_Again \<Rightarrow> Some (rbind (mutex_unlock (By_Thread i) v) (\<lambda>v. Inr (sv_goto i W_Lock v s)))
      | _ \<Rightarrow> None)"

definition simple_condvar_main :: "nat \<Rightarrow> sv_state \<Rightarrow> sv_state cres option" where
  "simple_condvar_main n s =
     (let v = sv_var s in
      case sv_main s of
        V_Create m \<Rightarrow>
          Some (Inr (if m < n then s\<lparr>sv_threads := sv_threads s @ [\<lparr>cv_pc = W_Lock, cv_processed = 0\<rparr>], sv_main := V_Create (Suc m)\<rparr>
                     else s\<lparr>sv_main := V_Input\<rparr>))
      | V_Input \<Rightarrow>
          Some (Inr (case sv_input s of
             [] \<Rightarrow> s\<lparr>sv_main := V_Join\<rparr>
           | c # cs \<Rightarrow> s\<lparr>sv_input := cs, sv_signaled := Suc (sv_signaled s), sv_main := V_Set\<rparr>))
      | V_Set \<Rightarrow> Some (Inr (s\<lparr>sv_var := v\<lparr>is_event_set := True\<rparr>, sv_main := V_Unlock\<rparr>))
      | V_Unlock \<Rightarrow> Some (rbind (mutex_unlock By_Main v) (\<lambda>v. Inr (s\<lparr>sv_var := v, sv_main := V_Lock\<rparr>)))
      | V_Lock \<Rightarrow> map_option (\<lambda>v. Inr (s\<lparr>sv_var := v, sv_main := V_Reset\<rparr>)) (mutex_lock By_Main v)
      | V_Reset \<Rightarrow> Some (Inr (s\<lparr>sv_var := v\<lparr>is_event_set := False\<rparr>, sv_main := V_Input\<rparr>))
      | _ \<Rightarrow> None)"

inductive sv_step :: "nat \<Rightarrow> sv_state \<Rightarrow> sv_state \<Rightarrow> bool" for n where
  thread: "i < length (sv_threads s) \<Longrightarrow> simple_condvar_wait i s = Some (Inr s') \<Longrightarrow> sv_step n s s'"
| main: "simple_condvar_main n s = Some (Inr s') \<Longrightarrow> sv_step n s s'"

end
