(* ===== verification/Condvar_Spec.thy ===== *)
theory Condvar_Spec
  imports Condvar
begin

text \<open>
  No event is lost in 14_condvar.c: each character is either answered with "no waiters" or processed by one thread before
  main reads the next one. In 13_simple_condvar.c main can signal any number of events that nobody gets.
\<close>

section \<open>The invariant\<close>

text \<open>A thread that holds the mutex, one that counts as waiting, and one that has taken the event.\<close>

definition crit :: "cv_thread \<Rightarrow> bool" where
  "crit t \<longleftrightarrow> cv_pc t \<in> {W_Test, W_Clear, W_Sub, W_Return, W_Again}"

definition waits :: "cv_thread \<Rightarrow> nat" where
  "waits t = (if cv_pc t \<in> {W_Lock, W_Test, W_Clear, W_Sub, W_Again} then 1 else 0)"

definition taken :: "cv_thread \<Rightarrow> nat" where
  "taken t = (if cv_pc t \<in> {W_Sub, W_Return} then 1 else 0)"

definition cv_thread_ok :: "bool \<Rightarrow> cv_thread \<Rightarrow> bool" where
  "cv_thread_ok ev t \<longleftrightarrow> (cv_pc t = W_Clear \<longrightarrow> ev) \<and> (taken t = 1 \<longrightarrow> \<not> ev)"

definition main_holds :: "cv_main \<Rightarrow> bool" where
  "main_holds p \<longleftrightarrow> p \<noteq> V_Spin \<and> p \<noteq> V_Lock"

definition cv_main_ok :: "nat \<Rightarrow> bool \<Rightarrow> nat \<Rightarrow> cv_main \<Rightarrow> bool" where
  "cv_main_ok n ev len p \<longleftrightarrow> (case p of V_Create m \<Rightarrow> len = m \<and> m \<le> n | _ \<Rightarrow> len = n) \<and>
     (ev \<longrightarrow> p = V_Unlock \<or> p = V_Spin) \<and> (p = V_Unlock \<longrightarrow> ev)"

definition cv_events :: "cv_state \<Rightarrow> nat" where
  "cv_events s = tally (\<lambda>t. cv_processed t + taken t) (cv_threads s) + (if cv_main s = V_Set \<or> is_event_set (cv_var s) then 1 else 0)"

definition cv_inv :: "nat \<Rightarrow> string \<Rightarrow> cv_state \<Rightarrow> bool" where
  "cv_inv n input s \<longleftrightarrow>
     (let v = cv_var s; ts = cv_threads s; m = cv_main s in
      (event_lock v = Some By_Main \<longleftrightarrow> main_holds m) \<and>
      (\<forall>i. event_lock v = Some (By_Thread i) \<longleftrightarrow> i < length ts \<and> crit (ts ! i)) \<and>
      (\<forall>i < length ts. cv_thread_ok (is_event_set v) (ts ! i)) \<and>
      wait_count v = of_nat (tally waits ts) \<and> cv_events s = cv_signaled s \<and>
      (m = V_Set \<or> is_event_set v \<longrightarrow> tally waits ts > 0) \<and> cv_main_ok n (is_event_set v) (length ts) m \<and>
      cv_signaled s + cv_missed s + length (cv_input s) + (if m = V_Load then 1 else 0) = length input \<and>
      (m = V_Join \<longrightarrow> cv_input s = []))"

lemma idle_ok: "\<not> crit t \<Longrightarrow> cv_thread_ok ev t"
  by (auto simp: crit_def cv_thread_ok_def taken_def)

lemma cv_invD:
  assumes "cv_inv n input s"
  shows "event_lock (cv_var s) = Some By_Main \<longleftrightarrow> main_holds (cv_main s)"
    "event_lock (cv_var s) = Some (By_Thread i) \<longleftrightarrow> i < length (cv_threads s) \<and> crit (cv_threads s ! i)"
    "i < length (cv_threads s) \<Longrightarrow> cv_thread_ok (is_event_set (cv_var s)) (cv_threads s ! i)"
    "wait_count (cv_var s) = of_nat (tally waits (cv_threads s))" "cv_events s = cv_signaled s"
    "cv_main s = V_Set \<or> is_event_set (cv_var s) \<Longrightarrow> tally waits (cv_threads s) > 0"
    "cv_main_ok n (is_event_set (cv_var s)) (length (cv_threads s)) (cv_main s)"
    "cv_signaled s + cv_missed s + length (cv_input s) + (if cv_main s = V_Load then 1 else 0) = length input"
    "cv_main s = V_Join \<Longrightarrow> cv_input s = []"
  using assms by (simp_all only: cv_inv_def Let_def)

lemma cv_invI:
  assumes "event_lock (cv_var s) = Some By_Main \<longleftrightarrow> main_holds (cv_main s)"
    "\<And>i. event_lock (cv_var s) = Some (By_Thread i) \<longleftrightarrow> i < length (cv_threads s) \<and> crit (cv_threads s ! i)"
    "\<And>i. i < length (cv_threads s) \<Longrightarrow> cv_thread_ok (is_event_set (cv_var s)) (cv_threads s ! i)"
    "wait_count (cv_var s) = of_nat (tally waits (cv_threads s))" "cv_events s = cv_signaled s"
    "cv_main s = V_Set \<or> is_event_set (cv_var s) \<Longrightarrow> tally waits (cv_threads s) > 0"
    "cv_main_ok n (is_event_set (cv_var s)) (length (cv_threads s)) (cv_main s)"
    "cv_signaled s + cv_missed s + length (cv_input s) + (if cv_main s = V_Load then 1 else 0) = length input"
    "cv_main s = V_Join \<Longrightarrow> cv_input s = []"
  shows "cv_inv n input s"
  using assms by (simp only: cv_inv_def Let_def) blast

lemma cv_inv_init: "cv_inv n input (cv_init input)"
  by (rule cv_invI) (simp_all add: cv_init_def condvar_create_def main_holds_def cv_main_ok_def cv_events_def)

text \<open>A thread changes.\<close>

lemma cv_inv_thread:
  assumes inv: "cv_inv n input s" and i: "i < length (cv_threads s)"
    and s': "s' = s\<lparr>cv_var := v, cv_threads := (cv_threads s)[i := t]\<rparr>"
    and lock: "event_lock v = Some By_Main \<longleftrightarrow> event_lock (cv_var s) = Some By_Main" "event_lock v = Some (By_Thread i) \<longleftrightarrow> crit t"
      "\<And>j. j \<noteq> i \<Longrightarrow> event_lock v = Some (By_Thread j) \<longleftrightarrow> event_lock (cv_var s) = Some (By_Thread j)"
    and ev: "is_event_set v = is_event_set (cv_var s) \<or> \<not> is_event_set v \<and> crit (cv_threads s ! i)"
    and ok: "cv_thread_ok (is_event_set v) t"
    and count: "wait_count v + of_nat (waits (cv_threads s ! i)) = wait_count (cv_var s) + of_nat (waits t)"
    and events: "cv_processed t + taken t + (if is_event_set v then 1 else 0) =
      cv_processed (cv_threads s ! i) + taken (cv_threads s ! i) + (if is_event_set (cv_var s) then 1 else 0)"
    and waiting: "is_event_set v \<or> \<not> crit (cv_threads s ! i) \<Longrightarrow> waits (cv_threads s ! i) \<le> waits t"
  shows "cv_inv n input s'"
proof -
  note d = cv_invD[OF inv]
  let ?t = "cv_threads s ! i"
  have owner: "\<not> main_holds (cv_main s) \<and> (\<forall>j < length (cv_threads s). j \<noteq> i \<longrightarrow> \<not> crit (cv_threads s ! j))" if "crit ?t"
  proof -
    have mine: "event_lock (cv_var s) = Some (By_Thread i)"
      using d(2)[of i] i that by simp
    have "\<not> crit (cv_threads s ! j)" if "j < length (cv_threads s)" "j \<noteq> i" for j
      using d(2)[of j] that by (simp add: mine)
    then show ?thesis
      using d(1) by (simp add: mine)
  qed
  have w: "tally waits (cv_threads s) + waits t = tally waits ((cv_threads s)[i := t]) + waits ?t"
    using tally_update[OF i, of waits t] by simp
  show ?thesis
  proof (rule cv_invI)
    show "event_lock (cv_var s') = Some (By_Thread j) \<longleftrightarrow> j < length (cv_threads s') \<and> crit (cv_threads s' ! j)" for j
      using lock(2,3) d(2) i by (cases "j = i") (simp_all add: s')
    show "cv_thread_ok (is_event_set (cv_var s')) (cv_threads s' ! j)" if "j < length (cv_threads s')" for j
    proof (cases "j = i")
      case False
      with that have j: "j < length (cv_threads s)" "cv_threads s' ! j = cv_threads s ! j"
        by (simp_all add: s')
      have "cv_thread_ok (is_event_set v) (cv_threads s ! j)"
      proof (cases "crit ?t")
        case True
        with owner j(1) False show ?thesis by (blast intro: idle_ok)
      qed (use d(3)[OF j(1)] ev in simp)
      then show ?thesis
        using j(2) by (simp add: s')
    qed (use ok i in \<open>simp add: s'\<close>)
    have "wait_count v + of_nat (waits ?t) = of_nat (tally waits (cv_threads s) + waits t)"
      unfolding count d(4) by simp
    also have "\<dots> = of_nat (tally waits ((cv_threads s)[i := t])) + of_nat (waits ?t)"
      unfolding w by simp
    finally show "wait_count (cv_var s') = of_nat (tally waits (cv_threads s'))"
      by (simp add: s')
    have same: "(cv_main s = V_Set \<or> is_event_set v) = (cv_main s = V_Set \<or> is_event_set (cv_var s)) \<and>
        (cv_main s = V_Set \<longrightarrow> is_event_set v = is_event_set (cv_var s)) \<or> crit ?t \<and> cv_main s \<noteq> V_Set \<and> cv_main s \<noteq> V_Unlock"
      using ev owner by (auto simp: main_holds_def)
    have "cv_events s' = cv_events s"
      using same events tally_update[OF i, of "\<lambda>t. cv_processed t + taken t" t] by (simp add: s' cv_events_def split: if_splits)
    then show "cv_events s' = cv_signaled s'"
      using d(5) by (simp add: s')
    show "tally waits (cv_threads s') > 0" if "cv_main s' = V_Set \<or> is_event_set (cv_var s')"
    proof -
      have "is_event_set v \<or> \<not> crit ?t"
        using that owner by (auto simp: s' main_holds_def)
      moreover have "cv_main s = V_Set \<or> is_event_set (cv_var s)"
        using that ev by (auto simp: s')
      ultimately show ?thesis
        using waiting w d(6) by (simp add: s')
    qed
    have "is_event_set v = is_event_set (cv_var s) \<or> \<not> is_event_set v \<and> cv_main s \<noteq> V_Unlock"
      using ev owner by (auto simp: main_holds_def)
    then show "cv_main_ok n (is_event_set (cv_var s')) (length (cv_threads s')) (cv_main s')"
      using d(7) by (auto simp: s' cv_main_ok_def)
  qed (use lock(1) d(1,8,9) in \<open>simp_all add: s'\<close>)
qed

lemma condvar_wait_inv:
  assumes inv: "cv_inv n input s" and i: "i < length (cv_threads s)" and step: "condvar_wait i s = Some r"
  shows "\<exists>s'. r = Inr s' \<and> cv_inv n input s'"
proof -
  let ?t = "cv_threads s ! i" and ?v = "cv_var s"
  note d = cv_invD[OF inv]
  note defs = crit_def waits_def taken_def cv_thread_ok_def Let_def
  have ok: "cv_thread_ok (is_event_set ?v) ?t" and lock: "event_lock ?v = Some (By_Thread i) \<longleftrightarrow> crit ?t"
    using d(2,3) i by simp_all
  have go: "cv_inv n input (s\<lparr>cv_var := v, cv_threads := (cv_threads s)[i := t]\<rparr>)"
    if "event_lock v = Some By_Main \<longleftrightarrow> event_lock (cv_var s) = Some By_Main" "event_lock v = Some (By_Thread i) \<longleftrightarrow> crit t"
      "\<And>j. j \<noteq> i \<Longrightarrow> event_lock v = Some (By_Thread j) \<longleftrightarrow> event_lock (cv_var s) = Some (By_Thread j)"
      "is_event_set v = is_event_set (cv_var s) \<or> \<not> is_event_set v \<and> crit (cv_threads s ! i)" "cv_thread_ok (is_event_set v) t"
      "wait_count v + of_nat (waits (cv_threads s ! i)) = wait_count (cv_var s) + of_nat (waits t)"
      "cv_processed t + taken t + (if is_event_set v then 1 else 0) =
        cv_processed (cv_threads s ! i) + taken (cv_threads s ! i) + (if is_event_set (cv_var s) then 1 else 0)"
      "is_event_set v \<or> \<not> crit (cv_threads s ! i) \<Longrightarrow> waits (cv_threads s ! i) \<le> waits t" for v t
    by (rule cv_inv_thread[OF inv i refl that])
  show ?thesis
  proof (cases "cv_pc ?t")
    case W_Count
    then show ?thesis
      using step go[of "?v\<lparr>wait_count := wait_count ?v + 1\<rparr>" "?t\<lparr>cv_pc := W_Lock\<rparr>"] lock ok
      by (auto simp: condvar_wait_def cv_goto_def defs)
  next
    case W_Lock
    then show ?thesis
      using step go[of "?v\<lparr>event_lock := Some (By_Thread i)\<rparr>" "?t\<lparr>cv_pc := W_Test\<rparr>"] lock ok
      by (auto simp: condvar_wait_def cv_goto_def defs mutex_lock_def split: if_splits)
  next
    case W_Test
    then show ?thesis
      using step go[of ?v "?t\<lparr>cv_pc := W_Clear\<rparr>"] go[of ?v "?t\<lparr>cv_pc := W_Again\<rparr>"] lock ok
      by (auto simp: condvar_wait_def cv_goto_def defs split: if_splits)
  next
    case W_Clear
    then show ?thesis
      using step go[of "?v\<lparr>is_event_set := False\<rparr>" "?t\<lparr>cv_pc := W_Sub\<rparr>"] lock ok
      by (auto simp: condvar_wait_def cv_goto_def defs)
  next
    case W_Sub
    then show ?thesis
      using step go[of "?v\<lparr>wait_count := wait_count ?v - 1\<rparr>" "?t\<lparr>cv_pc := W_Return\<rparr>"] lock ok
      by (auto simp: condvar_wait_def cv_goto_def defs)
  next
    case W_Return
    then show ?thesis
      using step go[of "?v\<lparr>event_lock := None\<rparr>" "\<lparr>cv_pc = W_Count, cv_processed = Suc (cv_processed ?t)\<rparr>"] lock ok
      by (auto simp: condvar_wait_def mutex_unlock_def defs)
  next
    case W_Again
    then show ?thesis
      using step go[of "?v\<lparr>event_lock := None\<rparr>" "?t\<lparr>cv_pc := W_Lock\<rparr>"] lock ok
      by (auto simp: condvar_wait_def cv_goto_def mutex_unlock_def defs)
  qed
qed

text \<open>Main changes, and the threads stay as they are.\<close>

lemma condvar_main_inv:
  assumes inv: "cv_inv n input s" and step: "condvar_main n s = Some r"
  shows "\<exists>s'. r = Inr s' \<and> cv_inv n input s'"
proof -
  let ?v = "cv_var s"
  note d = cv_invD[OF inv]
  have go: "cv_inv n input (s\<lparr>cv_var := v, cv_main := p, cv_input := inp, cv_signaled := sg, cv_missed := ms\<rparr>)"
    if "event_lock v = Some By_Main \<longleftrightarrow> main_holds p" "\<And>i. event_lock v = Some (By_Thread i) \<longleftrightarrow> event_lock ?v = Some (By_Thread i)"
      "is_event_set v = is_event_set ?v \<or> main_holds (cv_main s)" "wait_count v = wait_count ?v"
      "sg + (if cv_main s = V_Set \<or> is_event_set ?v then 1 else 0) = cv_signaled s + (if p = V_Set \<or> is_event_set v then 1 else 0)"
      "p = V_Set \<or> is_event_set v \<Longrightarrow> tally waits (cv_threads s) > 0" "cv_main_ok n (is_event_set v) (length (cv_threads s)) p"
      "sg + ms + length inp + (if p = V_Load then 1 else 0) = length input" "p = V_Join \<Longrightarrow> inp = []" for v p inp sg ms
  proof (rule cv_invI)
    let ?s = "s\<lparr>cv_var := v, cv_main := p, cv_input := inp, cv_signaled := sg, cv_missed := ms\<rparr>"
    show "cv_thread_ok (is_event_set (cv_var ?s)) (cv_threads ?s ! i)" if i: "i < length (cv_threads ?s)" for i
    proof (cases "main_holds (cv_main s)")
      case True
      then have "\<not> crit (cv_threads s ! i)"
        using d(1) d(2)[of i] i by auto
      then show ?thesis
        by (simp add: idle_ok)
    qed (use d(3)[of i] i \<open>is_event_set v = is_event_set ?v \<or> main_holds (cv_main s)\<close> in simp)
    show "cv_events ?s = cv_signaled ?s"
      using d(5) that(5) by (simp add: cv_events_def split: if_splits)
  qed (use that d(2,4) in simp_all)
  show ?thesis
  proof (cases "cv_main s")
    case (V_Create m)
    then have len: "length (cv_threads s) = m" "m \<le> n" "\<not> is_event_set ?v" and held: "event_lock ?v = Some By_Main"
      using d(1,7) by (auto simp: cv_main_ok_def main_holds_def)
    show ?thesis
    proof (cases "m < n")
      case True
      let ?s = "s\<lparr>cv_threads := cv_threads s @ [\<lparr>cv_pc = W_Count, cv_processed = 0\<rparr>], cv_main := V_Create (Suc m)\<rparr>"
      have "cv_inv n input ?s"
      proof (rule cv_invI)
        show "event_lock (cv_var ?s) = Some (By_Thread i) \<longleftrightarrow> i < length (cv_threads ?s) \<and> crit (cv_threads ?s ! i)" for i
          using d(2)[of i] held by (cases "i = m") (auto simp: nth_append len crit_def)
        show "cv_thread_ok (is_event_set (cv_var ?s)) (cv_threads ?s ! i)" if "i < length (cv_threads ?s)" for i
          using d(3)[of i] that by (auto simp: nth_append len less_Suc_eq cv_thread_ok_def taken_def)
        show "cv_events ?s = cv_signaled ?s"
          using d(5) V_Create by (simp add: cv_events_def taken_def)
      qed (use d(4,8) held V_Create len True in \<open>simp_all add: main_holds_def cv_main_ok_def waits_def\<close>)
      then show ?thesis
        using step V_Create True by (auto simp: condvar_main_def)
    next
      case False
      then show ?thesis
        using go[of ?v V_Input "cv_signaled s" "cv_missed s" "cv_input s"] step V_Create len held d(8)
        by (auto simp: condvar_main_def main_holds_def cv_main_ok_def)
    qed
  next
    case V_Input
    have join: "cv_inv n input (s\<lparr>cv_main := V_Join\<rparr>)" if none: "cv_input s = []"
    proof -
      have eq: "s\<lparr>cv_main := V_Join\<rparr> = s\<lparr>cv_main := V_Join, cv_input := []\<rparr>"
        using none by (cases s) simp
      show ?thesis
        by (subst eq)
          (use go[of ?v V_Join "cv_signaled s" "cv_missed s" "[]"] V_Input d(1,7,8) none in \<open>auto simp: main_holds_def cv_main_ok_def\<close>)
    qed
    have load: "cv_inv n input (s\<lparr>cv_main := V_Load, cv_input := cs\<rparr>)" if "cv_input s = c # cs" for c cs
      using go[of ?v V_Load "cv_signaled s" "cv_missed s" cs] V_Input d(1,7,8) that
      by (auto simp: main_holds_def cv_main_ok_def)
    show ?thesis
      using join load step V_Input by (cases "cv_input s") (auto simp: condvar_main_def)
  next
    case V_Load
    have "tally waits (cv_threads s) > 0" if "wait_count ?v \<noteq> 0"
      using d(4) that by (cases "tally waits (cv_threads s)") simp_all
    then show ?thesis
      using go[of ?v V_Input "cv_signaled s" "Suc (cv_missed s)" "cv_input s"] go[of ?v V_Set "Suc (cv_signaled s)" "cv_missed s" "cv_input s"]
        step V_Load d(1,7,8) by (auto simp: condvar_main_def main_holds_def cv_main_ok_def split: if_splits)
  next
    case V_Set
    then show ?thesis
      using go[of "?v\<lparr>is_event_set := True\<rparr>" V_Unlock "cv_signaled s" "cv_missed s" "cv_input s"] step d(1,6,7,8)
      by (auto simp: condvar_main_def main_holds_def cv_main_ok_def)
  next
    case V_Unlock
    then show ?thesis
      using go[of "?v\<lparr>event_lock := None\<rparr>" V_Spin "cv_signaled s" "cv_missed s" "cv_input s"] step d(1,6,7,8)
      by (auto simp: condvar_main_def mutex_unlock_def main_holds_def cv_main_ok_def)
  next
    case V_Spin
    then show ?thesis
      using go[of ?v V_Lock "cv_signaled s" "cv_missed s" "cv_input s"] step inv d(1,7,8)
      by (auto simp: condvar_main_def main_holds_def cv_main_ok_def split: if_splits)
  next
    case V_Lock
    then show ?thesis
      using go[of "?v\<lparr>event_lock := Some By_Main\<rparr>" V_Reset "cv_signaled s" "cv_missed s" "cv_input s"] step d(1,7,8)
      by (auto simp: condvar_main_def mutex_lock_def main_holds_def cv_main_ok_def Let_def split: if_splits)
  next
    case V_Reset
    then show ?thesis
      using go[of "?v\<lparr>is_event_set := False\<rparr>" V_Input "cv_signaled s" "cv_missed s" "cv_input s"] step d(1,7,8)
      by (auto simp: condvar_main_def main_holds_def cv_main_ok_def)
  next
    case V_Join
    then show ?thesis using step by (simp add: condvar_main_def)
  qed
qed

lemma cv_proc_inv: "cv_inv n input s \<Longrightarrow> cv_proc n s who = Some r \<Longrightarrow> \<exists>s'. r = Inr s' \<and> cv_inv n input s'"
  using condvar_main_inv condvar_wait_inv by (auto simp: cv_proc_def split: cv_owner.splits if_splits)

lemma cv_step_inv: "cv_inv n input s \<Longrightarrow> cv_step n s s' \<Longrightarrow> cv_inv n input s'"
  by (fastforce elim: cv_step.cases dest: cv_proc_inv)

section \<open>Progress\<close>

text \<open>
  How far a thread is from leaving the mutex, and from taking the event while it is set. Main only depends on the threads
  between its unlock and its lock.
\<close>

definition cv_rank :: "bool \<Rightarrow> cv_thread \<Rightarrow> nat" where
  "cv_rank ev t =
     (case cv_pc t of
        W_Count \<Rightarrow> 0 | W_Again \<Rightarrow> if ev then 8 else 2 | W_Lock \<Rightarrow> if ev then 7 else 1 | W_Test \<Rightarrow> if ev then 6 else 3
      | W_Clear \<Rightarrow> 5 | W_Sub \<Rightarrow> 4 | W_Return \<Rightarrow> 3)"

definition cv_main_rank :: "nat \<Rightarrow> cv_main \<Rightarrow> nat" where
  "cv_main_rank n p =
     (case p of V_Create m \<Rightarrow> (n - m) + 2 | V_Input \<Rightarrow> 1 | V_Load \<Rightarrow> 8 * n + 8 | V_Set \<Rightarrow> 8 * n + 7 | V_Unlock \<Rightarrow> 8 * n + 6
      | V_Spin \<Rightarrow> 4 | V_Lock \<Rightarrow> 3 | V_Reset \<Rightarrow> 2 | V_Join \<Rightarrow> 0)"

definition cv_work :: "nat \<Rightarrow> cv_state \<Rightarrow> nat" where
  "cv_work n s = (8 * n + 10) * length (cv_input s) + cv_main_rank n (cv_main s) +
     (if main_holds (cv_main s) then 0 else tally (cv_rank (is_event_set (cv_var s))) (cv_threads s))"

definition cv_forward :: "nat \<Rightarrow> cv_state \<Rightarrow> cv_state \<Rightarrow> bool" where
  "cv_forward n s s' \<longleftrightarrow> cv_step n s s' \<and> cv_work n s' < cv_work n s"

definition cv_ended :: "cv_state \<Rightarrow> bool" where
  "cv_ended s \<longleftrightarrow> cv_main s = V_Join"

lemma cv_rank_le: "cv_rank ev t \<le> 8"
  by (auto simp: cv_rank_def split: cv_pc.split)

lemma tally_rank_le: "tally (cv_rank ev) ts \<le> 8 * length ts"
  using tally_le[of ts "cv_rank ev" "\<lambda>_. 0" 8] tally_const[of ts "\<lambda>_. 0" 0] cv_rank_le by simp

lemma tally_rank_cleared: "tally (cv_rank False) ts \<le> tally (cv_rank True) ts"
proof -
  have "cv_rank False t \<le> cv_rank True t" for t
    by (simp add: cv_rank_def split: cv_pc.split)
  then show ?thesis
    using tally_le[of ts "cv_rank False" "cv_rank True" 0] by simp
qed

lemma forward_by_main:
  assumes "condvar_main n s = Some (Inr s')" "cv_work n s' < cv_work n s"
  shows "\<exists>s'. cv_forward n s s'"
proof -
  have "cv_step n s s'"
    by (rule cv_step.intros[of _ _ By_Main]) (use assms(1) in \<open>simp add: cv_proc_def\<close>)
  with assms(2) show ?thesis by (auto simp: cv_forward_def)
qed

text \<open>While main does not hold the mutex, its owner can go on, and so can a waiting thread when nobody owns it.\<close>

lemma forward_by_thread:
  assumes i: "i < length (cv_threads s)" and not: "\<not> main_holds (cv_main s)"
    and step: "condvar_wait i s = Some (Inr (s\<lparr>cv_var := v, cv_threads := (cv_threads s)[i := t]\<rparr>))"
    and ev: "is_event_set v = is_event_set (cv_var s) \<or> \<not> is_event_set v \<and> is_event_set (cv_var s)"
    and rank: "cv_rank (is_event_set v) t < cv_rank (is_event_set v) (cv_threads s ! i)"
  shows "\<exists>s'. cv_forward n s s'"
proof -
  let ?s' = "s\<lparr>cv_var := v, cv_threads := (cv_threads s)[i := t]\<rparr>"
  have "cv_step n s ?s'"
    by (rule cv_step.intros[of _ _ "By_Thread i"]) (use step i in \<open>simp add: cv_proc_def\<close>)
  moreover have "tally (cv_rank (is_event_set v)) ((cv_threads s)[i := t]) < tally (cv_rank (is_event_set v)) (cv_threads s)"
    using tally_update[OF i, of "cv_rank (is_event_set v)" t] rank by simp
  moreover have "tally (cv_rank (is_event_set v)) (cv_threads s) \<le> tally (cv_rank (is_event_set (cv_var s))) (cv_threads s)"
    using ev tally_rank_cleared[of "cv_threads s"] by (cases "is_event_set v"; cases "is_event_set (cv_var s)") simp_all
  ultimately show ?thesis
    using not by (intro exI[of _ ?s']) (simp add: cv_forward_def cv_work_def)
qed

lemma forward_owner:
  assumes inv: "cv_inv n input s" and i: "event_lock (cv_var s) = Some (By_Thread i)"
  shows "\<exists>s'. cv_forward n s s'"
proof -
  let ?t = "cv_threads s ! i" and ?v = "cv_var s"
  note d = cv_invD[OF inv]
  have len: "i < length (cv_threads s)" and crit: "crit ?t" and not: "\<not> main_holds (cv_main s)"
    using d(1) d(2)[of i] i by simp_all
  have ok: "cv_thread_ok (is_event_set ?v) ?t"
    by (rule d(3)[OF len])
  note go = forward_by_thread[OF len not]
  note defs = condvar_wait_def cv_goto_def cv_rank_def mutex_unlock_def Let_def
  show ?thesis
  proof (cases "cv_pc ?t")
    case W_Test
    show ?thesis
      by (rule go[of "?t\<lparr>cv_pc := if is_event_set ?v then W_Clear else W_Again\<rparr>" ?v]) (use W_Test in \<open>simp_all add: defs\<close>)
  next
    case W_Clear
    show ?thesis
      by (rule go[of "?t\<lparr>cv_pc := W_Sub\<rparr>" "?v\<lparr>is_event_set := False\<rparr>"]) (use W_Clear in \<open>auto simp: defs\<close>)
  next
    case W_Sub
    show ?thesis
      by (rule go[of "?t\<lparr>cv_pc := W_Return\<rparr>" "?v\<lparr>wait_count := wait_count ?v - 1\<rparr>"]) (use W_Sub in \<open>simp_all add: defs\<close>)
  next
    case W_Return
    show ?thesis
      by (rule go[of "\<lparr>cv_pc = W_Count, cv_processed = Suc (cv_processed ?t)\<rparr>" "?v\<lparr>event_lock := None\<rparr>"])
        (use W_Return i in \<open>simp_all add: defs\<close>)
  next
    case W_Again
    show ?thesis
      by (rule go[of "?t\<lparr>cv_pc := W_Lock\<rparr>" "?v\<lparr>event_lock := None\<rparr>"]) (use W_Again i in \<open>simp_all add: defs\<close>)
  qed (use crit in \<open>simp_all add: crit_def\<close>)
qed

lemma forward_waiting:
  assumes inv: "cv_inv n input s" and free: "event_lock (cv_var s) = None" and ev: "is_event_set (cv_var s)"
  shows "\<exists>s'. cv_forward n s s'"
proof -
  note d = cv_invD[OF inv]
  obtain i where i: "i < length (cv_threads s)" "waits (cv_threads s ! i) > 0"
    using d(6) ev tally_pos[of waits "cv_threads s"] by (metis in_set_conv_nth)
  have "\<not> crit (cv_threads s ! i)"
    using d(2)[of i] i(1) free by simp
  then have pc: "cv_pc (cv_threads s ! i) = W_Lock"
    using i(2) by (auto simp: waits_def crit_def split: if_splits)
  have "\<not> main_holds (cv_main s)"
    using d(1) free by simp
  from forward_by_thread[OF i(1) this, of "(cv_threads s ! i)\<lparr>cv_pc := W_Test\<rparr>" "(cv_var s)\<lparr>event_lock := Some (By_Thread i)\<rparr>"]
  show ?thesis
    using pc free ev by (simp add: condvar_wait_def cv_goto_def cv_rank_def mutex_lock_def Let_def)
qed

lemma cv_stuck:
  assumes inv: "cv_inv n input s" and stuck: "\<nexists>s'. cv_forward n s s'"
  shows "cv_ended s"
proof (rule ccontr)
  assume not: "\<not> cv_ended s"
  note d = cv_invD[OF inv]
  have main: "condvar_main n s \<noteq> Some (Inr s') \<or> \<not> cv_work n s' < cv_work n s" for s'
    using forward_by_main[of n s s'] stuck by blast
  have len: "cv_main s \<noteq> V_Create m \<Longrightarrow> length (cv_threads s) \<le> n" for m
    using d(7) by (auto simp: cv_main_ok_def split: cv_main.splits)
  have held: "main_holds (cv_main s) \<Longrightarrow> event_lock (cv_var s) = Some By_Main"
    using d(1) by simp
  have free: "event_lock (cv_var s) = None" if "\<not> main_holds (cv_main s)"
    using d(1) that forward_owner[OF inv] stuck by (metis cv_owner.exhaust not_None_eq)
  note defs = condvar_main_def cv_work_def cv_main_rank_def main_holds_def Let_def
  show False
  proof (cases "cv_main s")
    case (V_Create m)
    then show ?thesis
      using main[of "if m < n then s\<lparr>cv_threads := cv_threads s @ [\<lparr>cv_pc = W_Count, cv_processed = 0\<rparr>], cv_main := V_Create (Suc m)\<rparr>
        else s\<lparr>cv_main := V_Input\<rparr>"] by (auto simp: defs split: if_splits)
  next
    case V_Input
    then show ?thesis
      using main[of "s\<lparr>cv_main := V_Join\<rparr>"] main[of "s\<lparr>cv_main := V_Load, cv_input := tl (cv_input s)\<rparr>"]
      by (cases "cv_input s") (auto simp: defs)
  next
    case V_Load
    then show ?thesis
      using main[of "if wait_count (cv_var s) = 0 then s\<lparr>cv_main := V_Input, cv_missed := Suc (cv_missed s)\<rparr>
        else s\<lparr>cv_main := V_Set, cv_signaled := Suc (cv_signaled s)\<rparr>"] by (auto simp: defs split: if_splits)
  next
    case V_Set
    then show ?thesis
      using main[of "s\<lparr>cv_var := (cv_var s)\<lparr>is_event_set := True\<rparr>, cv_main := V_Unlock\<rparr>"] by (simp add: defs)
  next
    case V_Unlock
    then show ?thesis
      using main[of "s\<lparr>cv_var := (cv_var s)\<lparr>event_lock := None\<rparr>, cv_main := V_Spin\<rparr>"] held len[of 0]
        tally_rank_le[of "is_event_set (cv_var s)" "cv_threads s"] by (simp add: defs mutex_unlock_def)
  next
    case V_Spin
    then show ?thesis
      using main[of "s\<lparr>cv_main := V_Lock\<rparr>"] forward_waiting[OF inv] free stuck
      by (cases "is_event_set (cv_var s)") (simp_all add: defs)
  next
    case V_Lock
    then show ?thesis
      using main[of "s\<lparr>cv_var := (cv_var s)\<lparr>event_lock := Some By_Main\<rparr>, cv_main := V_Reset\<rparr>"] free
      by (simp add: defs mutex_lock_def)
  next
    case V_Reset
    then show ?thesis
      using main[of "s\<lparr>cv_var := (cv_var s)\<lparr>is_event_set := False\<rparr>, cv_main := V_Input\<rparr>"] by (simp add: defs)
  next
    case V_Join
    then show ?thesis using not by (simp add: cv_ended_def)
  qed
qed

interpretation condvar_run: progress "cv_forward n" "cv_inv n input" "cv_work n" cv_ended for n input
proof
  show "cv_inv n input s'" if "cv_inv n input s" "cv_forward n s s'" for s s'
    using that cv_step_inv by (auto simp: cv_forward_def)
  show "cv_work n s' < cv_work n s" if "cv_forward n s s'" for s s'
    using that by (simp add: cv_forward_def)
  show "cv_ended s" if "cv_inv n input s" "\<nexists>s'. cv_forward n s s'" for s
    using that by (rule cv_stuck)
qed

lemma cv_reach: "(cv_step n)\<^sup>*\<^sup>* (cv_init input) s \<Longrightarrow> cv_inv n input s"
  by (induction rule: rtranclp_induct) (auto intro: cv_inv_init cv_step_inv)

lemma no_event_held:
  assumes "cv_inv n input s" "cv_main s = V_Input \<or> cv_main s = V_Join"
  shows "cv_signaled s = tally cv_processed (cv_threads s)"
proof -
  note d = cv_invD[OF assms(1)]
  have held: "event_lock (cv_var s) = Some By_Main"
    using d(1) assms(2) by (auto simp: main_holds_def)
  have "taken t = 0" if "t \<in> set (cv_threads s)" for t
    using that d(2) held by (fastforce simp: in_set_conv_nth taken_def crit_def)
  then have "tally (\<lambda>t. cv_processed t + taken t) (cv_threads s) = tally cv_processed (cv_threads s)"
    by (auto simp: tally_def intro: arg_cong[where f = sum_list])
  then show ?thesis
    using d(5,7) assms(2) by (auto simp: cv_events_def cv_main_ok_def)
qed

text \<open>(C23) Nobody ever unlocks the mutex without holding it. Whenever main comes to the next character, each one that
  it has read was either processed by exactly one thread or answered with "no waiters", and from every reachable state
  the program can go on until the input is used up.\<close>

theorem condvar_no_event_lost:
  assumes "(cv_step n)\<^sup>*\<^sup>* (cv_init input) s"
  shows "(\<forall>who e. cv_proc n s who \<noteq> Some (Inl e)) \<and>
    (cv_main s = V_Input \<or> cv_main s = V_Join \<longrightarrow>
      tally cv_processed (cv_threads s) + cv_missed s + length (cv_input s) = length input) \<and>
    (\<exists>s'. (cv_step n)\<^sup>*\<^sup>* s s' \<and> cv_main s' = V_Join \<and> tally cv_processed (cv_threads s') + cv_missed s' = length input)"
proof -
  have inv: "cv_inv n input s"
    by (rule cv_reach[OF assms])
  have exact: "tally cv_processed (cv_threads s) + cv_missed s + length (cv_input s) = length input"
    if "cv_inv n input s" "cv_main s = V_Input \<or> cv_main s = V_Join" for s
    using cv_invD(8)[OF that(1)] no_event_held[OF that] that(2) by auto
  obtain s' where s': "(cv_forward n)\<^sup>*\<^sup>* s s'" "cv_inv n input s'" "cv_ended s'"
    using condvar_run.can_finish[OF inv] by blast
  have "(cv_step n)\<^sup>*\<^sup>* s s'"
    using s'(1) by (rule rtranclp_mono[THEN predicate2D, rotated]) (auto simp: cv_forward_def)
  moreover have "cv_proc n s who \<noteq> Some (Inl e)" for who e
    using cv_proc_inv[OF inv] by fastforce
  ultimately show ?thesis
    using exact[OF inv] exact[OF s'(2)] s'(3) cv_invD(9)[OF s'(2)] by (auto simp: cv_ended_def)
qed

lemma condvar_no_event_lost_witness:
  "\<exists>s'. (cv_step 10)\<^sup>*\<^sup>* (cv_init ''abc'') s' \<and> cv_main s' = V_Join \<and> tally cv_processed (cv_threads s') + cv_missed s' = 3"
  using condvar_no_event_lost[of 10 "''abc''" "cv_init ''abc''"] by (simp add: numeral_3_eq_3)

section \<open>The simple version loses events\<close>

text \<open>Main alone: all threads are created before the first of them comes to the lock.\<close>

definition sv_idle :: "nat \<Rightarrow> cv_main \<Rightarrow> string \<Rightarrow> nat \<Rightarrow> sv_state" where
  "sv_idle m p input sg =
     \<lparr>sv_var = simple_condvar_create, sv_threads = replicate m \<lparr>cv_pc = W_Lock, cv_processed = 0\<rparr>, sv_main = p, sv_input = input,
      sv_signaled = sg\<rparr>"

lemma sv_main_steps:
  assumes "simple_condvar_main n s = Some (Inr s1)" "(sv_step n)\<^sup>*\<^sup>* s1 s2"
  shows "(sv_step n)\<^sup>*\<^sup>* s s2"
  using sv_step.main[OF assms(1)] assms(2) by (rule converse_rtranclp_into_rtranclp)

lemma sv_create: "m \<le> n \<Longrightarrow> (sv_step n)\<^sup>*\<^sup>* (sv_idle m (V_Create m) input sg) (sv_idle n V_Input input sg)"
proof (induction "n - m" arbitrary: m)
  case 0
  then show ?case
    by (intro sv_main_steps[OF _ rtranclp.rtrancl_refl]) (simp add: simple_condvar_main_def sv_idle_def)
next
  case (Suc k)
  have m: "m < n" and k: "k = n - Suc m" "Suc m \<le> n"
    using Suc.hyps(2) by linarith+
  show ?case
    by (rule sv_main_steps[OF _ Suc.hyps(1)[OF k]]) (use m in \<open>simp add: simple_condvar_main_def sv_idle_def replicate_append_same\<close>)
qed

lemma sv_signal: "(sv_step n)\<^sup>*\<^sup>* (sv_idle n V_Input (c # cs) sg) (sv_idle n V_Input cs (Suc sg))"
proof -
  let ?s = "sv_idle n V_Set cs (Suc sg)" and ?v = simple_condvar_create
  have "simple_condvar_main n (sv_idle n V_Input (c # cs) sg) = Some (Inr ?s)"
    "simple_condvar_main n ?s = Some (Inr (?s\<lparr>sv_var := ?v\<lparr>is_event_set := True\<rparr>, sv_main := V_Unlock\<rparr>))"
    "simple_condvar_main n (?s\<lparr>sv_var := ?v\<lparr>is_event_set := True\<rparr>, sv_main := V_Unlock\<rparr>) =
      Some (Inr (?s\<lparr>sv_var := ?v\<lparr>is_event_set := True, event_lock := None\<rparr>, sv_main := V_Lock\<rparr>))"
    "simple_condvar_main n (?s\<lparr>sv_var := ?v\<lparr>is_event_set := True, event_lock := None\<rparr>, sv_main := V_Lock\<rparr>) =
      Some (Inr (?s\<lparr>sv_var := ?v\<lparr>is_event_set := True, event_lock := Some By_Main\<rparr>, sv_main := V_Reset\<rparr>))"
    "simple_condvar_main n (?s\<lparr>sv_var := ?v\<lparr>is_event_set := True, event_lock := Some By_Main\<rparr>, sv_main := V_Reset\<rparr>) =
      Some (Inr (sv_idle n V_Input cs (Suc sg)))"
    by (simp_all add: simple_condvar_main_def sv_idle_def simple_condvar_create_def mutex_lock_def mutex_unlock_def)
  then show ?thesis
    by (meson rtranclp.rtrancl_refl sv_main_steps)
qed

lemma simple_condvar_loses_events:
  "\<exists>s. (sv_step n)\<^sup>*\<^sup>* (sv_init input) s \<and> sv_main s = V_Join \<and> sv_signaled s = length input \<and> tally cv_processed (sv_threads s) = 0"
proof -
  have all: "(sv_step n)\<^sup>*\<^sup>* (sv_idle n V_Input input sg) (sv_idle n V_Input [] (sg + length input))" for sg
  proof (induction input arbitrary: sg)
    case (Cons c cs)
    from rtranclp_trans[OF sv_signal Cons.IH] show ?case by simp
  qed simp
  have "sv_init input = sv_idle 0 (V_Create 0) input 0"
    by (simp add: sv_init_def sv_idle_def)
  with rtranclp_trans[OF sv_create[of 0 n input 0] all[of 0]]
  have run: "(sv_step n)\<^sup>*\<^sup>* (sv_init input) (sv_idle n V_Input [] (length input))"
    by simp
  have "simple_condvar_main n (sv_idle n V_Input [] (length input)) = Some (Inr (sv_idle n V_Join [] (length input)))"
    by (simp add: simple_condvar_main_def sv_idle_def)
  from rtranclp.rtrancl_into_rtrancl[OF run sv_step.main[OF this]] show ?thesis
    by (intro exI[of _ "sv_idle n V_Join [] (length input)"]) (simp add: sv_idle_def tally_def sum_list_replicate)
qed

text \<open>At the end of the input main holds the mutex for ever, in both programs, and waits for threads that do not end.\<close>

lemma joins_with_lock:
  assumes "(cv_step n)\<^sup>*\<^sup>* (cv_init input) s" "cv_main s = V_Join"
  shows "event_lock (cv_var s) = Some By_Main \<and> condvar_main n s = None"
  using cv_invD(1)[OF cv_reach[OF assms(1)]] assms(2) by (simp add: main_holds_def condvar_main_def Let_def)

end
