(* ===== verification/FileLock.thy ===== *)
theory FileLock
  imports Scan
begin

text \<open>
  The program of src/lecture_examples/9_aio/3_fcntl_lock.c: a shell that writes to a file and sets locks on parts of it.
  Any number of processes run it on one file. A call of the kernel is one step.
\<close>

section \<open>The locks of the kernel\<close>

text \<open>The bytes from the first number up to and without the second one, or without an end.\<close>

type_synonym range = "nat \<times> nat option"

definition before_end :: "nat option \<Rightarrow> nat \<Rightarrow> bool" where
  "before_end e b = (case e of None \<Rightarrow> True | Some e \<Rightarrow> b < e)"

definition in_range :: "range \<Rightarrow> nat \<Rightarrow> bool" where
  "in_range r b \<longleftrightarrow> fst r \<le> b \<and> before_end (snd r) b"

definition overlaps :: "range \<Rightarrow> range \<Rightarrow> bool" where
  "overlaps r r' = (let m = max (fst r) (fst r') in before_end (snd r) m \<and> before_end (snd r') m)"

text \<open>The parts of a range in front of and behind another one.\<close>

definition cut :: "range \<Rightarrow> range \<Rightarrow> range list" where
  "cut r r' =
     filter (\<lambda>r. before_end (snd r) (fst r))
       ((fst r, Some (case snd r of None \<Rightarrow> fst r' | Some e \<Rightarrow> min e (fst r'))) #
        (case snd r' of None \<Rightarrow> [] | Some e' \<Rightarrow> [(max (fst r) e', snd r)]))"

datatype lock_type = F_RDLCK | F_WRLCK | F_UNLCK

datatype whence = SEEK_SET | SEEK_CUR | SEEK_END

record flock =
  l_pid :: nat
  l_type :: lock_type
  l_range :: range

text \<open>The range of a call, from the position in the file and its size; \<open>None\<close> (\<open>EINVAL\<close>) when it starts in front of the file.\<close>

definition lock_range :: "nat \<Rightarrow> nat \<Rightarrow> whence \<Rightarrow> int \<Rightarrow> int \<Rightarrow> range option" where
  "lock_range pos sz whence start len =
     (let s = start + (case whence of SEEK_SET \<Rightarrow> 0 | SEEK_CUR \<Rightarrow> int pos | SEEK_END \<Rightarrow> int sz);
          lo = (if len < 0 then s + len else s)
      in if lo < 0 then None
         else Some (nat lo, if len = 0 then None else Some (nat (if len < 0 then s else s + len))))"

text \<open>The lock of another process that keeps \<open>pid\<close> from its lock, if there is one.\<close>

definition conflicts :: "nat \<Rightarrow> lock_type \<Rightarrow> range \<Rightarrow> flock \<Rightarrow> bool" where
  "conflicts pid type r l \<longleftrightarrow> type \<noteq> F_UNLCK \<and> l_pid l \<noteq> pid \<and> overlaps (l_range l) r \<and> (type = F_WRLCK \<or> l_type l = F_WRLCK)"

definition blocker :: "nat \<Rightarrow> lock_type \<Rightarrow> range \<Rightarrow> flock list \<Rightarrow> flock option" where
  "blocker pid type r locks = find (conflicts pid type r) locks"

text \<open>A new lock replaces what the process had on the same bytes.\<close>

definition put_lock :: "nat \<Rightarrow> lock_type \<Rightarrow> range \<Rightarrow> flock list \<Rightarrow> flock list" where
  "put_lock pid type r locks =
     concat (map (\<lambda>l. if l_pid l = pid then map (\<lambda>p. l\<lparr>l_range := p\<rparr>) (cut (l_range l) r) else [l]) locks) @
     (if type = F_UNLCK then [] else [\<lparr>l_pid = pid, l_type = type, l_range = r\<rparr>])"

record lock_file =
  f_data :: string
  f_locks :: "flock list"

section \<open>The process\<close>

datatype fl_out = FO_Ok | FO_Error | FO_Unknown | FO_Args char char int int | FO_Free | FO_Held nat

text \<open>
  A process is at \<open>getline\<close>, in the loop of \<open>write_symbols\<close> with the number of characters that are left, asleep in
  \<open>F_SETLKW\<close>, or has returned.
\<close>

datatype fl_pc = FL_Loop | FL_Write char nat | FL_Asleep lock_type range | FL_Exit

record fl_proc =
  fl_pc :: fl_pc
  fl_pos :: nat
  fl_input :: "string list"
  fl_out :: "fl_out list"

definition fl_start :: "string list \<Rightarrow> fl_proc" where
  "fl_start input = \<lparr>fl_pc = FL_Loop, fl_pos = 0, fl_input = input, fl_out = []\<rparr>"

definition fl_print :: "fl_out \<Rightarrow> fl_proc \<Rightarrow> fl_proc" where
  "fl_print x p = p\<lparr>fl_out := fl_out p @ [x]\<rparr>"

text \<open>The end of a round with the value \<open>rc\<close>; \<open>False\<close> is \<open>-1\<close>.\<close>

definition fl_rc :: "bool \<Rightarrow> fl_proc \<Rightarrow> fl_proc" where
  "fl_rc ok p = (fl_print (if ok then FO_Ok else FO_Error) p)\<lparr>fl_pc := FL_Loop\<rparr>"

definition char_to_whence :: "char \<Rightarrow> whence" where
  "char_to_whence whence = (if whence = CHR ''s'' then SEEK_SET else if whence = CHR ''e'' then SEEK_END else SEEK_CUR)"

definition char_to_type :: "char \<Rightarrow> lock_type" where
  "char_to_type type = (if type = CHR ''r'' then F_RDLCK else if type = CHR ''w'' then F_WRLCK else F_UNLCK)"

text \<open>\<open>sscanf(cmd, "%d %c", &n, &c)\<close>: the variables that it does not set stay uninitialised.\<close>

definition scan_write :: "string \<Rightarrow> int option \<times> char option" where
  "scan_write cmd =
     (case scan_d cmd of
        None \<Rightarrow> (None, None)
      | Some (n, rest) \<Rightarrow> (Some n, map_option fst (scan_c (skip_spaces rest))))"

definition write_symbols :: "string \<Rightarrow> fl_proc \<Rightarrow> fl_proc cres" where
  "write_symbols cmd p =
     (case scan_write cmd of
        (None, _) \<Rightarrow> Inl UninitRead
      | (Some n, c) \<Rightarrow>
          if n \<le> 0 then Inr (fl_rc True p)
          else (case c of None \<Rightarrow> Inl UninitRead | Some c \<Rightarrow> Inr (p\<lparr>fl_pc := FL_Write c (nat n)\<rparr>)))"

text \<open>\<open>sscanf(cmd, "%c %c %d %d", &type, &whence, &start, &len)\<close>, all four of which are printed.\<close>

definition scan_lock :: "string \<Rightarrow> (char \<times> char \<times> int \<times> int) cres" where
  "scan_lock cmd =
     (case scan_c cmd of None \<Rightarrow> Inl UninitRead | Some (type, cmd) \<Rightarrow>
     (case scan_c (skip_spaces cmd) of None \<Rightarrow> Inl UninitRead | Some (whence, cmd) \<Rightarrow>
     (case scan_d cmd of None \<Rightarrow> Inl UninitRead | Some (start, cmd) \<Rightarrow>
     (case scan_d cmd of None \<Rightarrow> Inl UninitRead | Some (len, cmd) \<Rightarrow> Inr (type, whence, start, len)))))"

text \<open>
  \<open>fcntl\<close> with \<open>F_SETLK\<close>, or \<open>F_SETLKW\<close> when it may block. The kernel can refuse any call (\<open>fails\<close>), for instance
  one that would wait in a circle.
\<close>

definition set_lock :: "bool \<Rightarrow> nat \<Rightarrow> bool \<Rightarrow> lock_type \<Rightarrow> range option \<Rightarrow> lock_file \<Rightarrow> fl_proc \<Rightarrow> lock_file \<times> fl_proc" where
  "set_lock fails i block type region f p =
     (case region of
        None \<Rightarrow> (f, fl_rc False p)
      | Some r \<Rightarrow>
          if fails then (f, fl_rc False p)
          else if blocker i type r (f_locks f) = None then (f\<lparr>f_locks := put_lock i type r (f_locks f)\<rparr>, fl_rc True p)
          else if block then (f, p\<lparr>fl_pc := FL_Asleep type r\<rparr>)
          else (f, fl_rc False p))"

definition do_lock :: "bool \<Rightarrow> nat \<Rightarrow> bool \<Rightarrow> string \<Rightarrow> lock_file \<Rightarrow> fl_proc \<Rightarrow> (lock_file \<times> fl_proc) cres" where
  "do_lock fails i block cmd f p =
     rbind (scan_lock cmd) (\<lambda>(type, whence, start, len).
       Inr (set_lock fails i block (char_to_type type)
              (lock_range (fl_pos p) (length (f_data f)) (char_to_whence whence) start len) f
              (fl_print (FO_Args type whence start len) p)))"

text \<open>\<open>F_GETLK\<close> takes no \<open>F_UNLCK\<close>.\<close>

definition get_lock :: "bool \<Rightarrow> nat \<Rightarrow> string \<Rightarrow> lock_file \<Rightarrow> fl_proc \<Rightarrow> (lock_file \<times> fl_proc) cres" where
  "get_lock fails i cmd f p =
     rbind (scan_lock cmd) (\<lambda>(type, whence, start, len).
       let p = fl_print (FO_Args type whence start len) p
       in case lock_range (fl_pos p) (length (f_data f)) (char_to_whence whence) start len of
            None \<Rightarrow> Inr (f, fl_rc False p)
          | Some r \<Rightarrow>
              if fails \<or> char_to_type type = F_UNLCK then Inr (f, fl_rc False p)
              else Inr (f, fl_rc True (fl_print
                (case blocker i (char_to_type type) r (f_locks f) of None \<Rightarrow> FO_Free | Some l \<Rightarrow> FO_Held (l_pid l)) p)))"

text \<open>\<open>strsep(&line, " \n")\<close>: the text in front of the first delimiter, and what is behind it, or \<open>NULL\<close>.\<close>

definition strsep :: "string \<Rightarrow> string \<times> string option" where
  "strsep line =
     (case dropWhile (\<lambda>c. c \<noteq> ch_space \<and> c \<noteq> ch_nl) line of
        [] \<Rightarrow> (line, None)
      | _ # rest \<Rightarrow> (takeWhile (\<lambda>c. c \<noteq> ch_space \<and> c \<noteq> ch_nl) line, Some rest))"

text \<open>A round of the loop; \<open>sscanf\<close> of \<open>NULL\<close> is an error.\<close>

definition fl_line :: "bool \<Rightarrow> nat \<Rightarrow> string \<Rightarrow> lock_file \<Rightarrow> fl_proc \<Rightarrow> (lock_file \<times> fl_proc) cres" where
  "fl_line fails i line f p =
     (let (cmd, args) = strsep line
      in if cmd \<notin> {''write'', ''lock'', ''lockb'', ''getlock''} then Inr (f, fl_print FO_Unknown p)
         else case args of
                None \<Rightarrow> Inl NullDeref
              | Some args \<Rightarrow>
                  if cmd = ''write'' then rbind (write_symbols args p) (\<lambda>p. Inr (f, p))
                  else if cmd = ''lock'' then do_lock fails i False args f p
                  else if cmd = ''lockb'' then do_lock fails i True args f p
                  else get_lock fails i args f p)"

text \<open>The exit of a process releases its locks.\<close>

definition fl_step :: "bool \<Rightarrow> nat \<Rightarrow> lock_file \<Rightarrow> fl_proc \<Rightarrow> (lock_file \<times> fl_proc) cres option" where
  "fl_step fails i f p =
     (case fl_pc p of
        FL_Loop \<Rightarrow>
          (case fl_input p of
             [] \<Rightarrow> Some (Inr (f\<lparr>f_locks := filter (\<lambda>l. l_pid l \<noteq> i) (f_locks f)\<rparr>, p\<lparr>fl_pc := FL_Exit\<rparr>))
           | l # ls \<Rightarrow>
               Some (if c_str l = [] then Inl OutOfBounds
                     else fl_line fails i (butlast (c_str l)) f (p\<lparr>fl_input := ls\<rparr>)))
      | FL_Write c n \<Rightarrow>
          Some (Inr (if n = 0 then (f, fl_rc True p)
                     else if fails then (f, fl_rc False p)
                     else (f\<lparr>f_data := mem_write (f_data f) (fl_pos p) [c]\<rparr>, p\<lparr>fl_pc := FL_Write c (n - 1), fl_pos := fl_pos p + 1\<rparr>)))
      | FL_Asleep type r \<Rightarrow>
          if fails then Some (Inr (f, fl_rc False p))
          else if blocker i type r (f_locks f) = None
          then Some (Inr (f\<lparr>f_locks := put_lock i type r (f_locks f)\<rparr>, fl_rc True p))
          else None
      | FL_Exit \<Rightarrow> None)"

inductive fls_step :: "lock_file \<times> fl_proc list \<Rightarrow> lock_file \<times> fl_proc list \<Rightarrow> bool" where
  "i < length ps \<Longrightarrow> fl_step fails i f (ps ! i) = Some (Inr (f', p)) \<Longrightarrow> fls_step (f, ps) (f', ps[i := p])"

end
