(* ===== verification/FileLock_Spec.thy ===== *)
theory FileLock_Spec
  imports FileLock
begin

text \<open>
  The locks of the kernel as a map from bytes: a call changes it exactly on its range, two processes never hold
  conflicting locks, and a command sets the lock that its text names.
\<close>

section \<open>Ranges\<close>

lemma overlaps_iff: "overlaps r r' \<longleftrightarrow> (\<exists>b. in_range r b \<and> in_range r' b)"
proof
  assume "overlaps r r'"
  then show "\<exists>b. in_range r b \<and> in_range r' b"
    by (intro exI[of _ "max (fst r) (fst r')"]) (simp add: overlaps_def in_range_def Let_def)
next
  assume "\<exists>b. in_range r b \<and> in_range r' b"
  then show "overlaps r r'"
    by (auto simp: overlaps_def in_range_def before_end_def Let_def split: option.splits)
qed

text \<open>The parts that \<open>cut\<close> leaves are the rest of the range.\<close>

lemma cut_bytes: "(\<exists>p \<in> set (cut r r'). in_range p b) \<longleftrightarrow> in_range r b \<and> \<not> in_range r' b"
  by (cases r; cases r') (auto simp: cut_def in_range_def before_end_def split: option.splits)

section \<open>The locks as a map from bytes\<close>

definition lock_at :: "flock list \<Rightarrow> nat \<Rightarrow> nat \<Rightarrow> lock_type option" where
  "lock_at locks pid b = map_option l_type (find (\<lambda>l. l_pid l = pid \<and> in_range (l_range l) b) locks)"

lemma find_append: "find P (xs @ ys) = (case find P xs of None \<Rightarrow> find P ys | Some x \<Rightarrow> Some x)"
  by (induction xs) auto

lemma lock_at_simps:
  "lock_at [] pid b = None"
  "lock_at (l # ls) pid b = (if l_pid l = pid \<and> in_range (l_range l) b then Some (l_type l) else lock_at ls pid b)"
  by (simp_all add: lock_at_def)

lemma lock_at_append: "lock_at (ls @ ls') pid b = (case lock_at ls pid b of None \<Rightarrow> lock_at ls' pid b | Some t \<Rightarrow> Some t)"
  by (induction ls) (simp_all add: lock_at_simps)

lemma lock_at_parts:
  "lock_at (map (\<lambda>p. l\<lparr>l_range := p\<rparr>) ps) pid b = (if l_pid l = pid \<and> (\<exists>p \<in> set ps. in_range p b) then Some (l_type l) else None)"
  by (induction ps) (auto simp: lock_at_simps)

lemma lock_at_cut:
  "lock_at (concat (map (\<lambda>l. if l_pid l = i then map (\<lambda>p. l\<lparr>l_range := p\<rparr>) (cut (l_range l) r) else [l]) ls)) pid b =
     (if pid = i \<and> in_range r b then None else lock_at ls pid b)"
  by (induction ls) (auto simp: lock_at_simps lock_at_append lock_at_parts cut_bytes)

lemma lock_at_put:
  "lock_at (put_lock i type r ls) pid b =
     (if pid = i \<and> in_range r b then (if type = F_UNLCK then None else Some type) else lock_at ls pid b)"
  by (auto simp: put_lock_def lock_at_append lock_at_cut lock_at_simps split: option.splits)

text \<open>Each process has at most one lock on a byte, and none of them is an unlock.\<close>

definition well_kept :: "flock list \<Rightarrow> bool" where
  "well_kept ls \<longleftrightarrow> (\<forall>l \<in> set ls. l_type l \<noteq> F_UNLCK) \<and> (\<forall>l \<in> set ls. \<forall>b. in_range (l_range l) b \<longrightarrow> lock_at ls (l_pid l) b = Some (l_type l))"

lemma lock_at_Some: "lock_at ls pid b = Some t \<Longrightarrow> \<exists>l \<in> set ls. l_pid l = pid \<and> in_range (l_range l) b \<and> l_type l = t"
  by (auto simp: lock_at_def find_Some_iff)

lemma put_lock_set:
  assumes "l \<in> set (put_lock i type r ls)"
  shows "(l = \<lparr>l_pid = i, l_type = type, l_range = r\<rparr> \<and> type \<noteq> F_UNLCK) \<or>
    (\<exists>k \<in> set ls. l_pid l = l_pid k \<and> l_type l = l_type k \<and>
      (\<forall>b. in_range (l_range l) b \<longrightarrow> in_range (l_range k) b \<and> \<not> (l_pid k = i \<and> in_range r b)))"
proof -
  have cut: "in_range (l_range k) b \<and> \<not> in_range r b" if "p \<in> set (cut (l_range k) r)" "in_range p b" for k p b
    using cut_bytes[of "l_range k" r b] that by blast
  from assms consider "l = \<lparr>l_pid = i, l_type = type, l_range = r\<rparr>" "type \<noteq> F_UNLCK"
    | k p where "k \<in> set ls" "l_pid k = i" "l = k\<lparr>l_range := p\<rparr>" "p \<in> set (cut (l_range k) r)"
    | "l \<in> set ls" "l_pid l \<noteq> i"
    by (auto simp: put_lock_def split: if_splits)
  then show ?thesis
  proof cases
    case 2
    then show ?thesis
      using cut[of _ k] by (intro disjI2 bexI[of _ k]) auto
  qed auto
qed

lemma put_lock_well_kept: "well_kept ls \<Longrightarrow> well_kept (put_lock i type r ls)"
  unfolding well_kept_def
proof (intro conjI ballI allI impI)
  assume ls: "(\<forall>l \<in> set ls. l_type l \<noteq> F_UNLCK) \<and> (\<forall>l \<in> set ls. \<forall>b. in_range (l_range l) b \<longrightarrow> lock_at ls (l_pid l) b = Some (l_type l))"
  fix l assume l: "l \<in> set (put_lock i type r ls)"
  show "l_type l \<noteq> F_UNLCK"
    using put_lock_set[OF l] ls by auto
  show "lock_at (put_lock i type r ls) (l_pid l) b = Some (l_type l)" if "in_range (l_range l) b" for b
    using put_lock_set[OF l] ls that by (fastforce simp: lock_at_put)
qed

text \<open>The call is refused exactly when another process has a conflicting lock on a byte of the range.\<close>

definition conflict_at :: "(nat \<Rightarrow> nat \<Rightarrow> lock_type option) \<Rightarrow> nat \<Rightarrow> lock_type \<Rightarrow> nat \<Rightarrow> bool" where
  "conflict_at m i type b \<longleftrightarrow>
     type \<noteq> F_UNLCK \<and> (\<exists>pid t. pid \<noteq> i \<and> m pid b = Some t \<and> (type = F_WRLCK \<or> t = F_WRLCK))"

lemma blocker_iff:
  assumes "well_kept ls"
  shows "blocker i type r ls = None \<longleftrightarrow> (\<forall>b. in_range r b \<longrightarrow> \<not> conflict_at (lock_at ls) i type b)"
proof -
  have "(\<exists>l \<in> set ls. conflicts i type r l) \<longleftrightarrow> (\<exists>b. in_range r b \<and> conflict_at (lock_at ls) i type b)"
  proof
    assume "\<exists>l \<in> set ls. conflicts i type r l"
    then show "\<exists>b. in_range r b \<and> conflict_at (lock_at ls) i type b"
      using assms by (fastforce simp: conflicts_def overlaps_iff conflict_at_def well_kept_def)
  next
    assume "\<exists>b. in_range r b \<and> conflict_at (lock_at ls) i type b"
    then show "\<exists>l \<in> set ls. conflicts i type r l"
      unfolding conflict_at_def conflicts_def overlaps_iff by (metis lock_at_Some)
  qed
  then show ?thesis
    by (auto simp: blocker_def find_None_iff)
qed

text \<open>Two processes hold a byte together only for reading.\<close>

definition exclusive :: "flock list \<Rightarrow> bool" where
  "exclusive ls \<longleftrightarrow> (\<forall>i j b t u. i \<noteq> j \<longrightarrow> lock_at ls i b = Some t \<longrightarrow> lock_at ls j b = Some u \<longrightarrow> t = F_RDLCK \<and> u = F_RDLCK)"

lemma put_lock_exclusive:
  assumes "well_kept ls" "exclusive ls" "blocker i type r ls = None"
  shows "exclusive (put_lock i type r ls)"
proof -
  have no: "\<not> conflict_at (lock_at ls) i type b" if "in_range r b" for b
    using assms(1,3) blocker_iff that by blast
  have "t \<noteq> F_UNLCK" if "lock_at ls j b = Some t" for j b t
    using assms(1) lock_at_Some[OF that] by (auto simp: well_kept_def)
  then have reads: "type = F_RDLCK \<and> t = F_RDLCK"
    if "in_range r b" "type \<noteq> F_UNLCK" "j \<noteq> i" "lock_at ls j b = Some t" for b j t
    using no[OF that(1)] that by (metis conflict_at_def lock_type.exhaust)
  show ?thesis
    unfolding exclusive_def lock_at_put
    using assms(2) reads by (auto simp: exclusive_def split: if_splits)
qed

lemma lock_at_exit: "lock_at (filter (\<lambda>l. l_pid l \<noteq> i) ls) pid b = (if pid = i then None else lock_at ls pid b)"
  by (induction ls) (auto simp: lock_at_simps)

lemma exit_kept: "well_kept ls \<Longrightarrow> well_kept (filter (\<lambda>l. l_pid l \<noteq> i) ls)" "exclusive ls \<Longrightarrow> exclusive (filter (\<lambda>l. l_pid l \<noteq> i) ls)"
  by (auto simp: well_kept_def exclusive_def lock_at_exit)

section \<open>Every interleaving\<close>

definition fls_inv :: "lock_file \<times> fl_proc list \<Rightarrow> bool" where
  "fls_inv s \<longleftrightarrow> well_kept (f_locks (fst s)) \<and> exclusive (f_locks (fst s)) \<and>
     (\<forall>l \<in> set (f_locks (fst s)). l_pid l < length (snd s) \<and> fl_pc (snd s ! l_pid l) \<noteq> FL_Exit)"

lemma fl_rc_pc [simp]: "fl_pc (fl_rc ok p) = FL_Loop"
  by (simp add: fl_rc_def)

text \<open>What a step does with the locks.\<close>

definition locks_step :: "nat \<Rightarrow> flock list \<Rightarrow> flock list \<Rightarrow> fl_proc \<Rightarrow> bool" where
  "locks_step i ls ls' p \<longleftrightarrow>
     ls' = ls \<and> fl_pc p \<noteq> FL_Exit \<or>
     (\<exists>type r. blocker i type r ls = None \<and> ls' = put_lock i type r ls) \<and> fl_pc p \<noteq> FL_Exit \<or>
     ls' = filter (\<lambda>l. l_pid l \<noteq> i) ls"

lemma locks_stepI:
  "fl_pc p \<noteq> FL_Exit \<Longrightarrow> locks_step i ls ls p"
  "blocker i type r ls = None \<Longrightarrow> fl_pc p \<noteq> FL_Exit \<Longrightarrow> locks_step i ls (put_lock i type r ls) p"
  "locks_step i ls (filter (\<lambda>l. l_pid l \<noteq> i) ls) p"
  unfolding locks_step_def by blast+

lemma set_lock_locks:
  assumes "set_lock fails i block type region f p = (f', p')"
  shows "locks_step i (f_locks f) (f_locks f') p'"
proof (cases region)
  case (Some r)
  then show ?thesis
    using assms locks_stepI(2)[of i type r "f_locks f" "fl_rc True p"] by (auto simp: set_lock_def intro: locks_stepI split: if_splits)
qed (use assms in \<open>auto simp: set_lock_def intro: locks_stepI\<close>)

lemma do_lock_locks: "do_lock fails i block cmd f p = Inr (f', p') \<Longrightarrow> locks_step i (f_locks f) (f_locks f') p'"
  by (auto simp: do_lock_def res_simps split: prod.splits dest: set_lock_locks)

lemma get_lock_locks:
  assumes "get_lock fails i cmd f p = Inr (f', p')"
  shows "locks_step i (f_locks f) (f_locks f') p'"
proof -
  obtain type wh start len where a: "scan_lock cmd = Inr (type, wh, start, len)"
    using assms by (cases "scan_lock cmd") (auto simp: get_lock_def)
  have "f' = f \<and> fl_pc p' = FL_Loop"
    using assms by (auto simp: get_lock_def a Let_def split: option.splits if_splits)
  then show ?thesis
    by (auto intro: locks_stepI)
qed

lemma write_symbols_pc: "write_symbols cmd p = Inr p' \<Longrightarrow> fl_pc p' \<noteq> FL_Exit"
  by (auto simp: write_symbols_def split: prod.splits option.splits if_splits)

lemma fl_line_locks:
  assumes "fl_line fails i line f p = Inr (f', p')" "fl_pc p = FL_Loop"
  shows "locks_step i (f_locks f) (f_locks f') p'"
proof -
  obtain cmd args where c: "strsep line = (cmd, args)" by (cases "strsep line")
  show ?thesis
  proof (cases "cmd \<in> {''write'', ''lock'', ''lockb'', ''getlock''}")
    case False
    then show ?thesis
      using assms by (auto simp: fl_line_def c locks_step_def fl_print_def)
  next
    case True
    then obtain a where a: "args = Some a"
      using assms(1) by (cases args) (auto simp: fl_line_def c)
    show ?thesis
    proof (cases "cmd = ''write''")
      case True
      then show ?thesis
        using assms(1) write_symbols_pc by (auto simp: fl_line_def c a locks_step_def res_simps)
    next
      case False
      with True assms(1) have "do_lock fails i False a f p = Inr (f', p') \<or> do_lock fails i True a f p = Inr (f', p') \<or>
          get_lock fails i a f p = Inr (f', p')"
        by (auto simp: fl_line_def c a split: if_splits)
      then show ?thesis
        using do_lock_locks get_lock_locks by blast
    qed
  qed
qed

lemma fl_step_locks:
  assumes "fl_step fails i f p = Some (Inr (f', p'))"
  shows "locks_step i (f_locks f) (f_locks f') p'"
proof (cases "fl_pc p")
  case FL_Loop
  show ?thesis
  proof (cases "fl_input p")
    case Nil
    then show ?thesis
      using assms FL_Loop by (auto simp: fl_step_def locks_step_def)
  next
    case (Cons l ls)
    then have "fl_line fails i (butlast (c_str l)) f (p\<lparr>fl_input := ls\<rparr>) = Inr (f', p')"
      using assms FL_Loop by (simp add: fl_step_def split: if_splits)
    from fl_line_locks[OF this] FL_Loop show ?thesis by simp
  qed
next
  case (FL_Write c n)
  then show ?thesis
    using assms by (auto simp: fl_step_def locks_step_def split: if_splits)
next
  case (FL_Asleep type r)
  then show ?thesis
    using assms locks_stepI(2)[of i type r "f_locks f" "fl_rc True p"] by (auto simp: fl_step_def intro: locks_stepI split: if_splits)
qed (use assms in \<open>simp add: fl_step_def\<close>)

lemma fls_step_inv:
  assumes "fls_inv s" "fls_step s s'"
  shows "fls_inv s'"
  using assms(2)
proof cases
  case (1 i ps fails f f' p)
  have inv: "well_kept (f_locks f)" "exclusive (f_locks f)" "\<And>l. l \<in> set (f_locks f) \<Longrightarrow> l_pid l < length ps \<and> fl_pc (ps ! l_pid l) \<noteq> FL_Exit"
    using assms(1) 1(1) by (simp_all add: fls_inv_def)
  have "locks_step i (f_locks f) (f_locks f') p"
    by (rule fl_step_locks[OF 1(4)])
  then consider "f_locks f' = f_locks f" "fl_pc p \<noteq> FL_Exit"
    | type r where "blocker i type r (f_locks f) = None" "f_locks f' = put_lock i type r (f_locks f)" "fl_pc p \<noteq> FL_Exit"
    | "f_locks f' = filter (\<lambda>l. l_pid l \<noteq> i) (f_locks f)"
    by (auto simp: locks_step_def)
  then show ?thesis
  proof cases
    case a: 1
    then show ?thesis
      using inv 1(2,3) by (auto simp: fls_inv_def nth_list_update)
  next
    case (2 type r)
    have "l_pid l < length ps \<and> fl_pc (ps[i := p] ! l_pid l) \<noteq> FL_Exit" if "l \<in> set (put_lock i type r (f_locks f))" for l
      using put_lock_set[OF that] inv(3) 1(3) 2(3) by (auto simp: nth_list_update)
    then show ?thesis
      using put_lock_well_kept[OF inv(1)] put_lock_exclusive[OF inv(1,2) 2(1)] 2(2) 1(2) by (simp add: fls_inv_def)
  next
    case 3
    then show ?thesis
      using inv exit_kept(1)[OF inv(1)] exit_kept(2)[OF inv(2)] 1(2) by (auto simp: fls_inv_def)
  qed
qed


section \<open>A command\<close>

text \<open>The line of a lock command.\<close>

definition lock_line :: "string \<Rightarrow> char \<Rightarrow> char \<Rightarrow> int \<Rightarrow> int \<Rightarrow> string" where
  "lock_line cmd type wh start len = cmd @ '' '' @ [type] @ '' '' @ [wh] @ '' '' @ show_int start @ '' '' @ show_int len @ [ch_nl]"

text \<open>What the command means for the map of the locks, and its outcome; \<open>None\<close> waits.\<close>

definition lock_spec :: "bool \<Rightarrow> nat \<Rightarrow> bool \<Rightarrow> lock_type \<Rightarrow> range option \<Rightarrow> (nat \<Rightarrow> nat \<Rightarrow> lock_type option) \<Rightarrow>
    (nat \<Rightarrow> nat \<Rightarrow> lock_type option) \<times> bool option" where
  "lock_spec fails i block type region m =
     (case region of
        None \<Rightarrow> (m, Some False)
      | Some r \<Rightarrow>
          if fails then (m, Some False)
          else if \<forall>b. in_range r b \<longrightarrow> \<not> conflict_at m i type b
          then (\<lambda>pid b. if pid = i \<and> in_range r b then (if type = F_UNLCK then None else Some type) else m pid b, Some True)
          else (m, if block then None else Some False))"

definition outcome :: "bool option \<Rightarrow> fl_out list" where
  "outcome rc = (case rc of None \<Rightarrow> [] | Some ok \<Rightarrow> [if ok then FO_Ok else FO_Error])"

lemma show_int_digits: "show_int n \<noteq> []" "c \<in> set (show_int n) \<Longrightarrow> isdigit c \<or> c = CHR ''-''"
proof -
  show "show_int n \<noteq> []"
    using show_nat_digits(1) by (simp add: show_int_def)
  show "c \<in> set (show_int n) \<Longrightarrow> isdigit c \<or> c = CHR ''-''"
    using show_nat_digits(2) by (auto simp: show_int_def list_all_iff split: if_splits)
qed

lemma show_int_no_nul: "ch_nul \<notin> set (show_int n)"
  using show_int_digits(2)[of ch_nul n] by (auto simp: isdigit_def)

lemma scan_lock_line:
  assumes "\<not> isspace wh" "- (2 ^ 31) \<le> start" "start < 2 ^ 31" "- (2 ^ 31) \<le> len" "len < 2 ^ 31"
  shows "scan_lock ([type] @ '' '' @ [wh] @ '' '' @ show_int start @ '' '' @ show_int len) = Inr (type, wh, start, len)"
proof -
  have 1: "scan_d ('' '' @ show_int start @ '' '' @ show_int len) = Some (start, '' '' @ show_int len)"
    by (rule scan_show_int) (use assms in \<open>simp_all add: isspace_def isdigit_def\<close>)
  have 2: "scan_d ('' '' @ show_int len @ []) = Some (len, [])"
    by (rule scan_show_int) (use assms in \<open>simp_all add: isspace_def\<close>)
  have 3: "skip_spaces ('' '' @ wh # rest) = wh # rest" for rest
    using assms(1) by (simp add: skip_spaces_def isspace_def)
  show ?thesis
    using 1 2 3 by (simp add: scan_lock_def)
qed

lemma strsep_command:
  assumes "ch_space \<notin> set cmd" "ch_nl \<notin> set cmd"
  shows "strsep (cmd @ ch_space # args) = (cmd, Some args)"
proof -
  have "takeWhile (\<lambda>c. c \<noteq> ch_space \<and> c \<noteq> ch_nl) (cmd @ ch_space # args) = cmd"
    "dropWhile (\<lambda>c. c \<noteq> ch_space \<and> c \<noteq> ch_nl) (cmd @ ch_space # args) = ch_space # args"
    using assms by (induction cmd) auto
  then show ?thesis
    by (simp add: strsep_def)
qed


section \<open>Examples\<close>

definition locked_file :: lock_file where
  "locked_file = \<lparr>f_data = '''', f_locks = [\<lparr>l_pid = 0, l_type = F_WRLCK, l_range = (0, Some 5)\<rparr>]\<rparr>"

definition first_locker :: fl_proc where
  "first_locker = \<lparr>fl_pc = FL_Loop, fl_pos = 0, fl_input = [], fl_out = [FO_Args CHR ''w'' CHR ''s'' 0 5, FO_Ok]\<rparr>"

lemma first_lock:
  "fl_step False 0 \<lparr>f_data = '''', f_locks = []\<rparr> (fl_start [lock_line ''lock'' CHR ''w'' CHR ''s'' 0 5]) = Some (Inr (locked_file, first_locker))"
  by code_simp



end
