(* ===== verification/MsgTypes.thy ===== *)
theory MsgTypes
  imports SemEvents
begin

text \<open>
  The programs of src/lecture_examples/7_ipc/7_msgsend_client.c, 7_msgsend_server.c and 7_msgsend_server_flag.c: the
  client puts three messages on a queue, and the server takes them out by their types. The functions that pack and
  unpack a message are those of SemEvents. A call of the kernel is one step.
\<close>

section \<open>The choice of a message\<close>

text \<open>
  \<open>msgrcv\<close> takes the first message for the type 0, the first one of a positive type, and for a negative type the first
  one of the lowest type that is not above its absolute value.
\<close>

definition msg_select :: "int \<Rightarrow> (nat \<times> char list) list \<Rightarrow> ((nat \<times> char list) \<times> (nat \<times> char list) list) option" where
  "msg_select type q =
     (if type = 0 then (case q of [] \<Rightarrow> None | m # q \<Rightarrow> Some (m, q))
      else if type > 0 then take_first (nat type) q
      else (case filter (\<lambda>t. int t \<le> - type) (map fst q) of
              [] \<Rightarrow> None
            | t # ts \<Rightarrow> take_first (fold min ts t) q))"

text \<open>What is printed: the type, the size and the string; \<open>None\<close> when no message fits.\<close>

definition recv_typed :: "char list \<Rightarrow> (nat \<times> char list) list \<Rightarrow> int \<Rightarrow> ((nat \<times> nat \<times> string) \<times> (nat \<times> char list) list) cres option" where
  "recv_typed msg q type =
     map_option (\<lambda>((t, text), q).
       if 8 + length text \<le> length msg
       then (case unpack_msg (mem_write (mem_write msg 0 (long_bytes t)) 8 text) of
               (t, sz, data) \<Rightarrow> if ch_nul \<in> set data then Inr ((t, sz, c_str data), q) else Inl OutOfBounds)
       else Inl OutOfBounds) (msg_select type q)"

section \<open>The programs\<close>

text \<open>The server before \<open>msgget\<close>, in the loop of \<open>IPC_STAT\<close>, before the calls of \<open>recv_msg\<close> that are left, and at its end.\<close>

datatype mq_server = Q_Get | Q_Stat | Q_Recv "int list" | Q_Exit int

text \<open>The client before \<open>msgget\<close>, and with the messages it has still to send; \<open>True\<close> when it has a queue.\<close>

datatype mq_client = K_Get | K_Send bool "(nat \<times> string) list"

record mq_state =
  mq_queue :: "(nat \<times> char list) list option"
  mq_server :: mq_server
  mq_client :: mq_client
  mq_printed :: "(nat \<times> nat \<times> string) list"

definition mq_init :: mq_state where
  "mq_init = \<lparr>mq_queue = None, mq_server = Q_Get, mq_client = K_Get, mq_printed = []\<rparr>"

definition client_texts :: "(nat \<times> string) list" where
  "client_texts = [(100, ''hello, world''), (50, ''hello, world of type 50''), (60, ''hello, world of type 60'')]"

text \<open>
  \<open>send_msg\<close> with the terminator of the text. Without a queue \<open>msgsnd\<close> fails, which is not tested. The three messages
  fit into the queue, so that the client never waits.
\<close>

definition mq_client_main :: "char list \<Rightarrow> mq_state \<Rightarrow> mq_state cres option" where
  "mq_client_main msg s =
     (case mq_client s of
        K_Get \<Rightarrow> Some (Inr (s\<lparr>mq_client := K_Send (mq_queue s \<noteq> None) client_texts\<rparr>))
      | K_Send connected [] \<Rightarrow> None
      | K_Send connected ((type, text) # rest) \<Rightarrow>
          Some (rbind (send_msg msg type (text @ [ch_nul])) (\<lambda>m.
            Inr (s\<lparr>mq_client := K_Send connected rest,
                   mq_queue := if connected then map_option (\<lambda>q. q @ [m]) (mq_queue s) else mq_queue s\<rparr>))))"

definition recv_types :: "int list" where
  "recv_types = [0, 60, -200]"

text \<open>7_msgsend_server.c: it waits for a first message in a loop, and for the others in \<open>msgrcv\<close>.\<close>

definition mq_server_main :: "char list \<Rightarrow> mq_state \<Rightarrow> mq_state cres option" where
  "mq_server_main msg s =
     (case mq_server s of
        Q_Get \<Rightarrow> Some (Inr (s\<lparr>mq_queue := Some (case mq_queue s of None \<Rightarrow> [] | Some q \<Rightarrow> q), mq_server := Q_Stat\<rparr>))
      | Q_Stat \<Rightarrow>
          Some (Inr (case mq_queue s of
             None \<Rightarrow> s\<lparr>mq_server := Q_Exit (-1)\<rparr>
           | Some q \<Rightarrow> if length q > 0 then s\<lparr>mq_server := Q_Recv recv_types\<rparr> else s))
      | Q_Recv [] \<Rightarrow> Some (Inr (s\<lparr>mq_queue := None, mq_server := Q_Exit 0\<rparr>))
      | Q_Recv (type # types) \<Rightarrow>
          (case mq_queue s of
             None \<Rightarrow> Some (Inl UninitRead)
           | Some q \<Rightarrow>
               map_option (\<lambda>r. rbind r (\<lambda>(out, q).
                 Inr (s\<lparr>mq_queue := Some q, mq_server := Q_Recv types, mq_printed := mq_printed s @ [out]\<rparr>)))
                 (recv_typed msg q type))
      | Q_Exit _ \<Rightarrow> None)"

text \<open>7_msgsend_server_flag.c: \<open>recv_msg\<close> asks again (\<open>IPC_NOWAIT\<close>) while there is no message, and returns on an error.\<close>

definition mq_flag_server_main :: "char list \<Rightarrow> mq_state \<Rightarrow> mq_state cres option" where
  "mq_flag_server_main msg s =
     (case mq_server s of
        Q_Get \<Rightarrow> Some (Inr (s\<lparr>mq_queue := Some (case mq_queue s of None \<Rightarrow> [] | Some q \<Rightarrow> q), mq_server := Q_Recv recv_types\<rparr>))
      | Q_Recv [] \<Rightarrow> Some (Inr (s\<lparr>mq_queue := None, mq_server := Q_Exit 0\<rparr>))
      | Q_Recv (type # types) \<Rightarrow>
          (case mq_queue s of
             None \<Rightarrow> Some (Inr (s\<lparr>mq_server := Q_Recv types\<rparr>))
           | Some q \<Rightarrow>
               Some (case recv_typed msg q type of
                  None \<Rightarrow> Inr s
                | Some r \<Rightarrow> rbind r (\<lambda>(out, q).
                    Inr (s\<lparr>mq_queue := Some q, mq_server := Q_Recv types, mq_printed := mq_printed s @ [out]\<rparr>))))
      | _ \<Rightarrow> None)"

definition mq_proc :: "bool \<Rightarrow> bool \<Rightarrow> char list \<Rightarrow> mq_state \<Rightarrow> mq_state cres option" where
  "mq_proc flag server msg s =
     (if \<not> server then mq_client_main msg s else if flag then mq_flag_server_main msg s else mq_server_main msg s)"

text \<open>The buffers have 512 bytes with any content.\<close>

inductive mq_step :: "bool \<Rightarrow> mq_state \<Rightarrow> mq_state \<Rightarrow> bool" for flag where
  "length msg = 512 \<Longrightarrow> mq_proc flag server msg s = Some (Inr s') \<Longrightarrow> mq_step flag s s'"

end
