(* ===== verification/MsgTypes_Spec.thy ===== *)
theory MsgTypes_Spec
  imports MsgTypes SemEvents_Spec
begin

text \<open>
  However the client and either server interleave, once the client has found the queue the server prints the message
  that came first, then the one of the type 60, then the one of the lowest type that is left. A client that starts
  before the server sends nothing and does not notice.
\<close>

section \<open>One message\<close>

definition holds :: "nat \<times> char list \<Rightarrow> nat \<times> string \<Rightarrow> bool" where
  "holds m tt \<longleftrightarrow> message_of (fst tt) m (snd tt @ [ch_nul])"

definition shown :: "nat \<times> string \<Rightarrow> nat \<times> nat \<times> string" where
  "shown tt = (fst tt, length (snd tt) + 1, snd tt)"

definition short :: "nat \<times> string \<Rightarrow> bool" where
  "short tt \<longleftrightarrow> fst tt < 256 \<and> length (snd tt) < 492 \<and> ch_nul \<notin> set (snd tt)"

lemma send_typed_ok:
  assumes "length msg = 512" "short tt"
  shows "\<exists>m. send_msg msg (fst tt) (snd tt @ [ch_nul]) = Inr m \<and> holds m tt"
  using send_msg_ok[OF assms(1), of "snd tt @ [ch_nul]" "fst tt"] assms(2) by (simp add: short_def holds_def)

lemma recv_typed_ok:
  assumes "msg_select type q = Some (m, q')" "holds m tt" "length msg = 512" "short tt"
  shows "recv_typed msg q type = Some (Inr (shown tt, q'))"
proof -
  obtain t bytes where m: "m = (t, bytes)" by (cases m)
  have "8 + length bytes \<le> 512 \<and> t = fst tt \<and>
      printed_line (fst tt) (unpack_msg (mem_write (mem_write msg 0 (long_bytes t)) 8 bytes)) (snd tt @ [ch_nul])"
    by (rule unpack_ok) (use assms(2-4) m in \<open>simp_all add: holds_def short_def\<close>)
  then show ?thesis
    using assms m by (auto simp: recv_typed_def printed_line_def shown_def short_def)
qed

section \<open>The queue\<close>

text \<open>The messages in the queue when the client has sent \<open>j\<close> of them and the server has taken \<open>k\<close>.\<close>

definition waiting :: "nat \<Rightarrow> nat \<Rightarrow> (nat \<times> string) list" where
  "waiting j k = (if k = 0 then take j client_texts else if k = 1 then drop 1 (take j client_texts)
     else if k = 2 then [client_texts ! 1] else [])"

definition expected :: "(nat \<times> nat \<times> string) list" where
  "expected = [(100, 13, ''hello, world''), (60, 24, ''hello, world of type 60''), (50, 24, ''hello, world of type 50'')]"

definition counts_ok :: "nat \<Rightarrow> nat \<Rightarrow> bool" where
  "counts_ok j k \<longleftrightarrow> j \<le> 3 \<and> k \<le> 3 \<and> (k \<ge> 1 \<longrightarrow> j \<ge> 1) \<and> (k \<ge> 2 \<longrightarrow> j = 3)"

lemma counts_cases:
  assumes "counts_ok j k"
  obtains "j = 0" "k = 0" | "j = 1" "k = 0" | "j = 2" "k = 0" | "j = 3" "k = 0" | "j = 1" "k = 1" | "j = 2" "k = 1" | "j = 3" "k = 1"
    | "j = 3" "k = 2" | "j = 3" "k = 3"
proof -
  have "(j = 0 \<or> j = 1 \<or> j = 2 \<or> j = 3) \<and> (k = 0 \<or> k = 1 \<or> k = 2 \<or> k = 3)"
    using assms by (auto simp: counts_ok_def)
  then show ?thesis
    using assms that by (auto simp: counts_ok_def)
qed

lemma waiting_simps:
  "waiting 0 0 = []" "waiting (Suc 0) 0 = [client_texts ! 0]" "waiting 2 0 = [client_texts ! 0, client_texts ! 1]"
  "waiting 3 0 = [client_texts ! 0, client_texts ! 1, client_texts ! 2]" "waiting (Suc 0) (Suc 0) = []"
  "waiting 2 (Suc 0) = [client_texts ! 1]" "waiting 3 (Suc 0) = [client_texts ! 1, client_texts ! 2]"
  "waiting 3 2 = [client_texts ! 1]" "waiting 3 (Suc (Suc 0)) = [client_texts ! 1]" "waiting 3 3 = []"
  by (simp_all add: waiting_def client_texts_def)

lemma text_short: "j < 3 \<Longrightarrow> short (client_texts ! j)"
  by (auto simp: client_texts_def short_def less_Suc_eq numeral_3_eq_3)

lemma holds_type: "holds m tt \<Longrightarrow> fst m = fst tt"
  by (auto simp: holds_def message_of_def)

text \<open>What the next \<open>recv_msg\<close> finds.\<close>

lemma recv_next:
  assumes "counts_ok j k" "k < 3" "list_all2 holds q (waiting j k)" "length msg = 512"
  shows "if (k = 0 \<and> j = 0) \<or> (k = 1 \<and> j < 3) then recv_typed msg q (recv_types ! k) = None
    else \<exists>q'. recv_typed msg q (recv_types ! k) = Some (Inr (expected ! k, q')) \<and> counts_ok j (k + 1) \<and> list_all2 holds q' (waiting j (k + 1))"
proof -
  have ts: "fst (client_texts ! 0) = 100" "fst (client_texts ! Suc 0) = 50" "fst (client_texts ! 2) = 60"
    by (simp_all add: client_texts_def)
  have rs: "recv_types ! 0 = 0" "recv_types ! Suc 0 = 60" "recv_types ! 2 = -200"
    by (simp_all add: recv_types_def)
  have ex: "expected ! 0 = shown (client_texts ! 0)" "expected ! Suc 0 = shown (client_texts ! 2)" "expected ! 2 = shown (client_texts ! Suc 0)"
    by (simp_all add: expected_def shown_def client_texts_def)
  have short: "short (client_texts ! 0)" "short (client_texts ! Suc 0)" "short (client_texts ! 2)"
    using text_short[of 0] text_short[of "Suc 0"] text_short[of 2] by simp_all
  note defs = msg_select_def take_first_def rs waiting_simps
  from assms(1) show ?thesis
  proof (cases rule: counts_cases)
    case 1
    then show ?thesis using assms(3) by (simp add: recv_typed_def defs)
  next
    case 2
    then obtain m where "q = [m]" "holds m (client_texts ! 0)"
      using assms(3) by (auto simp: waiting_simps list_all2_Cons2)
    then show ?thesis
      using 2 recv_typed_ok[OF _ _ assms(4) short(1), of 0 q m "[]"] by (simp add: defs ex counts_ok_def)
  next
    case 3
    then obtain m n where "q = [m, n]" "holds m (client_texts ! 0)" "holds n (client_texts ! Suc 0)"
      using assms(3) by (auto simp: waiting_simps list_all2_Cons2)
    then show ?thesis
      using 3 recv_typed_ok[OF _ _ assms(4) short(1), of 0 q m "[n]"] by (simp add: defs ex counts_ok_def)
  next
    case 4
    then obtain m n l where "q = [m, n, l]" "holds m (client_texts ! 0)" "holds n (client_texts ! Suc 0)" "holds l (client_texts ! 2)"
      using assms(3) by (auto simp: waiting_simps list_all2_Cons2)
    then show ?thesis
      using 4 recv_typed_ok[OF _ _ assms(4) short(1), of 0 q m "[n, l]"] by (simp add: defs ex counts_ok_def)
  next
    case 5
    then show ?thesis using assms(3) by (simp add: recv_typed_def defs)
  next
    case 6
    then obtain n where q: "q = [n]" "holds n (client_texts ! Suc 0)"
      using assms(3) by (auto simp: waiting_simps list_all2_Cons2)
    then have "fst n = 50"
      using holds_type ts by fastforce
    with q show ?thesis using 6 by (simp add: recv_typed_def defs)
  next
    case 7
    then obtain n l where q: "q = [n, l]" "holds n (client_texts ! Suc 0)" "holds l (client_texts ! 2)"
      using assms(3) by (auto simp: waiting_simps list_all2_Cons2)
    then have "fst n = 50" "fst l = 60"
      using holds_type ts by fastforce+
    then show ?thesis
      using 7 q recv_typed_ok[OF _ q(3) assms(4) short(3), of 60 q "[n]"] by (simp add: defs ex counts_ok_def)
  next
    case 8
    then obtain n where q: "q = [n]" "holds n (client_texts ! Suc 0)"
      using assms(3) by (auto simp: waiting_simps list_all2_Cons2)
    then have "fst n = 50"
      using holds_type ts by fastforce
    then show ?thesis
      using 8 q recv_typed_ok[OF _ q(2) assms(4) short(2), of "-200" q "[]"] by (simp add: defs ex counts_ok_def)
  qed (use assms(2) in simp_all)
qed

section \<open>The programs\<close>

text \<open>The client has no queue and will not have one when it asked before the server.\<close>

definition client_ok :: "nat \<Rightarrow> mq_client \<Rightarrow> bool" where
  "client_ok j c \<longleftrightarrow> (case c of K_Get \<Rightarrow> j = 0 | K_Send connected rest \<Rightarrow> if connected then rest = drop j client_texts else j = 0 \<and> (\<exists>n. rest = drop n client_texts))"

definition mq_ok :: "nat \<Rightarrow> nat \<Rightarrow> mq_state \<Rightarrow> bool" where
  "mq_ok j k s \<longleftrightarrow> counts_ok j k \<and> mq_printed s = take k expected \<and> client_ok j (mq_client s) \<and>
     (case mq_server s of
        Q_Get \<Rightarrow> mq_queue s = None \<and> j = 0 \<and> k = 0 \<and> (\<forall>rest. mq_client s \<noteq> K_Send True rest)
      | Q_Stat \<Rightarrow> k = 0 \<and> (\<exists>q. mq_queue s = Some q \<and> list_all2 holds q (waiting j k))
      | Q_Recv types \<Rightarrow> types = drop k recv_types \<and> (\<exists>q. mq_queue s = Some q \<and> list_all2 holds q (waiting j k))
      | Q_Exit code \<Rightarrow> code = 0 \<and> k = 3 \<and> mq_queue s = None)"

definition mq_inv :: "mq_state \<Rightarrow> bool" where
  "mq_inv s \<longleftrightarrow> (\<exists>j k. mq_ok j k s)"

lemma mq_init_ok: "mq_inv mq_init"
  unfolding mq_inv_def by (intro exI[of _ 0]) (simp add: mq_ok_def mq_init_def counts_ok_def client_ok_def)

lemma texts_drop: "drop n client_texts = tt # rest \<Longrightarrow> n < 3 \<and> tt = client_texts ! n \<and> rest = drop (Suc n) client_texts"
proof -
  assume d: "drop n client_texts = tt # rest"
  have "length client_texts = 3"
    by (simp add: client_texts_def)
  with d have "n < 3"
    by (metis drop_all list.distinct(1) not_le)
  with d show ?thesis
    by (metis Cons_nth_drop_Suc \<open>length client_texts = 3\<close> list.inject)
qed

lemma waiting_sent:
  assumes "counts_ok j k" "j < 3"
  shows "counts_ok (Suc j) k \<and> waiting (Suc j) k = waiting j k @ [client_texts ! j]"
  using assms(1)
proof (cases rule: counts_cases)
  case 3
  then show ?thesis by (simp add: counts_ok_def waiting_simps eval_nat_numeral client_texts_def waiting_def)
next
  case 6
  then show ?thesis by (simp add: counts_ok_def waiting_simps eval_nat_numeral client_texts_def waiting_def)
qed (use assms(2) in \<open>simp_all add: counts_ok_def waiting_simps numeral_2_eq_2[symmetric] waiting_def client_texts_def\<close>)

lemma client_step_ok:
  assumes ok: "mq_ok j k s" and msg: "length msg = 512" and step: "mq_client_main msg s = Some r"
  shows "\<exists>s' j'. r = Inr s' \<and> mq_ok j' k s'"
proof (cases "mq_client s")
  case K_Get
  then have "j = 0" "counts_ok j k"
    using ok by (auto simp: mq_ok_def client_ok_def)
  then have "k = 0"
    by (simp add: counts_ok_def)
  have "mq_ok 0 k (s\<lparr>mq_client := K_Send (mq_queue s \<noteq> None) client_texts\<rparr>)"
    using ok K_Get \<open>j = 0\<close> \<open>k = 0\<close> by (auto simp: mq_ok_def client_ok_def split: mq_server.splits intro: exI[of _ 0])
  then show ?thesis
    using step K_Get by (auto simp: mq_client_main_def)
next
  case (K_Send connected rest)
  show ?thesis
  proof (cases rest)
    case (Cons tt rest')
    obtain type body where tt: "tt = (type, body)" by (cases tt)
    obtain n where n: "rest = drop n client_texts" "connected \<Longrightarrow> n = j" "\<not> connected \<Longrightarrow> j = 0"
      using ok K_Send by (auto simp: mq_ok_def client_ok_def split: if_splits)
    have t: "n < 3" "tt = client_texts ! n" "rest' = drop (Suc n) client_texts"
      using texts_drop[of n tt rest'] Cons n(1) by simp_all
    obtain m where m: "send_msg msg type (body @ [ch_nul]) = Inr m" "holds m (client_texts ! n)"
      using send_typed_ok[OF msg text_short[OF t(1)]] by (auto simp: t(2)[unfolded tt, symmetric])
    show ?thesis
    proof (cases connected)
      case False
      have "mq_ok j k (s\<lparr>mq_client := K_Send False rest'\<rparr>)"
        using ok K_Send n(3) t(3) False by (auto simp: mq_ok_def client_ok_def split: mq_server.splits)
      then show ?thesis
        using step K_Send Cons tt m(1) False by (auto simp: mq_client_main_def)
    next
      case True
      then have j: "j < 3" "n = j"
        using n(2) t(1) by simp_all
      have c: "counts_ok j k"
        using ok by (simp add: mq_ok_def)
      note w = waiting_sent[OF c j(1)]
      have k: "k < 3"
        using c j(1) by (auto simp: counts_ok_def)
      have "mq_ok (Suc j) k (s\<lparr>mq_client := K_Send True rest', mq_queue := map_option (\<lambda>q. q @ [m]) (mq_queue s)\<rparr>)"
        using ok K_Send True w k t(3) j(2) m(2) by (auto simp: mq_ok_def client_ok_def list_all2_appendI split: mq_server.splits)
      then show ?thesis
        using step K_Send Cons tt m(1) True by (auto simp: mq_client_main_def)
    qed
  qed (use step K_Send in \<open>simp add: mq_client_main_def\<close>)
qed

lemma recv_step_ok:
  assumes ok: "mq_ok j k s" and msg: "length msg = 512" and s: "mq_server s = Q_Recv (type # types)"
  obtains q where "mq_queue s = Some q" "recv_typed msg q type = None" "k = 0 \<and> j = 0 \<or> k = 1 \<and> j < 3"
    | q out q' where "mq_queue s = Some q" "recv_typed msg q type = Some (Inr (out, q'))"
      "mq_ok j (k + 1) (s\<lparr>mq_queue := Some q', mq_server := Q_Recv types, mq_printed := mq_printed s @ [out]\<rparr>)"
proof -
  obtain q where q: "mq_queue s = Some q" "list_all2 holds q (waiting j k)" and types: "type # types = drop k recv_types" and c: "counts_ok j k"
    and p: "mq_printed s = take k expected"
    using ok s by (auto simp: mq_ok_def)
  have len: "length recv_types = 3" "length expected = 3"
    by (simp_all add: recv_types_def expected_def)
  then have k: "k < 3"
    using types by (metis drop_all list.distinct(1) not_le)
  then have t: "type = recv_types ! k" "types = drop (k + 1) recv_types" "take (k + 1) expected = take k expected @ [expected ! k]"
    using types len by (simp_all add: Cons_nth_drop_Suc[symmetric] take_Suc_conv_app_nth)
  from recv_next[OF c k q(2) msg] show ?thesis
  proof (cases "(k = 0 \<and> j = 0) \<or> (k = 1 \<and> j < 3)")
    case True
    then show ?thesis
      using recv_next[OF c k q(2) msg] that(1)[OF q(1)] t(1) by simp
  next
    case False
    then obtain q' where "recv_typed msg q type = Some (Inr (expected ! k, q'))" "counts_ok j (k + 1)" "list_all2 holds q' (waiting j (k + 1))"
      using recv_next[OF c k q(2) msg] t(1) by auto
    then show ?thesis
      using that(2)[OF q(1)] ok p t by (simp add: mq_ok_def)
  qed
qed

lemma server_step_ok:
  assumes ok: "mq_ok j k s" and msg: "length msg = 512" and step: "mq_proc flag True msg s = Some r"
  shows "\<exists>s' k'. r = Inr s' \<and> mq_ok j k' s'"
proof (cases "mq_server s")
  case Q_Get
  then have none: "mq_queue s = None" "j = 0" "k = 0"
    using ok by (simp_all add: mq_ok_def)
  have "mq_ok 0 0 (s\<lparr>mq_queue := Some [], mq_server := Q_Stat\<rparr>)" "mq_ok 0 0 (s\<lparr>mq_queue := Some [], mq_server := Q_Recv recv_types\<rparr>)"
    using ok none by (simp_all add: mq_ok_def waiting_simps)
  then show ?thesis
    using step Q_Get none by (auto simp: mq_proc_def mq_server_main_def mq_flag_server_main_def split: if_splits)
next
  case Q_Stat
  then obtain q where "mq_queue s = Some q" "k = 0"
    using ok by (auto simp: mq_ok_def)
  moreover have "mq_ok j k (s\<lparr>mq_server := Q_Recv recv_types\<rparr>)"
    using ok Q_Stat by (auto simp: mq_ok_def)
  ultimately show ?thesis
    using step Q_Stat ok by (auto simp: mq_proc_def mq_server_main_def mq_flag_server_main_def split: if_splits)
next
  case (Q_Recv types)
  show ?thesis
  proof (cases types)
    case Nil
    have "length recv_types = 3"
      by (simp add: recv_types_def)
    then have "k = 3"
      using ok Q_Recv Nil by (auto simp: mq_ok_def counts_ok_def)
    then have "mq_ok j k (s\<lparr>mq_queue := None, mq_server := Q_Exit 0\<rparr>)"
      using ok by (simp add: mq_ok_def)
    then show ?thesis
      using step Q_Recv Nil by (auto simp: mq_proc_def mq_server_main_def mq_flag_server_main_def split: if_splits)
  next
    case (Cons type types')
    with Q_Recv have s: "mq_server s = Q_Recv (type # types')" by simp
    show ?thesis
      by (rule recv_step_ok[OF ok msg s])
        (use step s ok in \<open>auto simp: mq_proc_def mq_server_main_def mq_flag_server_main_def split: if_splits\<close>)
  qed
next
  case (Q_Exit code)
  then show ?thesis
    using step by (simp add: mq_proc_def mq_server_main_def mq_flag_server_main_def split: if_splits)
qed

lemma mq_proc_ok:
  assumes "mq_inv s" "length msg = 512" "mq_proc flag server msg s = Some r"
  shows "\<exists>s'. r = Inr s' \<and> mq_inv s'"
proof -
  obtain j k where ok: "mq_ok j k s"
    using assms(1) by (auto simp: mq_inv_def)
  show ?thesis
  proof (cases server)
    case True
    then show ?thesis
      using server_step_ok[OF ok assms(2)] assms(3) by (fastforce simp: mq_inv_def)
  next
    case False
    then have "mq_client_main msg s = Some r"
      using assms(3) by (simp add: mq_proc_def)
    from client_step_ok[OF ok assms(2) this] show ?thesis
      by (auto simp: mq_inv_def)
  qed
qed

section \<open>Every schedule\<close>

definition client_left :: "mq_client \<Rightarrow> nat" where
  "client_left c = (case c of K_Get \<Rightarrow> 5 | K_Send connected rest \<Rightarrow> length rest)"

definition server_left :: "mq_server \<Rightarrow> nat" where
  "server_left p = (case p of Q_Get \<Rightarrow> 6 | Q_Stat \<Rightarrow> 5 | Q_Recv types \<Rightarrow> length types + 1 | Q_Exit _ \<Rightarrow> 0)"

definition mq_work :: "mq_state \<Rightarrow> nat" where
  "mq_work s = client_left (mq_client s) + server_left (mq_server s)"

text \<open>The steps of waiting are left out.\<close>

definition mq_forward :: "bool \<Rightarrow> mq_state \<Rightarrow> mq_state \<Rightarrow> bool" where
  "mq_forward flag s s' \<longleftrightarrow> mq_step flag s s' \<and> mq_work s' < mq_work s"

text \<open>A run in which the client has found the queue, or can still find it; the server with the flag has no loop of \<open>IPC_STAT\<close>.\<close>

definition mq_linked :: "bool \<Rightarrow> mq_state \<Rightarrow> bool" where
  "mq_linked flag s \<longleftrightarrow> mq_inv s \<and> (flag \<longrightarrow> mq_server s \<noteq> Q_Stat) \<and> (case mq_client s of K_Get \<Rightarrow> mq_server s \<noteq> Q_Get | K_Send connected _ \<Rightarrow> connected)"

definition mq_finished :: "mq_state \<Rightarrow> bool" where
  "mq_finished s \<longleftrightarrow> mq_server s = Q_Exit 0 \<and> mq_printed s = expected"

lemma mq_step_linked:
  assumes "mq_linked flag s" "mq_step flag s s'"
  shows "mq_linked flag s'"
  using assms(2)
proof cases
  case (1 msg server)
  have inv: "mq_inv s'"
    using mq_proc_ok[OF _ 1] assms(1) by (auto simp: mq_linked_def)
  have queue: "mq_queue s \<noteq> None" if "mq_client s = K_Get"
  proof -
    obtain j k where ok: "mq_ok j k s"
      using assms(1) by (auto simp: mq_linked_def mq_inv_def)
    moreover have "j = 0"
      using ok that by (auto simp: mq_ok_def client_ok_def)
    ultimately show ?thesis
      using assms(1) that by (cases "mq_server s") (auto simp: mq_ok_def mq_linked_def counts_ok_def)
  qed
  show ?thesis
    using assms(1) 1(2) inv queue
    by (auto simp: mq_linked_def mq_proc_def mq_client_main_def mq_server_main_def mq_flag_server_main_def res_simps
        split: mq_client.splits mq_server.splits list.splits option.splits if_splits prod.splits)
qed

lemma forwardI:
  assumes "mq_proc flag server (replicate 512 CHR ''a'') s = Some (Inr s')" "mq_work s' < mq_work s"
  shows "\<exists>s'. mq_forward flag s s'"
  using mq_step.intros[OF _ assms(1)] assms(2) by (auto simp: mq_forward_def)

lemma mq_client_main_None: "mq_client_main msg s = None \<longleftrightarrow> (\<exists>c. mq_client s = K_Send c [])"
  by (auto simp: mq_client_main_def split: mq_client.split list.split prod.split)

lemma client_forward:
  assumes "mq_linked flag s" "mq_client s \<noteq> K_Send True []"
  shows "\<exists>s'. mq_forward flag s s'"
proof -
  let ?msg = "replicate 512 CHR ''a''"
  obtain j k where ok: "mq_ok j k s"
    using assms(1) by (auto simp: mq_linked_def mq_inv_def)
  obtain r where r: "mq_client_main ?msg s = Some r"
    using assms mq_client_main_None[of ?msg s] by (cases "mq_client_main ?msg s") (auto simp: mq_linked_def)
  obtain s' where s': "r = Inr s'"
    using client_step_ok[OF ok _ r] by auto
  have "mq_work s' < mq_work s"
    using r s' by (auto simp: mq_client_main_def mq_work_def client_left_def client_texts_def res_simps split: mq_client.splits list.splits prod.splits)
  with r s' show ?thesis
    by (intro forwardI[of flag False]) (simp_all add: mq_proc_def)
qed

lemma mq_stuck:
  assumes linked: "mq_linked flag s" and stuck: "\<nexists>s'. mq_forward flag s s'"
  shows "mq_finished s"
proof -
  let ?msg = "replicate 512 CHR ''a''"
  obtain j k where ok: "mq_ok j k s"
    using linked by (auto simp: mq_linked_def mq_inv_def)
  have client: "mq_client s = K_Send True []"
    using client_forward[OF linked] stuck by blast
  then have "drop j client_texts = []" "length client_texts = 3" "j \<le> 3"
    using ok by (auto simp: mq_ok_def client_ok_def client_texts_def counts_ok_def)
  then have j: "j = 3"
    by simp
  have no: "mq_proc flag True ?msg s = Some (Inr s') \<Longrightarrow> \<not> mq_work s' < mq_work s" for s'
    using forwardI stuck by blast
  show ?thesis
  proof (cases "mq_server s")
    case Q_Get
    then show ?thesis using ok client by (simp add: mq_ok_def)
  next
    case Q_Stat
    then obtain q where q: "mq_queue s = Some q" "list_all2 holds q (waiting 3 0)"
      using ok j by (auto simp: mq_ok_def)
    then have "q \<noteq> []"
      by (auto simp: waiting_simps)
    with q(1) Q_Stat linked show ?thesis
      using no[of "s\<lparr>mq_server := Q_Recv recv_types\<rparr>"]
      by (simp add: mq_linked_def mq_proc_def mq_server_main_def mq_work_def server_left_def recv_types_def)
  next
    case (Q_Recv types)
    show ?thesis
    proof (cases types)
      case Nil
      then show ?thesis
        using no[of "s\<lparr>mq_queue := None, mq_server := Q_Exit 0\<rparr>"] Q_Recv
        by (cases flag) (simp_all add: mq_proc_def mq_server_main_def mq_flag_server_main_def mq_work_def server_left_def)
    next
      case (Cons type types')
      with Q_Recv have s: "mq_server s = Q_Recv (type # types')" by simp
      show ?thesis
      proof (rule recv_step_ok[OF ok _ s, of ?msg])
        show "length ?msg = 512" by simp
        show ?thesis if "k = 0 \<and> j = 0 \<or> k = 1 \<and> j < 3"
          using that j by simp
        fix q out q'
        assume "mq_queue s = Some q" "recv_typed ?msg q type = Some (Inr (out, q'))"
        then show ?thesis
          using no[of "s\<lparr>mq_queue := Some q', mq_server := Q_Recv types', mq_printed := mq_printed s @ [out]\<rparr>"] s
          by (cases flag) (simp_all add: mq_proc_def mq_server_main_def mq_flag_server_main_def mq_work_def server_left_def)
      qed
    qed
  next
    case (Q_Exit code)
    then show ?thesis
      using ok by (auto simp: mq_finished_def mq_ok_def expected_def)
  qed
qed

interpretation msg_run: progress "mq_forward flag" "mq_linked flag" mq_work mq_finished for flag
proof
  show "mq_linked flag s'" if "mq_linked flag s" "mq_forward flag s s'" for s s'
    using that mq_step_linked by (auto simp: mq_forward_def)
  show "mq_work s' < mq_work s" if "mq_forward flag s s'" for s s'
    using that by (simp add: mq_forward_def)
  show "mq_finished s" if "mq_linked flag s" "\<nexists>s'. mq_forward flag s s'" for s
    using that by (rule mq_stuck)
qed

lemma mq_reach: "(mq_step flag)\<^sup>*\<^sup>* mq_init s \<Longrightarrow> mq_inv s \<and> (flag \<longrightarrow> mq_server s \<noteq> Q_Stat)"
proof (induction rule: rtranclp_induct)
  case base
  show ?case
    using mq_init_ok by (simp add: mq_init_def)
next
  case (step s s')
  from step(2) show ?case
  proof cases
    case (1 msg server)
    have "mq_inv s'"
      using mq_proc_ok[OF _ 1] step(3) by auto
    moreover have "mq_server s' \<noteq> Q_Stat" if flag
      using 1(2) step(3) that
      by (auto simp: mq_proc_def mq_client_main_def mq_flag_server_main_def res_simps
          split: mq_client.splits mq_server.splits list.splits option.splits if_splits prod.splits)
    ultimately show ?thesis by blast
  qed
qed

text \<open>With either server, in every interleaving: no message overflows a buffer, the server prints the three messages in the order of
  its types, ends only after the last one, and comes to its end whenever the client has found the queue.\<close>

theorem msg_exchange:
  assumes "(mq_step flag)\<^sup>*\<^sup>* mq_init s"
  shows "(\<forall>server msg e. length msg = 512 \<longrightarrow> mq_proc flag server msg s \<noteq> Some (Inl e)) \<and>
    (\<exists>k. mq_printed s = take k expected) \<and> (\<forall>code. mq_server s = Q_Exit code \<longrightarrow> mq_printed s = expected) \<and>
    ((\<exists>rest. mq_client s = K_Send True rest) \<longrightarrow> (\<exists>s'. (mq_step flag)\<^sup>*\<^sup>* s s' \<and> mq_server s' = Q_Exit 0 \<and> mq_printed s' = expected))"
proof (intro conjI allI impI)
  have inv: "mq_inv s" "flag \<longrightarrow> mq_server s \<noteq> Q_Stat"
    using mq_reach[OF assms] by simp_all
  then obtain j k where ok: "mq_ok j k s"
    by (auto simp: mq_inv_def)
  show "mq_proc flag server msg s \<noteq> Some (Inl e)" if "length msg = 512" for server msg e
    using mq_proc_ok[OF inv(1) that] by fastforce
  show "\<exists>k. mq_printed s = take k expected"
    using ok by (auto simp: mq_ok_def)
  show "mq_printed s = expected" if "mq_server s = Q_Exit code" for code
    using ok that by (auto simp: mq_ok_def expected_def)
  assume "\<exists>rest. mq_client s = K_Send True rest"
  then have "mq_linked flag s"
    using inv by (auto simp: mq_linked_def)
  from msg_run.can_finish[OF this] obtain s' where "(mq_forward flag)\<^sup>*\<^sup>* s s'" "mq_finished s'"
    by blast
  moreover from this(1) have "(mq_step flag)\<^sup>*\<^sup>* s s'"
    by (rule rtranclp_mono[THEN predicate2D, rotated]) (auto simp: mq_forward_def)
  ultimately show "\<exists>s'. (mq_step flag)\<^sup>*\<^sup>* s s' \<and> mq_server s' = Q_Exit 0 \<and> mq_printed s' = expected"
    by (auto simp: mq_finished_def)
qed

text \<open>A client that came before the server leaves it waiting for ever.\<close>

lemma client_before_server:
  assumes "(mq_step flag)\<^sup>*\<^sup>* mq_init s" "mq_client s = K_Send False rest"
  shows "mq_printed s = [] \<and> (\<forall>code. mq_server s \<noteq> Q_Exit code)"
proof -
  obtain j k where ok: "mq_ok j k s" "j = 0"
    using mq_reach[OF assms(1)] assms(2) by (auto simp: mq_inv_def mq_ok_def client_ok_def)
  then have "k = 0"
    by (auto simp: mq_ok_def counts_ok_def)
  with ok have "mq_ok 0 0 s"
    by simp
  then show ?thesis
    by (auto simp: mq_ok_def)
qed

end
