(* ===== verification/Bench.thy ===== *)
theory Bench
  imports MergeSort
begin

text \<open>
  The benchmarks of src/bonus: mtx.c, atomic.c, pthread_join.c and clock.c repeat a measurement, sort the
  results and print the least, the greatest and the middle one. In two of them the measured
  threads increment a shared counter until it has reached a bound.
\<close>

section \<open>The report\<close>

text \<open>
  \<open>combine\<close> is \<open>merge\<close> of src/1/solution.c with \<open>double\<close> for \<open>int\<close>. In \<open>sort\<close> a range whose left end is
  behind its right end is split into itself and an empty range, without end.
\<close>

definition bench_combine :: "('a::{linorder,zero}) list \<Rightarrow> nat \<Rightarrow> nat \<Rightarrow> 'a list cres" where
  "bench_combine arr l r = merge arr l r"

function bench_sort :: "('a::{linorder,zero}) list \<Rightarrow> nat \<Rightarrow> nat \<Rightarrow> 'a list cres" where
  "bench_sort a l r =
     (if l = r then Inr a
      else if l > r then Inl StackOverflow
      else rbind (int_add l r) (\<lambda>sum.
           let mid = sum div 2
           in rbind (bench_sort a l mid) (\<lambda>a.
              rbind (bench_sort a (mid + 1) r) (\<lambda>a.
              bench_combine a l r))))"
  by pat_completeness auto
termination
  by (relation "measure (\<lambda>(a, l, r). r - l)") (auto simp: int_add_def split: if_splits)

declare bench_sort.simps [simp del]

text \<open>The numbers that are printed: of \<open>res\<close>, sorted up to \<open>r\<close>, the cells 0, \<open>hi\<close> and \<open>med\<close>.\<close>

definition bench_report :: "('a::{linorder,zero}) list \<Rightarrow> nat \<Rightarrow> nat \<Rightarrow> nat \<Rightarrow> ('a \<times> 'a \<times> 'a) cres" where
  "bench_report res r hi med =
     rbind (bench_sort res 0 r) (\<lambda>res.
     rbind (arr_get res 0) (\<lambda>least.
     rbind (arr_get res hi) (\<lambda>greatest.
     rbind (arr_get res med) (\<lambda>middle. Inr (least, greatest, middle)))))"

definition mtx_report :: "('a::{linorder,zero}) list \<Rightarrow> ('a \<times> 'a \<times> 'a) cres" where
  "mtx_report res = bench_report res 19 19 10"

definition join_report :: "('a::{linorder,zero}) list \<Rightarrow> ('a \<times> 'a \<times> 'a) cres" where
  "join_report timings = bench_report timings 4 4 2"

definition clock_reports :: "('a::{linorder,zero}) list list \<Rightarrow> ('a \<times> 'a \<times> 'a) cres list" where
  "clock_reports res = map (\<lambda>r. bench_report r 4 4 2) res"

text \<open>The reports of atomic.c: the second array first, then the first one.\<close>

definition atomic_reports :: "('a::{linorder,zero}) list \<Rightarrow> 'a list \<Rightarrow> ('a \<times> 'a \<times> 'a) cres \<times> ('a \<times> 'a \<times> 'a) cres" where
  "atomic_reports res0 res1 = (bench_report res1 14 14 7, bench_report res0 14 4 2)"

section \<open>The counter of mtx.c\<close>

text \<open>
  The points of \<open>inc\<close> between its accesses to shared memory. A thread that was not yet created stands
  at its first test. \<open>nums\<close> is \<open>NUMS\<close>, ten million in the source.
\<close>

datatype inc_pc = I_Test | I_Lock | I_Load | I_Store nat | I_Unlock | I_Ret

record inc_state =
  inc_counter :: nat
  inc_mutex :: bool
  inc_pcs :: "inc_pc list"

definition bench_start :: "nat \<Rightarrow> inc_state" where
  "bench_start n = \<lparr>inc_counter = 0, inc_mutex = False, inc_pcs = replicate n I_Test\<rparr>"

definition inc :: "nat \<Rightarrow> nat \<Rightarrow> inc_state \<Rightarrow> inc_state cres option" where
  "inc nums i s =
     (let goto = (\<lambda>p s. s\<lparr>inc_pcs := (inc_pcs s)[i := p]\<rparr>) in
      case inc_pcs s ! i of
        I_Test \<Rightarrow> Some (Inr (goto (if inc_counter s < nums then I_Lock else I_Ret) s))
      | I_Lock \<Rightarrow> if inc_mutex s then None else Some (Inr (goto I_Load (s\<lparr>inc_mutex := True\<rparr>)))
      | I_Load \<Rightarrow> Some (Inr (goto (I_Store (inc_counter s)) s))
      | I_Store v \<Rightarrow> Some (rbind (int_add v 1) (\<lambda>v. Inr (goto I_Unlock (s\<lparr>inc_counter := v\<rparr>))))
      | I_Unlock \<Rightarrow> Some (Inr (goto I_Test (s\<lparr>inc_mutex := False\<rparr>)))
      | I_Ret \<Rightarrow> None)"

inductive inc_step :: "nat \<Rightarrow> inc_state \<Rightarrow> inc_state \<Rightarrow> bool" for nums where
  "i < length (inc_pcs s) \<Longrightarrow> inc nums i s = Some (Inr s') \<Longrightarrow> inc_step nums s s'"

text \<open>\<open>bench\<close> has joined all threads.\<close>

definition all_joined :: "inc_state \<Rightarrow> bool" where
  "all_joined s \<longleftrightarrow> (\<forall>p \<in> set (inc_pcs s). p = I_Ret)"

section \<open>The counter of atomic.c\<close>

text \<open>The increment is one access, whatever memory order is asked for; it wraps.\<close>

datatype atomic_pc = A_Test | A_Add | A_Ret

definition atomic_inc :: "nat \<Rightarrow> nat \<Rightarrow> i32 \<times> atomic_pc list \<Rightarrow> (i32 \<times> atomic_pc list) option" where
  "atomic_inc nums i = (\<lambda>(atomic_var, pcs).
     (case pcs ! i of
        A_Test \<Rightarrow> Some (atomic_var, pcs[i := if sint atomic_var < int nums then A_Add else A_Ret])
      | A_Add \<Rightarrow> Some (atomic_var + 1, pcs[i := A_Test])
      | A_Ret \<Rightarrow> None))"

inductive atomic_step :: "nat \<Rightarrow> i32 \<times> atomic_pc list \<Rightarrow> i32 \<times> atomic_pc list \<Rightarrow> bool" for nums where
  "i < length (snd s) \<Longrightarrow> atomic_inc nums i s = Some s' \<Longrightarrow> atomic_step nums s s'"

definition atomic_start :: "nat \<Rightarrow> i32 \<times> atomic_pc list" where
  "atomic_start n = (0, replicate n A_Test)"

end
