(* ===== verification/Bench_Spec.thy ===== *)
theory Bench_Spec
  imports Bench
begin

text \<open>
  The reports of the benchmarks are order statistics, and the counters stop just above their bound, by
  less than the number of threads.
\<close>

section \<open>Sorting\<close>

text \<open>\<open>sort\<close> sorts its range and touches nothing else.\<close>

lemma seg_middle: "seg (pre @ xs @ post) (length pre) (length pre + length xs) = xs"
  by (simp add: seg_def)

lemma bench_sort_middle:
  "zs \<noteq> [] \<Longrightarrow> 2 * length (pre @ zs @ post) < 2 ^ 31 \<Longrightarrow>
     bench_sort (pre @ zs @ post) (length pre) (length pre + length zs - 1) = Inr (pre @ sort zs @ post)"
proof (induction "length zs" arbitrary: zs pre post rule: less_induct)
  case less
  define l r where lr: "l = length pre" "r = length pre + length zs - 1"
  show ?case
  proof (cases "length zs = 1")
    case True
    then obtain z where "zs = [z]"
      by (cases zs) auto
    then show ?thesis
      by (simp add: bench_sort.simps [of _ "length pre" "length pre"])
  next
    case False
    moreover have "0 < length zs"
      using less.prems(1) by simp
    ultimately have two: "2 \<le> length zs"
      by linarith
    define m where "m = (l + r) div 2"
    have m: "l \<le> m" "m < r" "r < l + length zs" "r + 1 = l + length zs"
      using two by (simp_all add: m_def lr)
    obtain xs ys where zs: "zs = xs @ ys" "length xs = m + 1 - l"
    proof
      show "zs = take (m + 1 - l) zs @ drop (m + 1 - l) zs" by simp
      show "length (take (m + 1 - l) zs) = m + 1 - l" using m by simp
    qed
    have xs: "xs \<noteq> []" "length xs < length zs" "l + length xs = m + 1"
      using zs(2) m by auto
    have ys: "ys \<noteq> []" "length ys < length zs" "m + 1 + length ys = r + 1"
      using zs m xs by auto
    have small: "2 * length (pre @ xs @ ys @ post) < 2 ^ 31"
      using less.prems(2) by (simp add: zs(1))
    have m': "m = l + length xs - 1" and r': "r = l + length xs + length ys - 1"
      using xs ys by linarith+
    have 1: "bench_sort (pre @ xs @ ys @ post) l m = Inr (pre @ sort xs @ ys @ post)"
      using less.hyps[of xs pre "ys @ post"] xs small unfolding m' lr(1) by simp
    have 2: "bench_sort (pre @ sort xs @ ys @ post) (m + 1) r = Inr (pre @ sort xs @ sort ys @ post)"
      using less.hyps[of ys "pre @ sort xs" post] xs(3) ys small unfolding r' lr(1) by (simp add: add.assoc)
    have 3: "merge (pre @ sort xs @ sort ys @ post) l r = Inr (pre @ sort zs @ post)"
    proof -
      let ?a = "pre @ sort xs @ sort ys @ post"
      have "seg ?a l (m + 1) = sort xs"
        using seg_middle[of pre "sort xs" "sort ys @ post"] xs(3) lr(1) by simp
      moreover have "seg ?a (m + 1) (r + 1) = sort ys"
        using seg_middle[of "pre @ sort xs" "sort ys" post] xs(3) ys(3) lr(1) by simp
      moreover have "merge_lists (sort xs) (sort ys) = sort zs"
        by (rule properties_for_sort [symmetric]) (simp_all add: sorted_merge_lists zs(1))
      moreover have "take l ?a = pre" "drop (r + 1) ?a = post"
        using m(4) lr(1) zs(1) by simp_all
      ultimately show ?thesis
        using merge_ok[of l r ?a] m small lr(1) zs(1) by (simp add: m_def)
    qed
    have "int_add l r = Inr (l + r)"
      using m small lr(1) zs(1) by simp
    then have "bench_sort (pre @ zs @ post) l r = Inr (pre @ sort zs @ post)"
      using 1 2 3 m zs(1) by (subst bench_sort.simps) (simp add: Let_def bench_combine_def m_def [symmetric])
    then show ?thesis
      by (simp only: lr)
  qed
qed

lemma bench_report_sorted:
  assumes "length res = Suc r" "hi < length res" "med < length res" "2 * length res < 2 ^ 31"
  shows "bench_report res r hi med = Inr (sort res ! 0, sort res ! hi, sort res ! med)"
proof -
  have "bench_sort res 0 r = Inr (sort res)"
    using bench_sort_middle[of res "[]" "[]"] assms by (cases res) simp_all
  then show ?thesis
    using assms by (simp add: bench_report_def)
qed

text \<open>
  The reports print the least, the greatest and the (upper) middle one of the measurements, and no
  access leaves the arrays; but the second report of atomic.c takes the fifth and the third of its
  fifteen results for the greatest and the middle one.
\<close>

theorem bench_reports_exact:
  "(length res = 20 \<longrightarrow> mtx_report res = Inr (sort res ! 0, sort res ! 19, sort res ! 10)) \<and>
   (length res = 5 \<longrightarrow> join_report res = Inr (sort res ! 0, sort res ! 4, sort res ! 2)) \<and>
   ((\<forall>r \<in> set rs. length r = 5) \<longrightarrow> clock_reports rs = map (\<lambda>r. Inr (sort r ! 0, sort r ! 4, sort r ! 2)) rs) \<and>
   (length res = 15 \<and> length res1 = 15 \<longrightarrow>
     atomic_reports res res1 =
       (Inr (sort res1 ! 0, sort res1 ! 14, sort res1 ! 7), Inr (sort res ! 0, sort res ! 4, sort res ! 2)))"
  by (simp add: mtx_report_def join_report_def clock_reports_def atomic_reports_def bench_report_sorted)

theorem bench_reports_exact_witness:
  "mtx_report (rev (map int [1..<21])) = Inr (1, 20, 11) \<and> join_report [3, 1, 2, 5, 4 :: int] = Inr (1, 5, 3)"
proof -
  have "sort (rev (map int [1..<21])) = map int [1..<21]" "sort [3, 1, 2, 5, 4 :: int] = [1, 2, 3, 4, 5]"
    by code_simp+
  then show ?thesis
    using bench_reports_exact[of "rev (map int [1..<21])" "[]" "[]"] bench_reports_exact[of "[3, 1, 2, 5, 4 :: int]" "[]" "[]"]
    by auto
qed

section \<open>The counter under the mutex\<close>

text \<open>Whether a thread is past its test and before its increment, and whether it holds the mutex.\<close>

definition will_inc :: "inc_pc \<Rightarrow> nat" where
  "will_inc p = (case p of I_Lock \<Rightarrow> 1 | I_Load \<Rightarrow> 1 | I_Store _ \<Rightarrow> 1 | _ \<Rightarrow> 0)"

definition locked :: "inc_pc \<Rightarrow> nat" where
  "locked p = (case p of I_Load \<Rightarrow> 1 | I_Store _ \<Rightarrow> 1 | I_Unlock \<Rightarrow> 1 | _ \<Rightarrow> 0)"

definition inc_rank :: "inc_pc \<Rightarrow> nat" where
  "inc_rank p = (case p of I_Test \<Rightarrow> 5 | I_Lock \<Rightarrow> 4 | I_Load \<Rightarrow> 3 | I_Store _ \<Rightarrow> 2 | I_Unlock \<Rightarrow> 6 | I_Ret \<Rightarrow> 0)"

definition inc_inv :: "nat \<Rightarrow> nat \<Rightarrow> inc_state \<Rightarrow> bool" where
  "inc_inv n nums s \<longleftrightarrow> length (inc_pcs s) = n \<and> nums + n \<le> 2 ^ 31 \<and>
     tally locked (inc_pcs s) = (if inc_mutex s then 1 else 0) \<and>
     inc_counter s + tally will_inc (inc_pcs s) < nums + n \<and>
     (\<forall>v. I_Store v \<in> set (inc_pcs s) \<longrightarrow> v = inc_counter s) \<and>
     (I_Ret \<in> set (inc_pcs s) \<longrightarrow> nums \<le> inc_counter s)"

definition inc_work :: "nat \<Rightarrow> nat \<Rightarrow> inc_state \<Rightarrow> nat" where
  "inc_work n nums s = 10 * (nums + n - inc_counter s) + tally inc_rank (inc_pcs s)"

lemma tally_le_length: "(\<And>x. f x \<le> 1) \<Longrightarrow> tally f xs \<le> length xs"
  by (induction xs) (auto simp: add_mono le_SucI intro: order_trans[OF add_mono])

lemma inc_inv_update:
  assumes inv: "inc_inv n nums s" and i: "i < length (inc_pcs s)" and p: "inc_pcs s ! i = p"
    and s': "inc_pcs s' = (inc_pcs s)[i := q]"
    and mutex: "locked q + (if inc_mutex s then 1 else 0) = locked p + (if inc_mutex s' then 1 else 0)"
    and bound: "inc_counter s' + will_inc q \<le> inc_counter s + will_inc p \<or> inc_counter s' < nums"
    and ctr: "inc_counter s' = inc_counter s \<or> locked p = 1 \<and> inc_counter s \<le> inc_counter s'"
    and store: "\<And>v. q = I_Store v \<Longrightarrow> v = inc_counter s'" and ret: "q = I_Ret \<Longrightarrow> nums \<le> inc_counter s'"
  shows "inc_inv n nums s'"
proof -
  let ?ps = "inc_pcs s" and ?qs = "inc_pcs s'"
  have upd: "tally locked ?qs + locked p = tally locked ?ps + locked q"
      "tally will_inc ?qs + will_inc p = tally will_inc ?ps + will_inc q"
    using tally_update[OF i, of locked q] tally_update[OF i, of will_inc q] by (simp_all add: p s')
  have "tally will_inc ?qs \<le> length ?qs"
    by (rule tally_le_length) (simp add: will_inc_def split: inc_pc.splits)
  then have "inc_counter s' + tally will_inc ?qs < nums + n"
    using bound upd(2) inv s' by (auto simp: inc_inv_def)
  moreover have "tally locked ?qs = (if inc_mutex s' then 1 else 0)"
    using mutex upd(1) inv by (auto simp: inc_inv_def split: if_splits)
  moreover have "v = inc_counter s'" if "I_Store v \<in> set ?qs" for v
  proof -
    from that obtain j where j: "j < length ?ps" "?ps[i := q] ! j = I_Store v"
      by (metis in_set_conv_nth length_list_update s')
    show ?thesis
    proof (cases "j = i")
      case False
      then have "locked p + locked (?ps ! j) \<le> 1"
        using tally_two[OF i j(1), of locked] inv by (auto simp: inc_inv_def p split: if_splits)
      moreover have "v = inc_counter s"
        using j(2) False nth_mem[OF j(1)] inv unfolding inc_inv_def by simp
      ultimately show ?thesis
        using j False ctr by (auto simp: locked_def)
    qed (use j store i in simp)
  qed
  moreover have "I_Ret \<in> set ?qs \<Longrightarrow> nums \<le> inc_counter s'"
    using set_update_subset_insert[of ?ps i q] inv ctr ret by (auto simp: inc_inv_def s')
  ultimately show ?thesis
    using inv by (simp add: inc_inv_def s')
qed

lemma inc_ok:
  assumes inv: "inc_inv n nums s" and i: "i < length (inc_pcs s)" and step: "inc nums i s = Some r"
  shows "\<exists>s'. r = Inr s' \<and> inc_inv n nums s' \<and> inc_work n nums s' < inc_work n nums s"
proof -
  let ?p = "inc_pcs s ! i"
  have p: "?p \<in> set (inc_pcs s)"
    using i by simp
  have less: "inc_counter s < nums + n"
    using inv by (simp add: inc_inv_def)
  have locked: "locked ?p = 1 \<Longrightarrow> inc_mutex s"
    using tally_nth[OF i, of locked] inv by (auto simp: inc_inv_def split: if_splits)
  note upd = tally_update[OF i, of inc_rank]
  note defs = inc_def Let_def locked_def will_inc_def
  have next_ok: "r = Inr s' \<Longrightarrow> inc_pcs s' = (inc_pcs s)[i := q] \<Longrightarrow> inc_inv n nums s' \<Longrightarrow>
      (inc_counter s' = inc_counter s \<and> inc_rank q < inc_rank ?p \<or>
       inc_counter s' = inc_counter s + 1 \<and> inc_rank q < inc_rank ?p + 10) \<Longrightarrow>
      \<exists>s'. r = Inr s' \<and> inc_inv n nums s' \<and> inc_work n nums s' < inc_work n nums s" for s' q
    using upd[of q] less by (auto simp: inc_work_def)
  show ?thesis
  proof (cases ?p)
    case I_Test
    show ?thesis
      by (rule next_ok[of "s\<lparr>inc_pcs := (inc_pcs s)[i := if inc_counter s < nums then I_Lock else I_Ret]\<rparr>"
            "if inc_counter s < nums then I_Lock else I_Ret"])
        (use step I_Test in \<open>auto simp: defs inc_rank_def intro!: inc_inv_update[OF inv i I_Test]\<close>)
  next
    case I_Lock
    show ?thesis
      by (rule next_ok[of "s\<lparr>inc_mutex := True, inc_pcs := (inc_pcs s)[i := I_Load]\<rparr>" I_Load])
        (use step I_Lock in \<open>auto simp: defs inc_rank_def intro!: inc_inv_update[OF inv i I_Lock] split: if_splits\<close>)
  next
    case I_Load
    show ?thesis
      by (rule next_ok[of "s\<lparr>inc_pcs := (inc_pcs s)[i := I_Store (inc_counter s)]\<rparr>" "I_Store (inc_counter s)"])
        (use step I_Load in \<open>auto simp: defs inc_rank_def intro!: inc_inv_update[OF inv i I_Load]\<close>)
  next
    case (I_Store v)
    have v: "v = inc_counter s"
      using inv p I_Store by (simp add: inc_inv_def)
    have "0 < tally will_inc (inc_pcs s)"
      using tally_nth[OF i, of will_inc] I_Store by (simp add: will_inc_def)
    then have "v + 1 < 2 ^ 31"
      using inv v by (auto simp: inc_inv_def)
    then show ?thesis
      using step I_Store v
      by (intro next_ok[of "s\<lparr>inc_counter := v + 1, inc_pcs := (inc_pcs s)[i := I_Unlock]\<rparr>" I_Unlock])
        (auto simp: defs inc_rank_def intro!: inc_inv_update[OF inv i I_Store])
  next
    case I_Unlock
    show ?thesis
      by (rule next_ok[of "s\<lparr>inc_mutex := False, inc_pcs := (inc_pcs s)[i := I_Test]\<rparr>" I_Test])
        (use step I_Unlock locked in \<open>auto simp: defs inc_rank_def intro!: inc_inv_update[OF inv i I_Unlock]\<close>)
  qed (use step in \<open>simp add: inc_def Let_def\<close>)
qed

lemma inc_stuck:
  assumes inv: "inc_inv n nums s" and stuck: "\<nexists>s'. inc_step nums s s'"
  shows "all_joined s"
proof -
  have none: "inc nums i s = None" if i: "i < length (inc_pcs s)" for i
  proof (cases "inc nums i s")
    case (Some r)
    then show ?thesis
      using inc_ok[OF inv i Some] stuck i by (auto intro: inc_step.intros)
  qed
  have still: "p = I_Ret \<or> p = I_Lock \<and> inc_mutex s" if p: "p \<in> set (inc_pcs s)" for p
  proof -
    from p obtain i where "i < length (inc_pcs s)" "inc_pcs s ! i = p"
      by (auto simp: in_set_conv_nth)
    then show ?thesis
      using none[of i] by (cases p) (auto simp: inc_def Let_def split: if_splits)
  qed
  then have "tally locked (inc_pcs s) = 0"
    using tally_const[of "inc_pcs s" locked 0] by (force simp: locked_def)
  then have "\<not> inc_mutex s"
    using inv by (auto simp: inc_inv_def)
  then show ?thesis
    using still by (auto simp: all_joined_def)
qed

lemma inc_start_inv: "0 < n \<Longrightarrow> nums + n \<le> 2 ^ 31 \<Longrightarrow> inc_inv n nums (bench_start n)"
  using tally_const[of "replicate n I_Test" locked 0] tally_const[of "replicate n I_Test" will_inc 0]
  by (simp add: inc_inv_def bench_start_def locked_def will_inc_def)

interpretation mtx_run: progress "inc_step nums" "inc_inv n nums" "inc_work n nums" all_joined for n nums
proof
  show "inc_inv n nums s \<Longrightarrow> inc_step nums s s' \<Longrightarrow> inc_inv n nums s'" for s s'
    by (auto elim!: inc_step.cases dest: inc_ok)
  show "inc_inv n nums s \<Longrightarrow> inc_step nums s s' \<Longrightarrow> inc_work n nums s' < inc_work n nums s" for s s'
    by (auto elim!: inc_step.cases dest: inc_ok)
qed (rule inc_stuck)

text \<open>
  (C40) However its threads are interleaved, a round of the mutex benchmark ends after boundedly many steps,
  and then the counter has reached \<open>NUMS\<close> and exceeds it by less than the number of threads, which
  test it before they lock the mutex.
\<close>

theorem mtx_counter_bounds:
  assumes "0 < n" "nums + n \<le> 2 ^ 31" "(inc_step nums ^^ m) (bench_start n) s"
  shows "m \<le> inc_work n nums (bench_start n) \<and>
    (\<forall>i < length (inc_pcs s). \<forall>e. inc nums i s \<noteq> Some (Inl e)) \<and>
    (\<exists>s'. (inc_step nums)\<^sup>*\<^sup>* s s' \<and> all_joined s') \<and> ((\<exists>s'. inc_step nums s s') \<or> all_joined s) \<and>
    (all_joined s \<longrightarrow> nums \<le> inc_counter s \<and> inc_counter s < nums + n)"
proof -
  have start: "inc_inv n nums (bench_start n)"
    by (rule inc_start_inv) (use assms in simp_all)
  have inv: "inc_inv n nums s"
    using mtx_run.run_inv[OF assms(3) start] by simp
  have "inc nums i s \<noteq> Some (Inl e)" if "i < length (inc_pcs s)" for i e
    using inc_ok[OF inv that] by fastforce
  moreover have "nums \<le> inc_counter s \<and> inc_counter s < nums + n" if "all_joined s"
  proof -
    have "I_Ret \<in> set (inc_pcs s)"
      using that inv assms(1) hd_in_set[of "inc_pcs s"] by (fastforce simp: all_joined_def inc_inv_def)
    then show ?thesis
      using inv by (simp add: inc_inv_def)
  qed
  ultimately show ?thesis
    using mtx_run.finishes[OF assms(3) start] by blast
qed

text \<open>The bound is reached: of two threads that both see 0, each makes an increment although \<open>NUMS\<close> is 1.\<close>

fun inc_run :: "nat \<Rightarrow> nat list \<Rightarrow> inc_state \<Rightarrow> inc_state option" where
  "inc_run nums [] s = Some s"
| "inc_run nums (i # is) s =
     (if i < length (inc_pcs s)
      then case inc nums i s of Some (Inr s) \<Rightarrow> inc_run nums is s | _ \<Rightarrow> None
      else None)"

lemma inc_run_steps: "inc_run nums is s = Some s' \<Longrightarrow> (inc_step nums ^^ length is) s s'"
proof (induction "is" arbitrary: s)
  case (Cons i js)
  then obtain t where "inc nums i s = Some (Inr t)" "i < length (inc_pcs s)" "inc_run nums js t = Some s'"
    by (auto split: if_splits option.splits sum.splits)
  then show ?case
    using Cons.IH[of t] relpowp_Suc_I2[of "inc_step nums" s t "length js" s'] by (auto intro: inc_step.intros)
qed simp

definition overshoot :: inc_state where
  "overshoot = \<lparr>inc_counter = 2, inc_mutex = False, inc_pcs = [I_Ret, I_Ret]\<rparr>"

lemma overshoot_run: "inc_run 1 [0, 1, 0, 0, 0, 0, 0, 1, 1, 1, 1, 1] (bench_start 2) = Some overshoot"
proof -
  have "bench_start 2 = \<lparr>inc_counter = 0, inc_mutex = False, inc_pcs = [I_Test, I_Test]\<rparr>"
    by (simp add: bench_start_def numeral_2_eq_2)
  then show ?thesis
    by (simp add: inc_def overshoot_def int_add_def)
qed

theorem mtx_counter_bounds_witness: "all_joined overshoot \<and> 1 \<le> inc_counter overshoot \<and> inc_counter overshoot < 1 + 2"
  using mtx_counter_bounds[OF _ _ inc_run_steps[OF overshoot_run]] by (simp add: all_joined_def overshoot_def)

section \<open>The atomic counter\<close>

lemma sint_small:
  fixes v :: i32
  assumes "unat v < 2 ^ 31"
  shows "sint v < int k \<longleftrightarrow> unat v < k" "int k \<le> sint v \<longleftrightarrow> k \<le> unat v"
proof -
  have "sint (of_nat (unat v) :: i32) = int (unat v)"
    by (rule sint_of_nat_small) (use assms in simp)
  then have "sint v = int (unat v)"
    by simp
  then show "sint v < int k \<longleftrightarrow> unat v < k" "int k \<le> sint v \<longleftrightarrow> k \<le> unat v"
    by (simp_all only: of_nat_less_iff of_nat_le_iff)
qed

definition adding :: "atomic_pc \<Rightarrow> nat" where
  "adding p = (case p of A_Add \<Rightarrow> 1 | _ \<Rightarrow> 0)"

definition atomic_rank :: "atomic_pc \<Rightarrow> nat" where
  "atomic_rank p = (case p of A_Test \<Rightarrow> 2 | A_Add \<Rightarrow> 1 | A_Ret \<Rightarrow> 0)"

definition atomic_inv :: "nat \<Rightarrow> nat \<Rightarrow> i32 \<times> atomic_pc list \<Rightarrow> bool" where
  "atomic_inv n nums = (\<lambda>(v, ps). length ps = n \<and> nums + n \<le> 2 ^ 31 \<and> unat v + tally adding ps < nums + n \<and>
     (A_Ret \<in> set ps \<longrightarrow> nums \<le> unat v))"

definition atomic_work :: "nat \<Rightarrow> nat \<Rightarrow> i32 \<times> atomic_pc list \<Rightarrow> nat" where
  "atomic_work n nums = (\<lambda>(v, ps). 3 * (nums + n - unat v) + tally atomic_rank ps)"

lemma atomic_ok:
  assumes inv: "atomic_inv n nums (v, ps)" and i: "i < length ps" and step: "atomic_inc nums i (v, ps) = Some (v', ps')"
  shows "atomic_inv n nums (v', ps') \<and> atomic_work n nums (v', ps') < atomic_work n nums (v, ps)"
proof -
  note upd = tally_update[OF i, of adding] tally_update[OF i, of atomic_rank]
  have small: "unat v + tally adding ps < 2 ^ 31" "sint v < int nums \<longleftrightarrow> unat v < nums"
    using inv sint_small[of v] by (auto simp: atomic_inv_def)
  have "tally adding qs \<le> length qs" for qs
    by (rule tally_le_length) (simp add: adding_def split: atomic_pc.splits)
  from this[of "ps[i := A_Add]"] have one: "tally adding (ps[i := A_Add]) \<le> n"
    using inv by (simp add: atomic_inv_def)
  show ?thesis
  proof (cases "ps ! i")
    case A_Test
    then show ?thesis
      using step inv small(2) one upd[of A_Add] upd[of A_Ret] set_update_subset_insert[of ps i A_Add]
        set_update_subset_insert[of ps i A_Ret]
      by (auto simp: atomic_inc_def atomic_inv_def atomic_work_def adding_def atomic_rank_def split: if_splits)
  next
    case A_Add
    then have "unat (v + 1) = unat v + 1"
      using small(1) tally_nth[OF i, of adding] by (intro unat_Suc_nowrap) (simp add: adding_def)
    then show ?thesis
      using step inv A_Add upd[of A_Test] set_update_subset_insert[of ps i A_Test]
      by (auto simp: atomic_inc_def atomic_inv_def atomic_work_def adding_def atomic_rank_def)
  qed (use step in \<open>simp add: atomic_inc_def\<close>)
qed

interpretation atomic_run: progress "atomic_step nums" "atomic_inv n nums" "atomic_work n nums" "\<lambda>s. \<forall>p \<in> set (snd s). p = A_Ret" for n nums
proof
  show "atomic_inv n nums s \<Longrightarrow> atomic_step nums s s' \<Longrightarrow> atomic_inv n nums s'" for s s'
    by (cases s; cases s') (auto elim!: atomic_step.cases dest: atomic_ok)
  show "atomic_inv n nums s \<Longrightarrow> atomic_step nums s s' \<Longrightarrow> atomic_work n nums s' < atomic_work n nums s" for s s'
    by (cases s; cases s') (auto elim!: atomic_step.cases dest: atomic_ok)
  show "\<forall>p \<in> set (snd s). p = A_Ret" if "\<nexists>s'. atomic_step nums s s'" for s
  proof
    fix p
    assume "p \<in> set (snd s)"
    then obtain i where i: "i < length (snd s)" "snd s ! i = p"
      by (auto simp: in_set_conv_nth)
    then have "atomic_inc nums i s = None"
      using that by (metis atomic_step.intros not_None_eq)
    then show "p = A_Ret"
      using i by (cases s; cases p) (auto simp: atomic_inc_def)
  qed
qed

text \<open>The same bounds hold for the counter of atomic.c, with either memory order, which is why it never wraps.\<close>

theorem atomic_counter_bounds:
  assumes "0 < n" "nums + n \<le> 2 ^ 31" "(atomic_step nums ^^ m) (atomic_start n) (v, ps)"
  shows "m \<le> atomic_work n nums (atomic_start n) \<and>
    (\<exists>s'. (atomic_step nums)\<^sup>*\<^sup>* (v, ps) s' \<and> (\<forall>p \<in> set (snd s'). p = A_Ret)) \<and>
    ((\<forall>p \<in> set ps. p = A_Ret) \<longrightarrow> int nums \<le> sint v \<and> sint v < int (nums + n))"
proof -
  have start: "atomic_inv n nums (atomic_start n)"
    using assms(1,2) tally_const[of "replicate n A_Test" adding 0] by (simp add: atomic_inv_def atomic_start_def adding_def)
  have inv: "atomic_inv n nums (v, ps)"
    using atomic_run.run_inv[OF assms(3) start] by simp
  have "int nums \<le> sint v \<and> sint v < int (nums + n)" if "\<forall>p \<in> set ps. p = A_Ret"
  proof -
    have "A_Ret \<in> set ps"
      using that inv assms(1) hd_in_set[of ps] by (fastforce simp: atomic_inv_def)
    then have "nums \<le> unat v" "unat v < nums + n" "unat v < 2 ^ 31"
      using inv by (auto simp: atomic_inv_def)
    then show ?thesis
      using sint_small[of v] by blast
  qed
  then show ?thesis
    using atomic_run.finishes[OF assms(3) start] by auto
qed

end
