(* ===== verification/Spec2Isabelle.thy ===== *)
theory Spec2Isabelle
  imports Parser_Print Shell_Memory UserFS_Spec ChatExe CoroSort_Spec ThreadPool_Spec HeapHelp_Spec MemSort_Spec CThread_Spec EchoServer_Spec Futex_Spec SemEvents_Spec EvLife_Spec Semaphores_Spec CpuReorder_Spec SpinLock_Spec PipeSort_Spec Condvar_Spec FileLock_Spec MsgTypes_Spec Bench_Spec
begin

text \<open>
  Verification of the programs of a system programming course, written in C.

  \<^bold>\<open>The program.\<close> The repository holds five programs and a library they share. src/1 sorts files of
  numbers with coroutines (\<open>libcoro.c\<close>, \<open>solution.c\<close>); src/2 is a shell (\<open>parser.c\<close>, \<open>solution.c\<close>);
  src/3 is a file system in memory (\<open>userfs.c\<close>); src/4 is a pool of threads (\<open>thread_pool.c\<close>);
  src/5 is a chat of one server and many clients (\<open>chat.c\<close>, \<open>chat_server.c\<close>, \<open>chat_client.c\<close>);
  src/utils/heap_help is a leak checker that is linked into the others and replaces \<open>malloc\<close> and
  \<open>free\<close>. src/lecture_examples, src/examples and src/bonus are small independent programs.

  \<^bold>\<open>How C is modelled.\<close> \<open>Prelude\<close> has the result monad \<open>cres\<close>: a value, or a \<open>c_error\<close> for a failed
  assertion, an access outside of a block or to freed memory, a null pointer, an overflow of a
  signed integer, a call of \<open>exit\<close>, an exhausted stack or an endless loop. A theorem whose
  conclusion is \<open>Inr\<close> therefore says that none of these happens. Sizes are words of the width of
  the C type where they can wrap. Linked structures are cells in a map from addresses where
  aliasing matters (queues, coroutines, files, tasks), lists elsewhere. Code outside of the
  repository is an argument: the operating system of the shell (record \<open>os\<close>), the sockets of the
  chat (\<open>net\<close>), the readings of the clock, the content of the input files and of fresh memory, the
  functions the leak checker wraps (\<open>sysfns\<close>). What is assumed of an argument is a hypothesis of the
  theorem, and each such theorem has a witness with concrete functions.

  \<^bold>\<open>Shell.\<close> \<open>Parser\<close> models src/2/parser.c: the input buffer with 32-bit size and capacity,
  \<open>parse_token\<close>, the line parser \<open>parser_pop_next\<close> with every error code, and the release of a line.
  It is shown that a call consumes exactly one line and leaves the rest, that the buffer is
  equivalent to the text fed so far, and that deleting a line frees each of its blocks once.
  \<open>Parser_Print\<close> adds a printer and the round trip print/parse, and the inputs that are not treated
  as a shell should. \<open>Shell\<close> models src/2/solution.c: the tree of a line, its execution and \<open>main\<close>;
  the tree is executed as the chain of pipelines with short circuit that the line denotes, and how
  the input is cut into blocks does not matter. \<open>Shell_Memory\<close> builds the same tree on a heap and shows
  that \<open>node_free\<close> and \<open>all_free\<close> release every block of it once.

  \<^bold>\<open>File system.\<close> \<open>UserFS\<close> models every function of src/3/userfs.c over a heap of file objects with
  reference counts. \<open>UserFS_Refine\<close> has the invariant and the abstract file system (a map from
  descriptors to a file and a position, files being byte lists), \<open>UserFS_Spec\<close> the refinement of each
  call on every branch, the safety of every sequence of calls, the round trip of writing and
  reading (locale \<open>byte_files\<close>, interpreted as \<open>ufs_io\<close>), and two failures of \<open>ufs_resize\<close>.

  \<^bold>\<open>Chat.\<close> \<open>Queue\<close> states the contract of a linked queue as the locale \<open>fifo_queue\<close>; \<open>Chat\<close> models
  src/5/chat.c and interprets the contract for its queue (\<open>chat_queue\<close>). \<open>Chat_Wire\<close> shows that a
  message sent over a stream that cuts it at any place arrives, that trimming is what it says, and
  which lengths break the receiver. \<open>ChatServer\<close> and \<open>ChatClient\<close> model the two halves with all
  operations of their headers; \<open>Chat_Spec\<close> shows that \<open>feed\<close> queues exactly the non-empty lines of
  all bytes fed so far, once for both halves (locale \<open>message_sink\<close>, interpretations \<open>server_sink\<close> and
  \<open>client_sink\<close>), and that one update of the server relays a message to every other client.
  \<open>ChatExe\<close> models chat_server_exe.c and chat_client_exe.c and shows that a line typed at a client
  leaves it as the bytes which the theorem about the server takes, and that the bytes the server
  sends are printed by another client; it also shows that the executable of the server, as it is
  compiled, serves nobody.

  \<^bold>\<open>Coroutines and sorting.\<close> \<open>Coro\<close> models src/1/libcoro.c: a coroutine is a resumption, the scheduler
  works on a doubly linked list of cells. \<open>Coro_Sched\<close> shows that the list stays well formed and
  that \<open>coro_sched_wait\<close> ends; its locale \<open>cooperative\<close> is the contract between the scheduler and
  programs whose coroutines keep a common invariant. \<open>MergeSort\<close> and \<open>CoroSort\<close> model
  src/1/solution.c; \<open>CoroSort_Spec\<close> interprets the locale (\<open>sort_coros\<close>) and shows that all coroutines
  finish under every clock, that each file is sorted by one coroutine, what is written to the
  result, and that the code reads one number behind the end of each array.

  \<^bold>\<open>Thread pool.\<close> \<open>ThreadPool\<close> models src/4/thread_pool.c as a step relation: a critical section is one
  step, and the client and the threads interleave in any order. Its task queue is an
  interpretation of \<open>fifo_queue\<close> (\<open>task_queue\<close>). \<open>ThreadPool_Spec\<close> has the invariant of all reachable
  states, safety of every client that follows the rules of the header file, and that pushed tasks
  finish in a bounded number of steps; and what a pool does whose counter starts with junk.

  \<^bold>\<open>Leak checker.\<close> \<open>HeapHelp\<close> models src/utils/heap_help/heap_help.c for one thread, \<open>HeapHelp_Spec\<close>
  shows that its table equals the set of live blocks and that the report at exit is exact.

  \<^bold>\<open>Processes and pipes, memory and messages.\<close> \<open>MemSort\<close> models 7_ipc/3_mem_sort.c of the lecture examples,
  whose processes hand pieces of an array over in shared memory with two flags; \<open>MemSort_Spec\<close> shows by six
  phases of a channel that the two ends never copy at the same time and that the program ends with the
  sorted files. \<open>PipeSort\<close> models 1_simple_sort.c and 2_parallel_sort.c; \<open>PipeSort_Spec\<close> shows that the
  processes with pipes get the array of the sequential program in every schedule and however reads and
  writes are cut. \<open>SemEvents\<close> models the loops of 9_sem_event_source.c and 9_sem_event_cons.c over semaphores and a queue
  that exist; \<open>SemEvents_Spec\<close> shows that the lines are printed in order, a round at a time, by one consumer at a
  time. \<open>EvLife\<close> is the whole life of both programs, from the creation of the semaphores to their removal, with the
  failures of the kernel; \<open>EvLife_Spec\<close> shows that it refines \<open>SemEvents\<close> and where it does not. \<open>MsgTypes\<close> models
  7_msgsend_client.c, 7_msgsend_server.c and 7_msgsend_server_flag.c over the same packing of messages;
  \<open>MsgTypes_Spec\<close> shows what is printed in every interleaving, and what a client that comes too early does.
  \<open>Scan\<close> has \<open>strtol\<close> and \<open>sscanf\<close> and their round trip with the decimal text of a number. \<open>Semaphores\<close>
  models 8_sem.c, a shell for three semaphores, as processes that interleave at every call;
  \<open>Semaphores_Spec\<close> shows that a transaction is atomic, that the semaphores and what the kernel undoes add up, and
  what a session leaves behind. \<open>FileLock\<close> models 9_aio/3_fcntl_lock.c with the locks of the kernel as a list of
  ranges; \<open>FileLock_Spec\<close> relates the list to a map from bytes to locks, and shows that the text of a command
  changes the map as it says and that conflicting locks are never held together.

  \<^bold>\<open>Threads and memory.\<close> \<open>CThread\<close> models 6_threads/12_cthread_detach.c, threads that are created, detached and
  joined with spin locks; \<open>CThread_Spec\<close> shows that stacks are neither freed in use nor freed twice nor lost,
  and that everything ends. \<open>Futex\<close> models 8_futex.c; \<open>Futex_Spec\<close> shows that its lock excludes, that no
  wake-up is lost and what main prints. \<open>StoreBuffer\<close> is the memory of x86, where a store waits in the buffer of its
  thread. Over it \<open>CpuReorder\<close> models 8_5_cpu_reordering.c, and \<open>CpuReorder_Spec\<close> shows that the fence prevents the
  reordering and that it happens without; \<open>SpinLock\<close> models 8_6_spinlock_acq_rel.c, and \<open>SpinLock_Spec\<close> shows that
  the count is exact although the lock is released by a plain store. \<open>Twister\<close> models the generator of
  8_5_random_generator.h and shows that it is the Mersenne twister of its recurrence. \<open>Condvar\<close> models 13_simple_condvar.c
  and 14_condvar.c; \<open>Condvar_Spec\<close> shows that the second loses no event and that the first can lose all.

  That a system ends under every schedule, or can go on to its end from everywhere, is the locale \<open>progress\<close> of
  \<open>Prelude\<close>: a step relation with an invariant and a measure that is stuck only where it has finished. It is
  interpreted for each of these systems that ends (\<open>ms_run\<close>, \<open>pipe_run\<close>, \<open>ev_run\<close>, \<open>msg_run\<close>, \<open>ct_run\<close>, \<open>futex_run\<close>, \<open>spin_run\<close>,
  \<open>condvar_run\<close>), the thread pool (\<open>pool_run\<close>) and the two counters below (\<open>mtx_run\<close>, \<open>atomic_run\<close>).

  \<^bold>\<open>Benchmarks.\<close> \<open>Bench\<close> models the sorting and the reports of src/bonus/mtx.c, atomic.c, pthread_join.c and
  clock.c over given measurements, and the threads of the first two; \<open>Bench_Spec\<close> shows which results
  the reports print and how far the counters pass their bound.

  \<^bold>\<open>Echo servers.\<close> \<open>EchoServer\<close> models the servers of 9_aio/4_server_select.c, 5_server_poll.c,
  6_server_kqueue.c and 7_server_epoll.c, the daemon 10_users/9_daemon.c and their client 9_aio/4_client.c over sockets that are
  an argument (record \<open>io\<close>). \<open>EchoServer_Spec\<close> shows for a round of the first what each client is sent and
  who stays in the table, that the loop of the second does the same, what the one with \<open>epoll\<close> does
  with an event, when the one with \<open>kqueue\<close> does the same and which numbers it loses, that a new connection keeps the second from serving anyone, and what a session prints.

  \<^bold>\<open>Loops, fuel and bounds.\<close> Loops are structural recursion or have a termination proof. The scheduler
  loop of the coroutines is a \<open>partial_function (option)\<close>, since a coroutine could yield for ever;
  that it returns is a theorem. So is the loop of the chat client, which ends only with its
  input or the connection, and the loops of the echo servers, which end only with an error; the
  theorems are about their rounds. Destroying a queue pops with fuel, one more than the counter of
  the queue, which is shown to be enough (\<open>queue_drain_all\<close>). The sorting theorems assume
  \<open>2 * size < 2 ^ 31\<close>, the range in which the \<open>int\<close> indices do not overflow. A pool needs at most
  \<open>work s\<close> steps of its threads to finish the pushed tasks, and a run of the futex lock has at most
  \<open>fx_work n k\<close> of the initial state for \<open>n\<close> threads of \<open>k\<close> rounds.

  \<^bold>\<open>Not modelled.\<close> The text of printed messages; the switch of stacks inside \<open>coro_new\<close>
  (\<open>sigaltstack\<close>, \<open>setjmp\<close>), whose effect is the resumption; the release of memory whose address no
  later code uses (except in the shell, the file system and the threads, where it is modelled);
  weak memory except in the two programs over \<open>StoreBuffer\<close>, and threads inside of the leak checker; wake-ups of a
  futex that nobody has caused; keys and permissions of the System V objects; the time arguments of the chat, which go to
  \<open>epoll_wait\<close> unread. The tests, the generator and checker scripts and most of the small programs
  of src/lecture_examples, src/examples and src/bonus are not modelled: they are demonstrations of
  single system calls, whose behaviour is that of the operating system.
\<close>

end
